(* ===== verification/Prelude.thy ===== *)
theory Prelude
  imports Main "HOL-Library.Word"
begin

text \<open>
  Vocabulary shared by every component theory: bytes and machine words, the crate's error type
  (\<open>src/src/error.rs\<close>) and its \<open>Result\<close>, sequencing of fallible computations with and without
  a threaded state, the byte transport that stands for \<open>Read + Write\<close>, and the generic lemmas
  the components share.

  Conventions.  A \<open>u8\<close>, \<open>u16\<close>, \<open>u32\<close>, \<open>u64\<close> is a word of that width, an \<open>i64\<close> that the code keeps
  far from its bounds is an \<open>int\<close> (the bounds are theorems), a \<open>usize\<close> length or cursor is a
  \<open>nat\<close>.  A \<open>str\<close> is a \<open>string\<close> holding its UTF-8 bytes, one \<open>char\<close> per byte.  The message carried
  by an error is the format string of the source; its interpolated arguments are left out.
\<close>

type_synonym byte = "8 word"
type_synonym u16 = "16 word"
type_synonym u32 = "32 word"
type_synonym u64 = "64 word"
type_synonym bytes = "byte list"

lemma unat_byte_less: "unat (b :: byte) < 256"
proof -
  have "unat b < 2 ^ LENGTH(8)" by (rule unsigned_less)
  then show ?thesis by simp
qed

text \<open>\<open>usize::saturating_add\<close>; lengths are \<open>nat\<close>, below \<open>2 ^ 64\<close> on the 64-bit targets.\<close>

definition saturating_add_usize :: "nat \<Rightarrow> nat \<Rightarrow> nat" where
  "saturating_add_usize a b = min (a + b) (2 ^ 64 - 1)"

subsection \<open>Errors and results\<close>

text \<open>\<open>io::ErrorKind\<close>: the kinds the code itself creates or matches on.\<close>

datatype io_kind = InvalidData | InvalidInput | IoUnexpectedEof | BrokenPipe
  | ConnectionReset | ConnectionAborted | NotConnected | TimedOut | WouldBlock | NotFound | IoOther

datatype error =
    InvalidUrl string
  | UnsupportedScheme string
  | Io io_kind
  | BadResponse string
  | UnexpectedEof
  | H2NotNegotiated
  | Ssh string

type_synonym 'a result = "error + 'a"

text \<open>The \<open>?\<close> operator on a \<open>Result\<close>.\<close>

fun bindR :: "'e + 'a \<Rightarrow> ('a \<Rightarrow> 'e + 'b) \<Rightarrow> 'e + 'b" where
  "bindR (Inl e) f = Inl e"
| "bindR (Inr x) f = f x"

text \<open>The \<open>?\<close> operator in a method on \<open>&mut self\<close>: the state survives an early return.\<close>

fun bindS :: "('e + 'a) \<times> 's \<Rightarrow> ('a \<Rightarrow> 's \<Rightarrow> ('e + 'b) \<times> 's) \<Rightarrow> ('e + 'b) \<times> 's" where
  "bindS (Inl e, s) f = (Inl e, s)"
| "bindS (Inr x, s) f = f x s"

fun is_ok :: "'e + 'a \<Rightarrow> bool" where
  "is_ok (Inl e) = False"
| "is_ok (Inr x) = True"

lemma bindR_cong [fundef_cong]:
  assumes "m = m'" and "\<And>x. m' = Inr x \<Longrightarrow> f x = f' x"
  shows "bindR m f = bindR m' f'"
  using assms by (cases m') auto

lemma bindS_cong [fundef_cong]:
  assumes "m = m'" and "\<And>x s. m' = (Inr x, s) \<Longrightarrow> f x s = f' x s"
  shows "bindS m f = bindS m' f'"
proof (cases m')
  case (Pair r s)
  then show ?thesis using assms by (cases r) auto
qed

lemma bindR_eq_Inr: "bindR m f = Inr y \<longleftrightarrow> (\<exists>x. m = Inr x \<and> f x = Inr y)"
  by (cases m) auto

lemma bindR_eq_Inl: "bindR m f = Inl e \<longleftrightarrow> m = Inl e \<or> (\<exists>x. m = Inr x \<and> f x = Inl e)"
  by (cases m) auto

lemma bindS_eq_Inr:
  "bindS m f = (Inr y, t) \<longleftrightarrow> (\<exists>x s. m = (Inr x, s) \<and> f x s = (Inr y, t))"
proof (cases m)
  case (Pair r s)
  then show ?thesis by (cases r) auto
qed

lemma bindS_eq_Inl:
  "bindS m f = (Inl e, t) \<longleftrightarrow> m = (Inl e, t) \<or> (\<exists>x s. m = (Inr x, s) \<and> f x s = (Inl e, t))"
proof (cases m)
  case (Pair r s)
  then show ?thesis by (cases r) auto
qed

text \<open>A property of the threaded state that both halves keep is kept by the sequence.\<close>

lemma bindS_state:
  assumes "P (snd m)" and "\<And>x s. m = (Inr x, s) \<Longrightarrow> P s \<Longrightarrow> P (snd (f x s))"
  shows "P (snd (bindS m f))"
proof (cases m)
  case (Pair r s)
  then show ?thesis using assms by (cases r) auto
qed

lemma bindS_post:
  assumes "P (snd m)" and "\<And>s. P s \<Longrightarrow> Q s" and "\<And>x s. m = (Inr x, s) \<Longrightarrow> P s \<Longrightarrow> Q (snd (f x s))"
  shows "Q (snd (bindS m f))"
proof (cases m)
  case (Pair r s)
  then show ?thesis using assms by (cases r) auto
qed

lemmas bind_simps = bindR_eq_Inr bindR_eq_Inl bindS_eq_Inr bindS_eq_Inl

text \<open>\<open>From<io::Error> for Error\<close>: what \<open>?\<close> does to an \<open>io::Result\<close>.\<close>

fun liftIo :: "io_kind + 'a \<Rightarrow> 'a result" where
  "liftIo (Inl k) = Inl (Io k)"
| "liftIo (Inr x) = Inr x"

lemma liftIo_eq_Inr [simp]: "liftIo m = Inr x \<longleftrightarrow> m = Inr x"
  by (cases m) auto

subsection \<open>Big-endian integers\<close>

unbundle bit_operations_syntax

lemma and_ff: "(n :: 'a :: semiring_bit_operations) AND 0xff = take_bit 8 n"
  by (simp add: take_bit_eq_mask mask_numeral)

lemma and_7f: "(n :: 'a :: semiring_bit_operations) AND 0x7f = take_bit 7 n"
  by (simp add: take_bit_eq_mask mask_numeral)

definition from_be16 :: "byte \<Rightarrow> byte \<Rightarrow> u16" where
  "from_be16 a b = push_bit 8 (ucast a) OR ucast b"

definition to_be16 :: "u16 \<Rightarrow> bytes" where
  "to_be16 w = [ucast (drop_bit 8 w), ucast w]"

definition from_be32 :: "byte \<Rightarrow> byte \<Rightarrow> byte \<Rightarrow> byte \<Rightarrow> u32" where
  "from_be32 a b c d =
     push_bit 24 (ucast a) OR push_bit 16 (ucast b) OR push_bit 8 (ucast c) OR ucast d"

definition to_be32 :: "u32 \<Rightarrow> bytes" where
  "to_be32 w = [ucast (drop_bit 24 w), ucast (drop_bit 16 w), ucast (drop_bit 8 w), ucast w]"

lemma length_to_be16 [simp]: "length (to_be16 w) = 2"
  by (simp add: to_be16_def)

lemma length_to_be32 [simp]: "length (to_be32 w) = 4"
  by (simp add: to_be32_def)

lemma from_be16_to_be16 [simp]: "from_be16 (ucast (drop_bit 8 w)) (ucast w) = w"
proof (rule bit_word_eqI)
  fix n
  assume "n < LENGTH(16)"
  then show "bit (from_be16 (ucast (drop_bit 8 w)) (ucast w)) n = bit w n"
    by (cases "n < 8") (auto simp: from_be16_def bit_simps)
qed

lemma from_be32_to_be32 [simp]:
  "from_be32 (ucast (drop_bit 24 w)) (ucast (drop_bit 16 w)) (ucast (drop_bit 8 w)) (ucast w) = w"
proof (rule bit_word_eqI)
  fix n
  assume "n < LENGTH(32)"
  then consider "n < 8" | "8 \<le> n" "n < 16" | "16 \<le> n" "n < 24" | "24 \<le> n" "n < 32"
    by fastforce
  then show "bit (from_be32 (ucast (drop_bit 24 w)) (ucast (drop_bit 16 w))
      (ucast (drop_bit 8 w)) (ucast w)) n = bit w n"
    by cases (auto simp: from_be32_def bit_simps)
qed

definition from_be64 :: "bytes \<Rightarrow> u64" where
  "from_be64 bs = foldl (\<lambda>acc b. push_bit 8 acc OR ucast b) 0 bs"

definition to_be64 :: "u64 \<Rightarrow> bytes" where
  "to_be64 w = [ucast (drop_bit 56 w), ucast (drop_bit 48 w), ucast (drop_bit 40 w), ucast (drop_bit 32 w),
                ucast (drop_bit 24 w), ucast (drop_bit 16 w), ucast (drop_bit 8 w), ucast w]"

lemma from_be64_to_be64 [simp]: "from_be64 (to_be64 w) = w"
proof (rule bit_word_eqI)
  fix n
  assume "n < LENGTH(64)"
  then have "n < 64" by simp
  then consider "n < 8" | "8 \<le> n" "n < 16" | "16 \<le> n" "n < 24" | "24 \<le> n" "n < 32" | "32 \<le> n" "n < 40"
    | "40 \<le> n" "n < 48" | "48 \<le> n" "n < 56" | "56 \<le> n" "n < 64" by linarith
  then show "bit (from_be64 (to_be64 w)) n = bit w n"
    by cases (simp_all add: from_be64_def to_be64_def bit_simps less_diff_conv2)
qed

lemma length_to_be64 [simp]: "length (to_be64 w) = 8"
  by (simp add: to_be64_def)

subsection \<open>The transport\<close>

text \<open>
  \<open>S: Read + Write\<close>.  \<open>t_in\<close> is what the peer will have sent, in order; once it is exhausted a read
  fails with \<open>t_end\<close> (\<open>IoUnexpectedEof\<close> when the peer closed cleanly).  \<open>t_out\<close> is what has been
  written; \<open>t_cap\<close> bounds how many more bytes the peer takes before writes fail with a broken pipe
  (\<open>None\<close>: no bound), so that every write error of the code is a reachable branch.
\<close>

record transport =
  t_in :: bytes
  t_end :: io_kind
  t_out :: bytes
  t_cap :: "nat option"

text \<open>A transport with nothing to read that takes every write.\<close>

definition fresh_transport :: transport where
  "fresh_transport = \<lparr>t_in = [], t_end = IoUnexpectedEof, t_out = [], t_cap = None\<rparr>"

text \<open>\<open>Read::read_exact\<close> into a buffer of \<open>n\<close> bytes.\<close>

definition read_exact :: "nat \<Rightarrow> transport \<Rightarrow> (io_kind + bytes) \<times> transport" where
  "read_exact n t =
     (if n \<le> length (t_in t) then (Inr (take n (t_in t)), t\<lparr>t_in := drop n (t_in t)\<rparr>)
      else (Inl (t_end t), t\<lparr>t_in := []\<rparr>))"

text \<open>\<open>Write::write_all\<close>.\<close>

definition write_all :: "bytes \<Rightarrow> transport \<Rightarrow> (io_kind + unit) \<times> transport" where
  "write_all bs t =
     (case t_cap t of
        None \<Rightarrow> (Inr (), t\<lparr>t_out := t_out t @ bs\<rparr>)
      | Some c \<Rightarrow>
          if length bs \<le> c
          then (Inr (), t\<lparr>t_out := t_out t @ bs, t_cap := Some (c - length bs)\<rparr>)
          else (Inl BrokenPipe, t\<lparr>t_out := t_out t @ take c bs, t_cap := Some 0\<rparr>))"

text \<open>\<open>Write::flush\<close>: writes go straight to the peer, so a flush only reports a peer that takes no more.\<close>

definition flush :: "transport \<Rightarrow> (io_kind + unit) \<times> transport" where
  "flush t = (if t_cap t = Some 0 then Inl BrokenPipe else Inr (), t)"

lemma write_all_in [simp]:
  "t_in (snd (write_all bs t)) = t_in t" "t_end (snd (write_all bs t)) = t_end t"
  by (auto simp: write_all_def split: option.splits)

lemma flush_state [simp]: "snd (flush t) = t"
  by (simp add: flush_def)

lemma write_all_unbounded [simp]:
  "t_cap t = None \<Longrightarrow> write_all bs t = (Inr (), t\<lparr>t_out := t_out t @ bs\<rparr>)"
  by (simp add: write_all_def)

lemma flush_unbounded [simp]: "t_cap t = None \<Longrightarrow> flush t = (Inr (), t)"
  by (simp add: flush_def)

end
