(* ===== verification/Codec.thy ===== *)
theory Codec
  imports Prelude
begin

text \<open>
  The interface of a self-delimiting byte codec: what a decoder owes its callers about the encoder
  it is paired with.  Decoders return the value and the number of bytes consumed, as the crate's
  do.  The lemmas proved here once (unique decoding, injectivity, decoding of a sequence) are
  available to every codec of the crate that interprets the locale.
\<close>

text \<open>Reading \<open>n\<close> values one after the other, the way the callers advance their cursor.\<close>

fun decode_seq :: "(bytes \<Rightarrow> 'e + 'a \<times> nat) \<Rightarrow> nat \<Rightarrow> bytes \<Rightarrow> 'e + 'a list \<times> bytes" where
  "decode_seq dec 0 bs = Inr ([], bs)"
| "decode_seq dec (Suc n) bs =
     bindR (dec bs) (\<lambda>(x, k).
       bindR (decode_seq dec n (drop k bs)) (\<lambda>(xs, rest). Inr (x # xs, rest)))"

locale codec =
  fixes enc :: "'a \<Rightarrow> bytes"
    and dec :: "bytes \<Rightarrow> 'e + 'a \<times> nat"
    and valid :: "'a \<Rightarrow> bool"
  assumes dec_enc: "valid x \<Longrightarrow> dec (enc x @ rest) = Inr (x, length (enc x))"
begin

lemma dec_enc_only: "valid x \<Longrightarrow> dec (enc x) = Inr (x, length (enc x))"
  using dec_enc [of x "[]"] by simp

text \<open>No encoding is a prefix of another one, so the concatenation can be split in one way only.\<close>

lemma unique_split:
  assumes "valid x" and "valid y" and "enc x @ r = enc y @ s"
  shows "x = y \<and> r = s"
proof -
  have "Inr (x, length (enc x)) = (Inr (y, length (enc y)) :: 'e + 'a \<times> nat)"
    using dec_enc [OF assms(1), of r] dec_enc [OF assms(2), of s] assms(3) by simp
  then have "x = y" by simp
  with assms(3) show ?thesis by simp
qed

lemma enc_injective: "valid x \<Longrightarrow> valid y \<Longrightarrow> enc x = enc y \<Longrightarrow> x = y"
  using unique_split [of x y "[]" "[]"] by simp

lemma decode_seq_concat:
  "(\<And>x. x \<in> set xs \<Longrightarrow> valid x) \<Longrightarrow>
     decode_seq dec (length xs) (concat (map enc xs) @ rest) = Inr (xs, rest)"
  by (induction xs) (simp_all add: dec_enc)

end

end
