(* ===== verification/Hpack_Int.thy ===== *)
theory Hpack_Int
  imports Codec
begin

text \<open>
  The HPACK integer codec (RFC 7541 5.1; \<open>encode_int\<close> and \<open>decode_int\<close> of \<open>src/src/http2.rs\<close>) on
  \<open>u64\<close> values, with the code's shifts, its \<open>checked_add\<close> and its \<open>shift > 63\<close> cut-off.  The lemmas:
  the round trip at every prefix width (which makes each width a \<open>codec\<close>), the exact value of every
  accepted encoding of at most ten bytes, and what happens at the eleventh.
\<close>

subsection \<open>The code\<close>

text \<open>The loop that emits the base-128 digits.\<close>

function encode_int_loop :: "u64 \<Rightarrow> bytes" where
  "encode_int_loop rem =
     (if rem \<ge> 128 then (ucast (rem AND 0x7f) OR 0x80) # encode_int_loop (drop_bit 7 rem)
      else [ucast rem])"
  by pat_completeness auto
termination
proof (relation "measure unat", goal_cases)
  case (2 rem)
  then have "unat (drop_bit 7 rem) < unat rem"
    by (simp add: unat_drop_bit_eq drop_bit_eq_div word_le_nat_alt unat_div)
  then show ?case by simp
qed simp

declare encode_int_loop.simps [simp del]

definition max_prefix :: "nat \<Rightarrow> u64" where
  "max_prefix prefix_bits = push_bit prefix_bits 1 - 1"

lemma max_prefix_mask: "max_prefix p = mask p"
  by (simp add: max_prefix_def mask_eq_exp_minus_1)

definition encode_int :: "u64 \<Rightarrow> nat \<Rightarrow> bytes" where
  "encode_int value prefix_bits =
     (if value < max_prefix prefix_bits then [ucast value]
      else ucast (max_prefix prefix_bits) # encode_int_loop (value - max_prefix prefix_bits))"

definition checked_add64 :: "u64 \<Rightarrow> u64 \<Rightarrow> u64 option" where
  "checked_add64 a b = (if unat a + unat b < 2 ^ 64 then Some (a + b) else None)"

text \<open>The decoding loop, on the bytes from index \<open>i\<close> on.\<close>

fun decode_int_loop :: "bytes \<Rightarrow> nat \<Rightarrow> nat \<Rightarrow> u64 \<Rightarrow> (u64 \<times> nat) result" where
  "decode_int_loop [] i shift value = Inl (BadResponse ''hpack: truncated integer'')"
| "decode_int_loop (b # bs) i shift value =
     (case checked_add64 value (push_bit shift (ucast (b AND 0x7f))) of
        None \<Rightarrow> Inl (BadResponse ''hpack: integer overflow'')
      | Some v \<Rightarrow>
          if b AND 0x80 = 0 then Inr (v, Suc i)
          else if shift + 7 > 63 then Inl (BadResponse ''hpack: integer overflow'')
          else decode_int_loop bs (Suc i) (shift + 7) v)"

definition decode_int :: "nat \<Rightarrow> bytes \<Rightarrow> (u64 \<times> nat) result" where
  "decode_int prefix_bits buf =
     (case buf of
        [] \<Rightarrow> Inl (BadResponse ''hpack: empty integer'')
      | b # bs \<Rightarrow>
          let value = ucast b AND max_prefix prefix_bits in
          if value < max_prefix prefix_bits then Inr (value, 1)
          else decode_int_loop bs 1 0 value)"

subsection \<open>Digits\<close>

lemma digit_bits:
  fixes rem :: u64
  shows "ucast ((ucast (rem AND 0x7f) OR 0x80 :: byte) AND 0x7f) = take_bit 7 rem"
    and "(ucast (rem AND 0x7f) OR 0x80 :: byte) AND 0x80 \<noteq> 0"
proof -
  show "ucast ((ucast (rem AND 0x7f) OR 0x80 :: byte) AND 0x7f) = take_bit 7 rem"
  proof (rule bit_word_eqI)
    fix n
    assume "n < LENGTH(64)"
    have "\<not> bit (0x80 :: byte) n" if "n < 7"
      using that by (auto simp: less_Suc_eq numeral_eq_Suc)
    then show "bit (ucast ((ucast (rem AND 0x7f) OR 0x80 :: byte) AND 0x7f) :: u64) n
        = bit (take_bit 7 rem) n"
      by (auto simp: and_7f bit_simps)
  qed
  have "bit ((ucast (rem AND 0x7f) OR 0x80 :: byte) AND 0x80) 7"
    by (simp add: bit_simps)
  then show "(ucast (rem AND 0x7f) OR 0x80 :: byte) AND 0x80 \<noteq> 0"
    by (metis bit_0_eq bot_apply bot_bool_def)
qed

lemma last_digit_bits:
  fixes rem :: u64
  assumes "rem < 128"
  shows "ucast ((ucast rem :: byte) AND 0x7f) = rem" and "(ucast rem :: byte) AND 0x80 = 0"
proof -
  have "unat rem < 2 ^ 7" using assms by (simp add: word_less_nat_alt)
  then have high: "n < 7" if "bit rem n" for n
    using that bit_take_bit_iff [of 7 "unat rem" n]
    by (simp add: take_bit_nat_eq_self bit_unsigned_iff)
  show "ucast ((ucast rem :: byte) AND 0x7f) = rem"
    by (rule bit_word_eqI) (use high in \<open>force simp: and_7f bit_simps\<close>)
  show "(ucast rem :: byte) AND 0x80 = 0"
  proof (rule bit_word_eqI)
    fix n
    assume n: "n < LENGTH(8)"
    have "\<not> bit (0x80 :: byte) n" if "n < 7"
      using that by (auto simp: less_Suc_eq numeral_eq_Suc)
    moreover have "\<not> bit rem n" if "\<not> n < 7"
      using that high by blast
    ultimately show "bit ((ucast rem :: byte) AND 0x80) n = bit (0 :: byte) n"
      by (auto simp: bit_simps)
  qed
qed

subsection \<open>The round trip\<close>

lemma unat_push_small:
  fixes d :: u64
  assumes "unat d * 2 ^ shift < 2 ^ 64"
  shows "unat (push_bit shift d) = unat d * 2 ^ shift"
  using assms by (simp only: unsigned_push_bit_eq) (simp add: push_bit_eq_mult take_bit_nat_eq_self)

lemma shift_within_word:
  assumes "128 \<le> r" and "r * 2 ^ shift < (2 :: nat) ^ 64"
  shows "shift + 7 \<le> 63"
proof -
  have "(2 :: nat) ^ (7 + shift) \<le> r * 2 ^ shift"
    using assms(1) by (simp add: power_add)
  then have "(2 :: nat) ^ (7 + shift) < 2 ^ 64"
    using assms(2) by (rule le_less_trans)
  then have "7 + shift < 64" by (simp only: power_strict_increasing_iff)
  then show ?thesis by simp
qed

lemma split_at_7: "take_bit 7 (r :: nat) + drop_bit 7 r * 128 = r"
  by (simp add: take_bit_eq_mod drop_bit_eq_div)

lemma push_digits: "push_bit s (take_bit 7 r) + push_bit (s + 7) (drop_bit 7 r) = push_bit s (r :: u64)"
proof -
  have "push_bit s (take_bit 7 r) + push_bit (s + 7) (drop_bit 7 r)
      = push_bit s (push_bit 7 (drop_bit 7 r) + take_bit 7 r)"
    by (simp only: push_bit_add push_bit_push_bit add.commute)
  then show ?thesis by (simp only: bits_ident)
qed

lemma decode_int_loop_encode:
  "unat acc + unat rem * 2 ^ shift < 2 ^ 64 \<Longrightarrow>
     decode_int_loop (encode_int_loop rem @ rest) i shift acc
       = Inr (acc + push_bit shift rem, i + length (encode_int_loop rem))"
proof (induction rem arbitrary: acc shift i rule: encode_int_loop.induct)
  case (1 rem)
  show ?case
  proof (cases "rem \<ge> 128")
    case True
    then have "128 \<le> unat rem" by (simp add: word_le_nat_alt)
    then have shift: "shift + 7 \<le> 63"
      using shift_within_word [of "unat rem" shift] "1.prems" by simp
    let ?d = "push_bit shift (take_bit 7 rem)"
    have split: "unat rem * 2 ^ shift
        = take_bit 7 (unat rem) * 2 ^ shift + drop_bit 7 (unat rem) * 2 ^ (shift + 7)"
      by (subst (1) split_at_7 [symmetric]) (simp add: power_add algebra_simps)
    then have d: "unat ?d = take_bit 7 (unat rem) * 2 ^ shift"
      using "1.prems" by (subst unat_push_small) (simp_all add: unsigned_take_bit_eq)
    then have fit: "unat acc + unat ?d < 2 ^ 64"
      using "1.prems" split by simp
    then have v: "unat (acc + ?d) = unat acc + unat ?d"
      by (simp add: unat_word_ariths)
    have "unat (acc + ?d) + unat (drop_bit 7 rem) * 2 ^ (shift + 7) < 2 ^ 64"
      using "1.prems" split d v by (simp add: unat_drop_bit_eq)
    from "1.IH" [OF True this, of "Suc i"] show ?thesis
      using True shift fit
      by (simp add: encode_int_loop.simps [of rem] digit_bits checked_add64_def add.assoc push_digits)
  next
    case False
    then have "rem < 128" by simp
    moreover have "unat (push_bit shift rem) = unat rem * 2 ^ shift"
      using "1.prems" by (intro unat_push_small) simp
    ultimately show ?thesis
      using "1.prems" False
      by (simp add: encode_int_loop.simps [of rem] last_digit_bits checked_add64_def)
  qed
qed

lemma max_prefix_unat: "p \<le> 8 \<Longrightarrow> unat (max_prefix p) = 2 ^ p - 1"
proof -
  assume "p \<le> 8"
  then have "unat (mask p :: u64) = mask p"
    by (intro bit_eqI) (auto simp: bit_simps)
  then show ?thesis by (simp add: max_prefix_mask mask_eq_exp_minus_1)
qed

text \<open>
  The first byte of an encoding stays within its prefix, so a caller may \<open>OR\<close> flag bits into it; the
  decoder masks them away.
\<close>

lemma prefix_byte:
  fixes f :: byte
  assumes "p \<le> 8" and "v \<le> max_prefix p" and "f AND ucast (max_prefix p) = 0"
  shows "ucast (f OR ucast v) AND max_prefix p = v"
proof (rule bit_word_eqI)
  fix n
  assume "n < LENGTH(64)"
  have "unat v < 2 ^ p"
    using assms(1,2) max_prefix_unat [of p] by (simp add: word_le_nat_alt order_le_less_trans)
  then have v: "n < p" if "bit v n"
    using that bit_take_bit_iff [of p "unat v" n] by (simp add: take_bit_nat_eq_self bit_unsigned_iff)
  have f: "\<not> bit f n" if "n < p"
  proof
    assume "bit f n"
    then have "bit (f AND ucast (max_prefix p)) n"
      using that assms(1) by (simp add: bit_simps max_prefix_mask)
    with assms(3) show False by simp
  qed
  show "bit (ucast (f OR ucast v) AND max_prefix p) n = bit v n"
    using assms(1) v f by (auto simp: bit_simps max_prefix_mask)
qed

lemma decode_int_flagged:
  assumes "p \<le> 8" and "0 < p" and "f AND ucast (max_prefix p) = 0"
  shows "\<exists>b bs. encode_int v p = b # bs \<and>
    decode_int p ((f OR b) # bs @ rest) = Inr (v, length (encode_int v p))"
proof (cases "v < max_prefix p")
  case True
  then have "ucast (f OR ucast v) AND max_prefix p = v"
    using prefix_byte [OF assms(1) _ assms(3)] by simp
  with True show ?thesis
    by (simp add: encode_int_def decode_int_def)
next
  case False
  then have le: "max_prefix p \<le> v" by simp
  let ?r = "v - max_prefix p"
  have m: "ucast (f OR ucast (max_prefix p)) AND max_prefix p = max_prefix p"
    using prefix_byte [OF assms(1) _ assms(3)] by simp
  have "unat (max_prefix p) + unat ?r = unat v"
    using le by (simp add: unat_sub word_le_nat_alt)
  then have "unat (max_prefix p) + unat ?r * 2 ^ 0 < 2 ^ 64"
    using unsigned_less [of v] by simp
  from decode_int_loop_encode [OF this, of rest 1] show ?thesis
    using False m by (simp add: encode_int_def decode_int_def)
qed

lemma decode_encode_int:
  assumes "0 < p" and "p \<le> 8"
  shows "decode_int p (encode_int v p @ rest) = Inr (v, length (encode_int v p))"
  using decode_int_flagged [OF assms(2,1), of 0 v rest] by auto

text \<open>The widths HPACK uses: 7 (indexed field, string length), 6, 5 and 4.\<close>

text \<open>Each prefix width the code uses (4, 5, 6 and 7 bits) gives a codec.\<close>

interpretation int_codec:
  codec "\<lambda>v. encode_int v p" "decode_int p" "\<lambda>_. 0 < p \<and> p \<le> 8" for p
  by unfold_locales (auto intro: decode_encode_int)

subsection \<open>What accepted bytes mean\<close>

text \<open>The integer RFC 7541 5.1 gives to an encoding, on unbounded naturals.\<close>

fun digits_value :: "bytes \<Rightarrow> nat" where
  "digits_value [] = 0"
| "digits_value (b # bs) = unat (b AND 0x7f) + 128 * digits_value bs"

definition int_value :: "nat \<Rightarrow> bytes \<Rightarrow> nat" where
  "int_value p bs = unat (hd bs) mod 2 ^ p + digits_value (tl bs)"

lemma digit_bound: "unat ((b :: byte) AND 0x7f) < 128"
  by (simp add: and_7f take_bit_eq_mod unat_mod)

lemma decode_int_loop_value:
  "decode_int_loop bs i shift acc = Inr (v, n) \<Longrightarrow>
     i < n \<and> n \<le> i + length bs \<and>
     (shift + 7 * (n - i) \<le> 63 \<longrightarrow>
        unat v = unat acc + digits_value (take (n - i) bs) * 2 ^ shift)"
proof (induction bs i shift acc rule: decode_int_loop.induct)
  case (2 b bs i shift acc)
  let ?d = "push_bit shift (ucast (b AND 0x7f)) :: u64"
  from "2.prems" have fit: "unat acc + unat ?d < 2 ^ 64"
    by (auto simp: checked_add64_def split: if_splits)
  then have add: "unat (acc + ?d) = unat acc + unat ?d"
    by (simp add: unat_word_ariths)
  have d: "unat ?d = unat (b AND 0x7f) * 2 ^ shift" if "shift + 7 \<le> 63"
  proof -
    have "unat (ucast (b AND 0x7f) :: u64) = unat (b AND 0x7f)"
      by (simp add: unsigned_ucast_eq take_bit_nat_eq_self order_less_trans [OF digit_bound])
    moreover have "unat (b AND 0x7f) * 2 ^ shift < 2 ^ 63"
    proof (rule order_less_le_trans)
      show "unat (b AND 0x7f) * 2 ^ shift < 2 ^ 7 * 2 ^ shift"
        using digit_bound [of b] by simp
      show "(2 :: nat) ^ 7 * 2 ^ shift \<le> 2 ^ 63"
        using power_increasing [OF that, of "2 :: nat"] by (simp add: power_add mult.commute)
    qed
    ultimately show ?thesis by (subst unat_push_small) simp_all
  qed
  show ?case
  proof (cases "b AND 0x80 = 0")
    case True
    with "2.prems" fit have "n = Suc i" "v = acc + ?d"
      by (auto simp: checked_add64_def)
    with add d show ?thesis by auto
  next
    case False
    with "2.prems" fit have next_step: "\<not> 63 < shift + 7"
      "decode_int_loop bs (Suc i) (shift + 7) (acc + ?d) = Inr (v, n)"
      by (auto simp: checked_add64_def split: if_splits)
    have IH: "Suc i < n \<and> n \<le> Suc i + length bs \<and> (shift + 7 + 7 * (n - Suc i) \<le> 63 \<longrightarrow>
        unat v = unat (acc + ?d) + digits_value (take (n - Suc i) bs) * 2 ^ (shift + 7))"
      by (rule "2.IH" [OF _ False next_step]) (use fit in \<open>simp add: checked_add64_def\<close>)
    then have "Suc i < n" by blast
    then have n: "n - i = Suc (n - Suc i)" by simp
    show ?thesis
    proof (intro conjI impI)
      assume "shift + 7 * (n - i) \<le> 63"
      then have "shift + 7 \<le> 63" "shift + 7 + 7 * (n - Suc i) \<le> 63" using n by simp_all
      with IH add d show "unat v = unat acc + digits_value (take (n - i) (b # bs)) * 2 ^ shift"
        by (simp add: n power_add algebra_simps)
    qed (use IH in simp_all)
  qed
qed simp

lemma decode_int_consumed: "decode_int p buf = Inr (v, n) \<Longrightarrow> 0 < n \<and> n \<le> length buf"
  by (auto simp: decode_int_def Let_def split: list.splits if_splits
      dest: decode_int_loop_value)

lemma decode_int_exact:
  assumes "decode_int p buf = Inr (v, n)" and "p \<le> 8" and "n \<le> 10"
  shows "unat v = int_value p (take n buf)"
proof -
  obtain b bs where buf: "buf = b # bs"
    using assms(1) by (cases buf) (auto simp: decode_int_def)
  have b: "unat (ucast b AND max_prefix p :: u64) = unat b mod 2 ^ p"
    by (simp only: max_prefix_mask take_bit_eq_mask [symmetric] unsigned_take_bit_eq unsigned_ucast_eq)
      (simp add: take_bit_nat_eq_self take_bit_eq_mod order_less_trans [OF unsigned_less])
  show ?thesis
  proof (cases "ucast b AND max_prefix p < max_prefix p")
    case True
    with assms(1) buf b show ?thesis by (auto simp: decode_int_def int_value_def)
  next
    case False
    with assms(1) buf have "decode_int_loop bs 1 0 (ucast b AND max_prefix p) = Inr (v, n)"
      by (simp add: decode_int_def)
    from decode_int_loop_value [OF this] assms(3) b buf show ?thesis
      by (cases n) (auto simp: int_value_def)
  qed
qed

subsection \<open>The size of an encoding\<close>

lemma length_encode_int_loop: "unat r < 128 ^ k \<Longrightarrow> 0 < k \<Longrightarrow> length (encode_int_loop r) \<le> k"
proof (induction k arbitrary: r)
  case (Suc k)
  show ?case
  proof (cases "r \<ge> 128")
    case True
    then have "128 \<le> unat r" by (simp add: word_le_nat_alt)
    then have k: "0 < k" using Suc.prems(1) by (cases k) simp_all
    have "unat (drop_bit 7 r) = unat r div 128" by (simp only: unat_drop_bit_eq) (simp add: drop_bit_eq_div)
    then have "unat (drop_bit 7 r) < 128 ^ k"
      using Suc.prems(1) by (simp add: less_mult_imp_div_less mult.commute)
    with Suc.IH k True show ?thesis by (simp add: encode_int_loop.simps [of r])
  next
    case False
    then show ?thesis by (simp add: encode_int_loop.simps [of r])
  qed
qed simp

lemma length_encode_int: "length (encode_int v p) \<le> 11"
proof -
  have "unat (v - max_prefix p) < 2 ^ LENGTH(64)" by (rule unsigned_less)
  then have "unat (v - max_prefix p) < 128 ^ 10" by simp
  from length_encode_int_loop [OF this] show ?thesis by (simp add: encode_int_def)
qed

subsection \<open>Properties\<close>

text \<open>Any sequence of HPACK integers written back to back with one prefix width (1 to 8 bits) is
  read back value by value, over the whole range of \<open>u64\<close>, whatever follows it in the buffer.\<close>

lemma hpack_int_roundtrip:
  assumes "0 < p" and "p \<le> 8"
  shows "decode_seq (decode_int p) (length vs) (concat (map (\<lambda>v. encode_int v p) vs) @ rest) = Inr (vs, rest)"
  using assms by (intro int_codec.decode_seq_concat) simp

lemma hpack_int_roundtrip_witness:
  "decode_seq (decode_int 5) 3 (encode_int 10 5 @ encode_int 1337 5 @ encode_int 0xffffffffffffffff 5 @ [7])
     = Inr ([10, 1337, 0xffffffffffffffff], [7])"
  using hpack_int_roundtrip [of 5 "[10, 1337, 0xffffffffffffffff]" "[7]"]
  by (simp del: decode_seq.simps add: numeral_3_eq_3)

text \<open>What the decoder accepts within ten octets is the integer RFC 7541 5.1 assigns to those
  octets, computed without wrap-around on unbounded naturals, and it reports how many it used.\<close>

lemma hpack_int_exact:
  assumes "decode_int p buf = Inr (v, n)" and "p \<le> 8" and "n \<le> 10"
  shows "unat v = int_value p (take n buf) \<and> 0 < n \<and> n \<le> length buf"
  using decode_int_exact [OF assms] decode_int_consumed [OF assms(1)] by simp

lemma hpack_int_exact_witness:
  "decode_int 5 [0x1f, 0x9a, 0x0a, 0x55] = Inr (1337, 3) \<and> int_value 5 (take 3 [0x1f, 0x9a, 0x0a, 0x55]) = 1337"
proof -
  have "decode_int 5 [0x1f, 0x9a, 0x0a, 0x55] = Inr (1337, 3)"
    by (simp add: decode_int_def checked_add64_def max_prefix_def)
  with hpack_int_exact [OF this] show ?thesis by simp
qed

text \<open>Beyond ten octets it is not: at shift 63 the six high bits of a digit are shifted out of the
  \<open>u64\<close> before the overflow check sees them, so an encoding of \<open>127 + 2 ^ 64\<close> is accepted as 127
  where every other value above the range of \<open>u64\<close> is an overflow error.\<close>

lemma hpack_int_lost_digit:
  "decode_int 7 [0x7f, 0x80, 0x80, 0x80, 0x80, 0x80, 0x80, 0x80, 0x80, 0x80, 0x02]
     = Inr (127, 11) \<and>
   int_value 7 [0x7f, 0x80, 0x80, 0x80, 0x80, 0x80, 0x80, 0x80, 0x80, 0x80, 0x02]
     = 127 + 2 ^ 64"
  by (simp add: decode_int_def checked_add64_def max_prefix_def int_value_def)

end
