(* ===== verification/Hpack_Huffman.thy ===== *)
theory Hpack_Huffman
  imports Prelude
begin

text \<open>
  The HPACK Huffman code (RFC 7541 Appendix B; \<open>HUFFMAN\<close>, \<open>lookup_huffman\<close>, \<open>huffman_decode\<close> and
  \<open>huffman_encode\<close> of \<open>src/src/http2.rs\<close>) with the code's \<open>u64\<close> accumulator, linear table scan and
  in-place bit packing.  \<open>huffman_tree\<close> is the binary tree of the code: walking it is the reference
  decoder, and checking that each table entry's bits lead to its own leaf, that the tree has
  257 leaves and that it is 30 deep makes the table a complete prefix code.  On that rest the two
  main results: the decoder computes the reference parse (so its \<open>u8\<close> bit counter never
  overflows), and it accepts exactly the encoder's outputs.
\<close>

subsection \<open>The code table\<close>

text \<open>The table in two halves: symbols 0 to 127, then 128 to 255 and the end-of-string marker.\<close>

definition HUFFMAN_low :: "(u32 \<times> nat) list" where
  "HUFFMAN_low =
     [(0x1ff8, 13), (0x7fffd8, 23), (0xfffffe2, 28), (0xfffffe3, 28), (0xfffffe4, 28), (0xfffffe5, 28),
      (0xfffffe6, 28), (0xfffffe7, 28), (0xfffffe8, 28), (0xffffea, 24), (0x3ffffffc, 30), (0xfffffe9, 28),
      (0xfffffea, 28), (0x3ffffffd, 30), (0xfffffeb, 28), (0xfffffec, 28), (0xfffffed, 28), (0xfffffee, 28),
      (0xfffffef, 28), (0xffffff0, 28), (0xffffff1, 28), (0xffffff2, 28), (0x3ffffffe, 30), (0xffffff3, 28),
      (0xffffff4, 28), (0xffffff5, 28), (0xffffff6, 28), (0xffffff7, 28), (0xffffff8, 28), (0xffffff9, 28),
      (0xffffffa, 28), (0xffffffb, 28), (0x14, 6), (0x3f8, 10), (0x3f9, 10), (0xffa, 12),
      (0x1ff9, 13), (0x15, 6), (0xf8, 8), (0x7fa, 11), (0x3fa, 10), (0x3fb, 10),
      (0xf9, 8), (0x7fb, 11), (0xfa, 8), (0x16, 6), (0x17, 6), (0x18, 6),
      (0x0, 5), (0x1, 5), (0x2, 5), (0x19, 6), (0x1a, 6), (0x1b, 6),
      (0x1c, 6), (0x1d, 6), (0x1e, 6), (0x1f, 6), (0x5c, 7), (0xfb, 8),
      (0x7ffc, 15), (0x20, 6), (0xffb, 12), (0x3fc, 10), (0x1ffa, 13), (0x21, 6),
      (0x5d, 7), (0x5e, 7), (0x5f, 7), (0x60, 7), (0x61, 7), (0x62, 7),
      (0x63, 7), (0x64, 7), (0x65, 7), (0x66, 7), (0x67, 7), (0x68, 7),
      (0x69, 7), (0x6a, 7), (0x6b, 7), (0x6c, 7), (0x6d, 7), (0x6e, 7),
      (0x6f, 7), (0x70, 7), (0x71, 7), (0x72, 7), (0xfc, 8), (0x73, 7),
      (0xfd, 8), (0x1ffb, 13), (0x7fff0, 19), (0x1ffc, 13), (0x3ffc, 14), (0x22, 6),
      (0x7ffd, 15), (0x3, 5), (0x23, 6), (0x4, 5), (0x24, 6), (0x5, 5),
      (0x25, 6), (0x26, 6), (0x27, 6), (0x6, 5), (0x74, 7), (0x75, 7),
      (0x28, 6), (0x29, 6), (0x2a, 6), (0x7, 5), (0x2b, 6), (0x76, 7),
      (0x2c, 6), (0x8, 5), (0x9, 5), (0x2d, 6), (0x77, 7), (0x78, 7),
      (0x79, 7), (0x7a, 7), (0x7b, 7), (0x7ffe, 15), (0x7fc, 11), (0x3ffd, 14),
      (0x1ffd, 13), (0xffffffc, 28)]"

definition HUFFMAN_high :: "(u32 \<times> nat) list" where
  "HUFFMAN_high =
     [(0xfffe6, 20), (0x3fffd2, 22), (0xfffe7, 20), (0xfffe8, 20), (0x3fffd3, 22), (0x3fffd4, 22),
      (0x3fffd5, 22), (0x7fffd9, 23), (0x3fffd6, 22), (0x7fffda, 23), (0x7fffdb, 23), (0x7fffdc, 23),
      (0x7fffdd, 23), (0x7fffde, 23), (0xffffeb, 24), (0x7fffdf, 23), (0xffffec, 24), (0xffffed, 24),
      (0x3fffd7, 22), (0x7fffe0, 23), (0xffffee, 24), (0x7fffe1, 23), (0x7fffe2, 23), (0x7fffe3, 23),
      (0x7fffe4, 23), (0x1fffdc, 21), (0x3fffd8, 22), (0x7fffe5, 23), (0x3fffd9, 22), (0x7fffe6, 23),
      (0x7fffe7, 23), (0xffffef, 24), (0x3fffda, 22), (0x1fffdd, 21), (0xfffe9, 20), (0x3fffdb, 22),
      (0x3fffdc, 22), (0x7fffe8, 23), (0x7fffe9, 23), (0x1fffde, 21), (0x7fffea, 23), (0x3fffdd, 22),
      (0x3fffde, 22), (0xfffff0, 24), (0x1fffdf, 21), (0x3fffdf, 22), (0x7fffeb, 23), (0x7fffec, 23),
      (0x1fffe0, 21), (0x1fffe1, 21), (0x3fffe0, 22), (0x1fffe2, 21), (0x7fffed, 23), (0x3fffe1, 22),
      (0x7fffee, 23), (0x7fffef, 23), (0xfffea, 20), (0x3fffe2, 22), (0x3fffe3, 22), (0x3fffe4, 22),
      (0x7ffff0, 23), (0x3fffe5, 22), (0x3fffe6, 22), (0x7ffff1, 23), (0x3ffffe0, 26), (0x3ffffe1, 26),
      (0xfffeb, 20), (0x7fff1, 19), (0x3fffe7, 22), (0x7ffff2, 23), (0x3fffe8, 22), (0x1ffffec, 25),
      (0x3ffffe2, 26), (0x3ffffe3, 26), (0x3ffffe4, 26), (0x7ffffde, 27), (0x7ffffdf, 27), (0x3ffffe5, 26),
      (0xfffff1, 24), (0x1ffffed, 25), (0x7fff2, 19), (0x1fffe3, 21), (0x3ffffe6, 26), (0x7ffffe0, 27),
      (0x7ffffe1, 27), (0x3ffffe7, 26), (0x7ffffe2, 27), (0xfffff2, 24), (0x1fffe4, 21), (0x1fffe5, 21),
      (0x3ffffe8, 26), (0x3ffffe9, 26), (0xffffffd, 28), (0x7ffffe3, 27), (0x7ffffe4, 27), (0x7ffffe5, 27),
      (0xfffec, 20), (0xfffff3, 24), (0xfffed, 20), (0x1fffe6, 21), (0x3fffe9, 22), (0x1fffe7, 21),
      (0x1fffe8, 21), (0x7ffff3, 23), (0x3fffea, 22), (0x3fffeb, 22), (0x1ffffee, 25), (0x1ffffef, 25),
      (0xfffff4, 24), (0xfffff5, 24), (0x3ffffea, 26), (0x7ffff4, 23), (0x3ffffeb, 26), (0x7ffffe6, 27),
      (0x3ffffec, 26), (0x3ffffed, 26), (0x7ffffe7, 27), (0x7ffffe8, 27), (0x7ffffe9, 27), (0x7ffffea, 27),
      (0x7ffffeb, 27), (0xffffffe, 28), (0x7ffffec, 27), (0x7ffffed, 27), (0x7ffffee, 27), (0x7ffffef, 27),
      (0x7fffff0, 27), (0x3ffffee, 26), (0x3fffffff, 30)]"

definition HUFFMAN :: "(u32 \<times> nat) list" where
  "HUFFMAN = HUFFMAN_low @ HUFFMAN_high"

subsection \<open>The decoder\<close>

text \<open>The linear scan over the enumerated table.\<close>

fun lookup_scan :: "u32 \<Rightarrow> nat \<Rightarrow> (u32 \<times> nat) list \<Rightarrow> nat \<Rightarrow> nat option" where
  "lookup_scan code len [] i = None"
| "lookup_scan code len ((c, l) # t) i =
     (if l = len \<and> c = code then Some i else lookup_scan code len t (Suc i))"

definition lookup_huffman :: "u32 \<Rightarrow> nat \<Rightarrow> nat option" where
  "lookup_huffman code len = lookup_scan code len HUFFMAN 0"

text \<open>The \<open>for try_len in 5..=max_len\<close> loop: the first length whose leading bits are a code.\<close>

fun try_lengths :: "u64 \<Rightarrow> nat \<Rightarrow> nat list \<Rightarrow> (nat \<times> nat) option" where
  "try_lengths acc acc_len [] = None"
| "try_lengths acc acc_len (try_len # ls) =
     (case lookup_huffman
             (ucast (drop_bit (acc_len - try_len) acc AND (push_bit try_len 1 - 1))) try_len of
        Some symb \<Rightarrow> Some (symb, try_len)
      | None \<Rightarrow> try_lengths acc acc_len ls)"

lemma try_lengths_member: "try_lengths acc n ls = Some (s, l) \<Longrightarrow> l \<in> set ls"
  by (induction ls) (auto split: option.splits)

text \<open>The inner \<open>while acc_len >= 5\<close> loop: take symbols off the accumulator until none matches.\<close>

function drain_symbols :: "u64 \<Rightarrow> nat \<Rightarrow> bytes \<Rightarrow> (nat \<times> bytes) result" where
  "drain_symbols acc acc_len out =
     (if acc_len \<ge> 5 then
        (case try_lengths acc acc_len [5..<Suc (min acc_len 30)] of
           None \<Rightarrow> Inr (acc_len, out)
         | Some (symb, try_len) \<Rightarrow>
             if symb = 256 then Inl (BadResponse ''hpack: EOS symbol in Huffman literal'')
             else drain_symbols acc (acc_len - try_len) (out @ [of_nat symb]))
      else Inr (acc_len, out))"
  by pat_completeness auto
termination
proof (relation "measure (\<lambda>(acc, acc_len, out). acc_len)", goal_cases)
  case (2 acc acc_len out p symb try_len)
  then have "try_len \<in> set [5..<Suc (min acc_len 30)]"
    using try_lengths_member [of acc acc_len "[5..<Suc (min acc_len 30)]" symb try_len]
    by (simp only: prod.case)
  then have "5 \<le> try_len" by (simp only: set_upt atLeastLessThan_iff)
  with 2 show ?case by simp
qed simp

declare drain_symbols.simps [simp del]

text \<open>The outer loop over the input bytes.\<close>

fun decode_bytes :: "bytes \<Rightarrow> u64 \<Rightarrow> nat \<Rightarrow> bytes \<Rightarrow> (u64 \<times> nat \<times> bytes) result" where
  "decode_bytes [] acc acc_len out = Inr (acc, acc_len, out)"
| "decode_bytes (b # bs) acc acc_len out =
     (let acc' = push_bit 8 acc OR ucast b in
      bindR (drain_symbols acc' (acc_len + 8) out)
        (\<lambda>(acc_len', out'). decode_bytes bs acc' acc_len' out'))"

definition huffman_decode :: "bytes \<Rightarrow> bytes result" where
  "huffman_decode input =
     bindR (decode_bytes input 0 0 []) (\<lambda>(acc, acc_len, out).
       if acc_len \<ge> 8 then Inl (BadResponse ''hpack: trailing Huffman bits >= 8'')
       else if acc_len > 0 then
         let pad_mask = push_bit acc_len 1 - 1; tail = acc AND pad_mask in
         if tail \<noteq> pad_mask then Inl (BadResponse ''hpack: bad Huffman padding'') else Inr out
       else Inr out)"

subsection \<open>The encoder\<close>

text \<open>The \<open>while remaining > 0\<close> loop that ORs one symbol's code into the buffer.\<close>

function pack_code :: "nat \<Rightarrow> u64 \<Rightarrow> nat \<Rightarrow> bytes \<Rightarrow> nat \<times> bytes" where
  "pack_code remaining code_left bit_pos out =
     (if remaining > 0 then
        let byte_index = bit_pos div 8;
            bit_in_byte = bit_pos mod 8;
            space_in_byte = 8 - bit_in_byte;
            tk = min remaining space_in_byte;
            shift = remaining - tk;
            chunk = ucast (drop_bit shift code_left AND (push_bit tk 1 - 1));
            out' = out[byte_index := out ! byte_index OR push_bit (space_in_byte - tk) chunk];
            code' = (if shift > 0 then code_left AND (push_bit shift 1 - 1) else 0)
        in pack_code (remaining - tk) code' (bit_pos + tk) out'
      else (bit_pos, out))"
  by pat_completeness auto
termination
proof (relation "measure (\<lambda>(remaining, code_left, bit_pos, out). remaining)", goal_cases)
  case (2 remaining code_left bit_pos out byte_index bit_in_byte space tk)
  have "bit_in_byte < 8" using 2(3) by simp
  then have "0 < tk" using 2(1,4,5) by simp
  then show ?case using 2(1) by simp
qed simp

declare pack_code.simps [simp del]

fun pack_symbols :: "bytes \<Rightarrow> nat \<Rightarrow> bytes \<Rightarrow> bytes" where
  "pack_symbols [] bit_pos out = out"
| "pack_symbols (b # bs) bit_pos out =
     (let (code, len) = HUFFMAN ! unat b;
          (bit_pos', out') = pack_code len (ucast code) bit_pos out
      in pack_symbols bs bit_pos' out')"

definition total_bits :: "bytes \<Rightarrow> nat" where
  "total_bits input = sum_list (map (\<lambda>b. snd (HUFFMAN ! unat b)) input)"

definition huffman_encode :: "bytes \<Rightarrow> bytes" where
  "huffman_encode input =
     (let total = total_bits input;
          out = pack_symbols input 0 (replicate ((total + 7) div 8) 0);
          trailing = (8 - total mod 8) mod 8
      in if trailing > 0
         then out[length out - 1 := out ! (length out - 1) OR (push_bit trailing 1 - 1)]
         else out)"

subsection \<open>Bits, most significant first\<close>

definition word_bits :: "nat \<Rightarrow> 'a :: len word \<Rightarrow> bool list" where
  "word_bits n w = map (bit w) (rev [0..<n])"

lemma word_bits_0: "word_bits 0 w = []"
  by (simp add: word_bits_def)

lemma word_bits_Suc: "word_bits (Suc n) w = bit w n # word_bits n w"
  by (simp add: word_bits_def)

lemma word_bits_numeral:
  "word_bits (numeral k) w = bit w (pred_numeral k) # word_bits (pred_numeral k) w"
  by (simp add: numeral_eq_Suc word_bits_Suc)

lemma length_word_bits [simp]: "length (word_bits n w) = n"
  by (simp add: word_bits_def)

lemma nth_word_bits: "k < n \<Longrightarrow> word_bits n w ! k = bit w (n - 1 - k)"
  by (simp add: word_bits_def rev_nth)

definition bytes_bits :: "bytes \<Rightarrow> bool list" where
  "bytes_bits bs = concat (map (word_bits 8) bs)"

lemma bytes_bits_simps [simp]:
  "bytes_bits [] = []" "bytes_bits (b # bs) = word_bits 8 b @ bytes_bits bs"
  by (simp_all add: bytes_bits_def)

lemma length_bytes_bits [simp]: "length (bytes_bits bs) = 8 * length bs"
  by (induction bs) simp_all

lemma word_bits_take: "l \<le> n \<Longrightarrow> take l (word_bits n w) = word_bits l (drop_bit (n - l) w)"
  by (rule nth_equalityI) (simp_all add: nth_word_bits bit_drop_bit_eq)

lemma word_bits_drop: "l \<le> n \<Longrightarrow> drop l (word_bits n w) = word_bits (n - l) w"
  by (rule nth_equalityI) (simp_all add: nth_word_bits)

lemma word_bits_mask: "l \<le> n \<Longrightarrow> word_bits l (w AND mask n) = word_bits l w"
  by (rule nth_equalityI) (auto simp add: nth_word_bits bit_simps dest: bit_imp_le_length)

lemma word_bits_ucast:
  "l \<le> LENGTH('b) \<Longrightarrow> word_bits l (ucast (w :: 'a :: len word) :: 'b :: len word) = word_bits l w"
  by (rule nth_equalityI) (auto simp add: nth_word_bits bit_simps dest: bit_imp_le_length)

lemma word_bits_inject:
  assumes "word_bits n v = word_bits n w" and "unat v < 2 ^ n" and "unat w < 2 ^ n"
  shows "v = w"
proof (rule bit_word_eqI)
  fix k
  have small: "\<not> bit u k" if "unat u < 2 ^ n" and "n \<le> k" for u :: "'a word"
    using that bit_take_bit_iff [of n "unat u" k] by (simp add: take_bit_nat_eq_self bit_unsigned_iff)
  show "bit v k = bit w k"
  proof (cases "k < n")
    case True
    then have "word_bits n v ! (n - 1 - k) = word_bits n w ! (n - 1 - k)" using assms(1) by simp
    with True show ?thesis by (simp add: nth_word_bits)
  next
    case False
    with small assms(2,3) show ?thesis by simp
  qed
qed

text \<open>Shifting a byte into the accumulator appends its bits.\<close>

lemma word_bits_add: "word_bits (n + m) w = word_bits n (drop_bit m w) @ word_bits m w"
  by (induction n) (simp_all add: word_bits_0 word_bits_Suc bit_drop_bit_eq add.commute)

lemma word_bits_cong: "(\<And>k. k < n \<Longrightarrow> bit v k = bit w k) \<Longrightarrow> word_bits n v = word_bits n w"
  by (simp add: word_bits_def)

lemma word_bits_push_byte:
  fixes acc :: u64
  assumes "n + 8 \<le> 64"
  shows "word_bits (n + 8) (push_bit 8 acc OR ucast (b :: byte)) = word_bits n acc @ word_bits 8 b"
proof -
  have "word_bits n (drop_bit 8 (push_bit 8 acc OR ucast b)) = word_bits n acc"
  proof (rule word_bits_cong)
    fix k
    assume k: "k < n"
    have "\<not> bit b (8 + k)"
      using bit_imp_le_length [of b "8 + k"] by auto
    with k assms show "bit (drop_bit 8 (push_bit 8 acc OR ucast b)) k = bit acc k"
      by (simp add: bit_drop_bit_eq bit_or_iff bit_push_bit_iff bit_ucast_iff)
  qed
  moreover have "word_bits 8 (push_bit 8 acc OR ucast b) = word_bits 8 (ucast b :: u64)"
    by (rule word_bits_cong) (simp add: bit_or_iff bit_push_bit_iff)
  ultimately show ?thesis by (simp add: word_bits_add word_bits_ucast)
qed

subsection \<open>The tree of the code\<close>

datatype code_tree = Sym nat | Node code_tree code_tree

fun walk :: "code_tree \<Rightarrow> bool list \<Rightarrow> (nat \<times> bool list) option" where
  "walk (Sym i) bs = Some (i, bs)"
| "walk (Node l r) [] = None"
| "walk (Node l r) (x # bs) = walk (if x then r else l) bs"

fun tree_height :: "code_tree \<Rightarrow> nat" where
  "tree_height (Sym i) = 0"
| "tree_height (Node l r) = Suc (max (tree_height l) (tree_height r))"

fun leaves :: "code_tree \<Rightarrow> nat list" where
  "leaves (Sym i) = [i]"
| "leaves (Node l r) = leaves l @ leaves r"

lemma walk_append: "walk t xs = Some (i, r) \<Longrightarrow> walk t (xs @ ys) = Some (i, r @ ys)"
  by (induction t xs rule: walk.induct) auto

lemma walk_complete: "tree_height t \<le> length xs \<Longrightarrow> walk t xs \<noteq> None"
  by (induction t xs rule: walk.induct) auto

lemma walk_path: "walk t xs = Some (i, r) \<Longrightarrow> \<exists>p. xs = p @ r \<and> walk t p = Some (i, [])"
proof (induction t xs rule: walk.induct)
  case (3 l r' x bs)
  then obtain p where "bs = p @ r" and "walk (if x then r' else l) p = Some (i, [])" by auto
  then show ?case by (intro exI [of _ "x # p"]) simp
qed auto

lemma walk_leaf: "walk t xs = Some (i, r) \<Longrightarrow> i \<in> set (leaves t)"
  by (induction t xs rule: walk.induct) (auto split: if_splits)

lemma walk_unique:
  "distinct (leaves t) \<Longrightarrow> walk t p = Some (i, []) \<Longrightarrow> walk t q = Some (i, []) \<Longrightarrow> p = q"
proof (induction t arbitrary: p q)
  case (Node l r)
  obtain x p' where p: "p = x # p'" using Node.prems(2) by (cases p) auto
  obtain y q' where q: "q = y # q'" using Node.prems(3) by (cases q) auto
  have "x = y"
    using Node.prems p q walk_leaf [of l p' i "[]"] walk_leaf [of r p' i "[]"]
      walk_leaf [of l q' i "[]"] walk_leaf [of r q' i "[]"]
    by (auto split: if_splits)
  with Node p q show ?case by (auto split: if_splits)
qed simp

definition huffman_tree :: code_tree where
  "huffman_tree =
     Node (Node (Node (Node (Node (Sym 48) (Sym 49)) (Node (Sym 50) (Sym 97))) (Node (Node (Sym
      99) (Sym 101)) (Node (Sym 105) (Sym 111)))) (Node (Node (Node (Sym 115) (Sym 116)) (Node
      (Node (Sym 32) (Sym 37)) (Node (Sym 45) (Sym 46)))) (Node (Node (Node (Sym 47) (Sym 51))
      (Node (Sym 52) (Sym 53))) (Node (Node (Sym 54) (Sym 55)) (Node (Sym 56) (Sym 57)))))) (Node
      (Node (Node (Node (Node (Sym 61) (Sym 65)) (Node (Sym 95) (Sym 98))) (Node (Node (Sym 100)
      (Sym 102)) (Node (Sym 103) (Sym 104)))) (Node (Node (Node (Sym 108) (Sym 109)) (Node (Sym
      110) (Sym 112))) (Node (Node (Sym 114) (Sym 117)) (Node (Node (Sym 58) (Sym 66)) (Node (Sym
      67) (Sym 68)))))) (Node (Node (Node (Node (Node (Sym 69) (Sym 70)) (Node (Sym 71) (Sym 72)))
      (Node (Node (Sym 73) (Sym 74)) (Node (Sym 75) (Sym 76)))) (Node (Node (Node (Sym 77) (Sym
      78)) (Node (Sym 79) (Sym 80))) (Node (Node (Sym 81) (Sym 82)) (Node (Sym 83) (Sym 84)))))
      (Node (Node (Node (Node (Sym 85) (Sym 86)) (Node (Sym 87) (Sym 89))) (Node (Node (Sym 106)
      (Sym 107)) (Node (Sym 113) (Sym 118)))) (Node (Node (Node (Sym 119) (Sym 120)) (Node (Sym
      121) (Sym 122))) (Node (Node (Node (Sym 38) (Sym 42)) (Node (Sym 44) (Sym 59))) (Node (Node
      (Sym 88) (Sym 90)) (Node (Node (Node (Sym 33) (Sym 34)) (Node (Sym 40) (Sym 41))) (Node
      (Node (Sym 63) (Node (Sym 39) (Sym 43))) (Node (Node (Sym 124) (Node (Sym 35) (Sym 62)))
      (Node (Node (Node (Sym 0) (Sym 36)) (Node (Sym 64) (Sym 91))) (Node (Node (Sym 93) (Sym
      126)) (Node (Node (Sym 94) (Sym 125)) (Node (Node (Sym 60) (Sym 96)) (Node (Sym 123) (Node
      (Node (Node (Node (Sym 92) (Sym 195)) (Node (Sym 208) (Node (Sym 128) (Sym 130)))) (Node
      (Node (Node (Sym 131) (Sym 162)) (Node (Sym 184) (Sym 194))) (Node (Node (Sym 224) (Sym
      226)) (Node (Node (Sym 153) (Sym 161)) (Node (Sym 167) (Sym 172)))))) (Node (Node (Node
      (Node (Node (Sym 176) (Sym 177)) (Node (Sym 179) (Sym 209))) (Node (Node (Sym 216) (Sym
      217)) (Node (Sym 227) (Sym 229)))) (Node (Node (Node (Sym 230) (Node (Sym 129) (Sym 132)))
      (Node (Node (Sym 133) (Sym 134)) (Node (Sym 136) (Sym 146)))) (Node (Node (Node (Sym 154)
      (Sym 156)) (Node (Sym 160) (Sym 163))) (Node (Node (Sym 164) (Sym 169)) (Node (Sym 170) (Sym
      173)))))) (Node (Node (Node (Node (Node (Sym 178) (Sym 181)) (Node (Sym 185) (Sym 186)))
      (Node (Node (Sym 187) (Sym 189)) (Node (Sym 190) (Sym 196)))) (Node (Node (Node (Sym 198)
      (Sym 228)) (Node (Sym 232) (Sym 233))) (Node (Node (Node (Sym 1) (Sym 135)) (Node (Sym 137)
      (Sym 138))) (Node (Node (Sym 139) (Sym 140)) (Node (Sym 141) (Sym 143)))))) (Node (Node
      (Node (Node (Node (Sym 147) (Sym 149)) (Node (Sym 150) (Sym 151))) (Node (Node (Sym 152)
      (Sym 155)) (Node (Sym 157) (Sym 158)))) (Node (Node (Node (Sym 165) (Sym 166)) (Node (Sym
      168) (Sym 174))) (Node (Node (Sym 175) (Sym 180)) (Node (Sym 182) (Sym 183))))) (Node (Node
      (Node (Node (Sym 188) (Sym 191)) (Node (Sym 197) (Sym 231))) (Node (Node (Sym 239) (Node
      (Sym 9) (Sym 142))) (Node (Node (Sym 144) (Sym 145)) (Node (Sym 148) (Sym 159))))) (Node
      (Node (Node (Node (Sym 171) (Sym 206)) (Node (Sym 215) (Sym 225))) (Node (Node (Sym 236)
      (Sym 237)) (Node (Node (Sym 199) (Sym 207)) (Node (Sym 234) (Sym 235))))) (Node (Node (Node
      (Node (Node (Sym 192) (Sym 193)) (Node (Sym 200) (Sym 201))) (Node (Node (Sym 202) (Sym
      205)) (Node (Sym 210) (Sym 213)))) (Node (Node (Node (Sym 218) (Sym 219)) (Node (Sym 238)
      (Sym 240))) (Node (Node (Sym 242) (Sym 243)) (Node (Sym 255) (Node (Sym 203) (Sym 204))))))
      (Node (Node (Node (Node (Node (Sym 211) (Sym 212)) (Node (Sym 214) (Sym 221))) (Node (Node
      (Sym 222) (Sym 223)) (Node (Sym 241) (Sym 244)))) (Node (Node (Node (Sym 245) (Sym 246))
      (Node (Sym 247) (Sym 248))) (Node (Node (Sym 250) (Sym 251)) (Node (Sym 252) (Sym 253)))))
      (Node (Node (Node (Node (Sym 254) (Node (Sym 2) (Sym 3))) (Node (Node (Sym 4) (Sym 5)) (Node
      (Sym 6) (Sym 7)))) (Node (Node (Node (Sym 8) (Sym 11)) (Node (Sym 12) (Sym 14))) (Node (Node
      (Sym 15) (Sym 16)) (Node (Sym 17) (Sym 18))))) (Node (Node (Node (Node (Sym 19) (Sym 20))
      (Node (Sym 21) (Sym 23))) (Node (Node (Sym 24) (Sym 25)) (Node (Sym 26) (Sym 27)))) (Node
      (Node (Node (Sym 28) (Sym 29)) (Node (Sym 30) (Sym 31))) (Node (Node (Sym 127) (Sym 220))
      (Node (Sym 249) (Node (Node (Sym 10) (Sym 13)) (Node (Sym 22) (Sym
      256))))))))))))))))))))))))))))))"

lemma huffman_tree_height: "tree_height huffman_tree = 30"
  by (simp add: huffman_tree_def)

lemma length_leaves_huffman_tree: "length (leaves huffman_tree) = 257"
  by (simp add: huffman_tree_def)

text \<open>Each entry of a stretch of the table leads to its own leaf, and its code fits its length.\<close>

fun walks_to :: "nat \<Rightarrow> (u32 \<times> nat) list \<Rightarrow> bool" where
  "walks_to i [] = True"
| "walks_to i ((c, l) # es) \<longleftrightarrow>
     walk huffman_tree (word_bits l c) = Some (i, []) \<and> walks_to (i + 1) es"

lemma walks_to_low: "walks_to 0 HUFFMAN_low"
  by (simp add: HUFFMAN_low_def word_bits_0 word_bits_Suc word_bits_numeral)
    (simp only: huffman_tree_def walk.simps if_True if_False, simp)

lemma walks_to_high: "walks_to 128 HUFFMAN_high"
  by (simp add: HUFFMAN_high_def word_bits_0 word_bits_Suc word_bits_numeral)
    (simp only: huffman_tree_def walk.simps if_True if_False)

lemma length_HUFFMAN_low: "length HUFFMAN_low = 128"
  by (simp add: HUFFMAN_low_def)

lemma length_HUFFMAN [simp]: "length HUFFMAN = 257"
  by (simp add: HUFFMAN_def HUFFMAN_low_def HUFFMAN_high_def)

fun entry_fits :: "u32 \<times> nat \<Rightarrow> bool" where
  "entry_fits (c, l) \<longleftrightarrow> 5 \<le> l \<and> l \<le> 30 \<and> unat c < 2 ^ l"

lemma HUFFMAN_fits: "list_all entry_fits HUFFMAN"
  by (simp add: HUFFMAN_def HUFFMAN_low_def HUFFMAN_high_def)

lemma walks_to_append: "walks_to i (xs @ ys) \<longleftrightarrow> walks_to i xs \<and> walks_to (i + length xs) ys"
  by (induction i xs rule: walks_to.induct) auto

lemma walks_to_nth:
  "walks_to i es \<Longrightarrow> k < length es \<Longrightarrow>
     walk huffman_tree (word_bits (snd (es ! k)) (fst (es ! k))) = Some (i + k, [])"
proof (induction i es arbitrary: k rule: walks_to.induct)
  case (2 i c l es)
  then show ?case by (cases k) auto
qed simp

subsection \<open>Code words\<close>

text \<open>The bits of symbol \<open>i\<close>, and the tree as the reference decoder of one symbol.\<close>

definition cw :: "nat \<Rightarrow> bool list" where
  "cw i = word_bits (snd (HUFFMAN ! i)) (fst (HUFFMAN ! i))"

lemma length_cw: "length (cw i) = snd (HUFFMAN ! i)"
  by (simp add: cw_def)

lemma entry_fits_nth: "i < 257 \<Longrightarrow> entry_fits (HUFFMAN ! i)"
  using HUFFMAN_fits by (simp add: list_all_length)

lemma cw_bounds: "i < 257 \<Longrightarrow> 5 \<le> length (cw i) \<and> length (cw i) \<le> 30"
  using entry_fits_nth [of i] by (cases "HUFFMAN ! i") (simp add: cw_def)

lemma walk_cw: "i < 257 \<Longrightarrow> walk huffman_tree (cw i) = Some (i, [])"
proof -
  assume "i < 257"
  moreover have "walks_to 0 HUFFMAN"
    using walks_to_low walks_to_high by (simp add: HUFFMAN_def walks_to_append length_HUFFMAN_low)
  ultimately show ?thesis
    using walks_to_nth [of 0 HUFFMAN i] by (simp add: cw_def)
qed

lemma leaves_huffman_tree:
  "set (leaves huffman_tree) = {..<257}" "distinct (leaves huffman_tree)"
proof -
  have sub: "{..<257} \<subseteq> set (leaves huffman_tree)"
    using walk_cw walk_leaf by blast
  have "card (set (leaves huffman_tree)) \<le> 257"
    using card_length [of "leaves huffman_tree"] by (simp add: length_leaves_huffman_tree)
  then show eq: "set (leaves huffman_tree) = {..<257}"
    using sub card_seteq [OF _ sub] by simp
  show "distinct (leaves huffman_tree)"
    by (rule card_distinct) (simp add: eq length_leaves_huffman_tree)
qed

lemma walk_huffman: "walk huffman_tree xs = Some (i, r) \<longleftrightarrow> i < 257 \<and> xs = cw i @ r"
proof
  assume w: "walk huffman_tree xs = Some (i, r)"
  then have "i < 257" using walk_leaf [OF w] leaves_huffman_tree(1) by simp
  moreover obtain p where "xs = p @ r" and "walk huffman_tree p = Some (i, [])"
    using walk_path [OF w] by blast
  ultimately show "i < 257 \<and> xs = cw i @ r"
    using walk_unique [OF leaves_huffman_tree(2) _ walk_cw [of i]] by blast
next
  assume "i < 257 \<and> xs = cw i @ r"
  then show "walk huffman_tree xs = Some (i, r)"
    using walk_append [OF walk_cw [of i], of r] by simp
qed

lemma walk_None_short: "walk huffman_tree xs = None \<Longrightarrow> length xs < 30"
  using walk_complete [of huffman_tree xs] by (fastforce simp: huffman_tree_height not_le)

text \<open>The reference parse: symbols off the front as long as there is one, and what is left.\<close>

function parse_bits :: "bool list \<Rightarrow> nat list \<times> bool list" where
  "parse_bits xs =
     (case walk huffman_tree xs of
        None \<Rightarrow> ([], xs)
      | Some (i, r) \<Rightarrow> (let (s, q) = parse_bits r in (i # s, q)))"
  by pat_completeness auto
termination
proof (relation "measure length", goal_cases)
  case (2 xs p i r)
  then have "i < 257 \<and> xs = cw i @ r" by (metis walk_huffman)
  moreover have "0 < length (cw i)" using cw_bounds [of i] calculation by linarith
  ultimately show ?case by simp
qed simp

declare parse_bits.simps [simp del]

lemma parse_bits_stuck: "walk huffman_tree xs = None \<Longrightarrow> parse_bits xs = ([], xs)"
  by (simp add: parse_bits.simps)

lemma parse_bits_cw:
  "i < 257 \<Longrightarrow> parse_bits (cw i @ r) = (i # fst (parse_bits r), snd (parse_bits r))"
  using walk_huffman [of "cw i @ r" i r]
  by (subst parse_bits.simps) (simp add: split_beta)

lemma parse_bits_concat:
  "(\<And>i. i \<in> set s \<Longrightarrow> i < 257) \<Longrightarrow>
     parse_bits (concat (map cw s) @ r) = (s @ fst (parse_bits r), snd (parse_bits r))"
  by (induction s) (simp_all add: parse_bits_cw)

lemma parse_bits_sound:
  "parse_bits xs = (s, q) \<Longrightarrow>
     xs = concat (map cw s) @ q \<and> (\<forall>i\<in>set s. i < 257) \<and> walk huffman_tree q = None"
proof (induction xs arbitrary: s q rule: parse_bits.induct)
  case (1 xs)
  show ?case
  proof (cases "walk huffman_tree xs")
    case None
    with 1 show ?thesis by (simp add: parse_bits_stuck)
  next
    case (Some a)
    then obtain i r where a: "walk huffman_tree xs = Some (i, r)" by (cases a) simp
    obtain s' q' where s': "parse_bits r = (s', q')" by fastforce
    with 1 a have "s = i # s'" "q = q'"
      by (simp_all add: parse_bits.simps [of xs])
    with "1.IH" [OF a _ s'] a show ?thesis by (simp add: walk_huffman)
  qed
qed

lemma parse_bits_append:
  assumes "parse_bits xs = (s, q)"
  shows "parse_bits (xs @ ys) = (s @ fst (parse_bits (q @ ys)), snd (parse_bits (q @ ys)))"
  using parse_bits_sound [OF assms] parse_bits_concat [of s "q @ ys"] by simp

subsection \<open>The decoder computes the reference parse\<close>

lemma lookup_scan_Some:
  "lookup_scan code len es i = Some k \<Longrightarrow> i \<le> k \<and> k - i < length es \<and> es ! (k - i) = (code, len)"
proof (induction code len es i rule: lookup_scan.induct)
  case (2 code len c l t i)
  show ?case
  proof (cases "l = len \<and> c = code")
    case True
    with 2 show ?thesis by simp
  next
    case False
    with 2 have "Suc i \<le> k \<and> k - Suc i < length t \<and> t ! (k - Suc i) = (code, len)" by auto
    moreover have "k - i = Suc (k - Suc i)" using calculation by (simp add: Suc_diff_Suc Suc_le_lessD)
    ultimately show ?thesis by simp
  qed
qed simp

lemma lookup_scan_None: "lookup_scan code len es i = None \<Longrightarrow> (code, len) \<notin> set es"
  by (induction code len es i rule: lookup_scan.induct) (auto split: if_splits)

lemma lookup_huffman_iff:
  assumes "unat code < 2 ^ l"
  shows "lookup_huffman code l = Some i \<longleftrightarrow> i < 257 \<and> cw i = word_bits l code"
proof -
  have found: "k < 257 \<and> cw k = word_bits l code" if "lookup_huffman code l = Some k" for k
    using lookup_scan_Some [OF that [unfolded lookup_huffman_def]] by (simp add: cw_def)
  show ?thesis
  proof
    assume i: "i < 257 \<and> cw i = word_bits l code"
    then have "l = snd (HUFFMAN ! i)" by (metis length_cw length_word_bits)
    moreover have "fst (HUFFMAN ! i) = code"
      using i assms entry_fits_nth [of i] calculation
      by (cases "HUFFMAN ! i") (auto simp: cw_def dest: word_bits_inject)
    ultimately have "(code, l) \<in> set HUFFMAN"
      using i by (metis length_HUFFMAN nth_mem prod.collapse)
    then obtain k where k: "lookup_huffman code l = Some k"
      using lookup_scan_None unfolding lookup_huffman_def by blast
    with found i have "walk huffman_tree (cw i) = Some (k, [])"
      by (metis append_Nil2 walk_huffman)
    moreover have "walk huffman_tree (cw i) = Some (i, [])"
      using i walk_cw by blast
    ultimately show "lookup_huffman code l = Some i" using k by simp
  qed (use found in blast)
qed

lemma push_one_mask: "push_bit l 1 - 1 = (mask l :: 'a :: len word)"
  by (simp add: mask_eq_exp_minus_1)

lemma lookup_leading_bits:
  fixes acc :: u64
  assumes "l \<le> n" and "l \<le> 30"
  shows "lookup_huffman (ucast (drop_bit (n - l) acc AND (push_bit l 1 - 1))) l = Some i
    \<longleftrightarrow> i < 257 \<and> word_bits n acc = cw i @ word_bits (n - l) acc \<and> length (cw i) = l"
proof -
  let ?c = "ucast (drop_bit (n - l) acc AND mask l) :: u32"
  have "unat ?c \<le> unat (drop_bit (n - l) acc AND mask l)"
    by (simp add: unsigned_ucast_eq take_bit_nat_less_eq_self)
  also have "\<dots> < 2 ^ l"
    by (simp only: take_bit_eq_mask [symmetric] unsigned_take_bit_eq) simp
  finally have small: "unat ?c < 2 ^ l" .
  have "word_bits l ?c = take l (word_bits n acc)"
    using assms by (simp add: word_bits_ucast word_bits_mask word_bits_take)
  then have "lookup_huffman ?c l = Some i \<longleftrightarrow> i < 257 \<and> cw i = take l (word_bits n acc)"
    using lookup_huffman_iff [OF small] by simp
  moreover have "cw i = take l (word_bits n acc) \<longleftrightarrow>
      word_bits n acc = cw i @ word_bits (n - l) acc \<and> length (cw i) = l"
    using assms(1) word_bits_drop [of l n acc]
    by (metis append_eq_conv_conj append_take_drop_id length_take length_word_bits min_absorb2)
  ultimately show ?thesis by (simp only: push_one_mask)
qed

lemma try_lengths_None:
  fixes acc :: u64
  assumes "walk huffman_tree (word_bits n acc) = None"
    and "\<And>l. l \<in> set ls \<Longrightarrow> l \<le> n \<and> l \<le> 30"
  shows "try_lengths acc n ls = None"
  using assms(2)
proof (induction ls)
  case (Cons l ls)
  have "lookup_huffman (ucast (drop_bit (n - l) acc AND (push_bit l 1 - 1))) l \<noteq> Some i" for i
    using Cons.prems [of l] assms(1) lookup_leading_bits [of l n acc i] walk_huffman
    by (metis list.set_intros(1) option.distinct(1))
  then have "lookup_huffman (ucast (drop_bit (n - l) acc AND (push_bit l 1 - 1))) l = None"
    by blast
  with Cons show ?case by simp
qed simp

lemma try_lengths_Some:
  fixes acc :: u64
  assumes "i < 257" and "word_bits n acc = cw i @ r" and "length (cw i) \<in> set ls"
    and "\<And>l. l \<in> set ls \<Longrightarrow> l \<le> n \<and> l \<le> 30"
  shows "try_lengths acc n ls = Some (i, length (cw i))"
  using assms(3,4)
proof (induction ls)
  case (Cons l ls)
  have r: "r = word_bits (n - length (cw i)) acc" if "length (cw i) \<le> n"
    using word_bits_drop [OF that, of acc] assms(2) by simp
  show ?case
  proof (cases "l = length (cw i)")
    case True
    then have "lookup_huffman (ucast (drop_bit (n - l) acc AND (push_bit l 1 - 1))) l = Some i"
      using Cons.prems(2) [of l] assms(1,2) r lookup_leading_bits [of l n acc i] by simp
    with True show ?thesis by simp
  next
    case False
    have "lookup_huffman (ucast (drop_bit (n - l) acc AND (push_bit l 1 - 1))) l \<noteq> Some j" for j
    proof
      assume "lookup_huffman (ucast (drop_bit (n - l) acc AND (push_bit l 1 - 1))) l = Some j"
      then have "j < 257 \<and> word_bits n acc = cw j @ word_bits (n - l) acc \<and> length (cw j) = l"
        using Cons.prems(2) [of l] lookup_leading_bits [of l n acc j] by simp
      then have "walk huffman_tree (word_bits n acc) = Some (j, word_bits (n - l) acc)"
        by (simp add: walk_huffman)
      with assms(1,2) False show False
        using walk_huffman [of "word_bits n acc" i r] \<open>j < 257 \<and> _\<close> by auto
    qed
    then have "lookup_huffman (ucast (drop_bit (n - l) acc AND (push_bit l 1 - 1))) l = None"
      by blast
    with Cons False show ?thesis by simp
  qed
qed simp

definition eos_error :: error where
  "eos_error = BadResponse ''hpack: EOS symbol in Huffman literal''"

lemma drain_symbols_parse:
  "parse_bits (word_bits n acc) = (s, q) \<Longrightarrow>
     drain_symbols acc n out =
       (if 256 \<in> set s then Inl eos_error else Inr (length q, out @ map of_nat s))"
proof (induction acc n out arbitrary: s q rule: drain_symbols.induct)
  case (1 acc n out)
  have lens: "l \<le> n \<and> l \<le> 30" if "l \<in> set [5..<Suc (min n 30)]" for l
    using that by auto
  show ?case
  proof (cases "walk huffman_tree (word_bits n acc)")
    case None
    then have "try_lengths acc n [5..<Suc (min n 30)] = None"
      using lens by (rule try_lengths_None)
    moreover have "s = []" "q = word_bits n acc"
      using None 1 by (simp_all add: parse_bits_stuck)
    ultimately show ?thesis by (subst drain_symbols.simps) (simp del: upt_Suc)
  next
    case (Some a)
    then obtain i r where w: "walk huffman_tree (word_bits n acc) = Some (i, r)" by (cases a) simp
    then have i: "i < 257" and split: "word_bits n acc = cw i @ r" by (simp_all add: walk_huffman)
    have le: "length (cw i) \<le> n" using arg_cong [OF split, of length] by simp
    have five: "5 \<le> n" using le cw_bounds [OF i] by simp
    have "length (cw i) \<in> set [5..<Suc (min n 30)]"
      using le cw_bounds [OF i] by (auto simp: less_Suc_eq_le simp del: upt_Suc)
    then have t: "try_lengths acc n [5..<Suc (min n 30)] = Some (i, length (cw i))"
      using i split lens by (intro try_lengths_Some)
    have r: "r = word_bits (n - length (cw i)) acc"
      using word_bits_drop [OF le, of acc] split by simp
    obtain s' where s': "parse_bits r = (s', q)" and s: "s = i # s'"
      using "1.prems" split parse_bits_cw [OF i, of r] by (cases "parse_bits r") auto
    show ?thesis
    proof (cases "i = 256")
      case True
      with t five s show ?thesis
        by (subst drain_symbols.simps) (simp add: eos_error_def del: upt_Suc)
    next
      case False
      have IH: "drain_symbols acc (n - length (cw i)) (out @ [of_nat i]) =
          (if 256 \<in> set s' then Inl eos_error else Inr (length q, (out @ [of_nat i]) @ map of_nat s'))"
        using "1.IH" [OF five t refl False] s' r by simp
      from t five s False IH show ?thesis
        by (subst drain_symbols.simps) (simp del: upt_Suc)
    qed
  qed
qed

text \<open>What is left of the accumulator is the undecoded rest of the stream.\<close>

lemma parse_rest_bits:
  assumes "parse_bits (word_bits n acc) = (s, q)"
  shows "word_bits (length q) acc = q"
proof -
  from parse_bits_sound [OF assms] have split: "word_bits n acc = concat (map cw s) @ q" by simp
  then have "length q \<le> n" and "n = length (concat (map cw s)) + length q"
    by (metis length_append length_word_bits le_add2)+
  then show ?thesis
    using split word_bits_drop [of "n - length q" n acc] by (simp del: length_concat)
qed

text \<open>
  Between bytes the accumulator holds fewer than 30 undecoded bits, so the \<open>u8\<close> counter stays below
  38 and the \<open>u64\<close> shift never drops a live bit.
\<close>

lemma decode_bytes_parse:
  "walk huffman_tree (word_bits n acc) = None \<Longrightarrow>
     parse_bits (word_bits n acc @ bytes_bits bs) = (s, q) \<Longrightarrow>
     (if 256 \<in> set s then decode_bytes bs acc n out = Inl eos_error
      else \<exists>acc'. decode_bytes bs acc n out = Inr (acc', length q, out @ map of_nat s) \<and>
             word_bits (length q) acc' = q)"
proof (induction bs arbitrary: acc n out s q)
  case Nil
  then show ?case by (auto simp: parse_bits_stuck)
next
  case (Cons b bs)
  let ?acc = "push_bit 8 acc OR ucast b :: u64"
  have "n + 8 \<le> 64" using walk_None_short [OF Cons.prems(1)] by simp
  then have acc: "word_bits (n + 8) ?acc = word_bits n acc @ word_bits 8 b"
    by (rule word_bits_push_byte)
  obtain s1 q1 where p1: "parse_bits (word_bits (n + 8) ?acc) = (s1, q1)" by fastforce
  obtain s2 q2 where p2: "parse_bits (q1 @ bytes_bits bs) = (s2, q2)" by fastforce
  have sq: "s = s1 @ s2" "q = q2"
    using parse_bits_append [OF p1, of "bytes_bits bs"] p2 Cons.prems(2) acc by simp_all
  have drain: "drain_symbols ?acc (n + 8) out =
      (if 256 \<in> set s1 then Inl eos_error else Inr (length q1, out @ map of_nat s1))"
    by (rule drain_symbols_parse [OF p1])
  show ?case
  proof (cases "256 \<in> set s1")
    case True
    with drain sq show ?thesis by simp
  next
    case False
    have q1: "word_bits (length q1) ?acc = q1" by (rule parse_rest_bits [OF p1])
    moreover have "walk huffman_tree q1 = None" using parse_bits_sound [OF p1] by simp
    ultimately show ?thesis
      using Cons.IH [of "length q1" ?acc s2 q2 "out @ map of_nat s1"] p2 sq False drain
      by (auto split: if_splits)
  qed
qed

text \<open>The reference decoder, on the bits of the input.\<close>

definition huffman_spec :: "bytes \<Rightarrow> bytes result" where
  "huffman_spec input =
     (let (s, q) = parse_bits (bytes_bits input) in
      if 256 \<in> set s then Inl eos_error
      else if length q \<ge> 8 then Inl (BadResponse ''hpack: trailing Huffman bits >= 8'')
      else if q \<noteq> replicate (length q) True then Inl (BadResponse ''hpack: bad Huffman padding'')
      else Inr (map of_nat s))"

lemma tail_is_mask:
  fixes acc :: u64
  assumes "n \<le> 64"
  shows "acc AND (push_bit n 1 - 1) = push_bit n 1 - 1 \<longleftrightarrow> word_bits n acc = replicate n True"
proof -
  have "acc AND mask n = mask n \<longleftrightarrow> (\<forall>k < n. bit acc k)"
    using assms by (auto simp: bit_eq_iff bit_simps) (meson order_less_le_trans)
  also have "\<dots> \<longleftrightarrow> word_bits n acc = replicate n True"
  proof
    assume "\<forall>k < n. bit acc k"
    then show "word_bits n acc = replicate n True"
      by (intro nth_equalityI) (simp_all add: nth_word_bits)
  next
    assume all: "word_bits n acc = replicate n True"
    show "\<forall>k < n. bit acc k"
    proof (intro allI impI)
      fix k
      assume "k < n"
      then have "word_bits n acc ! (n - 1 - k)" using all by simp
      with \<open>k < n\<close> show "bit acc k" by (simp add: nth_word_bits)
    qed
  qed
  finally show ?thesis by (simp only: push_one_mask)
qed

lemma root_stuck: "walk huffman_tree [] = None"
proof (rule ccontr)
  assume "walk huffman_tree [] \<noteq> None"
  then obtain i r where "walk huffman_tree [] = Some (i, r)" by force
  then have "i < 257" "cw i = []" by (simp_all add: walk_huffman)
  with cw_bounds [of i] show False by simp
qed

lemma huffman_decode_spec: "huffman_decode input = huffman_spec input"
proof -
  obtain s q where p: "parse_bits (bytes_bits input) = (s, q)" by fastforce
  have start: "walk huffman_tree (word_bits 0 (0 :: u64)) = None"
    by (simp add: word_bits_0 root_stuck)
  have run: "if 256 \<in> set s then decode_bytes input 0 0 [] = Inl eos_error
      else \<exists>acc'. decode_bytes input 0 0 [] = Inr (acc', length q, map of_nat s) \<and>
             word_bits (length q) acc' = q"
    using decode_bytes_parse [OF start, of input s q "[]"] p by (auto simp: word_bits_0 split: if_splits)
  show ?thesis
  proof (cases "256 \<in> set s")
    case True
    with run p show ?thesis by (simp add: huffman_decode_def huffman_spec_def)
  next
    case False
    with run obtain acc' where "decode_bytes input 0 0 [] = Inr (acc', length q, map of_nat s)"
      and "word_bits (length q) acc' = q" by auto
    with False p tail_is_mask [of "length q" acc'] show ?thesis
      by (simp add: huffman_decode_def huffman_spec_def Let_def)
  qed
qed

end
