(* ===== verification/Huffman_Codec.thy ===== *)
theory Huffman_Codec
  imports Hpack_Huffman
begin

text \<open>
  The two directions of the HPACK Huffman coder together: the encoder's in-place packing writes the
  code words one after the other and pads with ones, the decoder gives back what was encoded, and a
  string it accepts is the encoder's output for the result, so the coding is canonical.
\<close>

subsection \<open>Bits of a byte string\<close>

lemma div_mod_8_add:
  fixes k j :: nat
  assumes "k = 8 + j"
  shows "k div 8 = Suc (j div 8)" "k mod 8 = j mod 8"
proof -
  show "k div 8 = Suc (j div 8)" using assms by (simp add: div_add_self1)
  show "k mod 8 = j mod 8" using assms by (simp only: mod_add_self1)
qed

lemma nth_bytes_bits:
  "k < 8 * length out \<Longrightarrow> bytes_bits out ! k = bit (out ! (k div 8)) (7 - k mod 8)"
proof (induction out arbitrary: k)
  case (Cons b bs)
  show ?case
  proof (cases "k < 8")
    case True
    then show ?thesis by (simp add: nth_append nth_word_bits)
  next
    case False
    then obtain j where j: "k = 8 + j" using le_Suc_ex [of 8 k] by auto
    have "bytes_bits (b # bs) ! k = bytes_bits bs ! j"
      by (simp add: nth_append j)
    moreover have "j < 8 * length bs" using Cons.prems j by simp
    ultimately show ?thesis using Cons.IH [of j] by (simp only: div_mod_8_add [OF j] nth_Cons_Suc)
  qed
qed simp

lemma bytes_bits_inject: "bytes_bits xs = bytes_bits ys \<Longrightarrow> xs = ys"
proof (induction xs arbitrary: ys)
  case Nil
  then show ?case by (cases ys) (simp_all add: word_bits_def)
next
  case (Cons x xs)
  from Cons.prems obtain y ys' where ys: "ys = y # ys'"
    by (cases ys) (auto simp: word_bits_def)
  with Cons.prems have "word_bits 8 x = word_bits 8 y" "bytes_bits xs = bytes_bits ys'" by simp_all
  moreover have "unat x < 2 ^ 8" "unat y < 2 ^ 8"
    using unsigned_less [of x] unsigned_less [of y] by simp_all
  ultimately show ?case using Cons.IH ys word_bits_inject by blast
qed

subsection \<open>ORing a chunk into the first free bits of the buffer\<close>

text \<open>Where bit \<open>k\<close> of the buffer falls relative to a chunk of \<open>tk\<close> bits placed at \<open>pos\<close>.\<close>

lemma chunk_arith:
  fixes P K k pos tk :: nat
  assumes "k + P = pos + K" "P < 8" "K < 8" "0 < tk" "tk \<le> 8 - P"
  shows "k < pos \<Longrightarrow> tk \<le> 7 - K - (8 - P - tk)"
    and "pos \<le> k \<Longrightarrow> k < pos + tk \<Longrightarrow>
           8 - P - tk \<le> 7 - K \<and> 7 - K - (8 - P - tk) = tk - 1 - (k - pos)"
    and "pos + tk \<le> k \<Longrightarrow> \<not> 8 - P - tk \<le> 7 - K"
  using assms by linarith+

lemma chunk_same_byte:
  fixes k pos tk :: nat
  assumes "pos \<le> k" "k < pos + tk" "tk \<le> 8 - pos mod 8"
  shows "k div 8 = pos div 8"
proof -
  have "pos div 8 * 8 + pos mod 8 = pos" "pos mod 8 < 8" by simp_all
  moreover have "pos mod 8 + tk \<le> 8" using assms(3) \<open>pos mod 8 < 8\<close> by simp
  ultimately have "8 * (pos div 8) \<le> k" "k < 8 * Suc (pos div 8)"
    unfolding mult_Suc_right using assms(1,2) by linarith+
  then show ?thesis using div_nat_eqI by blast
qed

lemma or_chunk_bits:
  assumes buf: "bytes_bits out = W @ replicate z False"
    and fit: "0 < tk" "tk \<le> 8 - length W mod 8" "tk \<le> z"
    and small: "\<And>m. bit chunk m \<Longrightarrow> m < tk"
  shows "bytes_bits (out[length W div 8 := out ! (length W div 8)
      OR push_bit (8 - length W mod 8 - tk) chunk])
    = W @ word_bits tk chunk @ replicate (z - tk) False"
    (is "bytes_bits ?out' = ?rhs")
proof (rule nth_equalityI)
  let ?pos = "length W"
  have len: "8 * length out = ?pos + z"
    using arg_cong [OF buf, of length] by simp
  then show "length (bytes_bits ?out') = length ?rhs" using fit by simp
  fix k
  assume "k < length (bytes_bits ?out')"
  then have k: "k < 8 * length out" by simp
  have old: "bit (out ! (k div 8)) (7 - k mod 8) = (k < ?pos \<and> W ! k)"
    using nth_bytes_bits [OF k] k len by (auto simp: buf nth_append split: if_splits)
  have new: "bytes_bits ?out' ! k = bit (?out' ! (k div 8)) (7 - k mod 8)"
    using nth_bytes_bits [of k ?out'] k by simp
  show "bytes_bits ?out' ! k = ?rhs ! k"
  proof (cases "k div 8 = ?pos div 8")
    case False
    then have "\<not> (?pos \<le> k \<and> k < ?pos + tk)" using chunk_same_byte fit(2) by blast
    then show ?thesis
      using new old False k fit(3) len by (auto simp: nth_append)
  next
    case True
    have kp: "k + ?pos mod 8 = ?pos + k mod 8"
      using True by (metis add.assoc add.commute div_mult_mod_eq)
    have bounds: "?pos mod 8 < 8" "k mod 8 < 8" by simp_all
    note arith = chunk_arith [OF kp bounds fit(1,2)]
    have bytes: "bytes_bits ?out' ! k \<longleftrightarrow> (k < ?pos \<and> W ! k)
        \<or> (8 - ?pos mod 8 - tk \<le> 7 - k mod 8
            \<and> bit chunk (7 - k mod 8 - (8 - ?pos mod 8 - tk)))"
      using new old True k by (auto simp: bit_or_iff bit_push_bit_iff)
    consider (before) "k < ?pos" | (inside) "?pos \<le> k" "k < ?pos + tk" | (after) "?pos + tk \<le> k"
      by linarith
    then show ?thesis
    proof cases
      case before
      then have "\<not> bit chunk (7 - k mod 8 - (8 - ?pos mod 8 - tk))"
        using small not_less arith(1) by blast
      with bytes before show ?thesis by (simp add: nth_append)
    next
      case inside
      then have "bytes_bits ?out' ! k \<longleftrightarrow> bit chunk (tk - 1 - (k - ?pos))"
        unfolding bytes using arith(2) [OF inside] leD by simp
      moreover have "?rhs ! k \<longleftrightarrow> bit chunk (tk - 1 - (k - ?pos))"
        using inside by (auto simp: nth_append nth_word_bits)
      ultimately show ?thesis by blast
    next
      case after
      have "?rhs ! k \<longleftrightarrow> False"
        using after k len by (auto simp: nth_append)
      moreover have "\<not> k < ?pos" using after by simp
      ultimately show ?thesis unfolding bytes using arith(3) [OF after] by blast
    qed
  qed
qed

subsection \<open>The encoder packs the code words\<close>

lemma word_bits_split:
  "tk \<le> n \<Longrightarrow> word_bits n w = word_bits tk (drop_bit (n - tk) w) @ word_bits (n - tk) w"
  using word_bits_add [of tk "n - tk" w] by simp

text \<open>The chunk the loop takes off the front of the remaining code bits.\<close>

lemma pack_chunk:
  fixes w :: u64
  assumes "tk \<le> 8"
  shows "bit (ucast (w AND (push_bit tk 1 - 1)) :: byte) m \<Longrightarrow> m < tk"
    and "word_bits tk (ucast (w AND (push_bit tk 1 - 1)) :: byte) = word_bits tk w"
proof -
  show "bit (ucast (w AND (push_bit tk 1 - 1)) :: byte) m \<Longrightarrow> m < tk"
    by (simp only: push_one_mask) (simp add: bit_simps)
  show "word_bits tk (ucast (w AND (push_bit tk 1 - 1)) :: byte) = word_bits tk w"
    unfolding push_one_mask using assms by (simp add: word_bits_ucast word_bits_mask)
qed

lemma pack_code_bits:
  "bytes_bits out = W @ replicate z False \<Longrightarrow> remaining \<le> z \<Longrightarrow>
     \<exists>out'. pack_code remaining code_left (length W) out = (length W + remaining, out') \<and>
       bytes_bits out' = W @ word_bits remaining code_left @ replicate (z - remaining) False"
proof (induction remaining arbitrary: code_left W z out rule: less_induct)
  case (less n)
  show ?case
  proof (cases "n = 0")
    case True
    with less.prems show ?thesis by (simp add: pack_code.simps [of 0] word_bits_0)
  next
    case False
    let ?space = "8 - length W mod 8"
    let ?tk = "min n ?space"
    let ?chunk = "ucast (drop_bit (n - ?tk) code_left AND (push_bit ?tk 1 - 1)) :: byte"
    let ?out = "out[length W div 8 := out ! (length W div 8) OR push_bit (?space - ?tk) ?chunk]"
    let ?code = "if n - ?tk > 0 then code_left AND (push_bit (n - ?tk) 1 - 1) else 0"
    let ?W = "W @ word_bits ?tk (drop_bit (n - ?tk) code_left)"
    have tk: "0 < ?tk" "?tk \<le> ?space" "?tk \<le> z" "?tk \<le> 8" using False less.prems by simp_all
    have "bytes_bits ?out = W @ word_bits ?tk ?chunk @ replicate (z - ?tk) False"
      by (rule or_chunk_bits [OF less.prems(1) tk(1-3)]) (rule pack_chunk(1) [OF tk(4)])
    then have buf: "bytes_bits ?out = ?W @ replicate (z - ?tk) False"
      by (simp only: pack_chunk(2) [OF tk(4)] append_assoc)
    have step: "pack_code n code_left (length W) out = pack_code (n - ?tk) ?code (length ?W) ?out"
      using False by (subst pack_code.simps) (simp add: Let_def)
    have code: "word_bits (n - ?tk) ?code = word_bits (n - ?tk) code_left"
      unfolding push_one_mask by (simp add: word_bits_mask word_bits_0)
    have len: "length ?W + (n - ?tk) = length W + n" using tk by simp
    have rest: "z - ?tk - (n - ?tk) = z - n" using less.prems by simp
    have "n - ?tk < n" "n - ?tk \<le> z - ?tk"
      using False tk(1) diff_le_mono [OF less.prems(2), of ?tk] by simp_all
    from less.IH [OF this(1) buf this(2), of ?code]
    show ?thesis
      unfolding step code len rest
      using word_bits_split [of ?tk n code_left] by simp
  qed
qed

text \<open>The code bits of a whole string.\<close>

definition code_bits :: "bytes \<Rightarrow> bool list" where
  "code_bits bs = concat (map (\<lambda>b. cw (unat b)) bs)"

lemma length_code_bits: "length (code_bits bs) = total_bits bs"
  by (induction bs) (simp_all add: code_bits_def total_bits_def length_cw)

lemma unat_byte_257: "unat (b :: byte) < 257"
  using unat_byte_less [of b] by simp

lemma pack_symbols_bits:
  "bytes_bits out = W @ replicate z False \<Longrightarrow> total_bits bs \<le> z \<Longrightarrow>
     bytes_bits (pack_symbols bs (length W) out) = W @ code_bits bs @ replicate (z - total_bits bs) False"
proof (induction bs arbitrary: W z out)
  case Nil
  then show ?case by (simp add: code_bits_def total_bits_def)
next
  case (Cons b bs)
  obtain code len where e: "HUFFMAN ! unat b = (code, len)" by fastforce
  have "len \<le> 30" using cw_bounds [OF unat_byte_257 [of b]] by (simp add: length_cw e)
  then have c: "word_bits len (ucast code :: u64) = cw (unat b)"
    by (simp add: cw_def e word_bits_ucast)
  have T: "total_bits (b # bs) = len + total_bits bs" by (simp add: total_bits_def e)
  then have "len \<le> z" using Cons.prems by simp
  from pack_code_bits [OF Cons.prems(1) this, of "ucast code"] obtain out' where
    p: "pack_code len (ucast code) (length W) out = (length W + len, out')" and
    o: "bytes_bits out' = (W @ cw (unat b)) @ replicate (z - len) False"
    unfolding c by auto
  have "length W + len = length (W @ cw (unat b))" by (simp add: length_cw e)
  moreover have "total_bits bs \<le> z - len" using Cons.prems T by simp
  moreover have "pack_symbols (b # bs) (length W) out = pack_symbols bs (length W + len) out'"
    by (simp add: e p)
  ultimately show ?case
    using Cons.IH [OF o] T by (simp add: code_bits_def)
qed

text \<open>The number of padding bits, as the code computes it and as what is left of the buffer.\<close>

lemma round_up_8: "r < 8 \<Longrightarrow> (8 * q + r + 7) div 8 = (if r = 0 then q else q + 1)" for q r :: nat
  by (auto intro!: div_nat_eqI)

lemma trailing_bits: "8 * ((T + 7) div 8) - T = (8 - T mod 8) mod 8" for T :: nat
proof -
  obtain q r where T: "T = 8 * q + r" and r: "r < 8"
    using mult_div_mod_eq [of 8 T] mod_less_divisor [of 8 T] by (metis zero_less_numeral)
  then have "T mod 8 = r" by simp
  then show ?thesis using r by (simp add: T round_up_8)
qed

lemma round_up_ge: "T \<le> 8 * ((T + 7) div 8)" for T :: nat
proof -
  obtain q r where T: "T = 8 * q + r" and r: "r < 8"
    using mult_div_mod_eq [of 8 T] mod_less_divisor [of 8 T] by (metis zero_less_numeral)
  then show ?thesis by (simp add: round_up_8)
qed

text \<open>The buffer after the final padding: the code bits, then fewer than eight ones.\<close>

definition padding :: "bytes \<Rightarrow> nat" where
  "padding bs = (8 - total_bits bs mod 8) mod 8"

lemma bytes_bits_zeros: "bytes_bits (replicate n 0) = replicate (8 * n) False"
proof (induction n)
  case (Suc n)
  have "word_bits 8 (0 :: byte) = replicate 8 False"
    by (rule nth_equalityI) (simp_all add: nth_word_bits)
  with Suc show ?case by (simp flip: replicate_add)
qed simp

lemma word_bits_ones: "n \<le> LENGTH('a) \<Longrightarrow> word_bits n (mask n :: 'a :: len word) = replicate n True"
  by (rule nth_equalityI) (auto simp: nth_word_bits bit_mask_iff)

lemma padding_less: "padding bs < 8"
  by (simp add: padding_def)

text \<open>Padding ORs a mask into the last byte, which is a chunk at the end of the code bits.\<close>

lemma pad_last_byte:
  assumes buf: "bytes_bits out = W @ replicate p False" and p: "0 < p" "p < 8"
  shows "bytes_bits (out[length out - 1 := out ! (length out - 1) OR (push_bit p 1 - 1)])
    = W @ replicate p True"
proof -
  have len: "8 * length out = length W + p" using arg_cong [OF buf, of length] by simp
  obtain n where n: "length out = Suc n" using len p by (cases "length out") simp_all
  with len have W: "length W = 8 * n + (8 - p)" using p by simp
  have idx: "length W div 8 = n" "length W mod 8 = 8 - p"
    using p unfolding W by (simp_all add: div_mult_self4 mod_mult_self4 del: diff_add_assoc diff_add_assoc2 add_diff_assoc)
  have "bytes_bits (out[length W div 8 := out ! (length W div 8)
      OR push_bit (8 - length W mod 8 - p) (mask p)])
    = W @ word_bits p (mask p :: byte) @ replicate (p - p) False"
    using p by (intro or_chunk_bits [OF buf]) (auto simp: idx bit_mask_iff)
  then show ?thesis
    unfolding push_one_mask using p by (simp add: idx n word_bits_ones)
qed

lemma huffman_encode_bits:
  "bytes_bits (huffman_encode bs) = code_bits bs @ replicate (padding bs) True"
proof -
  let ?n = "(total_bits bs + 7) div 8"
  let ?out = "pack_symbols bs 0 (replicate ?n 0)"
  have "bytes_bits (pack_symbols bs (length []) (replicate ?n 0))
      = [] @ code_bits bs @ replicate (8 * ?n - total_bits bs) False"
    using pack_symbols_bits [of "replicate ?n 0" "[]" "8 * ?n" bs] round_up_ge [of "total_bits bs"]
    by (simp add: bytes_bits_zeros)
  then have out: "bytes_bits ?out = code_bits bs @ replicate (padding bs) False"
    by (simp only: trailing_bits padding_def append_Nil list.size)
  show ?thesis
  proof (cases "padding bs = 0")
    case True
    with out show ?thesis by (simp add: huffman_encode_def padding_def Let_def)
  next
    case False
    with pad_last_byte [OF out] padding_less [of bs] show ?thesis
      by (simp add: huffman_encode_def Let_def flip: padding_def)
  qed
qed

subsection \<open>Round trip and canonicity\<close>

text \<open>A run of fewer than thirty ones is no code word: only the end-of-string marker is all ones.\<close>

lemma cw_256: "cw 256 = replicate 30 True"
  by (simp add: cw_def HUFFMAN_def nth_append length_HUFFMAN_low)
    (simp add: HUFFMAN_high_def word_bits_numeral word_bits_Suc word_bits_0 numeral_eq_Suc)

lemma ones_stuck:
  assumes "n < 30"
  shows "walk huffman_tree (replicate n True) = None"
proof (rule ccontr)
  assume "walk huffman_tree (replicate n True) \<noteq> None"
  then obtain i r where w: "walk huffman_tree (replicate n True) = Some (i, r)" by force
  have "replicate 30 True = replicate n True @ replicate (30 - n) True"
    using assms by (simp flip: replicate_add)
  with walk_append [OF w, of "replicate (30 - n) True"]
  have "walk huffman_tree (cw 256) = Some (i, r @ replicate (30 - n) True)"
    by (simp add: cw_256)
  moreover have "walk huffman_tree (cw 256) = Some (256, [])" by (rule walk_cw) simp
  ultimately show False using assms by simp
qed

lemma parse_code_bits:
  "parse_bits (code_bits bs @ replicate n True) = (map unat bs, replicate n True)" if "n < 30"
proof -
  have "parse_bits (concat (map cw (map unat bs)) @ replicate n True)
      = (map unat bs @ fst (parse_bits (replicate n True)), snd (parse_bits (replicate n True)))"
    by (rule parse_bits_concat) (auto simp: unat_byte_257)
  then show ?thesis
    using parse_bits_stuck [OF ones_stuck [OF that]] by (simp add: code_bits_def comp_def)
qed

lemma trailing_arith: "8 * n = T + q \<Longrightarrow> q < 8 \<Longrightarrow> q = (8 - T mod 8) mod 8" for n T q :: nat
proof -
  assume eq: "8 * n = T + q" and q: "q < 8"
  have "(T + 7) div 8 = n" by (rule div_nat_eqI) (use eq q in simp_all)
  with trailing_bits [of T] eq show ?thesis by simp
qed

lemma byte_of_unat: "map of_nat (map unat bs) = (bs :: bytes)"
  by (induction bs) simp_all

lemma huffman_decode_encode: "huffman_decode (huffman_encode bs) = Inr bs"
proof -
  have "parse_bits (bytes_bits (huffman_encode bs)) = (map unat bs, replicate (padding bs) True)"
    unfolding huffman_encode_bits using padding_less [of bs] by (intro parse_code_bits) simp
  moreover have "256 \<notin> set (map unat bs)"
    using unat_byte_less by (auto simp: image_iff) (metis less_irrefl)
  moreover have "length (replicate (padding bs) True) < 8" using padding_less [of bs] by simp
  ultimately show ?thesis
    by (simp add: huffman_decode_spec huffman_spec_def not_le byte_of_unat del: map_map)
qed

text \<open>A string the decoder accepts has exactly the code bits of the result and the encoder's padding.\<close>

lemma huffman_encode_decode:
  assumes "huffman_decode input = Inr out"
  shows "huffman_encode out = input"
proof -
  obtain s q where p: "parse_bits (bytes_bits input) = (s, q)" by fastforce
  with assms have s: "256 \<notin> set s" "length q < 8" "q = replicate (length q) True"
    and out: "out = map of_nat s"
    by (auto simp: huffman_decode_spec huffman_spec_def Let_def split: if_splits)
  have bits: "bytes_bits input = concat (map cw s) @ q" and lt: "\<forall>i\<in>set s. i < 257"
    using parse_bits_sound [OF p] by simp_all
  have "map unat out = s"
    unfolding out map_map
  proof (rule map_idI)
    fix i
    assume "i \<in> set s"
    with s(1) lt have "i < 257" "i \<noteq> 256" by auto
    then have "i < 256" by simp
    then show "(unat \<circ> (of_nat :: nat \<Rightarrow> byte)) i = i" by (simp add: unat_of_nat)
  qed
  then have code: "code_bits out = concat (map cw s)"
    by (auto simp: code_bits_def comp_def)
  have "8 * length input = total_bits out + length q"
    using arg_cong [OF bits, of length] by (simp add: length_code_bits flip: code)
  then have "length q = padding out"
    unfolding padding_def using s(2) by (rule trailing_arith)
  then have "bytes_bits (huffman_encode out) = bytes_bits input"
    using s(3) by (simp add: huffman_encode_bits bits code)
  then show ?thesis by (rule bytes_bits_inject)
qed

subsection \<open>Properties\<close>

text \<open>C5: The Huffman decoder accepts exactly the encoder's outputs, each as the string it encodes: no other
  bytes, no other padding, no end-of-string symbol.\<close>

theorem huffman_accepts_exactly: "huffman_decode input = Inr out \<longleftrightarrow> huffman_encode out = input"
  using huffman_encode_decode [of input out] huffman_decode_encode [of out] by auto

text \<open>The decoder, which matches code lengths against a 64-bit accumulator, computes what the bit-by-bit
  reference does with the code tree of RFC 7541 Appendix B, errors included.\<close>

lemma huffman_decoder_is_reference: "huffman_decode input = huffman_spec input"
  by (rule huffman_decode_spec)

end
