(* ===== verification/H2_Frame.thy ===== *)
theory H2_Frame
  imports Codec
begin

text \<open>
  HTTP/2 frames on the wire (\<open>src/src/http2.rs\<close>, "Connection preface and frame types" and the frame
  reader and writer): the constants, \<open>struct Frame\<close>, \<open>read_frame\<close>, \<open>write_frame\<close>, and the
  WINDOW_UPDATE payload codec.  The lemmas show that a written frame is read back unchanged
  from any transport that carries it, which makes the pair a \<open>codec\<close>.
\<close>

subsection \<open>Constants\<close>

definition PREFACE :: bytes where
  "PREFACE = map (\<lambda>c. of_char c) (''PRI * HTTP/2.0'' @ [CHR 0x0D, CHR 0x0A, CHR 0x0D, CHR 0x0A]
      @ ''SM'' @ [CHR 0x0D, CHR 0x0A, CHR 0x0D, CHR 0x0A])"

abbreviation (input) F_DATA :: byte where "F_DATA \<equiv> 0x0"
abbreviation (input) F_HEADERS :: byte where "F_HEADERS \<equiv> 0x1"
abbreviation (input) F_PRIORITY :: byte where "F_PRIORITY \<equiv> 0x2"
abbreviation (input) F_RST_STREAM :: byte where "F_RST_STREAM \<equiv> 0x3"
abbreviation (input) F_SETTINGS :: byte where "F_SETTINGS \<equiv> 0x4"
abbreviation (input) F_PUSH_PROMISE :: byte where "F_PUSH_PROMISE \<equiv> 0x5"
abbreviation (input) F_PING :: byte where "F_PING \<equiv> 0x6"
abbreviation (input) F_GOAWAY :: byte where "F_GOAWAY \<equiv> 0x7"
abbreviation (input) F_WINDOW_UPDATE :: byte where "F_WINDOW_UPDATE \<equiv> 0x8"
abbreviation (input) F_CONTINUATION :: byte where "F_CONTINUATION \<equiv> 0x9"

abbreviation (input) FLAG_END_STREAM :: byte where "FLAG_END_STREAM \<equiv> 0x01"
abbreviation (input) FLAG_ACK :: byte where "FLAG_ACK \<equiv> 0x01"
abbreviation (input) FLAG_END_HEADERS :: byte where "FLAG_END_HEADERS \<equiv> 0x04"
abbreviation (input) FLAG_PADDED :: byte where "FLAG_PADDED \<equiv> 0x08"
abbreviation (input) FLAG_PRIORITY :: byte where "FLAG_PRIORITY \<equiv> 0x20"

text \<open>\<open>frame.flags & FLAG != 0\<close>.\<close>

definition has_flag :: "byte \<Rightarrow> byte \<Rightarrow> bool" where
  "has_flag fl f \<longleftrightarrow> fl AND f \<noteq> 0"

subsection \<open>Frames\<close>

record frame =
  f_typ :: byte
  f_flags :: byte
  f_sid :: u32
  f_payload :: bytes

definition MAX_FRAME_PAYLOAD :: nat where
  "MAX_FRAME_PAYLOAD = 2 ^ 20"

definition read_frame :: "transport \<Rightarrow> (io_kind + frame) \<times> transport" where
  "read_frame r =
     bindS (read_exact 9 r) (\<lambda>hdr r.
       let len = push_bit 16 (unat (hdr ! 0)) OR push_bit 8 (unat (hdr ! 1)) OR unat (hdr ! 2);
           sid = push_bit 24 (ucast (hdr ! 5 AND 0x7f)) OR push_bit 16 (ucast (hdr ! 6))
                 OR push_bit 8 (ucast (hdr ! 7)) OR ucast (hdr ! 8)
       in if len > MAX_FRAME_PAYLOAD then (Inl InvalidData, r)
          else bindS (if len > 0 then read_exact len r else (Inr [], r)) (\<lambda>body r.
            (Inr \<lparr>f_typ = hdr ! 3, f_flags = hdr ! 4, f_sid = sid, f_payload = body\<rparr>, r)))"

text \<open>The nine header bytes \<open>write_frame\<close> builds; the reserved bit is cleared.\<close>

definition frame_header :: "frame \<Rightarrow> bytes" where
  "frame_header f =
     (let len = length (f_payload f) in
      [of_nat (drop_bit 16 len AND 0xff), of_nat (drop_bit 8 len AND 0xff), of_nat (len AND 0xff),
       f_typ f, f_flags f,
       ucast (drop_bit 24 (f_sid f) AND 0x7f), ucast (drop_bit 16 (f_sid f) AND 0xff),
       ucast (drop_bit 8 (f_sid f) AND 0xff), ucast (f_sid f AND 0xff)])"

definition write_frame :: "frame \<Rightarrow> transport \<Rightarrow> (io_kind + unit) \<times> transport" where
  "write_frame f w =
     (if length (f_payload f) > MAX_FRAME_PAYLOAD then (Inl InvalidInput, w)
      else bindS (write_all (frame_header f) w) (\<lambda>_ w.
        if f_payload f \<noteq> [] then write_all (f_payload f) w else (Inr (), w)))"

text \<open>The bytes of a frame, and the frames whose bytes determine them.\<close>

definition frame_bytes :: "frame \<Rightarrow> bytes" where
  "frame_bytes f = frame_header f @ f_payload f"

definition wire_frame :: "frame \<Rightarrow> bool" where
  "wire_frame f \<longleftrightarrow> length (f_payload f) \<le> MAX_FRAME_PAYLOAD \<and> f_sid f < 2 ^ 31"

lemma length_frame_header [simp]: "length (frame_header f) = 9"
  by (simp add: frame_header_def Let_def)

lemma write_frame_unbounded:
  "t_cap w = None \<Longrightarrow> length (f_payload f) \<le> MAX_FRAME_PAYLOAD \<Longrightarrow>
     write_frame f w = (Inr (), w\<lparr>t_out := t_out w @ frame_bytes f\<rparr>)"
  by (simp add: write_frame_def frame_bytes_def)

lemma write_frame_in [simp]:
  "t_in (snd (write_frame f w)) = t_in w" "t_end (snd (write_frame f w)) = t_end w"
proof -
  have "t_in (snd (write_frame f w)) = t_in w \<and> t_end (snd (write_frame f w)) = t_end w"
    unfolding write_frame_def
    by (cases "write_all (frame_header f) w"; cases "fst (write_all (frame_header f) w)")
      (use write_all_in [of "frame_header f" w] in \<open>auto\<close>)
  then show "t_in (snd (write_frame f w)) = t_in w" "t_end (snd (write_frame f w)) = t_end w"
    by simp_all
qed

lemma frame_length_roundtrip:
  assumes "len \<le> MAX_FRAME_PAYLOAD"
  shows "push_bit 16 (unat (of_nat (drop_bit 16 len AND 0xff) :: byte))
      OR push_bit 8 (unat (of_nat (drop_bit 8 len AND 0xff) :: byte))
      OR unat (of_nat (len AND 0xff) :: byte) = len"
proof -
  have mask: "unat (of_nat (n AND 0xff) :: byte) = take_bit 8 n" for n :: nat
    by (simp add: and_ff unat_of_nat take_bit_eq_mod)
  have "len < 2 ^ 24" using assms by (simp add: MAX_FRAME_PAYLOAD_def)
  then have "take_bit 24 len = len" by (simp add: take_bit_nat_eq_self_iff)
  then have high: "bit len n \<Longrightarrow> n < 24" for n
    by (metis bit_take_bit_iff)
  show ?thesis
    unfolding mask
  proof (rule bit_eqI)
    fix n :: nat
    consider "n < 8" | "8 \<le> n" "n < 16" | "16 \<le> n" "n < 24" | "24 \<le> n" by linarith
    then show "bit (push_bit 16 (take_bit 8 (drop_bit 16 len)) OR push_bit 8 (take_bit 8 (drop_bit 8 len))
        OR take_bit 8 len) n = bit len n"
      by cases (auto simp: bit_simps dest: high)
  qed
qed

lemma frame_sid_roundtrip:
  fixes i :: u32
  assumes "i < 2 ^ 31"
  shows "push_bit 24 (ucast ((ucast (drop_bit 24 i AND 0x7f) :: byte) AND 0x7f))
      OR push_bit 16 (ucast (ucast (drop_bit 16 i AND 0xff) :: byte))
      OR push_bit 8 (ucast (ucast (drop_bit 8 i AND 0xff) :: byte))
      OR ucast (ucast (i AND 0xff) :: byte) = i" (is "?w = i")
proof (rule bit_word_eqI)
  fix n
  assume "n < LENGTH(32)"
  then consider "n < 8" | "8 \<le> n" "n < 16" | "16 \<le> n" "n < 24" | "24 \<le> n" "n < 31" | "n = 31"
    by fastforce
  moreover have "\<not> bit i 31"
  proof -
    have "unat i < 2 ^ 31" using assms by (simp add: word_less_nat_alt)
    then have "\<not> bit (unat i) 31" by (simp add: bit_iff_odd)
    then show ?thesis by (simp add: bit_unsigned_iff)
  qed
  ultimately show "bit ?w n = bit i n"
    by cases (auto simp: and_ff and_7f bit_simps)
qed

lemma read_exact_append:
  "t_in r = xs @ ys \<Longrightarrow> read_exact (length xs) r = (Inr xs, r\<lparr>t_in := ys\<rparr>)"
  by (simp add: read_exact_def)

lemma read_frame_bytes:
  assumes "wire_frame f" and "t_in r = frame_bytes f @ rest"
  shows "read_frame r = (Inr f, r\<lparr>t_in := rest\<rparr>)"
proof -
  have hdr: "read_exact 9 r = (Inr (frame_header f), r\<lparr>t_in := f_payload f @ rest\<rparr>)"
    using read_exact_append [of r "frame_header f" "f_payload f @ rest"] assms(2)
    by (simp add: frame_bytes_def)
  have body: "read_exact (length (f_payload f)) (r\<lparr>t_in := f_payload f @ rest\<rparr>)
      = (Inr (f_payload f), r\<lparr>t_in := rest\<rparr>)"
    by (subst read_exact_append) simp_all
  let ?h = "frame_header f"
  have len: "push_bit 16 (unat (?h ! 0)) OR push_bit 8 (unat (?h ! 1)) OR unat (?h ! 2)
      = length (f_payload f)"
    using assms(1) frame_length_roundtrip
    by (simp add: frame_header_def Let_def wire_frame_def)
  have sid: "push_bit 24 (ucast (?h ! 5 AND 0x7f)) OR push_bit 16 (ucast (?h ! 6))
      OR push_bit 8 (ucast (?h ! 7)) OR ucast (?h ! 8) = f_sid f"
    using assms(1) frame_sid_roundtrip
    by (simp add: frame_header_def Let_def wire_frame_def)
  have rest: "?h ! 3 = f_typ f" "?h ! 4 = f_flags f"
    by (simp_all add: frame_header_def Let_def)
  show ?thesis
    unfolding read_frame_def hdr bindS.simps Let_def len sid rest
    using assms(1) body by (simp add: wire_frame_def)
qed

text \<open>The reader on a byte string, as a \<open>codec\<close>.\<close>

definition parse_frame :: "bytes \<Rightarrow> io_kind + frame \<times> nat" where
  "parse_frame bs =
     (case read_frame \<lparr>t_in = bs, t_end = IoUnexpectedEof, t_out = [], t_cap = None\<rparr> of
        (Inl e, _) \<Rightarrow> Inl e
      | (Inr f, r) \<Rightarrow> Inr (f, length bs - length (t_in r)))"

interpretation frame_codec: codec frame_bytes parse_frame wire_frame
  by unfold_locales (simp add: parse_frame_def read_frame_bytes)

subsection \<open>WINDOW\_UPDATE payloads\<close>

definition window_update_frame :: "u32 \<Rightarrow> u32 \<Rightarrow> frame" where
  "window_update_frame sid inc =
     \<lparr>f_typ = F_WINDOW_UPDATE, f_flags = 0, f_sid = sid, f_payload = to_be32 (inc AND 0x7fffffff)\<rparr>"

definition parse_window_update :: "bytes \<Rightarrow> u32 result" where
  "parse_window_update p =
     (if length p \<noteq> 4
      then Inl (BadResponse ''WINDOW_UPDATE payload length {} (expected 4) (FRAME_SIZE_ERROR)'')
      else Inr (from_be32 (p ! 0) (p ! 1) (p ! 2) (p ! 3) AND 0x7fffffff))"

lemma and_7fffffff: "(w :: u32) AND 0x7fffffff = take_bit 31 w"
  by (simp add: take_bit_eq_mask mask_numeral)

lemma parse_window_update_frame:
  "parse_window_update (f_payload (window_update_frame sid inc)) = Inr (take_bit 31 inc)"
  by (simp add: parse_window_update_def window_update_frame_def and_7fffffff to_be32_def)

lemma parse_window_update_bound:
  "parse_window_update p = Inr inc \<Longrightarrow> uint inc < 2 ^ 31"
  by (auto simp: parse_window_update_def and_7fffffff take_bit_eq_mod uint_mod
      unsigned_take_bit_eq split: if_splits)

subsection \<open>Properties\<close>

fun write_frames :: "frame list \<Rightarrow> transport \<Rightarrow> (io_kind + unit) \<times> transport" where
  "write_frames [] w = (Inr (), w)"
| "write_frames (f # fs) w = bindS (write_frame f w) (\<lambda>_ w. write_frames fs w)"

lemma write_frame_bytes:
  "wire_frame f \<Longrightarrow> t_cap w = None \<Longrightarrow>
     write_frame f w = (Inr (), w\<lparr>t_out := t_out w @ frame_bytes f\<rparr>)"
  by (simp add: write_frame_def wire_frame_def frame_bytes_def)

lemma write_frames_bytes:
  "list_all wire_frame fs \<Longrightarrow> t_cap w = None \<Longrightarrow>
     write_frames fs w = (Inr (), w\<lparr>t_out := t_out w @ concat (map frame_bytes fs)\<rparr>)"
  by (induction fs arbitrary: w) (simp_all add: write_frame_bytes)

text \<open>Frames written one after the other by \<open>write_frame\<close> onto a transport that takes them are read back
  by \<open>read_frame\<close> in order and unchanged, whatever follows them on the wire.\<close>

lemma frame_sequence_roundtrip:
  assumes "list_all wire_frame fs" and "t_cap w = None" and "t_out w = []"
  shows "\<exists>w'. write_frames fs w = (Inr (), w') \<and>
    decode_seq parse_frame (length fs) (t_out w' @ rest) = Inr (fs, rest)"
  using write_frames_bytes [OF assms(1,2)] frame_codec.decode_seq_concat [of fs rest] assms
  by (simp add: list_all_iff)

lemma frame_sequence_roundtrip_witness:
  "\<exists>w'. write_frames [\<lparr>f_typ = 4, f_flags = 0, f_sid = 0, f_payload = []\<rparr>, \<lparr>f_typ = 0, f_flags = 1, f_sid = 5, f_payload = [1, 2, 3]\<rparr>]
        \<lparr>t_in = [], t_end = IoUnexpectedEof, t_out = [], t_cap = None\<rparr> = (Inr (), w') \<and>
     decode_seq parse_frame (length [\<lparr>f_typ = 4, f_flags = 0, f_sid = 0, f_payload = []\<rparr>, \<lparr>f_typ = 0, f_flags = 1, f_sid = 5, f_payload = [1, 2, 3]\<rparr>])
        (t_out w' @ [9]) = Inr ([\<lparr>f_typ = 4, f_flags = 0, f_sid = 0, f_payload = []\<rparr>, \<lparr>f_typ = 0, f_flags = 1, f_sid = 5, f_payload = [1, 2, 3]\<rparr>], [9])"
  by (rule frame_sequence_roundtrip) (simp_all add: wire_frame_def MAX_FRAME_PAYLOAD_def)

end
