(* ===== verification/H2_Settings.thy ===== *)
theory H2_Settings
  imports H2_Frame
begin

text \<open>
  The peer's SETTINGS (\<open>struct PeerSettings\<close> of \<open>src/src/http2.rs\<close>): its defaults and
  \<open>apply_settings_payload\<close>, which mutates the record entry by entry and may stop half way with an
  error.  \<open>settings_ok\<close> is the range invariant that every application keeps, error or not, and
  \<open>apply_settings_last_wins\<close> says what an accepted payload does: each parameter takes the value
  of its last entry, everything else is left alone.
\<close>

abbreviation (input) S_HEADER_TABLE_SIZE :: u16 where "S_HEADER_TABLE_SIZE \<equiv> 0x1"
abbreviation (input) S_ENABLE_PUSH :: u16 where "S_ENABLE_PUSH \<equiv> 0x2"
abbreviation (input) S_MAX_CONCURRENT_STREAMS :: u16 where "S_MAX_CONCURRENT_STREAMS \<equiv> 0x3"
abbreviation (input) S_INITIAL_WINDOW_SIZE :: u16 where "S_INITIAL_WINDOW_SIZE \<equiv> 0x4"
abbreviation (input) S_MAX_FRAME_SIZE :: u16 where "S_MAX_FRAME_SIZE \<equiv> 0x5"
abbreviation (input) S_MAX_HEADER_LIST_SIZE :: u16 where "S_MAX_HEADER_LIST_SIZE \<equiv> 0x6"

abbreviation (input) INITIAL_WINDOW_SIZE_MAX :: u32 where "INITIAL_WINDOW_SIZE_MAX \<equiv> 0x7fffffff"
abbreviation (input) MAX_FRAME_SIZE_MIN :: u32 where "MAX_FRAME_SIZE_MIN \<equiv> 16384"
abbreviation (input) MAX_FRAME_SIZE_MAX :: u32 where "MAX_FRAME_SIZE_MAX \<equiv> 16777215"

record peer_settings =
  header_table_size :: u32
  enable_push :: bool
  max_concurrent_streams :: u32
  initial_window_size :: u32
  max_frame_size :: u32
  max_header_list_size :: u32

definition peer_settings_default :: peer_settings where
  "peer_settings_default =
     \<lparr>header_table_size = 4096, enable_push = True, max_concurrent_streams = 0xffffffff,
      initial_window_size = 65535, max_frame_size = 16384, max_header_list_size = 0xffffffff\<rparr>"

text \<open>The \<open>match id\<close> on one entry.\<close>

definition apply_setting :: "u16 \<Rightarrow> u32 \<Rightarrow> peer_settings \<Rightarrow> unit result \<times> peer_settings" where
  "apply_setting i v ps =
     (if i = S_HEADER_TABLE_SIZE then (Inr (), ps\<lparr>header_table_size := v\<rparr>)
      else if i = S_ENABLE_PUSH then
        (if v = 0 then (Inr (), ps\<lparr>enable_push := False\<rparr>)
         else if v = 1 then (Inr (), ps\<lparr>enable_push := True\<rparr>)
         else (Inl (BadResponse ''SETTINGS_ENABLE_PUSH must be 0 or 1, got {val}''), ps))
      else if i = S_MAX_CONCURRENT_STREAMS then (Inr (), ps\<lparr>max_concurrent_streams := v\<rparr>)
      else if i = S_INITIAL_WINDOW_SIZE then
        (if v > INITIAL_WINDOW_SIZE_MAX
         then (Inl (BadResponse
                ''SETTINGS_INITIAL_WINDOW_SIZE {val} exceeds 2^31-1 (FLOW_CONTROL_ERROR)''), ps)
         else (Inr (), ps\<lparr>initial_window_size := v\<rparr>))
      else if i = S_MAX_FRAME_SIZE then
        (if MAX_FRAME_SIZE_MIN \<le> v \<and> v \<le> MAX_FRAME_SIZE_MAX
         then (Inr (), ps\<lparr>max_frame_size := v\<rparr>)
         else (Inl (BadResponse
                ''SETTINGS_MAX_FRAME_SIZE {val} out of range [16384, 16777215]''), ps))
      else if i = S_MAX_HEADER_LIST_SIZE then (Inr (), ps\<lparr>max_header_list_size := v\<rparr>)
      else (Inr (), ps))"

text \<open>The loop over \<open>payload.chunks_exact(6)\<close>.\<close>

fun apply_settings_chunks :: "bytes \<Rightarrow> peer_settings \<Rightarrow> unit result \<times> peer_settings" where
  "apply_settings_chunks (a # b # c # d # e # f # rest) ps =
     bindS (apply_setting (from_be16 a b) (from_be32 c d e f) ps)
       (\<lambda>_ ps. apply_settings_chunks rest ps)"
| "apply_settings_chunks _ ps = (Inr (), ps)"

definition apply_settings_payload :: "bytes \<Rightarrow> peer_settings \<Rightarrow> unit result \<times> peer_settings" where
  "apply_settings_payload p ps =
     (if length p mod 6 \<noteq> 0
      then (Inl (BadResponse ''SETTINGS payload length {} not a multiple of 6''), ps)
      else apply_settings_chunks p ps)"

subsection \<open>The range invariant\<close>

definition settings_ok :: "peer_settings \<Rightarrow> bool" where
  "settings_ok ps \<longleftrightarrow> initial_window_size ps \<le> INITIAL_WINDOW_SIZE_MAX \<and>
     MAX_FRAME_SIZE_MIN \<le> max_frame_size ps \<and> max_frame_size ps \<le> MAX_FRAME_SIZE_MAX"

lemma settings_ok_default [simp]: "settings_ok peer_settings_default"
  by (simp add: settings_ok_def peer_settings_default_def)

lemma settings_ok_apply_setting: "settings_ok ps \<Longrightarrow> settings_ok (snd (apply_setting i v ps))"
  by (simp add: apply_setting_def settings_ok_def not_less)

lemma settings_ok_chunks: "settings_ok ps \<Longrightarrow> settings_ok (snd (apply_settings_chunks p ps))"
proof (induction p ps rule: apply_settings_chunks.induct)
  case (1 a b c d e f rest ps)
  let ?m = "apply_setting (from_be16 a b) (from_be32 c d e f) ps"
  have "settings_ok (snd ?m)"
    using "1.prems" by (rule settings_ok_apply_setting)
  then have "settings_ok (snd (bindS ?m (\<lambda>_ ps. apply_settings_chunks rest ps)))"
    by (rule bindS_state) (metis "1.IH")
  then show ?case by simp
qed simp_all

lemma settings_ok_payload: "settings_ok ps \<Longrightarrow> settings_ok (snd (apply_settings_payload p ps))"
  by (simp add: apply_settings_payload_def settings_ok_chunks)

subsection \<open>What an accepted payload does\<close>

text \<open>The entries of a payload, and the value a parameter has after them.\<close>

fun settings_entries :: "bytes \<Rightarrow> (u16 \<times> u32) list" where
  "settings_entries (a # b # c # d # e # f # rest) =
     (from_be16 a b, from_be32 c d e f) # settings_entries rest"
| "settings_entries _ = []"

fun last_setting :: "u16 \<Rightarrow> (u16 \<times> u32) list \<Rightarrow> u32 \<Rightarrow> u32" where
  "last_setting i [] d = d"
| "last_setting i ((j, v) # es) d = last_setting i es (if j = i then v else d)"

fun setting_legal :: "u16 \<times> u32 \<Rightarrow> bool" where
  "setting_legal (i, v) \<longleftrightarrow>
     (i = S_ENABLE_PUSH \<longrightarrow> v = 0 \<or> v = 1) \<and>
     (i = S_INITIAL_WINDOW_SIZE \<longrightarrow> v \<le> INITIAL_WINDOW_SIZE_MAX) \<and>
     (i = S_MAX_FRAME_SIZE \<longrightarrow> MAX_FRAME_SIZE_MIN \<le> v \<and> v \<le> MAX_FRAME_SIZE_MAX)"

definition settings_after :: "(u16 \<times> u32) list \<Rightarrow> peer_settings \<Rightarrow> peer_settings" where
  "settings_after es ps =
     \<lparr>header_table_size = last_setting S_HEADER_TABLE_SIZE es (header_table_size ps),
      enable_push = (last_setting S_ENABLE_PUSH es (if enable_push ps then 1 else 0) = 1),
      max_concurrent_streams = last_setting S_MAX_CONCURRENT_STREAMS es (max_concurrent_streams ps),
      initial_window_size = last_setting S_INITIAL_WINDOW_SIZE es (initial_window_size ps),
      max_frame_size = last_setting S_MAX_FRAME_SIZE es (max_frame_size ps),
      max_header_list_size = last_setting S_MAX_HEADER_LIST_SIZE es (max_header_list_size ps)\<rparr>"

lemma settings_after_Nil: "settings_after [] ps = ps"
  by (cases ps) (simp add: settings_after_def)

declare setting_legal.simps [simp del]

lemma setting_legal_cases:
  assumes "setting_legal (i, v)"
  obtains (header_table) "i = S_HEADER_TABLE_SIZE"
  | (push_off) "i = S_ENABLE_PUSH" "v = 0"
  | (push_on) "i = S_ENABLE_PUSH" "v = 1"
  | (streams) "i = S_MAX_CONCURRENT_STREAMS"
  | (window) "i = S_INITIAL_WINDOW_SIZE" "v \<le> INITIAL_WINDOW_SIZE_MAX"
  | (frame) "i = S_MAX_FRAME_SIZE" "MAX_FRAME_SIZE_MIN \<le> v" "v \<le> MAX_FRAME_SIZE_MAX"
  | (list) "i = S_MAX_HEADER_LIST_SIZE"
  | (unknown) "i \<noteq> S_HEADER_TABLE_SIZE" "i \<noteq> S_ENABLE_PUSH" "i \<noteq> S_MAX_CONCURRENT_STREAMS"
      "i \<noteq> S_INITIAL_WINDOW_SIZE" "i \<noteq> S_MAX_FRAME_SIZE" "i \<noteq> S_MAX_HEADER_LIST_SIZE"
  using assms unfolding setting_legal.simps by metis

lemma apply_setting_legal_ok:
  "setting_legal (i, v) \<Longrightarrow> fst (apply_setting i v ps) = Inr ()"
  by (erule setting_legal_cases) (simp_all add: apply_setting_def)

lemma apply_setting_legal_after:
  "setting_legal (i, v) \<Longrightarrow>
     settings_after ((i, v) # es) ps = settings_after es (snd (apply_setting i v ps))"
  by (erule setting_legal_cases) (simp_all add: apply_setting_def settings_after_def flip: not_le)

lemma apply_setting_legal:
  assumes "setting_legal (i, v)"
  obtains ps' where "apply_setting i v ps = (Inr (), ps')"
    and "\<And>es. settings_after ((i, v) # es) ps = settings_after es ps'"
  using apply_setting_legal_ok [OF assms, of ps] apply_setting_legal_after [OF assms, of _ ps]
  by (cases "apply_setting i v ps") auto

lemma apply_setting_illegal:
  assumes "\<not> setting_legal (i, v)"
  obtains m where "apply_setting i v ps = (Inl (BadResponse m), ps)"
proof -
  have "\<exists>m. apply_setting i v ps = (Inl (BadResponse m), ps)"
  proof -
    consider "i = S_ENABLE_PUSH" "v \<noteq> 0" "v \<noteq> 1"
      | "i = S_INITIAL_WINDOW_SIZE" "INITIAL_WINDOW_SIZE_MAX < v"
      | "i = S_MAX_FRAME_SIZE" "\<not> (MAX_FRAME_SIZE_MIN \<le> v \<and> v \<le> MAX_FRAME_SIZE_MAX)"
      using assms by (auto simp: setting_legal.simps not_le)
    then show ?thesis by cases (simp_all add: apply_setting_def)
  qed
  then show thesis using that by blast
qed

lemma apply_settings_chunks_legal:
  "list_all setting_legal (settings_entries p) \<Longrightarrow>
     apply_settings_chunks p ps = (Inr (), settings_after (settings_entries p) ps)"
proof (induction p ps rule: apply_settings_chunks.induct)
  case (1 a b c d e f rest ps)
  then have legal: "setting_legal (from_be16 a b, from_be32 c d e f)" by simp
  obtain ps' where "apply_setting (from_be16 a b) (from_be32 c d e f) ps = (Inr (), ps')"
    and "\<And>es. settings_after ((from_be16 a b, from_be32 c d e f) # es) ps = settings_after es ps'"
    using apply_setting_legal [OF legal] by blast
  with 1 show ?case by simp
qed (simp_all add: settings_after_Nil)

lemma apply_settings_chunks_illegal:
  "\<not> list_all setting_legal (settings_entries p) \<Longrightarrow>
     \<exists>m. fst (apply_settings_chunks p ps) = Inl (BadResponse m)"
proof (induction p ps rule: apply_settings_chunks.induct)
  case (1 a b c d e f rest ps)
  show ?case
  proof (cases "setting_legal (from_be16 a b, from_be32 c d e f)")
    case True
    then obtain ps' where "apply_setting (from_be16 a b) (from_be32 c d e f) ps = (Inr (), ps')"
      by (rule apply_setting_legal)
    with 1 True show ?thesis by simp
  next
    case False
    then obtain m where "apply_setting (from_be16 a b) (from_be32 c d e f) ps = (Inl (BadResponse m), ps)"
      by (rule apply_setting_illegal)
    then show ?thesis by simp
  qed
qed simp_all

text \<open>The bytes of a list of entries, as \<open>Connection::new\<close> writes its own.\<close>

fun encode_settings :: "(u16 \<times> u32) list \<Rightarrow> bytes" where
  "encode_settings [] = []"
| "encode_settings ((i, v) # es) = to_be16 i @ to_be32 v @ encode_settings es"

lemma settings_entries_encode [simp]: "settings_entries (encode_settings es) = es"
  by (induction es rule: encode_settings.induct) (simp_all add: to_be16_def to_be32_def)

lemma length_encode_settings [simp]: "length (encode_settings es) = 6 * length es"
  by (induction es rule: encode_settings.induct) simp_all

subsection \<open>Properties\<close>

text \<open>C6: A SETTINGS payload is accepted exactly when it consists of whole entries that are all legal (RFC
  9113 6.5.2), and then every parameter has the value of its last entry, the others their old one.\<close>

theorem settings_accepted_exactly:
  "apply_settings_payload p ps = (Inr (), ps') \<longleftrightarrow>
     length p mod 6 = 0 \<and> list_all setting_legal (settings_entries p) \<and>
     ps' = settings_after (settings_entries p) ps"
proof (cases "list_all setting_legal (settings_entries p)")
  case True
  then show ?thesis
    by (auto simp: apply_settings_payload_def apply_settings_chunks_legal)
next
  case False
  from apply_settings_chunks_illegal [OF this, of ps] False show ?thesis
    by (auto simp: apply_settings_payload_def)
qed

end
