(* ===== verification/H2_Flow.thy ===== *)
theory H2_Flow
  imports H2_Settings
begin

text \<open>
  HTTP/2 flow control (\<open>src/src/http2.rs\<close>, "Flow control"): the four window types, with their
  \<open>apply_window_update\<close>, \<open>apply_initial_window_change\<close>, \<open>consume\<close> and \<open>replenish\<close>.  Windows are the
  code's \<open>i64\<close>s as integers; \<open>send_window.run_bounds\<close> keeps them within 32 bits, so no \<open>i64\<close> operation
  can wrap.  The locale \<open>send_window\<close> is the contract both outbound windows keep (never more sent
  than granted, never above \<open>2^31 - 1\<close>), \<open>recv_window\<close> the one both inbound windows keep (the credit
  the peer holds is what we recorded); each is interpreted on the connection-level and on the
  stream-level window.
\<close>

abbreviation (input) WINDOW_MAX :: int where "WINDOW_MAX \<equiv> 0x7fffffff"
abbreviation (input) OUR_INITIAL_WINDOW :: int where "OUR_INITIAL_WINDOW \<equiv> 65535"

subsection \<open>Outbound windows\<close>

record conn_send_window =
  csw_available :: int

definition conn_send_window_new :: conn_send_window where
  "conn_send_window_new = \<lparr>csw_available = 65535\<rparr>"

definition csw_apply_window_update :: "u32 \<Rightarrow> conn_send_window \<Rightarrow> conn_send_window result" where
  "csw_apply_window_update inc w =
     (if inc = 0
      then Inl (BadResponse ''WINDOW_UPDATE with zero increment on connection (FLOW_CONTROL_ERROR)'')
      else let new_val = csw_available w + uint inc in
        if new_val > WINDOW_MAX
        then Inl (BadResponse
          ''WINDOW_UPDATE pushes conn send window to {new_val} > 2^31-1 (FLOW_CONTROL_ERROR)'')
        else Inr (w\<lparr>csw_available := new_val\<rparr>))"

definition csw_consume :: "nat \<Rightarrow> conn_send_window \<Rightarrow> conn_send_window" where
  "csw_consume n w = w\<lparr>csw_available := csw_available w - int n\<rparr>"

record stream_send_window =
  ssw_available :: int
  ssw_initial_peer_window :: int

definition stream_send_window_new :: "int \<Rightarrow> stream_send_window" where
  "stream_send_window_new initial = \<lparr>ssw_available = initial, ssw_initial_peer_window = initial\<rparr>"

definition ssw_apply_window_update :: "u32 \<Rightarrow> stream_send_window \<Rightarrow> stream_send_window result" where
  "ssw_apply_window_update inc w =
     (if inc = 0
      then Inl (BadResponse ''WINDOW_UPDATE with zero increment on stream (PROTOCOL_ERROR)'')
      else let new_val = ssw_available w + uint inc in
        if new_val > WINDOW_MAX
        then Inl (BadResponse
          ''WINDOW_UPDATE pushes stream send window to {new_val} > 2^31-1 (FLOW_CONTROL_ERROR)'')
        else Inr (w\<lparr>ssw_available := new_val\<rparr>))"

definition ssw_apply_initial_window_change ::
  "u32 \<Rightarrow> stream_send_window \<Rightarrow> stream_send_window result" where
  "ssw_apply_initial_window_change new_initial w =
     (let new_i = uint new_initial;
          delta = new_i - ssw_initial_peer_window w;
          new_available = ssw_available w + delta
      in if new_available > WINDOW_MAX
         then Inl (BadResponse (''SETTINGS_INITIAL_WINDOW_SIZE delta pushes stream send window ''
           @ ''to {new_available} > 2^31-1 (FLOW_CONTROL_ERROR)''))
         else Inr \<lparr>ssw_available = new_available, ssw_initial_peer_window = new_i\<rparr>)"

definition ssw_consume :: "nat \<Rightarrow> stream_send_window \<Rightarrow> stream_send_window" where
  "ssw_consume n w = w\<lparr>ssw_available := ssw_available w - int n\<rparr>"

text \<open>
  The contract of an outbound window.  A client grants credit (WINDOW_UPDATE) and sends within the
  budget; what it may have sent in total is bounded by what it was granted.
\<close>

datatype win_op = Grant u32 | SendBytes nat

fun granted :: "win_op list \<Rightarrow> int" where
  "granted [] = 0"
| "granted (Grant i # ops) = uint i + granted ops"
| "granted (SendBytes n # ops) = granted ops"

fun sent_bytes :: "win_op list \<Rightarrow> int" where
  "sent_bytes [] = 0"
| "sent_bytes (Grant i # ops) = sent_bytes ops"
| "sent_bytes (SendBytes n # ops) = int n + sent_bytes ops"

text \<open>A run of window operations; a send above the budget is a step the senders never take.\<close>

fun run_window ::
  "('w \<Rightarrow> int) \<Rightarrow> (u32 \<Rightarrow> 'w \<Rightarrow> 'w result) \<Rightarrow> (nat \<Rightarrow> 'w \<Rightarrow> 'w) \<Rightarrow> win_op list \<Rightarrow> 'w \<Rightarrow> 'w result" where
  "run_window avail upd cons [] w = Inr w"
| "run_window avail upd cons (Grant i # ops) w =
     bindR (upd i w) (run_window avail upd cons ops)"
| "run_window avail upd cons (SendBytes n # ops) w =
     (if int n \<le> avail w then run_window avail upd cons ops (cons n w)
      else Inl (BadResponse ''over budget''))"

locale send_window =
  fixes avail :: "'w \<Rightarrow> int"
    and upd :: "u32 \<Rightarrow> 'w \<Rightarrow> 'w result"
    and cons :: "nat \<Rightarrow> 'w \<Rightarrow> 'w"
  assumes upd_legal: "inc \<noteq> 0 \<Longrightarrow> avail w + uint inc \<le> WINDOW_MAX \<Longrightarrow>
      \<exists>w'. upd inc w = Inr w' \<and> avail w' = avail w + uint inc"
    and upd_zero: "\<exists>m. upd 0 w = Inl (BadResponse m)"
    and upd_overflow: "WINDOW_MAX < avail w + uint inc \<Longrightarrow> \<exists>m. upd inc w = Inl (BadResponse m)"
    and avail_cons: "avail (cons n w) = avail w - int n"
begin

lemma upd_cases:
  assumes "upd inc w = Inr w'"
  shows "inc \<noteq> 0" "avail w' = avail w + uint inc" "avail w' \<le> WINDOW_MAX"
proof -
  show "inc \<noteq> 0" using assms upd_zero [of w] by auto
  have "avail w + uint inc \<le> WINDOW_MAX"
    using assms upd_overflow [of w inc] by (cases "WINDOW_MAX < avail w + uint inc") auto
  with \<open>inc \<noteq> 0\<close> show "avail w' = avail w + uint inc" "avail w' \<le> WINDOW_MAX"
    using assms upd_legal [of inc w] by auto
qed

text \<open>The balance sheet of a window, and the bounds that keep its arithmetic inside an \<open>i64\<close>.\<close>

lemma run_balance:
  "run_window avail upd cons ops w = Inr w' \<Longrightarrow> avail w' = avail w + granted ops - sent_bytes ops"
proof (induction ops arbitrary: w)
  case (Cons op ops)
  then show ?case
    by (cases op) (auto simp: bindR_eq_Inr avail_cons upd_cases(2) split: if_splits)
qed simp

lemma run_bounds:
  "run_window avail upd cons ops w = Inr w' \<Longrightarrow> 0 \<le> avail w \<Longrightarrow> avail w \<le> WINDOW_MAX \<Longrightarrow>
     0 \<le> avail w' \<and> avail w' \<le> WINDOW_MAX"
proof (induction ops arbitrary: w)
  case (Cons op ops)
  show ?case
  proof (cases op)
    case (Grant i)
    then obtain v where "upd i w = Inr v" and "run_window avail upd cons ops v = Inr w'"
      using Cons.prems(1) by (auto simp: bindR_eq_Inr)
    with Cons.IH [of v] Cons.prems(2) upd_cases [of i w v] show ?thesis by simp
  next
    case (SendBytes n)
    with Cons.IH [of "cons n w"] Cons.prems show ?thesis by (auto simp: avail_cons split: if_splits)
  qed
qed simp

text \<open>Nothing is ever sent that was not granted.\<close>

lemma run_sent_within_grant:
  assumes "run_window avail upd cons ops w = Inr w'" and "0 \<le> avail w" and "avail w \<le> WINDOW_MAX"
  shows "sent_bytes ops \<le> avail w + granted ops"
  using run_balance [OF assms(1)] run_bounds [OF assms] by simp

end

lemma uint_pos_iff: "(inc :: u32) \<noteq> 0 \<longleftrightarrow> 0 < uint inc"
  by (simp add: uint_0_iff order_less_le)

interpretation conn_window: send_window csw_available csw_apply_window_update csw_consume
  by unfold_locales (auto simp: csw_apply_window_update_def csw_consume_def Let_def)

interpretation stream_window: send_window ssw_available ssw_apply_window_update ssw_consume
  by unfold_locales (auto simp: ssw_apply_window_update_def ssw_consume_def Let_def)

text \<open>A change of \<open>SETTINGS_INITIAL_WINDOW_SIZE\<close> moves the window by the difference to the last one.\<close>

lemma ssw_initial_change_ok:
  "ssw_apply_initial_window_change n w = Inr w' \<Longrightarrow>
     ssw_available w' = ssw_available w + (uint n - ssw_initial_peer_window w) \<and>
     ssw_initial_peer_window w' = uint n \<and> ssw_available w' \<le> WINDOW_MAX"
  by (auto simp: ssw_apply_initial_window_change_def Let_def split: if_splits)

text \<open>
  The lower bound that survives shrinking settings: a stream whose sends respect the budget is never
  further below zero than the basis of its next delta.
\<close>

definition ssw_ok :: "stream_send_window \<Rightarrow> bool" where
  "ssw_ok w \<longleftrightarrow> 0 \<le> ssw_initial_peer_window w \<and> ssw_initial_peer_window w \<le> WINDOW_MAX \<and>
     ssw_initial_peer_window w - WINDOW_MAX \<le> ssw_available w \<and> ssw_available w \<le> WINDOW_MAX"

lemma ssw_ok_new: "0 \<le> i \<Longrightarrow> i \<le> WINDOW_MAX \<Longrightarrow> ssw_ok (stream_send_window_new i)"
  by (simp add: ssw_ok_def stream_send_window_new_def)

lemma ssw_ok_update:
  assumes "ssw_apply_window_update inc w = Inr w'" and "ssw_ok w"
  shows "ssw_ok w'"
proof -
  have "ssw_initial_peer_window w' = ssw_initial_peer_window w"
    using assms(1) by (auto simp: ssw_apply_window_update_def Let_def split: if_splits)
  moreover have "0 \<le> uint inc" by simp
  ultimately show ?thesis
    using stream_window.upd_cases [OF assms(1)] assms(2) unfolding ssw_ok_def
    by (intro conjI) linarith+
qed

text \<open>
  Settings changes telescope: whatever values \<open>SETTINGS_INITIAL_WINDOW_SIZE\<close> goes through, the window
  differs from the current one only by what WINDOW\_UPDATEs and sends did.
\<close>

definition ssw_drift :: "stream_send_window \<Rightarrow> int" where
  "ssw_drift w = ssw_available w - ssw_initial_peer_window w"

lemma ssw_drift_initial_change:
  "ssw_apply_initial_window_change n w = Inr w' \<Longrightarrow> ssw_drift w' = ssw_drift w"
  by (auto simp: ssw_drift_def dest: ssw_initial_change_ok)

lemma ssw_drift_consume: "ssw_drift (ssw_consume n w) = ssw_drift w - int n"
  by (simp add: ssw_drift_def ssw_consume_def)

lemma ssw_drift_update:
  "ssw_apply_window_update inc w = Inr w' \<Longrightarrow> ssw_drift w' = ssw_drift w + uint inc"
  by (auto simp: ssw_drift_def ssw_apply_window_update_def Let_def split: if_splits)

lemma ssw_ok_initial_change:
  "ssw_apply_initial_window_change n w = Inr w' \<Longrightarrow> n \<le> 0x7fffffff \<Longrightarrow> ssw_ok w \<Longrightarrow> ssw_ok w'"
  by (auto simp: ssw_apply_initial_window_change_def ssw_ok_def Let_def word_le_def split: if_splits)

subsection \<open>Inbound windows\<close>

record conn_recv_window =
  crw_available :: int
  crw_initial :: int

definition conn_recv_window_new :: conn_recv_window where
  "conn_recv_window_new = \<lparr>crw_available = OUR_INITIAL_WINDOW, crw_initial = OUR_INITIAL_WINDOW\<rparr>"

definition crw_consume :: "nat \<Rightarrow> conn_recv_window \<Rightarrow> conn_recv_window" where
  "crw_consume n w = w\<lparr>crw_available := crw_available w - int n\<rparr>"

text \<open>\<open>initial / 2\<close> on a non-negative \<open>i64\<close>; \<open>as u32\<close> keeps the low 32 bits.\<close>

definition crw_replenish :: "conn_recv_window \<Rightarrow> frame option \<times> conn_recv_window" where
  "crw_replenish w =
     (let threshold = crw_initial w div 2 in
      if crw_available w < threshold
      then let inc = word_of_int (crw_initial w - crw_available w) in
        (Some (window_update_frame 0 inc), w\<lparr>crw_available := crw_initial w\<rparr>)
      else (None, w))"

record stream_recv_window =
  srw_available :: int
  srw_initial :: int

definition stream_recv_window_new :: stream_recv_window where
  "stream_recv_window_new = \<lparr>srw_available = OUR_INITIAL_WINDOW, srw_initial = OUR_INITIAL_WINDOW\<rparr>"

definition srw_consume :: "nat \<Rightarrow> stream_recv_window \<Rightarrow> stream_recv_window" where
  "srw_consume n w = w\<lparr>srw_available := srw_available w - int n\<rparr>"

definition srw_replenish :: "u32 \<Rightarrow> stream_recv_window \<Rightarrow> frame option \<times> stream_recv_window" where
  "srw_replenish sid w =
     (let threshold = srw_initial w div 2 in
      if srw_available w < threshold
      then let inc = word_of_int (srw_initial w - srw_available w) in
        (Some (window_update_frame sid inc), w\<lparr>srw_available := srw_initial w\<rparr>)
      else (None, w))"

text \<open>The credit an optional WINDOW_UPDATE hands to a peer that parses it as we do.\<close>

fun credit_of :: "frame option \<Rightarrow> int" where
  "credit_of None = 0"
| "credit_of (Some f) = (case parse_window_update (f_payload f) of Inl e \<Rightarrow> 0 | Inr i \<Rightarrow> uint i)"

text \<open>
  The contract of an inbound window of a receiver that takes \<open>ns\<close> bytes, frame by frame, and
  replenishes after each; \<open>recv_run\<close> collects the credit it hands back.
\<close>

fun recv_run ::
  "(nat \<Rightarrow> 'w \<Rightarrow> 'w) \<Rightarrow> ('w \<Rightarrow> frame option \<times> 'w) \<Rightarrow> nat list \<Rightarrow> 'w \<Rightarrow> int \<times> 'w" where
  "recv_run cons repl [] w = (0, w)"
| "recv_run cons repl (n # ns) w =
     (let (f, w') = repl (cons n w); (c, w'') = recv_run cons repl ns w' in (credit_of f + c, w''))"

locale recv_window =
  fixes avail :: "'w \<Rightarrow> int"
    and initial :: "'w \<Rightarrow> int"
    and cons :: "nat \<Rightarrow> 'w \<Rightarrow> 'w"
    and repl :: "'w \<Rightarrow> frame option \<times> 'w"
  assumes avail_cons: "avail (cons n w) = avail w - int n"
    and initial_cons: "initial (cons n w) = initial w"
    and repl_low: "avail w < initial w div 2 \<Longrightarrow>
      \<exists>f w'. repl w = (Some f, w') \<and> avail w' = initial w \<and> initial w' = initial w \<and>
        (0 \<le> avail w \<longrightarrow> initial w \<le> WINDOW_MAX \<longrightarrow> credit_of (Some f) = initial w - avail w)"
    and repl_high: "initial w div 2 \<le> avail w \<Longrightarrow> repl w = (None, w)"
begin

lemma repl_balance:
  assumes "0 \<le> avail w" and "initial w \<le> WINDOW_MAX" and "repl w = (f, w')"
  shows "avail w' = avail w + credit_of f \<and> initial w' = initial w \<and> initial w' div 2 \<le> avail w'"
proof (cases "avail w < initial w div 2")
  case True
  then have "0 \<le> initial w" using assms(1) by simp
  with True assms repl_low [OF True] show ?thesis by auto
next
  case False
  with assms repl_high [of w] show ?thesis by auto
qed

text \<open>
  As long as no frame overruns the window, the credit returned is exactly what our books say: what is
  available is what was available plus the credit minus the bytes taken.
\<close>

lemma recv_run_balance:
  "recv_run cons repl ns w = (c, w') \<Longrightarrow> initial w \<le> WINDOW_MAX \<Longrightarrow>
     (\<And>n. n \<in> set ns \<Longrightarrow> int n \<le> initial w div 2) \<Longrightarrow> initial w div 2 \<le> avail w \<Longrightarrow>
     avail w' = avail w + c - int (sum_list ns) \<and> initial w' div 2 \<le> avail w'"
proof (induction ns arbitrary: w c)
  case (Cons n ns)
  obtain f v where v: "repl (cons n w) = (f, v)" by fastforce
  obtain d where u: "recv_run cons repl ns v = (d, w')"
    using Cons.prems(1) v by (cases "recv_run cons repl ns v") auto
  have "int n \<le> avail w" using Cons.prems(3) [of n] Cons.prems(4) by simp
  with v Cons.prems(2) have b: "avail v = avail w - int n + credit_of f" "initial v = initial w"
      "initial v div 2 \<le> avail v"
    using repl_balance [of "cons n w" f v] by (auto simp: avail_cons initial_cons)
  have "avail w' = avail v + d - int (sum_list ns) \<and> initial w' div 2 \<le> avail w'"
    using Cons.IH [OF u] Cons.prems(2,3) b by simp
  with Cons.prems(1) u v b(1) show ?case by auto
qed auto

lemma repl_initial: "repl w = (f, w') \<Longrightarrow> initial w' = initial w"
  using repl_low [of w] repl_high [of w] by (cases "avail w < initial w div 2") auto

lemma recv_run_initial: "recv_run cons repl ns w = (c, w') \<Longrightarrow> initial w' = initial w"
  by (induction ns arbitrary: w c)
    (auto simp: Let_def initial_cons dest: repl_initial split: prod.splits)

end

lemma credit_window_update:
  "0 \<le> i \<Longrightarrow> i \<le> WINDOW_MAX \<Longrightarrow>
     credit_of (Some (window_update_frame sid (word_of_int i))) = i"
proof -
  assume i: "0 \<le> i" "i \<le> WINDOW_MAX"
  then have "take_bit 32 i = i" "take_bit 31 i = i"
    by (simp_all add: take_bit_int_eq_self_iff)
  with i show ?thesis
    by (simp add: parse_window_update_frame unsigned_take_bit_eq unsigned_of_int)
qed

interpretation conn_recv: recv_window crw_available crw_initial crw_consume crw_replenish
  by unfold_locales (auto simp: crw_consume_def crw_replenish_def credit_window_update Let_def
      simp del: credit_of.simps of_int_diff)

interpretation stream_recv:
  recv_window srw_available srw_initial srw_consume "srw_replenish sid" for sid
  by unfold_locales (auto simp: srw_consume_def srw_replenish_def credit_window_update Let_def
      simp del: credit_of.simps of_int_diff)

subsection \<open>Properties\<close>



text \<open>A new \<open>SETTINGS_INITIAL_WINDOW_SIZE\<close> moves a stream's send window by the difference to the previous
  one (RFC 9113 6.9.2), below zero if need be, and is refused exactly when the window would exceed \<open>2 ^ 31 - 1\<close>.\<close>

lemma initial_window_change_exact:
  "ssw_apply_initial_window_change n w = Inr w' \<longleftrightarrow>
     ssw_available w + (uint n - ssw_initial_peer_window w) \<le> WINDOW_MAX \<and>
     w' = \<lparr>ssw_available = ssw_available w + (uint n - ssw_initial_peer_window w),
           ssw_initial_peer_window = uint n\<rparr>"
  by (auto simp: ssw_apply_initial_window_change_def Let_def)

text \<open>A receiver that is sent frames of at most half a window, and replenishes after each, always has at
  least half a window left, and its books agree with the peer's: what is available is the initial window
  plus the credit returned in WINDOW\_UPDATE frames minus the bytes received.\<close>

lemma conn_recv_window_books:
  assumes "recv_run crw_consume crw_replenish ns conn_recv_window_new = (credit, w)"
    and "\<And>n. n \<in> set ns \<Longrightarrow> n \<le> 32767"
  shows "crw_available w = OUR_INITIAL_WINDOW + credit - int (sum_list ns) \<and> 32767 \<le> crw_available w"
proof -
  have "int n \<le> crw_initial conn_recv_window_new div 2" if "n \<in> set ns" for n
    using assms(2) [OF that] by (simp add: conn_recv_window_new_def)
  then show ?thesis
    using conn_recv.recv_run_balance [OF assms(1)] conn_recv.recv_run_initial [OF assms(1)]
    by (simp add: conn_recv_window_new_def)
qed

lemma conn_recv_window_books_witness:
  "crw_available \<lparr>crw_available = 65535, crw_initial = 65535\<rparr>
     = OUR_INITIAL_WINDOW + 50000 - int (sum_list [20000, 30000])"
proof -
  have "recv_run crw_consume crw_replenish [20000, 30000] conn_recv_window_new
      = (50000, \<lparr>crw_available = 65535, crw_initial = 65535\<rparr>)"
    using credit_window_update [of 50000 0]
    by (simp add: conn_recv_window_new_def crw_consume_def crw_replenish_def del: credit_of.simps(2))
  from conn_recv_window_books [OF this] show ?thesis by simp
qed

end
