(* ===== verification/Rust_Str.thy ===== *)
theory Rust_Str
  imports Prelude
begin

text \<open>
  The parts of Rust's \<open>str\<close> and slice library that the code relies on.  A \<open>str\<close> is the
  \<open>string\<close> of its UTF-8 bytes; \<open>from_utf8\<close> is the standard library's validation (RFC 3629: no
  overlong forms, no surrogates, nothing above U+10FFFF).
\<close>

subsection \<open>Bytes and UTF-8\<close>

definition bytes_of :: "string \<Rightarrow> bytes" where
  "bytes_of s = map of_char s"

definition str_of :: "bytes \<Rightarrow> string" where
  "str_of bs = map (\<lambda>b. char_of (unat b)) bs"

definition utf8_cont :: "byte \<Rightarrow> bool" where
  "utf8_cont b \<longleftrightarrow> 0x80 \<le> b \<and> b \<le> 0xBF"

text \<open>The second byte of a three- or four-byte sequence, given the first.\<close>

definition utf8_second3 :: "byte \<Rightarrow> byte \<Rightarrow> bool" where
  "utf8_second3 b c \<longleftrightarrow>
     (if b = 0xE0 then 0xA0 \<le> c \<and> c \<le> 0xBF
      else if b = 0xED then 0x80 \<le> c \<and> c \<le> 0x9F
      else utf8_cont c)"

definition utf8_second4 :: "byte \<Rightarrow> byte \<Rightarrow> bool" where
  "utf8_second4 b c \<longleftrightarrow>
     (if b = 0xF0 then 0x90 \<le> c \<and> c \<le> 0xBF
      else if b = 0xF4 then 0x80 \<le> c \<and> c \<le> 0x8F
      else utf8_cont c)"

fun utf8_valid :: "bytes \<Rightarrow> bool" where
  "utf8_valid [] = True"
| "utf8_valid (b # bs) =
     (if b < 0x80 then utf8_valid bs
      else if 0xC2 \<le> b \<and> b \<le> 0xDF then
        (case bs of c # bs' \<Rightarrow> utf8_cont c \<and> utf8_valid bs' | _ \<Rightarrow> False)
      else if 0xE0 \<le> b \<and> b \<le> 0xEF then
        (case bs of c # d # bs' \<Rightarrow> utf8_second3 b c \<and> utf8_cont d \<and> utf8_valid bs' | _ \<Rightarrow> False)
      else if 0xF0 \<le> b \<and> b \<le> 0xF4 then
        (case bs of
           c # d # e # bs' \<Rightarrow> utf8_second4 b c \<and> utf8_cont d \<and> utf8_cont e \<and> utf8_valid bs'
         | _ \<Rightarrow> False)
      else False)"

text \<open>The first character of a valid string.\<close>

lemma utf8_valid_split:
  assumes v: "utf8_valid (b # bs)"
  shows "\<exists>cs ds. b # bs = cs @ ds \<and> cs \<noteq> [] \<and> utf8_valid ds \<and> (\<forall>es. utf8_valid es \<longrightarrow> utf8_valid (cs @ es))"
proof -
  let ?two = "0xC2 \<le> b \<and> b \<le> 0xDF" and ?three = "0xE0 \<le> b \<and> b \<le> 0xEF" and ?four = "0xF0 \<le> b \<and> b \<le> 0xF4"
  consider "b < 0x80" | "\<not> b < 0x80" "?two" | "\<not> b < 0x80" "\<not> ?two" "?three"
    | "\<not> b < 0x80" "\<not> ?two" "\<not> ?three" "?four" | "\<not> b < 0x80" "\<not> ?two" "\<not> ?three" "\<not> ?four" by blast
  then show ?thesis
  proof cases
    case 1
    with v show ?thesis by (intro exI [of _ "[b]"] exI [of _ bs]) simp
  next
    case 2
    with v obtain c cs where "bs = c # cs" "utf8_cont c" "utf8_valid cs" by (cases bs) auto
    with 2 show ?thesis by (intro exI [of _ "[b, c]"] exI [of _ cs]) simp
  next
    case 3
    with v obtain c d cs where "bs = c # d # cs" "utf8_second3 b c" "utf8_cont d" "utf8_valid cs"
      by (auto split: list.splits)
    moreover have "\<not> b \<le> 0xDF" using 3 by (simp add: word_le_nat_alt)
    ultimately show ?thesis using 3 by (intro exI [of _ "[b, c, d]"] exI [of _ cs]) simp
  next
    case 4
    with v obtain c d e cs where "bs = c # d # e # cs" "utf8_second4 b c" "utf8_cont d" "utf8_cont e" "utf8_valid cs"
      by (auto split: list.splits)
    moreover have "\<not> b \<le> 0xDF" "\<not> b \<le> 0xEF" using 4 by (simp_all add: word_le_nat_alt)
    ultimately show ?thesis using 4 by (intro exI [of _ "[b, c, d, e]"] exI [of _ cs]) simp
  next
    case 5
    with v show ?thesis by simp
  qed
qed

lemma utf8_valid_append: "utf8_valid xs \<Longrightarrow> utf8_valid ys \<Longrightarrow> utf8_valid (xs @ ys)"
proof (induction "length xs" arbitrary: xs rule: less_induct)
  case less
  show ?case
  proof (cases xs)
    case (Cons b bs)
    with utf8_valid_split less(2) obtain cs ds where
      c: "xs = cs @ ds" "cs \<noteq> []" "utf8_valid ds" "\<forall>es. utf8_valid es \<longrightarrow> utf8_valid (cs @ es)" by metis
    with less(1) [of ds] less(3) show ?thesis by simp
  qed (simp add: less)
qed

text \<open>\<open>String::from_utf8\<close>.\<close>

definition from_utf8 :: "bytes \<Rightarrow> string option" where
  "from_utf8 bs = (if utf8_valid bs then Some (str_of bs) else None)"

lemma length_bytes_of [simp]: "length (bytes_of s) = length s"
  by (simp add: bytes_of_def)

lemma length_str_of [simp]: "length (str_of bs) = length bs"
  by (simp add: str_of_def)

lemma unat_of_char: "unat (of_char c :: byte) = of_char c"
  by (simp add: of_char_def unat_of_nat flip: of_nat_of_char)

lemma str_of_bytes_of [simp]: "str_of (bytes_of s) = s"
  by (simp add: str_of_def bytes_of_def comp_def unat_of_char)

lemma of_char_char_of_byte: "of_char (char_of (unat (b :: byte))) = b"
proof -
  have "(of_char (char_of (unat b)) :: byte) = of_nat (of_char (char_of (unat b)))"
    by (simp only: of_nat_of_char)
  also have "\<dots> = of_nat (unat b)"
    using unat_byte_less [of b] by simp
  finally show ?thesis by simp
qed

lemma bytes_of_str_of [simp]: "bytes_of (str_of bs) = bs"
  by (simp add: str_of_def bytes_of_def comp_def of_char_char_of_byte)

definition valid_str :: "string \<Rightarrow> bool" where
  "valid_str s \<longleftrightarrow> utf8_valid (bytes_of s)"

lemma bytes_of_append [simp]: "bytes_of (s @ t) = bytes_of s @ bytes_of t"
  by (simp add: bytes_of_def)

lemma valid_str_append: "valid_str s \<Longrightarrow> valid_str t \<Longrightarrow> valid_str (s @ t)"
  by (simp add: valid_str_def utf8_valid_append)

lemma from_utf8_bytes_of: "valid_str s \<Longrightarrow> from_utf8 (bytes_of s) = Some s"
  by (simp add: from_utf8_def valid_str_def)

lemma utf8_valid_ascii: "\<forall>b\<in>set bs. b < 0x80 \<Longrightarrow> utf8_valid bs"
  by (induction bs) simp_all

subsection \<open>Iterators\<close>

text \<open>\<open>Iterator::position\<close>.\<close>

fun position :: "('a \<Rightarrow> bool) \<Rightarrow> 'a list \<Rightarrow> nat option" where
  "position P [] = None"
| "position P (x # xs) = (if P x then Some 0 else map_option Suc (position P xs))"

lemma position_SomeD: "position P xs = Some i \<Longrightarrow> i < length xs \<and> P (xs ! i)"
  by (induction xs arbitrary: i) (auto split: if_splits)

lemma position_first: "position P xs = Some i \<Longrightarrow> j < i \<Longrightarrow> \<not> P (xs ! j)"
proof (induction xs arbitrary: i j)
  case (Cons x xs)
  then show ?case by (cases j) (auto split: if_splits)
qed simp

lemma position_None_iff: "position P xs = None \<longleftrightarrow> (\<forall>x\<in>set xs. \<not> P x)"
  by (induction xs) auto

subsection \<open>Searching and splitting\<close>

text \<open>Every pattern the code searches for is ASCII, so byte positions are \<open>str\<close> positions.\<close>

definition find_char :: "char \<Rightarrow> string \<Rightarrow> nat option" where
  "find_char c s = position (\<lambda>x. x = c) s"

definition rfind_char :: "char \<Rightarrow> string \<Rightarrow> nat option" where
  "rfind_char c s = map_option (\<lambda>i. length s - 1 - i) (position (\<lambda>x. x = c) (rev s))"

definition starts_with :: "string \<Rightarrow> string \<Rightarrow> bool" where
  "starts_with p s \<longleftrightarrow> take (length p) s = p"

definition ends_with :: "string \<Rightarrow> string \<Rightarrow> bool" where
  "ends_with p s \<longleftrightarrow> length p \<le> length s \<and> drop (length s - length p) s = p"

definition strip_prefix :: "string \<Rightarrow> string \<Rightarrow> string option" where
  "strip_prefix p s = (if starts_with p s then Some (drop (length p) s) else None)"

fun find_str :: "string \<Rightarrow> string \<Rightarrow> nat option" where
  "find_str p [] = (if p = [] then Some 0 else None)"
| "find_str p (c # cs) =
     (if starts_with p (c # cs) then Some 0 else map_option Suc (find_str p cs))"

definition split_once :: "string \<Rightarrow> string \<Rightarrow> (string \<times> string) option" where
  "split_once p s = map_option (\<lambda>i. (take i s, drop (i + length p) s)) (find_str p s)"

text \<open>\<open>str::split\<close> on one character: the parts between the separators, at least one.\<close>

fun split_char :: "char \<Rightarrow> string \<Rightarrow> string list" where
  "split_char c [] = [[]]"
| "split_char c (x # xs) =
     (if x = c then [] # split_char c xs
      else (case split_char c xs of [] \<Rightarrow> [[x]] | p # ps \<Rightarrow> (x # p) # ps))"

lemma find_char_SomeD: "find_char c s = Some i \<Longrightarrow> i < length s \<and> s ! i = c \<and> c \<notin> set (take i s)"
proof -
  assume "find_char c s = Some i"
  then have p: "position (\<lambda>x. x = c) s = Some i" by (simp add: find_char_def)
  show ?thesis
    using position_SomeD [OF p] position_first [OF p] by (auto simp: in_set_conv_nth)
qed

lemma find_char_None: "find_char c s = None \<longleftrightarrow> c \<notin> set s"
  by (auto simp: find_char_def position_None_iff)

lemma position_append:
  "position P (xs @ ys) = (case position P xs of Some i \<Rightarrow> Some i
     | None \<Rightarrow> map_option (\<lambda>i. i + length xs) (position P ys))"
  by (induction xs) (auto simp: option.map_comp comp_def option.map_ident split: option.splits)

lemma find_char_here: "c \<notin> set xs \<Longrightarrow> find_char c (xs @ c # ys) = Some (length xs)"
  using position_None_iff [of "\<lambda>x. x = c" xs] by (auto simp: find_char_def position_append)

lemma rfind_char_None: "rfind_char c s = None \<longleftrightarrow> c \<notin> set s"
  by (auto simp: rfind_char_def position_None_iff)

lemma rfind_char_here: "c \<notin> set ys \<Longrightarrow> rfind_char c (xs @ c # ys) = Some (length xs)"
  using position_None_iff [of "\<lambda>x. x = c" "rev ys"] by (auto simp: rfind_char_def position_append)

lemma rfind_char_SomeD:
  assumes "rfind_char c s = Some i"
  shows "i < length s \<and> s ! i = c \<and> c \<notin> set (drop (Suc i) s)"
proof -
  from assms have "c \<in> set s" using rfind_char_None [of c s] by fastforce
  then obtain xs ys where s: "s = xs @ c # ys" "c \<notin> set ys"
    using split_list_last by fastforce
  with assms rfind_char_here [of c ys xs] show ?thesis by auto
qed

lemma starts_with_append [simp]: "starts_with p (p @ s)"
  by (simp add: starts_with_def)

lemma strip_prefix_append [simp]: "strip_prefix p (p @ s) = Some s"
  by (simp add: strip_prefix_def)

lemma starts_with_iff: "starts_with p s \<longleftrightarrow> (\<exists>r. s = p @ r)"
  by (metis append_take_drop_id starts_with_append starts_with_def)

lemma strip_prefix_SomeD: "strip_prefix p s = Some r \<Longrightarrow> s = p @ r"
  by (auto simp: strip_prefix_def starts_with_iff split: if_splits)

lemma find_str_SomeD:
  "find_str p s = Some i \<Longrightarrow> i + length p \<le> length s \<and> s = take i s @ p @ drop (i + length p) s"
proof (induction s arbitrary: i)
  case (Cons c cs)
  show ?case
  proof (cases "starts_with p (c # cs)")
    case True
    with Cons.prems obtain r where "c # cs = p @ r" "i = 0" by (auto simp: starts_with_iff)
    then show ?thesis by (metis add_0 append_Nil append_eq_conv_conj le_add1 length_append take0)
  next
    case False
    with Cons show ?thesis by auto
  qed
qed (auto split: if_splits)

lemma split_once_SomeD: "split_once p s = Some (a, b) \<Longrightarrow> s = a @ p @ b"
  by (auto simp: split_once_def dest!: find_str_SomeD)

text \<open>A pattern whose first character does not occur before it is found where it stands.\<close>

lemma find_str_here: "c \<notin> set a \<Longrightarrow> find_str (c # p) (a @ (c # p) @ b) = Some (length a)"
proof (induction a)
  case Nil
  then show ?case using starts_with_append [of "c # p" b] by simp
next
  case (Cons x a)
  then have "\<not> starts_with (c # p) (x # a @ (c # p) @ b)" by (auto simp: starts_with_def)
  with Cons show ?case by simp
qed

lemma split_once_here: "c \<notin> set a \<Longrightarrow> split_once (c # p) (a @ (c # p) @ b) = Some (a, b)"
  using find_str_here [of c a p b] by (simp add: split_once_def)

subsection \<open>ASCII case and white space\<close>

definition ascii_lower :: "char \<Rightarrow> char" where
  "ascii_lower c = (let n = of_char c :: nat in if 65 \<le> n \<and> n \<le> 90 then char_of (n + 32) else c)"

definition ascii_upper :: "char \<Rightarrow> char" where
  "ascii_upper c = (let n = of_char c :: nat in if 97 \<le> n \<and> n \<le> 122 then char_of (n - 32) else c)"

definition to_ascii_lowercase :: "string \<Rightarrow> string" where
  "to_ascii_lowercase s = map ascii_lower s"

definition to_ascii_uppercase :: "string \<Rightarrow> string" where
  "to_ascii_uppercase s = map ascii_upper s"

definition eq_ignore_ascii_case :: "string \<Rightarrow> string \<Rightarrow> bool" where
  "eq_ignore_ascii_case a b \<longleftrightarrow> to_ascii_lowercase a = to_ascii_lowercase b"

lemma ascii_lower_idem [simp]: "ascii_lower (ascii_lower c) = ascii_lower c"
  by (simp add: ascii_lower_def Let_def)

lemma to_ascii_lowercase_idem [simp]: "to_ascii_lowercase (to_ascii_lowercase s) = to_ascii_lowercase s"
  by (simp add: to_ascii_lowercase_def comp_def)

lemma length_to_ascii_lowercase [simp]: "length (to_ascii_lowercase s) = length s"
  by (simp add: to_ascii_lowercase_def)

text \<open>
  The length in bytes of a Unicode \<open>White_Space\<close> character at the front of a string, 0 if there is
  none, and of one at the end of a string given in reverse.
\<close>

fun ws_front :: "nat list \<Rightarrow> nat" where
  "ws_front (a # b # c # bs) =
     (if 9 \<le> a \<and> a \<le> 13 \<or> a = 32 then 1
      else if a = 0xC2 \<and> (b = 0x85 \<or> b = 0xA0) then 2
      else if a = 0xE1 \<and> b = 0x9A \<and> c = 0x80 then 3
      else if a = 0xE2 \<and> b = 0x80 \<and> (0x80 \<le> c \<and> c \<le> 0x8A \<or> c = 0xA8 \<or> c = 0xA9 \<or> c = 0xAF) then 3
      else if a = 0xE2 \<and> b = 0x81 \<and> c = 0x9F then 3
      else if a = 0xE3 \<and> b = 0x80 \<and> c = 0x80 then 3
      else 0)"
| "ws_front (a # bs) =
     (if 9 \<le> a \<and> a \<le> 13 \<or> a = 32 then 1
      else if a = 0xC2 \<and> bs \<noteq> [] \<and> (hd bs = 0x85 \<or> hd bs = 0xA0) then 2 else 0)"
| "ws_front [] = 0"

definition ws_back :: "nat list \<Rightarrow> nat" where
  "ws_back rbs =
     (if ws_front (take 1 rbs) = 1 then 1
      else if length rbs \<ge> 2 \<and> ws_front (rev (take 2 rbs)) = 2 then 2
      else if length rbs \<ge> 3 \<and> ws_front (rev (take 3 rbs)) = 3 then 3
      else 0)"

function trim_start :: "string \<Rightarrow> string" where
  "trim_start s =
     (let n = ws_front (map of_char s) in if n > 0 \<and> s \<noteq> [] then trim_start (drop n s) else s)"
  by pat_completeness auto
termination by (relation "measure length") auto

function trim_end_rev :: "string \<Rightarrow> string" where
  "trim_end_rev r =
     (let n = ws_back (map of_char r) in if n > 0 \<and> r \<noteq> [] then trim_end_rev (drop n r) else r)"
  by pat_completeness auto
termination by (relation "measure length") auto

declare trim_start.simps [simp del] trim_end_rev.simps [simp del]

definition trim_end :: "string \<Rightarrow> string" where
  "trim_end s = rev (trim_end_rev (rev s))"

definition trim :: "string \<Rightarrow> string" where
  "trim s = trim_end (trim_start s)"

text \<open>What is not trimmed: strings with graphic ASCII at both ends.\<close>

definition graphic :: "char \<Rightarrow> bool" where
  "graphic c \<longleftrightarrow> (let n = of_char c :: nat in 33 \<le> n \<and> n \<le> 126)"

definition trimmed :: "string \<Rightarrow> bool" where
  "trimmed s \<longleftrightarrow> s = [] \<or> graphic (hd s) \<and> graphic (last s)"

lemma ws_front_graphic: "graphic c \<Longrightarrow> ws_front (of_char c # ns) = 0"
  by (cases ns rule: ws_front.cases) (auto simp: graphic_def Let_def)

lemma ws_back_graphic: "graphic c \<Longrightarrow> ws_back (of_char c # ns) = 0"
  by (cases ns; cases "tl ns") (auto simp: graphic_def Let_def ws_back_def)

lemma trim_start_trimmed: "trimmed s \<Longrightarrow> trim_start s = s"
  by (cases s) (simp_all add: trimmed_def trim_start.simps ws_front_graphic)

lemma trim_end_trimmed: "trimmed s \<Longrightarrow> trim_end s = s"
  by (cases s rule: rev_cases) (simp_all add: trimmed_def trim_end_def trim_end_rev.simps ws_back_graphic)

lemma trim_trimmed: "trimmed s \<Longrightarrow> trim s = s"
  by (simp add: trim_def trim_start_trimmed trim_end_trimmed)

lemma trim_start_space: "trim_start (CHR '' '' # s) = trim_start s"
proof -
  have "ws_front (32 # ns) = 1" for ns by (cases ns rule: ws_front.cases) simp_all
  then show ?thesis by (simp add: trim_start.simps [of "CHR '' '' # s"])
qed

lemma trim_space [simp]: "trim (CHR '' '' # s) = trim s"
  by (simp add: trim_def trim_start_space)

subsection \<open>Decimal integers\<close>

fun parse_digits :: "nat \<Rightarrow> string \<Rightarrow> nat option" where
  "parse_digits acc [] = Some acc"
| "parse_digits acc (c # cs) =
     (let n = of_char c :: nat in
      if 48 \<le> n \<and> n \<le> 57 then parse_digits (10 * acc + (n - 48)) cs else None)"

text \<open>\<open>str::parse\<close> for an unsigned type with the given maximum: an optional \<open>+\<close>, then digits.\<close>

definition parse_unsigned :: "nat \<Rightarrow> string \<Rightarrow> nat option" where
  "parse_unsigned max_val s =
     (let digits = (case s of c # cs \<Rightarrow> if c = CHR ''+'' then cs else s | [] \<Rightarrow> []) in
      if digits = [] then None
      else case parse_digits 0 digits of
             None \<Rightarrow> None
           | Some n \<Rightarrow> if n \<le> max_val then Some n else None)"

definition parse_u16 :: "string \<Rightarrow> u16 option" where
  "parse_u16 s = map_option of_nat (parse_unsigned 65535 s)"

text \<open>\<open>to_string\<close> of an unsigned integer.\<close>

fun show_nat :: "nat \<Rightarrow> string" where
  "show_nat n = (if n < 10 then [char_of (48 + n)] else show_nat (n div 10) @ [char_of (48 + n mod 10)])"

declare show_nat.simps [simp del]

lemma of_char_digit [simp]: "n < 10 \<Longrightarrow> (of_char (char_of (48 + n :: nat)) :: nat) = 48 + n"
  by simp

lemma parse_digits_append:
  "parse_digits acc (xs @ ys) = (case parse_digits acc xs of None \<Rightarrow> None | Some a \<Rightarrow> parse_digits a ys)"
  by (induction acc xs rule: parse_digits.induct) (auto simp: Let_def)

lemma parse_show_digits: "parse_digits 0 (show_nat n) = Some n"
proof (induction n rule: show_nat.induct)
  case (1 n)
  show ?case
  proof (cases "n < 10")
    case True
    then show ?thesis by (simp add: show_nat.simps [of n] Let_def)
  next
    case False
    have "n mod 10 < 10" by simp
    then show ?thesis
      using 1 [OF False] False
      by (simp add: show_nat.simps [of n] parse_digits_append Let_def)
  qed
qed

lemma show_nat_digits: "c \<in> set (show_nat n) \<Longrightarrow> 48 \<le> (of_char c :: nat) \<and> (of_char c :: nat) \<le> 57"
proof (induction n rule: show_nat.induct)
  case (1 n)
  show ?case
  proof (cases "n < 10")
    case True
    then show ?thesis using 1(2) by (simp add: show_nat.simps [of n])
  next
    case False
    have "n mod 10 < 10" by simp
    then show ?thesis
      using 1 False by (auto simp: show_nat.simps [of n])
  qed
qed

lemma show_nat_not_Nil [simp]: "show_nat n \<noteq> []"
  by (simp add: show_nat.simps [of n])

lemma show_nat_graphic: "c \<in> set (show_nat n) \<Longrightarrow> graphic c"
  using show_nat_digits [of c n] by (simp add: graphic_def)

lemma trimmed_show_nat [simp]: "trimmed (show_nat n)"
  using show_nat_graphic hd_in_set [OF show_nat_not_Nil] last_in_set [OF show_nat_not_Nil]
  unfolding trimmed_def by blast

lemma parse_unsigned_show: "n \<le> m \<Longrightarrow> parse_unsigned m (show_nat n) = Some n"
proof -
  assume n: "n \<le> m"
  obtain c cs where s: "show_nat n = c # cs" by (cases "show_nat n") auto
  then have "c \<noteq> CHR ''+''" using show_nat_digits [of c n] by auto
  with n s parse_show_digits [of n] show ?thesis by (simp add: parse_unsigned_def)
qed

lemma parse_u16_show: "parse_u16 (show_nat (unat p)) = Some p" for p :: u16
proof -
  have "unat p < 2 ^ LENGTH(16)" by (rule unsigned_less)
  then show ?thesis by (simp add: parse_u16_def parse_unsigned_show)
qed

subsection \<open>Lossy decoding\<close>

text \<open>\<open>String::from_utf8_lossy\<close>: each maximal prefix of a character that is cut short, and each byte that starts
  none, becomes U+FFFD.  \<open>utf8_bad\<close> is the length of that prefix, \<open>None\<close> when a character is complete.\<close>

abbreviation (input) REPLACEMENT :: bytes where "REPLACEMENT \<equiv> [0xEF, 0xBF, 0xBD]"

definition at_byte :: "bytes \<Rightarrow> nat \<Rightarrow> byte" where
  "at_byte bs i = (if i < length bs then bs ! i else 0)"

definition utf8_step :: "bytes \<Rightarrow> nat + nat" where
  "utf8_step bs =
     (let b = at_byte bs 0; c = at_byte bs 1; d = at_byte bs 2; e = at_byte bs 3 in
      if b < 0x80 then Inr 1
      else if 0xC2 \<le> b \<and> b \<le> 0xDF then (if utf8_cont c then Inr 2 else Inl 1)
      else if 0xE0 \<le> b \<and> b \<le> 0xEF then
        (if \<not> utf8_second3 b c then Inl 1 else if \<not> utf8_cont d then Inl 2 else Inr 3)
      else if 0xF0 \<le> b \<and> b \<le> 0xF4 then
        (if \<not> utf8_second4 b c then Inl 1 else if \<not> utf8_cont d then Inl 2
         else if \<not> utf8_cont e then Inl 3 else Inr 4)
      else Inl 1)"

lemma utf8_step_pos: "utf8_step bs = Inr n \<Longrightarrow> 0 < n" "utf8_step bs = Inl n \<Longrightarrow> 0 < n"
  by (auto simp: utf8_step_def Let_def split: if_splits)

function utf8_lossy :: "bytes \<Rightarrow> bytes" where
  "utf8_lossy bs =
     (if bs = [] then []
      else case utf8_step bs of
        Inr n \<Rightarrow> take n bs @ utf8_lossy (drop n bs)
      | Inl n \<Rightarrow> REPLACEMENT @ utf8_lossy (drop n bs))"
  by pat_completeness auto
termination by (relation "measure length") (auto dest: utf8_step_pos)

declare utf8_lossy.simps [simp del]

definition from_utf8_lossy :: "bytes \<Rightarrow> string" where
  "from_utf8_lossy bs = str_of (utf8_lossy bs)"

text \<open>On valid UTF-8 nothing is lost.\<close>

lemma utf8_valid_step:
  "utf8_valid (b # bs) \<Longrightarrow>
     \<exists>n. utf8_step (b # bs) = Inr n \<and> n \<le> length (b # bs) \<and> utf8_valid (drop n (b # bs))"
proof -
  assume v: "utf8_valid (b # bs)"
  let ?two = "0xC2 \<le> b \<and> b \<le> 0xDF" and ?three = "0xE0 \<le> b \<and> b \<le> 0xEF" and ?four = "0xF0 \<le> b \<and> b \<le> 0xF4"
  consider "b < 0x80" | "\<not> b < 0x80" "?two" | "\<not> b < 0x80" "\<not> ?two" "?three"
    | "\<not> b < 0x80" "\<not> ?two" "\<not> ?three" "?four" | "\<not> b < 0x80" "\<not> ?two" "\<not> ?three" "\<not> ?four" by blast
  then show ?thesis
  proof cases
    case 1
    with v show ?thesis by (intro exI [of _ 1]) (simp add: utf8_step_def at_byte_def)
  next
    case 2
    with v obtain c cs where "bs = c # cs" "utf8_cont c" "utf8_valid cs" by (cases bs) auto
    with 2 show ?thesis by (intro exI [of _ 2]) (simp add: utf8_step_def at_byte_def)
  next
    case 3
    with v obtain c d cs where "bs = c # d # cs" "utf8_second3 b c" "utf8_cont d" "utf8_valid cs"
      by (auto split: list.splits)
    with 3 show ?thesis by (intro exI [of _ 3]) (simp add: utf8_step_def at_byte_def)
  next
    case 4
    with v obtain c d e cs where "bs = c # d # e # cs" "utf8_second4 b c" "utf8_cont d" "utf8_cont e" "utf8_valid cs"
      by (auto split: list.splits)
    with 4 show ?thesis by (intro exI [of _ 4]) (simp add: utf8_step_def at_byte_def)
  next
    case 5
    with v show ?thesis by simp
  qed
qed

lemma utf8_lossy_valid: "utf8_valid bs \<Longrightarrow> utf8_lossy bs = bs"
proof (induction "length bs" arbitrary: bs rule: less_induct)
  case less
  show ?case
  proof (cases bs)
    case Nil
    then show ?thesis by (simp add: utf8_lossy.simps)
  next
    case (Cons b cs)
    with utf8_valid_step less(2) obtain n where n: "utf8_step bs = Inr n" "n \<le> length bs" "utf8_valid (drop n bs)"
      by blast
    have "utf8_lossy (drop n bs) = drop n bs"
      using n utf8_step_pos(1) [OF n(1)] Cons by (intro less(1)) auto
    with n Cons show ?thesis by (subst utf8_lossy.simps) simp
  qed
qed

lemma from_utf8_lossy_valid: "valid_str s \<Longrightarrow> from_utf8_lossy (bytes_of s) = s"
  by (simp add: from_utf8_lossy_def valid_str_def utf8_lossy_valid)

subsection \<open>Trimming by a set, splitting into few parts, hexadecimal\<close>

definition trim_end_matches :: "(char \<Rightarrow> bool) \<Rightarrow> string \<Rightarrow> string" where
  "trim_end_matches P s = rev (dropWhile P (rev s))"

lemma trim_end_matches_append [simp]:
  "s = [] \<or> \<not> P (last s) \<Longrightarrow> \<forall>c\<in>set t. P c \<Longrightarrow> trim_end_matches P (s @ t) = s"
  by (cases s rule: rev_cases) (simp_all add: trim_end_matches_def dropWhile_append)

text \<open>\<open>str::splitn\<close> on one character.\<close>

fun splitn :: "nat \<Rightarrow> char \<Rightarrow> string \<Rightarrow> string list" where
  "splitn 0 c s = []"
| "splitn (Suc 0) c s = [s]"
| "splitn (Suc (Suc n)) c s =
     (case split_once [c] s of None \<Rightarrow> [s] | Some (a, b) \<Rightarrow> a # splitn (Suc n) c b)"

fun hex_digit :: "char \<Rightarrow> nat option" where
  "hex_digit c =
     (let n = of_char c :: nat in
      if 48 \<le> n \<and> n \<le> 57 then Some (n - 48)
      else if 97 \<le> n \<and> n \<le> 102 then Some (n - 87)
      else if 65 \<le> n \<and> n \<le> 70 then Some (n - 55) else None)"

fun parse_hex_digits :: "nat \<Rightarrow> string \<Rightarrow> nat option" where
  "parse_hex_digits acc [] = Some acc"
| "parse_hex_digits acc (c # cs) =
     (case hex_digit c of None \<Rightarrow> None | Some d \<Rightarrow> parse_hex_digits (16 * acc + d) cs)"

text \<open>\<open>from_str_radix(_, 16)\<close> for an unsigned type with the given maximum.\<close>

definition parse_hex :: "nat \<Rightarrow> string \<Rightarrow> nat option" where
  "parse_hex max_val s =
     (let digits = (case s of c # cs \<Rightarrow> if c = CHR ''+'' then cs else s | [] \<Rightarrow> []) in
      if digits = [] then None
      else case parse_hex_digits 0 digits of
             None \<Rightarrow> None
           | Some n \<Rightarrow> if n \<le> max_val then Some n else None)"

text \<open>\<open>{:x}\<close>.\<close>

definition hex_char :: "nat \<Rightarrow> char" where
  "hex_char d = char_of (if d < 10 then 48 + d else 87 + d)"

fun show_hex :: "nat \<Rightarrow> string" where
  "show_hex n = (if n < 16 then [hex_char n] else show_hex (n div 16) @ [hex_char (n mod 16)])"

declare show_hex.simps [simp del]

lemma hex_digit_char [simp]: "d < 16 \<Longrightarrow> hex_digit (hex_char d) = Some d"
  by (auto simp: hex_char_def Let_def)

lemma parse_hex_digits_append:
  "parse_hex_digits acc (s @ t) = (case parse_hex_digits acc s of None \<Rightarrow> None | Some m \<Rightarrow> parse_hex_digits m t)"
  by (induction s arbitrary: acc) (simp_all split: option.split del: hex_digit.simps)

lemma parse_show_hex: "parse_hex_digits 0 (show_hex n) = Some n"
proof (induction n rule: show_hex.induct)
  case (1 n)
  then show ?case
    by (subst show_hex.simps) (auto simp: parse_hex_digits_append simp del: hex_digit.simps)
qed

lemma show_hex_digits: "c \<in> set (show_hex n) \<Longrightarrow> hex_digit c \<noteq> None"
proof (induction n rule: show_hex.induct)
  case (1 n)
  then show ?case
    by (subst (asm) (2) show_hex.simps) (auto split: if_splits simp del: hex_digit.simps)
qed

lemma show_hex_not_Nil [simp]: "show_hex n \<noteq> []"
  by (subst show_hex.simps) simp

lemma parse_hex_show: "n \<le> m \<Longrightarrow> parse_hex m (show_hex n) = Some n"
proof -
  assume n: "n \<le> m"
  obtain c cs where s: "show_hex n = c # cs" by (cases "show_hex n") auto
  then have "c \<noteq> CHR ''+''" using show_hex_digits [of c n] by auto
  with n s parse_show_hex [of n] show ?thesis by (simp add: parse_hex_def)
qed

lemma show_hex_graphic: "c \<in> set (show_hex n) \<Longrightarrow> graphic c"
  using show_hex_digits [of c n] by (auto simp: graphic_def Let_def split: if_splits)

lemma trimmed_show_hex [simp]: "trimmed (show_hex n)"
  using show_hex_graphic hd_in_set [OF show_hex_not_Nil] last_in_set [OF show_hex_not_Nil]
  unfolding trimmed_def by blast

subsection \<open>Signed integers, words of a text\<close>

text \<open>\<open>str::parse\<close> for a signed type with the given range.\<close>

definition parse_signed :: "int \<Rightarrow> int \<Rightarrow> string \<Rightarrow> int option" where
  "parse_signed lo hi s =
     (let (neg, digits) = (case s of
            [] \<Rightarrow> (False, [])
          | c # cs \<Rightarrow> if c = CHR ''-'' then (True, cs) else if c = CHR ''+'' then (False, cs) else (False, s)) in
      if digits = [] then None
      else case parse_digits 0 digits of
             None \<Rightarrow> None
           | Some n \<Rightarrow>
               let v = (if neg then - int n else int n) in if lo \<le> v \<and> v \<le> hi then Some v else None)"

definition parse_i64 :: "string \<Rightarrow> int option" where
  "parse_i64 s = parse_signed (- (2 ^ 63)) (2 ^ 63 - 1) s"

definition parse_i32 :: "string \<Rightarrow> int option" where
  "parse_i32 s = parse_signed (- (2 ^ 31)) (2 ^ 31 - 1) s"

definition parse_u32 :: "string \<Rightarrow> nat option" where
  "parse_u32 s = parse_unsigned (2 ^ 32 - 1) s"

definition parse_u8 :: "string \<Rightarrow> nat option" where
  "parse_u8 s = parse_unsigned 255 s"

text \<open>\<open>str::split_whitespace\<close>.\<close>

fun take_word :: "string \<Rightarrow> string \<times> string" where
  "take_word [] = ([], [])"
| "take_word (c # cs) =
     (if ws_front (map of_char (c # cs)) > 0 then ([], c # cs)
      else let (w, rest) = take_word cs in (c # w, rest))"

lemma take_word_length: "length (snd (take_word s)) \<le> length s"
  by (induction s) (auto simp: Let_def split_beta)

lemma trim_start_Nil [simp]: "trim_start [] = []"
  by (simp add: trim_start.simps)

lemma trim_start_length: "length (trim_start s) \<le> length s"
  by (induction s rule: trim_start.induct) (subst trim_start.simps, auto simp: Let_def)

lemma trim_start_no_ws: "trim_start s = c # cs \<Longrightarrow> ws_front (map of_char (c # cs)) = 0"
  by (induction s rule: trim_start.induct)
    (subst (asm) (2) trim_start.simps, auto simp: Let_def split: if_splits)

lemma take_word_shorter:
  assumes "trim_start s \<noteq> []"
  shows "length (snd (take_word (trim_start s))) < length s"
proof -
  obtain c cs where c: "trim_start s = c # cs" "ws_front (map of_char (c # cs)) = 0"
    using assms trim_start_no_ws by (metis list.exhaust)
  then have "snd (take_word (trim_start s)) = snd (take_word cs)" by (simp add: Let_def split_beta)
  with take_word_length [of cs] trim_start_length [of s] c(1) show ?thesis by simp
qed

function split_whitespace :: "string \<Rightarrow> string list" where
  "split_whitespace s =
     (let s' = trim_start s in
      if s' = [] then [] else let (w, rest) = take_word s' in w # split_whitespace rest)"
  by pat_completeness auto
termination
  by (relation "measure length") (auto dest: take_word_shorter simp: prod_eq_iff)

declare split_whitespace.simps [simp del]

lemma take_word_graphic:
  "(\<And>c. c \<in> set w \<Longrightarrow> graphic c) \<Longrightarrow> take_word (w @ CHR '' '' # rest) = (w, CHR '' '' # rest)"
  "(\<And>c. c \<in> set w \<Longrightarrow> graphic c) \<Longrightarrow> take_word w = (w, [])"
proof -
  have sp: "ws_front (32 # ns) = 1" for ns by (cases ns rule: ws_front.cases) simp_all
  show "(\<And>c. c \<in> set w \<Longrightarrow> graphic c) \<Longrightarrow> take_word (w @ CHR '' '' # rest) = (w, CHR '' '' # rest)"
    by (induction w) (simp_all add: sp ws_front_graphic)
  show "(\<And>c. c \<in> set w \<Longrightarrow> graphic c) \<Longrightarrow> take_word w = (w, [])"
    by (induction w) (simp_all add: ws_front_graphic)
qed

lemma split_whitespace_word:
  assumes "w \<noteq> []" and "\<And>c. c \<in> set w \<Longrightarrow> graphic c"
  shows "split_whitespace (w @ CHR '' '' # rest) = w # split_whitespace rest" and "split_whitespace w = [w]"
proof -
  obtain c cs where w: "w = c # cs" using assms(1) by (cases w) auto
  have "trim_start (w @ t) = w @ t" for t
    using assms(2) by (simp add: w trim_start.simps [of "c # cs @ t"] ws_front_graphic)
  from this [of "CHR '' '' # rest"] this [of "[]"] assms take_word_graphic [of w]
  show "split_whitespace (w @ CHR '' '' # rest) = w # split_whitespace rest" "split_whitespace w = [w]"
    by (simp_all add: split_whitespace.simps [of "w @ CHR '' '' # rest"] split_whitespace.simps [of w]
        split_whitespace.simps [of "CHR '' '' # rest"] split_whitespace.simps [of rest]
        split_whitespace.simps [of "[]"] trim_start_space Let_def)
qed

text \<open>\<open>s.get(..n)\<close>: the first \<open>n\<close> bytes, when they end on a character boundary.\<close>

definition get_prefix :: "nat \<Rightarrow> string \<Rightarrow> string option" where
  "get_prefix n s =
     (if n < length s \<and> \<not> utf8_cont (of_char (s ! n)) \<or> n = length s then Some (take n s) else None)"

definition trim_start_matches :: "(char \<Rightarrow> bool) \<Rightarrow> string \<Rightarrow> string" where
  "trim_start_matches P s = dropWhile P s"

definition trim_matches :: "(char \<Rightarrow> bool) \<Rightarrow> string \<Rightarrow> string" where
  "trim_matches P s = trim_end_matches P (trim_start_matches P s)"

subsection \<open>Fields and trimming\<close>

lemma split_char_not_Nil [simp]: "split_char c s \<noteq> []"
  by (induction s) (auto split: list.splits)

lemma split_char_field: "c \<notin> set s \<Longrightarrow> split_char c (s @ c # t) = s # split_char c t"
  by (induction s) auto

lemma split_char_last: "c \<notin> set s \<Longrightarrow> split_char c s = [s]"
  by (induction s) auto

lemma ws_front_take: "x \<in> set (take (ws_front ns) ns) \<Longrightarrow> x < 33 \<or> 126 < x"
  by (induction ns rule: ws_front.induct) (auto split: if_splits)

lemma ws_back_take: "x \<in> set (take (ws_back ns) ns) \<Longrightarrow> x < 33 \<or> 126 < x"
  using ws_front_take [of x "take 1 ns"] ws_front_take [of x "rev (take 2 ns)"] ws_front_take [of x "rev (take 3 ns)"]
  by (auto simp: ws_back_def split: if_splits)

lemma drop_ws_graphic:
  assumes "c \<in> set s" and "graphic c" and "\<And>x. x \<in> set (take n (map of_char s)) \<Longrightarrow> x < 33 \<or> 126 < (x :: nat)"
  shows "c \<in> set (drop n s)"
proof -
  have "c \<notin> set (take n s)" using assms(2) assms(3) [of "of_char c"] by (auto simp: graphic_def Let_def take_map)
  with assms(1) show ?thesis by (metis Un_iff append_take_drop_id set_append)
qed

lemma trim_start_graphic: "c \<in> set s \<Longrightarrow> graphic c \<Longrightarrow> c \<in> set (trim_start s)"
proof (induction s rule: trim_start.induct)
  case (1 s)
  show ?case
  proof (cases "ws_front (map of_char s) > 0 \<and> s \<noteq> []")
    case True
    have "c \<in> set (drop (ws_front (map of_char s)) s)" using 1(2,3) ws_front_take by (intro drop_ws_graphic)
    with 1(1) [OF refl True] 1(3) True show ?thesis by (simp add: trim_start.simps [of s] Let_def)
  next
    case False
    then have "trim_start s = s" by (subst trim_start.simps) (simp only: Let_def if_False)
    with 1 show ?thesis by simp
  qed
qed

lemma trim_end_rev_graphic: "c \<in> set s \<Longrightarrow> graphic c \<Longrightarrow> c \<in> set (trim_end_rev s)"
proof (induction s rule: trim_end_rev.induct)
  case (1 s)
  show ?case
  proof (cases "ws_back (map of_char s) > 0 \<and> s \<noteq> []")
    case True
    have "c \<in> set (drop (ws_back (map of_char s)) s)" using 1(2,3) ws_back_take by (intro drop_ws_graphic)
    with 1(1) [OF refl True] 1(3) True show ?thesis by (simp add: trim_end_rev.simps [of s] Let_def)
  next
    case False
    then have "trim_end_rev s = s" by (subst trim_end_rev.simps) (simp only: Let_def if_False)
    with 1 show ?thesis by simp
  qed
qed

lemma trim_graphic: "c \<in> set s \<Longrightarrow> graphic c \<Longrightarrow> c \<in> set (trim s)"
  by (simp add: trim_def trim_end_def trim_start_graphic trim_end_rev_graphic)

lemma valid_str_ascii: "(\<And>c. c \<in> set s \<Longrightarrow> (of_char c :: nat) < 128) \<Longrightarrow> valid_str s"
proof -
  assume a: "\<And>c. c \<in> set s \<Longrightarrow> (of_char c :: nat) < 128"
  have "b < 0x80" if b: "b \<in> set (bytes_of s)" for b
  proof -
    from b obtain c where "c \<in> set s" "b = of_char c" by (auto simp: bytes_of_def)
    with a show ?thesis by (simp add: word_less_nat_alt unat_of_char)
  qed
  then show ?thesis by (simp add: valid_str_def utf8_valid_ascii)
qed

lemma parse_i64_show:
  assumes "int n < 2 ^ 63"
  shows "parse_i64 (show_nat n) = Some (int n)"
proof -
  obtain c cs where s: "show_nat n = c # cs" by (cases "show_nat n") auto
  then have "c \<noteq> CHR ''+''" "c \<noteq> CHR ''-''" using show_nat_digits [of c n] by auto
  with assms s parse_show_digits [of n] show ?thesis by (simp add: parse_i64_def parse_signed_def)
qed

lemma parse_i64_show_big:
  assumes "2 ^ 63 \<le> int n"
  shows "parse_i64 (show_nat n) = None"
proof -
  obtain c cs where s: "show_nat n = c # cs" by (cases "show_nat n") auto
  then have "c \<noteq> CHR ''+''" "c \<noteq> CHR ''-''" using show_nat_digits [of c n] by auto
  with assms s parse_show_digits [of n] show ?thesis by (simp add: parse_i64_def parse_signed_def)
qed

text \<open>What evaluates string functions on literals.\<close>

lemmas str_eval = split_once_def find_char_def rfind_char_def starts_with_def strip_prefix_def
  ends_with_def to_ascii_lowercase_def ascii_lower_def to_ascii_uppercase_def ascii_upper_def
  eq_ignore_ascii_case_def parse_u16_def parse_unsigned_def trim_def trim_start.simps trim_end_def
  trim_end_rev.simps ws_back_def char_of_def bit_0

end
