(* ===== verification/Hpack_Table.thy ===== *)
theory Hpack_Table
  imports Rust_Str
begin

text \<open>
  The HPACK static table, the dynamic tables of the decoder and of the encoder, and what both
  promise (RFC 7541 2.3 and 4; \<open>STATIC_TABLE\<close>, \<open>Decoder\<close>, \<open>Encoder\<close> of \<open>src/src/http2.rs\<close>).  The locale
  \<open>dyn_table\<close> states the shape of the two implementations; proved in it once: the table is the longest
  prefix of the insertion history that fits the capacity, the size field is the sum of the entry
  sizes and never exceeds the capacity.
\<close>

type_synonym field = "string \<times> string"

subsection \<open>The static table\<close>

definition STATIC_TABLE :: "field list" where
  "STATIC_TABLE =
     [('':authority'', ''''), ('':method'', ''GET''), ('':method'', ''POST''), ('':path'', ''/''),
      ('':path'', ''/index.html''), ('':scheme'', ''http''), ('':scheme'', ''https''),
      ('':status'', ''200''), ('':status'', ''204''), ('':status'', ''206''),
      ('':status'', ''304''), ('':status'', ''400''), ('':status'', ''404''),
      ('':status'', ''500''), (''accept-charset'', ''''), (''accept-encoding'', ''gzip, deflate''),
      (''accept-language'', ''''), (''accept-ranges'', ''''), (''accept'', ''''),
      (''access-control-allow-origin'', ''''), (''age'', ''''), (''allow'', ''''),
      (''authorization'', ''''), (''cache-control'', ''''), (''content-disposition'', ''''),
      (''content-encoding'', ''''), (''content-language'', ''''), (''content-length'', ''''),
      (''content-location'', ''''), (''content-range'', ''''), (''content-type'', ''''),
      (''cookie'', ''''), (''date'', ''''), (''etag'', ''''), (''expect'', ''''),
      (''expires'', ''''), (''from'', ''''), (''host'', ''''), (''if-match'', ''''),
      (''if-modified-since'', ''''), (''if-none-match'', ''''), (''if-range'', ''''),
      (''if-unmodified-since'', ''''), (''last-modified'', ''''), (''link'', ''''),
      (''location'', ''''), (''max-forwards'', ''''), (''proxy-authenticate'', ''''),
      (''proxy-authorization'', ''''), (''range'', ''''), (''referer'', ''''), (''refresh'', ''''),
      (''retry-after'', ''''), (''server'', ''''), (''set-cookie'', ''''),
      (''strict-transport-security'', ''''), (''transfer-encoding'', ''''), (''user-agent'', ''''),
      (''vary'', ''''), (''via'', ''''), (''www-authenticate'', '''')]"

definition static_full_index :: "string \<Rightarrow> string \<Rightarrow> nat option" where
  "static_full_index name val =
     map_option (\<lambda>i. i + 1) (position (\<lambda>(n, v). n = name \<and> v = val) STATIC_TABLE)"

definition static_name_index :: "string \<Rightarrow> nat option" where
  "static_name_index name =
     map_option (\<lambda>i. i + 1) (position (\<lambda>(n, _). n = name) STATIC_TABLE)"

lemma length_STATIC_TABLE [simp]: "length STATIC_TABLE = 61"
  by (simp add: STATIC_TABLE_def)

subsection \<open>Entry sizes and the abstract table\<close>

definition entry_size :: "string \<Rightarrow> string \<Rightarrow> nat" where
  "entry_size name val = length name + length val + 32"

definition table_size :: "field list \<Rightarrow> nat" where
  "table_size es = sum_list (map (\<lambda>(n, v). entry_size n v) es)"

text \<open>The longest prefix of the entries (newest first) that fits into \<open>room\<close> octets.\<close>

fun fit :: "nat \<Rightarrow> field list \<Rightarrow> field list" where
  "fit room [] = []"
| "fit room ((n, v) # es) =
     (if entry_size n v \<le> room then (n, v) # fit (room - entry_size n v) es else [])"

lemma table_size_simps [simp]:
  "table_size [] = 0"
  "table_size ((n, v) # es) = entry_size n v + table_size es"
  "table_size (es @ fs) = table_size es + table_size fs"
  by (simp_all add: table_size_def)

lemma fit_id: "table_size es \<le> room \<Longrightarrow> fit room es = es"
  by (induction room es rule: fit.induct) auto

lemma table_size_fit: "table_size (fit room es) \<le> room"
  by (induction room es rule: fit.induct) auto

lemma fit_snoc: "\<not> table_size (es @ [e]) \<le> room \<Longrightarrow> fit room (es @ [e]) = fit room es"
  by (induction room es rule: fit.induct) (cases e; auto)+

lemma fit_prefix: "\<exists>rest. es = fit room es @ rest"
  by (induction room es rule: fit.induct) auto

lemma fit_fit: "a \<le> b \<Longrightarrow> fit a (fit b es) = fit a es"
  by (induction a es arbitrary: b rule: fit.induct) auto

text \<open>Evicting first and inserting then is the same as inserting and cutting to size.\<close>

lemma fit_insert_fit: "fit c (e # fit c es) = fit c (e # es)"
  by (cases e) (simp add: fit_fit)

lemma fit_mono_prefix: "\<exists>r. fit room (es @ fs) = fit room es @ r"
  by (induction room es rule: fit.induct) auto

lemma fit_append_fit: "fit c (gs @ fit d es) = fit c (gs @ es)" if "c \<le> d"
  using that
proof (induction gs arbitrary: c)
  case Nil
  then show ?case by (simp add: fit_fit)
next
  case (Cons g gs)
  then show ?case by (cases g) simp
qed

text \<open>A prefix of the entries that fits survives the cut.\<close>

lemma fit_keeps_prefix: "table_size es \<le> room \<Longrightarrow> \<exists>r. fit room (es @ fs) = es @ r"
  using fit_mono_prefix [of room es fs] by (simp add: fit_id)

subsection \<open>The interface of a dynamic table\<close>

locale evicting_table =
  fixes entries :: "'s \<Rightarrow> field list"
    and size_of :: "'s \<Rightarrow> nat"
    and cap_of :: "'s \<Rightarrow> nat"
    and pop :: "'s \<Rightarrow> 's"
    and evict :: "nat \<Rightarrow> 's \<Rightarrow> 's"
  assumes pop_entries: "entries (pop s) = butlast (entries s)"
    and pop_size: "entries s \<noteq> [] \<Longrightarrow>
          size_of (pop s) = size_of s - (case last (entries s) of (n, v) \<Rightarrow> entry_size n v)"
    and pop_cap: "cap_of (pop s) = cap_of s"
    and evict_rec: "evict incoming s =
          (if size_of s + incoming > cap_of s \<and> entries s \<noteq> [] then evict incoming (pop s) else s)"
begin

text \<open>The representation invariant: the cached size is the size of the entries.\<close>

definition consistent :: "'s \<Rightarrow> bool" where
  "consistent s \<longleftrightarrow> size_of s = table_size (entries s)"

lemma pop_consistent: "consistent s \<Longrightarrow> entries s \<noteq> [] \<Longrightarrow> consistent (pop s)"
  by (cases "entries s" rule: rev_cases)
    (auto simp: consistent_def pop_entries pop_size split: prod.splits)

lemma evict_spec:
  "consistent s \<Longrightarrow> incoming \<le> cap_of s \<Longrightarrow>
     consistent (evict incoming s) \<and> cap_of (evict incoming s) = cap_of s \<and>
     entries (evict incoming s) = fit (cap_of s - incoming) (entries s)"
proof (induction "length (entries s)" arbitrary: s)
  case 0
  then show ?case by (simp add: evict_rec [of incoming s])
next
  case (Suc m)
  then have ne: "entries s \<noteq> []" by auto
  then obtain es e where es: "entries s = es @ [e]" by (metis rev_exhaust)
  show ?case
  proof (cases "size_of s + incoming > cap_of s")
    case True
    then have step: "evict incoming s = evict incoming (pop s)"
      using ne by (simp add: evict_rec [of incoming s])
    have "m = length (entries (pop s))" using Suc.hyps(2) by (simp add: pop_entries)
    from Suc.hyps(1) [OF this] Suc.prems ne
    have "consistent (evict incoming (pop s)) \<and> cap_of (evict incoming (pop s)) = cap_of s \<and>
        entries (evict incoming (pop s)) = fit (cap_of s - incoming) es"
      by (simp add: pop_consistent pop_cap pop_entries es)
    moreover have "fit (cap_of s - incoming) (es @ [e]) = fit (cap_of s - incoming) es"
      using True Suc.prems by (intro fit_snoc) (simp add: consistent_def es)
    ultimately show ?thesis by (simp add: step es)
  next
    case False
    then show ?thesis
      using Suc.prems by (simp add: evict_rec [of incoming s] fit_id consistent_def)
  qed
qed

end

text \<open>An insertion that empties the table when the entry is larger than it, as HPACK has it.\<close>

locale dyn_table = evicting_table entries size_of cap_of pop evict
  for entries :: "'s \<Rightarrow> field list" and size_of :: "'s \<Rightarrow> nat" and cap_of :: "'s \<Rightarrow> nat" and pop :: "'s \<Rightarrow> 's"
    and evict :: "nat \<Rightarrow> 's \<Rightarrow> 's" +
  fixes ins :: "string \<Rightarrow> string \<Rightarrow> 's \<Rightarrow> 's"
  assumes ins_big: "entry_size n v > cap_of s \<Longrightarrow>
          entries (ins n v s) = [] \<and> size_of (ins n v s) = 0"
    and ins_fits: "entry_size n v \<le> cap_of s \<Longrightarrow>
          entries (ins n v s) = (n, v) # entries (evict (entry_size n v) s) \<and>
          size_of (ins n v s) = size_of (evict (entry_size n v) s) + entry_size n v"
    and ins_cap: "cap_of (ins n v s) = cap_of s"
begin

text \<open>Insertion, abstractly: prepend and cut to the capacity.\<close>

lemma ins_spec:
  assumes "consistent s"
  shows "consistent (ins n v s) \<and> cap_of (ins n v s) = cap_of s \<and>
    entries (ins n v s) = fit (cap_of s) ((n, v) # entries s)"
proof (cases "entry_size n v \<le> cap_of s")
  case True
  with evict_spec [OF assms True] ins_fits [OF True] show ?thesis
    by (simp add: consistent_def ins_cap)
next
  case False
  then show ?thesis using ins_big [of s n v] by (simp add: consistent_def ins_cap)
qed

lemma ins_bounded:
  assumes "consistent s"
  shows "size_of (ins n v s) \<le> cap_of (ins n v s)"
  using ins_spec [OF assms, of n v] table_size_fit [of "cap_of s" "(n, v) # entries s"]
  by (metis consistent_def)

text \<open>A whole history of insertions: the table is what fits of it.\<close>

lemma history_spec:
  "consistent s \<Longrightarrow>
     consistent (fold (\<lambda>(n, v). ins n v) fs s) \<and>
     cap_of (fold (\<lambda>(n, v). ins n v) fs s) = cap_of s \<and>
     fit (cap_of s) (entries (fold (\<lambda>(n, v). ins n v) fs s)) = fit (cap_of s) (rev fs @ entries s)"
proof (induction fs arbitrary: s)
  case (Cons f fs)
  obtain n v where f: "f = (n, v)" by fastforce
  have "fit c (rev fs @ fit c (f # es)) = fit c ((rev fs @ [f]) @ es)" for c es
    by (simp add: fit_append_fit)
  with Cons.IH [of "ins n v s"] ins_spec [OF Cons.prems, of n v] show ?case
    by (simp add: f)
qed simp

end

subsection \<open>The decoder's table\<close>

abbreviation (input) DYN_TABLE_CAP :: nat where "DYN_TABLE_CAP \<equiv> 4096"

record decoder =
  d_table :: "field list"
  d_size :: nat
  d_cap :: nat

definition decoder_new :: decoder where
  "decoder_new = \<lparr>d_table = [], d_size = 0, d_cap = DYN_TABLE_CAP\<rparr>"

text \<open>The body of the eviction loop: drop the oldest entry, which is the last.\<close>

definition dec_pop :: "decoder \<Rightarrow> decoder" where
  "dec_pop d =
     (case last (d_table d) of (n, v) \<Rightarrow>
        d\<lparr>d_table := butlast (d_table d), d_size := d_size d - entry_size n v\<rparr>)"

function dec_evict_to_fit :: "nat \<Rightarrow> decoder \<Rightarrow> decoder" where
  "dec_evict_to_fit incoming d =
     (if d_size d + incoming > d_cap d \<and> d_table d \<noteq> []
      then dec_evict_to_fit incoming (dec_pop d) else d)"
  by pat_completeness auto
termination
  by (relation "measure (\<lambda>(incoming, d). length (d_table d))")
    (auto simp: dec_pop_def split: prod.splits)

declare dec_evict_to_fit.simps [simp del]

definition dec_insert :: "string \<Rightarrow> string \<Rightarrow> decoder \<Rightarrow> decoder" where
  "dec_insert name val d =
     (let sz = entry_size name val in
      if sz > d_cap d then d\<lparr>d_table := [], d_size := 0\<rparr>
      else let d = dec_evict_to_fit sz d in
           d\<lparr>d_table := (name, val) # d_table d, d_size := d_size d + sz\<rparr>)"

lemma dec_evict_cap: "d_cap (dec_evict_to_fit incoming d) = d_cap d"
proof (induction incoming d rule: dec_evict_to_fit.induct)
  case (1 incoming d)
  then show ?case
    by (subst dec_evict_to_fit.simps) (simp add: dec_pop_def split: prod.splits)
qed

interpretation dec_table: dyn_table d_table d_size d_cap dec_pop dec_evict_to_fit dec_insert
proof unfold_locales
  show "dec_evict_to_fit incoming d =
      (if d_size d + incoming > d_cap d \<and> d_table d \<noteq> []
       then dec_evict_to_fit incoming (dec_pop d) else d)" for incoming d
    by (rule dec_evict_to_fit.simps)
qed (simp_all add: dec_pop_def dec_insert_def dec_evict_cap Let_def split: prod.splits)

subsection \<open>The encoder's table\<close>

record encoder =
  e_table :: "field list"
  e_size :: nat
  e_max :: nat
  e_signal :: "nat option"

definition encoder_new :: encoder where
  "encoder_new = \<lparr>e_table = [], e_size = 0, e_max = DYN_TABLE_CAP, e_signal = None\<rparr>"

definition enc_pop :: "encoder \<Rightarrow> encoder" where
  "enc_pop e =
     (case last (e_table e) of (n, v) \<Rightarrow>
        e\<lparr>e_table := butlast (e_table e), e_size := e_size e - entry_size n v\<rparr>)"

function enc_evict_to_fit :: "nat \<Rightarrow> encoder \<Rightarrow> encoder" where
  "enc_evict_to_fit incoming e =
     (if e_size e + incoming > e_max e \<and> e_table e \<noteq> []
      then enc_evict_to_fit incoming (enc_pop e) else e)"
  by pat_completeness auto
termination
  by (relation "measure (\<lambda>(incoming, e). length (e_table e))")
    (auto simp: enc_pop_def split: prod.splits)

declare enc_evict_to_fit.simps [simp del]

definition enc_insert :: "string \<Rightarrow> string \<Rightarrow> encoder \<Rightarrow> encoder" where
  "enc_insert name val e =
     (let sz = entry_size name val in
      if sz > e_max e then e\<lparr>e_table := [], e_size := 0\<rparr>
      else let e = enc_evict_to_fit sz e in
           e\<lparr>e_table := (name, val) # e_table e, e_size := e_size e + sz\<rparr>)"

text \<open>A new \<open>SETTINGS_HEADER_TABLE_SIZE\<close> from the peer.\<close>

definition set_peer_max_table_size :: "nat \<Rightarrow> encoder \<Rightarrow> encoder" where
  "set_peer_max_table_size n e =
     (enc_evict_to_fit 0 (e\<lparr>e_max := n\<rparr>))\<lparr>e_signal := Some n\<rparr>"

lemma enc_evict_other:
  "e_max (enc_evict_to_fit incoming e) = e_max e"
  "e_signal (enc_evict_to_fit incoming e) = e_signal e"
proof (induction incoming e rule: enc_evict_to_fit.induct)
  case (1 incoming e)
  { case 1 with "1.IH"(1) show ?case
      by (subst enc_evict_to_fit.simps) (simp add: enc_pop_def split: prod.splits) }
  { case 2 with "1.IH"(2) show ?case
      by (subst enc_evict_to_fit.simps) (simp add: enc_pop_def split: prod.splits) }
qed

interpretation enc_table: dyn_table e_table e_size e_max enc_pop enc_evict_to_fit enc_insert
proof unfold_locales
  show "enc_evict_to_fit incoming e =
      (if e_size e + incoming > e_max e \<and> e_table e \<noteq> []
       then enc_evict_to_fit incoming (enc_pop e) else e)" for incoming e
    by (rule enc_evict_to_fit.simps)
qed (simp_all add: enc_pop_def enc_insert_def enc_evict_other Let_def split: prod.splits)

lemma enc_insert_signal [simp]: "e_signal (enc_insert n v e) = e_signal e"
  by (simp add: enc_insert_def Let_def enc_evict_other)

lemma set_peer_max_table_size_spec:
  assumes "enc_table.consistent e"
  shows "enc_table.consistent (set_peer_max_table_size n e)"
    and "e_table (set_peer_max_table_size n e) = fit n (e_table e)"
    and "e_max (set_peer_max_table_size n e) = n"
    and "e_signal (set_peer_max_table_size n e) = Some n"
proof -
  have "enc_table.consistent (e\<lparr>e_max := n\<rparr>)"
    using assms by (simp add: enc_table.consistent_def)
  from enc_table.evict_spec [OF this, of 0]
  have "enc_table.consistent (enc_evict_to_fit 0 (e\<lparr>e_max := n\<rparr>)) \<and>
      e_table (enc_evict_to_fit 0 (e\<lparr>e_max := n\<rparr>)) = fit n (e_table e)" by simp
  then show "enc_table.consistent (set_peer_max_table_size n e)"
    "e_table (set_peer_max_table_size n e) = fit n (e_table e)"
    by (simp_all add: set_peer_max_table_size_def enc_table.consistent_def)
qed (simp_all add: set_peer_max_table_size_def enc_evict_other)

subsection \<open>Lookups\<close>

text \<open>\<open>Decoder::lookup\<close>: \<open>index as usize\<close> is the identity where a \<open>usize\<close> has 64 bits.\<close>

definition dec_lookup :: "decoder \<Rightarrow> u64 \<Rightarrow> field result" where
  "dec_lookup d index =
     (if index = 0 then Inl (BadResponse ''hpack: index 0'')
      else let idx = unat index in
        if idx \<le> length STATIC_TABLE then Inr (STATIC_TABLE ! (idx - 1))
        else let dyn_idx = idx - length STATIC_TABLE - 1 in
          if dyn_idx \<ge> length (d_table d)
          then Inl (BadResponse ''hpack: index {idx} out of range'')
          else Inr (d_table d ! dyn_idx))"

definition dec_lookup_name :: "decoder \<Rightarrow> u64 \<Rightarrow> string result" where
  "dec_lookup_name d index = bindR (dec_lookup d index) (\<lambda>(n, _). Inr n)"

definition combined_full_index :: "encoder \<Rightarrow> string \<Rightarrow> string \<Rightarrow> u32 option" where
  "combined_full_index e name val =
     (case static_full_index name val of
        Some i \<Rightarrow> Some (of_nat i)
      | None \<Rightarrow> map_option (\<lambda>i. of_nat (length STATIC_TABLE + 1 + i))
          (position (\<lambda>(n, v). n = name \<and> v = val) (e_table e)))"

definition combined_name_index :: "encoder \<Rightarrow> string \<Rightarrow> u32 option" where
  "combined_name_index e name =
     (case static_name_index name of
        Some i \<Rightarrow> Some (of_nat i)
      | None \<Rightarrow> map_option (\<lambda>i. of_nat (length STATIC_TABLE + 1 + i))
          (position (\<lambda>(n, _). n = name) (e_table e)))"

text \<open>Every entry costs at least 32 octets, so a table of at most 4096 has at most 128 entries.\<close>

lemma table_size_length: "32 * length es \<le> table_size es"
  by (induction es) (auto simp: entry_size_def)

text \<open>An index the encoder emits looks up the entry it stands for, in any decoder table that extends
  the encoder's.\<close>

lemma position_lookup:
  assumes i: "position P STATIC_TABLE = Some i \<and> k = i + 1 \<or>
      position P (e_table e) = Some i \<and> k = length STATIC_TABLE + 1 + i"
    and tables: "d_table d = e_table e @ rest" and small: "length (e_table e) \<le> 1000"
  shows "0 < unat (of_nat k :: u32) \<and> unat (of_nat k :: u32) = k \<and> k < 2000 \<and>
    (\<exists>f. dec_lookup d (ucast (of_nat k :: u32)) = Inr f \<and> P f)"
proof -
  have k: "0 < k" "k < 2000" using i small by (auto dest!: position_SomeD)
  then have unat: "unat (of_nat k :: u32) = k" "unat (ucast (of_nat k :: u32) :: u64) = k"
    by (simp_all add: unat_of_nat unsigned_ucast_eq take_bit_nat_eq_self)
  moreover have "\<exists>f. dec_lookup d w = Inr f \<and> P f" if w: "unat w = k" for w :: u64
  proof -
    have "w \<noteq> 0" using w k by auto
    from i have "dec_lookup d w = Inr (STATIC_TABLE ! i) \<and> P (STATIC_TABLE ! i) \<or>
        dec_lookup d w = Inr (e_table e ! i) \<and> P (e_table e ! i)"
      using \<open>w \<noteq> 0\<close> w
      by (elim disjE) (auto simp: dec_lookup_def tables nth_append Let_def dest!: position_SomeD)
    then show ?thesis by blast
  qed
  ultimately show ?thesis using k by simp
qed

subsection \<open>Properties\<close>

text \<open>After any insertions into a new decoder the dynamic table holds exactly the newest entries that fit
  into its 4096 octets (RFC 7541 4.4), newest first, and the cached size is their size.\<close>

lemma dynamic_table_holds_what_fits:
  "d_table (fold (\<lambda>(n, v). dec_insert n v) fs decoder_new) = fit DYN_TABLE_CAP (rev fs) \<and>
   d_size (fold (\<lambda>(n, v). dec_insert n v) fs decoder_new) = table_size (fit DYN_TABLE_CAP (rev fs))"
proof (induction fs rule: rev_induct)
  case (snoc f fs)
  obtain n v where f: "f = (n, v)" by fastforce
  let ?d = "fold (\<lambda>(n, v). dec_insert n v) fs decoder_new"
  have new: "dec_table.consistent decoder_new" "d_cap decoder_new = DYN_TABLE_CAP"
    by (simp_all add: dec_table.consistent_def decoder_new_def)
  have d: "dec_table.consistent ?d" "d_cap ?d = DYN_TABLE_CAP"
    using dec_table.history_spec [OF new(1), of fs] new(2) by simp_all
  from dec_table.ins_spec [OF d(1), of n v] snoc d(2) show ?case
    by (simp add: f dec_table.consistent_def fit_insert_fit del: fit.simps)
qed (simp_all add: decoder_new_def)

end
