(* ===== verification/Hpack.thy ===== *)
theory Hpack
  imports Hpack_Int Huffman_Codec Hpack_Table
begin

text \<open>
  HPACK header blocks (\<open>Decoder::read_string\<close>, \<open>Decoder::decode_block\<close>, \<open>encode_literal_string\<close> and
  \<open>Encoder::encode_header\<close> of \<open>src/src/http2.rs\<close>).  \<open>synced\<close> is the simulation relation between an
  encoder and the decoder that reads its blocks: it survives every header, table-size change and
  eviction, and under it a block decodes to exactly the fields that were encoded.
\<close>

subsection \<open>Decoding\<close>

abbreviation (input) MAX_DECODED_HEADER_LIST :: nat where
  "MAX_DECODED_HEADER_LIST \<equiv> 256 * 1024"

text \<open>\<open>usize\<close> arithmetic where a \<open>usize\<close> has 64 bits.\<close>

definition checked_add_usize :: "nat \<Rightarrow> nat \<Rightarrow> nat option" where
  "checked_add_usize a b = (if a + b < 2 ^ 64 then Some (a + b) else None)"

definition read_string :: "bytes \<Rightarrow> nat \<Rightarrow> (string \<times> nat) result" where
  "read_string buf pos =
     (if pos \<ge> length buf then Inl (BadResponse ''hpack: truncated string'')
      else let huffman = (buf ! pos AND 0x80 \<noteq> 0) in
        bindR (decode_int 7 (drop pos buf)) (\<lambda>(len, consumed).
          let pos = pos + consumed in
          case checked_add_usize pos (unat len) of
            None \<Rightarrow> Inl (BadResponse ''hpack: string length overflow'')
          | Some end_pos \<Rightarrow>
              if end_pos > length buf then Inl (BadResponse ''hpack: truncated string body'')
              else let raw = take (end_pos - pos) (drop pos buf) in
                if huffman then
                  bindR (huffman_decode raw) (\<lambda>bs.
                    case from_utf8 bs of
                      Some s \<Rightarrow> Inr (s, end_pos)
                    | None \<Rightarrow> Inl (BadResponse ''hpack: non-utf8 Huffman literal''))
                else
                  (case from_utf8 raw of
                     Some s \<Rightarrow> Inr (s, end_pos)
                   | None \<Rightarrow> Inl (BadResponse ''hpack: non-utf8 literal''))))"

text \<open>The name of a literal field: spelled out when the index is 0, looked up otherwise.\<close>

definition read_name :: "bytes \<Rightarrow> nat \<Rightarrow> u64 \<Rightarrow> decoder \<Rightarrow> (string \<times> nat) result" where
  "read_name buf pos idx d =
     (if idx = 0 then read_string buf pos
      else bindR (dec_lookup_name d idx) (\<lambda>name. Inr (name, pos)))"

text \<open>
  The body of the \<open>decode_block\<close> loop: one representation.  The field is \<open>None\<close> for a table size
  update, where the loop continues without a header.
\<close>

definition decode_field :: "bytes \<Rightarrow> nat \<Rightarrow> decoder \<Rightarrow> (field option \<times> nat) result \<times> decoder" where
  "decode_field buf pos d =
     (let b = buf ! pos in
      if b AND 0x80 \<noteq> 0 then
        (bindR (decode_int 7 (drop pos buf)) (\<lambda>(idx, n).
           bindR (dec_lookup d idx) (\<lambda>entry. Inr (Some entry, pos + n))), d)
      else if b AND 0x40 \<noteq> 0 then
        bindS (bindR (decode_int 6 (drop pos buf)) (\<lambda>(idx, n).
                 bindR (read_name buf (pos + n) idx d) (\<lambda>(name, pos).
                   bindR (read_string buf pos) (\<lambda>(val, pos). Inr (name, val, pos)))), d)
          (\<lambda>(name, val, pos) d. (Inr (Some (name, val), pos), dec_insert name val d))
      else if b AND 0x20 \<noteq> 0 then
        bindS (decode_int 5 (drop pos buf), d) (\<lambda>(new_size, n) d.
          let cap = min (unat new_size) DYN_TABLE_CAP in
          (Inr (None, pos + n), dec_evict_to_fit 0 (d\<lparr>d_cap := cap\<rparr>)))
      else
        (bindR (decode_int 4 (drop pos buf)) (\<lambda>(idx, n).
           bindR (read_name buf (pos + n) idx d) (\<lambda>(name, pos).
             bindR (read_string buf pos) (\<lambda>(val, pos). Inr (Some (name, val), pos)))), d))"

lemma read_string_progress: "read_string buf pos = Inr (s, q) \<Longrightarrow> pos < q \<and> q \<le> length buf"
  by (auto simp: read_string_def checked_add_usize_def Let_def bind_simps
      split: if_splits option.splits dest!: decode_int_consumed)

lemma read_name_progress: "read_name buf pos idx d = Inr (s, q) \<Longrightarrow> pos \<le> q"
  by (auto simp: read_name_def bind_simps split: if_splits dest: read_string_progress)

lemma decode_field_progress:
  assumes "decode_field buf pos d = (Inr (x, q), d')"
  shows "pos < q"
  using assms
  by (auto simp: decode_field_def Let_def bind_simps split: if_splits
      dest!: decode_int_consumed read_string_progress read_name_progress)

function decode_loop ::
  "bytes \<Rightarrow> nat \<Rightarrow> decoder \<Rightarrow> nat \<Rightarrow> field list \<Rightarrow> field list result \<times> decoder" where
  "decode_loop buf pos d list_size out =
     (if pos < length buf then
        bindS (decode_field buf pos d) (\<lambda>(entry, pos') d'.
          case entry of
            None \<Rightarrow> decode_loop buf pos' d' list_size out
          | Some (name, val) \<Rightarrow>
              let list_size = saturating_add_usize (saturating_add_usize
                    (saturating_add_usize list_size (length name)) (length val)) 32
              in if list_size > MAX_DECODED_HEADER_LIST
                 then (Inl (BadResponse ''hpack: decoded header list exceeds limit''), d')
                 else decode_loop buf pos' d' list_size (out @ [(name, val)]))
      else (Inr out, d))"
  by pat_completeness auto
termination
  by (relation "measure (\<lambda>(buf, pos, d, list_size, out). length buf - pos)")
    (auto dest!: decode_field_progress[OF sym] decode_field_progress)

declare decode_loop.simps [simp del]

definition decode_block :: "bytes \<Rightarrow> decoder \<Rightarrow> field list result \<times> decoder" where
  "decode_block buf d = decode_loop buf 0 d 0 []"

subsection \<open>Encoding\<close>

text \<open>\<open>bytes[0] |= f\<close> and \<open>bytes[0] &= f\<close>.\<close>

definition or_first :: "byte \<Rightarrow> bytes \<Rightarrow> bytes" where
  "or_first f bs = bs[0 := bs ! 0 OR f]"

definition and_first :: "byte \<Rightarrow> bytes \<Rightarrow> bytes" where
  "and_first f bs = bs[0 := bs ! 0 AND f]"

definition encode_literal_string :: "bytes \<Rightarrow> string \<Rightarrow> bytes" where
  "encode_literal_string out s =
     (let raw = bytes_of s; huff = huffman_encode raw in
      if length huff < length raw
      then out @ or_first 0x80 (encode_int (of_nat (length huff)) 7) @ huff
      else out @ and_first 0x7f (encode_int (of_nat (length raw)) 7) @ raw)"

definition encode_header :: "bytes \<Rightarrow> string \<Rightarrow> string \<Rightarrow> encoder \<Rightarrow> bytes \<times> encoder" where
  "encode_header out name val e =
     (let (out, e) =
        (case e_signal e of
           Some n \<Rightarrow> (out @ or_first 0x20 (encode_int (of_nat n) 5), e\<lparr>e_signal := None\<rparr>)
         | None \<Rightarrow> (out, e))
      in case combined_full_index e name val of
           Some idx \<Rightarrow> (out @ or_first 0x80 (encode_int (ucast idx) 7), e)
         | None \<Rightarrow>
             case combined_name_index e name of
               Some idx \<Rightarrow>
                 (encode_literal_string (out @ or_first 0x40 (encode_int (ucast idx) 6)) val,
                  enc_insert name val e)
             | None \<Rightarrow>
                 (encode_literal_string (encode_literal_string (out @ [0x40]) name) val,
                  enc_insert name val e))"

fun encode_headers :: "bytes \<Rightarrow> field list \<Rightarrow> encoder \<Rightarrow> bytes \<times> encoder" where
  "encode_headers out [] e = (out, e)"
| "encode_headers out ((n, v) # fs) e =
     (let (out, e) = encode_header out n v e in encode_headers out fs e)"

subsection \<open>Flag bits of the first byte\<close>

lemma flag_bit:
  "(b :: byte) AND 0x80 \<noteq> 0 \<longleftrightarrow> bit b 7"
  "(b :: byte) AND 0x40 \<noteq> 0 \<longleftrightarrow> bit b 6"
  "(b :: byte) AND 0x20 \<noteq> 0 \<longleftrightarrow> bit b 5"
  using and_exp_eq_0_iff_not_bit [of b 7] and_exp_eq_0_iff_not_bit [of b 6]
    and_exp_eq_0_iff_not_bit [of b 5] by simp_all

lemma small_byte_bit:
  assumes "unat (b :: byte) < 2 ^ p" and "p \<le> k"
  shows "\<not> bit b k"
  using assms bit_take_bit_iff [of p "unat b" k]
  by (simp add: take_bit_nat_eq_self bit_unsigned_iff)

lemma encode_int_cons:
  assumes "0 < p" and "p \<le> 7"
  obtains b bs where "encode_int v p = b # bs" and "unat b < 2 ^ p"
proof -
  have m: "unat (max_prefix p) = 2 ^ p - 1"
    using assms unfolding max_prefix_mask take_bit_minus_one_eq_mask [symmetric]
      unsigned_take_bit_eq unsigned_minus_1_eq_mask take_bit_of_mask
    by (simp add: min_def mask_eq_exp_minus_1)
  have p: "(2 :: nat) ^ p \<le> 2 ^ 7" using assms(2) by (rule power_increasing) simp
  obtain b bs where e: "encode_int v p = b # bs" by (cases "v < max_prefix p") (auto simp: encode_int_def)
  moreover have "unat b < 2 ^ p"
  proof (cases "v < max_prefix p")
    case True
    then have "unat v < 2 ^ p" using m by (simp add: word_less_nat_alt)
    with True e p show ?thesis by (auto simp: encode_int_def unsigned_ucast_eq take_bit_nat_eq_self)
  next
    case False
    then have "unat b = unat (ucast (max_prefix p) :: byte)" using e by (auto simp: encode_int_def)
    then show ?thesis using m p by (simp add: unsigned_ucast_eq take_bit_nat_eq_self)
  qed
  ultimately show ?thesis using that by blast
qed

lemma max_prefix_bits: "(2 :: byte) ^ k AND ucast (max_prefix p) = 0" if "p \<le> k" "k < 8"
  using that by (intro bit_word_eqI) (auto simp: max_prefix_mask bit_simps)

text \<open>Setting a flag above the prefix leaves the integer readable.\<close>

lemma decode_or_first:
  assumes "0 < p" "p \<le> k" "k < 8"
  shows "decode_int p (or_first (2 ^ k) (encode_int v p) @ rest)
    = Inr (v, length (or_first (2 ^ k) (encode_int v p)))"
  using decode_int_flagged [OF _ assms(1) max_prefix_bits [OF assms(2,3)], of v rest] assms
  by (auto simp: or_first_def or.commute)

lemma or_first_bits:
  assumes "0 < p" "p \<le> k" "k < 8"
  obtains b bs where "or_first (2 ^ k) (encode_int v p) = b # bs"
    and "\<And>i. p \<le> i \<Longrightarrow> i < 8 \<Longrightarrow> bit b i \<longleftrightarrow> i = k"
proof -
  obtain b bs where e: "encode_int v p = b # bs" "unat b < 2 ^ p"
    using encode_int_cons [of p v] assms by auto
  show ?thesis
  proof (rule that)
    show "or_first (2 ^ k) (encode_int v p) = (b OR 2 ^ k) # bs" by (simp add: or_first_def e)
    show "p \<le> i \<Longrightarrow> i < 8 \<Longrightarrow> bit (b OR 2 ^ k) i \<longleftrightarrow> i = k" for i
      using small_byte_bit [OF e(2)] assms by (auto simp: bit_simps)
  qed
qed

lemma and_first_7f: "and_first 0x7f (encode_int v 7) = encode_int v 7"
proof -
  obtain b bs where e: "encode_int v 7 = b # bs" "unat b < 2 ^ 7"
    using encode_int_cons [of 7 v] by auto
  have "b AND 0x7f = b"
    using e(2) by (simp only: and_7f) (simp add: take_bit_eq_mod word_unat_eq_iff unat_mod)
  then show ?thesis by (simp add: and_first_def e)
qed

subsection \<open>String literals\<close>

lemma encode_literal_string_append: "encode_literal_string out s = out @ encode_literal_string [] s"
  by (simp add: encode_literal_string_def Let_def)

text \<open>
  Reading a string whose length prefix \<open>h\<close> and body \<open>raw\<close> stand in the buffer at \<open>pos\<close>.  A buffer is
  a \<open>Vec\<close> or a slice, at most \<open>isize::MAX\<close> bytes long.
\<close>

lemma read_string_at:
  assumes buf: "drop pos buf = h @ raw @ rest" "length buf < 2 ^ 63"
    and h: "h = b # hs" "decode_int 7 (h @ raw @ rest) = Inr (of_nat (length raw), length h)"
    and body: "(if b AND 0x80 \<noteq> 0 then huffman_decode raw else Inr raw) = Inr (bytes_of s)"
    and s: "valid_str s"
  shows "read_string buf pos = Inr (s, pos + length h + length raw)"
proof -
  have pos: "pos < length buf"
  proof (rule ccontr)
    assume "\<not> pos < length buf"
    with buf(1) h(1) show False by simp
  qed
  then have L: "length buf = pos + (length h + length raw + length rest)"
    using arg_cong [OF buf(1), of length] by simp
  have b: "buf ! pos = b"
    using hd_drop_conv_nth [OF pos] by (simp add: buf(1) h(1))
  have raw: "take (length raw) (drop (pos + length h) buf) = raw"
    using arg_cong [OF buf(1), of "drop (length h)"] by (simp add: add.commute)
  have n: "unat (of_nat (length raw) :: u64) = length raw"
    using L buf(2) by (simp add: unat_of_nat)
  have "checked_add_usize (pos + length h) (length raw) = Some (pos + length h + length raw)"
    using L buf(2) by (simp add: checked_add_usize_def)
  then show ?thesis
    using body pos from_utf8_bytes_of [OF s]
    by (simp add: read_string_def b buf(1) h(2) n raw L Let_def split: if_splits)
qed

lemma read_encode_literal:
  assumes buf: "drop pos buf = encode_literal_string [] s @ rest" "length buf < 2 ^ 63"
    and s: "valid_str s"
  shows "read_string buf pos = Inr (s, pos + length (encode_literal_string [] s))"
proof -
  let ?raw = "bytes_of s" and ?huff = "huffman_encode (bytes_of s)"
  show ?thesis
  proof (cases "length ?huff < length ?raw")
    case True
    let ?h = "or_first (2 ^ 7) (encode_int (of_nat (length ?huff)) 7)"
    have lit: "encode_literal_string [] s = ?h @ ?huff"
      using True by (simp add: encode_literal_string_def Let_def)
    obtain b hs where h: "?h = b # hs" "bit b 7"
      by (rule or_first_bits [of 7 7 "of_nat (length ?huff)"]) simp_all
    have dec: "decode_int 7 (?h @ ?huff @ rest) = Inr (of_nat (length ?huff), length ?h)"
      by (rule decode_or_first) simp_all
    have "read_string buf pos = Inr (s, pos + length ?h + length ?huff)"
    proof (rule read_string_at [OF _ buf(2) h(1) dec _ s])
      show "drop pos buf = ?h @ ?huff @ rest" using buf(1) lit by simp
      show "(if b AND 0x80 \<noteq> 0 then huffman_decode ?huff else Inr ?huff) = Inr ?raw"
        using h(2) flag_bit(1) [of b] by (simp add: huffman_decode_encode)
    qed
    then show ?thesis by (simp add: lit)
  next
    case False
    let ?h = "encode_int (of_nat (length ?raw)) 7"
    have lit: "encode_literal_string [] s = ?h @ ?raw"
      using False by (simp add: encode_literal_string_def Let_def and_first_7f)
    obtain b hs where h: "?h = b # hs" "unat b < 2 ^ 7"
      by (rule encode_int_cons [of 7 "of_nat (length ?raw)"]) simp_all
    have dec: "decode_int 7 (?h @ ?raw @ rest) = Inr (of_nat (length ?raw), length ?h)"
      by (rule int_codec.dec_enc) simp
    have "read_string buf pos = Inr (s, pos + length ?h + length ?raw)"
    proof (rule read_string_at [OF _ buf(2) h(1) dec _ s])
      show "drop pos buf = ?h @ ?raw @ rest" using buf(1) lit by simp
      show "(if b AND 0x80 \<noteq> 0 then huffman_decode ?raw else Inr ?raw) = Inr ?raw"
        using small_byte_bit [OF h(2), of 7] flag_bit(1) [of b] by simp
    qed
    then show ?thesis by (simp add: lit)
  qed
qed

subsection \<open>The simulation between encoder and decoder\<close>

text \<open>
  The decoder's table extends the encoder's, and both cut at the same capacity, except that an
  announced capacity reaches the decoder with the next block.  (The encoder announces only the
  last of several changes, so its table may be shorter than the decoder's.)
\<close>

definition synced :: "encoder \<Rightarrow> decoder \<Rightarrow> bool" where
  "synced e d \<longleftrightarrow>
     enc_table.consistent e \<and> dec_table.consistent d \<and>
     (\<exists>r. d_table d = e_table e @ r) \<and>
     table_size (e_table e) \<le> e_max e \<and> e_max e \<le> DYN_TABLE_CAP \<and>
     (case e_signal e of None \<Rightarrow> d_cap d = e_max e | Some n \<Rightarrow> n = e_max e)"

lemma synced_new: "synced encoder_new decoder_new"
  by (simp add: synced_def encoder_new_def decoder_new_def enc_table.consistent_def
      dec_table.consistent_def)

lemma synced_set_peer_max:
  assumes "synced e d" and "n \<le> DYN_TABLE_CAP"
  shows "synced (set_peer_max_table_size n e) d"
proof -
  obtain r where "d_table d = e_table e @ r" using assms(1) by (auto simp: synced_def)
  moreover obtain q where "e_table e = fit n (e_table e) @ q" using fit_prefix by blast
  ultimately have "d_table d = fit n (e_table e) @ q @ r" by (metis append_assoc)
  then show ?thesis
    using assms by (auto simp: synced_def set_peer_max_table_size_spec table_size_fit)
qed

lemma synced_insert:
  assumes "synced e d" and "e_signal e = None"
  shows "synced (enc_insert n v e) (dec_insert n v d)"
proof -
  from assms obtain r where r: "d_table d = e_table e @ r"
    and c: "enc_table.consistent e" "dec_table.consistent d" "d_cap d = e_max e"
    by (auto simp: synced_def)
  obtain q where "fit (e_max e) (((n, v) # e_table e) @ r) = fit (e_max e) ((n, v) # e_table e) @ q"
    using fit_mono_prefix by blast
  then show ?thesis
    using assms enc_table.ins_spec [OF c(1), of n v] dec_table.ins_spec [OF c(2), of n v]
    by (simp add: synced_def r c(3) table_size_fit del: fit.simps)
qed

text \<open>The announced capacity, once the decoder has applied it.\<close>

lemma synced_signal:
  assumes "synced e d" and "e_signal e = Some n"
  shows "synced (e\<lparr>e_signal := None\<rparr>) (dec_evict_to_fit 0 (d\<lparr>d_cap := n\<rparr>))"
proof -
  from assms obtain r where r: "d_table d = e_table e @ r"
    and c: "enc_table.consistent e" "dec_table.consistent d" "n = e_max e"
      "table_size (e_table e) \<le> n"
    by (auto simp: synced_def)
  have "dec_table.consistent (d\<lparr>d_cap := n\<rparr>)" using c by (simp add: dec_table.consistent_def)
  from dec_table.evict_spec [OF this, of 0]
  have "dec_table.consistent (dec_evict_to_fit 0 (d\<lparr>d_cap := n\<rparr>))"
    "d_cap (dec_evict_to_fit 0 (d\<lparr>d_cap := n\<rparr>)) = n"
    "d_table (dec_evict_to_fit 0 (d\<lparr>d_cap := n\<rparr>)) = fit n (e_table e @ r)"
    by (simp_all add: r)
  with fit_keeps_prefix [OF c(4), of r] assms(1) c show ?thesis
    by (auto simp: synced_def enc_table.consistent_def)
qed

lemma synced_length: "synced e d \<Longrightarrow> length (e_table e) \<le> 1000"
  using table_size_length [of "e_table e"] by (simp add: synced_def)

lemma synced_entries: "synced e d \<Longrightarrow> \<exists>r. d_table d = e_table e @ r"
  by (simp add: synced_def)

lemma full_index_lookup:
  assumes "synced e d" and "combined_full_index e n v = Some idx"
  shows "dec_lookup d (ucast idx) = Inr (n, v)"
proof -
  obtain r where r: "d_table d = e_table e @ r" using synced_entries [OF assms(1)] by blast
  from assms(2) obtain i k where
    "position (\<lambda>(n', v'). n' = n \<and> v' = v) STATIC_TABLE = Some i \<and> k = i + 1 \<or>
     position (\<lambda>(n', v'). n' = n \<and> v' = v) (e_table e) = Some i \<and> k = length STATIC_TABLE + 1 + i"
    and "idx = of_nat k"
    by (fastforce simp: combined_full_index_def static_full_index_def split: option.splits)
  from position_lookup [OF this(1) r synced_length [OF assms(1)]] this(2) show ?thesis by auto
qed

lemma name_index_lookup:
  assumes "synced e d" and "combined_name_index e n = Some idx"
  shows "dec_lookup_name d (ucast idx) = Inr n" and "(ucast idx :: u64) \<noteq> 0"
proof -
  obtain r where r: "d_table d = e_table e @ r" using synced_entries [OF assms(1)] by blast
  from assms(2) obtain i k where
    "position (\<lambda>(n', _). n' = n) STATIC_TABLE = Some i \<and> k = i + 1 \<or>
     position (\<lambda>(n', _). n' = n) (e_table e) = Some i \<and> k = length STATIC_TABLE + 1 + i"
    and idx: "idx = of_nat k"
    by (fastforce simp: combined_name_index_def static_name_index_def split: option.splits)
  from position_lookup [OF this(1) r synced_length [OF assms(1)]] idx
  have "0 < unat idx" and "\<exists>f. dec_lookup d (ucast idx) = Inr f \<and> fst f = n" by auto
  then show "dec_lookup_name d (ucast idx) = Inr n" by (auto simp: dec_lookup_name_def)
  then show "(ucast idx :: u64) \<noteq> 0"
    by (auto simp: dec_lookup_name_def dec_lookup_def)
qed

subsection \<open>One field\<close>

text \<open>What the decoder makes of each representation the encoder emits, at any position.\<close>

lemma first_byte_at: "drop pos buf = (b # bs) @ rest \<Longrightarrow> pos < length buf \<and> buf ! pos = b"
proof -
  assume d: "drop pos buf = (b # bs) @ rest"
  then have "pos < length buf" by (metis append_Cons drop_all list.distinct(1) not_le)
  then show ?thesis using hd_drop_conv_nth [of pos buf] d by simp
qed

lemma drop_past: "drop pos buf = h @ rest \<Longrightarrow> drop (pos + length h) buf = rest"
  by (metis add.commute append_eq_conv_conj drop_drop)

lemma decode_size_update:
  assumes buf: "drop pos buf = or_first 0x20 (encode_int (of_nat n) 5) @ rest" and n: "n \<le> DYN_TABLE_CAP"
  shows "decode_field buf pos d =
    (Inr (None, pos + length (or_first 0x20 (encode_int (of_nat n) 5))),
     dec_evict_to_fit 0 (d\<lparr>d_cap := n\<rparr>))"
proof -
  let ?h = "or_first (2 ^ 5) (encode_int (of_nat n) 5)"
  obtain b bs where h: "?h = b # bs"
    and bits: "\<And>i. 5 \<le> i \<Longrightarrow> i < 8 \<Longrightarrow> bit b i \<longleftrightarrow> i = 5"
    by (rule or_first_bits [of 5 5 "of_nat n"]) simp_all
  have dec: "decode_int 5 (?h @ rest) = Inr (of_nat n, length ?h)" by (rule decode_or_first) simp_all
  have "buf ! pos = b" using first_byte_at [of pos buf b bs rest] buf h by simp
  moreover have "unat (of_nat n :: u64) = n" using n by (simp add: unat_of_nat)
  ultimately show ?thesis
    using buf dec bits [of 5] bits [of 6] bits [of 7] flag_bit [of b] n
    by (simp add: decode_field_def Let_def)
qed

lemma decode_indexed:
  assumes buf: "drop pos buf = or_first 0x80 (encode_int idx 7) @ rest"
    and f: "dec_lookup d idx = Inr f"
  shows "decode_field buf pos d = (Inr (Some f, pos + length (or_first 0x80 (encode_int idx 7))), d)"
proof -
  let ?h = "or_first (2 ^ 7) (encode_int idx 7)"
  obtain b bs where h: "?h = b # bs"
    and bits: "\<And>i. 7 \<le> i \<Longrightarrow> i < 8 \<Longrightarrow> bit b i \<longleftrightarrow> i = 7"
    by (rule or_first_bits [of 7 7 idx]) simp_all
  have dec: "decode_int 7 (?h @ rest) = Inr (idx, length ?h)" by (rule decode_or_first) simp_all
  have "buf ! pos = b" using first_byte_at [of pos buf b bs rest] buf h by simp
  then show ?thesis
    using buf dec bits [of 7] flag_bit [of b] f by (simp add: decode_field_def Let_def)
qed

text \<open>The three header bytes of a literal with incremental indexing share the flag \<open>0x40\<close>.\<close>

lemma decode_incremental:
  assumes buf: "drop pos buf = h @ body @ rest" and "h = b # bs"
    and flags: "\<not> bit b 7" "bit b 6"
    and idx: "decode_int 6 (h @ body @ rest) = Inr (idx, length h)"
    and name: "read_name buf (pos + length h) idx d = Inr (n, pos')"
    and val: "read_string buf pos' = Inr (v, pos'')"
  shows "decode_field buf pos d = (Inr (Some (n, v), pos''), dec_insert n v d)"
proof -
  have "buf ! pos = b" using first_byte_at [of pos buf b bs "body @ rest"] assms(1,2) by simp
  then show ?thesis
    using flags flag_bit [of b] idx name val by (simp add: decode_field_def Let_def buf)
qed

lemma encode_int_0_6: "encode_int 0 6 = [0]"
  by (simp add: encode_int_def max_prefix_def)

lemma bit_40: "bit (0x40 :: byte) i \<longleftrightarrow> i = 6"
proof -
  have "(0x40 :: byte) = 2 ^ 6" by simp
  then show ?thesis by (simp only: bit_exp_iff) auto
qed

lemma decode_literal_name:
  assumes buf: "drop pos buf = encode_literal_string (encode_literal_string [0x40] n) v @ rest"
      "length buf < 2 ^ 63"
    and s: "valid_str n" "valid_str v"
  shows "decode_field buf pos d =
    (Inr (Some (n, v), pos + length (encode_literal_string (encode_literal_string [0x40] n) v)),
     dec_insert n v d)"
proof -
  let ?n = "encode_literal_string [] n" and ?v = "encode_literal_string [] v"
  have split: "encode_literal_string (encode_literal_string [0x40] n) v = [0x40] @ ?n @ ?v"
    by (metis encode_literal_string_append append_assoc)
  have b: "drop pos buf = [0x40] @ (?n @ ?v) @ rest" using buf(1) split by simp
  have n: "drop (pos + 1) buf = ?n @ (?v @ rest)" using drop_past [OF b] by simp
  have v: "drop (pos + 1 + length ?n) buf = ?v @ rest" by (rule drop_past [OF n])
  have zero: "decode_int 6 ([0x40] @ (?n @ ?v) @ rest) = Inr (0, 1)"
    using decode_or_first [of 6 6 0 "(?n @ ?v) @ rest"] by (simp add: encode_int_0_6 or_first_def)
  have "decode_field buf pos d = (Inr (Some (n, v), pos + 1 + length ?n + length ?v), dec_insert n v d)"
  proof (rule decode_incremental [OF b refl])
    show "decode_int 6 ([0x40] @ (?n @ ?v) @ rest) = Inr (0, length [0x40 :: byte])"
      using zero by simp
    show "read_name buf (pos + length [0x40 :: byte]) 0 d = Inr (n, pos + 1 + length ?n)"
      using read_encode_literal [OF n buf(2) s(1)] by (simp add: read_name_def)
    show "read_string buf (pos + 1 + length ?n) = Inr (v, pos + 1 + length ?n + length ?v)"
      by (rule read_encode_literal [OF v buf(2) s(2)])
  qed (simp_all add: bit_40)
  then show ?thesis by (simp add: split)
qed

lemma decode_indexed_name:
  assumes buf: "drop pos buf = encode_literal_string (or_first 0x40 (encode_int idx 6)) v @ rest"
      "length buf < 2 ^ 63"
    and n: "dec_lookup_name d idx = Inr n" "idx \<noteq> 0" and s: "valid_str v"
  shows "decode_field buf pos d =
    (Inr (Some (n, v), pos + length (encode_literal_string (or_first 0x40 (encode_int idx 6)) v)),
     dec_insert n v d)"
proof -
  let ?h = "or_first (2 ^ 6) (encode_int idx 6)" and ?v = "encode_literal_string [] v"
  have split: "encode_literal_string (or_first 0x40 (encode_int idx 6)) v = ?h @ ?v"
    using encode_literal_string_append [of ?h v] by simp
  have b: "drop pos buf = ?h @ ?v @ rest" using buf(1) split by simp
  have v: "drop (pos + length ?h) buf = ?v @ rest" by (rule drop_past [OF b])
  obtain b bs where h: "?h = b # bs"
    and bits: "\<And>i. 6 \<le> i \<Longrightarrow> i < 8 \<Longrightarrow> bit b i \<longleftrightarrow> i = 6"
    by (rule or_first_bits [of 6 6 idx]) simp_all
  have "decode_field buf pos d = (Inr (Some (n, v), pos + length ?h + length ?v), dec_insert n v d)"
  proof (rule decode_incremental [OF b h])
    show "decode_int 6 (?h @ ?v @ rest) = Inr (idx, length ?h)" by (rule decode_or_first) simp_all
    show "read_name buf (pos + length ?h) idx d = Inr (n, pos + length ?h)"
      using n by (simp add: read_name_def)
    show "read_string buf (pos + length ?h) = Inr (v, pos + length ?h + length ?v)"
      by (rule read_encode_literal [OF v buf(2) s])
  qed (simp_all add: bits)
  then show ?thesis by (simp add: split)
qed

subsection \<open>Whole blocks\<close>

lemma encode_header_append:
  "encode_header out n v e = (out @ fst (encode_header [] n v e), snd (encode_header [] n v e))"
  by (simp add: encode_header_def Let_def encode_literal_string_append [of "out @ _"]
      encode_literal_string_append [of "_ # _"] encode_literal_string_append [of "or_first _ _"]
      encode_literal_string_append [of "_ @ _"]
      split: option.splits prod.splits)

lemma encode_headers_append:
  "encode_headers out fs e = (out @ fst (encode_headers [] fs e), snd (encode_headers [] fs e))"
proof (induction fs arbitrary: out e)
  case (Cons f fs)
  obtain n v where f: "f = (n, v)" by fastforce
  obtain o1 e1 where h: "encode_header [] n v e = (o1, e1)" by fastforce
  have "encode_headers out (f # fs) e = encode_headers (out @ o1) fs e1"
    using encode_header_append [of out n v e] by (simp add: f h)
  moreover have "encode_headers [] (f # fs) e = encode_headers o1 fs e1" by (simp add: f h)
  ultimately show ?case using Cons.IH [of "out @ o1" e1] Cons.IH [of o1 e1] by simp
qed simp

lemma decode_loop_field:
  assumes "decode_field buf pos d = (Inr (Some (n, v), q), d')" and "pos < length buf"
    and "list_size + entry_size n v \<le> MAX_DECODED_HEADER_LIST"
  shows "decode_loop buf pos d list_size out =
    decode_loop buf q d' (list_size + entry_size n v) (out @ [(n, v)])"
  using assms by (subst decode_loop.simps)
    (simp add: saturating_add_usize_def entry_size_def Let_def min_def add.assoc)

lemma decode_loop_update:
  assumes "decode_field buf pos d = (Inr (None, q), d')" and "pos < length buf"
  shows "decode_loop buf pos d list_size out = decode_loop buf q d' list_size out"
  using assms by (subst decode_loop.simps) simp

text \<open>A header emitted with no announcement pending.\<close>

lemma decode_encode_header_plain:
  assumes s: "synced e d" "e_signal e = None" "valid_str n" "valid_str v"
    and enc: "encode_header [] n v e = (bs, e')"
    and buf: "drop pos buf = bs @ rest" "length buf < 2 ^ 63"
  shows "\<exists>d'. decode_field buf pos d = (Inr (Some (n, v), pos + length bs), d') \<and>
    pos < length buf \<and> synced e' d' \<and> e_signal e' = None"
proof -
  consider (full) idx where "combined_full_index e n v = Some idx"
      "bs = or_first 0x80 (encode_int (ucast idx) 7)" "e' = e"
    | (name) idx where "combined_name_index e n = Some idx"
      "bs = encode_literal_string (or_first 0x40 (encode_int (ucast idx) 6)) v" "e' = enc_insert n v e"
    | (literal) "bs = encode_literal_string (encode_literal_string [0x40] n) v" "e' = enc_insert n v e"
    using enc s(2)
    by (cases "combined_full_index e n v"; cases "combined_name_index e n")
      (simp_all add: encode_header_def)
  then have "\<exists>d'. decode_field buf pos d = (Inr (Some (n, v), pos + length bs), d') \<and> synced e' d'"
  proof cases
    case full
    then show ?thesis
      using decode_indexed [of pos buf "ucast idx" rest d "(n, v)"] buf(1) s(1)
        full_index_lookup [OF s(1) full(1)] by auto
  next
    case name
    then show ?thesis
      using decode_indexed_name [of pos buf "ucast idx" v rest d n] buf s
        name_index_lookup [OF s(1) name(1)] synced_insert [OF s(1,2)] by auto
  next
    case literal
    then show ?thesis
      using decode_literal_name [of pos buf n v rest d] buf s synced_insert [OF s(1,2)] by auto
  qed
  then obtain d' where d': "decode_field buf pos d = (Inr (Some (n, v), pos + length bs), d')"
    "synced e' d'" by blast
  have "pos < pos + length bs" using decode_field_progress [OF d'(1)] .
  then have "bs \<noteq> []" by auto
  then have "pos < length buf" using buf(1) by (metis append_is_Nil_conv drop_all not_le)
  moreover have "e_signal e' = None"
    using enc s(2) by (auto simp: encode_header_def split: option.splits)
  ultimately show ?thesis using d' by blast
qed

lemma decode_encode_header:
  assumes s: "synced e d" "valid_str n" "valid_str v"
    and enc: "encode_header [] n v e = (bs, e')"
    and buf: "drop pos buf = bs @ rest" "length buf < 2 ^ 63"
    and size: "list_size + entry_size n v \<le> MAX_DECODED_HEADER_LIST"
  shows "\<exists>d'. decode_loop buf pos d list_size out =
      decode_loop buf (pos + length bs) d' (list_size + entry_size n v) (out @ [(n, v)]) \<and>
    synced e' d' \<and> e_signal e' = None"
proof (cases "e_signal e")
  case None
  with decode_encode_header_plain [OF s(1) None s(2,3) enc buf] decode_loop_field [OF _ _ size]
  show ?thesis by blast
next
  case (Some k)
  let ?h = "or_first 0x20 (encode_int (of_nat k) 5)" and ?e = "e\<lparr>e_signal := None\<rparr>"
  let ?d = "dec_evict_to_fit 0 (d\<lparr>d_cap := k\<rparr>)"
  have k: "k \<le> DYN_TABLE_CAP" using s(1) Some by (simp add: synced_def)
  obtain bs' where plain: "encode_header [] n v ?e = (bs', e')" "bs = ?h @ bs'"
  proof -
    have "encode_header [] n v e = encode_header ?h n v ?e"
      using Some by (simp add: encode_header_def)
    with enc encode_header_append [of ?h n v ?e] that show thesis
      by (cases "encode_header [] n v ?e") auto
  qed
  have b: "drop pos buf = ?h @ (bs' @ rest)" using buf(1) plain(2) by simp
  note field = decode_size_update [OF b k, of d]
  have h: "?h \<noteq> []" using decode_field_progress [OF field] by auto
  then have "pos < length buf" using b by (metis append_is_Nil_conv drop_all not_le)
  then have "decode_loop buf pos d list_size out = decode_loop buf (pos + length ?h) ?d list_size out"
    by (rule decode_loop_update [OF field])
  moreover obtain d' where
    "decode_field buf (pos + length ?h) ?d = (Inr (Some (n, v), pos + length ?h + length bs'), d')"
    "pos + length ?h < length buf" "synced e' d'" "e_signal e' = None"
    using decode_encode_header_plain [OF synced_signal [OF s(1) Some] _ s(2,3) plain(1) drop_past [OF b] buf(2)]
    by auto
  ultimately show ?thesis
    using decode_loop_field [OF _ _ size] plain(2) by (auto simp: add.assoc)
qed

lemma decode_encode_headers:
  "synced e d \<Longrightarrow> (\<And>n v. (n, v) \<in> set fs \<Longrightarrow> valid_str n \<and> valid_str v) \<Longrightarrow>
     drop pos buf = fst (encode_headers [] fs e) \<Longrightarrow> length buf < 2 ^ 63 \<Longrightarrow> pos \<le> length buf \<Longrightarrow>
     list_size + table_size fs \<le> MAX_DECODED_HEADER_LIST \<Longrightarrow>
     \<exists>d'. decode_loop buf pos d list_size out = (Inr (out @ fs), d') \<and>
       synced (snd (encode_headers [] fs e)) d'"
proof (induction fs arbitrary: e d pos list_size out)
  case Nil
  then show ?case by (simp add: decode_loop.simps)
next
  case (Cons f fs)
  obtain n v where f: "f = (n, v)" by fastforce
  obtain bs e1 where h: "encode_header [] n v e = (bs, e1)" by fastforce
  have enc: "encode_headers [] (f # fs) e
      = (bs @ fst (encode_headers [] fs e1), snd (encode_headers [] fs e1))"
    using encode_headers_append [of bs fs e1] by (simp add: f h)
  have b: "drop pos buf = bs @ fst (encode_headers [] fs e1)" using Cons.prems(3) enc by simp
  have v: "valid_str n" "valid_str v" using Cons.prems(2) [of n v] f by auto
  have size: "list_size + entry_size n v \<le> MAX_DECODED_HEADER_LIST"
    using Cons.prems(6) by (simp add: f)
  obtain d1 where d1: "decode_loop buf pos d list_size out =
      decode_loop buf (pos + length bs) d1 (list_size + entry_size n v) (out @ [(n, v)])"
    "synced e1 d1"
    using decode_encode_header [OF Cons.prems(1) v h b Cons.prems(4) size] by blast
  have "pos + length bs \<le> length buf" using arg_cong [OF b, of length] Cons.prems(5) by simp
  then have "\<exists>d'. decode_loop buf (pos + length bs) d1 (list_size + entry_size n v) (out @ [(n, v)])
      = (Inr ((out @ [(n, v)]) @ fs), d') \<and> synced (snd (encode_headers [] fs e1)) d'"
    using Cons.prems(2,4,6) drop_past [OF b]
    by (intro Cons.IH [OF d1(2)]) (auto simp: f add.assoc)
  then show ?case unfolding d1(1) enc by (simp add: f)
qed

text \<open>A block is at most twice as long as its fields, so it fits a buffer when they fit the limit.\<close>

lemma length_encode_literal_string: "length (encode_literal_string [] s) \<le> 11 + length s"
  using length_encode_int [of "of_nat (length (huffman_encode (bytes_of s)))" 7]
    length_encode_int [of "of_nat (length s)" 7]
  by (simp add: encode_literal_string_def Let_def or_first_def and_first_def)

lemma length_or_first [simp]: "length (or_first f bs) = length bs"
  by (simp add: or_first_def)

lemma length_literal_at:
  "length (encode_literal_string out s) \<le> length out + 11 + length s"
  using length_encode_literal_string [of s] by (subst encode_literal_string_append) simp

lemma length_literal_after:
  "length out \<le> k \<Longrightarrow> length (encode_literal_string out s) \<le> k + 11 + length s"
  using length_literal_at [of out s] by linarith

lemma length_encode_header_plain:
  assumes "e_signal e = None"
  shows "length (fst (encode_header out n v e)) \<le> length out + 23 + length n + length v"
proof (cases "combined_full_index e n v")
  case (Some i)
  then show ?thesis
    using assms length_encode_int [of "ucast i" 7] by (simp add: encode_header_def)
next
  case None
  show ?thesis
  proof (cases "combined_name_index e n")
    case (Some i)
    have "length (out @ or_first 0x40 (encode_int (ucast i) 6)) \<le> length out + 11"
      using length_encode_int [of "ucast i" 6] by simp
    from length_literal_after [OF this, of v] show ?thesis
      using assms None Some by (simp add: encode_header_def)
  next
    case none: None
    have "length (out @ [0x40]) \<le> length out + 1" by simp
    from length_literal_after [OF length_literal_after [OF this, of n], of v] show ?thesis
      using assms None none by (simp add: encode_header_def)
  qed
qed

lemma length_encode_header: "length (fst (encode_header [] n v e)) \<le> 2 * entry_size n v"
proof (cases "e_signal e")
  case None
  with length_encode_header_plain [OF None, of "[]" n v] show ?thesis by (simp add: entry_size_def)
next
  case (Some k)
  let ?h = "or_first 0x20 (encode_int (of_nat k) 5)"
  have "encode_header [] n v e = encode_header ?h n v (e\<lparr>e_signal := None\<rparr>)"
    using Some by (simp add: encode_header_def)
  then show ?thesis
    using length_encode_header_plain [of "e\<lparr>e_signal := None\<rparr>" ?h n v] length_encode_int [of "of_nat k" 5]
    by (simp add: entry_size_def)
qed

lemma length_encode_headers: "length (fst (encode_headers [] fs e)) \<le> 2 * table_size fs"
proof (induction fs arbitrary: e)
  case (Cons f fs)
  obtain n v where f: "f = (n, v)" by fastforce
  obtain bs e1 where h: "encode_header [] n v e = (bs, e1)" by fastforce
  have "length bs \<le> 2 * entry_size n v" using length_encode_header [of n v e] by (simp add: h)
  with Cons.IH [of e1] encode_headers_append [of bs fs e1] show ?case by (simp add: f h)
qed simp

text \<open>The block the encoder writes decodes to the fields, and the pair stays in step.\<close>

lemma decode_block_encode_headers:
  assumes "synced e d" and "\<And>n v. (n, v) \<in> set fs \<Longrightarrow> valid_str n \<and> valid_str v"
    and "encode_headers [] fs e = (block, e')" and "table_size fs \<le> MAX_DECODED_HEADER_LIST"
  shows "\<exists>d'. decode_block block d = (Inr fs, d') \<and> synced e' d'"
proof -
  have "length block \<le> 2 * table_size fs" using length_encode_headers [of fs e] assms(3) by simp
  then have "length block < 2 ^ 63" using assms(4) by simp
  then show ?thesis
    using decode_encode_headers [OF assms(1,2), of fs 0 block 0 "[]"] assms(3,4)
    by (simp add: decode_block_def)
qed

subsection \<open>Any input leaves the decoder within its bounds\<close>

text \<open>What holds of the decoder between blocks, whatever the peer sends.\<close>

definition decoder_ok :: "decoder \<Rightarrow> bool" where
  "decoder_ok d \<longleftrightarrow> dec_table.consistent d \<and> d_size d \<le> d_cap d \<and> d_cap d \<le> DYN_TABLE_CAP"

lemma decoder_ok_new: "decoder_ok decoder_new"
  by (simp add: decoder_ok_def decoder_new_def dec_table.consistent_def)

lemma decoder_ok_insert: "decoder_ok d \<Longrightarrow> decoder_ok (dec_insert n v d)"
  using dec_table.ins_spec [of d n v] dec_table.ins_bounded [of d n v] by (simp add: decoder_ok_def)

lemma decoder_ok_resize:
  assumes "decoder_ok d" and "c \<le> DYN_TABLE_CAP"
  shows "decoder_ok (dec_evict_to_fit 0 (d\<lparr>d_cap := c\<rparr>))"
proof -
  have "dec_table.consistent (d\<lparr>d_cap := c\<rparr>)"
    using assms(1) by (simp add: decoder_ok_def dec_table.consistent_def)
  from dec_table.evict_spec [OF this, of 0] assms(2) table_size_fit [of c "d_table d"]
  show ?thesis by (simp add: decoder_ok_def dec_table.consistent_def)
qed

lemma bindS_pair: "snd (bindS (r, s) f) = (case r of Inl e \<Rightarrow> s | Inr x \<Rightarrow> snd (f x s))"
  by (cases r) simp_all

lemma decoder_ok_field:
  assumes "decoder_ok d"
  shows "decoder_ok (snd (decode_field buf pos d))"
proof -
  have ins: "decoder_ok (snd (bindS (r, d)
      (\<lambda>(name, val, pos) d. (Inr (Some (name, val), pos), dec_insert name val d))))" for r :: "(string \<times> string \<times> nat) result"
    using assms by (simp add: bindS_pair decoder_ok_insert split: sum.split prod.split)
  have size: "decoder_ok (snd (bindS (r, d) (\<lambda>(new_size, n) d.
      (Inr (None, pos + n), dec_evict_to_fit 0 (d\<lparr>d_cap := min (unat new_size) DYN_TABLE_CAP\<rparr>)))))"
      for r :: "(u64 \<times> nat) result"
    using assms by (simp add: bindS_pair decoder_ok_resize split: sum.split prod.split)
  show ?thesis
    unfolding decode_field_def Let_def
    by (simp only: if_distrib [of snd] if_distrib [of decoder_ok] snd_conv assms ins size if_cancel)
qed

lemma decode_loop_done: "\<not> pos < length buf \<Longrightarrow> decode_loop buf pos d list_size out = (Inr out, d)"
  by (subst decode_loop.simps) simp

text \<open>The loop as a chain of cases on its first field.\<close>

lemma decode_loop_cases:
  assumes "pos < length buf"
  obtains (failed) e d1 where "decode_field buf pos d = (Inl e, d1)"
      "decode_loop buf pos d list_size out = (Inl e, d1)"
    | (resized) q d1 where "decode_field buf pos d = (Inr (None, q), d1)"
      "decode_loop buf pos d list_size out = decode_loop buf q d1 list_size out"
    | (overflow) n v q d1 where "decode_field buf pos d = (Inr (Some (n, v), q), d1)"
      "list_size + entry_size n v > MAX_DECODED_HEADER_LIST"
      "decode_loop buf pos d list_size out
         = (Inl (BadResponse ''hpack: decoded header list exceeds limit''), d1)"
    | (field) n v q d1 where "decode_field buf pos d = (Inr (Some (n, v), q), d1)"
      "list_size + entry_size n v \<le> MAX_DECODED_HEADER_LIST"
      "decode_loop buf pos d list_size out =
         decode_loop buf q d1 (list_size + entry_size n v) (out @ [(n, v)])"
proof (cases "decode_field buf pos d")
  case (Pair r d1)
  show ?thesis
  proof (cases r)
    case (Inl e)
    then show ?thesis using Pair assms by (intro failed) (auto simp: decode_loop.simps [of buf pos])
  next
    case (Inr xq)
    then consider q where "r = Inr (None, q)" | n v q where "r = Inr (Some (n, v), q)"
      by (cases xq; cases "fst xq") auto
    then show ?thesis
    proof cases
      case 1
      then show ?thesis using Pair decode_loop_update [OF _ assms] resized by simp
    next
      case 2
      show ?thesis
      proof (cases "list_size + entry_size n v \<le> MAX_DECODED_HEADER_LIST")
        case True
        then show ?thesis using 2 Pair decode_loop_field [OF _ assms True] field by simp
      next
        case False
        have "decode_loop buf pos d list_size out
            = (Inl (BadResponse ''hpack: decoded header list exceeds limit''), d1)"
          using False 2 Pair assms
          by (subst decode_loop.simps)
            (simp add: saturating_add_usize_def entry_size_def Let_def min_def)
        with False 2 Pair overflow show ?thesis by simp
      qed
    qed
  qed
qed

lemma decoder_ok_loop:
  "decoder_ok d \<Longrightarrow> decoder_ok (snd (decode_loop buf pos d list_size out))"
proof (induction "length buf - pos" arbitrary: pos d list_size out rule: less_induct)
  case less
  show ?case
  proof (cases "pos < length buf")
    case True
    have ok: "decoder_ok (snd (decode_field buf pos d))" by (rule decoder_ok_field [OF less.prems])
    have step: "length buf - q < length buf - pos" if "decode_field buf pos d = (Inr (x, q), d1)" for x q d1
      using decode_field_progress [OF that] True by simp
    show ?thesis
      by (rule decode_loop_cases [OF True, of d list_size out])
        (use ok step less.hyps in \<open>auto\<close>)
  next
    case False
    then show ?thesis using less.prems by (simp add: decode_loop_done)
  qed
qed

lemma decoder_ok_block: "decoder_ok d \<Longrightarrow> decoder_ok (snd (decode_block buf d))"
  by (simp add: decode_block_def decoder_ok_loop)

text \<open>A block that decodes has a header list within the limit, however well it was compressed.\<close>

lemma decode_loop_bounded:
  "decode_loop buf pos d list_size out = (Inr fs, d') \<Longrightarrow> table_size out = list_size \<Longrightarrow>
     list_size \<le> MAX_DECODED_HEADER_LIST \<Longrightarrow> table_size fs \<le> MAX_DECODED_HEADER_LIST"
proof (induction "length buf - pos" arbitrary: pos d list_size out rule: less_induct)
  case less
  show ?case
  proof (cases "pos < length buf")
    case True
    have step: "length buf - q < length buf - pos" if "decode_field buf pos d = (Inr (x, q), d1)" for x q d1
      using decode_field_progress [OF that] True by simp
    show ?thesis
      by (rule decode_loop_cases [OF True, of d list_size out])
        (use less.prems less.hyps [OF step] in \<open>auto\<close>)
  next
    case False
    then show ?thesis using less.prems by (simp add: decode_loop_done)
  qed
qed

lemma decode_block_bounded:
  "decode_block buf d = (Inr fs, d') \<Longrightarrow> table_size fs \<le> MAX_DECODED_HEADER_LIST"
  unfolding decode_block_def by (erule decode_loop_bounded) simp_all

subsection \<open>Properties\<close>

text \<open>Whatever block a peer sends, the decoder answers and its table stays within its capacity of at most
  4096 octets with a truthful size; a block it accepts holds at most 256 KiB of header fields.\<close>

lemma hpack_decoder_bounded:
  assumes "decoder_ok d"
  shows "decoder_ok (snd (decode_block buf d)) \<and>
    (\<forall>fs. fst (decode_block buf d) = Inr fs \<longrightarrow> table_size fs \<le> MAX_DECODED_HEADER_LIST)"
  using decoder_ok_block [OF assms] decode_block_bounded [of buf d]
  by (metis surjective_pairing)

lemma hpack_decoder_bounded_witness: "decoder_ok (snd (decode_block [0x3f, 0xe1, 0x3f, 0x82] decoder_new))"
  using hpack_decoder_bounded [OF decoder_ok_new] by blast

end
