(* ===== verification/H2_Stream.thy ===== *)
theory H2_Stream
  imports H2_Flow H2_Settings Hpack
begin

text \<open>
  HTTP/2 streams (\<open>enum StreamState\<close>, \<open>struct Stream\<close> of \<open>src/src/http2.rs\<close>): the client's view of
  the RFC 9113 5.1 life cycle and the per-stream record.  The abstract specification is a pair of
  half-channels, one per direction, each open or closed; the code's five-state machine refines it:
  an operation is accepted exactly when its half-channel is open, and closes it exactly on
  END\_STREAM.  \<open>stream_step\<close> is the life cycle as a step relation, with its reachable states.
\<close>

subsection \<open>The state machine\<close>

datatype stream_state = Idle | Open | HalfClosedLocal | HalfClosedRemote | Closed

fun send_data :: "stream_state \<Rightarrow> bool \<Rightarrow> stream_state result" where
  "send_data Idle end_stream = Inr (if end_stream then HalfClosedLocal else Open)"
| "send_data Open end_stream = Inr (if end_stream then HalfClosedLocal else Open)"
| "send_data HalfClosedRemote end_stream = Inr (if end_stream then Closed else HalfClosedRemote)"
| "send_data HalfClosedLocal end_stream =
     Inl (BadResponse ''internal: tried to send DATA in stream state {self:?}'')"
| "send_data Closed end_stream =
     Inl (BadResponse ''internal: tried to send DATA in stream state {self:?}'')"

fun recv_data :: "stream_state \<Rightarrow> bool \<Rightarrow> stream_state result" where
  "recv_data Open end_stream = Inr (if end_stream then HalfClosedRemote else Open)"
| "recv_data HalfClosedLocal end_stream = Inr (if end_stream then Closed else HalfClosedLocal)"
| "recv_data Idle end_stream =
     Inl (BadResponse ''received DATA in stream state {self:?} (RFC 9113 5.1)'')"
| "recv_data HalfClosedRemote end_stream =
     Inl (BadResponse ''received DATA in stream state {self:?} (RFC 9113 5.1)'')"
| "recv_data Closed end_stream =
     Inl (BadResponse ''received DATA in stream state {self:?} (RFC 9113 5.1)'')"

fun recv_headers :: "stream_state \<Rightarrow> bool \<Rightarrow> stream_state result" where
  "recv_headers Open end_stream = Inr (if end_stream then HalfClosedRemote else Open)"
| "recv_headers HalfClosedLocal end_stream = Inr (if end_stream then Closed else HalfClosedLocal)"
| "recv_headers Closed end_stream = Inr Closed"
| "recv_headers Idle end_stream =
     Inl (BadResponse ''received HEADERS in stream state {self:?} (RFC 9113 5.1)'')"
| "recv_headers HalfClosedRemote end_stream =
     Inl (BadResponse ''received HEADERS in stream state {self:?} (RFC 9113 5.1)'')"

fun recv_rst :: "stream_state \<Rightarrow> stream_state result" where
  "recv_rst Idle = Inl (BadResponse ''RST_STREAM on idle stream (RFC 9113 5.1)'')"
| "recv_rst _ = Inr Closed"

fun_cases send_data_ok: "send_data s e = Inr t"
fun_cases recv_data_ok: "recv_data s e = Inr t"
fun_cases recv_headers_ok: "recv_headers s e = Inr t"
fun_cases recv_rst_ok: "recv_rst s = Inr t"

subsection \<open>Two half-channels\<close>

text \<open>
  What a state says of each direction: may the client still send, may the peer.  An idle stream has
  not reached the peer, which therefore must not send on it.
\<close>

fun may_send :: "stream_state \<Rightarrow> bool" where
  "may_send s \<longleftrightarrow> s = Idle \<or> s = Open \<or> s = HalfClosedRemote"

fun may_receive :: "stream_state \<Rightarrow> bool" where
  "may_receive s \<longleftrightarrow> s = Open \<or> s = HalfClosedLocal"

lemma send_data_refines:
  "(case send_data s e of
      Inr t \<Rightarrow> may_send s \<and> may_send t = (\<not> e) \<and>
        (s \<noteq> Idle \<longrightarrow> may_receive t = may_receive s) \<and> (s = Idle \<longrightarrow> may_receive t) \<and> t \<noteq> Idle
    | Inl _ \<Rightarrow> \<not> may_send s)"
  by (cases s) simp_all

lemma recv_data_refines:
  "(case recv_data s e of
      Inr t \<Rightarrow> may_receive s \<and> may_receive t = (\<not> e) \<and> may_send t = may_send s \<and> t \<noteq> Idle
    | Inl _ \<Rightarrow> \<not> may_receive s)"
  by (cases s) simp_all

text \<open>HEADERS follow the same rule, except that a closed stream swallows them.\<close>

lemma recv_headers_refines:
  "(case recv_headers s e of
      Inr t \<Rightarrow> s = Closed \<and> t = Closed \<or>
        may_receive s \<and> may_receive t = (\<not> e) \<and> may_send t = may_send s \<and> t \<noteq> Idle
    | Inl _ \<Rightarrow> s \<noteq> Closed \<and> \<not> may_receive s)"
  by (cases s) simp_all

subsection \<open>The life cycle as a step relation\<close>

datatype stream_event = SendData bool | RecvHeaders bool | RecvData bool | RecvRst | Abandon

text \<open>\<open>Abandon\<close> is what a GOAWAY below the stream's id does to it.\<close>

inductive stream_step :: "stream_state \<Rightarrow> stream_event \<Rightarrow> stream_state \<Rightarrow> bool" where
  sends: "send_data s e = Inr t \<Longrightarrow> stream_step s (SendData e) t"
| receives_headers: "recv_headers s e = Inr t \<Longrightarrow> stream_step s (RecvHeaders e) t"
| receives_data: "recv_data s e = Inr t \<Longrightarrow> stream_step s (RecvData e) t"
| is_reset: "recv_rst s = Inr t \<Longrightarrow> stream_step s RecvRst t"
| is_abandoned: "stream_step s Abandon Closed"

inductive_cases stream_stepE: "stream_step s ev t"
inductive_cases sendE: "stream_step s (SendData e) t"
inductive_cases recvE: "stream_step s (RecvData e) t"

inductive stream_run :: "stream_state \<Rightarrow> stream_event list \<Rightarrow> stream_state \<Rightarrow> bool" where
  run_nil: "stream_run s [] s"
| run_step: "stream_step s ev t \<Longrightarrow> stream_run t evs u \<Longrightarrow> stream_run s (ev # evs) u"

inductive_simps stream_run_Nil: "stream_run s [] u"
inductive_simps stream_run_Cons: "stream_run s (ev # evs) u"

fun closes_local :: "stream_event \<Rightarrow> bool" where
  "closes_local (SendData e) = e"
| "closes_local _ = False"

lemma step_may_send:
  "stream_step s ev t \<Longrightarrow> may_send t \<Longrightarrow> may_send s \<and> \<not> closes_local ev"
  by (erule stream_stepE)
    (auto elim: send_data_ok recv_data_ok recv_headers_ok recv_rst_ok split: if_splits)

lemma step_may_receive:
  "stream_step s ev t \<Longrightarrow> may_receive t \<Longrightarrow> s = Idle \<or> may_receive s"
  by (erule stream_stepE)
    (auto elim: send_data_ok recv_data_ok recv_headers_ok recv_rst_ok split: if_splits)

lemma step_not_idle: "stream_step s ev t \<Longrightarrow> t \<noteq> Idle"
  by (erule stream_stepE)
    (auto elim: send_data_ok recv_data_ok recv_headers_ok recv_rst_ok split: if_splits)

text \<open>Along any run END\_STREAM is sent at most once, and nothing is sent after it.\<close>

lemma run_may_send:
  "stream_run s evs u \<Longrightarrow> may_send u \<Longrightarrow> may_send s \<and> (\<forall>ev\<in>set evs. \<not> closes_local ev)"
  by (induction rule: stream_run.induct) (auto dest: step_may_send)

lemma run_no_data_after_end:
  "stream_run s (evs @ SendData e # evs') u \<Longrightarrow> \<forall>ev\<in>set evs. \<not> closes_local ev"
proof (induction evs arbitrary: s)
  case (Cons ev evs)
  from Cons.prems obtain t where t: "stream_step s ev t" "stream_run t (evs @ SendData e # evs') u"
    by (auto simp: stream_run_Cons)
  have rest: "\<forall>ev\<in>set evs. \<not> closes_local ev" using Cons.IH [OF t(2)] .
  have "may_send t"
  proof -
    have "\<exists>v. stream_run t evs v \<and> may_send v"
      using t(2)
    proof (induction evs arbitrary: t)
      case Nil
      then obtain w where "stream_step t (SendData e) w" by (auto simp: stream_run_Cons)
      then have "may_send t" by (auto elim!: sendE send_data_ok)
      then show ?case by (auto simp: stream_run_Nil)
    next
      case (Cons ev' evs)
      then show ?case by (fastforce simp: stream_run_Cons)
    qed
    then show ?thesis using run_may_send by blast
  qed
  with step_may_send [OF t(1)] rest show ?case by simp
qed simp

lemma closed_stays: "stream_run s evs u \<Longrightarrow> s = Closed \<Longrightarrow> u = Closed"
  by (induction rule: stream_run.induct)
    (auto elim!: stream_stepE elim: send_data_ok recv_data_ok recv_headers_ok recv_rst_ok)

subsection \<open>The stream record\<close>

abbreviation (input) MAX_HEADERS_BUF :: nat where "MAX_HEADERS_BUF \<equiv> 256 * 1024"
abbreviation (input) MAX_RESPONSE_BYTES :: nat where "MAX_RESPONSE_BYTES \<equiv> 256 * 1024 * 1024"

record pending_body =
  pb_bytes :: bytes
  pb_sent :: nat

record stream =
  st_id :: u32
  st_state :: stream_state
  st_send_window :: stream_send_window
  st_recv_window :: stream_recv_window
  st_headers_buf :: bytes
  st_response_headers :: "field list option"
  st_body :: bytes
  st_end_stream_recv :: bool
  st_pending_body :: "pending_body option"

definition stream_new :: "u32 \<Rightarrow> int \<Rightarrow> stream" where
  "stream_new i initial_peer_window =
     \<lparr>st_id = i, st_state = Idle, st_send_window = stream_send_window_new initial_peer_window,
      st_recv_window = stream_recv_window_new, st_headers_buf = [], st_response_headers = None,
      st_body = [], st_end_stream_recv = False, st_pending_body = None\<rparr>"

definition send_budget :: "stream \<Rightarrow> conn_send_window \<Rightarrow> int" where
  "send_budget s w = min (ssw_available (st_send_window s)) (csw_available w)"

definition push_header_fragment :: "bytes \<Rightarrow> stream \<Rightarrow> stream result" where
  "push_header_fragment frag s =
     (if saturating_add_usize (length (st_headers_buf s)) (length frag) > MAX_HEADERS_BUF
      then Inl (BadResponse ''header block exceeds size limit (CONTINUATION flood?)'')
      else Inr (s\<lparr>st_headers_buf := st_headers_buf s @ frag\<rparr>))"

text \<open>The terminal condition the handlers and the drivers test.\<close>

definition stream_done :: "stream \<Rightarrow> bool" where
  "stream_done s \<longleftrightarrow> (st_state s = Closed \<or> st_state s = HalfClosedRemote) \<and>
     st_end_stream_recv s \<and> st_response_headers s \<noteq> None"

text \<open>Bounds every stream keeps, whatever the peer sends.\<close>

definition stream_ok :: "stream \<Rightarrow> bool" where
  "stream_ok s \<longleftrightarrow>
     ssw_ok (st_send_window s) \<and>
     srw_initial (st_recv_window s) = OUR_INITIAL_WINDOW \<and>
     srw_available (st_recv_window s) \<le> OUR_INITIAL_WINDOW \<and>
     length (st_headers_buf s) \<le> MAX_HEADERS_BUF \<and>
     length (st_body s) \<le> MAX_RESPONSE_BYTES \<and>
     (case st_response_headers s of None \<Rightarrow> True
      | Some fs \<Rightarrow> table_size fs \<le> MAX_DECODED_HEADER_LIST)"

lemma stream_ok_new: "0 \<le> w \<Longrightarrow> w \<le> WINDOW_MAX \<Longrightarrow> stream_ok (stream_new i w)"
  by (simp add: stream_ok_def stream_new_def ssw_ok_new stream_recv_window_new_def)

lemma push_header_fragment_ok:
  assumes "push_header_fragment frag s = Inr s'"
  shows "s' = s\<lparr>st_headers_buf := st_headers_buf s @ frag\<rparr>"
    and "length (st_headers_buf s') \<le> MAX_HEADERS_BUF"
  using assms
  by (auto simp: push_header_fragment_def saturating_add_usize_def min_def split: if_splits)

lemma stream_ok_push: "push_header_fragment frag s = Inr s' \<Longrightarrow> stream_ok s \<Longrightarrow> stream_ok s'"
  using push_header_fragment_ok [of frag s s'] by (auto simp: stream_ok_def)

subsection \<open>Properties\<close>

text \<open>C7: The five-state stream machine refines two half-channels: DATA is accepted for sending (receiving)
  exactly when that half is open, END\_STREAM and nothing else closes it, and the other half is untouched;
  HEADERS behave like DATA on a stream that is not closed and are swallowed on one that is.\<close>

theorem stream_machine_refines_half_channels:
  "(case send_data s e of
      Inr t \<Rightarrow> may_send s \<and> may_send t = (\<not> e) \<and> may_receive t = (s = Idle \<or> may_receive s) \<and> t \<noteq> Idle
    | Inl _ \<Rightarrow> \<not> may_send s) \<and>
   (case recv_data s e of
      Inr t \<Rightarrow> may_receive s \<and> may_receive t = (\<not> e) \<and> may_send t = may_send s \<and> t \<noteq> Idle
    | Inl _ \<Rightarrow> \<not> may_receive s) \<and>
   recv_headers s e = (if s = Closed then Inr Closed else case recv_data s e of
      Inr t \<Rightarrow> Inr t
    | Inl _ \<Rightarrow> Inl (BadResponse ''received HEADERS in stream state {self:?} (RFC 9113 5.1)''))"
  by (cases s) simp_all

text \<open>Along every run of a stream, whatever the peer does in between, no DATA is accepted for sending after
  a DATA with END\_STREAM.\<close>

lemma no_data_after_end_stream:
  assumes "stream_run s (evs @ SendData e # evs') u"
  shows "SendData True \<notin> set evs"
  using run_no_data_after_end [OF assms] by auto

lemma no_data_after_end_stream_witness:
  "stream_run Idle ([SendData False, RecvHeaders False] @ SendData True # [RecvData True]) Closed \<and>
     SendData True \<notin> set [SendData False, RecvHeaders False]"
proof -
  have "stream_run Idle ([SendData False, RecvHeaders False] @ SendData True # [RecvData True]) Closed"
    by (auto simp: stream_run_Cons stream_run_Nil intro!: exI stream_step.intros)
  with no_data_after_end_stream [OF this] show ?thesis by blast
qed

end
