(* ===== verification/Url.thy ===== *)
theory Url
  imports Rust_Str
begin

text \<open>
  URLs (\<open>src/src/url.rs\<close>): \<open>Url::parse\<close> with its authority splitting and injection checks, the default
  port table, \<open>is_tls\<close>, and redirect resolution.  \<open>url_safe\<close> is what every accepted network URL
  guarantees to the code that pastes its fields into request lines and \<open>Host\<close> headers.
\<close>

record url =
  u_scheme :: string
  u_userinfo :: "string option"
  u_host :: string
  u_port :: u16
  u_path :: string

definition default_port :: "string \<Rightarrow> u16 option" where
  "default_port scheme =
     (if scheme = ''http'' \<or> scheme = ''ws'' then Some 80
      else if scheme = ''https'' \<or> scheme = ''wss'' then Some 443
      else if scheme = ''ftp'' then Some 21
      else if scheme = ''ftps'' then Some 990
      else if scheme = ''dict'' then Some 2628
      else if scheme = ''gopher'' \<or> scheme = ''gophers'' then Some 70
      else if scheme = ''imap'' then Some 143
      else if scheme = ''imaps'' then Some 993
      else if scheme = ''ldap'' then Some 389
      else if scheme = ''ldaps'' then Some 636
      else if scheme = ''mqtt'' then Some 1883
      else if scheme = ''mqtts'' then Some 8883
      else if scheme = ''pop3'' then Some 110
      else if scheme = ''pop3s'' then Some 995
      else if scheme = ''rtsp'' then Some 554
      else if scheme = ''tftp'' then Some 69
      else if scheme = ''sftp'' \<or> scheme = ''scp'' then Some 22
      else None)"

text \<open>A byte below 0x20, DEL or a space.\<close>

definition forbidden_char :: "char \<Rightarrow> bool" where
  "forbidden_char c \<longleftrightarrow> (of_char c :: nat) < 0x20 \<or> (of_char c :: nat) = 0x7f \<or> c = CHR '' ''"

definition reject_forbidden :: "string \<Rightarrow> string \<Rightarrow> unit result" where
  "reject_forbidden field original =
     (if \<exists>c\<in>set field. forbidden_char c then Inl (InvalidUrl original) else Inr ())"

text \<open>Host, port and whether the host is a bracketed literal, from \<open>host[:port]\<close>.\<close>

definition split_hostport :: "string \<Rightarrow> u16 \<Rightarrow> string \<Rightarrow> (string \<times> u16 \<times> bool) result" where
  "split_hostport s dport hostport =
     (case find_char (CHR '']'') hostport of
        Some close \<Rightarrow>
          if \<not> starts_with ''['' hostport then Inl (InvalidUrl s)
          else let after = drop (close + 1) hostport in
            bindR (if after = [] then Inr dport
                   else case strip_prefix '':'' after of
                          Some p \<Rightarrow>
                            (case parse_u16 p of Some port \<Rightarrow> Inr port | None \<Rightarrow> Inl (InvalidUrl s))
                        | None \<Rightarrow> Inl (InvalidUrl s))
              (\<lambda>port. Inr (take (close + 1) hostport, port, True))
      | None \<Rightarrow>
          if starts_with ''['' hostport then Inl (InvalidUrl s)
          else case rfind_char (CHR '':'') hostport of
                 Some i \<Rightarrow>
                   (case parse_u16 (drop (i + 1) hostport) of
                      Some p \<Rightarrow> Inr (take i hostport, p, False)
                    | None \<Rightarrow> Inl (InvalidUrl s))
               | None \<Rightarrow> Inr (hostport, dport, False))"

definition strip_fragment :: "string \<Rightarrow> string" where
  "strip_fragment path = (case find_char (CHR ''#'') path of Some i \<Rightarrow> take i path | None \<Rightarrow> path)"

definition parse_file_url :: "string \<Rightarrow> string \<Rightarrow> url result" where
  "parse_file_url s scheme =
     (case strip_prefix ''file://'' s of
        Some p \<Rightarrow>
          if starts_with ''/'' p
          then Inr \<lparr>u_scheme = scheme, u_userinfo = None, u_host = [], u_port = 0,
                    u_path = strip_fragment p\<rparr>
          else Inl (InvalidUrl s)
      | None \<Rightarrow> Inl (InvalidUrl s))"

text \<open>The part of \<open>Url::parse\<close> from the default port on.\<close>

definition parse_network_url :: "string \<Rightarrow> string \<Rightarrow> string \<Rightarrow> string \<Rightarrow> url result" where
  "parse_network_url s scheme authority path =
     (case default_port scheme of
        None \<Rightarrow> Inl (UnsupportedScheme scheme)
      | Some dport \<Rightarrow>
          let (userinfo, hostport) =
            (case rfind_char (CHR ''@'') authority of
               Some i \<Rightarrow> (Some (take i authority), drop (i + 1) authority)
             | None \<Rightarrow> (None, authority))
          in bindR (split_hostport s dport hostport) (\<lambda>(host, port, bracketed).
            if host = [] then Inl (InvalidUrl s)
            else if port = 0 then Inl (InvalidUrl s)
            else bindR (reject_forbidden host s) (\<lambda>_.
              if \<not> bracketed \<and> (\<exists>c\<in>set host. c = CHR 0x5C \<or> c = CHR ''%'') then Inl (InvalidUrl s)
              else bindR (case userinfo of
                            Some info \<Rightarrow>
                              bindR (reject_forbidden info s) (\<lambda>_.
                                if \<exists>c\<in>set info. c = CHR 0x5C then Inl (InvalidUrl s) else Inr ())
                          | None \<Rightarrow> Inr ())
                (\<lambda>_. bindR (reject_forbidden path s) (\<lambda>_.
                  Inr \<lparr>u_scheme = scheme, u_userinfo = userinfo, u_host = host, u_port = port,
                       u_path = path\<rparr>)))))"

definition url_parse :: "string \<Rightarrow> url result" where
  "url_parse s =
     (case split_once ''://'' s of
        None \<Rightarrow> Inl (InvalidUrl s)
      | Some (scheme, rest) \<Rightarrow>
          if scheme = [] then Inl (InvalidUrl s)
          else let scheme = to_ascii_lowercase scheme;
                   (authority, path) =
                     (case find_char (CHR ''/'') rest of
                        Some i \<Rightarrow> (take i rest, drop i rest)
                      | None \<Rightarrow> (rest, ''/''))
            in if scheme = ''file'' then parse_file_url s scheme
               else if authority = [] then Inl (InvalidUrl s)
               else parse_network_url s scheme authority (strip_fragment path))"

definition is_tls :: "url \<Rightarrow> bool" where
  "is_tls u \<longleftrightarrow> u_scheme u \<in> {''https'', ''ftps'', ''imaps'', ''pop3s'', ''ldaps'', ''gophers'', ''mqtts'', ''wss''}"

definition scheme_char :: "char \<Rightarrow> bool" where
  "scheme_char c \<longleftrightarrow>
     (let n = of_char c :: nat in
      48 \<le> n \<and> n \<le> 57 \<or> 65 \<le> n \<and> n \<le> 90 \<or> 97 \<le> n \<and> n \<le> 122
      \<or> c = CHR ''+'' \<or> c = CHR ''-'' \<or> c = CHR ''.'')"

text \<open>The relative forms of a redirect target, composed with the base.\<close>

definition resolve_relative :: "url \<Rightarrow> string \<Rightarrow> url result" where
  "resolve_relative base loc =
     (let loc_no_frag = strip_fragment loc;
          default_p = (case default_port (u_scheme base) of Some p \<Rightarrow> p | None \<Rightarrow> 0);
          authority = (if u_port base \<noteq> default_p
                       then u_host base @ '':'' @ show_nat (unat (u_port base)) else u_host base)
      in if starts_with ''/'' loc_no_frag
         then url_parse (u_scheme base @ ''://'' @ authority @ loc_no_frag)
         else let base_path_no_query =
                (case find_char (CHR ''?'') (u_path base) of
                   Some i \<Rightarrow> take i (u_path base) | None \<Rightarrow> u_path base);
                dir = (case rfind_char (CHR ''/'') base_path_no_query of
                         Some i \<Rightarrow> take (i + 1) base_path_no_query | None \<Rightarrow> ''/'')
              in url_parse (u_scheme base @ ''://'' @ authority @ dir @ loc_no_frag))"

definition url_resolve :: "url \<Rightarrow> string \<Rightarrow> url result" where
  "url_resolve base location =
     (let loc = trim location in
      if loc = [] then Inl (InvalidUrl ''empty Location'')
      else case find_str ''://'' loc of
             Some idx \<Rightarrow>
               if take idx loc \<noteq> [] \<and> (\<forall>c\<in>set (take idx loc). scheme_char c) then url_parse loc
               else (case strip_prefix ''//'' loc of
                       Some rest \<Rightarrow> url_parse (u_scheme base @ ''://'' @ rest)
                     | None \<Rightarrow> resolve_relative base loc)
           | None \<Rightarrow>
               (case strip_prefix ''//'' loc of
                  Some rest \<Rightarrow> url_parse (u_scheme base @ ''://'' @ rest)
                | None \<Rightarrow> resolve_relative base loc))"

subsection \<open>What an accepted URL guarantees\<close>

definition clean :: "string \<Rightarrow> bool" where
  "clean s \<longleftrightarrow> (\<forall>c\<in>set s. \<not> forbidden_char c)"

text \<open>
  No field can end a line or a token of the request line, the port is a real one, the host has
  no authority delimiter, and the path is absolute and has no fragment.
\<close>

definition url_safe :: "url \<Rightarrow> bool" where
  "url_safe u \<longleftrightarrow>
     u_host u \<noteq> [] \<and> u_port u \<noteq> 0 \<and> default_port (u_scheme u) \<noteq> None \<and>
     clean (u_host u) \<and> clean (u_path u) \<and>
     CHR ''/'' \<notin> set (u_host u) \<and> CHR ''@'' \<notin> set (u_host u) \<and>
     (hd (u_host u) \<noteq> CHR ''['' \<longrightarrow> CHR 0x5C \<notin> set (u_host u) \<and> CHR ''%'' \<notin> set (u_host u)) \<and>
     (case u_userinfo u of None \<Rightarrow> True | Some i \<Rightarrow> clean i \<and> CHR 0x5C \<notin> set i \<and> CHR ''/'' \<notin> set i) \<and>
     starts_with ''/'' (u_path u) \<and> CHR ''#'' \<notin> set (u_path u)"

lemma reject_forbidden_ok [simp]: "reject_forbidden f s = Inr () \<longleftrightarrow> clean f"
  by (auto simp: reject_forbidden_def clean_def)

lemma bind_reject [simp]:
  "bindR (reject_forbidden f s) g = Inr y \<longleftrightarrow> clean f \<and> g () = Inr y"
  by (auto simp: bindR_eq_Inr)

lemma strip_fragment_spec: "\<exists>r. p = strip_fragment p @ r" "CHR ''#'' \<notin> set (strip_fragment p)"
  by (auto simp: strip_fragment_def find_char_None split: option.splits dest: find_char_SomeD)
    (metis append_take_drop_id)

lemma strip_fragment_id: "CHR ''#'' \<notin> set p \<Longrightarrow> strip_fragment p = p"
  using find_char_None [of "CHR ''#''" p] by (simp add: strip_fragment_def)

lemma starts_with_one: "starts_with [c] s \<longleftrightarrow> s \<noteq> [] \<and> hd s = c"
  by (cases s) (auto simp: starts_with_def)

text \<open>Authority splitting: the host is a prefix of the host-and-port part.\<close>

lemma split_hostport_ok:
  assumes "split_hostport s dport hp = Inr (host, port, bracketed)"
  shows "\<exists>r. hp = host @ r" and "host \<noteq> [] \<Longrightarrow> bracketed = (hd host = CHR ''['')"
proof -
  have "(\<exists>r. hp = host @ r) \<and> (host \<noteq> [] \<longrightarrow> bracketed = (hd host = CHR ''[''))"
  proof (cases "find_char (CHR '']'') hp")
    case None
    with assms have hp: "hp \<noteq> [] \<longrightarrow> hd hp \<noteq> CHR ''[''" and "\<not> bracketed"
      and "\<exists>i. host = take i hp"
      by (auto simp: split_hostport_def starts_with_one split: if_splits option.splits
          intro: exI [of _ "length hp"])
    then obtain i where "host = take i hp" by blast
    then have "hp = host @ drop i hp" by simp
    then show ?thesis using hp \<open>\<not> bracketed\<close> by (metis hd_append2 append_is_Nil_conv)
  next
    case (Some close)
    with assms have "host = take (close + 1) hp" "bracketed" "starts_with ''['' hp"
      by (auto simp: split_hostport_def bindR_eq_Inr Let_def split: if_splits)
    then show ?thesis by (auto simp: starts_with_one intro: exI [of _ "drop (close + 1) hp"])
  qed
  then show "\<exists>r. hp = host @ r" "host \<noteq> [] \<Longrightarrow> bracketed = (hd host = CHR ''['')" by auto
qed

lemma parse_network_url_safe:
  assumes "parse_network_url s scheme authority path = Inr u"
    and "CHR ''/'' \<notin> set authority" and "starts_with ''/'' path" and "CHR ''#'' \<notin> set path"
  shows "url_safe u"
proof -
  obtain dport where d: "default_port scheme = Some dport"
    using assms(1) by (cases "default_port scheme") (auto simp: parse_network_url_def)
  define ui_hp where "ui_hp = (case rfind_char (CHR ''@'') authority of
      Some i \<Rightarrow> (Some (take i authority), drop (i + 1) authority) | None \<Rightarrow> (None, authority))"
  obtain ui hp where uh: "ui_hp = (ui, hp)" by fastforce
  have hp: "CHR ''@'' \<notin> set hp" "set hp \<subseteq> set authority" "\<forall>i. ui = Some i \<longrightarrow> set i \<subseteq> set authority"
    using uh rfind_char_None [of "CHR ''@''" authority]
    by (auto simp: ui_hp_def split: option.splits dest: rfind_char_SomeD in_set_dropD in_set_takeD)
  from assms(1) obtain host port br where sp: "split_hostport s dport hp = Inr (host, port, br)"
    and checks: "host \<noteq> []" "port \<noteq> 0" "clean host" "br \<or> (\<forall>c\<in>set host. c \<noteq> CHR 0x5C \<and> c \<noteq> CHR ''%'')"
      "\<forall>i. ui = Some i \<longrightarrow> clean i \<and> CHR 0x5C \<notin> set i" "clean path"
    and u: "u = \<lparr>u_scheme = scheme, u_userinfo = ui, u_host = host, u_port = port, u_path = path\<rparr>"
    unfolding parse_network_url_def d ui_hp_def [symmetric] uh
    by (auto simp: bindR_eq_Inr split: if_splits option.splits)
  obtain r where "hp = host @ r" using split_hostport_ok(1) [OF sp] by blast
  then have "set host \<subseteq> set hp" by auto
  then show ?thesis
    using checks assms(2-4) hp split_hostport_ok(2) [OF sp] d
    by (auto simp: url_safe_def u split: option.splits)
qed

lemma url_parse_safe:
  assumes "url_parse s = Inr u" and "u_scheme u \<noteq> ''file''"
  shows "url_safe u"
proof -
  obtain sch rest where so: "split_once ''://'' s = Some (sch, rest)" "sch \<noteq> []"
    using assms(1) by (auto simp: url_parse_def split: option.splits if_splits)
  define ap where "ap = (case find_char (CHR ''/'') rest of
      Some i \<Rightarrow> (take i rest, drop i rest) | None \<Rightarrow> (rest, ''/''))"
  obtain authority path where ap': "ap = (authority, path)" by fastforce
  have a: "CHR ''/'' \<notin> set authority" and "starts_with ''/'' path"
    using ap' find_char_None [of "CHR ''/''" rest]
    by (auto simp: ap_def starts_with_one hd_drop_conv_nth split: option.splits dest: find_char_SomeD)
  then have p: "starts_with ''/'' (strip_fragment path)"
  proof -
    obtain q where q: "path = CHR ''/'' # q"
      using \<open>starts_with ''/'' path\<close> by (cases path) (auto simp: starts_with_one)
    obtain r where "path = strip_fragment path @ r" using strip_fragment_spec(1) by blast
    moreover have "strip_fragment path \<noteq> []"
      using q by (auto simp: strip_fragment_def find_char_def split: option.splits)
    ultimately show ?thesis using q by (cases "strip_fragment path") (auto simp: starts_with_one)
  qed
  have "to_ascii_lowercase sch \<noteq> ''file''"
  proof
    assume "to_ascii_lowercase sch = ''file''"
    with assms so show False
      by (auto simp: url_parse_def parse_file_url_def Let_def split: option.splits if_splits prod.splits)
  qed
  with assms(1) so have "parse_network_url s (to_ascii_lowercase sch) authority (strip_fragment path) = Inr u"
    unfolding url_parse_def so(1) Let_def ap_def [symmetric] ap' by (simp add: ap_def [symmetric] ap' split: if_splits)
  from parse_network_url_safe [OF this a p strip_fragment_spec(2)] show ?thesis .
qed

subsection \<open>Composing and parsing back\<close>

text \<open>\<open>url_to_string\<close> of \<open>src/src/http.rs\<close>.\<close>

definition url_to_string :: "url \<Rightarrow> string" where
  "url_to_string u =
     (if u_scheme u = ''http'' \<and> u_port u = 80 \<or> u_scheme u = ''https'' \<and> u_port u = 443
      then u_scheme u @ ''://'' @ u_host u @ u_path u
      else u_scheme u @ ''://'' @ u_host u @ '':'' @ show_nat (unat (u_port u)) @ u_path u)"

text \<open>Hosts that stand for themselves: a name without delimiters, or one bracketed literal.\<close>

definition host_wf :: "string \<Rightarrow> bool" where
  "host_wf h \<longleftrightarrow> h \<noteq> [] \<and> clean h \<and> CHR ''/'' \<notin> set h \<and> CHR ''@'' \<notin> set h \<and>
     (if hd h = CHR ''['' then find_char (CHR '']'') h = Some (length h - 1)
      else CHR '':'' \<notin> set h \<and> CHR '']'' \<notin> set h \<and> CHR 0x5C \<notin> set h \<and> CHR ''%'' \<notin> set h)"

definition path_wf :: "string \<Rightarrow> bool" where
  "path_wf p \<longleftrightarrow> starts_with ''/'' p \<and> clean p \<and> CHR ''#'' \<notin> set p"

lemma scheme_shape:
  assumes "default_port s = Some p"
  shows "s \<noteq> []" "CHR '':'' \<notin> set s" "to_ascii_lowercase s = s" "s \<noteq> ''file''"
proof -
  have known: "s \<in> {''http'', ''ws'', ''https'', ''wss'', ''ftp'', ''ftps'', ''dict'', ''gopher'', ''gophers'',
      ''imap'', ''imaps'', ''ldap'', ''ldaps'', ''mqtt'', ''mqtts'', ''pop3'', ''pop3s'', ''rtsp'',
      ''tftp'', ''sftp'', ''scp''}"
    (is "_ \<in> ?S")
  proof (rule ccontr)
    assume "s \<notin> ?S"
    then have "default_port s = None" by (simp add: default_port_def)
    with assms show False by simp
  qed
  then show "s \<noteq> []" "CHR '':'' \<notin> set s" "to_ascii_lowercase s = s" "s \<noteq> ''file''"
    by (elim insertE; simp add: to_ascii_lowercase_def ascii_lower_def; fail)+
qed

lemma digit_not:
  assumes "c \<in> set (show_nat n)"
  shows "c \<noteq> CHR ''/''" "c \<noteq> CHR ''@''" "c \<noteq> CHR '':''" "c \<noteq> CHR '']''"
  using show_nat_digits [OF assms] by auto

lemma find_char_prefix: "find_char c xs = Some i \<Longrightarrow> find_char c (xs @ ys) = Some i"
  by (simp add: find_char_def position_append)

lemma split_hostport_plain:
  assumes "host_wf h"
  shows "split_hostport s d h = Inr (h, d, hd h = CHR ''['')"
proof (cases "hd h = CHR ''[''")
  case True
  with assms show ?thesis
    by (auto simp: host_wf_def split_hostport_def starts_with_one)
next
  case False
  then have "find_char (CHR '']'') h = None" "rfind_char (CHR '':'') h = None"
    using assms by (simp_all add: host_wf_def find_char_None rfind_char_None)
  with False assms show ?thesis
    by (simp add: split_hostport_def starts_with_one host_wf_def)
qed

lemma split_hostport_port:
  fixes p :: u16
  assumes "host_wf h"
  shows "split_hostport s d (h @ '':'' @ show_nat (unat p)) = Inr (h, p, hd h = CHR ''['')"
proof (cases "hd h = CHR ''[''")
  case True
  then have f: "find_char (CHR '']'') (h @ '':'' @ show_nat (unat p)) = Some (length h - 1)"
    using assms by (intro find_char_prefix) (simp add: host_wf_def)
  have "length h - 1 + 1 = length h" using assms by (cases h) (simp_all add: host_wf_def)
  moreover have "strip_prefix '':'' ('':'' @ show_nat (unat p)) = Some (show_nat (unat p))"
    by (rule strip_prefix_append)
  ultimately show ?thesis
    using True assms unfolding split_hostport_def f
    by (simp add: starts_with_one host_wf_def parse_u16_show)
next
  case False
  have "CHR '']'' \<notin> set (h @ '':'' @ show_nat (unat p))"
    using False assms digit_not(4) by (auto simp: host_wf_def)
  then have "find_char (CHR '']'') (h @ '':'' @ show_nat (unat p)) = None"
    by (simp only: find_char_None not_False_eq_True)
  moreover have "rfind_char (CHR '':'') (h @ '':'' @ show_nat (unat p)) = Some (length h)"
    using rfind_char_here [of "CHR '':''" "show_nat (unat p)" h] digit_not(3) by auto
  ultimately show ?thesis
    using False assms unfolding split_hostport_def
    by (simp add: starts_with_one host_wf_def parse_u16_show)
qed

text \<open>Parsing \<open>scheme://authority/path\<close>, given how the authority splits.\<close>

lemma url_parse_composed:
  assumes d: "default_port sch = Some dport" and a: "CHR ''/'' \<notin> set a" "CHR ''@'' \<notin> set a"
    and split: "\<And>s. split_hostport s dport a = Inr (h, p, hd h = CHR ''['')" "host_wf h" "p \<noteq> 0"
    and path: "path_wf path"
  shows "url_parse (sch @ ''://'' @ a @ path)
    = Inr \<lparr>u_scheme = sch, u_userinfo = None, u_host = h, u_port = p, u_path = path\<rparr>"
proof -
  let ?s = "sch @ ''://'' @ a @ path"
  obtain q where q: "path = CHR ''/'' # q"
    using path by (cases path) (auto simp: path_wf_def starts_with_one)
  have "split_once ''://'' ?s = Some (sch, a @ path)"
    using split_once_here [OF scheme_shape(2) [OF d], of "''//''" "a @ path"] by simp
  moreover have "find_char (CHR ''/'') (a @ path) = Some (length a)"
    using find_char_here [OF a(1), of q] by (simp add: q)
  moreover have "a \<noteq> []"
    using split(1) [of "[]"] split(2) by (auto simp: split_hostport_def host_wf_def find_char_def rfind_char_def starts_with_def)
  moreover have "rfind_char (CHR ''@'') a = None" using a(2) by (simp add: rfind_char_None)
  moreover have "clean h" "clean path" "h \<noteq> []"
    "hd h \<noteq> CHR ''['' \<longrightarrow> CHR 0x5C \<notin> set h \<and> CHR ''%'' \<notin> set h"
    using split(2) path by (auto simp: host_wf_def path_wf_def)
  ultimately show ?thesis
    using scheme_shape [OF d] d path split(3)
    by (auto simp: url_parse_def parse_network_url_def split(1) path_wf_def strip_fragment_id bindR_eq_Inr)
qed

lemma url_parse_compose_plain:
  assumes "default_port sch = Some dport" "host_wf h" "path_wf path" "dport \<noteq> 0"
  shows "url_parse (sch @ ''://'' @ h @ path)
    = Inr \<lparr>u_scheme = sch, u_userinfo = None, u_host = h, u_port = dport, u_path = path\<rparr>"
proof (rule url_parse_composed [OF assms(1) _ _ split_hostport_plain [OF assms(2)] assms(2,4,3)])
  show "CHR ''/'' \<notin> set h" "CHR ''@'' \<notin> set h" using assms(2) by (simp_all add: host_wf_def)
qed

lemma url_parse_compose_port:
  assumes "default_port sch = Some dport" "host_wf h" "path_wf path" "p \<noteq> 0"
  shows "url_parse (sch @ ''://'' @ h @ '':'' @ show_nat (unat p) @ path)
    = Inr \<lparr>u_scheme = sch, u_userinfo = None, u_host = h, u_port = p, u_path = path\<rparr>"
proof -
  let ?a = "h @ '':'' @ show_nat (unat p)"
  have "CHR ''/'' \<notin> set ?a" "CHR ''@'' \<notin> set ?a"
    using assms(2) digit_not(1,2) by (auto simp: host_wf_def)
  then have "url_parse (sch @ ''://'' @ ?a @ path)
      = Inr \<lparr>u_scheme = sch, u_userinfo = None, u_host = h, u_port = p, u_path = path\<rparr>"
    using assms by (intro url_parse_composed [OF assms(1)] split_hostport_port)
  then show ?thesis by (simp only: append_assoc)
qed

text \<open>A URL whose parts stand for themselves.\<close>

definition url_wf :: "url \<Rightarrow> bool" where
  "url_wf u \<longleftrightarrow> default_port (u_scheme u) \<noteq> None \<and> host_wf (u_host u) \<and> path_wf (u_path u) \<and>
     u_port u \<noteq> 0 \<and> u_userinfo u = None"

lemma url_parse_to_string: "url_wf u \<Longrightarrow> url_parse (url_to_string u) = Inr u"
proof -
  assume wf: "url_wf u"
  then obtain dport where d: "default_port (u_scheme u) = Some dport" by (auto simp: url_wf_def)
  show ?thesis
  proof (cases "u_scheme u = ''http'' \<and> u_port u = 80 \<or> u_scheme u = ''https'' \<and> u_port u = 443")
    case True
    then have "dport = u_port u" using d by (auto simp: default_port_def)
    with True wf d url_parse_compose_plain [OF d, of "u_host u" "u_path u"] show ?thesis
      by (simp add: url_to_string_def url_wf_def)
  next
    case False
    then have "url_to_string u
        = u_scheme u @ ''://'' @ u_host u @ '':'' @ show_nat (unat (u_port u)) @ u_path u"
      unfolding url_to_string_def by (rule if_not_P)
    with wf url_parse_compose_port [OF d, of "u_host u" "u_path u" "u_port u"] show ?thesis
      by (simp add: url_wf_def)
  qed
qed

text \<open>A redirect to an absolute path stays on the authority of the base.\<close>

lemma resolve_relative_absolute_path:
  assumes "url_wf u" and "path_wf p"
  shows "resolve_relative u p = Inr (u\<lparr>u_path := p\<rparr>)"
proof -
  obtain dport where d: "default_port (u_scheme u) = Some dport" using assms(1) by (auto simp: url_wf_def)
  have "u\<lparr>u_path := p\<rparr> = \<lparr>u_scheme = u_scheme u, u_userinfo = None, u_host = u_host u,
      u_port = u_port u, u_path = p\<rparr>"
    using assms(1) by (simp add: url_wf_def)
  moreover have "starts_with ''/'' p" "strip_fragment p = p"
    using assms(2) by (simp_all add: path_wf_def strip_fragment_id)
  ultimately show ?thesis
    using assms d url_parse_compose_plain [OF d, of "u_host u" p]
      url_parse_compose_port [OF d, of "u_host u" p "u_port u"]
    by (auto simp: resolve_relative_def url_wf_def)
qed

subsection \<open>Properties\<close>

text \<open>What evaluates the parser on literals.\<close>

lemmas url_eval = str_eval url_parse_def parse_network_url_def split_hostport_def strip_fragment_def
  default_port_def reject_forbidden_def forbidden_char_def



text \<open>Writing a well-formed URL with \<open>url_to_string\<close> and parsing the text gives the URL back.\<close>

lemma url_text_roundtrip:
  assumes "url_wf u"
  shows "url_parse (url_to_string u) = Inr u"
  by (rule url_parse_to_string [OF assms])

lemma url_text_roundtrip_witness:
  "url_parse (url_to_string \<lparr>u_scheme = ''https'', u_userinfo = None, u_host = ''h.org'', u_port = 8443, u_path = ''/a''\<rparr>)
     = Inr \<lparr>u_scheme = ''https'', u_userinfo = None, u_host = ''h.org'', u_port = 8443, u_path = ''/a''\<rparr>"
  by (rule url_text_roundtrip) code_simp

text \<open>A redirect to an absolute path keeps scheme, host and port of the request and replaces the path.\<close>

lemma redirect_stays_on_origin:
  assumes "url_wf u" and "path_wf p" and "find_str ''://'' p = None" and "trim p = p"
    and "strip_prefix ''//'' p = None"
  shows "url_resolve u p = Inr (u\<lparr>u_path := p\<rparr>)"
proof -
  have "p \<noteq> []" using assms(2) by (auto simp: path_wf_def starts_with_one)
  with assms resolve_relative_absolute_path [OF assms(1,2)] show ?thesis
    by (simp add: url_resolve_def)
qed

lemma redirect_stays_on_origin_witness:
  "url_resolve \<lparr>u_scheme = ''http'', u_userinfo = None, u_host = ''h'', u_port = 81, u_path = ''/a/b?q''\<rparr> ''/c''
     = Inr \<lparr>u_scheme = ''http'', u_userinfo = None, u_host = ''h'', u_port = 81, u_path = ''/c''\<rparr>"
  using redirect_stays_on_origin
    [of "\<lparr>u_scheme = ''http'', u_userinfo = None, u_host = ''h'', u_port = 81, u_path = ''/a/b?q''\<rparr>" "''/c''"]
  by (simp add: url_eval url_wf_def host_wf_def path_wf_def clean_def)

text \<open>A fragment or a query right after the authority is not split off: it becomes part of the host,
  although the documentation of the parser says that fragments are stripped.\<close>

lemma url_fragment_in_host:
  "map_sum (\<lambda>_. ()) u_host (url_parse ''http://h#f'') = Inr ''h#f'' \<and>
   map_sum (\<lambda>_. ()) u_host (url_parse ''http://h?q=1'') = Inr ''h?q=1''"
  by code_simp

end
