(* ===== verification/Http_Types.thy ===== *)
theory Http_Types
  imports Url
begin

text \<open>
  HTTP requests and responses (\<open>src/src/http.rs\<close>): \<open>struct Request\<close> with its builder methods,
  \<open>ProxyConfig\<close>, \<open>struct Response\<close>, the proxy and pooling decisions, and Basic authentication with
  its base64 encoder (\<open>base64_encode\<close> of \<open>src/src/websocket.rs\<close>).
\<close>

subsection \<open>Base64\<close>

definition ALPHA :: string where
  "ALPHA = ''ABCDEFGHIJKLMNOPQRSTUVWXYZabcdefghijklmnopqrstuvwxyz0123456789+/''"

definition alpha :: "byte \<Rightarrow> char" where
  "alpha b = ALPHA ! unat b"

text \<open>The loop over whole triples, and the one or two bytes left at the end.\<close>

fun base64_encode :: "bytes \<Rightarrow> string" where
  "base64_encode (b0 # b1 # b2 # rest) =
     alpha (drop_bit 2 b0)
     # alpha (push_bit 4 (b0 AND 0x03) OR drop_bit 4 b1)
     # alpha (push_bit 2 (b1 AND 0x0F) OR drop_bit 6 b2)
     # alpha (b2 AND 0x3F)
     # base64_encode rest"
| "base64_encode [b0, b1] =
     [alpha (drop_bit 2 b0), alpha (push_bit 4 (b0 AND 0x03) OR drop_bit 4 b1),
      alpha (push_bit 2 (b1 AND 0x0F)), CHR ''='']"
| "base64_encode [b0] =
     [alpha (drop_bit 2 b0), alpha (push_bit 4 (b0 AND 0x03)), CHR ''='', CHR ''='']"
| "base64_encode [] = []"

lemma length_base64_encode: "length (base64_encode bs) = 4 * ((length bs + 2) div 3)"
proof (induction bs rule: base64_encode.induct)
  case (1 b0 b1 b2 rest)
  have "(length (b0 # b1 # b2 # rest) + 2) div 3 = Suc ((length rest + 2) div 3)"
    using div_add_self2 [of 3 "length rest + 2"] by simp
  then show ?case using 1 by simp
qed simp_all

lemma length_ALPHA: "length ALPHA = 64"
  by (simp add: ALPHA_def)

lemma alpha_in: "unat b < 64 \<Longrightarrow> alpha b \<in> set ALPHA"
  by (simp add: alpha_def length_ALPHA)

lemma sextet_bits: "unat (w :: byte) < 64 \<longleftrightarrow> \<not> bit w 6 \<and> \<not> bit w 7"
proof -
  have "unat w < 64 \<longleftrightarrow> take_bit 6 (unat w) = unat w"
    using take_bit_nat_eq_self_iff [of 6 "unat w"] by simp
  also have "\<dots> \<longleftrightarrow> (\<forall>n. bit w n \<longrightarrow> n < 6)"
    by (auto simp: bit_eq_iff bit_take_bit_iff bit_unsigned_iff)
  also have "\<dots> \<longleftrightarrow> \<not> bit w 6 \<and> \<not> bit w 7"
  proof -
    have "bit w n \<Longrightarrow> n < 8" for n using bit_imp_le_length [of w n] by simp
    then have "bit w n \<Longrightarrow> n < 6 \<or> n = 6 \<or> n = 7" for n by fastforce
    then show ?thesis by force
  qed
  finally show ?thesis .
qed

lemma mask_bits: "(b :: byte) AND 0x03 = take_bit 2 b" "b AND 0x0F = take_bit 4 b" "b AND 0x3F = take_bit 6 b"
  by (simp_all add: take_bit_eq_mask mask_numeral)

lemma sextets:
  "unat (drop_bit 2 b0 :: byte) < 64"
  "unat (push_bit 4 (b0 AND 0x03) OR drop_bit 4 b1 :: byte) < 64"
  "unat (push_bit 2 (b1 AND 0x0F) OR drop_bit 6 b2 :: byte) < 64"
  "unat (b2 AND 0x3F :: byte) < 64"
  "unat (push_bit 4 (b0 AND 0x03) :: byte) < 64"
  "unat (push_bit 2 (b1 AND 0x0F) :: byte) < 64"
  unfolding mask_bits sextet_bits
  by (auto simp: bit_drop_bit_eq bit_or_iff bit_push_bit_iff bit_take_bit_iff dest: bit_imp_le_length)

lemma base64_alphabet: "set (base64_encode bs) \<subseteq> insert (CHR ''='') (set ALPHA)"
  by (induction bs rule: base64_encode.induct)
    (simp_all only: base64_encode.simps list.set insert_subset empty_subsetI alpha_in sextets
      insert_iff simp_thms)

lemma base64_clean: "clean (base64_encode bs)"
proof -
  have "\<forall>c\<in>insert (CHR ''='') (set ALPHA). \<not> forbidden_char c"
    by (simp add: ALPHA_def forbidden_char_def)
  with base64_alphabet show ?thesis by (auto simp: clean_def)
qed

subsection \<open>Requests and responses\<close>

datatype http_version_pref = Auto | Http11Only | Http2Only | Http3 | Http3Only

text \<open>A \<open>Duration\<close>, in nanoseconds.\<close>

type_synonym duration = nat

definition from_secs :: "nat \<Rightarrow> duration" where
  "from_secs n = n * 1000000000"

record proxy_config =
  pc_host :: string
  pc_port :: u16
  pc_auth :: "(string \<times> string) option"

record request =
  rq_method :: string
  rq_url :: url
  rq_headers :: "(string \<times> string) list"
  rq_body :: bytes
  rq_connect_timeout :: "duration option"
  rq_read_timeout :: "duration option"
  rq_http_version_pref :: http_version_pref
  rq_follow_redirects :: bool
  rq_max_redirs :: u32
  rq_basic_auth :: "(string \<times> string) option"
  rq_verify_tls :: bool
  rq_ca_bundle :: "string option"
  rq_max_time :: "duration option"
  rq_proxy :: "proxy_config option"
  rq_no_proxy :: "string list"

record response =
  rs_status :: u16
  rs_reason :: string
  rs_version :: string
  rs_headers :: "(string \<times> string) list"
  rs_body :: bytes

definition contains_str :: "string \<Rightarrow> string \<Rightarrow> bool" where
  "contains_str p s \<longleftrightarrow> find_str p s \<noteq> None"

definition split_userinfo :: "string \<Rightarrow> string \<times> string" where
  "split_userinfo info = (case split_once '':'' info of Some (u, p) \<Rightarrow> (u, p) | None \<Rightarrow> (info, []))"

definition proxy_config_parse :: "string \<Rightarrow> proxy_config result" where
  "proxy_config_parse s =
     (let normalised = (if contains_str ''://'' s then s else ''http://'' @ s) in
      bindR (url_parse normalised) (\<lambda>u.
        if u_scheme u \<noteq> ''http''
        then Inl (UnsupportedScheme ''proxy scheme {:?} not supported (only http:// at this milestone)'')
        else Inr \<lparr>pc_host = u_host u, pc_port = u_port u,
                  pc_auth = map_option split_userinfo (u_userinfo u)\<rparr>))"

definition request_new :: "string \<Rightarrow> string \<Rightarrow> request result" where
  "request_new meth url =
     bindR (url_parse url) (\<lambda>u. Inr
       \<lparr>rq_method = to_ascii_uppercase meth, rq_url = u, rq_headers = [], rq_body = [],
        rq_connect_timeout = Some (from_secs 30), rq_read_timeout = Some (from_secs 60),
        rq_http_version_pref = Auto, rq_follow_redirects = False, rq_max_redirs = 50,
        rq_basic_auth = None, rq_verify_tls = True, rq_ca_bundle = None, rq_max_time = None,
        rq_proxy = None, rq_no_proxy = []\<rparr>)"

definition request_header :: "string \<Rightarrow> string \<Rightarrow> request \<Rightarrow> request" where
  "request_header name val r = r\<lparr>rq_headers := rq_headers r @ [(name, val)]\<rparr>"

definition request_proxy :: "string \<Rightarrow> request \<Rightarrow> request result" where
  "request_proxy spec r = bindR (proxy_config_parse spec) (\<lambda>p. Inr (r\<lparr>rq_proxy := Some p\<rparr>))"

definition request_proxy_user :: "string \<Rightarrow> string \<Rightarrow> request \<Rightarrow> request result" where
  "request_proxy_user user pass r =
     (case rq_proxy r of
        Some p \<Rightarrow> Inr (r\<lparr>rq_proxy := Some (p\<lparr>pc_auth := Some (user, pass)\<rparr>)\<rparr>)
      | None \<Rightarrow> Inl (BadResponse ''proxy_user called without a proxy set''))"

text \<open>\<open>Response::header\<close>: the first value, by case-insensitive name.\<close>

definition response_header :: "string \<Rightarrow> response \<Rightarrow> string option" where
  "response_header name r =
     map_option snd (find (\<lambda>(k, _). eq_ignore_ascii_case k name) (rs_headers r))"

definition is_redirect_status :: "u16 \<Rightarrow> bool" where
  "is_redirect_status status \<longleftrightarrow> status \<in> {301, 302, 303, 307, 308}"

subsection \<open>Proxy, pooling and authentication decisions\<close>

fun trim_start_dots :: "string \<Rightarrow> string" where
  "trim_start_dots (c # cs) = (if c = CHR ''.'' then trim_start_dots cs else c # cs)"
| "trim_start_dots [] = []"

definition proxy_bypassed :: "request \<Rightarrow> bool" where
  "proxy_bypassed req \<longleftrightarrow>
     (if \<exists>e\<in>set (rq_no_proxy req). trim e = ''*'' then True
      else let h = to_ascii_lowercase (u_host (rq_url req)) in
        \<exists>e\<in>set (rq_no_proxy req).
          let e = to_ascii_lowercase (trim_start_dots (trim e)) in
          if e = [] then False else h = e \<or> ends_with (''.'' @ e) h)"

definition via_plain_http_proxy :: "request \<Rightarrow> bool" where
  "via_plain_http_proxy req \<longleftrightarrow>
     (if u_scheme (rq_url req) \<noteq> ''http'' then False
      else case rq_proxy req of Some _ \<Rightarrow> \<not> proxy_bypassed req | None \<Rightarrow> False)"

definition tls_pool_eligible :: "request \<Rightarrow> bool" where
  "tls_pool_eligible req \<longleftrightarrow> rq_verify_tls req \<and> rq_ca_bundle req = None"

definition effective_basic_auth :: "request \<Rightarrow> string option" where
  "effective_basic_auth req =
     (case (case rq_basic_auth req of
              Some (u, p) \<Rightarrow> Some (u, p)
            | None \<Rightarrow> map_option split_userinfo (u_userinfo (rq_url req))) of
        None \<Rightarrow> None
      | Some (user, pass) \<Rightarrow>
          if user = [] \<and> pass = [] then None
          else Some (base64_encode (bytes_of (user @ '':'' @ pass))))"

lemma effective_basic_auth_clean: "effective_basic_auth req = Some t \<Longrightarrow> clean t"
  by (auto simp: effective_basic_auth_def base64_clean split: option.splits if_splits prod.splits)

text \<open>A request to evaluate on.\<close>

definition example_request :: request where
  "example_request =
     \<lparr>rq_method = ''GET'',
      rq_url = \<lparr>u_scheme = ''https'', u_userinfo = None, u_host = ''h'', u_port = 443, u_path = ''/''\<rparr>,
      rq_headers = [(''Cookie'', ''a=b''), (''Connection'', ''close'')], rq_body = [],
      rq_connect_timeout = None, rq_read_timeout = None, rq_http_version_pref = Auto,
      rq_follow_redirects = False, rq_max_redirs = 0, rq_basic_auth = None, rq_verify_tls = True,
      rq_ca_bundle = None, rq_max_time = None, rq_proxy = None, rq_no_proxy = []\<rparr>"

end
