(* ===== verification/Compress.thy ===== *)
theory Compress
  imports Http_Types
begin

text \<open>
  Decoding of \<open>Content-Encoding\<close> (\<open>src/src/compress.rs\<close>, \<open>maybe_decode_body\<close> of \<open>src/src/http.rs\<close>).  The
  algorithms come from the \<open>compcol\<close> crate and are a parameter \<open>A\<close>: given an algorithm, the input
  and a budget, the bytes or an error.  Its documented behaviour, that \<open>LimitedDecoder\<close> fails rather
  than produce more than the budget, is the hypothesis \<open>within_budget A\<close>.
\<close>

datatype algorithm = Brotli | Deflate | Gzip | Lzw | Zlib | Zstd

type_synonym decoders = "algorithm \<Rightarrow> bytes \<Rightarrow> nat \<Rightarrow> io_kind + bytes"

definition within_budget :: "decoders \<Rightarrow> bool" where
  "within_budget A \<longleftrightarrow> (\<forall>a src budget out. A a src budget = Inr out \<longrightarrow> length out \<le> budget)"

abbreviation (input) MAX_ENCODING_LAYERS :: nat where "MAX_ENCODING_LAYERS \<equiv> 3"
abbreviation (input) MAX_BODY_BYTES :: nat where "MAX_BODY_BYTES \<equiv> 256 * 1024 * 1024"

record decoded =
  dc_body :: bytes
  dc_decoded :: bool

datatype layer = LGzip | LDeflate | LZstd | LBrotli | LCompress | LIdentity

definition layer_parse :: "string \<Rightarrow> layer option" where
  "layer_parse token =
     (if eq_ignore_ascii_case token ''gzip'' \<or> eq_ignore_ascii_case token ''x-gzip'' then Some LGzip
      else if eq_ignore_ascii_case token ''deflate'' then Some LDeflate
      else if eq_ignore_ascii_case token ''zstd'' then Some LZstd
      else if eq_ignore_ascii_case token ''br'' then Some LBrotli
      else if eq_ignore_ascii_case token ''compress'' \<or> eq_ignore_ascii_case token ''x-compress''
      then Some LCompress
      else if eq_ignore_ascii_case token ''identity'' then Some LIdentity
      else None)"

text \<open>\<open>map_err\<close> to a \<open>BadResponse\<close>.\<close>

definition or_bad :: "string \<Rightarrow> io_kind + bytes \<Rightarrow> bytes result" where
  "or_bad msg r = (case r of Inl _ \<Rightarrow> Inl (BadResponse msg) | Inr out \<Rightarrow> Inr out)"

definition gunzip :: "decoders \<Rightarrow> bytes \<Rightarrow> nat \<Rightarrow> bytes result" where
  "gunzip A src budget = or_bad ''gzip decode failed: {e}'' (A Gzip src budget)"

definition inflate_zlib :: "decoders \<Rightarrow> bytes \<Rightarrow> nat \<Rightarrow> bytes result" where
  "inflate_zlib A src budget =
     (case A Zlib src budget of
        Inr out \<Rightarrow> Inr out
      | Inl _ \<Rightarrow> or_bad ''deflate decode failed: {zlib_err}'' (A Deflate src budget))"

definition unzstd :: "decoders \<Rightarrow> bytes \<Rightarrow> nat \<Rightarrow> bytes result" where
  "unzstd A src budget = or_bad ''zstd decode failed: {e}'' (A Zstd src budget)"

definition unbrotli :: "decoders \<Rightarrow> bytes \<Rightarrow> nat \<Rightarrow> bytes result" where
  "unbrotli A src budget = or_bad ''brotli decode failed: {e}'' (A Brotli src budget)"

definition uncompress :: "decoders \<Rightarrow> bytes \<Rightarrow> nat \<Rightarrow> bytes result" where
  "uncompress A src budget = or_bad ''compress decode failed: {e}'' (A Lzw src budget)"

text \<open>One arm of the \<open>match\<close> in the loop; \<open>None\<close> for the identity, which leaves the bytes alone.\<close>

definition layer_decoder :: "decoders \<Rightarrow> layer \<Rightarrow> (bytes \<Rightarrow> nat \<Rightarrow> bytes result) option" where
  "layer_decoder A l =
     (case l of
        LIdentity \<Rightarrow> None
      | LGzip \<Rightarrow> Some (gunzip A)
      | LDeflate \<Rightarrow> Some (inflate_zlib A)
      | LZstd \<Rightarrow> Some (unzstd A)
      | LBrotli \<Rightarrow> Some (unbrotli A)
      | LCompress \<Rightarrow> Some (uncompress A))"

text \<open>The loop over the tokens, outermost layer first.\<close>

fun decode_layers :: "decoders \<Rightarrow> string list \<Rightarrow> bytes \<Rightarrow> nat \<Rightarrow> bool \<Rightarrow> decoded result" where
  "decode_layers A [] current budget peeled = Inr \<lparr>dc_body = current, dc_decoded = peeled\<rparr>"
| "decode_layers A (token # tokens) current budget peeled =
     (case layer_parse token of
        None \<Rightarrow> Inr \<lparr>dc_body = current, dc_decoded = peeled\<rparr>
      | Some l \<Rightarrow>
          (case layer_decoder A l of
             None \<Rightarrow> decode_layers A tokens current budget True
           | Some dec \<Rightarrow> bindR (dec current budget) (\<lambda>current.
               decode_layers A tokens current (budget - length current) True)))"

definition encoding_layers :: "string \<Rightarrow> string list" where
  "encoding_layers content_encoding =
     filter (\<lambda>s. s \<noteq> []) (map trim (split_char (CHR '','') content_encoding))"

definition decode_body :: "decoders \<Rightarrow> bytes \<Rightarrow> string \<Rightarrow> decoded result" where
  "decode_body A body content_encoding =
     (let layers = encoding_layers content_encoding in
      if layers = [] then Inr \<lparr>dc_body = body, dc_decoded = False\<rparr>
      else if length layers > MAX_ENCODING_LAYERS
      then Inl (BadResponse ''too many Content-Encoding layers ({}, max {MAX_ENCODING_LAYERS})'')
      else decode_layers A (rev layers) body MAX_BODY_BYTES False)"

definition strip_after_decode :: "(string \<times> string) list \<Rightarrow> (string \<times> string) list" where
  "strip_after_decode headers =
     filter (\<lambda>(k, _). \<not> eq_ignore_ascii_case k ''content-encoding''
                    \<and> \<not> eq_ignore_ascii_case k ''content-length'') headers"

definition maybe_decode_body ::
  "decoders \<Rightarrow> (string \<times> string) list \<Rightarrow> bytes \<Rightarrow> ((string \<times> string) list \<times> bytes) result" where
  "maybe_decode_body A headers body =
     (case find (\<lambda>(k, _). eq_ignore_ascii_case k ''content-encoding'') headers of
        None \<Rightarrow> Inr (headers, body)
      | Some (_, enc) \<Rightarrow>
          bindR (decode_body A body enc) (\<lambda>out.
            if dc_decoded out then Inr (strip_after_decode headers, dc_body out)
            else Inr (headers, dc_body out)))"

subsection \<open>The budget\<close>

lemma layer_within_budget:
  "within_budget A \<Longrightarrow> layer_decoder A l = Some dec \<Longrightarrow> dec src budget = Inr out \<Longrightarrow>
     length out \<le> budget"
  by (cases l)
    (auto simp: layer_decoder_def gunzip_def inflate_zlib_def unzstd_def unbrotli_def uncompress_def
      or_bad_def within_budget_def split: sum.splits)

text \<open>However the layers are stacked, the result is the input or fits the one shared allowance.\<close>

lemma decode_layers_bounded:
  "within_budget A \<Longrightarrow> decode_layers A tokens current budget peeled = Inr r \<Longrightarrow>
     dc_body r = current \<or> length (dc_body r) \<le> budget"
proof (induction A tokens current budget peeled rule: decode_layers.induct)
  case (2 A token tokens current budget peeled)
  show ?case
  proof (cases "layer_parse token")
    case None
    with 2(4) show ?thesis by auto
  next
    case (Some l)
    show ?thesis
    proof (cases "layer_decoder A l")
      case None
      with Some 2 show ?thesis by simp
    next
      case (Some dec)
      with \<open>layer_parse token = Some l\<close> 2(4) obtain out where out: "dec current budget = Inr out"
        and rest: "decode_layers A tokens out (budget - length out) True = Inr r"
        by (auto simp: bindR_eq_Inr)
      have "length out \<le> budget" using layer_within_budget [OF 2(3) Some out] .
      moreover have "dc_body r = out \<or> length (dc_body r) \<le> budget - length out"
        using 2(2) [OF \<open>layer_parse token = Some l\<close> Some _ 2(3) rest] out by simp
      ultimately show ?thesis by auto
    qed
  qed
qed auto

lemma decode_body_bounded:
  assumes "within_budget A" and "decode_body A body enc = Inr r"
  shows "dc_body r = body \<or> length (dc_body r) \<le> MAX_BODY_BYTES"
  using assms(2) decode_layers_bounded [OF assms(1)]
  by (fastforce simp: decode_body_def Let_def split: if_splits)

text \<open>The total of all intermediate results stays within the allowance, too.\<close>

fun layer_outputs :: "decoders \<Rightarrow> string list \<Rightarrow> bytes \<Rightarrow> nat \<Rightarrow> nat" where
  "layer_outputs A [] current budget = 0"
| "layer_outputs A (token # tokens) current budget =
     (case layer_parse token of
        None \<Rightarrow> 0
      | Some l \<Rightarrow>
          (case layer_decoder A l of
             None \<Rightarrow> layer_outputs A tokens current budget
           | Some dec \<Rightarrow> (case dec current budget of
               Inl _ \<Rightarrow> 0
             | Inr out \<Rightarrow> length out + layer_outputs A tokens out (budget - length out))))"

lemma layer_outputs_bounded: "within_budget A \<Longrightarrow> layer_outputs A tokens current budget \<le> budget"
proof (induction A tokens current budget rule: layer_outputs.induct)
  case (2 A token tokens current budget)
  then show ?case
    using layer_within_budget [OF 2(3)] by (fastforce split: option.splits sum.splits)
qed simp

subsection \<open>Properties\<close>

text \<open>Whatever \<open>Content-Encoding\<close> stack a response names, decoding it yields an error, the body itself, or at
  most 256 MiB, given decoders that respect the budget they are handed; and all layers together never
  produce more than one such allowance.\<close>

lemma decoded_body_bounded:
  assumes "within_budget A" and "decode_body A body enc = Inr r"
  shows "(dc_body r = body \<or> length (dc_body r) \<le> MAX_BODY_BYTES) \<and>
    layer_outputs A (rev (encoding_layers enc)) body MAX_BODY_BYTES \<le> MAX_BODY_BYTES"
  using decode_body_bounded [OF assms] layer_outputs_bounded [OF assms(1)] by simp

definition stored_decoder :: decoders where
  "stored_decoder a src budget = (if length src \<le> budget then Inr src else Inl InvalidData)"

lemma decoded_body_bounded_witness:
  "length (dc_body \<lparr>dc_body = [1, 2], dc_decoded = True\<rparr>) \<le> MAX_BODY_BYTES \<and> within_budget stored_decoder"
proof -
  have w: "within_budget stored_decoder" by (simp add: within_budget_def stored_decoder_def)
  have "encoding_layers ''gzip'' = [''gzip'']" "layer_parse ''gzip'' = Some LGzip" by code_simp+
  then have "decode_body stored_decoder [1, 2] ''gzip'' = Inr \<lparr>dc_body = [1, 2], dc_decoded = True\<rparr>"
    by (simp add: decode_body_def layer_decoder_def gunzip_def or_bad_def stored_decoder_def)
  from decoded_body_bounded [OF w this] w show ?thesis by simp
qed

text \<open>When an unknown encoding lies below a known one, the known layer is peeled and the
  \<open>Content-Encoding\<close> header is dropped, although the body is still encoded and the comment on
  \<open>decode_body\<close> promises that the caller leaves the header alone.\<close>

lemma partial_decode_drops_header:
  assumes "A Gzip body MAX_BODY_BYTES = Inr inner"
  shows "maybe_decode_body A [(''content-encoding'', ''foo, gzip'')] body = Inr ([], inner)"
proof -
  have "encoding_layers ''foo, gzip'' = [''foo'', ''gzip'']" "layer_parse ''gzip'' = Some LGzip"
    "layer_parse ''foo'' = None" "eq_ignore_ascii_case ''content-encoding'' ''content-encoding''"
    by code_simp+
  with assms show ?thesis
    by (simp add: maybe_decode_body_def decode_body_def layer_decoder_def gunzip_def or_bad_def
        strip_after_decode_def)
qed

lemma partial_decode_drops_header_witness:
  "maybe_decode_body stored_decoder [(''content-encoding'', ''foo, gzip'')] [7, 8] = Inr ([], [7, 8])"
  by (rule partial_decode_drops_header) (simp add: stored_decoder_def)

end
