(* ===== verification/H2_Request.thy ===== *)
theory H2_Request
  imports H2_Stream Compress
begin

text \<open>
  HTTP/2 messages (\<open>src/src/http2.rs\<close>): the request fields and their header block, its fragmentation
  into HEADERS and CONTINUATION frames, the size of the next DATA chunk, and the response that a
  finished stream becomes.
\<close>

subsection \<open>Request fields\<close>

definition is_connection_specific_header :: "string \<Rightarrow> bool" where
  "is_connection_specific_header name \<longleftrightarrow>
     to_ascii_lowercase name \<in> {''connection'', ''proxy-connection'', ''keep-alive'', ''transfer-encoding'', ''upgrade'', ''te''}"

record request_pseudo =
  rp_method :: string
  rp_scheme :: string
  rp_authority :: string
  rp_path :: string

text \<open>The loop over the user's headers: the lowercased fields, and which defaults they replace.\<close>

record have_flags =
  have_ua :: bool
  have_accept :: bool
  have_accept_enc :: bool
  have_auth :: bool

definition have_none :: have_flags where
  "have_none = \<lparr>have_ua = False, have_accept = False, have_accept_enc = False, have_auth = False\<rparr>"

fun user_fields :: "(string \<times> string) list \<Rightarrow> have_flags \<Rightarrow> field list \<times> have_flags" where
  "user_fields [] h = ([], h)"
| "user_fields ((k, v) # hs) h =
     (if is_connection_specific_header k \<or> eq_ignore_ascii_case k ''host'' then user_fields hs h
      else let lk = to_ascii_lowercase k;
               h = \<lparr>have_ua = have_ua h \<or> lk = ''user-agent'',
                    have_accept = have_accept h \<or> lk = ''accept'',
                    have_accept_enc = have_accept_enc h \<or> lk = ''accept-encoding'',
                    have_auth = have_auth h \<or> lk = ''authorization''\<rparr>;
               (fs, h) = user_fields hs h
           in ((lk, v) # fs, h))"

definition authority_of :: "url \<Rightarrow> string" where
  "authority_of u =
     (if u_port u = 443 \<and> u_scheme u = ''https'' then u_host u
      else u_host u @ '':'' @ show_nat (unat (u_port u)))"

definition request_header_fields :: "request \<Rightarrow> request_pseudo \<times> field list" where
  "request_header_fields req =
     (let (flds, h) = user_fields (rq_headers req) have_none;
          flds = (if \<not> have_auth h then
                      (case effective_basic_auth req of
                         Some creds \<Rightarrow> flds @ [(''authorization'', ''Basic '' @ creds)]
                       | None \<Rightarrow> flds)
                    else flds);
          flds = (if \<not> have_ua h then flds @ [(''user-agent'', ''rsurl/0.0.4'')] else flds);
          flds = (if \<not> have_accept h then flds @ [(''accept'', ''*/*'')] else flds);
          flds = (if \<not> have_accept_enc h then flds @ [(''accept-encoding'', ''gzip, deflate'')]
                    else flds);
          flds = (if rq_body req \<noteq> []
                    then flds @ [(''content-length'', show_nat (length (rq_body req)))] else flds)
      in (\<lparr>rp_method = rq_method req, rp_scheme = u_scheme (rq_url req),
           rp_authority = authority_of (rq_url req), rp_path = u_path (rq_url req)\<rparr>, flds))"

text \<open>All fields in wire order, pseudo-headers first.\<close>

definition pseudo_fields :: "request_pseudo \<Rightarrow> field list" where
  "pseudo_fields p =
     [('':method'', rp_method p), ('':scheme'', rp_scheme p), ('':authority'', rp_authority p),
      ('':path'', rp_path p)]"

definition build_header_block :: "encoder \<Rightarrow> request \<Rightarrow> bytes \<times> encoder" where
  "build_header_block e req =
     (let (pseudo, flds) = request_header_fields req;
          (out, e) = encode_header [] '':method'' (rp_method pseudo) e;
          (out, e) = encode_header out '':scheme'' (rp_scheme pseudo) e;
          (out, e) = encode_header out '':authority'' (rp_authority pseudo) e;
          (out, e) = encode_header out '':path'' (rp_path pseudo) e
      in encode_headers out flds e)"

definition wire_fields :: "request \<Rightarrow> field list" where
  "wire_fields req =
     (case request_header_fields req of (pseudo, flds) \<Rightarrow> pseudo_fields pseudo @ flds)"

lemma build_header_block_fields: "build_header_block e req = encode_headers [] (wire_fields req) e"
  by (simp add: build_header_block_def wire_fields_def pseudo_fields_def split: prod.splits)

text \<open>Names are lowercased and no connection-specific field survives, whatever the user supplied.\<close>

lemma user_fields_names:
  assumes "(n, v) \<in> set (fst (user_fields hs h))"
  shows "to_ascii_lowercase n = n" and "\<not> is_connection_specific_header n" and "n \<noteq> ''host''"
proof -
  have "to_ascii_lowercase n = n \<and> \<not> is_connection_specific_header n \<and> n \<noteq> ''host''"
    using assms
  proof (induction hs h arbitrary: rule: user_fields.induct)
    case (2 k w hs h)
    have host: "to_ascii_lowercase ''host'' = ''host''" by (simp add: to_ascii_lowercase_def ascii_lower_def)
    from 2 show ?case
      by (auto simp: Let_def is_connection_specific_header_def eq_ignore_ascii_case_def host
          split: if_splits prod.splits)
  qed simp
  then show "to_ascii_lowercase n = n" "\<not> is_connection_specific_header n" "n \<noteq> ''host''" by auto
qed

lemma in_set_if_append: "x \<in> set (if b then xs @ [y] else xs) \<longleftrightarrow> x \<in> set xs \<or> b \<and> x = y"
  by auto

lemma in_set_opt_append:
  "x \<in> set (case m of Some c \<Rightarrow> xs @ [f c] | None \<Rightarrow> xs) \<longleftrightarrow> x \<in> set xs \<or> (\<exists>c. m = Some c \<and> x = f c)"
  by (auto split: option.split)

definition wire_name :: "string \<Rightarrow> bool" where
  "wire_name n \<longleftrightarrow> to_ascii_lowercase n = n \<and> \<not> is_connection_specific_header n \<and> n \<noteq> ''host''"

lemma default_names_wire:
  "list_all wire_name [''authorization'', ''user-agent'', ''accept'', ''accept-encoding'', ''content-length'']"
  by (simp add: wire_name_def to_ascii_lowercase_def ascii_lower_def is_connection_specific_header_def)

lemma request_fields_names:
  assumes "(n, v) \<in> set (snd (request_header_fields req))"
  shows "wire_name n"
proof -
  obtain fs h where u: "user_fields (rq_headers req) have_none = (fs, h)" by fastforce
  have "(n, v) \<in> set fs \<or> n \<in> {''authorization'', ''user-agent'', ''accept'', ''accept-encoding'', ''content-length''}"
  proof -
    have "(n, v) \<in> set (if \<not> have_auth h then (case effective_basic_auth req of
          Some creds \<Rightarrow> fs @ [(''authorization'', ''Basic '' @ creds)] | None \<Rightarrow> fs) else fs) \<or>
        n \<in> {''user-agent'', ''accept'', ''accept-encoding'', ''content-length''}"
      using assms unfolding request_header_fields_def u Let_def prod.case snd_conv in_set_if_append
      by blast
    then show ?thesis unfolding if_distrib [of set] by (auto simp: in_set_opt_append split: if_splits)
  qed
  then show ?thesis
  proof
    assume "(n, v) \<in> set fs"
    then show ?thesis
      using user_fields_names [of n v "rq_headers req" have_none] u by (simp add: wire_name_def)
  next
    assume "n \<in> {''authorization'', ''user-agent'', ''accept'', ''accept-encoding'', ''content-length''}"
    then show ?thesis using default_names_wire by (elim insertE) simp_all
  qed
qed

subsection \<open>Fragmentation\<close>

text \<open>\<open>slice::chunks\<close>.\<close>

function chunks :: "nat \<Rightarrow> bytes \<Rightarrow> bytes list" where
  "chunks n bs = (if bs = [] \<or> n = 0 then [] else take n bs # chunks n (drop n bs))"
  by pat_completeness auto
termination by (relation "measure (\<lambda>(n, bs). length bs)") auto

declare chunks.simps [simp del]

definition fragment_header_block :: "u32 \<Rightarrow> bytes \<Rightarrow> nat \<Rightarrow> bool \<Rightarrow> frame list" where
  "fragment_header_block sid header_block max_frame end_stream =
     (if header_block = [] then
        [\<lparr>f_typ = F_HEADERS, f_flags = FLAG_END_HEADERS OR (if end_stream then FLAG_END_STREAM else 0),
          f_sid = sid, f_payload = []\<rparr>]
      else
        let total_chunks = (length header_block + max_frame - 1) div max_frame in
        map (\<lambda>(i, chunk).
               let is_last = (i + 1 = total_chunks) in
               if i = 0 then
                 \<lparr>f_typ = F_HEADERS,
                  f_flags = (if end_stream then FLAG_END_STREAM else 0)
                            OR (if is_last then FLAG_END_HEADERS else 0),
                  f_sid = sid, f_payload = chunk\<rparr>
               else
                 \<lparr>f_typ = F_CONTINUATION, f_flags = (if is_last then FLAG_END_HEADERS else 0),
                  f_sid = sid, f_payload = chunk\<rparr>)
          (enumerate 0 (chunks max_frame header_block)))"

lemma concat_chunks: "0 < n \<Longrightarrow> concat (chunks n bs) = bs"
proof (induction n bs rule: chunks.induct)
  case (1 n bs)
  then show ?case by (subst chunks.simps) auto
qed

lemma length_chunks: "0 < n \<Longrightarrow> length (chunks n bs) = (length bs + n - 1) div n"
proof (induction n bs rule: chunks.induct)
  case (1 n bs)
  show ?case
  proof (cases "bs = []")
    case True
    then show ?thesis using 1 by (simp add: chunks.simps)
  next
    case False
    then have step: "length (chunks n bs) = Suc (length (chunks n (drop n bs)))"
      using 1(2) by (subst chunks.simps) simp
    show ?thesis
    proof (cases "length bs \<le> n")
      case True
      with False 1(2) have "(length bs + n - 1) div n = 1"
        by (cases bs) (auto intro!: div_nat_eqI)
      with True step show ?thesis by (simp add: chunks.simps [of n "[]"])
    next
      case False2: False
      then have eq: "length bs + n - 1 = (length bs - n + n - 1) + n" using 1(2) by linarith
      have "n \<noteq> 0" using 1(2) by simp
      then have "(length bs + n - 1) div n = Suc ((length bs - n + n - 1) div n)"
        by (simp only: eq div_add_self2 [OF \<open>n \<noteq> 0\<close>] Suc_eq_plus1)
      moreover have "length (chunks n (drop n bs)) = (length (drop n bs) + n - 1) div n"
        using 1 False by blast
      ultimately show ?thesis by (simp only: step length_drop)
    qed
  qed
qed

lemma chunk_sizes: "c \<in> set (chunks n bs) \<Longrightarrow> length c \<le> n \<and> c \<noteq> []"
proof (induction n bs rule: chunks.induct)
  case (1 n bs)
  then show ?case by (subst (asm) (2) chunks.simps) (auto split: if_splits)
qed

lemma fragment_payloads:
  "0 < max_frame \<Longrightarrow> concat (map f_payload (fragment_header_block sid blk max_frame es)) = blk"
proof -
  assume n: "0 < max_frame"
  have "map f_payload (fragment_header_block sid blk max_frame es) = chunks max_frame blk" if "blk \<noteq> []"
    using that
    by (simp add: fragment_header_block_def Let_def comp_def split_beta if_distrib [of f_payload]
        map_snd_enumerate cong: if_cong)
  then show ?thesis
    using concat_chunks [OF n, of blk] by (cases "blk = []") (simp_all add: fragment_header_block_def)
qed

subsection \<open>The next DATA chunk\<close>

definition next_data_chunk_size :: "nat \<Rightarrow> int \<Rightarrow> nat \<Rightarrow> nat" where
  "next_data_chunk_size max_frame available remaining =
     (if available \<le> 0 then 0
      else nat (min (min available (int remaining)) (int max_frame)))"

lemma next_data_chunk_bounds:
  "next_data_chunk_size m a r \<le> m" "next_data_chunk_size m a r \<le> r"
  "int (next_data_chunk_size m a r) \<le> max 0 a"
  by (auto simp: next_data_chunk_size_def)

lemma next_data_chunk_pos: "0 < m \<Longrightarrow> 0 < a \<Longrightarrow> 0 < r \<Longrightarrow> 0 < next_data_chunk_size m a r"
  by (simp add: next_data_chunk_size_def)

subsection \<open>The response\<close>

text \<open>The loop over the decoded header fields.\<close>

fun response_fields :: "field list \<Rightarrow> u16 option \<Rightarrow> field list \<Rightarrow> (u16 option \<times> field list) result" where
  "response_fields [] status clean_headers = Inr (status, clean_headers)"
| "response_fields ((k, v) # hs) status clean_headers =
     (if k = '':status'' then
        (case parse_u16 v of
           Some s \<Rightarrow> response_fields hs (Some s) clean_headers
         | None \<Rightarrow> Inl (BadResponse ''bad :status {v:?}''))
      else if starts_with '':'' k then response_fields hs status clean_headers
      else response_fields hs status (clean_headers @ [(k, v)]))"

definition build_response_from_stream :: "decoders \<Rightarrow> stream \<Rightarrow> response result" where
  "build_response_from_stream A s =
     (case st_response_headers s of
        None \<Rightarrow> Inl (BadResponse ''response ended before any HEADERS frame'')
      | Some headers \<Rightarrow>
          bindR (response_fields headers None []) (\<lambda>(status, clean_headers).
            case status of
              None \<Rightarrow> Inl (BadResponse ''response missing :status'')
            | Some st \<Rightarrow>
                bindR (maybe_decode_body A clean_headers (st_body s)) (\<lambda>(clean_headers, body).
                  Inr \<lparr>rs_status = st, rs_reason = [], rs_version = ''HTTP/2'',
                       rs_headers = clean_headers, rs_body = body\<rparr>)))"

lemma response_fields_spec:
  "response_fields hs status acc = Inr (st, kept) \<Longrightarrow>
     kept = acc @ filter (\<lambda>(k, _). \<not> starts_with '':'' k) hs \<and>
     (st = status \<or> (\<exists>v. ('':status'', v) \<in> set hs \<and> st = parse_u16 v \<and> st \<noteq> None))"
proof (induction hs status acc rule: response_fields.induct)
  case (2 k v hs status acc)
  then show ?case
    by (auto simp: starts_with_def split: if_splits option.splits)
qed simp

subsection \<open>Properties\<close>

text \<open>One connection's worth of requests and table size changes, encoder and decoder side by side.\<close>

datatype session_op = Resize nat | SendRequest request

fun session :: "session_op list \<Rightarrow> encoder \<Rightarrow> decoder \<Rightarrow> field list result list" where
  "session [] e d = []"
| "session (Resize n # ops) e d = session ops (set_peer_max_table_size n e) d"
| "session (SendRequest req # ops) e d =
     (let (block, e) = build_header_block e req; (r, d) = decode_block block d in r # session ops e d)"

fun session_op_ok :: "session_op \<Rightarrow> bool" where
  "session_op_ok (Resize n) \<longleftrightarrow> n \<le> DYN_TABLE_CAP"
| "session_op_ok (SendRequest req) \<longleftrightarrow>
     (\<forall>(n, v)\<in>set (wire_fields req). valid_str n \<and> valid_str v) \<and>
     table_size (wire_fields req) \<le> MAX_DECODED_HEADER_LIST"

fun session_result :: "session_op \<Rightarrow> field list result list" where
  "session_result (Resize n) = []"
| "session_result (SendRequest req) = [Inr (wire_fields req)]"

lemma session_synced:
  "synced e d \<Longrightarrow> list_all session_op_ok ops \<Longrightarrow> session ops e d = concat (map session_result ops)"
proof (induction ops arbitrary: e d)
  case (Cons op ops)
  show ?case
  proof (cases op)
    case (Resize n)
    with Cons show ?thesis by (simp add: synced_set_peer_max)
  next
    case (SendRequest req)
    obtain block e' where b: "encode_headers [] (wire_fields req) e = (block, e')" by fastforce
    from SendRequest Cons.prems obtain d' where "decode_block block d = (Inr (wire_fields req), d')" "synced e' d'"
      using decode_block_encode_headers [OF Cons.prems(1) _ b] by fastforce
    with SendRequest Cons b show ?thesis by (simp add: build_header_block_fields)
  qed
qed simp


lemma example_wire_fields:
  "wire_fields example_request =
     [('':method'', ''GET''), ('':scheme'', ''https''), ('':authority'', ''h''), ('':path'', ''/''),
      (''cookie'', ''a=b''), (''user-agent'', ''rsurl/0.0.4''), (''accept'', ''*/*''),
      (''accept-encoding'', ''gzip, deflate'')]"
  by code_simp


text \<open>Every field of a request goes out with a lowercase name, and neither \<open>Host\<close> nor any
  connection-specific field (RFC 9113 8.2.2) is among them, whatever the user supplied.\<close>

lemma request_names_are_wire_names:
  assumes "(n, v) \<in> set (snd (request_header_fields req))"
  shows "to_ascii_lowercase n = n \<and> \<not> is_connection_specific_header n \<and> n \<noteq> ''host''"
  using request_fields_names [OF assms] by (simp add: wire_name_def)

lemma request_names_are_wire_names_witness:
  "to_ascii_lowercase ''cookie'' = ''cookie'' \<and> (''cookie'', ''a=b'') \<in> set (snd (request_header_fields example_request))"
proof -
  have m: "(''cookie'', ''a=b'') \<in> set (snd (request_header_fields example_request))" by code_simp
  from request_names_are_wire_names [OF m] m show ?thesis by blast
qed

text \<open>The next DATA chunk never exceeds the peer's frame size, the bytes left or the send budget, and it is
  positive whenever all three are: a sender that is not blocked makes progress.\<close>

lemma next_chunk_within_limits:
  "next_data_chunk_size m a r \<le> m \<and> next_data_chunk_size m a r \<le> r \<and>
   int (next_data_chunk_size m a r) \<le> max 0 a \<and>
   (0 < next_data_chunk_size m a r) = (0 < m \<and> 0 < a \<and> 0 < r)"
  by (auto simp: next_data_chunk_size_def)

end
