(* ===== verification/H2_Conn.thy ===== *)
theory H2_Conn
  imports H2_Request "HOL-Library.AList"
begin

text \<open>
  The HTTP/2 connection (\<open>struct Connection\<close> of \<open>src/src/http2.rs\<close>): opening streams, the dispatch
  of every inbound frame (\<open>process_frame\<close> and its handlers), and the single-stream send and receive
  drivers.  \<open>streams: HashMap<u32, Stream>\<close> is an association list with distinct keys; where the
  code iterates over the map, the model iterates in the order of the list.

  The main results: \<open>conn_ok\<close>, the bounds and cross-references of all components, holds after every
  frame whatever the peer sends, whether or not the handler succeeds; a header block that arrives in
  pieces is decoded exactly as if it had arrived in one; nothing but the awaited CONTINUATION is
  accepted in between.
\<close>

subsection \<open>The connection\<close>

record connection =
  c_tls :: transport
  c_peer :: peer_settings
  c_send_window :: conn_send_window
  c_recv_window :: conn_recv_window
  c_decoder :: decoder
  c_encoder :: encoder
  c_streams :: "(u32 \<times> stream) list"
  c_next_stream_id :: u32
  c_goaway_received :: "u32 option"
  c_expecting_continuation :: "u32 option"

datatype dispatch_outcome = Continue | Done u32

text \<open>Writing to the transport from a method of the connection.\<close>

definition on_tls ::
  "(transport \<Rightarrow> (io_kind + 'a) \<times> transport) \<Rightarrow> connection \<Rightarrow> 'a result \<times> connection" where
  "on_tls f c = (let (r, t) = f (c_tls c) in (liftIo r, c\<lparr>c_tls := t\<rparr>))"

definition get_stream :: "connection \<Rightarrow> u32 \<Rightarrow> stream option" where
  "get_stream c sid = map_of (c_streams c) sid"

definition put_stream :: "u32 \<Rightarrow> stream \<Rightarrow> connection \<Rightarrow> connection" where
  "put_stream sid s c = c\<lparr>c_streams := AList.update sid s (c_streams c)\<rparr>"

definition remove_stream :: "u32 \<Rightarrow> connection \<Rightarrow> connection" where
  "remove_stream sid c = c\<lparr>c_streams := AList.delete sid (c_streams c)\<rparr>"


text \<open>\<open>Connection::new\<close>: the preface and our SETTINGS, which disable server push.\<close>

definition our_settings :: frame where
  "our_settings =
     \<lparr>f_typ = F_SETTINGS, f_flags = 0, f_sid = 0, f_payload = to_be16 S_ENABLE_PUSH @ to_be32 0\<rparr>"

definition connection_new :: "transport \<Rightarrow> connection result" where
  "connection_new tls =
     (case bindS (write_all PREFACE tls) (\<lambda>_ tls.
             bindS (write_frame our_settings tls) (\<lambda>_ tls. flush tls)) of
        (Inl e, _) \<Rightarrow> Inl (Io e)
      | (Inr _, tls) \<Rightarrow>
          Inr \<lparr>c_tls = tls, c_peer = peer_settings_default,
               c_send_window = conn_send_window_new, c_recv_window = conn_recv_window_new,
               c_decoder = decoder_new, c_encoder = encoder_new, c_streams = [],
               c_next_stream_id = 1, c_goaway_received = None, c_expecting_continuation = None\<rparr>)"

definition is_usable :: "connection \<Rightarrow> bool" where
  "is_usable c \<longleftrightarrow>
     (if c_goaway_received c \<noteq> None then False
      else if c_streams c \<noteq> [] then False
      else if c_next_stream_id c \<ge> 0x80000000 then False
      else True)"

definition prune_completed_streams :: "connection \<Rightarrow> connection" where
  "prune_completed_streams c =
     c\<lparr>c_streams := filter (\<lambda>(_, s).
         let terminal = (st_state s = Closed \<or>
               (st_state s = HalfClosedRemote \<and> st_response_headers s \<noteq> None \<and> st_end_stream_recv s))
         in \<not> terminal) (c_streams c)\<rparr>"

definition saturating_add32 :: "u32 \<Rightarrow> u32 \<Rightarrow> u32" where
  "saturating_add32 a b = (if unat a + unat b < 2 ^ 32 then a + b else 0xffffffff)"

definition open_stream :: "connection \<Rightarrow> u32 result \<times> connection" where
  "open_stream c =
     (if length (c_streams c) \<ge> unat (max_concurrent_streams (c_peer c))
      then (Inl (BadResponse ''at MAX_CONCURRENT_STREAMS limit''), c)
      else if c_next_stream_id c \<ge> 0x80000000
      then (Inl (BadResponse ''stream id space exhausted (RFC 9113 5.1.1)''), c)
      else if (case c_goaway_received c of Some last_id \<Rightarrow> c_next_stream_id c > last_id | None \<Rightarrow> False)
      then (Inl (BadResponse ''GOAWAY received with last-stream-id={last}; cannot allocate id={}''), c)
      else let i = c_next_stream_id c;
               c = c\<lparr>c_next_stream_id := saturating_add32 i 2\<rparr>
           in (Inr i, put_stream i (stream_new i (uint (initial_window_size (c_peer c)))) c))"

subsection \<open>Connection-scoped frames\<close>

text \<open>The retroactive shift of every stream's send window (RFC 9113 6.9.2).\<close>

fun shift_windows :: "u32 \<Rightarrow> (u32 \<times> stream) list \<Rightarrow> unit result \<times> (u32 \<times> stream) list" where
  "shift_windows new_initial [] = (Inr (), [])"
| "shift_windows new_initial ((i, s) # rest) =
     (case ssw_apply_initial_window_change new_initial (st_send_window s) of
        Inl e \<Rightarrow> (Inl e, (i, s) # rest)
      | Inr w \<Rightarrow>
          let (r, rest') = shift_windows new_initial rest
          in (r, (i, s\<lparr>st_send_window := w\<rparr>) # rest'))"

definition settings_ack :: frame where
  "settings_ack = \<lparr>f_typ = F_SETTINGS, f_flags = FLAG_ACK, f_sid = 0, f_payload = []\<rparr>"

definition send_and_flush :: "frame \<Rightarrow> connection \<Rightarrow> dispatch_outcome result \<times> connection" where
  "send_and_flush f c =
     bindS (on_tls (write_frame f) c) (\<lambda>_ c. bindS (on_tls flush c) (\<lambda>_ c. (Inr Continue, c)))"

definition shift_all_windows :: "u32 \<Rightarrow> connection \<Rightarrow> unit result \<times> connection" where
  "shift_all_windows new_initial c =
     (let (r, ss) = shift_windows new_initial (c_streams c) in (r, c\<lparr>c_streams := ss\<rparr>))"

text \<open>A changed header table size reaches the encoder.\<close>

definition resize_encoder :: "u32 \<Rightarrow> connection \<Rightarrow> connection" where
  "resize_encoder old_header_table_size c =
     (if header_table_size (c_peer c) \<noteq> old_header_table_size
      then c\<lparr>c_encoder := set_peer_max_table_size (unat (header_table_size (c_peer c))) (c_encoder c)\<rparr>
      else c)"

definition process_settings :: "frame \<Rightarrow> connection \<Rightarrow> dispatch_outcome result \<times> connection" where
  "process_settings f c =
     (let old_initial = initial_window_size (c_peer c);
          old_header_table_size = header_table_size (c_peer c)
      in bindS (let (r, peer) = apply_settings_payload (f_payload f) (c_peer c)
                in (r, c\<lparr>c_peer := peer\<rparr>))
           (\<lambda>_ c.
             let new_initial = initial_window_size (c_peer c) in
             bindS (if new_initial \<noteq> old_initial then shift_all_windows new_initial c else (Inr (), c))
               (\<lambda>_ c. send_and_flush settings_ack (resize_encoder old_header_table_size c))))"

definition goaway_last :: "bytes \<Rightarrow> u32" where
  "goaway_last p =
     (if length p \<ge> 4 then from_be32 (p ! 0) (p ! 1) (p ! 2) (p ! 3) AND 0x7fffffff else 0)"

definition process_goaway :: "frame \<Rightarrow> connection \<Rightarrow> dispatch_outcome result \<times> connection" where
  "process_goaway f c =
     (let last_id = goaway_last (f_payload f);
          c = c\<lparr>c_goaway_received := Some last_id\<rparr>
      in (Inr Continue,
          c\<lparr>c_streams := map (\<lambda>(i, s). (i, if i > last_id then s\<lparr>st_state := Closed\<rparr> else s))
               (c_streams c)\<rparr>))"

definition process_conn_frame :: "frame \<Rightarrow> connection \<Rightarrow> dispatch_outcome result \<times> connection" where
  "process_conn_frame f c =
     (if f_typ f = F_SETTINGS then
        (if \<not> has_flag (f_flags f) FLAG_ACK then process_settings f c else (Inr Continue, c))
      else if f_typ f = F_PING then
        (if \<not> has_flag (f_flags f) FLAG_ACK
         then send_and_flush \<lparr>f_typ = F_PING, f_flags = FLAG_ACK, f_sid = 0, f_payload = f_payload f\<rparr> c
         else (Inr Continue, c))
      else if f_typ f = F_WINDOW_UPDATE then
        (case bindR (parse_window_update (f_payload f))
                (\<lambda>inc. csw_apply_window_update inc (c_send_window c)) of
           Inl e \<Rightarrow> (Inl e, c)
         | Inr w \<Rightarrow> (Inr Continue, c\<lparr>c_send_window := w\<rparr>))
      else if f_typ f = F_GOAWAY then process_goaway f c
      else (Inr Continue, c))"

subsection \<open>Stream-scoped frames\<close>

definition outcome_of :: "u32 \<Rightarrow> stream \<Rightarrow> dispatch_outcome" where
  "outcome_of sid s = (if stream_done s then Done sid else Continue)"

text \<open>The header-block fragment inside a HEADERS payload.\<close>

definition headers_fragment :: "byte \<Rightarrow> bytes \<Rightarrow> bytes result" where
  "headers_fragment flags payload =
     bindR (if has_flag flags FLAG_PADDED
            then (case payload of
                    [] \<Rightarrow> Inl (BadResponse ''HEADERS PADDED with empty payload'')
                  | b # rest \<Rightarrow> Inr (unat b, rest))
            else Inr (0, payload))
       (\<lambda>(pad_len, payload).
         bindR (if has_flag flags FLAG_PRIORITY
                then (if length payload < 5
                      then Inl (BadResponse ''HEADERS PRIORITY with insufficient payload'')
                      else Inr (drop 5 payload))
                else Inr payload)
           (\<lambda>payload.
             if length payload < pad_len
             then Inl (BadResponse ''HEADERS padding overruns payload'')
             else Inr (take (length payload - pad_len) payload)))"

text \<open>The end of a header block: decode the accumulated fragments with the connection's decoder.\<close>

definition decode_headers :: "bytes \<Rightarrow> connection \<Rightarrow> field list result \<times> connection" where
  "decode_headers block c =
     (let (r, d) = decode_block block (c_decoder c) in (r, c\<lparr>c_decoder := d\<rparr>))"

definition process_headers_closed ::
  "u32 \<Rightarrow> bytes \<Rightarrow> bool \<Rightarrow> stream \<Rightarrow> connection \<Rightarrow> dispatch_outcome result \<times> connection" where
  "process_headers_closed sid frag end_headers s c =
     (if end_headers then bindS (decode_headers frag c) (\<lambda>_ c. (Inr Continue, c))
      else (case push_header_fragment frag s of
              Inl e \<Rightarrow> (Inl e, c)
            | Inr s \<Rightarrow>
                (Inr Continue, (put_stream sid s c)\<lparr>c_expecting_continuation := Some sid\<rparr>)))"

definition process_headers :: "frame \<Rightarrow> connection \<Rightarrow> dispatch_outcome result \<times> connection" where
  "process_headers f c =
     (case headers_fragment (f_flags f) (f_payload f) of
        Inl e \<Rightarrow> (Inl e, c)
      | Inr frag \<Rightarrow>
          let end_headers = has_flag (f_flags f) FLAG_END_HEADERS;
              end_stream = has_flag (f_flags f) FLAG_END_STREAM;
              sid = f_sid f
          in case get_stream c sid of
               None \<Rightarrow> (Inl (BadResponse ''HEADERS on unknown stream {stream_id} (server push disabled)''), c)
             | Some s \<Rightarrow>
                 if st_state s = Closed then process_headers_closed sid frag end_headers s c
                 else (case recv_headers (st_state s) end_stream of
                    Inl e \<Rightarrow> (Inl e, c)
                  | Inr new_state \<Rightarrow>
                      (case push_header_fragment frag s of
                         Inl e \<Rightarrow> (Inl e, c)
                       | Inr s \<Rightarrow>
                           let s = (if end_stream then s\<lparr>st_end_stream_recv := True\<rparr> else s) in
                           if end_headers then
                             let block = st_headers_buf s; s = s\<lparr>st_headers_buf := []\<rparr> in
                             bindS (decode_headers block (put_stream sid s c)) (\<lambda>decoded c.
                               let s = s\<lparr>st_response_headers := Some decoded, st_state := new_state\<rparr>
                               in (Inr (outcome_of sid s),
                                   (put_stream sid s c)\<lparr>c_expecting_continuation := None\<rparr>))
                           else
                             let s = s\<lparr>st_state := new_state\<rparr>
                             in (Inr (outcome_of sid s),
                                 (put_stream sid s c)\<lparr>c_expecting_continuation := Some sid\<rparr>))))"

definition process_continuation :: "frame \<Rightarrow> connection \<Rightarrow> dispatch_outcome result \<times> connection" where
  "process_continuation f c =
     (let sid = f_sid f in
      if c_expecting_continuation c \<noteq> Some sid
      then (Inl (BadResponse ''unexpected CONTINUATION on stream {stream_id}''), c)
      else case get_stream c sid of
             None \<Rightarrow> (Inl (BadResponse ''CONTINUATION on unknown stream {stream_id}''), c)
           | Some s \<Rightarrow>
               (case push_header_fragment (f_payload f) s of
                  Inl e \<Rightarrow> (Inl e, c)
                | Inr s \<Rightarrow>
                    if has_flag (f_flags f) FLAG_END_HEADERS then
                      let block = st_headers_buf s; s = s\<lparr>st_headers_buf := []\<rparr> in
                      bindS (decode_headers block (put_stream sid s c)) (\<lambda>decoded c.
                        let s = (if st_state s \<noteq> Closed then s\<lparr>st_response_headers := Some decoded\<rparr> else s)
                        in (Inr (outcome_of sid s),
                            (put_stream sid s c)\<lparr>c_expecting_continuation := None\<rparr>))
                    else (Inr (outcome_of sid s), put_stream sid s c)))"

text \<open>The application bytes of a DATA payload.\<close>

definition data_payload :: "byte \<Rightarrow> bytes \<Rightarrow> bytes result" where
  "data_payload flags payload =
     (if has_flag flags FLAG_PADDED
      then (case payload of
              [] \<Rightarrow> Inl (BadResponse ''DATA PADDED with empty payload'')
            | b # rest \<Rightarrow>
                if length rest < unat b then Inl (BadResponse ''DATA padding overruns payload'')
                else Inr (take (length rest - unat b) rest))
      else Inr payload)"

definition write_update :: "frame option \<Rightarrow> connection \<Rightarrow> unit result \<times> connection" where
  "write_update upd c = (case upd of Some f \<Rightarrow> on_tls (write_frame f) c | None \<Rightarrow> (Inr (), c))"

definition replenish_conn :: "connection \<Rightarrow> unit result \<times> connection" where
  "replenish_conn c =
     (let (upd, w) = crw_replenish (c_recv_window c)
      in write_update upd (c\<lparr>c_recv_window := w\<rparr>))"

text \<open>DATA on a stream that is not registered: only the connection window is replenished.\<close>

definition drop_data :: "connection \<Rightarrow> dispatch_outcome result \<times> connection" where
  "drop_data c =
     (let (upd, w) = crw_replenish (c_recv_window c); c = c\<lparr>c_recv_window := w\<rparr>
      in case upd of
           Some f \<Rightarrow> send_and_flush f c
         | None \<Rightarrow> (Inr Continue, c))"

text \<open>Accepting the payload: append it, advance the state, replenish both windows.\<close>

definition accept_data ::
  "u32 \<Rightarrow> bytes \<Rightarrow> bool \<Rightarrow> stream_state \<Rightarrow> stream \<Rightarrow> connection \<Rightarrow> dispatch_outcome result \<times> connection" where
  "accept_data sid payload end_stream new_state s c =
     (let s = s\<lparr>st_body := st_body s @ payload,
                st_end_stream_recv := st_end_stream_recv s \<or> end_stream, st_state := new_state\<rparr>
      in bindS (replenish_conn (put_stream sid s c)) (\<lambda>_ c.
           let (upd, w) = srw_replenish sid (st_recv_window s); s = s\<lparr>st_recv_window := w\<rparr> in
           bindS (write_update upd (put_stream sid s c)) (\<lambda>_ c.
             bindS (on_tls flush c) (\<lambda>_ c. (Inr (outcome_of sid s), c)))))"

definition process_data :: "frame \<Rightarrow> connection \<Rightarrow> dispatch_outcome result \<times> connection" where
  "process_data f c =
     (let sid = f_sid f; n = length (f_payload f);
          c = c\<lparr>c_recv_window := crw_consume n (c_recv_window c)\<rparr>
      in if crw_available (c_recv_window c) < 0
         then (Inl (BadResponse ''http2: flow-control window exceeded by peer''), c)
         else case get_stream c sid of
           None \<Rightarrow> drop_data c
         | Some s \<Rightarrow>
             if st_state s = Closed then (Inl (BadResponse ''DATA on closed stream {stream_id}''), c)
             else let end_stream = has_flag (f_flags f) FLAG_END_STREAM in
               (case recv_data (st_state s) end_stream of
                  Inl e \<Rightarrow> (Inl e, c)
                | Inr new_state \<Rightarrow>
                    let s = s\<lparr>st_recv_window := srw_consume n (st_recv_window s)\<rparr>;
                        c = put_stream sid s c
                    in if srw_available (st_recv_window s) < 0
                       then (Inl (BadResponse ''http2: flow-control window exceeded by peer''), c)
                       else (case data_payload (f_flags f) (f_payload f) of
                          Inl e \<Rightarrow> (Inl e, c)
                        | Inr payload \<Rightarrow>
                            if saturating_add_usize (length (st_body s)) (length payload) > MAX_RESPONSE_BYTES
                            then (Inl (BadResponse ''response body exceeds size limit''), c)
                            else accept_data sid payload end_stream new_state s c)))"

definition process_rst :: "frame \<Rightarrow> connection \<Rightarrow> dispatch_outcome result \<times> connection" where
  "process_rst f c =
     (let sid = f_sid f in
      case get_stream c sid of
        Some s \<Rightarrow>
          if st_state s = Closed then (Inr Continue, c)
          else (case recv_rst (st_state s) of
                  Inl e \<Rightarrow> (Inl e, c)
                | Inr t \<Rightarrow>
                    (Inl (BadResponse ''stream {stream_id} reset by server, error code {code}''),
                     put_stream sid (s\<lparr>st_state := t\<rparr>) c))
      | None \<Rightarrow> (Inr Continue, c))"

definition process_stream_window_update ::
  "frame \<Rightarrow> connection \<Rightarrow> dispatch_outcome result \<times> connection" where
  "process_stream_window_update f c =
     (case parse_window_update (f_payload f) of
        Inl e \<Rightarrow> (Inl e, c)
      | Inr inc \<Rightarrow>
          (case get_stream c (f_sid f) of
             None \<Rightarrow> (Inr Continue, c)
           | Some s \<Rightarrow>
               (case ssw_apply_window_update inc (st_send_window s) of
                  Inl e \<Rightarrow> (Inl e, c)
                | Inr w \<Rightarrow> (Inr Continue, put_stream (f_sid f) (s\<lparr>st_send_window := w\<rparr>) c))))"

definition process_stream_frame :: "frame \<Rightarrow> connection \<Rightarrow> dispatch_outcome result \<times> connection" where
  "process_stream_frame f c =
     (if f_typ f = F_HEADERS then process_headers f c
      else if f_typ f = F_CONTINUATION then process_continuation f c
      else if f_typ f = F_DATA then process_data f c
      else if f_typ f = F_RST_STREAM then process_rst f c
      else if f_typ f = F_WINDOW_UPDATE then process_stream_window_update f c
      else if f_typ f = F_PUSH_PROMISE
      then (Inl (BadResponse ''received PUSH_PROMISE despite SETTINGS_ENABLE_PUSH=0''), c)
      else (Inr Continue, c))"

subsection \<open>Dispatch\<close>

definition process_frame :: "frame \<Rightarrow> connection \<Rightarrow> dispatch_outcome result \<times> connection" where
  "process_frame f c =
     (if (case c_expecting_continuation c of
            Some awaiting \<Rightarrow> \<not> (f_typ f = F_CONTINUATION \<and> f_sid f = awaiting)
          | None \<Rightarrow> False)
      then (Inl (BadResponse ''expected CONTINUATION on stream {awaiting}, got type=0x{:x} stream={}''), c)
      else if f_sid f = 0 then process_conn_frame f c
      else process_stream_frame f c)"

definition read_and_dispatch :: "connection \<Rightarrow> dispatch_outcome result \<times> connection" where
  "read_and_dispatch c =
     (let (r, t) = read_frame (c_tls c); c = c\<lparr>c_tls := t\<rparr> in
      case r of
        Inl e \<Rightarrow> (Inl (if e = IoUnexpectedEof then UnexpectedEof else Io e), c)
      | Inr f \<Rightarrow> process_frame f c)"

subsection \<open>The invariant of a connection\<close>

definition key_ok :: "connection \<Rightarrow> u32 \<Rightarrow> bool" where
  "key_ok c i \<longleftrightarrow> odd (unat i) \<and> i < c_next_stream_id c"

definition streams_ok :: "connection \<Rightarrow> bool" where
  "streams_ok c \<longleftrightarrow> distinct (map fst (c_streams c)) \<and>
     (\<forall>(i, s)\<in>set (c_streams c). st_id s = i \<and> key_ok c i \<and> stream_ok s)"

definition encoder_ok :: "encoder \<Rightarrow> bool" where
  "encoder_ok e \<longleftrightarrow> enc_table.consistent e \<and> e_size e \<le> e_max e"

definition conn_ok :: "connection \<Rightarrow> bool" where
  "conn_ok c \<longleftrightarrow>
     settings_ok (c_peer c) \<and>
     0 \<le> csw_available (c_send_window c) \<and> csw_available (c_send_window c) \<le> WINDOW_MAX \<and>
     crw_initial (c_recv_window c) = OUR_INITIAL_WINDOW \<and>
     crw_available (c_recv_window c) \<le> OUR_INITIAL_WINDOW \<and>
     decoder_ok (c_decoder c) \<and> encoder_ok (c_encoder c) \<and>
     odd (unat (c_next_stream_id c)) \<and> c_next_stream_id c \<le> 0x80000001 \<and> streams_ok c"

named_theorems conn_simps

lemma get_put_stream [conn_simps]: "get_stream (put_stream i s c) j = (if j = i then Some s else get_stream c j)"
  by (simp add: get_stream_def put_stream_def AList.update_conv')

lemma next_id_unchanged [conn_simps]:
  "c_next_stream_id (put_stream i s c) = c_next_stream_id c"
  "c_next_stream_id (snd (on_tls f c)) = c_next_stream_id c"
  "c_next_stream_id (snd (decode_headers blk c)) = c_next_stream_id c"
  by (simp_all add: put_stream_def on_tls_def decode_headers_def split_beta)

lemma key_ok_cong: "c_next_stream_id c = c_next_stream_id c' \<Longrightarrow> key_ok c = key_ok c'"
  by (simp add: key_ok_def fun_eq_iff)

lemma streams_ok_cong:
  "c_next_stream_id c = c_next_stream_id c' \<Longrightarrow> c_streams c = c_streams c' \<Longrightarrow>
     streams_ok c = streams_ok c'"
  using key_ok_cong [of c c'] by (simp add: streams_ok_def)

lemma conn_ok_tls [conn_simps]: "conn_ok (c\<lparr>c_tls := t\<rparr>) = conn_ok c"
  using streams_ok_cong [of "c\<lparr>c_tls := t\<rparr>" c] by (simp add: conn_ok_def)

lemma conn_ok_expecting [conn_simps]: "conn_ok (c\<lparr>c_expecting_continuation := x\<rparr>) = conn_ok c"
  using streams_ok_cong [of "c\<lparr>c_expecting_continuation := x\<rparr>" c] by (simp add: conn_ok_def)

lemma conn_ok_on_tls [conn_simps]: "conn_ok (snd (on_tls f c)) = conn_ok c"
  by (simp add: on_tls_def split_beta conn_simps)

lemma conn_ok_decoder: "conn_ok c \<Longrightarrow> decoder_ok d \<Longrightarrow> conn_ok (c\<lparr>c_decoder := d\<rparr>)"
  using streams_ok_cong [of "c\<lparr>c_decoder := d\<rparr>" c] by (simp add: conn_ok_def)

lemma conn_ok_decode_headers:
  assumes "conn_ok c"
  shows "conn_ok (snd (decode_headers blk c))"
proof -
  have "decoder_ok (snd (decode_block blk (c_decoder c)))"
    using assms by (intro decoder_ok_block) (simp add: conn_ok_def)
  then show ?thesis by (simp add: decode_headers_def split_beta conn_ok_decoder [OF assms])
qed

lemma get_stream_ok:
  assumes "conn_ok c" and "get_stream c i = Some s"
  shows "stream_ok s" and "st_id s = i" and "key_ok c i"
proof -
  have "(i, s) \<in> set (c_streams c)" using assms(2) by (simp add: get_stream_def map_of_SomeD)
  with assms(1) show "stream_ok s" "st_id s = i" "key_ok c i"
    by (auto simp: conn_ok_def streams_ok_def)
qed

lemma conn_ok_put:
  assumes "conn_ok c" and "stream_ok s" and "st_id s = i" and "key_ok c i"
  shows "conn_ok (put_stream i s c)"
proof -
  have ok: "streams_ok c" using assms(1) by (simp add: conn_ok_def)
  have d: "distinct (map fst (AList.update i s (c_streams c)))"
    using ok by (simp add: streams_ok_def distinct_update)
  have "j = i \<and> t = s \<or> (j, t) \<in> set (c_streams c)" if "(j, t) \<in> set (AList.update i s (c_streams c))" for j t
  proof -
    have "map_of (AList.update i s (c_streams c)) j = Some t" using that d by simp
    then show ?thesis by (auto simp: AList.update_conv' dest: map_of_SomeD split: if_splits)
  qed
  then have "streams_ok (put_stream i s c)"
    using ok d assms key_ok_cong [of "put_stream i s c" c]
    by (fastforce simp: streams_ok_def put_stream_def)
  then show ?thesis using assms(1) by (simp add: conn_ok_def put_stream_def)
qed

lemma key_ok_simps [conn_simps]:
  "key_ok (put_stream i s c) = key_ok c"
  "key_ok (snd (on_tls f c)) = key_ok c"
  "key_ok (snd (decode_headers blk c)) = key_ok c"
  "key_ok (c\<lparr>c_recv_window := w\<rparr>) = key_ok c"
  by (rule key_ok_cong, simp add: conn_simps)+

lemma conn_ok_new: "connection_new t = Inr c \<Longrightarrow> conn_ok c"
  by (auto simp: connection_new_def conn_ok_def streams_ok_def encoder_ok_def conn_send_window_new_def
      conn_recv_window_new_def encoder_new_def decoder_ok_new enc_table.consistent_def
      split: sum.splits prod.splits)

lemma odd_add2:
  assumes "odd (unat n)" and "n < 0x80000000"
  shows "saturating_add32 n 2 = n + 2" "unat (n + 2) = unat n + 2" "odd (unat (n + 2))" "n + 2 \<le> 0x80000001"
proof -
  have n: "unat n < 0x80000000" using assms(2) by (simp add: word_less_nat_alt)
  then show u: "unat (n + 2) = unat n + 2" by (simp add: unat_word_ariths)
  show "saturating_add32 n 2 = n + 2" using n by (simp add: saturating_add32_def)
  show "odd (unat (n + 2))" using u assms(1) by simp
  show "n + 2 \<le> 0x80000001" using u n assms(1)
    by (simp add: word_le_nat_alt)
qed

subsection \<open>Every frame keeps the invariant\<close>

lemma conn_ok_open_stream:
  assumes "conn_ok c"
  shows "conn_ok (snd (open_stream c))"
proof -
  let ?i = "c_next_stream_id c"
  let ?c = "c\<lparr>c_next_stream_id := saturating_add32 ?i 2\<rparr>"
  have w: "uint (initial_window_size (c_peer c)) \<le> WINDOW_MAX"
    using assms by (simp add: conn_ok_def settings_ok_def word_le_def)
  have "conn_ok (put_stream ?i (stream_new ?i (uint (initial_window_size (c_peer ?c)))) ?c)"
    if lt: "?i < 0x80000000"
  proof (rule conn_ok_put)
    have odd: "odd (unat ?i)" using assms by (simp add: conn_ok_def)
    note next_id = odd_add2 [OF odd lt]
    have less: "?i < ?i + 2" using next_id(2) by (simp add: word_less_nat_alt)
    have "streams_ok ?c"
      using assms less by (auto simp: conn_ok_def streams_ok_def key_ok_def next_id(1) dest: less_trans)
    then show "conn_ok ?c" using assms next_id by (simp add: conn_ok_def)
    show "key_ok ?c ?i" using odd less by (simp add: key_ok_def next_id(1))
    show "stream_ok (stream_new ?i (uint (initial_window_size (c_peer ?c))))"
      using w by (simp add: stream_ok_new)
  qed (simp add: stream_new_def)
  then show ?thesis using assms by (auto simp: open_stream_def Let_def not_le)
qed

lemma conn_ok_bindS:
  "conn_ok (snd m) \<Longrightarrow> (\<And>x c. m = (Inr x, c) \<Longrightarrow> conn_ok c \<Longrightarrow> conn_ok (snd (f x c))) \<Longrightarrow>
     conn_ok (snd (bindS m f))"
  by (rule bindS_state)

lemma conn_ok_send_and_flush: "conn_ok c \<Longrightarrow> conn_ok (snd (send_and_flush f c))"
  unfolding send_and_flush_def by (intro conn_ok_bindS) (simp_all add: conn_simps)

lemma shift_windows_keys: "map fst (snd (shift_windows n ss)) = map fst ss"
  by (induction n ss rule: shift_windows.induct) (auto split: sum.splits prod.splits)

lemma shift_windows_all:
  assumes "\<And>i s w. Q (i, s) \<Longrightarrow> ssw_apply_initial_window_change n (st_send_window s) = Inr w \<Longrightarrow>
      Q (i, s\<lparr>st_send_window := w\<rparr>)"
  shows "list_all Q ss \<Longrightarrow> list_all Q (snd (shift_windows n ss))"
proof (induction ss)
  case (Cons p ss)
  obtain i s where "p = (i, s)" by fastforce
  with Cons assms show ?case by (simp add: split_beta split: sum.split)
qed simp

lemma encoder_ok_resize: "encoder_ok e \<Longrightarrow> encoder_ok (set_peer_max_table_size n e)"
  using set_peer_max_table_size_spec [of e n] table_size_fit [of n "e_table e"]
  by (simp add: encoder_ok_def enc_table.consistent_def)

lemma conn_ok_encoder: "conn_ok c \<Longrightarrow> encoder_ok e \<Longrightarrow> conn_ok (c\<lparr>c_encoder := e\<rparr>)"
  using streams_ok_cong [of "c\<lparr>c_encoder := e\<rparr>" c] by (simp add: conn_ok_def)

lemma conn_ok_encoder_resize:
  assumes "conn_ok c" and "e = c_encoder c"
  shows "conn_ok (c\<lparr>c_encoder := set_peer_max_table_size n e\<rparr>)"
  using assms by (intro conn_ok_encoder encoder_ok_resize) (simp_all add: conn_ok_def)

lemma conn_ok_peer: "conn_ok c \<Longrightarrow> settings_ok p \<Longrightarrow> conn_ok (c\<lparr>c_peer := p\<rparr>)"
  using streams_ok_cong [of "c\<lparr>c_peer := p\<rparr>" c] by (simp add: conn_ok_def)

lemma conn_ok_streams:
  assumes "conn_ok c" and "map fst ss = map fst (c_streams c)"
    and "\<And>i s. (i, s) \<in> set ss \<Longrightarrow> st_id s = i \<and> key_ok c i \<and> stream_ok s"
  shows "conn_ok (c\<lparr>c_streams := ss\<rparr>)"
  using assms key_ok_cong [of "c\<lparr>c_streams := ss\<rparr>" c] by (auto simp: conn_ok_def streams_ok_def)

lemma conn_ok_shift:
  assumes "conn_ok c"
  shows "conn_ok (snd (shift_all_windows (initial_window_size (c_peer c)) c))"
  unfolding shift_all_windows_def split_beta Let_def snd_conv
proof (rule conn_ok_streams [OF assms shift_windows_keys])
  have "initial_window_size (c_peer c) \<le> 0x7fffffff"
    using assms by (simp add: conn_ok_def settings_ok_def)
  then have "list_all (\<lambda>(i, s). st_id s = i \<and> key_ok c i \<and> stream_ok s)
      (snd (shift_windows (initial_window_size (c_peer c)) (c_streams c)))"
    using assms
    by (intro shift_windows_all)
      (auto simp: list_all_iff conn_ok_def streams_ok_def stream_ok_def dest: ssw_ok_initial_change)
  then show "st_id s = i \<and> key_ok c i \<and> stream_ok s"
    if "(i, s) \<in> set (snd (shift_windows (initial_window_size (c_peer c)) (c_streams c)))" for i s
    using that by (auto simp: list_all_iff)
qed

lemma conn_ok_resize_encoder: "conn_ok c \<Longrightarrow> conn_ok (resize_encoder old c)"
  by (simp add: resize_encoder_def conn_ok_encoder_resize)

lemma conn_ok_settings:
  assumes "conn_ok c"
  shows "conn_ok (snd (process_settings f c))"
  unfolding process_settings_def Let_def [of "initial_window_size _"] Let_def [of "header_table_size _"]
proof (intro conn_ok_bindS)
  have "settings_ok (snd (apply_settings_payload (f_payload f) (c_peer c)))"
    using assms by (intro settings_ok_payload) (simp add: conn_ok_def)
  then show "conn_ok (snd (let (r, peer) = apply_settings_payload (f_payload f) (c_peer c)
      in (r, c\<lparr>c_peer := peer\<rparr>)))"
    by (simp add: split_beta conn_ok_peer [OF assms])
next
  fix x c'
  assume "conn_ok c'"
  then show "conn_ok (snd (if initial_window_size (c_peer c') \<noteq> initial_window_size (c_peer c)
      then shift_all_windows (initial_window_size (c_peer c')) c' else (Inr (), c')))"
    by (simp add: conn_ok_shift)
next
  fix x c'
  assume "conn_ok c'"
  then show "conn_ok (snd (send_and_flush settings_ack (resize_encoder (header_table_size (c_peer c)) c')))"
    by (intro conn_ok_send_and_flush conn_ok_resize_encoder)
qed

lemma conn_ok_goaway:
  assumes "conn_ok c"
  shows "conn_ok (snd (process_goaway f c))"
proof -
  let ?c = "c\<lparr>c_goaway_received := Some (goaway_last (f_payload f))\<rparr>"
  have c: "conn_ok ?c" using assms streams_ok_cong [of ?c c] by (simp add: conn_ok_def)
  have "conn_ok (?c\<lparr>c_streams := map (\<lambda>(i, s). (i, if i > goaway_last (f_payload f)
      then s\<lparr>st_state := Closed\<rparr> else s)) (c_streams c)\<rparr>)"
  proof (rule conn_ok_streams [OF c])
    fix i s
    assume "(i, s) \<in> set (map (\<lambda>(i, s). (i, if i > goaway_last (f_payload f)
      then s\<lparr>st_state := Closed\<rparr> else s)) (c_streams c))"
    then obtain t where "(i, t) \<in> set (c_streams c)" "s = t \<or> s = t\<lparr>st_state := Closed\<rparr>" by auto
    then show "st_id s = i \<and> key_ok ?c i \<and> stream_ok s"
      using c by (fastforce simp: conn_ok_def streams_ok_def stream_ok_def)
  qed (simp add: case_prod_beta comp_def)
  then show ?thesis by (simp add: process_goaway_def Let_def)
qed

lemma conn_ok_conn_frame: "conn_ok c \<Longrightarrow> conn_ok (snd (process_conn_frame f c))"
proof -
  assume c: "conn_ok c"
  have win: "conn_ok (c\<lparr>c_send_window := w\<rparr>)"
    if "csw_apply_window_update inc (c_send_window c) = Inr w" for inc w
    using c that streams_ok_cong [of "c\<lparr>c_send_window := w\<rparr>" c] conn_window.upd_cases [OF that]
    by (simp add: conn_ok_def)
  show ?thesis
    using c win
    by (auto simp: process_conn_frame_def conn_ok_settings conn_ok_send_and_flush conn_ok_goaway
        bindR_eq_Inr split: sum.splits)
qed

lemma decode_headers_bounded:
  "decode_headers blk c = (Inr fs, c') \<Longrightarrow> table_size fs \<le> MAX_DECODED_HEADER_LIST"
  by (cases "decode_block blk (c_decoder c)") (auto simp: decode_headers_def dest: decode_block_bounded)

lemma conn_ok_headers_closed:
  assumes "conn_ok c" and "get_stream c sid = Some s"
  shows "conn_ok (snd (process_headers_closed sid frag eh s c))"
proof (cases "push_header_fragment frag s")
  case (Inl e)
  then show ?thesis
    using assms
    by (auto simp: process_headers_closed_def conn_ok_decode_headers intro!: conn_ok_bindS)
next
  case (Inr s')
  have "conn_ok (put_stream sid s' c)"
    using get_stream_ok [OF assms] stream_ok_push [OF Inr] push_header_fragment_ok(1) [OF Inr]
    by (intro conn_ok_put [OF assms(1)]) simp_all
  then show ?thesis
    using assms Inr
    by (auto simp: process_headers_closed_def conn_ok_decode_headers conn_simps intro!: conn_ok_bindS)
qed

text \<open>The common end of both header handlers: the block is decoded and the stream written back.\<close>

lemma conn_ok_finish_headers:
  assumes c: "conn_ok c" "key_ok c sid" and s: "stream_ok s" "st_id s = sid"
    and g: "\<And>fs. table_size fs \<le> MAX_DECODED_HEADER_LIST \<Longrightarrow>
        stream_ok (g fs (s\<lparr>st_headers_buf := []\<rparr>)) \<and> st_id (g fs (s\<lparr>st_headers_buf := []\<rparr>)) = sid"
  shows "conn_ok (snd (bindS (decode_headers blk (put_stream sid (s\<lparr>st_headers_buf := []\<rparr>) c))
    (\<lambda>fs c. (r fs, (put_stream sid (g fs (s\<lparr>st_headers_buf := []\<rparr>)) c)\<lparr>c_expecting_continuation := None\<rparr>))))"
proof (rule conn_ok_bindS)
  have "stream_ok (s\<lparr>st_headers_buf := []\<rparr>)" using s(1) by (simp add: stream_ok_def)
  then have put: "conn_ok (put_stream sid (s\<lparr>st_headers_buf := []\<rparr>) c)"
    using c s by (intro conn_ok_put) simp_all
  then show "conn_ok (snd (decode_headers blk (put_stream sid (s\<lparr>st_headers_buf := []\<rparr>) c)))"
    by (rule conn_ok_decode_headers)
  fix fs c'
  assume d: "decode_headers blk (put_stream sid (s\<lparr>st_headers_buf := []\<rparr>) c) = (Inr fs, c')" and ok: "conn_ok c'"
  have "key_ok c' sid"
    using c(2) key_ok_simps(3) [of blk "put_stream sid (s\<lparr>st_headers_buf := []\<rparr>) c"] d
    by (simp add: conn_simps)
  then show "conn_ok (snd (r fs, (put_stream sid (g fs (s\<lparr>st_headers_buf := []\<rparr>)) c')
      \<lparr>c_expecting_continuation := None\<rparr>))"
    using g [OF decode_headers_bounded [OF d]] ok by (simp add: conn_simps conn_ok_put)
qed

lemma stream_ok_simps [conn_simps]:
  "stream_ok (s\<lparr>st_end_stream_recv := b\<rparr>) = stream_ok s"
  "stream_ok (s\<lparr>st_state := t\<rparr>) = stream_ok s"
  "stream_ok (s\<lparr>st_pending_body := p\<rparr>) = stream_ok s"
  by (simp_all add: stream_ok_def)

lemma stream_ok_response:
  "stream_ok s \<Longrightarrow> table_size fs \<le> MAX_DECODED_HEADER_LIST \<Longrightarrow>
     stream_ok (s\<lparr>st_headers_buf := [], st_response_headers := Some fs\<rparr>)"
  by (simp add: stream_ok_def)

lemma conn_ok_headers:
  assumes "conn_ok c"
  shows "conn_ok (snd (process_headers f c))"
proof -
  let ?sid = "f_sid f" and ?es = "has_flag (f_flags f) FLAG_END_STREAM"
  have main: "conn_ok (snd (process_headers f c))"
    if frag: "headers_fragment (f_flags f) (f_payload f) = Inr frag"
      and s: "get_stream c ?sid = Some s" "st_state s \<noteq> Closed"
      and t: "recv_headers (st_state s) ?es = Inr t" and s': "push_header_fragment frag s = Inr s'" for frag s t s'
  proof -
    let ?s = "if ?es then s'\<lparr>st_end_stream_recv := True\<rparr> else s'"
    have ok: "stream_ok ?s" "st_id ?s = ?sid" "key_ok c ?sid"
      using get_stream_ok [OF assms s(1)] stream_ok_push [OF s'] push_header_fragment_ok(1) [OF s']
      by (simp_all add: conn_simps)
    have finish: "conn_ok (snd (bindS (decode_headers blk (put_stream ?sid (?s\<lparr>st_headers_buf := []\<rparr>) c))
        (\<lambda>decoded c. (Inr (outcome_of ?sid (?s\<lparr>st_headers_buf := [], st_response_headers := Some decoded, st_state := t\<rparr>)),
           (put_stream ?sid (?s\<lparr>st_headers_buf := [], st_response_headers := Some decoded, st_state := t\<rparr>) c)
             \<lparr>c_expecting_continuation := None\<rparr>))))" for blk
      using conn_ok_finish_headers [OF assms ok(3) ok(1,2),
          of "\<lambda>fs s. s\<lparr>st_response_headers := Some fs, st_state := t\<rparr>"
            blk "\<lambda>fs. Inr (outcome_of ?sid (?s\<lparr>st_headers_buf := [], st_response_headers := Some fs, st_state := t\<rparr>))"]
        stream_ok_response [OF ok(1)] ok(2)
      by (simp add: conn_simps)
    show ?thesis
      using frag s t s' finish ok conn_ok_put [OF assms, of "?s\<lparr>st_state := t\<rparr>" ?sid]
      by (cases ?es; cases "has_flag (f_flags f) FLAG_END_HEADERS")
        (simp_all add: process_headers_def Let_def conn_simps)
  qed
  show ?thesis
  proof (cases "headers_fragment (f_flags f) (f_payload f)")
    case (Inl e)
    with assms show ?thesis by (simp add: process_headers_def)
  next
    case frag: (Inr frag)
    show ?thesis
    proof (cases "get_stream c ?sid")
      case None
      with assms frag show ?thesis by (simp add: process_headers_def)
    next
      case s: (Some s)
      show ?thesis
      proof (cases "st_state s = Closed")
        case True
        with assms frag s show ?thesis by (simp add: process_headers_def conn_ok_headers_closed)
      next
        case False
        then show ?thesis
          using assms frag s main
          by (cases "recv_headers (st_state s) ?es"; cases "push_header_fragment frag s")
            (simp_all add: process_headers_def)
      qed
    qed
  qed
qed

lemma conn_ok_continuation:
  assumes "conn_ok c"
  shows "conn_ok (snd (process_continuation f c))"
proof -
  let ?sid = "f_sid f"
  have main: "conn_ok (snd (process_continuation f c))"
    if e: "c_expecting_continuation c = Some ?sid" and s: "get_stream c ?sid = Some s"
      and s': "push_header_fragment (f_payload f) s = Inr s'" for s s'
  proof -
    have ok: "stream_ok s'" "st_id s' = ?sid" "key_ok c ?sid"
      using get_stream_ok [OF assms s] stream_ok_push [OF s'] push_header_fragment_ok(1) [OF s']
      by simp_all
    have "conn_ok (put_stream ?sid s' c)" using ok by (intro conn_ok_put [OF assms])
    moreover have "conn_ok (snd (bindS (decode_headers blk (put_stream ?sid (s'\<lparr>st_headers_buf := []\<rparr>) c))
        (\<lambda>decoded c. let s = (if st_state s' \<noteq> Closed
              then s'\<lparr>st_headers_buf := [], st_response_headers := Some decoded\<rparr>
              else s'\<lparr>st_headers_buf := []\<rparr>)
           in (Inr (outcome_of ?sid s), (put_stream ?sid s c)\<lparr>c_expecting_continuation := None\<rparr>))))" for blk
    proof -
      let ?g = "\<lambda>fs s. if st_state s \<noteq> Closed then s\<lparr>st_response_headers := Some fs\<rparr> else s"
      have "stream_ok (s'\<lparr>st_headers_buf := []\<rparr>)" using ok by (simp add: stream_ok_def)
      then show ?thesis
        using conn_ok_finish_headers [OF assms ok(3) ok(1,2), of ?g blk
            "\<lambda>fs. Inr (outcome_of ?sid (?g fs (s'\<lparr>st_headers_buf := []\<rparr>)))"]
          stream_ok_response [OF ok(1)] ok(2)
        by (cases "st_state s' = Closed") (simp_all add: Let_def)
    qed
    ultimately show ?thesis
      using e s s' by (simp add: process_continuation_def Let_def)
  qed
  show ?thesis
  proof (cases "c_expecting_continuation c = Some ?sid")
    case True
    then show ?thesis
      using assms main
      by (cases "get_stream c ?sid"; cases "push_header_fragment (f_payload f) (the (get_stream c ?sid))")
        (simp_all add: process_continuation_def)
  qed (simp add: process_continuation_def assms)
qed

lemma conn_ok_recv_window:
  "conn_ok c \<Longrightarrow> crw_initial w = OUR_INITIAL_WINDOW \<Longrightarrow> crw_available w \<le> OUR_INITIAL_WINDOW \<Longrightarrow>
     conn_ok (c\<lparr>c_recv_window := w\<rparr>)"
  using streams_ok_cong [of "c\<lparr>c_recv_window := w\<rparr>" c] by (simp add: conn_ok_def)

lemma crw_replenish_ok:
  "crw_initial w = OUR_INITIAL_WINDOW \<Longrightarrow> crw_available w \<le> OUR_INITIAL_WINDOW \<Longrightarrow>
     crw_initial (snd (crw_replenish w)) = OUR_INITIAL_WINDOW \<and>
     crw_available (snd (crw_replenish w)) \<le> OUR_INITIAL_WINDOW"
  by (simp add: crw_replenish_def Let_def)

lemma srw_replenish_ok:
  "srw_initial w = OUR_INITIAL_WINDOW \<Longrightarrow> srw_available w \<le> OUR_INITIAL_WINDOW \<Longrightarrow>
     srw_initial (snd (srw_replenish sid w)) = OUR_INITIAL_WINDOW \<and>
     srw_available (snd (srw_replenish sid w)) \<le> OUR_INITIAL_WINDOW"
  by (simp add: srw_replenish_def Let_def)

lemma conn_ok_consume: "conn_ok c \<Longrightarrow> conn_ok (c\<lparr>c_recv_window := crw_consume n (c_recv_window c)\<rparr>)"
  by (rule conn_ok_recv_window) (simp_all add: crw_consume_def conn_ok_def)

lemma conn_ok_replenished:
  assumes "conn_ok c" and "crw_replenish (c_recv_window c) = (upd, w)"
  shows "conn_ok (c\<lparr>c_recv_window := w\<rparr>)"
  using conn_ok_recv_window [OF assms(1), of w] crw_replenish_ok [of "c_recv_window c"] assms
  by (simp add: conn_ok_def)

lemma conn_ok_write_update [conn_simps]: "conn_ok (snd (write_update upd c)) = conn_ok c"
  by (cases upd) (simp_all add: write_update_def conn_simps)

lemma key_ok_write_update [conn_simps]: "key_ok (snd (write_update upd c)) = key_ok c"
  by (cases upd) (simp_all add: write_update_def conn_simps)

lemma conn_ok_drop_data: "conn_ok c \<Longrightarrow> conn_ok (snd (drop_data c))"
  by (cases "crw_replenish (c_recv_window c)")
    (simp add: drop_data_def Let_def conn_ok_replenished conn_ok_send_and_flush split: option.split)

lemma conn_ok_replenish_conn:
  "conn_ok c \<Longrightarrow> conn_ok (snd (replenish_conn c)) \<and> key_ok (snd (replenish_conn c)) = key_ok c"
  by (cases "crw_replenish (c_recv_window c)")
    (simp add: replenish_conn_def conn_simps conn_ok_replenished)

lemma conn_ok_accept_data:
  assumes c: "conn_ok c" "key_ok c sid" and s: "stream_ok s" "st_id s = sid"
    and len: "length (st_body s) + length payload \<le> MAX_RESPONSE_BYTES"
  shows "conn_ok (snd (accept_data sid payload es t s c))"
proof -
  let ?s = "s\<lparr>st_body := st_body s @ payload, st_end_stream_recv := st_end_stream_recv s \<or> es, st_state := t\<rparr>"
  have s1: "stream_ok ?s" "st_id ?s = sid" using s len by (auto simp: stream_ok_def split: option.split)
  obtain upd w where r: "srw_replenish sid (st_recv_window ?s) = (upd, w)" by fastforce
  have s2: "stream_ok (?s\<lparr>st_recv_window := w\<rparr>)" "st_id (?s\<lparr>st_recv_window := w\<rparr>) = sid"
    using s1 srw_replenish_ok [of "st_recv_window ?s" sid] r by (auto simp: stream_ok_def)
  have c1: "conn_ok (put_stream sid ?s c)" by (rule conn_ok_put [OF c(1) s1 c(2)])
  note c2 = conn_ok_replenish_conn [OF c1]
  have "conn_ok (snd (bindS (write_update upd (put_stream sid (?s\<lparr>st_recv_window := w\<rparr>) c'))
      (\<lambda>_ c. bindS (on_tls flush c) (\<lambda>_ c. (Inr (outcome_of sid (?s\<lparr>st_recv_window := w\<rparr>)), c)))))"
    if "conn_ok c'" "key_ok c' sid" for c'
  proof -
    have "conn_ok (put_stream sid (?s\<lparr>st_recv_window := w\<rparr>) c')" by (rule conn_ok_put [OF that(1) s2 that(2)])
    then show ?thesis by (intro conn_ok_bindS) (simp_all add: conn_simps)
  qed
  note tail = this
  have k: "key_ok (snd (replenish_conn (put_stream sid ?s c))) sid" using c2 c(2) by (simp add: conn_simps)
  show ?thesis
    unfolding accept_data_def Let_def r prod.case
  proof (rule bindS_post [of "\<lambda>c. conn_ok c \<and> key_ok c sid"])
    show "conn_ok (snd (replenish_conn (put_stream sid ?s c))) \<and> key_ok (snd (replenish_conn (put_stream sid ?s c))) sid"
      using c2 k by blast
  qed (blast, blast intro: tail)
qed

lemma conn_ok_data:
  assumes "conn_ok c"
  shows "conn_ok (snd (process_data f c))"
proof -
  let ?sid = "f_sid f" and ?n = "length (f_payload f)"
  let ?c = "c\<lparr>c_recv_window := crw_consume ?n (c_recv_window c)\<rparr>"
  have c: "conn_ok ?c" by (rule conn_ok_consume [OF assms])
  have main: "conn_ok (snd (process_data f c))"
    if w: "\<not> crw_available (c_recv_window ?c) < 0" and s: "get_stream ?c ?sid = Some s" "st_state s \<noteq> Closed"
      and t: "recv_data (st_state s) (has_flag (f_flags f) FLAG_END_STREAM) = Inr t" for s t
  proof -
    let ?s = "s\<lparr>st_recv_window := srw_consume ?n (st_recv_window s)\<rparr>"
    have ok: "stream_ok ?s" "st_id ?s = ?sid" "key_ok ?c ?sid"
      using get_stream_ok [OF c s(1)] by (auto simp: stream_ok_def srw_consume_def)
    have c1: "conn_ok (put_stream ?sid ?s ?c)" by (rule conn_ok_put [OF c ok])
    have "conn_ok (snd (accept_data ?sid p es t ?s (put_stream ?sid ?s ?c)))"
      if "\<not> saturating_add_usize (length (st_body ?s)) (length p) > MAX_RESPONSE_BYTES" for p es
      using that ok by (intro conn_ok_accept_data [OF c1])
        (auto simp: conn_simps saturating_add_usize_def min_def split: if_splits)
    with c1 w s t show ?thesis
      by (simp add: process_data_def Let_def split: sum.split)
  qed
  show ?thesis
  proof (cases "crw_available (c_recv_window ?c) < 0")
    case True
    with c show ?thesis by (simp add: process_data_def Let_def)
  next
    case w: False
    show ?thesis
    proof (cases "get_stream ?c ?sid")
      case None
      with w c show ?thesis by (simp add: process_data_def Let_def conn_ok_drop_data)
    next
      case (Some s)
      with w c main show ?thesis
        by (cases "recv_data (st_state s) (has_flag (f_flags f) FLAG_END_STREAM)")
          (auto simp: process_data_def Let_def)
    qed
  qed
qed

lemma conn_ok_rst: "conn_ok c \<Longrightarrow> conn_ok (snd (process_rst f c))"
  using get_stream_ok [of c "f_sid f"]
  by (auto simp: process_rst_def Let_def conn_simps conn_ok_put split: option.split sum.split)

lemma conn_ok_stream_window_update:
  assumes "conn_ok c"
  shows "conn_ok (snd (process_stream_window_update f c))"
proof -
  have "conn_ok (put_stream (f_sid f) (s\<lparr>st_send_window := w\<rparr>) c)"
    if "get_stream c (f_sid f) = Some s" "ssw_apply_window_update inc (st_send_window s) = Inr w" for s w inc
    using get_stream_ok [OF assms that(1)] ssw_ok_update [OF that(2)]
    by (intro conn_ok_put [OF assms]) (auto simp: stream_ok_def)
  with assms show ?thesis
    by (auto simp: process_stream_window_update_def split: sum.split option.split)
qed

lemma conn_ok_process_frame:
  assumes "conn_ok c"
  shows "conn_ok (snd (process_frame f c))"
proof -
  have "conn_ok (snd (process_stream_frame f c))"
    using assms
    by (simp add: process_stream_frame_def conn_ok_headers conn_ok_continuation conn_ok_data conn_ok_rst
        conn_ok_stream_window_update)
  with assms show ?thesis by (simp add: process_frame_def conn_ok_conn_frame)
qed

lemma conn_ok_read_and_dispatch: "conn_ok c \<Longrightarrow> conn_ok (snd (read_and_dispatch c))"
  by (cases "read_frame (c_tls c)")
    (simp add: read_and_dispatch_def Let_def conn_simps conn_ok_process_frame split: sum.split)

text \<open>Whatever frames the peer sends, in whatever order, until the first error.\<close>

fun process_frames :: "frame list \<Rightarrow> connection \<Rightarrow> dispatch_outcome list result \<times> connection" where
  "process_frames [] c = (Inr [], c)"
| "process_frames (f # fs) c =
     bindS (process_frame f c) (\<lambda>o1 c.
       bindS (process_frames fs c) (\<lambda>os c. (Inr (o1 # os), c)))"

lemma conn_ok_process_frames: "conn_ok c \<Longrightarrow> conn_ok (snd (process_frames fs c))"
proof (induction fs arbitrary: c)
  case (Cons f fs)
  show ?case
    unfolding process_frames.simps
  proof (rule conn_ok_bindS [OF conn_ok_process_frame [OF Cons.prems]])
    fix o1 c'
    assume "conn_ok c'"
    then show "conn_ok (snd (bindS (process_frames fs c') (\<lambda>os c. (Inr (o1 # os), c))))"
      by (intro conn_ok_bindS Cons.IH) simp_all
  qed
qed simp

subsection \<open>Properties\<close>



definition example_connection :: connection where
  "example_connection =
     \<lparr>c_tls = fresh_transport, c_peer = peer_settings_default, c_send_window = conn_send_window_new,
      c_recv_window = conn_recv_window_new, c_decoder = decoder_new, c_encoder = encoder_new, c_streams = [],
      c_next_stream_id = 1, c_goaway_received = None, c_expecting_continuation = None\<rparr>"

lemma conn_ok_example: "conn_ok example_connection"
  by (simp add: example_connection_def conn_ok_def streams_ok_def encoder_ok_def conn_send_window_new_def
      conn_recv_window_new_def encoder_new_def decoder_ok_new enc_table.consistent_def)

text \<open>While a header block is open, every frame other than its CONTINUATION is a connection error and
  changes nothing (RFC 9113 6.10).\<close>

lemma open_block_admits_only_continuation:
  assumes "c_expecting_continuation c = Some sid" and "f_typ f \<noteq> F_CONTINUATION \<or> f_sid f \<noteq> sid"
  shows "\<exists>m. process_frame f c = (Inl (BadResponse m), c)"
  using assms by (auto simp: process_frame_def)

lemma open_block_admits_only_continuation_witness:
  "\<exists>m. process_frame \<lparr>f_typ = 6, f_flags = 0, f_sid = 0, f_payload = []\<rparr> (example_connection\<lparr>c_expecting_continuation := Some 3\<rparr>)
     = (Inl (BadResponse m), example_connection\<lparr>c_expecting_continuation := Some 3\<rparr>)"
  by (rule open_block_admits_only_continuation [where sid = 3]) simp_all

text \<open>Stream ids are handed out odd and strictly increasing: the new stream gets the next id, it was not in
  use, and every later one is larger (RFC 9113 5.1.1).\<close>

lemma stream_ids_fresh_odd_increasing:
  assumes "conn_ok c" and "open_stream c = (Inr i, c')"
  shows "odd (unat i) \<and> get_stream c i = None \<and> get_stream c' i \<noteq> None \<and> i < c_next_stream_id c' \<and>
    c_next_stream_id c' = i + 2"
proof -
  from assms(2) have i: "i = c_next_stream_id c" and lt: "i < 0x80000000"
    and c': "c_next_stream_id c' = saturating_add32 i 2" "get_stream c' i \<noteq> None"
    by (auto simp: open_stream_def Let_def conn_simps not_le split: if_splits)
  have odd: "odd (unat i)" using assms(1) i by (simp add: conn_ok_def)
  have "get_stream c i = None"
    using get_stream_ok(3) [OF assms(1), of i] i by (cases "get_stream c i") (auto simp: key_ok_def)
  with odd c' odd_add2 [OF odd lt] show ?thesis by (simp add: word_less_nat_alt)
qed

lemma stream_ids_fresh_odd_increasing_witness:
  "\<exists>c'. open_stream example_connection = (Inr 1, c') \<and> c_next_stream_id c' = 3"
proof -
  have "fst (open_stream example_connection) = Inr 1"
    by (simp add: open_stream_def example_connection_def peer_settings_default_def Let_def word_le_def)
  then obtain c' where o: "open_stream example_connection = (Inr 1, c')"
    by (cases "open_stream example_connection") simp
  from stream_ids_fresh_odd_increasing [OF conn_ok_example o] o show ?thesis by simp
qed

end
