(* ===== verification/H2_Drive.thy ===== *)
theory H2_Drive
  imports H2_Conn
begin

text \<open>
  The single-request driver of an HTTP/2 connection (\<open>send_request_on\<close>, \<open>drive_until_stream_done\<close> and
  \<open>run_one_request\<close> of \<open>src/src/http2.rs\<close>): HEADERS and CONTINUATION frames, then DATA as flow control
  allows, reading inbound frames while it is blocked, then reading until the stream is done.

  Every read takes at least nine bytes off the transport, so the reading loops are total functions.
  The sending loop makes progress only while the peer's frame size is not zero; it is a partial
  function, and \<open>send_body_returns\<close> shows that it returns on every connection that satisfies
  \<open>conn_ok\<close>.  \<open>unwrap\<close> on a missing stream is the error \<open>panicked\<close>, which is shown not to occur.
\<close>

subsection \<open>Reading consumes input\<close>

abbreviation unread :: "connection \<Rightarrow> bytes" where
  "unread c \<equiv> t_in (c_tls c)"

text \<open>What no handler touches: the input still to be read, and the next stream id.\<close>

definition kept :: "connection \<Rightarrow> bytes \<times> u32" where
  "kept c = (unread c, c_next_stream_id c)"

named_theorems kept_simps

declare write_frame_in [kept_simps]

lemma kept_on_tls:
  "(\<And>t. t_in (snd (f t)) = t_in t) \<Longrightarrow> kept (snd (on_tls f c)) = kept c"
  by (simp add: on_tls_def kept_def split_beta)

lemma kept_bindS:
  "kept (snd m) = kept c \<Longrightarrow> (\<And>x c'. m = (Inr x, c') \<Longrightarrow> kept c' = kept c \<Longrightarrow> kept (snd (f x c')) = kept c) \<Longrightarrow>
     kept (snd (bindS m f)) = kept c"
  by (rule bindS_state [where P = "\<lambda>c'. kept c' = kept c"])

lemma kept_updates [kept_simps]:
  "kept (put_stream i s c) = kept c"
  "kept (remove_stream i c) = kept c"
  "kept (snd (decode_headers blk c)) = kept c"
  "kept (snd (shift_all_windows n c)) = kept c"
  "kept (resize_encoder n c) = kept c"
  "kept (snd (on_tls (write_frame f) c)) = kept c"
  "kept (snd (on_tls flush c)) = kept c"
  by (simp_all add: put_stream_def remove_stream_def decode_headers_def shift_all_windows_def
      resize_encoder_def on_tls_def kept_def split_beta write_frame_in)

lemma kept_fields [kept_simps]:
  "kept (c\<lparr>c_expecting_continuation := x\<rparr>) = kept c"
  "kept (c\<lparr>c_recv_window := w\<rparr>) = kept c"
  "kept (c\<lparr>c_send_window := sw\<rparr>) = kept c"
  "kept (c\<lparr>c_peer := p\<rparr>) = kept c"
  "kept (c\<lparr>c_encoder := e\<rparr>) = kept c"
  "kept (c\<lparr>c_streams := ss\<rparr>) = kept c"
  "kept (c\<lparr>c_goaway_received := g\<rparr>) = kept c"
  by (simp_all add: kept_def)

lemma kept_send_and_flush [kept_simps]: "kept (snd (send_and_flush f c)) = kept c"
  unfolding send_and_flush_def by (intro kept_bindS) (simp_all add: kept_simps)

lemma kept_write_update [kept_simps]: "kept (snd (write_update u c)) = kept c"
  by (cases u) (simp_all add: write_update_def kept_simps)

lemma kept_settings [kept_simps]: "kept (snd (process_settings f c)) = kept c"
  unfolding process_settings_def Let_def split_beta
  by (intro kept_bindS) (simp_all add: kept_simps)

lemma kept_conn_frame [kept_simps]: "kept (snd (process_conn_frame f c)) = kept c"
  by (auto simp: process_conn_frame_def process_goaway_def Let_def kept_simps split: sum.split)

lemma kept_headers [kept_simps]: "kept (snd (process_headers f c)) = kept c"
  by (auto simp: process_headers_def process_headers_closed_def Let_def kept_simps
      intro!: kept_bindS split: sum.split option.split)

lemma kept_continuation [kept_simps]: "kept (snd (process_continuation f c)) = kept c"
  by (auto simp: process_continuation_def Let_def kept_simps intro!: kept_bindS
      split: sum.split option.split)

lemma kept_accept [kept_simps]: "kept (snd (accept_data sid p es t s c)) = kept c"
  unfolding accept_data_def replenish_conn_def Let_def split_beta
  by (intro kept_bindS) (simp_all add: kept_simps)

lemma kept_data [kept_simps]: "kept (snd (process_data f c)) = kept c"
  by (auto simp: process_data_def drop_data_def Let_def kept_simps split_beta
      split: sum.split option.split)

lemma kept_process_frame [kept_simps]: "kept (snd (process_frame f c)) = kept c"
  by (auto simp: process_frame_def process_stream_frame_def process_rst_def process_stream_window_update_def
      Let_def kept_simps split: sum.split option.split)

lemma unread_process_frame: "unread (snd (process_frame f c)) = unread c"
  and next_id_process_frame: "c_next_stream_id (snd (process_frame f c)) = c_next_stream_id c"
  using kept_process_frame [of f c] by (simp_all add: kept_def)

lemma read_frame_consumes: "read_frame t = (Inr f, t') \<Longrightarrow> length (t_in t') < length (t_in t)"
  by (auto simp: read_frame_def read_exact_def Let_def bindS_eq_Inr split: if_splits)

lemma read_and_dispatch_next_id:
  "c_next_stream_id (snd (read_and_dispatch c)) = c_next_stream_id c"
  by (auto simp: read_and_dispatch_def Let_def next_id_process_frame split: prod.split sum.split)

lemma read_and_dispatch_consumes:
  assumes "read_and_dispatch c = (Inr out, c')"
  shows "length (unread c') < length (unread c)"
proof -
  obtain r t where r: "read_frame (c_tls c) = (r, t)" by fastforce
  with assms obtain f where f: "r = Inr f" "process_frame f (c\<lparr>c_tls := t\<rparr>) = (Inr out, c')"
    by (cases r) (auto simp: read_and_dispatch_def)
  then have "unread c' = t_in t" using unread_process_frame [of f "c\<lparr>c_tls := t\<rparr>"] by simp
  with read_frame_consumes r f(1) show ?thesis by simp
qed

subsection \<open>Sending a request\<close>

text \<open>The panic of \<open>unwrap\<close> on \<open>None\<close>.\<close>

definition panicked :: error where
  "panicked = BadResponse ''called `Option::unwrap()` on a `None` value''"

fun write_header_frames :: "frame list \<Rightarrow> connection \<Rightarrow> unit result \<times> connection" where
  "write_header_frames [] c = (Inr (), c)"
| "write_header_frames (f # fs) c = bindS (on_tls (write_frame f) c) (\<lambda>_ c. write_header_frames fs c)"

text \<open>The stream's transition for an outbound frame.\<close>

definition advance_send :: "u32 \<Rightarrow> bool \<Rightarrow> connection \<Rightarrow> unit result \<times> connection" where
  "advance_send sid end_stream c =
     (case get_stream c sid of
        None \<Rightarrow> (Inl (BadResponse ''stream {stream_id} not found''), c)
      | Some s \<Rightarrow>
          (case send_data (st_state s) end_stream of
             Inl e \<Rightarrow> (Inl e, c)
           | Inr t \<Rightarrow> (Inr (), put_stream sid (s\<lparr>st_state := t\<rparr>) c)))"

text \<open>The inner loop: read frames until both windows have budget.\<close>

function wait_for_budget :: "u32 \<Rightarrow> connection \<Rightarrow> unit result \<times> connection" where
  "wait_for_budget sid c =
     (case get_stream c sid of
        None \<Rightarrow> (Inl (BadResponse ''stream {stream_id} disappeared mid-send''), c)
      | Some s \<Rightarrow>
          if send_budget s (c_send_window c) > 0 then (Inr (), c)
          else bindS (read_and_dispatch c) (\<lambda>out c'.
            case out of
              Continue \<Rightarrow> wait_for_budget sid c'
            | Done done_id \<Rightarrow>
                if done_id = sid
                then (Inl (BadResponse ''server ended stream before request body was fully sent''), c')
                else wait_for_budget sid c'))"
  by pat_completeness auto
termination
  by (relation "measure (\<lambda>(sid, c). length (unread c))") (auto dest: read_and_dispatch_consumes)

declare wait_for_budget.simps [simp del]

text \<open>One DATA frame, billed to both windows; then the stream's transition.\<close>

definition data_frame :: "u32 \<Rightarrow> bytes \<Rightarrow> bool \<Rightarrow> frame" where
  "data_frame sid chunk is_last =
     \<lparr>f_typ = F_DATA, f_flags = (if is_last then FLAG_END_STREAM else 0), f_sid = sid, f_payload = chunk\<rparr>"

definition send_chunk :: "u32 \<Rightarrow> bytes \<Rightarrow> bool \<Rightarrow> connection \<Rightarrow> unit result \<times> connection" where
  "send_chunk sid chunk is_last c =
     bindS (on_tls (write_frame (data_frame sid chunk is_last)) c) (\<lambda>_ c.
       let c = c\<lparr>c_send_window := csw_consume (length chunk) (c_send_window c)\<rparr> in
       case get_stream c sid of
         None \<Rightarrow> (Inl panicked, c)
       | Some s \<Rightarrow>
           let s = s\<lparr>st_send_window := ssw_consume (length chunk) (st_send_window s)\<rparr> in
           (case send_data (st_state s) is_last of
              Inl e \<Rightarrow> (Inl e, put_stream sid s c)
            | Inr t \<Rightarrow> (Inr (), put_stream sid (s\<lparr>st_state := t\<rparr>) c)))"

text \<open>The outer loop over what is left of the body; \<open>None\<close> stands for not returning.\<close>

partial_function (option) send_body :: "u32 \<Rightarrow> bytes \<Rightarrow> connection \<Rightarrow> (unit result \<times> connection) option" where
  "send_body sid remaining c =
     (if remaining = [] then Some (Inr (), c)
      else case wait_for_budget sid c of
        (Inl e, c) \<Rightarrow> Some (Inl e, c)
      | (Inr _, c) \<Rightarrow>
          (case get_stream c sid of
             None \<Rightarrow> Some (Inl panicked, c)
           | Some s \<Rightarrow>
               let n = next_data_chunk_size (unat (max_frame_size (c_peer c)))
                         (send_budget s (c_send_window c)) (length remaining);
                   rest = drop n remaining
               in case send_chunk sid (take n remaining) (rest = []) c of
                    (Inl e, c) \<Rightarrow> Some (Inl e, c)
                  | (Inr _, c) \<Rightarrow> send_body sid rest c))"

definition send_request_on :: "u32 \<Rightarrow> request \<Rightarrow> connection \<Rightarrow> (unit result \<times> connection) option" where
  "send_request_on sid req c =
     (let (header_block, e) = build_header_block (c_encoder c) req;
          c = c\<lparr>c_encoder := e\<rparr>;
          has_body = (rq_body req \<noteq> []);
          header_frames = fragment_header_block sid header_block
            (unat (max_frame_size (c_peer c))) (\<not> has_body)
      in case bindS (write_header_frames header_frames c) (\<lambda>_ c. advance_send sid (\<not> has_body) c) of
           (Inl e, c) \<Rightarrow> Some (Inl e, c)
         | (Inr _, c) \<Rightarrow>
             map_option (\<lambda>m. bindS m (\<lambda>_ c. on_tls flush c))
               (if has_body then send_body sid (rq_body req) c else Some (Inr (), c)))"

subsection \<open>Reading the response\<close>

definition unwrap_removed :: "u32 \<Rightarrow> connection \<Rightarrow> stream result \<times> connection" where
  "unwrap_removed sid c =
     (case get_stream c sid of
        None \<Rightarrow> (Inl panicked, c)
      | Some s \<Rightarrow> (Inr s, remove_stream sid c))"

function drive_until_stream_done :: "u32 \<Rightarrow> connection \<Rightarrow> stream result \<times> connection" where
  "drive_until_stream_done sid c =
     (case get_stream c sid of
        None \<Rightarrow> (Inl (BadResponse ''stream {stream_id} not registered''), c)
      | Some s \<Rightarrow>
          if stream_done s then unwrap_removed sid c
          else bindS (read_and_dispatch c) (\<lambda>out c'.
            case out of
              Continue \<Rightarrow> drive_until_stream_done sid c'
            | Done done_id \<Rightarrow>
                if done_id = sid then unwrap_removed sid c' else drive_until_stream_done sid c'))"
  by pat_completeness auto
termination
  by (relation "measure (\<lambda>(sid, c). length (unread c))") (auto dest: read_and_dispatch_consumes)

declare drive_until_stream_done.simps [simp del]

definition run_one_request :: "decoders \<Rightarrow> request \<Rightarrow> connection \<Rightarrow> (response result \<times> connection) option" where
  "run_one_request A req c =
     (case open_stream c of
        (Inl e, c) \<Rightarrow> Some (Inl e, c)
      | (Inr sid, c) \<Rightarrow>
          map_option (\<lambda>m. bindS m (\<lambda>_ c.
              bindS (drive_until_stream_done sid c) (\<lambda>s c.
                (build_response_from_stream A s, prune_completed_streams c))))
            (send_request_on sid req c))"

subsection \<open>A finished stream is there\<close>

lemma get_stream_other [simp]:
  "get_stream (c\<lparr>c_expecting_continuation := x\<rparr>) = get_stream c"
  "get_stream (c\<lparr>c_recv_window := w\<rparr>) = get_stream c"
  "get_stream (c\<lparr>c_send_window := sw\<rparr>) = get_stream c"
  "get_stream (c\<lparr>c_tls := t\<rparr>) = get_stream c"
  "get_stream (c\<lparr>c_encoder := e\<rparr>) = get_stream c"
  "get_stream (c\<lparr>c_decoder := d\<rparr>) = get_stream c"
  "get_stream (c\<lparr>c_peer := p\<rparr>) = get_stream c"
  by (simp_all add: get_stream_def fun_eq_iff)

lemma get_stream_on_tls: "on_tls f c = (r, c') \<Longrightarrow> get_stream c' = get_stream c"
  by (auto simp: on_tls_def split: prod.splits)

lemma get_stream_decode: "decode_headers blk c = (r, c') \<Longrightarrow> get_stream c' = get_stream c"
  by (auto simp: decode_headers_def split: prod.splits)

lemma outcome_of_Done [simp]: "outcome_of sid s = Done i \<longleftrightarrow> i = sid \<and> stream_done s"
  by (auto simp: outcome_of_def)

lemma write_update_streams: "write_update u c = (r, c') \<Longrightarrow> get_stream c' = get_stream c"
  by (cases u) (auto simp: write_update_def dest: get_stream_on_tls)

lemma send_and_flush_not_Done: "send_and_flush f c \<noteq> (Inr (Done i), c')"
  by (auto simp: send_and_flush_def bindS_eq_Inr)

lemma conn_frame_not_Done: "process_conn_frame f c \<noteq> (Inr (Done i), c')"
  by (auto simp: process_conn_frame_def process_settings_def process_goaway_def Let_def bindS_eq_Inr
      send_and_flush_not_Done split: sum.splits)

lemma headers_Done:
  "process_headers f c = (Inr (Done i), c') \<Longrightarrow> \<exists>s. get_stream c' i = Some s \<and> stream_done s"
  by (auto simp: process_headers_def process_headers_closed_def Let_def bindS_eq_Inr conn_simps
      split: sum.splits option.splits if_splits)

lemma continuation_Done:
  "process_continuation f c = (Inr (Done i), c') \<Longrightarrow> \<exists>s. get_stream c' i = Some s \<and> stream_done s"
  by (auto simp: process_continuation_def Let_def bindS_eq_Inr conn_simps
      split: sum.splits option.splits if_splits)

lemma accept_data_Done:
  "accept_data sid p es t s c = (Inr (Done i), c') \<Longrightarrow> \<exists>s. get_stream c' i = Some s \<and> stream_done s"
  by (cases "srw_replenish sid (st_recv_window s)")
    (auto simp: accept_data_def Let_def bindS_eq_Inr conn_simps
      dest!: get_stream_on_tls write_update_streams)

lemma data_Done:
  "process_data f c = (Inr (Done i), c') \<Longrightarrow> \<exists>s. get_stream c' i = Some s \<and> stream_done s"
  by (auto simp: process_data_def drop_data_def Let_def send_and_flush_not_Done
      split: sum.splits option.splits if_splits prod.splits dest: accept_data_Done)

lemma process_frame_Done:
  "process_frame f c = (Inr (Done i), c') \<Longrightarrow> \<exists>s. get_stream c' i = Some s \<and> stream_done s"
  by (auto simp: process_frame_def process_stream_frame_def process_rst_def process_stream_window_update_def
      Let_def conn_frame_not_Done split: if_splits sum.splits option.splits
      dest: headers_Done continuation_Done data_Done)

lemma read_and_dispatch_Done:
  "read_and_dispatch c = (Inr (Done i), c') \<Longrightarrow> \<exists>s. get_stream c' i = Some s \<and> stream_done s"
  by (auto simp: read_and_dispatch_def Let_def split: prod.splits sum.splits dest: process_frame_Done)

subsection \<open>The invariant along the drivers\<close>

lemma encoder_ok_signal [simp]: "encoder_ok (e\<lparr>e_signal := x\<rparr>) = encoder_ok e"
  by (simp add: encoder_ok_def enc_table.consistent_def)

lemma encoder_ok_insert: "encoder_ok e \<Longrightarrow> encoder_ok (enc_insert n v e)"
  using enc_table.ins_spec [of e n v] enc_table.ins_bounded [of e n v] by (simp add: encoder_ok_def)

lemma encoder_ok_header: "encoder_ok e \<Longrightarrow> encoder_ok (snd (encode_header out n v e))"
  by (simp add: encode_header_def Let_def encoder_ok_insert split: option.split)

lemma encoder_ok_headers: "encoder_ok e \<Longrightarrow> encoder_ok (snd (encode_headers out fs e))"
proof (induction fs arbitrary: out e)
  case (Cons f fs)
  obtain n v where f: "f = (n, v)" by fastforce
  obtain out1 e1 where h: "encode_header out n v e = (out1, e1)" by fastforce
  with encoder_ok_header [OF Cons.prems, of out n v] have "encoder_ok e1" by simp
  from Cons.IH [OF this] show ?case by (simp add: f h)
qed simp

lemma conn_ok_built:
  assumes "conn_ok c" and "build_header_block (c_encoder c) req = (blk, e)"
  shows "conn_ok (c\<lparr>c_encoder := e\<rparr>)"
  using encoder_ok_headers [of "c_encoder c" "[]" "wire_fields req"] assms
  by (intro conn_ok_encoder) (simp_all add: build_header_block_fields conn_ok_def)

lemma conn_ok_write_headers: "conn_ok c \<Longrightarrow> conn_ok (snd (write_header_frames fs c))"
  by (induction fs arbitrary: c) (auto simp: conn_simps intro!: conn_ok_bindS)

lemma conn_ok_put_state:
  assumes "conn_ok c" and "get_stream c sid = Some s"
  shows "conn_ok (put_stream sid (s\<lparr>st_state := t\<rparr>) c)"
  using get_stream_ok [OF assms] by (intro conn_ok_put [OF assms(1)]) (simp_all add: conn_simps)

lemma conn_ok_advance: "conn_ok c \<Longrightarrow> conn_ok (snd (advance_send sid es c))"
  by (auto simp: advance_send_def conn_ok_put_state split: option.split sum.split)

lemma conn_ok_wait: "conn_ok c \<Longrightarrow> conn_ok (snd (wait_for_budget sid c))"
proof (induction sid c rule: wait_for_budget.induct)
  case (1 sid c)
  show ?case
  proof (cases "get_stream c sid")
    case (Some s)
    have "conn_ok (snd (bindS (read_and_dispatch c) (\<lambda>out c'.
            case out of
              Continue \<Rightarrow> wait_for_budget sid c'
            | Done done_id \<Rightarrow>
                if done_id = sid
                then (Inl (BadResponse ''server ended stream before request body was fully sent''), c')
                else wait_for_budget sid c')))" if "\<not> 0 < send_budget s (c_send_window c)"
      using 1 Some that
      by (intro conn_ok_bindS conn_ok_read_and_dispatch) (auto split: dispatch_outcome.split)
    with 1 Some show ?thesis by (subst wait_for_budget.simps) simp
  qed (subst wait_for_budget.simps, simp add: 1)
qed

lemma wait_has_budget:
  "wait_for_budget sid c = (Inr (), c') \<Longrightarrow>
     \<exists>s. get_stream c' sid = Some s \<and> 0 < send_budget s (c_send_window c')"
proof (induction sid c rule: wait_for_budget.induct)
  case (1 sid c)
  show ?case
  proof (cases "get_stream c sid")
    case None
    with 1(3) show ?thesis by (subst (asm) wait_for_budget.simps) simp
  next
    case (Some s)
    show ?thesis
    proof (cases "0 < send_budget s (c_send_window c)")
      case True
      with 1(3) Some show ?thesis by (subst (asm) wait_for_budget.simps) auto
    next
      case False
      with 1(3) Some obtain out d where rd: "read_and_dispatch c = (Inr out, d)"
        and k: "(case out of
              Continue \<Rightarrow> wait_for_budget sid d
            | Done done_id \<Rightarrow>
                if done_id = sid
                then (Inl (BadResponse ''server ended stream before request body was fully sent''), d)
                else wait_for_budget sid d) = (Inr (), c')"
        by (auto simp: wait_for_budget.simps [of sid c] bindS_eq_Inr)
      show ?thesis
      proof (cases out)
        case Continue
        with 1(1) [OF Some False rd] k show ?thesis by simp
      next
        case (Done i)
        with k have "i \<noteq> sid" "wait_for_budget sid d = (Inr (), c')" by (auto split: if_splits)
        with 1(2) [OF Some False rd Done] show ?thesis by blast
      qed
    qed
  qed
qed

lemma conn_ok_consume_send:
  assumes "conn_ok c" and "int n \<le> csw_available (c_send_window c)"
  shows "conn_ok (c\<lparr>c_send_window := csw_consume n (c_send_window c)\<rparr>)"
  using assms streams_ok_cong [of "c\<lparr>c_send_window := csw_consume n (c_send_window c)\<rparr>" c]
  by (simp add: conn_ok_def csw_consume_def)

lemma stream_ok_consume:
  assumes "stream_ok s" and "int n \<le> ssw_available (st_send_window s)"
  shows "stream_ok (s\<lparr>st_send_window := ssw_consume n (st_send_window s)\<rparr>)"
  using assms by (auto simp: stream_ok_def ssw_ok_def ssw_consume_def)

lemma conn_ok_send_chunk:
  assumes c: "conn_ok c" "get_stream c sid = Some s"
    and n: "int (length chunk) \<le> send_budget s (c_send_window c)"
  shows "conn_ok (snd (send_chunk sid chunk is_last c))"
proof -
  have "conn_ok (snd (let c = c'\<lparr>c_send_window := csw_consume (length chunk) (c_send_window c')\<rparr> in
       case get_stream c sid of
         None \<Rightarrow> (Inl panicked, c)
       | Some s \<Rightarrow>
           let s = s\<lparr>st_send_window := ssw_consume (length chunk) (st_send_window s)\<rparr> in
           (case send_data (st_state s) is_last of
              Inl e \<Rightarrow> (Inl e, put_stream sid s c)
            | Inr t \<Rightarrow> (Inr (), put_stream sid (s\<lparr>st_state := t\<rparr>) c))))"
    if w: "on_tls (write_frame (data_frame sid chunk is_last)) c = (x, c')" and ok: "conn_ok c'" for x c'
  proof -
    have same: "get_stream c' = get_stream c" "c_send_window c' = c_send_window c"
      using w get_stream_on_tls [OF w] by (auto simp: on_tls_def split: prod.splits)
    let ?c = "c'\<lparr>c_send_window := csw_consume (length chunk) (c_send_window c')\<rparr>"
    have ok1: "conn_ok ?c" using n same ok by (intro conn_ok_consume_send) (simp_all add: send_budget_def)
    have get: "get_stream ?c sid = Some s" using c(2) same by simp
    let ?s = "s\<lparr>st_send_window := ssw_consume (length chunk) (st_send_window s)\<rparr>"
    have s: "stream_ok ?s" "st_id ?s = sid" "key_ok ?c sid"
      using get_stream_ok [OF ok1 get] n by (auto intro: stream_ok_consume simp: send_budget_def)
    have "conn_ok (put_stream sid (?s\<lparr>st_state := t\<rparr>) ?c)" for t
      using s by (intro conn_ok_put [OF ok1]) (simp_all add: conn_simps)
    with conn_ok_put [OF ok1 s] get show ?thesis by (simp add: Let_def split: sum.split)
  qed
  then show ?thesis
    unfolding send_chunk_def using c(1) by (intro conn_ok_bindS) (simp_all add: conn_simps)
qed

text \<open>The sending loop returns: every round shortens what is left.\<close>

lemma send_body_returns:
  "conn_ok c \<Longrightarrow> \<exists>r c'. send_body sid remaining c = Some (r, c') \<and> conn_ok c'"
proof (induction "length remaining" arbitrary: remaining c rule: less_induct)
  case less
  show ?case
  proof (cases "remaining = []")
    case True
    with less(2) show ?thesis by (subst send_body.simps) simp
  next
    case ne: False
    obtain r c1 where w: "wait_for_budget sid c = (r, c1)" by fastforce
    have ok1: "conn_ok c1" using conn_ok_wait [OF less(2), of sid] w by simp
    show ?thesis
    proof (cases r)
      case (Inl e)
      with ne w ok1 show ?thesis by (subst send_body.simps) simp
    next
      case (Inr u)
      with w obtain s where s: "get_stream c1 sid = Some s" "0 < send_budget s (c_send_window c1)"
        using wait_has_budget by fastforce
      let ?n = "next_data_chunk_size (unat (max_frame_size (c_peer c1))) (send_budget s (c_send_window c1)) (length remaining)"
      have "0 < unat (max_frame_size (c_peer c1))"
        using ok1 by (auto simp: conn_ok_def settings_ok_def word_le_nat_alt)
      then have pos: "0 < ?n" using ne s(2) by (intro next_data_chunk_pos) simp_all
      have len: "length (take ?n remaining) = ?n" using next_data_chunk_bounds(2) by simp
      have "int (length (take ?n remaining)) \<le> send_budget s (c_send_window c1)"
        using next_data_chunk_bounds(3) [of "unat (max_frame_size (c_peer c1))" "send_budget s (c_send_window c1)" "length remaining"] s(2)
        unfolding len by linarith
      from conn_ok_send_chunk [OF ok1 s(1) this, of "drop ?n remaining = []"]
      obtain r2 c2 where c2: "send_chunk sid (take ?n remaining) (drop ?n remaining = []) c1 = (r2, c2)" "conn_ok c2"
        by (cases "send_chunk sid (take ?n remaining) (drop ?n remaining = []) c1") simp
      have unfolded: "send_body sid remaining c =
          (case r2 of Inl e \<Rightarrow> Some (Inl e, c2) | Inr _ \<Rightarrow> send_body sid (drop ?n remaining) c2)"
        using ne w Inr s(1) c2(1) by (subst send_body.simps) (simp add: Let_def)
      show ?thesis
      proof (cases r2)
        case (Inl e)
        with unfolded c2(2) show ?thesis by simp
      next
        case (Inr v)
        have "length (drop ?n remaining) < length remaining" using pos ne by simp
        from less(1) [OF this c2(2)] unfolded Inr show ?thesis by simp
      qed
    qed
  qed
qed

lemma conn_ok_fewer:
  assumes "conn_ok c" and "distinct (map fst ss)" and "set ss \<subseteq> set (c_streams c)"
  shows "conn_ok (c\<lparr>c_streams := ss\<rparr>)"
  using assms key_ok_cong [of "c\<lparr>c_streams := ss\<rparr>" c] unfolding conn_ok_def streams_ok_def
  by (auto dest: subsetD)

lemma conn_ok_remove:
  assumes "conn_ok c"
  shows "conn_ok (remove_stream sid c)"
proof -
  have "set (AList.delete sid (c_streams c)) \<subseteq> set (c_streams c)" by (auto simp: AList.delete_eq)
  with assms show ?thesis
    unfolding remove_stream_def
    by (intro conn_ok_fewer) (simp_all add: conn_ok_def streams_ok_def distinct_delete)
qed

lemma conn_ok_prune: "conn_ok c \<Longrightarrow> conn_ok (prune_completed_streams c)"
  unfolding prune_completed_streams_def
  by (rule conn_ok_fewer) (simp_all add: conn_ok_def streams_ok_def distinct_map_filter)

lemma conn_ok_unwrap: "conn_ok c \<Longrightarrow> conn_ok (snd (unwrap_removed sid c))"
  by (simp add: unwrap_removed_def conn_ok_remove split: option.split)

lemma conn_ok_drive: "conn_ok c \<Longrightarrow> conn_ok (snd (drive_until_stream_done sid c))"
proof (induction sid c rule: drive_until_stream_done.induct)
  case (1 sid c)
  show ?case
  proof (cases "get_stream c sid")
    case (Some s)
    have "conn_ok (snd (bindS (read_and_dispatch c) (\<lambda>out c'.
            case out of
              Continue \<Rightarrow> drive_until_stream_done sid c'
            | Done done_id \<Rightarrow>
                if done_id = sid then unwrap_removed sid c' else drive_until_stream_done sid c')))"
      if "\<not> stream_done s"
      using 1 Some that
      by (intro conn_ok_bindS conn_ok_read_and_dispatch) (auto simp: conn_ok_unwrap split: dispatch_outcome.split)
    with 1 Some show ?thesis by (subst drive_until_stream_done.simps) (simp add: conn_ok_unwrap)
  qed (subst drive_until_stream_done.simps, simp add: 1)
qed

text \<open>What the reading driver hands back is a finished stream, and no \<open>unwrap\<close> fails.\<close>

lemma unwrap_done:
  "get_stream c sid = Some s \<Longrightarrow> unwrap_removed sid c = (Inr s, remove_stream sid c)"
  by (simp add: unwrap_removed_def)

lemma drive_result:
  "drive_until_stream_done sid c = (Inr s, c') \<Longrightarrow> stream_done s \<and> get_stream c' sid = None"
proof (induction sid c rule: drive_until_stream_done.induct)
  case (1 sid c)
  have gone: "get_stream (remove_stream sid d) sid = None" for d
    by (simp add: get_stream_def remove_stream_def delete_conv')
  from 1(3) obtain s0 where s0: "get_stream c sid = Some s0"
    by (cases "get_stream c sid") (auto simp: drive_until_stream_done.simps [of sid c])
  show ?case
  proof (cases "stream_done s0")
    case True
    with 1(3) s0 gone show ?thesis
      by (auto simp: drive_until_stream_done.simps [of sid c] unwrap_done)
  next
    case False
    with 1(3) s0 obtain out d where rd: "read_and_dispatch c = (Inr out, d)"
      and k: "(case out of
              Continue \<Rightarrow> drive_until_stream_done sid d
            | Done done_id \<Rightarrow>
                if done_id = sid then unwrap_removed sid d else drive_until_stream_done sid d) = (Inr s, c')"
      by (auto simp: drive_until_stream_done.simps [of sid c] bindS_eq_Inr)
    show ?thesis
    proof (cases out)
      case Continue
      with 1(1) [OF s0 False rd] k show ?thesis by simp
    next
      case (Done i)
      show ?thesis
      proof (cases "i = sid")
        case True
        obtain s1 where "get_stream d sid = Some s1" "stream_done s1"
          using read_and_dispatch_Done [of c i d] rd Done True by auto
        with k Done True gone show ?thesis by (auto simp: unwrap_done)
      next
        case False2: False
        with 1(2) [OF s0 False rd Done] k Done show ?thesis by simp
      qed
    qed
  qed
qed

lemma send_request_on_returns:
  assumes "conn_ok c"
  shows "\<exists>r c'. send_request_on sid req c = Some (r, c') \<and> conn_ok c'"
proof -
  obtain blk e where b: "build_header_block (c_encoder c) req = (blk, e)" by fastforce
  let ?c = "c\<lparr>c_encoder := e\<rparr>"
  let ?frames = "fragment_header_block sid blk (unat (max_frame_size (c_peer c))) (rq_body req = [])"
  let ?m = "bindS (write_header_frames ?frames ?c) (\<lambda>_ c. advance_send sid (rq_body req = []) c)"
  have "conn_ok (snd ?m)"
    using conn_ok_built [OF assms b] by (intro conn_ok_bindS conn_ok_write_headers conn_ok_advance)
  moreover obtain r c1 where m: "?m = (r, c1)" by fastforce
  ultimately have ok: "conn_ok c1" by simp
  show ?thesis
  proof (cases r)
    case (Inl x)
    with b m ok show ?thesis by (simp add: send_request_on_def)
  next
    case (Inr u)
    obtain r2 c2 where body: "(if rq_body req \<noteq> [] then send_body sid (rq_body req) c1 else Some (Inr (), c1)) = Some (r2, c2)"
      "conn_ok c2"
      using send_body_returns [OF ok, of sid "rq_body req"] ok by (cases "rq_body req = []") auto
    have "conn_ok (snd (bindS (r2, c2) (\<lambda>_ c. on_tls flush c)))"
      using body(2) by (intro conn_ok_bindS) (simp_all add: conn_simps)
    then obtain r3 c3 where "bindS (r2, c2) (\<lambda>_ c. on_tls flush c) = (r3, c3)" "conn_ok c3"
      by (cases "bindS (r2, c2) (\<lambda>_ c. on_tls flush c)") simp
    with b m Inr body show ?thesis by (simp add: send_request_on_def)
  qed
qed

lemma run_one_request_returns:
  assumes "conn_ok c"
  shows "\<exists>r c'. run_one_request A req c = Some (r, c') \<and> conn_ok c'"
proof -
  obtain r c1 where o: "open_stream c = (r, c1)" by fastforce
  have ok: "conn_ok c1" using conn_ok_open_stream [OF assms] o by simp
  show ?thesis
  proof (cases r)
    case (Inl e)
    with o ok show ?thesis by (simp add: run_one_request_def)
  next
    case (Inr sid)
    obtain r2 c2 where s: "send_request_on sid req c1 = Some (r2, c2)" "conn_ok c2"
      using send_request_on_returns [OF ok] by blast
    have "conn_ok (snd (bindS (r2, c2) (\<lambda>_ c. bindS (drive_until_stream_done sid c) (\<lambda>s c.
        (build_response_from_stream A s, prune_completed_streams c)))))"
      using s(2) by (intro conn_ok_bindS conn_ok_drive) (simp_all add: conn_ok_prune)
    with o Inr s show ?thesis
      by (cases "bindS (r2, c2) (\<lambda>_ c. bindS (drive_until_stream_done sid c) (\<lambda>s c.
        (build_response_from_stream A s, prune_completed_streams c)))") (simp add: run_one_request_def)
  qed
qed

subsection \<open>Properties\<close>

text \<open>A request on a connection in a good state terminates whatever the peer sends, with a response or an
  error, and leaves the connection in a good state.\<close>

lemma one_request_terminates:
  "conn_ok c \<Longrightarrow> \<exists>r c'. run_one_request A req c = Some (r, c') \<and> conn_ok c'"
  by (rule run_one_request_returns)

lemma one_request_terminates_witness:
  "\<exists>r c'. run_one_request stored_decoder example_request example_connection = Some (r, c') \<and> conn_ok c'"
  by (rule one_request_terminates [OF conn_ok_example])

text \<open>The driver hands out a stream only once it is finished -- headers received, END_STREAM received, and
  the peer's half closed -- and the stream is no longer registered then.\<close>

lemma only_finished_streams:
  "drive_until_stream_done sid c = (Inr s, c') \<Longrightarrow>
     st_end_stream_recv s \<and> st_response_headers s \<noteq> None \<and> st_state s \<in> {Closed, HalfClosedRemote} \<and>
     get_stream c' sid = None"
  by (drule drive_result) (auto simp: stream_done_def)

definition finished_stream :: stream where
  "finished_stream = (stream_new 1 65535)
     \<lparr>st_state := Closed, st_response_headers := Some [], st_end_stream_recv := True\<rparr>"

lemma only_finished_streams_witness:
  "\<exists>s. drive_until_stream_done 1 (put_stream 1 finished_stream example_connection)
      = (Inr s, remove_stream 1 (put_stream 1 finished_stream example_connection)) \<and>
    st_end_stream_recv s \<and> st_response_headers s \<noteq> None"
proof -
  have d: "drive_until_stream_done 1 (put_stream 1 finished_stream example_connection)
      = (Inr finished_stream, remove_stream 1 (put_stream 1 finished_stream example_connection))"
    by (simp add: drive_until_stream_done.simps unwrap_removed_def conn_simps finished_stream_def stream_done_def)
  from only_finished_streams [OF d] d show ?thesis by blast
qed

end
