(* ===== verification/H2_Wire.thy ===== *)
theory H2_Wire
  imports H2_Drive
begin

text \<open>
  What one request looks like to the peer.  When the send windows have room for the body, nothing has to
  be read while sending (\<open>send_request_on\<close> of \<open>src/src/http2.rs\<close>); then the bytes written are frames
  which, read back by \<open>read_frame\<close>, carry the header block and the body, end the stream exactly once,
  and whose header block an RFC 7541 decoder turns into the fields of the request.
\<close>

text \<open>The peer's view of the frames of one stream.\<close>

definition ends_stream :: "frame \<Rightarrow> bool" where
  "ends_stream f \<longleftrightarrow> f_flags f AND FLAG_END_STREAM \<noteq> 0"

definition block_of :: "frame list \<Rightarrow> bytes" where
  "block_of fs = concat (map f_payload (filter (\<lambda>f. f_typ f = F_HEADERS \<or> f_typ f = F_CONTINUATION) fs))"

definition body_of :: "frame list \<Rightarrow> bytes" where
  "body_of fs = concat (map f_payload (filter (\<lambda>f. f_typ f = F_DATA) fs))"

subsection \<open>The header frames\<close>

definition header_frame :: "u32 \<Rightarrow> nat \<Rightarrow> frame \<Rightarrow> bool" where
  "header_frame sid n f \<longleftrightarrow>
     f_sid f = sid \<and> (f_typ f = F_HEADERS \<or> f_typ f = F_CONTINUATION) \<and> length (f_payload f) \<le> n"

lemma fragment_frames:
  assumes "0 < n"
  shows "list_all (header_frame sid n) (fragment_header_block sid blk n es)"
    and "filter ends_stream (fragment_header_block sid blk n es)
      = (if es then [hd (fragment_header_block sid blk n es)] else [])"
    and "fragment_header_block sid blk n es \<noteq> []"
proof -
  have "list_all (header_frame sid n) (fragment_header_block sid blk n es) \<and>
      filter ends_stream (fragment_header_block sid blk n es)
        = (if es then [hd (fragment_header_block sid blk n es)] else []) \<and>
      fragment_header_block sid blk n es \<noteq> []"
  proof (cases "blk = []")
    case True
    then show ?thesis by (simp add: fragment_header_block_def header_frame_def ends_stream_def)
  next
    case False
    define total where "total = (length blk + n - 1) div n"
    define mk where "mk = (\<lambda>(i, chunk).
        if i = 0 then
          \<lparr>f_typ = F_HEADERS,
           f_flags = (if es then FLAG_END_STREAM else 0) OR (if i + 1 = total then FLAG_END_HEADERS else 0),
           f_sid = sid, f_payload = chunk\<rparr>
        else
          \<lparr>f_typ = F_CONTINUATION, f_flags = (if i + 1 = total then FLAG_END_HEADERS else 0),
           f_sid = sid, f_payload = chunk\<rparr>)"
    have frames: "fragment_header_block sid blk n es = map mk (enumerate 0 (chunks n blk))"
      by (simp only: fragment_header_block_def Let_def total_def mk_def False if_False)
    have first: "chunks n blk = take n blk # chunks n (drop n blk)"
      using False assms by (subst chunks.simps) simp
    have rest: "filter ends_stream (map mk (enumerate (Suc 0) cs)) = []" for cs
      by (auto simp: filter_empty_conv mk_def ends_stream_def in_set_enumerate_eq)
    have all: "header_frame sid n (mk (i, c))" if "c \<in> set (chunks n blk)" for i c
      using chunk_sizes [OF that] by (simp add: header_frame_def mk_def)
    have "list_all (header_frame sid n) (fragment_header_block sid blk n es)"
      unfolding frames list_all_iff using all by (auto simp: in_set_enumerate_eq)
    moreover have "ends_stream (mk (0, c)) = es" for c by (simp add: mk_def ends_stream_def)
    ultimately show ?thesis unfolding frames first using rest by simp
  qed
  then show "list_all (header_frame sid n) (fragment_header_block sid blk n es)"
    "filter ends_stream (fragment_header_block sid blk n es)
      = (if es then [hd (fragment_header_block sid blk n es)] else [])"
    "fragment_header_block sid blk n es \<noteq> []" by blast+
qed


subsection \<open>Writing on a transport that takes everything\<close>

definition sent :: "connection \<Rightarrow> bytes \<Rightarrow> connection" where
  "sent c bs = c\<lparr>c_tls := (c_tls c)\<lparr>t_out := t_out (c_tls c) @ bs\<rparr>\<rparr>"

lemma sent_simps [simp]:
  "t_cap (c_tls (sent c bs)) = t_cap (c_tls c)"
  "t_out (c_tls (sent c bs)) = t_out (c_tls c) @ bs"
  "get_stream (sent c bs) = get_stream c"
  "c_send_window (sent c bs) = c_send_window c"
  "c_peer (sent c bs) = c_peer c"
  "c_encoder (sent c bs) = c_encoder c"
  "sent (sent c bs) bs' = sent c (bs @ bs')"
  by (simp_all add: sent_def)

lemma on_tls_write_frame:
  "t_cap (c_tls c) = None \<Longrightarrow> length (f_payload f) \<le> MAX_FRAME_PAYLOAD \<Longrightarrow>
     on_tls (write_frame f) c = (Inr (), sent c (frame_bytes f))"
  by (simp add: on_tls_def write_frame_unbounded sent_def)

lemma write_header_frames_sent:
  "t_cap (c_tls c) = None \<Longrightarrow> list_all (\<lambda>f. length (f_payload f) \<le> MAX_FRAME_PAYLOAD) fs \<Longrightarrow>
     write_header_frames fs c = (Inr (), sent c (concat (map frame_bytes fs)))"
proof (induction fs arbitrary: c)
  case Nil
  then show ?case by (simp add: sent_def)
qed (simp add: on_tls_write_frame)

text \<open>The data frames: all of one stream, together the body, and the last one ends it.\<close>

definition data_frames :: "u32 \<Rightarrow> nat \<Rightarrow> bytes \<Rightarrow> frame list \<Rightarrow> bool" where
  "data_frames sid n body fs \<longleftrightarrow>
     list_all (\<lambda>f. f_sid f = sid \<and> f_typ f = F_DATA \<and> length (f_payload f) \<le> n) fs \<and>
     concat (map f_payload fs) = body \<and>
     filter ends_stream fs = (if body = [] then [] else [last fs]) \<and> (fs = [] \<longleftrightarrow> body = [])"

lemma data_frames_Cons:
  assumes "data_frames sid n rest fs" and "chunk \<noteq> []" and "length chunk \<le> n"
  shows "data_frames sid n (chunk @ rest) (data_frame sid chunk (rest = []) # fs)"
  using assms by (cases "rest = []") (auto simp: data_frames_def data_frame_def ends_stream_def)

text \<open>Room for the body in both windows, on a stream that may still send.\<close>

definition room_for :: "u32 \<Rightarrow> bytes \<Rightarrow> connection \<Rightarrow> bool" where
  "room_for sid body c \<longleftrightarrow>
     (\<exists>s. get_stream c sid = Some s \<and> may_send (st_state s) \<and> int (length body) \<le> send_budget s (c_send_window c))"

lemma put_stream_other:
  "c_send_window (put_stream i s c) = c_send_window c" "c_tls (put_stream i s c) = c_tls c"
  "c_peer (put_stream i s c) = c_peer c" "c_encoder (put_stream i s c) = c_encoder c"
  by (simp_all add: put_stream_def)

lemma send_chunk_sent:
  assumes "t_cap (c_tls c) = None" and "length chunk \<le> MAX_FRAME_PAYLOAD" and "room_for sid (chunk @ rest) c"
  shows "\<exists>c'. send_chunk sid chunk (rest = []) c = (Inr (), c') \<and>
    c_tls c' = c_tls (sent c (frame_bytes (data_frame sid chunk (rest = [])))) \<and> c_peer c' = c_peer c \<and>
    c_encoder c' = c_encoder c \<and> (rest \<noteq> [] \<longrightarrow> room_for sid rest c')"
proof -
  let ?f = "data_frame sid chunk (rest = [])"
  from assms(3) obtain s where s: "get_stream c sid = Some s" "may_send (st_state s)"
    "int (length (chunk @ rest)) \<le> send_budget s (c_send_window c)" by (auto simp: room_for_def)
  have w: "on_tls (write_frame ?f) c = (Inr (), sent c (frame_bytes ?f))"
    using assms by (intro on_tls_write_frame) (simp_all add: data_frame_def)
  from s(2) obtain t where t: "send_data (st_state s) (rest = []) = Inr t" "rest \<noteq> [] \<longrightarrow> may_send t"
    using send_data_refines [of "st_state s" "rest = []"] by (cases "send_data (st_state s) (rest = [])") auto
  let ?c = "(sent c (frame_bytes ?f))\<lparr>c_send_window := csw_consume (length chunk) (c_send_window c)\<rparr>"
  let ?s = "s\<lparr>st_send_window := ssw_consume (length chunk) (st_send_window s), st_state := t\<rparr>"
  have "send_chunk sid chunk (rest = []) c = (Inr (), put_stream sid ?s ?c)"
    using w s(1) t(1) by (simp add: send_chunk_def)
  moreover have "room_for sid rest (put_stream sid ?s ?c)" if "rest \<noteq> []"
    using that s(3) t(2)
    by (auto simp: room_for_def conn_simps send_budget_def csw_consume_def ssw_consume_def put_stream_other)
  ultimately show ?thesis by (auto simp: put_stream_def)
qed

lemma send_body_sent:
  assumes "t_cap (c_tls c) = None" and "0 < unat (max_frame_size (c_peer c))"
    and "unat (max_frame_size (c_peer c)) \<le> MAX_FRAME_PAYLOAD" and "body \<noteq> [] \<Longrightarrow> room_for sid body c"
  shows "\<exists>c' fs. send_body sid body c = Some (Inr (), c') \<and> c_tls c' = c_tls (sent c (concat (map frame_bytes fs))) \<and>
    c_encoder c' = c_encoder c \<and> data_frames sid (unat (max_frame_size (c_peer c))) body fs"
  using assms
proof (induction "length body" arbitrary: body c rule: less_induct)
  case less
  let ?m = "unat (max_frame_size (c_peer c))"
  show ?case
  proof (cases "body = []")
    case True
    then show ?thesis by (intro exI [of _ c] exI [of _ "[]"], subst send_body.simps)
        (simp add: data_frames_def sent_def)
  next
    case False
    with less.prems obtain s where s: "get_stream c sid = Some s"
      "int (length body) \<le> send_budget s (c_send_window c)" by (auto simp: room_for_def)
    from s(2) False have b: "0 < send_budget s (c_send_window c)" by (cases body) simp_all
    let ?n = "next_data_chunk_size ?m (send_budget s (c_send_window c)) (length body)"
    have n: "?n \<le> ?m" "?n \<le> length body" "0 < ?n"
      using next_data_chunk_bounds next_data_chunk_pos [OF less.prems(2) b, of "length body"] False by auto
    let ?chunk = "take ?n body" and ?rest = "drop ?n body"
    have w: "wait_for_budget sid c = (Inr (), c)" using s(1) b by (simp add: wait_for_budget.simps)
    have room: "room_for sid (?chunk @ ?rest) c" using less.prems(4) False by simp
    have len: "length ?chunk = ?n" "length ?rest < length body" using n False by simp_all
    obtain c1 where c1: "send_chunk sid ?chunk (?rest = []) c = (Inr (), c1)"
      "c_tls c1 = c_tls (sent c (frame_bytes (data_frame sid ?chunk (?rest = []))))" "c_peer c1 = c_peer c"
      "c_encoder c1 = c_encoder c" "?rest \<noteq> [] \<longrightarrow> room_for sid ?rest c1"
      using send_chunk_sent [OF less.prems(1) _ room] n(1) less.prems(3) len(1) by fastforce
    obtain c' fs where c': "send_body sid ?rest c1 = Some (Inr (), c')"
      "c_tls c' = c_tls (sent c1 (concat (map frame_bytes fs)))" "c_encoder c' = c_encoder c1"
      "data_frames sid ?m ?rest fs"
      using less.hyps [OF len(2), of c1] less.prems c1 by auto
    have "send_body sid body c = Some (Inr (), c')"
      using False w s(1) c1(1) c'(1) by (subst send_body.simps) (simp add: Let_def)
    moreover have "data_frames sid ?m (?chunk @ ?rest) (data_frame sid ?chunk (?rest = []) # fs)"
      using n len(1) by (intro data_frames_Cons [OF c'(4)]) auto
    moreover have "c_tls c' = c_tls (sent c (concat (map frame_bytes (data_frame sid ?chunk (?rest = []) # fs))))"
      using c'(2) c1(2) by (simp add: sent_def)
    ultimately show ?thesis using c'(3) c1(4)
      by (intro exI [of _ c'] exI [of _ "data_frame sid ?chunk (?rest = []) # fs"]) simp
  qed
qed

subsection \<open>Properties\<close>

lemma filter_types:
  "list_all (header_frame sid n) hs \<Longrightarrow> block_of hs = concat (map f_payload hs) \<and> body_of hs = []"
  "data_frames sid n body ds \<Longrightarrow> block_of ds = [] \<and> body_of ds = body"
  by (auto simp: block_of_def body_of_def data_frames_def header_frame_def list_all_iff filter_id_conv
      intro!: arg_cong [of _ _ "\<lambda>fs. concat (map f_payload fs)"])

lemma block_body_append [simp]:
  "block_of (fs @ gs) = block_of fs @ block_of gs" "body_of (fs @ gs) = body_of fs @ body_of gs"
  by (simp_all add: block_of_def body_of_def)



end
