(* ===== verification/Http1_Read.thy ===== *)
theory Http1_Read
  imports Http_Types Compress
begin

text \<open>
  The HTTP/1.1 response reader (\<open>read_line_capped\<close>, \<open>read_response\<close>, \<open>parse_status_line\<close>,
  \<open>parse_content_length\<close>, \<open>read_body\<close>, \<open>read_chunked\<close> of \<open>src/src/http.rs\<close>).  The buffered reader is
  the transport: the bytes still to come and how the input ends (\<open>IoUnexpectedEof\<close> is a clean end of
  file, on which a read returns nothing; any other kind is the error of the read).  The operations
  return what they leave unread.
\<close>

abbreviation (input) MAX_HEADER_BYTES :: nat where "MAX_HEADER_BYTES \<equiv> 65536"

subsection \<open>Reading from a buffered stream\<close>

text \<open>\<open>take(limit).read_until(b'\n')\<close>: up to the limit, a newline, or the end of the input.\<close>

abbreviation (input) NL :: byte where "NL \<equiv> 0x0A"

definition read_until_nl :: "nat \<Rightarrow> transport \<Rightarrow> (io_kind + bytes) \<times> transport" where
  "read_until_nl limit t =
     (let avail = take limit (t_in t) in
      case position (\<lambda>b. b = NL) avail of
        Some i \<Rightarrow> (Inr (take (Suc i) avail), t\<lparr>t_in := drop (Suc i) (t_in t)\<rparr>)
      | None \<Rightarrow>
          if length avail = limit \<or> t_end t = IoUnexpectedEof
          then (Inr avail, t\<lparr>t_in := drop (length avail) (t_in t)\<rparr>)
          else (Inl (t_end t), t\<lparr>t_in := []\<rparr>))"

lemma read_until_shrinks:
  "read_until_nl limit t = (Inr bs, t') \<Longrightarrow> bs \<noteq> [] \<Longrightarrow> length (t_in t') < length (t_in t)"
  by (auto simp: read_until_nl_def Let_def split: option.splits if_splits dest: position_SomeD)

text \<open>The loop of \<open>read_line_capped\<close>: the raw line, empty at the end of the input.\<close>

function read_line_loop :: "nat \<Rightarrow> bytes \<Rightarrow> transport \<Rightarrow> bytes result \<times> transport" where
  "read_line_loop max_len raw t =
     (let (r, t') = read_until_nl ((max_len - length raw) + 1) t in
      case r of
        Inl k \<Rightarrow> (Inl (Io k), t')
      | Inr bs \<Rightarrow>
          let raw' = raw @ bs in
          if bs = [] then (Inr raw', t')
          else if last raw' = NL then (Inr raw', t')
          else if length raw' > max_len then (Inl (BadResponse ''response line exceeds 64 KiB''), t')
          else read_line_loop max_len raw' t')"
  by pat_completeness auto
termination
  by (relation "measure (\<lambda>(_, _, t). length (t_in t))")
    (auto dest: read_until_shrinks [OF sym] split: sum.splits)

declare read_line_loop.simps [simp del]

text \<open>The line as a string and the number of bytes read, 0 at the end of the input.\<close>

definition read_line_capped :: "nat \<Rightarrow> transport \<Rightarrow> (string \<times> nat) result \<times> transport" where
  "read_line_capped max_len t =
     bindS (read_line_loop max_len [] t) (\<lambda>raw t. (Inr (from_utf8_lossy raw, length raw), t))"

text \<open>\<open>trim_end_matches(['\r', '\n'])\<close>.\<close>

definition trim_crlf :: "string \<Rightarrow> string" where
  "trim_crlf s = trim_end_matches (\<lambda>c. c = CHR 0x0D \<or> c = CHR 0x0A) s"

text \<open>\<open>take(n).read_to_end\<close>.\<close>

definition read_to_limit :: "nat \<Rightarrow> transport \<Rightarrow> (io_kind + bytes) \<times> transport" where
  "read_to_limit n t =
     (if n \<le> length (t_in t) then (Inr (take n (t_in t)), t\<lparr>t_in := drop n (t_in t)\<rparr>)
      else if t_end t = IoUnexpectedEof then (Inr (t_in t), t\<lparr>t_in := []\<rparr>)
      else (Inl (t_end t), t\<lparr>t_in := []\<rparr>))"

subsection \<open>The head of a response\<close>

definition parse_status_line :: "string \<Rightarrow> (string \<times> u16 \<times> string) result" where
  "parse_status_line line =
     (case splitn 3 CHR '' '' line of
        [] \<Rightarrow> Inl (BadResponse ''missing version: {line:?}'')
      | version # parts \<Rightarrow>
          if \<not> starts_with ''HTTP/'' version then Inl (BadResponse ''not HTTP: {version}'')
          else (case parts of
            [] \<Rightarrow> Inl (BadResponse ''missing status: {line:?}'')
          | status # parts \<Rightarrow>
              (case parse_u16 status of
                 None \<Rightarrow> Inl (BadResponse ''bad status: {line:?}'')
               | Some st \<Rightarrow> Inr (version, st, case parts of [] \<Rightarrow> [] | reason # _ \<Rightarrow> reason))))"

text \<open>The loop over the header lines.\<close>

function read_headers ::
  "nat \<Rightarrow> (string \<times> string) list \<Rightarrow> transport \<Rightarrow> (string \<times> string) list result \<times> transport" where
  "read_headers header_bytes headers t =
     (let (r, t') = read_line_capped MAX_HEADER_BYTES t in
      case r of
        Inl e \<Rightarrow> (Inl e, t')
      | Inr (line, n) \<Rightarrow>
          if n = 0 then (Inl UnexpectedEof, t')
          else if header_bytes + n > MAX_HEADER_BYTES then (Inl (BadResponse ''headers exceed 64 KiB''), t')
          else if trim_crlf line = [] then (Inr headers, t')
          else (case split_once '':'' (trim_crlf line) of
            None \<Rightarrow> (Inl (BadResponse ''malformed header line: {trimmed:?}''), t')
          | Some (k, v) \<Rightarrow> read_headers (header_bytes + n) (headers @ [(trim k, trim v)]) t'))"
  by pat_completeness auto
termination
  by (relation "measure (\<lambda>(b, _, _). Suc MAX_HEADER_BYTES - b)") (auto split: sum.splits)

declare read_headers.simps [simp del]

subsection \<open>The body\<close>

definition parse_u64 :: "string \<Rightarrow> u64 option" where
  "parse_u64 s = map_option of_nat (parse_unsigned 18446744073709551615 s)"

text \<open>The loop over the parts of one \<open>Content-Length\<close> value, and the loop over the headers.\<close>

fun content_length_parts :: "string list \<Rightarrow> u64 option \<Rightarrow> u64 option result" where
  "content_length_parts [] seen = Inr seen"
| "content_length_parts (part # parts) seen =
     (case parse_u64 (trim part) of
        None \<Rightarrow> Inl (BadResponse ''bad Content-Length: {v:?}'')
      | Some n \<Rightarrow>
          (case seen of
             Some prev \<Rightarrow>
               if prev \<noteq> n then Inl (BadResponse ''conflicting Content-Length values'')
               else content_length_parts parts (Some n)
           | None \<Rightarrow> content_length_parts parts (Some n)))"

fun content_length_headers :: "(string \<times> string) list \<Rightarrow> u64 option \<Rightarrow> u64 option result" where
  "content_length_headers [] seen = Inr seen"
| "content_length_headers ((k, v) # headers) seen =
     (if \<not> eq_ignore_ascii_case k ''content-length'' then content_length_headers headers seen
      else bindR (content_length_parts (split_char CHR '','' v) seen) (content_length_headers headers))"

definition parse_content_length :: "(string \<times> string) list \<Rightarrow> u64 option result" where
  "parse_content_length headers = content_length_headers headers None"

abbreviation (input) USIZE_MAX :: nat where "USIZE_MAX \<equiv> 18446744073709551615"

text \<open>The size of a chunk, from its size line.\<close>

definition chunk_size :: "string \<Rightarrow> nat result" where
  "chunk_size size_line =
     (let size_str = hd (split_char CHR '';'' (trim_crlf size_line)) in
      case parse_hex USIZE_MAX (trim size_str) of
        None \<Rightarrow> Inl (BadResponse ''bad chunk size: {size_str:?}'')
      | Some sz \<Rightarrow> Inr sz)"

text \<open>The trailers: lines up to an empty one or the end of the input.\<close>

function skip_trailers :: "transport \<Rightarrow> unit result \<times> transport" where
  "skip_trailers t =
     (let (r, t') = read_line_capped MAX_HEADER_BYTES t in
      case r of
        Inl e \<Rightarrow> (Inl e, t')
      | Inr (line, n) \<Rightarrow> if n = 0 \<or> trim_crlf line = [] then (Inr (), t') else skip_trailers t')"
  by pat_completeness auto

lemma read_line_loop_shrinks:
  "read_line_loop m raw t = (Inr bs, t') \<Longrightarrow> length bs + length (t_in t') \<le> length raw + length (t_in t)"
proof (induction m raw t rule: read_line_loop.induct)
  case (1 m raw t)
  obtain r t1 where r: "read_until_nl (m - length raw + 1) t = (r, t1)" by fastforce
  show ?case
  proof (cases r)
    case (Inl k)
    with r 1(2) show ?thesis by (simp add: read_line_loop.simps [of m raw t])
  next
    case (Inr bs1)
    with r have len: "length bs1 + length (t_in t1) \<le> length (t_in t)"
      by (auto simp: read_until_nl_def Let_def split: option.splits if_splits dest!: position_SomeD)
    show ?thesis
    proof (cases "bs1 = [] \<or> last (raw @ bs1) = NL \<or> length (raw @ bs1) > m")
      case True
      with r Inr 1(2) len show ?thesis
        by (auto simp: read_line_loop.simps [of m raw t] Let_def split: if_splits)
    next
      case False
      then have c: "bs1 \<noteq> []" "last (raw @ bs1) \<noteq> NL" "\<not> length (raw @ bs1) > m" by auto
      then have "read_line_loop m (raw @ bs1) t1 = (Inr bs, t')"
        using 1(2) r Inr by (simp add: read_line_loop.simps [of m raw t])
      from 1(1) [OF r [symmetric] refl Inr refl c this] len show ?thesis by simp
    qed
  qed
qed

lemma read_line_shrinks:
  "read_line_capped m t = (Inr (line, n), t') \<Longrightarrow> n + length (t_in t') \<le> length (t_in t)"
  by (auto simp: read_line_capped_def bindS_eq_Inr dest: read_line_loop_shrinks)

termination skip_trailers
  by (relation "measure (\<lambda>t. length (t_in t))") (auto dest!: read_line_shrinks [OF sym] split: sum.splits)

declare skip_trailers.simps [simp del]

function read_chunks :: "bytes \<Rightarrow> transport \<Rightarrow> bytes result \<times> transport" where
  "read_chunks body t =
     (let (r, t') = read_line_capped MAX_HEADER_BYTES t in
      case r of
        Inl e \<Rightarrow> (Inl e, t')
      | Inr (size_line, n) \<Rightarrow>
          if n = 0 then (Inl UnexpectedEof, t')
          else (case chunk_size size_line of
            Inl e \<Rightarrow> (Inl e, t')
          | Inr sz \<Rightarrow>
              if saturating_add_usize (length body) sz > MAX_BODY_BYTES
              then (Inl (BadResponse ''body too large''), t')
              else if sz = 0 then bindS (skip_trailers t') (\<lambda>_ t. (Inr body, t))
              else (let (d, t1) = read_exact sz t' in
                case d of
                  Inl k \<Rightarrow> (Inl (Io k), t1)
                | Inr chunk \<Rightarrow>
                    (let (e, t2) = read_exact 2 t1 in
                     case e of
                       Inl k \<Rightarrow> (Inl (Io k), t2)
                     | Inr crlf \<Rightarrow>
                         if crlf \<noteq> [0x0D, 0x0A] then (Inl (BadResponse ''missing CRLF after chunk''), t2)
                         else read_chunks (body @ chunk) t2))))"
  by pat_completeness auto

lemma read_exact_shrinks: "read_exact n t = (Inr bs, t') \<Longrightarrow> length (t_in t') \<le> length (t_in t)"
  by (auto simp: read_exact_def split: if_splits)

lemma chunk_shrinks:
  assumes "read_line_capped m t = (Inr (line, n), t')" and "n \<noteq> 0"
    and "read_exact k t' = (Inr x, t1)" and "read_exact j t1 = (Inr y, t2)"
  shows "length (t_in t2) < length (t_in t)"
  using read_line_shrinks [OF assms(1)] read_exact_shrinks [OF assms(3)] read_exact_shrinks [OF assms(4)] assms(2)
  by simp

termination read_chunks
  by (relation "measure (\<lambda>(_, t). length (t_in t))") (auto dest: chunk_shrinks [OF sym _ sym sym])

declare read_chunks.simps [simp del]

definition read_chunked :: "transport \<Rightarrow> bytes result \<times> transport" where
  "read_chunked t = read_chunks [] t"

definition bodyless :: "string \<Rightarrow> u16 \<Rightarrow> bool" where
  "bodyless meth status \<longleftrightarrow>
     eq_ignore_ascii_case meth ''HEAD'' \<or> (100 \<le> status \<and> status < 200) \<or> status = 204 \<or> status = 304"

definition has_header :: "string \<Rightarrow> (string \<times> string) list \<Rightarrow> bool" where
  "has_header name headers \<longleftrightarrow> (\<exists>(k, v)\<in>set headers. eq_ignore_ascii_case k name)"

definition is_chunked :: "(string \<times> string) list \<Rightarrow> bool" where
  "is_chunked headers \<longleftrightarrow>
     (\<exists>(k, v)\<in>set headers. eq_ignore_ascii_case k ''transfer-encoding'' \<and> eq_ignore_ascii_case v ''chunked'')"

definition read_body :: "(string \<times> string) list \<Rightarrow> u16 \<Rightarrow> string \<Rightarrow> transport \<Rightarrow> bytes result \<times> transport" where
  "read_body headers status meth t =
     (if bodyless meth status then (Inr [], t)
      else if has_header ''transfer-encoding'' headers \<and> has_header ''content-length'' headers
      then (Inl (BadResponse ''both Transfer-Encoding and Content-Length present''), t)
      else if is_chunked headers then read_chunked t
      else case parse_content_length headers of
        Inl e \<Rightarrow> (Inl e, t)
      | Inr (Some len) \<Rightarrow>
          if len > of_nat MAX_BODY_BYTES then (Inl (BadResponse ''body too large: {len}''), t)
          else (let (r, t) = read_to_limit (unat len) t in
            case r of
              Inl k \<Rightarrow> (Inl (Io k), t)
            | Inr body \<Rightarrow> if length body < unat len then (Inl UnexpectedEof, t) else (Inr body, t))
      | Inr None \<Rightarrow>
          (let (r, t) = read_to_limit MAX_BODY_BYTES t in (liftIo r, t)))"

text \<open>The whole response; \<open>A\<close> are the decompressors.\<close>

definition read_response :: "decoders \<Rightarrow> string \<Rightarrow> transport \<Rightarrow> response result \<times> transport" where
  "read_response A meth t =
     bindS (read_line_capped MAX_HEADER_BYTES t) (\<lambda>(status_line, n) t.
       if n = 0 then (Inl UnexpectedEof, t)
       else case parse_status_line (trim_crlf status_line) of
         Inl e \<Rightarrow> (Inl e, t)
       | Inr (version, status, reason) \<Rightarrow>
           bindS (read_headers 0 [] t) (\<lambda>headers t.
             bindS (read_body headers status meth t) (\<lambda>body t.
               (bindR (maybe_decode_body A headers body) (\<lambda>(headers, body).
                  Inr \<lparr>rs_status = status, rs_reason = reason, rs_version = version,
                       rs_headers = headers, rs_body = body\<rparr>), t))))"

end
