(* ===== verification/Http1_Wire.thy ===== *)
theory Http1_Wire
  imports Http1_Read Codec
begin

text \<open>
  What a server may write, and that the reader of \<open>Http1_Read\<close> gets it back: \<open>wire_response\<close> relates a
  response to its byte strings, with the body sized by \<open>Content-Length\<close>, chunked in any way with any
  extensions and trailers, or absent.
\<close>

subsection \<open>Lines\<close>

abbreviation (input) CRLF :: bytes where "CRLF \<equiv> [0x0D, 0x0A]"

lemma position_append_hit: "\<forall>x\<in>set xs. \<not> P x \<Longrightarrow> P y \<Longrightarrow> position P (xs @ y # ys) = Some (length xs)"
  by (induction xs) auto

lemma read_until_line:
  "NL \<notin> set l \<Longrightarrow> length l < limit \<Longrightarrow> t_in t = l @ NL # rest \<Longrightarrow>
     read_until_nl limit t = (Inr (l @ [NL]), t\<lparr>t_in := rest\<rparr>)"
proof -
  assume a: "NL \<notin> set l" "length l < limit" "t_in t = l @ NL # rest"
  then have "take limit (t_in t) = l @ NL # take (limit - Suc (length l)) rest"
    by (simp add: take_Cons')
  moreover have "position (\<lambda>b. b = NL) (l @ NL # ys) = Some (length l)" for ys
    using a(1) by (intro position_append_hit) auto
  ultimately show ?thesis using a(3) by (simp add: read_until_nl_def)
qed

lemma read_raw_line:
  "NL \<notin> set l \<Longrightarrow> length l \<le> m \<Longrightarrow> t_in t = l @ NL # rest \<Longrightarrow>
     read_line_loop m [] t = (Inr (l @ [NL]), t\<lparr>t_in := rest\<rparr>)"
  by (subst read_line_loop.simps) (simp add: read_until_line)

text \<open>A line without line breaks, as text, ended by CRLF.\<close>

definition text_line :: "string \<Rightarrow> bool" where
  "text_line s \<longleftrightarrow> valid_str s \<and> (\<forall>c\<in>set s. c \<noteq> CHR 0x0D \<and> c \<noteq> CHR 0x0A)"

definition line_bytes :: "string \<Rightarrow> bytes" where
  "line_bytes s = bytes_of s @ CRLF"

lemma of_char_byte_eq: "(of_char c :: byte) = of_char d \<longleftrightarrow> c = d"
proof
  assume "(of_char c :: byte) = of_char d"
  then have "bytes_of [c] = bytes_of [d]" by (simp add: bytes_of_def)
  then have "str_of (bytes_of [c]) = str_of (bytes_of [d])" by (rule arg_cong)
  then show "c = d" by (simp only: str_of_bytes_of list.inject)
qed simp

lemma no_newline: "text_line s \<Longrightarrow> NL \<notin> set (bytes_of s)"
proof
  assume s: "text_line s" and "NL \<in> set (bytes_of s)"
  then obtain c where c: "c \<in> set s" "(of_char c :: byte) = NL" by (auto simp: bytes_of_def)
  have "(of_char (CHR 0x0A) :: byte) = NL" by simp
  with c have "c = CHR 0x0A" using of_char_byte_eq [of c "CHR 0x0A"] by simp
  with s c(1) show False unfolding text_line_def by blast
qed

lemma read_line_text:
  assumes "text_line s" and "length s < m" and "t_in t = line_bytes s @ rest"
  shows "read_line_capped m t = (Inr (s @ [CHR 0x0D, CHR 0x0A], length s + 2), t\<lparr>t_in := rest\<rparr>)"
proof -
  have nl: "NL \<notin> set (bytes_of s @ [0x0D])"
    using no_newline [OF assms(1)] by simp
  have line: "t_in t = (bytes_of s @ [0x0D]) @ NL # rest" using assms(3) by (simp add: line_bytes_def)
  have raw: "bytes_of s @ CRLF = bytes_of (s @ [CHR 0x0D, CHR 0x0A])" by (simp add: bytes_of_def)
  have "valid_str [CHR 0x0D, CHR 0x0A]" by (simp add: valid_str_def bytes_of_def)
  then have "valid_str (s @ [CHR 0x0D, CHR 0x0A])"
    using assms(1) by (intro valid_str_append) (simp_all add: text_line_def)
  then have "from_utf8_lossy (bytes_of s @ CRLF) = s @ [CHR 0x0D, CHR 0x0A]"
    unfolding raw by (rule from_utf8_lossy_valid)
  then show ?thesis
    using read_raw_line [OF nl _ line, of m] assms(2) by (simp add: read_line_capped_def)
qed

lemma trim_crlf_line:
  assumes "text_line s"
  shows "trim_crlf (s @ [CHR 0x0D, CHR 0x0A]) = s"
proof -
  have "s = [] \<or> \<not> (last s = CHR 0x0D \<or> last s = CHR 0x0A)"
    using assms last_in_set [of s] unfolding text_line_def by blast
  then show ?thesis unfolding trim_crlf_def by (rule trim_end_matches_append) simp
qed

subsection \<open>The head\<close>

definition header_line :: "string \<times> string \<Rightarrow> string" where
  "header_line = (\<lambda>(k, v). k @ '': '' @ v)"

definition wire_header :: "string \<times> string \<Rightarrow> bool" where
  "wire_header = (\<lambda>(k, v). text_line k \<and> text_line v \<and> trimmed k \<and> trimmed v \<and> CHR '':'' \<notin> set k)"

definition header_size :: "(string \<times> string) list \<Rightarrow> nat" where
  "header_size hs = sum_list (map (\<lambda>h. length (header_line h) + 2) hs) + 2"

lemma text_line_append: "text_line s \<Longrightarrow> text_line t \<Longrightarrow> text_line (s @ t)"
  by (auto simp: text_line_def valid_str_append)

lemma text_line_ascii: "\<forall>c\<in>set s. 32 \<le> (of_char c :: nat) \<and> (of_char c :: nat) \<le> 126 \<Longrightarrow> text_line s"
proof -
  assume a: "\<forall>c\<in>set s. 32 \<le> (of_char c :: nat) \<and> (of_char c :: nat) \<le> 126"
  have "b < 0x80" if "b \<in> set (bytes_of s)" for b
    using that a by (auto simp: bytes_of_def word_less_nat_alt unat_of_char)
  then have "valid_str s" unfolding valid_str_def by (blast intro: utf8_valid_ascii)
  moreover have "c \<noteq> CHR 0x0D" "c \<noteq> CHR 0x0A" if "c \<in> set s" for c using that a by auto
  ultimately show ?thesis unfolding text_line_def by blast
qed

lemma text_line_Nil [simp]: "text_line []"
  by (simp add: text_line_def valid_str_def bytes_of_def)

lemma text_line_header: "wire_header h \<Longrightarrow> text_line (header_line h)"
proof -
  assume "wire_header h"
  moreover have "text_line '': ''" by (rule text_line_ascii) simp
  ultimately show ?thesis unfolding wire_header_def header_line_def split_beta by (intro text_line_append) blast+
qed

lemma split_header: "wire_header (k, v) \<Longrightarrow> split_once '':'' (header_line (k, v)) = Some (k, CHR '' '' # v)"
  using split_once_here [of "CHR '':''" k "[]" "CHR '' '' # v"] by (simp add: wire_header_def header_line_def)

lemma read_headers_wire:
  "list_all wire_header hs \<Longrightarrow> b + header_size hs \<le> MAX_HEADER_BYTES \<Longrightarrow>
   t_in t = concat (map (\<lambda>h. line_bytes (header_line h)) hs) @ CRLF @ rest \<Longrightarrow>
     read_headers b acc t = (Inr (acc @ hs), t\<lparr>t_in := rest\<rparr>)"
proof (induction hs arbitrary: b acc t)
  case Nil
  have "t_in t = line_bytes [] @ rest" using Nil(3) by (simp add: line_bytes_def bytes_of_def)
  from read_line_text [OF text_line_Nil _ this, of MAX_HEADER_BYTES] Nil(2) trim_crlf_line [of "[]"] show ?case
    by (subst read_headers.simps) (simp add: header_size_def)
next
  case (Cons h hs)
  obtain k v where h: "h = (k, v)" by fastforce
  let ?l = "header_line h" and ?rest = "concat (map (\<lambda>h. line_bytes (header_line h)) hs) @ CRLF @ rest"
  have w: "wire_header h" "text_line ?l" "?l \<noteq> []" using Cons.prems(1) text_line_header
    by (auto simp: h header_line_def)
  have n: "length ?l + 2 + (b + header_size hs) \<le> MAX_HEADER_BYTES"
    using Cons.prems(2) by (simp add: header_size_def)
  have "read_line_capped MAX_HEADER_BYTES t
      = (Inr (?l @ [CHR 0x0D, CHR 0x0A], length ?l + 2), t\<lparr>t_in := ?rest\<rparr>)"
    using n Cons.prems(3) by (intro read_line_text w(2)) simp_all
  moreover have "read_headers (b + (length ?l + 2)) (acc @ [h]) (t\<lparr>t_in := ?rest\<rparr>)
      = (Inr ((acc @ [h]) @ hs), (t\<lparr>t_in := ?rest\<rparr>)\<lparr>t_in := rest\<rparr>)"
    using Cons.prems(1) n by (intro Cons.IH) simp_all
  moreover have "(trim k, trim (CHR '' '' # v)) = h"
    using w(1) by (simp add: h wire_header_def trim_trimmed)
  ultimately show ?case
    using split_header [of k v] w n trim_crlf_line [OF w(2)] by (subst read_headers.simps) (simp add: h)
qed

definition status_line :: "string \<Rightarrow> u16 \<Rightarrow> string \<Rightarrow> string" where
  "status_line version status reason = version @ '' '' @ show_nat (unat status) @ '' '' @ reason"

lemma parse_status_line_wire:
  assumes "starts_with ''HTTP/'' version" and "CHR '' '' \<notin> set version"
  shows "parse_status_line (status_line version status reason) = Inr (version, status, reason)"
proof -
  let ?st = "show_nat (unat status)"
  have "CHR '' '' \<notin> set ?st" using show_nat_graphic [of "CHR '' ''"] by (auto simp: graphic_def)
  then have "splitn 3 CHR '' '' (status_line version status reason) = [version, ?st, reason]"
    using split_once_here [of "CHR '' ''" version "[]" "?st @ '' '' @ reason"]
      split_once_here [of "CHR '' ''" ?st "[]" reason] assms(2)
    by (simp add: status_line_def numeral_3_eq_3)
  then show ?thesis using assms(1) by (simp add: parse_status_line_def parse_u16_show)
qed

subsection \<open>Bodies\<close>

text \<open>A chunk: its extension and its data.  The last line of a chunked body has an extension too.\<close>

definition chunk_ext :: "string \<Rightarrow> bool" where
  "chunk_ext x \<longleftrightarrow> (x = [] \<or> hd x = CHR '';'') \<and> text_line x \<and> length x < 60000"

definition chunk_bytes :: "string \<times> bytes \<Rightarrow> bytes" where
  "chunk_bytes = (\<lambda>(x, c). line_bytes (show_hex (length c) @ x) @ c @ CRLF)"

definition chunked_bytes :: "(string \<times> bytes) list \<Rightarrow> string \<Rightarrow> string list \<Rightarrow> bytes" where
  "chunked_bytes chunks x trailers =
     concat (map chunk_bytes chunks) @ line_bytes (''0'' @ x) @ concat (map line_bytes trailers) @ line_bytes []"

definition wire_chunk :: "string \<times> bytes \<Rightarrow> bool" where
  "wire_chunk = (\<lambda>(x, c). chunk_ext x \<and> c \<noteq> [])"

definition wire_trailer :: "string \<Rightarrow> bool" where
  "wire_trailer l \<longleftrightarrow> text_line l \<and> l \<noteq> [] \<and> length l < MAX_HEADER_BYTES"

lemma skip_trailers_wire:
  "list_all wire_trailer ls \<Longrightarrow> t_in t = concat (map line_bytes ls) @ line_bytes [] @ rest \<Longrightarrow>
     skip_trailers t = (Inr (), t\<lparr>t_in := rest\<rparr>)"
proof (induction ls arbitrary: t)
  case Nil
  then have "t_in t = line_bytes [] @ rest" by simp
  from read_line_text [OF text_line_Nil _ this, of MAX_HEADER_BYTES] trim_crlf_line [of "[]"]
  show ?case by (subst skip_trailers.simps) simp
next
  case (Cons l ls)
  let ?rest = "concat (map line_bytes ls) @ line_bytes [] @ rest"
  have l: "text_line l" "l \<noteq> []" "length l < MAX_HEADER_BYTES" using Cons.prems(1) by (simp_all add: wire_trailer_def)
  have "t_in t = line_bytes l @ ?rest" using Cons.prems(2) by simp
  from read_line_text [OF l(1,3) this] trim_crlf_line [OF l(1)] l(2) Cons.prems(1) Cons.IH [of "t\<lparr>t_in := ?rest\<rparr>"]
  show ?case by (subst skip_trailers.simps) simp
qed

lemma hd_split_char: "c \<notin> set s \<Longrightarrow> t = [] \<or> hd t = c \<Longrightarrow> hd (split_char c (s @ t)) = s"
proof (induction s)
  case Nil
  then show ?case by (cases t) auto
next
  case (Cons x s)
  then show ?case by (cases "split_char c (s @ t)") auto
qed

lemma show_hex_facts: "text_line (show_hex n)" "CHR '';'' \<notin> set (show_hex n)"
proof -
  show "text_line (show_hex n)"
    using show_hex_graphic by (intro text_line_ascii) (fastforce simp: graphic_def Let_def)
  show "CHR '';'' \<notin> set (show_hex n)" using show_hex_digits [of "CHR '';''" n] by auto
qed

lemma chunk_size_wire:
  assumes "chunk_ext x" and "n \<le> USIZE_MAX"
  shows "chunk_size (show_hex n @ x @ [CHR 0x0D, CHR 0x0A]) = Inr n"
proof -
  have "text_line (show_hex n @ x)"
    using assms(1) show_hex_facts(1) by (intro text_line_append) (simp_all add: chunk_ext_def)
  from trim_crlf_line [OF this] have "trim_crlf (show_hex n @ x @ [CHR 0x0D, CHR 0x0A]) = show_hex n @ x" by simp
  moreover have "hd (split_char CHR '';'' (show_hex n @ x)) = show_hex n"
    using assms(1) show_hex_facts(2) by (intro hd_split_char) (auto simp: chunk_ext_def)
  ultimately show ?thesis
    using assms(2) by (simp add: chunk_size_def trim_trimmed parse_hex_show)
qed

lemma length_show_hex: "n < 16 ^ Suc k \<Longrightarrow> length (show_hex n) \<le> Suc k"
proof (induction k arbitrary: n)
  case 0
  then show ?case by (subst show_hex.simps) simp
next
  case (Suc k)
  then have "n div 16 < 16 ^ Suc k" by (simp add: less_mult_imp_div_less)
  from Suc.IH [OF this] show ?case by (subst show_hex.simps) simp
qed

lemma read_chunk_line:
  assumes "chunk_ext x" and "n \<le> MAX_BODY_BYTES" and "t_in t = line_bytes (show_hex n @ x) @ rest"
  shows "\<exists>line k. read_line_capped MAX_HEADER_BYTES t = (Inr (line, k), t\<lparr>t_in := rest\<rparr>) \<and> k \<noteq> 0 \<and>
    chunk_size line = Inr n"
proof -
  have l: "text_line (show_hex n @ x)"
    using assms(1) show_hex_facts(1) by (intro text_line_append) (simp_all add: chunk_ext_def)
  have "length (show_hex n) \<le> Suc 7" using assms(2) by (intro length_show_hex) simp
  then have "length (show_hex n @ x) < MAX_HEADER_BYTES" using assms(1) by (simp add: chunk_ext_def)
  from read_line_text [OF l this assms(3)] chunk_size_wire [OF assms(1), of n] assms(2) show ?thesis by simp
qed

lemma read_chunks_wire:
  "list_all wire_chunk chunks \<Longrightarrow> chunk_ext x \<Longrightarrow> list_all wire_trailer ls \<Longrightarrow>
   length body + length (concat (map snd chunks)) \<le> MAX_BODY_BYTES \<Longrightarrow>
   t_in t = chunked_bytes chunks x ls @ rest \<Longrightarrow>
     read_chunks body t = (Inr (body @ concat (map snd chunks)), t\<lparr>t_in := rest\<rparr>)"
proof (induction chunks arbitrary: body t)
  case Nil
  have "show_hex 0 = ''0''" by (simp add: show_hex.simps [of 0] hex_char_def char_of_def bit_0)
  then have "t_in t = line_bytes (show_hex 0 @ x) @ (concat (map line_bytes ls) @ line_bytes [] @ rest)"
    using Nil.prems(5) by (simp add: chunked_bytes_def)
  from read_chunk_line [OF Nil.prems(2) _ this] obtain line k where
    "read_line_capped MAX_HEADER_BYTES t = (Inr (line, k), t\<lparr>t_in := concat (map line_bytes ls) @ line_bytes [] @ rest\<rparr>)"
    "k \<noteq> 0" "chunk_size line = Inr 0" by auto
  with skip_trailers_wire [OF Nil.prems(3), of _ rest] Nil.prems(4) show ?case
    by (subst read_chunks.simps) (simp add: saturating_add_usize_def)
next
  case (Cons xc chunks)
  obtain y c where xc: "xc = (y, c)" by fastforce
  have c: "chunk_ext y" "c \<noteq> []" using Cons.prems(1) by (simp_all add: xc wire_chunk_def)
  have n: "length c \<le> MAX_BODY_BYTES" "length body + length c \<le> MAX_BODY_BYTES"
    using Cons.prems(4) by (simp_all add: xc)
  let ?rest = "chunked_bytes chunks x ls @ rest"
  have "t_in t = line_bytes (show_hex (length c) @ y) @ (c @ CRLF @ ?rest)"
    using Cons.prems(5) by (simp add: chunked_bytes_def chunk_bytes_def xc)
  from read_chunk_line [OF c(1) n(1) this] obtain line k where
    "read_line_capped MAX_HEADER_BYTES t = (Inr (line, k), t\<lparr>t_in := c @ CRLF @ ?rest\<rparr>)"
    "k \<noteq> 0" "chunk_size line = Inr (length c)" by blast
  moreover have "read_chunks (body @ c) (t\<lparr>t_in := ?rest\<rparr>)
      = (Inr ((body @ c) @ concat (map snd chunks)), (t\<lparr>t_in := ?rest\<rparr>)\<lparr>t_in := rest\<rparr>)"
    using Cons.prems by (intro Cons.IH) (simp_all add: xc)
  ultimately show ?case
    using n c(2) by (subst read_chunks.simps) (simp add: saturating_add_usize_def read_exact_def xc)
qed

lemma read_chunked_wire:
  "list_all wire_chunk chunks \<Longrightarrow> chunk_ext x \<Longrightarrow> list_all wire_trailer ls \<Longrightarrow>
   length (concat (map snd chunks)) \<le> MAX_BODY_BYTES \<Longrightarrow> t_in t = chunked_bytes chunks x ls @ rest \<Longrightarrow>
     read_chunked t = (Inr (concat (map snd chunks)), t\<lparr>t_in := rest\<rparr>)"
  using read_chunks_wire [of chunks x ls "[]" t rest] by (simp add: read_chunked_def)

subsection \<open>Responses\<close>

text \<open>The legal wire forms of a body, as the headers frame it.\<close>

inductive wire_body :: "string \<Rightarrow> u16 \<Rightarrow> (string \<times> string) list \<Rightarrow> bytes \<Rightarrow> bytes \<Rightarrow> bool" where
  no_body: "bodyless meth status \<Longrightarrow> wire_body meth status hs [] []"
| sized: "\<not> bodyless meth status \<Longrightarrow> \<not> has_header ''transfer-encoding'' hs \<Longrightarrow>
    filter (\<lambda>(k, _). eq_ignore_ascii_case k ''content-length'') hs = [(k, show_nat (length body))] \<Longrightarrow>
    length body \<le> MAX_BODY_BYTES \<Longrightarrow> wire_body meth status hs body body"
| chunked: "\<not> bodyless meth status \<Longrightarrow> is_chunked hs \<Longrightarrow> \<not> has_header ''content-length'' hs \<Longrightarrow>
    list_all wire_chunk chunks \<Longrightarrow> chunk_ext x \<Longrightarrow> list_all wire_trailer ls \<Longrightarrow>
    length (concat (map snd chunks)) \<le> MAX_BODY_BYTES \<Longrightarrow>
    wire_body meth status hs (concat (map snd chunks)) (chunked_bytes chunks x ls)"

lemma split_no_comma: "CHR '','' \<notin> set s \<Longrightarrow> split_char CHR '','' s = [s]"
  by (induction s) auto

lemma content_length_filter:
  "filter (\<lambda>(k, _). eq_ignore_ascii_case k ''content-length'') hs = [(k, show_nat n)] \<Longrightarrow>
   n \<le> 18446744073709551615 \<Longrightarrow> content_length_headers hs None = Inr (Some (of_nat n))"
proof (induction hs)
  case (Cons h hs)
  obtain j v where h: "h = (j, v)" by fastforce
  have rest: "filter (\<lambda>(k, _). eq_ignore_ascii_case k ''content-length'') hs = [] \<Longrightarrow>
      content_length_headers hs seen = Inr seen" for seen
    by (induction hs) (auto simp: eq_ignore_ascii_case_def split: if_splits)
  have "CHR '','' \<notin> set (show_nat n)" using show_nat_graphic [of "CHR '',''" n] show_nat_digits [of "CHR '',''" n] by auto
  then show ?case
    using Cons rest by (cases "eq_ignore_ascii_case j ''content-length''")
      (auto simp: h split_no_comma trim_trimmed parse_u64_def parse_unsigned_show)
qed simp

lemma read_body_wire:
  assumes "wire_body meth status hs body bs" and "t_in t = bs @ rest"
  shows "read_body hs status meth t = (Inr body, t\<lparr>t_in := rest\<rparr>)"
  using assms
proof (cases rule: wire_body.cases)
  case no_body
  with assms(2) show ?thesis by (simp add: read_body_def)
next
  case (sized k)
  then have n: "length body < 2 ^ 64" by simp
  then have u: "unat (of_nat (length body) :: u64) = length body"
    by (simp add: unat_of_nat take_bit_nat_eq_self)
  have "\<not> is_chunked hs" using sized by (auto simp: is_chunked_def has_header_def)
  moreover have "\<not> (of_nat (length body) :: u64) > of_nat MAX_BODY_BYTES"
    using sized u by (simp add: word_less_nat_alt)
  ultimately show ?thesis
    using sized content_length_filter [of hs k "length body"] n assms(2) u
    by (simp add: read_body_def parse_content_length_def read_to_limit_def)
next
  case (chunked chunks x ls)
  with read_chunked_wire [of chunks x ls t rest] assms(2) show ?thesis by (simp add: read_body_def)
qed

definition response_head :: "response \<Rightarrow> bytes" where
  "response_head r = line_bytes (status_line (rs_version r) (rs_status r) (rs_reason r)) @
     concat (map (\<lambda>h. line_bytes (header_line h)) (rs_headers r)) @ line_bytes []"

definition wire_response :: "string \<Rightarrow> response \<Rightarrow> bytes \<Rightarrow> bool" where
  "wire_response meth r bs \<longleftrightarrow>
     starts_with ''HTTP/'' (rs_version r) \<and> CHR '' '' \<notin> set (rs_version r) \<and>
     text_line (rs_version r) \<and> text_line (rs_reason r) \<and>
     length (rs_version r) + length (rs_reason r) < 65000 \<and>
     list_all wire_header (rs_headers r) \<and> header_size (rs_headers r) \<le> MAX_HEADER_BYTES \<and>
     \<not> has_header ''content-encoding'' (rs_headers r) \<and>
     (\<exists>w. wire_body meth (rs_status r) (rs_headers r) (rs_body r) w \<and> bs = response_head r @ w)"

lemma length_show_nat: "n < 10 ^ Suc k \<Longrightarrow> length (show_nat n) \<le> Suc k"
proof (induction k arbitrary: n)
  case 0
  then show ?case by (subst show_nat.simps) simp
next
  case (Suc k)
  then have "n div 10 < 10 ^ Suc k" by (simp add: less_mult_imp_div_less)
  from Suc.IH [OF this] show ?case by (subst show_nat.simps) simp
qed

lemma maybe_decode_plain: "\<not> has_header ''content-encoding'' hs \<Longrightarrow> maybe_decode_body A hs body = Inr (hs, body)"
proof -
  assume "\<not> has_header ''content-encoding'' hs"
  then have "find (\<lambda>(k, _). eq_ignore_ascii_case k ''content-encoding'') hs = None"
    by (auto simp: has_header_def find_None_iff)
  then show ?thesis by (simp add: maybe_decode_body_def)
qed

lemma read_response_wire:
  assumes "wire_response meth r bs" and "t_in t = bs @ rest"
  shows "read_response A meth t = (Inr r, t\<lparr>t_in := rest\<rparr>)"
proof -
  obtain w where w: "wire_body meth (rs_status r) (rs_headers r) (rs_body r) w" "bs = response_head r @ w"
    using assms(1) unfolding wire_response_def by blast
  let ?sl = "status_line (rs_version r) (rs_status r) (rs_reason r)"
  let ?rest = "concat (map (\<lambda>h. line_bytes (header_line h)) (rs_headers r)) @ CRLF @ w @ rest"
  have "unat (rs_status r) < 2 ^ LENGTH(16)" by (rule unsigned_less)
  then have "length (show_nat (unat (rs_status r))) \<le> Suc 4" by (intro length_show_nat) simp
  then have len: "length ?sl < MAX_HEADER_BYTES" using assms(1) by (simp add: wire_response_def status_line_def)
  have "text_line (show_nat n)" for n
    using show_nat_graphic by (intro text_line_ascii) (fastforce simp: graphic_def Let_def)
  moreover have "text_line '' ''" by (rule text_line_ascii) simp
  ultimately have sl: "text_line ?sl"
    using assms(1) unfolding wire_response_def status_line_def by (intro text_line_append) blast+
  have "t_in t = line_bytes ?sl @ ?rest"
    using assms(2) w(2) by (simp add: response_head_def line_bytes_def bytes_of_def)
  note line = read_line_text [OF sl len this]
  have status: "parse_status_line ?sl = Inr (rs_version r, rs_status r, rs_reason r)"
    using assms(1) by (intro parse_status_line_wire) (simp_all add: wire_response_def)
  have heads: "read_headers 0 [] (t\<lparr>t_in := ?rest\<rparr>) = (Inr (rs_headers r), t\<lparr>t_in := w @ rest\<rparr>)"
    using read_headers_wire [of "rs_headers r" 0 "t\<lparr>t_in := ?rest\<rparr>" "w @ rest" "[]"] assms(1)
    by (simp add: wire_response_def)
  have body: "read_body (rs_headers r) (rs_status r) meth (t\<lparr>t_in := w @ rest\<rparr>)
      = (Inr (rs_body r), t\<lparr>t_in := rest\<rparr>)"
    using read_body_wire [OF w(1), of "t\<lparr>t_in := w @ rest\<rparr>" rest] by simp
  have "\<not> has_header ''content-encoding'' (rs_headers r)" using assms(1) by (simp add: wire_response_def)
  then show ?thesis
    using line trim_crlf_line [OF sl] status heads body
    by (simp add: read_response_def maybe_decode_plain)
qed

subsection \<open>Bounds and framing\<close>

lemma read_chunks_bounded:
  "read_chunks body t = (Inr out, t') \<Longrightarrow> length body \<le> MAX_BODY_BYTES \<Longrightarrow> length out \<le> MAX_BODY_BYTES"
proof (induction body t rule: read_chunks.induct)
  case (1 body t)
  obtain r t1 where r: "read_line_capped MAX_HEADER_BYTES t = (r, t1)" by fastforce
  with 1(2) obtain line n where line: "r = Inr (line, n)" "n \<noteq> 0"
    by (cases r) (auto simp: read_chunks.simps [of body t] split: if_splits)
  with 1(2) r obtain sz where sz: "chunk_size line = Inr sz" "\<not> saturating_add_usize (length body) sz > MAX_BODY_BYTES"
    by (auto simp: read_chunks.simps [of body t] split: sum.splits if_splits)
  show ?case
  proof (cases "sz = 0")
    case True
    with 1(2,3) r line sz show ?thesis by (auto simp: read_chunks.simps [of body t] bindS_eq_Inr)
  next
    case False
    obtain d t2 where d: "read_exact sz t1 = (d, t2)" by fastforce
    with 1(2) r line sz False obtain chunk where chunk: "d = Inr chunk"
      by (cases d) (auto simp: read_chunks.simps [of body t])
    obtain e t3 where e: "read_exact 2 t2 = (e, t3)" by fastforce
    with 1(2) r line sz False d chunk have crlf: "e = Inr CRLF" "read_chunks (body @ chunk) t3 = (Inr out, t')"
      by (auto simp: read_chunks.simps [of body t] split: sum.splits if_splits)
    have "length (body @ chunk) \<le> MAX_BODY_BYTES"
      using sz(2) d chunk by (auto simp: saturating_add_usize_def read_exact_def split: if_splits)
    from 1(1) [OF refl r [symmetric] line(1) refl line(2) sz(1,2) False refl d [symmetric] chunk refl e [symmetric]
        crlf(1) _ crlf(2) this]
    show ?thesis by simp
  qed
qed

lemma content_length_parts_agree:
  "content_length_parts parts seen = Inr r \<Longrightarrow>
     (\<forall>p\<in>set parts. parse_u64 (trim p) = r) \<and> (seen \<noteq> None \<longrightarrow> r = seen) \<and> (parts \<noteq> [] \<longrightarrow> r \<noteq> None)"
proof (induction parts arbitrary: seen)
  case (Cons p ps)
  then obtain n where n: "parse_u64 (trim p) = Some n" "seen = None \<or> seen = Some n"
    "content_length_parts ps (Some n) = Inr r" by (auto split: option.splits if_splits)
  with Cons.IH [OF n(3)] show ?case by auto
qed simp

lemma content_length_agree:
  "content_length_headers hs seen = Inr r \<Longrightarrow>
     (\<forall>(k, v)\<in>set hs. eq_ignore_ascii_case k ''content-length'' \<longrightarrow>
        r \<noteq> None \<and> (\<forall>p\<in>set (split_char CHR '','' v). parse_u64 (trim p) = r)) \<and>
     (seen \<noteq> None \<longrightarrow> r = seen)"
proof (induction hs seen rule: content_length_headers.induct)
  case (2 k v hs seen)
  show ?case
  proof (cases "eq_ignore_ascii_case k ''content-length''")
    case False
    with 2 show ?thesis by simp
  next
    case True
    with 2(3) obtain s where s: "content_length_parts (split_char CHR '','' v) seen = Inr s"
      "content_length_headers hs s = Inr r" by (auto simp: bindR_eq_Inr)
    note a = content_length_parts_agree [OF s(1)]
    then have "s \<noteq> None" by simp
    with a 2(2) [OF _ s] True show ?thesis by auto
  qed
qed simp

subsection \<open>Properties\<close>

text \<open>A connection's responses read one after the other, for the methods of its requests.\<close>

fun read_responses :: "decoders \<Rightarrow> string list \<Rightarrow> transport \<Rightarrow> response list result \<times> transport" where
  "read_responses A [] t = (Inr [], t)"
| "read_responses A (m # ms) t =
     bindS (read_response A m t) (\<lambda>r t. bindS (read_responses A ms t) (\<lambda>rs t. (Inr (r # rs), t)))"

text \<open>C11: Whatever legal framing the server chooses for each body -- sized, chunked in any way with extensions
  and trailers, or none -- the responses on one connection are read back in order and unchanged, and
  exactly their bytes are consumed.\<close>

theorem responses_in_order:
  assumes "list_all (\<lambda>(m, r, bs). wire_response m r bs) ws"
    and "t_in t = concat (map (\<lambda>(m, r, bs). bs) ws) @ rest"
  shows "read_responses A (map fst ws) t = (Inr (map (fst \<circ> snd) ws), t\<lparr>t_in := rest\<rparr>)"
  using assms
proof (induction ws arbitrary: t)
  case (Cons w ws)
  obtain m r bs where w: "w = (m, r, bs)" by (cases w)
  let ?rest = "concat (map (\<lambda>(m, r, bs). bs) ws) @ rest"
  have "read_response A m t = (Inr r, t\<lparr>t_in := ?rest\<rparr>)"
    using Cons.prems by (intro read_response_wire) (simp_all add: w)
  with Cons.IH [of "t\<lparr>t_in := ?rest\<rparr>"] Cons.prems(1) show ?case by (simp add: w)
qed simp

definition example_response :: response where
  "example_response = \<lparr>rs_status = 200, rs_reason = ''OK'', rs_version = ''HTTP/1.1'',
     rs_headers = [(''Transfer-Encoding'', ''chunked'')], rs_body = [1, 2, 3]\<rparr>"

definition example_chunks :: bytes where
  "example_chunks = response_head example_response @ chunked_bytes [([], [1, 2]), ('';a'', [3])] [] [''X: y'']"

lemma example_wire: "wire_response ''GET'' example_response example_chunks"
proof -
  have t: "text_line ''HTTP/1.1''" "text_line ''OK''" "text_line ''Transfer-Encoding''" "text_line ''chunked''"
    "text_line '';a''" "text_line ''X: y''"
    by (rule text_line_ascii, simp)+
  have "wire_body ''GET'' 200 [(''Transfer-Encoding'', ''chunked'')] (concat (map snd [([], [1, 2]), ('';a'', [3])]))
      (chunked_bytes [([], [1, 2]), ('';a'', [3])] [] [''X: y''])"
    using t by (intro wire_body.chunked)
      (simp_all add: bodyless_def is_chunked_def has_header_def wire_chunk_def chunk_ext_def wire_trailer_def
        str_eval)
  then show ?thesis
    using t unfolding wire_response_def example_response_def example_chunks_def
    by (simp add: wire_header_def header_size_def header_line_def trimmed_def graphic_def has_header_def str_eval)
qed

lemma responses_in_order_witness:
  "read_responses stored_decoder [''GET'', ''GET''] (fresh_transport\<lparr>t_in := example_chunks @ example_chunks @ [7]\<rparr>)
     = (Inr [example_response, example_response], fresh_transport\<lparr>t_in := [7]\<rparr>)"
  using responses_in_order [of "[(''GET'', example_response, example_chunks), (''GET'', example_response, example_chunks)]"
      "fresh_transport\<lparr>t_in := example_chunks @ example_chunks @ [7]\<rparr>" "[7]" stored_decoder] example_wire
  by simp

text \<open>No accepted response body, however it is framed, exceeds 256 MiB.\<close>

lemma response_body_bounded:
  assumes "read_body headers status meth t = (Inr body, t')"
  shows "length body \<le> 256 * 1024 * 1024"
proof -
  have limited: "length bs \<le> n" if "read_to_limit n t = (Inr bs, t')" for n bs t'
    using that by (auto simp: read_to_limit_def split: if_splits)
  have sized: "unat len \<le> 268435456" if "\<not> 268435456 < len" for len :: u64
    using that by (simp add: word_less_nat_alt)
  show ?thesis
    using assms read_chunks_bounded [of "[]" t body t']
    by (auto simp: read_body_def read_chunked_def split: if_splits sum.splits option.splits prod.splits
        dest!: limited intro: sized)
qed

text \<open>C12: Framing is never ambiguous: when a body with a \<open>Content-Length\<close> is accepted, there was no
  \<open>Transfer-Encoding\<close>, every part of every \<open>Content-Length\<close> value is the same number, and the body is exactly
  that many bytes of the input.\<close>

theorem content_length_unambiguous:
  assumes "read_body headers status meth t = (Inr body, t')" and "\<not> bodyless meth status"
    and "has_header ''content-length'' headers"
  shows "\<not> has_header ''transfer-encoding'' headers \<and> t_in t = body @ t_in t' \<and>
    (\<forall>(k, v)\<in>set headers. eq_ignore_ascii_case k ''content-length'' \<longrightarrow>
       (\<forall>p\<in>set (split_char CHR '','' v). map_option unat (parse_u64 (trim p)) = Some (length body)))"
proof -
  have te: "\<not> has_header ''transfer-encoding'' headers" using assms by (auto simp: read_body_def split: if_splits)
  then have "\<not> is_chunked headers" by (auto simp: is_chunked_def has_header_def)
  with te assms obtain r where r: "parse_content_length headers = Inr r"
    by (cases "parse_content_length headers") (simp_all add: read_body_def)
  note agree = content_length_agree [OF r [unfolded parse_content_length_def]]
  with assms(3) obtain len where len: "r = Some len" by (cases r) (auto simp: has_header_def)
  obtain d t1 where d: "read_to_limit (unat len) t = (d, t1)" by fastforce
  with te assms r len \<open>\<not> is_chunked headers\<close> have "d = Inr body" "t1 = t'" "\<not> length body < unat len"
    by (cases d; auto simp: read_body_def split: if_splits)+
  with d have "t_in t = body @ t_in t'" "length body = unat len"
    by (auto simp: read_to_limit_def split: if_splits)
  with te agree len show ?thesis by auto
qed

text \<open>A sized body to apply them to.\<close>

lemma example_sized_body:
  "read_body [(''Content-Length'', ''2'')] 200 ''GET'' (fresh_transport\<lparr>t_in := [5, 6, 7]\<rparr>)
     = (Inr [5, 6], fresh_transport\<lparr>t_in := [7]\<rparr>)"
proof -
  have "show_nat 2 = ''2''" by (simp add: show_nat.simps char_of_def bit_0)
  then have "show_nat (Suc (Suc 0)) = ''2''" by (simp add: numeral_2_eq_2)
  then have "wire_body ''GET'' 200 [(''Content-Length'', ''2'')] [5, 6] [5, 6]"
    by (intro wire_body.sized [of _ _ _ "''Content-Length''"])
      (simp_all add: bodyless_def has_header_def str_eval)
  from read_body_wire [OF this, of "fresh_transport\<lparr>t_in := [5, 6, 7]\<rparr>" "[7]"] show ?thesis by simp
qed

lemma content_length_unambiguous_witness:
  "\<not> has_header ''transfer-encoding'' [(''Content-Length'', ''2'')]"
  using content_length_unambiguous [OF example_sized_body]
  by (simp add: bodyless_def has_header_def str_eval)

lemma response_body_bounded_witness: "length [5, 6 :: byte] \<le> 256 * 1024 * 1024"
  by (rule response_body_bounded [OF example_sized_body])

end
