(* ===== verification/H2_Mux.thy ===== *)
theory H2_Mux
  imports H2_Drive
begin

text \<open>
  The concurrent driver of an HTTP/2 connection (\<open>stage_request_on\<close>, \<open>pump_pending_sends\<close>,
  \<open>run_multiplexed\<close> and their helpers in \<open>src/src/http2.rs\<close>): many requests on one connection, one frame
  loop.  \<open>mux\<close> is the state of that loop; \<open>mux_step\<close> is one turn of it, which either stops (\<open>Inl\<close>) or
  goes on (\<open>Inr\<close>).  \<open>mux_ok\<close> is the loop invariant: every request without a result is either queued or
  in flight on a stream of its own.  It gives termination: each turn reads a frame or answers a
  request, so the loop returns on every finite input, with one result per request.
\<close>

subsection \<open>Staging and pumping\<close>

text \<open>The stream's transition for the HEADERS, with the body parked on it.\<close>

definition stage_stream :: "u32 \<Rightarrow> bytes \<Rightarrow> connection \<Rightarrow> unit result \<times> connection" where
  "stage_stream sid body c =
     (case get_stream c sid of
        None \<Rightarrow> (Inl (BadResponse ''stream {stream_id} not found''), c)
      | Some s \<Rightarrow>
          (case send_data (st_state s) (body = []) of
             Inl e \<Rightarrow> (Inl e, c)
           | Inr t \<Rightarrow>
               (Inr (), put_stream sid
                  (if body \<noteq> []
                   then s\<lparr>st_state := t, st_pending_body := Some \<lparr>pb_bytes = body, pb_sent = 0\<rparr>\<rparr>
                   else s\<lparr>st_state := t\<rparr>) c)))"

definition stage_request_on :: "u32 \<Rightarrow> request \<Rightarrow> connection \<Rightarrow> unit result \<times> connection" where
  "stage_request_on sid req c =
     (let (header_block, e) = build_header_block (c_encoder c) req;
          c = c\<lparr>c_encoder := e\<rparr>;
          header_frames = fragment_header_block sid header_block
            (unat (max_frame_size (c_peer c))) (rq_body req = [])
      in bindS (write_header_frames header_frames c) (\<lambda>_ c. stage_stream sid (rq_body req) c))"

definition pending_len :: "u32 \<Rightarrow> connection \<Rightarrow> nat" where
  "pending_len sid c =
     (case get_stream c sid of
        None \<Rightarrow> 0
      | Some s \<Rightarrow>
          (case st_pending_body s of None \<Rightarrow> 0 | Some pb \<Rightarrow> length (pb_bytes pb) - pb_sent pb))"

lemma send_chunk_ok:
  assumes "send_chunk sid chunk is_last c = (Inr (), c')"
  shows "\<exists>s t. get_stream c sid = Some s \<and> send_data (st_state s) is_last = Inr t \<and>
    get_stream c' sid
      = Some (s\<lparr>st_send_window := ssw_consume (length chunk) (st_send_window s), st_state := t\<rparr>)"
proof -
  from assms obtain c1 where w: "on_tls (write_frame (data_frame sid chunk is_last)) c = (Inr (), c1)"
    by (auto simp: send_chunk_def bindS_eq_Inr)
  note same = get_stream_on_tls [OF w]
  obtain s where s: "get_stream c sid = Some s"
    using assms w same by (cases "get_stream c sid") (auto simp: send_chunk_def Let_def)
  obtain t where "send_data (st_state s) is_last = Inr t"
    using assms w same s by (cases "send_data (st_state s) is_last") (auto simp: send_chunk_def Let_def)
  with assms w same s show ?thesis by (auto simp: send_chunk_def Let_def conn_simps)
qed

text \<open>The loop over one stream: until its window stalls or its body is exhausted.\<close>

function pump_stream :: "nat \<Rightarrow> u32 \<Rightarrow> bool \<Rightarrow> connection \<Rightarrow> bool result \<times> connection" where
  "pump_stream max_frame sid wrote c =
     (case get_stream c sid of
        None \<Rightarrow> (Inr wrote, c)
      | Some s \<Rightarrow>
          (case st_pending_body s of
             None \<Rightarrow> (Inr wrote, c)
           | Some pb \<Rightarrow>
               let remaining_len = length (pb_bytes pb) - pb_sent pb;
                   n = next_data_chunk_size max_frame (send_budget s (c_send_window c)) remaining_len;
                   is_last = (n = remaining_len)
               in if remaining_len = 0
                  then (Inr wrote, put_stream sid (s\<lparr>st_pending_body := None\<rparr>) c)
                  else if n = 0 then (Inr wrote, c)
                  else bindS (send_chunk sid (take n (drop (pb_sent pb) (pb_bytes pb))) is_last c) (\<lambda>_ c'.
                    case get_stream c' sid of
                      None \<Rightarrow> (Inl panicked, c')
                    | Some s' \<Rightarrow>
                        if is_last then (Inr True, put_stream sid (s'\<lparr>st_pending_body := None\<rparr>) c')
                        else pump_stream max_frame sid True
                          (put_stream sid (s'\<lparr>st_pending_body := Some (pb\<lparr>pb_sent := pb_sent pb + n\<rparr>)\<rparr>) c'))))"
  by pat_completeness auto
termination
  by (relation "measure (\<lambda>(max_frame, sid, wrote, c). pending_len sid c)")
    (auto simp: pending_len_def conn_simps)

declare pump_stream.simps [simp del]

definition pending_ids :: "connection \<Rightarrow> u32 list" where
  "pending_ids c = sort (map fst (filter (\<lambda>(_, s). st_pending_body s \<noteq> None) (c_streams c)))"

fun pump_ids :: "nat \<Rightarrow> u32 list \<Rightarrow> bool \<Rightarrow> connection \<Rightarrow> bool result \<times> connection" where
  "pump_ids max_frame [] wrote c = (Inr wrote, c)"
| "pump_ids max_frame (i # ids) wrote c =
     bindS (pump_stream max_frame i wrote c) (\<lambda>wrote c. pump_ids max_frame ids wrote c)"

definition pump_pending_sends :: "connection \<Rightarrow> bool result \<times> connection" where
  "pump_pending_sends c = pump_ids (unat (max_frame_size (c_peer c))) (pending_ids c) False c"

definition flush_pending :: "connection \<Rightarrow> unit result \<times> connection" where
  "flush_pending c = bindS (pump_pending_sends c) (\<lambda>_ c. on_tls flush c)"

subsection \<open>The state of the frame loop\<close>

record mux =
  mx_conn :: connection
  mx_ids :: "(u32 \<times> nat) list"
  mx_queue :: "nat list"
  mx_results :: "response result option list"

abbreviation set_conn :: "connection \<Rightarrow> mux \<Rightarrow> mux" where
  "set_conn c m \<equiv> m\<lparr>mx_conn := c\<rparr>"

definition set_result :: "nat \<Rightarrow> response result \<Rightarrow> mux \<Rightarrow> mux" where
  "set_result idx r m = m\<lparr>mx_results := (mx_results m)[idx := Some r]\<rparr>"

definition at_stream_limit :: "connection \<Rightarrow> bool" where
  "at_stream_limit c \<longleftrightarrow> length (c_streams c) \<ge> unat (max_concurrent_streams (c_peer c))"

fun start_loop :: "request list \<Rightarrow> nat list \<Rightarrow> mux \<Rightarrow> mux" where
  "start_loop reqs [] m = m\<lparr>mx_queue := []\<rparr>"
| "start_loop reqs (idx # queue) m =
     (if at_stream_limit (mx_conn m) then m\<lparr>mx_queue := idx # queue\<rparr>
      else case open_stream (mx_conn m) of
        (Inl e, c) \<Rightarrow> start_loop reqs queue (set_result idx (Inl e) (set_conn c m))
      | (Inr sid, c) \<Rightarrow>
          (case stage_request_on sid (reqs ! idx) c of
             (Inl e, c) \<Rightarrow> start_loop reqs queue (set_result idx (Inl e) (set_conn (remove_stream sid c) m))
           | (Inr _, c) \<Rightarrow>
               start_loop reqs queue ((set_conn c m)\<lparr>mx_ids := AList.update sid idx (mx_ids m)\<rparr>)))"

definition start_queued :: "request list \<Rightarrow> mux \<Rightarrow> mux" where
  "start_queued reqs m = start_loop reqs (mx_queue m) m"

text \<open>The streams of live requests that were just closed without a complete response.\<close>

definition closed_unfinished :: "mux \<Rightarrow> u32 list" where
  "closed_unfinished m =
     map fst (filter (\<lambda>(i, s). map_of (mx_ids m) i \<noteq> None \<and> st_state s = Closed \<and> \<not> stream_done s)
       (c_streams (mx_conn m)))"

definition take_stream_error :: "mux \<Rightarrow> (nat \<times> mux) option" where
  "take_stream_error m =
     (case closed_unfinished m of
        [i] \<Rightarrow>
          (case map_of (mx_ids m) i of
             None \<Rightarrow> None
           | Some idx \<Rightarrow>
               Some (idx, m\<lparr>mx_ids := AList.delete i (mx_ids m), mx_conn := remove_stream i (mx_conn m)\<rparr>))
      | _ \<Rightarrow> None)"

definition doomed_ids :: "u32 \<Rightarrow> mux \<Rightarrow> u32 list" where
  "doomed_ids last_id m =
     filter (\<lambda>i. i > last_id \<and>
         (case get_stream (mx_conn m) i of
            Some s \<Rightarrow> \<not> (st_end_stream_recv s \<and> st_response_headers s \<noteq> None)
          | None \<Rightarrow> True))
       (map fst (mx_ids m))"

definition abandon_stream :: "u32 \<Rightarrow> mux \<Rightarrow> mux" where
  "abandon_stream i m =
     (case map_of (mx_ids m) i of
        None \<Rightarrow> m
      | Some idx \<Rightarrow>
          set_result idx (Inl (BadResponse ''stream {id} abandoned by GOAWAY (last-stream-id={last})''))
            (m\<lparr>mx_ids := AList.delete i (mx_ids m), mx_conn := remove_stream i (mx_conn m)\<rparr>))"

definition fail_goaway_doomed :: "mux \<Rightarrow> mux" where
  "fail_goaway_doomed m =
     (case c_goaway_received (mx_conn m) of
        None \<Rightarrow> m
      | Some last_id \<Rightarrow> fold abandon_stream (doomed_ids last_id m) m)"

fun clone_error :: "error \<Rightarrow> error" where
  "clone_error (InvalidUrl s) = InvalidUrl s"
| "clone_error (UnsupportedScheme s) = UnsupportedScheme s"
| "clone_error (Io k) = Io k"
| "clone_error (BadResponse s) = BadResponse s"
| "clone_error UnexpectedEof = UnexpectedEof"
| "clone_error H2NotNegotiated = H2NotNegotiated"
| "clone_error (Ssh s) = Ssh s"

definition fail_slot :: "error \<Rightarrow> nat \<Rightarrow> mux \<Rightarrow> mux" where
  "fail_slot e idx m = (if mx_results m ! idx = None then set_result idx (Inl (clone_error e)) m else m)"

definition fail_all_outstanding :: "error \<Rightarrow> mux \<Rightarrow> mux" where
  "fail_all_outstanding e m = fold (fail_slot e) (map snd (mx_ids m) @ mx_queue m) m"

definition collect_results :: "response result option list \<Rightarrow> response result list" where
  "collect_results rs =
     map (\<lambda>slot. case slot of
            Some r \<Rightarrow> r
          | None \<Rightarrow> Inl (BadResponse ''internal: multiplexed request produced no result'')) rs"

subsection \<open>One turn of the loop\<close>

text \<open>Nothing in flight: start queued work, or fail it when no stream opens.\<close>

definition before_read :: "request list \<Rightarrow> mux \<Rightarrow> mux + mux" where
  "before_read reqs m =
     (if mx_ids m \<noteq> [] then Inr m
      else if mx_queue m = [] then Inl m
      else let m = start_queued reqs m in
        if mx_ids m = []
        then Inl ((fold (fail_slot (BadResponse ''no usable stream to issue request (GOAWAY?)'')) (mx_queue m) m)
                    \<lparr>mx_queue := []\<rparr>)
        else case flush_pending (mx_conn m) of
          (Inl _, c) \<Rightarrow> Inl (set_conn c m)
        | (Inr _, c) \<Rightarrow> Inr (set_conn c m))"

text \<open>A failed read or dispatch: of one stream, or of the connection.\<close>

definition on_dispatch_error :: "request list \<Rightarrow> error \<Rightarrow> mux \<Rightarrow> mux + mux" where
  "on_dispatch_error reqs e m =
     (case take_stream_error m of
        None \<Rightarrow> Inl (fail_all_outstanding e m)
      | Some (idx, m) \<Rightarrow>
          let m = start_queued reqs (set_result idx (Inl e) m) in
          (case flush_pending (mx_conn m) of
             (Inl fe, c) \<Rightarrow> Inl (fail_all_outstanding fe (set_conn c m))
           | (Inr _, c) \<Rightarrow> Inr (set_conn c m)))"

text \<open>A stream that finished: its response, and its slot for the next request.\<close>

definition finish_stream :: "decoders \<Rightarrow> request list \<Rightarrow> u32 \<Rightarrow> mux \<Rightarrow> mux" where
  "finish_stream A reqs i m =
     (case map_of (mx_ids m) i of
        None \<Rightarrow> m
      | Some idx \<Rightarrow>
          let m = m\<lparr>mx_ids := AList.delete i (mx_ids m)\<rparr>;
              (r, c) = unwrap_removed i (mx_conn m)
          in start_queued reqs (set_result idx (bindR r (build_response_from_stream A)) (set_conn c m)))"

definition on_outcome :: "decoders \<Rightarrow> request list \<Rightarrow> dispatch_outcome \<Rightarrow> mux \<Rightarrow> mux + mux" where
  "on_outcome A reqs out m =
     (let m = fail_goaway_doomed m;
          m = (case out of Done i \<Rightarrow> finish_stream A reqs i m | Continue \<Rightarrow> m)
      in case flush_pending (mx_conn m) of
           (Inl _, c) \<Rightarrow>
             Inl (fail_all_outstanding (BadResponse ''write error pumping multiplexed sends'') (set_conn c m))
         | (Inr _, c) \<Rightarrow> Inr (set_conn c m))"

definition mux_step :: "decoders \<Rightarrow> request list \<Rightarrow> mux \<Rightarrow> mux + mux" where
  "mux_step A reqs m =
     (case before_read reqs m of
        Inl m \<Rightarrow> Inl m
      | Inr m \<Rightarrow>
          (case read_and_dispatch (mx_conn m) of
             (Inl e, c) \<Rightarrow> on_dispatch_error reqs e (set_conn c m)
           | (Inr out, c) \<Rightarrow> on_outcome A reqs out (set_conn c m)))"

partial_function (option) mux_loop :: "decoders \<Rightarrow> request list \<Rightarrow> mux \<Rightarrow> mux option" where
  "mux_loop A reqs m =
     (if None \<notin> set (mx_results m) then Some m
      else case mux_step A reqs m of
        Inl m \<Rightarrow> Some m
      | Inr m \<Rightarrow> mux_loop A reqs m)"

definition mux_start :: "request list \<Rightarrow> connection \<Rightarrow> mux" where
  "mux_start reqs c =
     \<lparr>mx_conn = c, mx_ids = [], mx_queue = [0..<length reqs], mx_results = replicate (length reqs) None\<rparr>"

definition run_multiplexed ::
  "decoders \<Rightarrow> request list \<Rightarrow> connection \<Rightarrow> (response result list \<times> connection) option" where
  "run_multiplexed A reqs c =
     (let m = start_queued reqs (mux_start reqs c) in
      case pump_pending_sends (mx_conn m) of
        (Inl e, c) \<Rightarrow> Some (collect_results (mx_results (fail_all_outstanding e (set_conn c m))), c)
      | (Inr _, c) \<Rightarrow>
          (case on_tls flush c of
             (Inl e, c) \<Rightarrow> Some (collect_results (mx_results (fail_all_outstanding e (set_conn c m))), c)
           | (Inr _, c) \<Rightarrow>
               map_option (\<lambda>m. (collect_results (mx_results m), prune_completed_streams (mx_conn m)))
                 (mux_loop A reqs (set_conn c m))))"

subsection \<open>What the connection operations keep\<close>

lemma kept_write_headers [kept_simps]: "kept (snd (write_header_frames fs c)) = kept c"
proof (induction fs arbitrary: c)
  case (Cons f fs)
  have "kept (snd (bindS (on_tls (write_frame f) c) (\<lambda>_ c. write_header_frames fs c))) = kept c"
    by (rule kept_bindS) (simp_all add: kept_simps Cons.IH)
  then show ?case by simp
qed simp

lemma kept_send_chunk [kept_simps]: "kept (snd (send_chunk sid chunk is_last c)) = kept c"
  unfolding send_chunk_def
  by (rule kept_bindS) (simp_all add: kept_simps Let_def split: option.split sum.split)

lemma chunk_within_budget:
  assumes "0 < next_data_chunk_size mf b r"
  shows "int (length (take (next_data_chunk_size mf b r) xs)) \<le> b"
proof -
  have "0 < b" using assms by (simp add: next_data_chunk_size_def split: if_splits)
  with next_data_chunk_bounds(3) [of mf b r] show ?thesis by simp
qed

lemma pump_stream_keeps:
  "conn_ok c \<Longrightarrow> conn_ok (snd (pump_stream mf sid wrote c)) \<and> kept (snd (pump_stream mf sid wrote c)) = kept c"
proof (induction mf sid wrote c rule: pump_stream.induct)
  case (1 mf sid wrote c)
  show ?case
  proof (cases "get_stream c sid")
    case None
    with 1(2) show ?thesis by (subst (1 2) pump_stream.simps) simp
  next
    case s: (Some s)
    show ?thesis
    proof (cases "st_pending_body s")
      case None
      with 1(2) s show ?thesis by (subst (1 2) pump_stream.simps) simp
    next
      case pb: (Some pb)
      let ?rem = "length (pb_bytes pb) - pb_sent pb"
      let ?n = "next_data_chunk_size mf (send_budget s (c_send_window c)) ?rem"
      let ?chunk = "take ?n (drop (pb_sent pb) (pb_bytes pb))"
      have put: "conn_ok (put_stream sid (t\<lparr>st_pending_body := x\<rparr>) d)"
        if "conn_ok d" "get_stream d sid = Some t" for t d x
        using get_stream_ok [OF that] by (intro conn_ok_put [OF that(1)]) (simp_all add: conn_simps)
      show ?thesis
      proof (cases "?rem = 0 \<or> ?n = 0")
        case True
        with 1(2) s pb put [OF 1(2) s] show ?thesis
          by (subst (1 2) pump_stream.simps) (auto simp: Let_def kept_simps)
      next
        case False
        obtain r c1 where sc: "send_chunk sid ?chunk (?n = ?rem) c = (r, c1)" by fastforce
        have ok1: "conn_ok c1" "kept c1 = kept c"
          using conn_ok_send_chunk [OF 1(2) s chunk_within_budget, of mf ?rem "drop (pb_sent pb) (pb_bytes pb)" "?n = ?rem"]
            kept_send_chunk [of sid ?chunk "?n = ?rem" c] False sc by simp_all
        show ?thesis
        proof (cases r)
          case (Inl e)
          with False s pb sc ok1 show ?thesis by (subst (1 2) pump_stream.simps) (simp add: Let_def)
        next
          case (Inr u)
          with send_chunk_ok [of sid ?chunk "?n = ?rem" c c1] sc obtain s1 where s1: "get_stream c1 sid = Some s1"
            by auto
          show ?thesis
          proof (cases "?n = ?rem")
            case True
            with False s pb sc ok1 Inr s1 put [OF ok1(1) s1] show ?thesis
              by (subst (1 2) pump_stream.simps) (simp add: Let_def kept_simps)
          next
            case False2: False
            let ?c2 = "put_stream sid (s1\<lparr>st_pending_body := Some (pb\<lparr>pb_sent := pb_sent pb + ?n\<rparr>)\<rparr>) c1"
            have "conn_ok (snd (pump_stream mf sid True ?c2)) \<and> kept (snd (pump_stream mf sid True ?c2)) = kept ?c2"
              using 1(1) [OF s pb refl refl refl _ _ _ s1 False2 put [OF ok1(1) s1]] False sc Inr by simp
            with False False2 s pb sc ok1 Inr s1 show ?thesis
              by (subst (1 2) pump_stream.simps) (simp add: Let_def kept_simps)
          qed
        qed
      qed
    qed
  qed
qed

lemma pump_ids_keeps:
  "conn_ok c \<Longrightarrow> conn_ok (snd (pump_ids mf ids wrote c)) \<and> kept (snd (pump_ids mf ids wrote c)) = kept c"
proof (induction ids arbitrary: wrote c)
  case (Cons i ids)
  show ?case
    unfolding pump_ids.simps
    by (rule bindS_post [where P = "\<lambda>d. conn_ok d \<and> kept d = kept c"])
      (use Cons pump_stream_keeps [OF Cons.prems] in auto)
qed simp

lemma flush_pending_keeps:
  assumes "conn_ok c"
  shows "conn_ok (snd (flush_pending c)) \<and> kept (snd (flush_pending c)) = kept c"
  unfolding flush_pending_def pump_pending_sends_def
  by (rule bindS_post [where P = "\<lambda>d. conn_ok d \<and> kept d = kept c"])
    (use assms pump_ids_keeps in \<open>auto simp: conn_simps kept_simps\<close>)

lemma stage_stream_keeps:
  assumes "conn_ok c"
  shows "conn_ok (snd (stage_stream sid body c)) \<and> kept (snd (stage_stream sid body c)) = kept c"
proof (cases "get_stream c sid")
  case (Some s)
  have "conn_ok (put_stream sid (s\<lparr>st_state := t, st_pending_body := x\<rparr>) c)"
    "conn_ok (put_stream sid (s\<lparr>st_state := t\<rparr>) c)" for t x
    using get_stream_ok [OF assms Some] by (auto intro!: conn_ok_put [OF assms] simp: conn_simps)
  with assms Some show ?thesis by (simp add: stage_stream_def kept_simps split: sum.split)
qed (simp add: stage_stream_def assms)

lemma stage_keeps:
  assumes "conn_ok c"
  shows "conn_ok (snd (stage_request_on sid req c)) \<and> kept (snd (stage_request_on sid req c)) = kept c"
proof -
  obtain blk e where b: "build_header_block (c_encoder c) req = (blk, e)" by fastforce
  let ?frames = "fragment_header_block sid blk (unat (max_frame_size (c_peer c))) (rq_body req = [])"
  have headers: "conn_ok (snd (write_header_frames ?frames (c\<lparr>c_encoder := e\<rparr>))) \<and>
      kept (snd (write_header_frames ?frames (c\<lparr>c_encoder := e\<rparr>))) = kept c"
    using conn_ok_write_headers [OF conn_ok_built [OF assms b]] by (simp add: kept_simps)
  have "stage_request_on sid req c = bindS (write_header_frames ?frames (c\<lparr>c_encoder := e\<rparr>))
      (\<lambda>_ c. stage_stream sid (rq_body req) c)"
    by (simp add: stage_request_on_def b)
  moreover have "conn_ok (snd (bindS (write_header_frames ?frames (c\<lparr>c_encoder := e\<rparr>)) (\<lambda>_ c. stage_stream sid (rq_body req) c))) \<and>
      kept (snd (bindS (write_header_frames ?frames (c\<lparr>c_encoder := e\<rparr>)) (\<lambda>_ c. stage_stream sid (rq_body req) c))) = kept c"
    by (rule bindS_post [where P = "\<lambda>d. conn_ok d \<and> kept d = kept c"])
      (use headers stage_stream_keeps in auto)
  ultimately show ?thesis by simp
qed

text \<open>A stream that opens gets the next id; the input is untouched and ids only grow.\<close>

lemma open_stream_facts:
  assumes "conn_ok c" and "open_stream c = (r, c')"
  shows "conn_ok c'" "unread c' = unread c" "c_next_stream_id c \<le> c_next_stream_id c'"
    and "r = Inr sid \<Longrightarrow> sid = c_next_stream_id c \<and> sid < c_next_stream_id c'"
proof -
  show "conn_ok c'" using conn_ok_open_stream [OF assms(1)] assms(2) by (metis snd_conv)
  show "unread c' = unread c"
    using assms(2) by (auto simp: open_stream_def Let_def put_stream_def split: if_splits)
  have grow: "c_next_stream_id c < saturating_add32 (c_next_stream_id c) 2" if "c_next_stream_id c < 0x80000000"
    using odd_add2 [OF _ that] assms(1) by (simp add: conn_ok_def word_less_nat_alt)
  show "c_next_stream_id c \<le> c_next_stream_id c'"
    using assms(2) grow by (auto simp: open_stream_def Let_def conn_simps not_le split: if_splits)
  show "r = Inr sid \<Longrightarrow> sid = c_next_stream_id c \<and> sid < c_next_stream_id c'"
    using assms(2) grow by (auto simp: open_stream_def Let_def conn_simps not_le split: if_splits)
qed

subsection \<open>The invariant of the frame loop\<close>

text \<open>
  With \<open>queue\<close> the requests not yet started: the requests without a result are exactly those queued
  or in flight, none of them twice, and every live stream id is below the next one.
\<close>

definition mux_inv :: "nat \<Rightarrow> nat list \<Rightarrow> mux \<Rightarrow> bool" where
  "mux_inv n queue m \<longleftrightarrow>
     conn_ok (mx_conn m) \<and> distinct (map fst (mx_ids m)) \<and>
     (\<forall>i\<in>set (map fst (mx_ids m)). i < c_next_stream_id (mx_conn m)) \<and>
     distinct (map snd (mx_ids m) @ queue) \<and> length (mx_results m) = n \<and>
     set (map snd (mx_ids m) @ queue) = {idx. idx < n \<and> mx_results m ! idx = None}"

abbreviation mux_ok :: "nat \<Rightarrow> mux \<Rightarrow> bool" where
  "mux_ok n m \<equiv> mux_inv n (mx_queue m) m"

definition unanswered :: "mux \<Rightarrow> nat" where
  "unanswered m = length (filter (\<lambda>r. r = None) (mx_results m))"

lemma update_fresh: "k \<notin> set (map fst al) \<Longrightarrow> AList.update k v al = al @ [(k, v)]"
  by (induction al) auto

lemma inv_conn:
  "mux_inv n q m \<Longrightarrow> conn_ok c \<Longrightarrow> c_next_stream_id (mx_conn m) \<le> c_next_stream_id c \<Longrightarrow>
     mux_inv n q (set_conn c m)"
  by (auto simp: mux_inv_def dest: less_le_trans)

lemma inv_conn_kept:
  "mux_inv n q m \<Longrightarrow> conn_ok c \<and> kept c = kept (mx_conn m) \<Longrightarrow> mux_inv n q (set_conn c m)"
  by (rule inv_conn) (auto simp: kept_def)

lemma inv_ok: "mux_inv n q m \<Longrightarrow> conn_ok (mx_conn m)"
  by (simp add: mux_inv_def)

lemma inv_length: "mux_inv n q m \<Longrightarrow> length (mx_results m) = n"
  by (simp add: mux_inv_def)

lemma open_slots_update:
  "length rs = n \<Longrightarrow>
     {k. k < n \<and> rs[idx := Some r] ! k = None} = {k. k < n \<and> rs ! k = None} - {idx}"
  by (cases "idx < n") (auto simp: nth_list_update split: if_splits)

lemma inv_answer_queued:
  assumes "mux_inv n (idx # q) m"
  shows "mux_inv n q (set_result idx r m)"
proof -
  have "set (map snd (mx_ids m) @ q) = set (map snd (mx_ids m) @ idx # q) - {idx}"
    using assms by (auto simp: mux_inv_def)
  also have "\<dots> = {k. k < n \<and> (mx_results m)[idx := Some r] ! k = None}"
    using assms open_slots_update [of "mx_results m" n idx r] by (simp add: mux_inv_def)
  finally show ?thesis using assms by (simp add: mux_inv_def set_result_def)
qed

lemma inv_launch:
  assumes "mux_inv n (idx # q) m" and "sid \<notin> set (map fst (mx_ids m))"
    and "sid < c_next_stream_id (mx_conn m)"
  shows "mux_inv n q (m\<lparr>mx_ids := AList.update sid idx (mx_ids m)\<rparr>)"
  using assms by (auto simp: mux_inv_def update_fresh)

lemma inv_retire:
  assumes inv: "mux_inv n q m" and i: "map_of (mx_ids m) i = Some idx"
  shows "mux_inv n q (set_result idx r (m\<lparr>mx_ids := AList.delete i (mx_ids m)\<rparr>))"
    and "idx < n" and "mx_results m ! idx = None"
proof -
  have d: "distinct (map fst (mx_ids m))" "distinct (map snd (mx_ids m) @ q)"
    and none: "set (map snd (mx_ids m) @ q) = {idx. idx < n \<and> mx_results m ! idx = None}"
    and len: "length (mx_results m) = n"
    using inv by (auto simp: mux_inv_def)
  have mem: "(i, idx) \<in> set (mx_ids m)" using i by (rule map_of_SomeD)
  then have "idx \<in> set (map snd (mx_ids m) @ q)" by force
  then show idx: "idx < n" "mx_results m ! idx = None" unfolding none by auto
  let ?ids = "AList.delete i (mx_ids m)"
  have keys: "set (map fst ?ids) \<subseteq> set (map fst (mx_ids m))" by (auto simp: AList.delete_eq)
  have vals: "set (map snd ?ids) = set (map snd (mx_ids m)) - {idx}"
  proof -
    have "snd p = idx \<longleftrightarrow> fst p = i" if "p \<in> set (mx_ids m)" for p
    proof -
      have "inj_on fst (set (mx_ids m))" "inj_on snd (set (mx_ids m))" using d by (auto simp: distinct_map)
      with that mem show ?thesis by (metis fst_conv snd_conv inj_onD)
    qed
    then show ?thesis by (force simp: AList.delete_eq)
  qed
  have dist: "distinct (map snd ?ids @ q)"
    using d vals by (auto simp: AList.delete_eq distinct_map_filter)
  have "idx \<notin> set q" using d mem by force
  then have "set (map snd ?ids @ q) = {k. k < n \<and> (mx_results m)[idx := Some r] ! k = None}"
    using none vals unfolding open_slots_update [OF len] by auto
  moreover have "\<forall>k\<in>set (map fst ?ids). k < c_next_stream_id (mx_conn m)"
    using inv keys unfolding mux_inv_def by blast
  ultimately show "mux_inv n q (set_result idx r (m\<lparr>mx_ids := ?ids\<rparr>))"
    using dist len inv_ok [OF inv] distinct_delete [OF d(1), of i]
    unfolding mux_inv_def set_result_def by simp
qed

lemma set_result_conn [simp]:
  "mx_conn (set_result idx r m) = mx_conn m" "mx_queue (set_result idx r m) = mx_queue m"
  "mx_ids (set_result idx r m) = mx_ids m"
  "length (mx_results (set_result idx r m)) = length (mx_results m)"
  by (simp_all add: set_result_def)

lemma set_result_commute: "set_result idx r (set_conn c m) = set_conn c (set_result idx r m)"
  by (simp add: set_result_def)

lemma filter_update_less:
  "k < length rs \<Longrightarrow> rs ! k = None \<Longrightarrow>
     length (filter (\<lambda>r. r = None) (rs[k := Some x])) < length (filter (\<lambda>r. r = None) rs)"
  by (induction rs arbitrary: k) (auto simp: nth_Cons split: nat.splits)

lemma filter_update_le:
  "length (filter (\<lambda>r. r = None) (rs[k := Some x])) \<le> length (filter (\<lambda>r. r = None) rs)"
  by (induction rs arbitrary: k) (auto split: nat.splits intro: le_SucI)

lemma unanswered_set_result_le: "unanswered (set_result idx r m) \<le> unanswered m"
  by (simp add: unanswered_def set_result_def filter_update_le)

lemma unanswered_set_result_less:
  "idx < length (mx_results m) \<Longrightarrow> mx_results m ! idx = None \<Longrightarrow>
     unanswered (set_result idx r m) < unanswered m"
  by (simp add: unanswered_def set_result_def filter_update_less)

lemma unanswered_conn [simp]:
  "unanswered (set_conn c m) = unanswered m" "unanswered (m\<lparr>mx_ids := ids\<rparr>) = unanswered m"
  "unanswered (m\<lparr>mx_queue := q\<rparr>) = unanswered m"
  by (simp_all add: unanswered_def)

lemma start_loop_keeps:
  "mux_inv n q m \<Longrightarrow> mux_ok n (start_loop reqs q m) \<and>
     unread (mx_conn (start_loop reqs q m)) = unread (mx_conn m) \<and>
     unanswered (start_loop reqs q m) \<le> unanswered m"
proof (induction reqs q m rule: start_loop.induct)
  case (1 reqs m)
  then show ?case by (simp add: mux_inv_def)
next
  case (2 reqs idx q m)
  show ?case
  proof (cases "at_stream_limit (mx_conn m)")
    case True
    with 2(4) show ?thesis by (simp add: mux_inv_def)
  next
    case False
    obtain r c where o: "open_stream (mx_conn m) = (r, c)" by fastforce
    note oc = open_stream_facts [OF inv_ok [OF 2(4)] o]
    have inv1: "mux_inv n (idx # q) (set_conn c m)" by (rule inv_conn [OF 2(4) oc(1,3)])
    show ?thesis
    proof (cases r)
      case (Inl e)
      have "mux_inv n q (set_result idx (Inl e) (set_conn c m))" by (rule inv_answer_queued [OF inv1])
      with 2(1) [OF False o [symmetric, unfolded Inl]] False o Inl oc(2) show ?thesis
        using unanswered_set_result_le [of idx "Inl e" "set_conn c m"] by (auto intro: le_trans)
    next
      case (Inr sid)
      obtain r2 c2 where s: "stage_request_on sid (reqs ! idx) c = (r2, c2)" by fastforce
      have st: "conn_ok c2 \<and> kept c2 = kept c" using stage_keeps [OF oc(1), of sid "reqs ! idx"] s by simp
      show ?thesis
      proof (cases r2)
        case (Inl e)
        have k: "conn_ok (remove_stream sid c2) \<and> kept (remove_stream sid c2) = kept c"
          using st by (simp add: conn_ok_remove kept_simps)
        have "mux_inv n q (set_result idx (Inl e) (set_conn (remove_stream sid c2) m))"
          using inv_answer_queued [OF inv_conn_kept [OF inv1, of "remove_stream sid c2"], of "Inl e"] k by simp
        with 2(2) [OF False o [symmetric, unfolded Inr] _ s [symmetric, unfolded Inl]] False o Inr s Inl oc(2) k show ?thesis
          using unanswered_set_result_le [of idx "Inl e" "set_conn (remove_stream sid c2) m"]
          by (auto simp: kept_def intro: le_trans)
      next
        case (Inr u)
        have fresh: "sid \<notin> set (map fst (mx_ids m))"
          using 2(4) oc(4) [OF \<open>r = Inr sid\<close>] by (auto simp: mux_inv_def)
        have "mux_inv n (idx # q) (set_conn c2 m)" using inv_conn_kept [OF inv1, of c2] st by simp
        then have "mux_inv n q ((set_conn c2 m)\<lparr>mx_ids := AList.update sid idx (mx_ids m)\<rparr>)"
          using inv_launch [of n idx q "set_conn c2 m" sid] fresh oc(4) [OF \<open>r = Inr sid\<close>] st
          by (auto simp: kept_def)
        with 2(3) [OF False o [symmetric, unfolded \<open>r = Inr sid\<close>] _ s [symmetric, unfolded Inr]] False o \<open>r = Inr sid\<close> s Inr oc(2) st
        show ?thesis by (auto simp: kept_def)
      qed
    qed
  qed
qed

lemma start_queued_keeps:
  "mux_ok n m \<Longrightarrow> mux_ok n (start_queued reqs m) \<and>
     unread (mx_conn (start_queued reqs m)) = unread (mx_conn m) \<and>
     unanswered (start_queued reqs m) \<le> unanswered m"
  unfolding start_queued_def by (rule start_loop_keeps)

subsection \<open>Every turn makes progress\<close>

text \<open>The invariant survives, no input is consumed, no result is taken back.\<close>

definition mux_kept :: "nat \<Rightarrow> mux \<Rightarrow> mux \<Rightarrow> bool" where
  "mux_kept n m m' \<longleftrightarrow> mux_ok n m' \<and> unread (mx_conn m') = unread (mx_conn m) \<and>
     unanswered m' \<le> unanswered m"

text \<open>A loop that has stopped.\<close>

definition mux_stopped :: "nat \<Rightarrow> mux \<Rightarrow> bool" where
  "mux_stopped n m \<longleftrightarrow> conn_ok (mx_conn m) \<and> length (mx_results m) = n"

lemma mux_kept_refl: "mux_ok n m \<Longrightarrow> mux_kept n m m"
  by (simp add: mux_kept_def)

lemma mux_kept_trans: "mux_kept n m m1 \<Longrightarrow> mux_kept n m1 m2 \<Longrightarrow> mux_kept n m m2"
  by (auto simp: mux_kept_def)

lemma mux_kept_ok: "mux_kept n m m' \<Longrightarrow> mux_ok n m'"
  by (simp add: mux_kept_def)

lemma mux_ok_stopped: "mux_ok n m \<Longrightarrow> mux_stopped n m"
  by (simp add: mux_inv_def mux_stopped_def)

lemma mux_kept_start: "mux_kept n m m1 \<Longrightarrow> mux_kept n m (start_queued reqs m1)"
  using start_queued_keeps [of n m1 reqs] by (auto simp: mux_kept_def)

lemma mux_kept_flush:
  assumes "mux_kept n m m1" and "flush_pending (mx_conn m1) = (r, c)"
  shows "mux_kept n m (set_conn c m1)"
proof -
  have k: "conn_ok c \<and> kept c = kept (mx_conn m1)"
    using flush_pending_keeps [of "mx_conn m1"] inv_ok [OF mux_kept_ok [OF assms(1)]] assms(2) by simp
  then have "mux_ok n (set_conn c m1)"
    using inv_conn_kept [OF mux_kept_ok [OF assms(1)], of c] by simp
  with assms(1) k show ?thesis by (auto simp: mux_kept_def kept_def)
qed

lemma mux_kept_retire:
  assumes ok: "mux_ok n m" and i: "map_of (mx_ids m) i = Some idx"
    and c: "conn_ok c \<and> kept c = kept (mx_conn m)"
  shows "mux_kept n m (set_result idx r (m\<lparr>mx_ids := AList.delete i (mx_ids m), mx_conn := c\<rparr>))"
    and "unanswered (set_result idx r (m\<lparr>mx_ids := AList.delete i (mx_ids m), mx_conn := c\<rparr>)) < unanswered m"
proof -
  note ret = inv_retire [OF ok i]
  let ?m = "set_result idx r (m\<lparr>mx_ids := AList.delete i (mx_ids m)\<rparr>)"
  have eq: "set_result idx r (m\<lparr>mx_ids := AList.delete i (mx_ids m), mx_conn := c\<rparr>) = set_conn c ?m"
    by (simp add: set_result_def)
  have "mux_ok n (set_conn c ?m)" using inv_conn_kept [OF ret(1), of c] c by simp
  moreover show less: "unanswered (set_result idx r (m\<lparr>mx_ids := AList.delete i (mx_ids m), mx_conn := c\<rparr>)) < unanswered m"
    using unanswered_set_result_less [of idx "m\<lparr>mx_ids := AList.delete i (mx_ids m)\<rparr>" r] ret(2,3) inv_length [OF ok]
    unfolding eq by simp
  ultimately show "mux_kept n m (set_result idx r (m\<lparr>mx_ids := AList.delete i (mx_ids m), mx_conn := c\<rparr>))"
    using c unfolding eq mux_kept_def kept_def by simp
qed

lemma removed_keeps: "conn_ok c \<Longrightarrow> conn_ok (remove_stream i c) \<and> kept (remove_stream i c) = kept c"
  by (simp add: conn_ok_remove kept_simps)

lemma mux_kept_abandon: "mux_ok n m \<Longrightarrow> mux_kept n m (abandon_stream i m)"
  using mux_kept_retire(1) [OF _ _ removed_keeps [OF inv_ok]]
  by (auto simp: abandon_stream_def mux_kept_refl split: option.split)

lemma mux_kept_goaway: "mux_ok n m \<Longrightarrow> mux_kept n m (fail_goaway_doomed m)"
proof -
  have "mux_ok n m \<Longrightarrow> mux_kept n m (fold abandon_stream is m)" for "is" m
  proof (induction "is" arbitrary: m)
    case (Cons i "is")
    have k: "mux_kept n m (abandon_stream i m)" by (rule mux_kept_abandon [OF Cons.prems])
    from mux_kept_trans [OF k Cons.IH [OF mux_kept_ok [OF k]]] show ?case by simp
  qed (simp add: mux_kept_refl)
  then show "mux_ok n m \<Longrightarrow> mux_kept n m (fail_goaway_doomed m)"
    by (simp add: fail_goaway_doomed_def mux_kept_refl split: option.split)
qed

lemma unwrap_keeps:
  "conn_ok c \<Longrightarrow> unwrap_removed i c = (r, c') \<Longrightarrow> conn_ok c' \<and> kept c' = kept c"
  using removed_keeps [of c i] by (auto simp: unwrap_removed_def split: option.splits)

lemma mux_kept_finish:
  assumes "mux_ok n m"
  shows "mux_kept n m (finish_stream A reqs i m)"
proof (cases "map_of (mx_ids m) i")
  case None
  with assms show ?thesis by (simp add: finish_stream_def mux_kept_refl)
next
  case (Some idx)
  obtain r c where u: "unwrap_removed i (mx_conn m) = (r, c)" by fastforce
  let ?r = "bindR r (build_response_from_stream A)"
  have "mux_kept n m (set_result idx ?r (m\<lparr>mx_ids := AList.delete i (mx_ids m), mx_conn := c\<rparr>))"
    by (rule mux_kept_retire(1) [OF assms Some unwrap_keeps [OF inv_ok [OF assms] u]])
  from mux_kept_start [OF this, of reqs] Some u show ?thesis by (simp add: finish_stream_def)
qed

lemma fail_slots_keep:
  "mx_conn (fold (fail_slot e) is m) = mx_conn m \<and>
     length (mx_results (fold (fail_slot e) is m)) = length (mx_results m)"
proof (induction "is" arbitrary: m)
  case (Cons i "is")
  then show ?case by (simp add: fail_slot_def)
qed simp

lemma stopped_fail_all: "mux_stopped n m \<Longrightarrow> mux_stopped n (fail_all_outstanding e m)"
  using fail_slots_keep [of e "map snd (mx_ids m) @ mx_queue m" m]
  by (simp add: mux_stopped_def fail_all_outstanding_def del: fold_append)

lemma kept_stopped: "mux_kept n m m' \<Longrightarrow> mux_stopped n m'"
  by (rule mux_ok_stopped [OF mux_kept_ok])

lemma before_read_progress:
  assumes "mux_ok n m"
  shows "case before_read reqs m of Inl m' \<Rightarrow> mux_stopped n m' | Inr m' \<Rightarrow> mux_kept n m m'"
proof (cases "mx_ids m \<noteq> [] \<or> mx_queue m = []")
  case True
  with assms show ?thesis by (auto simp: before_read_def mux_kept_refl mux_ok_stopped)
next
  case False
  let ?m = "start_queued reqs m"
  have k: "mux_kept n m ?m" by (rule mux_kept_start [OF mux_kept_refl [OF assms]])
  obtain r c where f: "flush_pending (mx_conn ?m) = (r, c)" by fastforce
  note kf = mux_kept_flush [OF k f]
  show ?thesis
    using False f kf kept_stopped [OF kf] kept_stopped [OF k] fail_slots_keep
    by (cases r) (auto simp: before_read_def Let_def mux_stopped_def)
qed

lemma on_outcome_progress:
  assumes "mux_ok n m"
  shows "case on_outcome A reqs out m of Inl m' \<Rightarrow> mux_stopped n m' | Inr m' \<Rightarrow> mux_kept n m m'"
proof -
  let ?m = "case out of Done i \<Rightarrow> finish_stream A reqs i (fail_goaway_doomed m) | Continue \<Rightarrow> fail_goaway_doomed m"
  have g: "mux_kept n m (fail_goaway_doomed m)" by (rule mux_kept_goaway [OF assms])
  then have k: "mux_kept n m ?m"
    using mux_kept_trans [OF g mux_kept_finish [OF mux_kept_ok [OF g]]] by (cases out) simp_all
  obtain r c where f: "flush_pending (mx_conn ?m) = (r, c)" by fastforce
  note kf = mux_kept_flush [OF k f]
  show ?thesis
    using f kf stopped_fail_all [OF kept_stopped [OF kf]] by (cases r) (simp_all add: on_outcome_def Let_def)
qed

lemma on_dispatch_error_progress:
  assumes ok: "mux_ok n m"
  shows "case on_dispatch_error reqs e m of Inl m' \<Rightarrow> mux_stopped n m'
    | Inr m' \<Rightarrow> mux_kept n m m' \<and> unanswered m' < unanswered m"
proof (cases "take_stream_error m")
  case None
  with stopped_fail_all [OF mux_ok_stopped [OF ok]] show ?thesis by (simp add: on_dispatch_error_def)
next
  case (Some p)
  then obtain i idx where i: "map_of (mx_ids m) i = Some idx"
    and p: "p = (idx, m\<lparr>mx_ids := AList.delete i (mx_ids m), mx_conn := remove_stream i (mx_conn m)\<rparr>)"
    by (auto simp: take_stream_error_def split: list.splits option.splits)
  let ?m = "set_result idx (Inl e) (m\<lparr>mx_ids := AList.delete i (mx_ids m), mx_conn := remove_stream i (mx_conn m)\<rparr>)"
  note ret = mux_kept_retire [OF ok i removed_keeps [OF inv_ok [OF ok], of i], of "Inl e"]
  have k1: "mux_kept n ?m (start_queued reqs ?m)"
    by (rule mux_kept_start [OF mux_kept_refl [OF mux_kept_ok [OF ret(1)]]])
  obtain r c where f: "flush_pending (mx_conn (start_queued reqs ?m)) = (r, c)" by fastforce
  note kf = mux_kept_flush [OF k1 f]
  have "unanswered (start_queued reqs ?m) < unanswered m"
    using kf by (intro le_less_trans [OF _ ret(2)]) (simp add: mux_kept_def)
  then show ?thesis
    using Some p f mux_kept_trans [OF ret(1) kf] kf stopped_fail_all [OF kept_stopped [OF kf]]
    by (cases r) (auto simp: on_dispatch_error_def Let_def mux_kept_def)
qed

lemma read_frame_shortens: "length (t_in (snd (read_frame t))) \<le> length (t_in t)"
  unfolding read_frame_def
  by (rule bindS_post [where P = "\<lambda>s. length (t_in s) \<le> length (t_in t)"])
    (auto simp: read_exact_def Let_def intro!: bindS_state [where P = "\<lambda>s. length (t_in s) \<le> length (t_in t)"])

lemma read_and_dispatch_shortens: "length (unread (snd (read_and_dispatch c))) \<le> length (unread c)"
  using read_frame_shortens [of "c_tls c"]
  by (auto simp: read_and_dispatch_def Let_def unread_process_frame split: prod.split sum.split)

text \<open>A turn that goes on has read a frame or answered a request.\<close>

definition mux_measure :: "mux \<Rightarrow> nat \<times> nat" where
  "mux_measure m = (length (unread (mx_conn m)), unanswered m)"

lemma mux_step_progress:
  assumes ok: "mux_ok n m"
  shows "case mux_step A reqs m of Inl m' \<Rightarrow> mux_stopped n m'
    | Inr m' \<Rightarrow> mux_ok n m' \<and> (mux_measure m', mux_measure m) \<in> less_than <*lex*> less_than"
proof (cases "before_read reqs m")
  case (Inl m')
  with before_read_progress [OF ok, of reqs] show ?thesis by (simp add: mux_step_def)
next
  case (Inr m1)
  with before_read_progress [OF ok, of reqs] have k1: "mux_kept n m m1" by simp
  obtain r c where rd: "read_and_dispatch (mx_conn m1) = (r, c)" by fastforce
  have c: "conn_ok c" "c_next_stream_id c = c_next_stream_id (mx_conn m1)" "length (unread c) \<le> length (unread (mx_conn m1))"
    using conn_ok_read_and_dispatch [OF inv_ok [OF mux_kept_ok [OF k1]]] read_and_dispatch_next_id [of "mx_conn m1"]
      read_and_dispatch_shortens [of "mx_conn m1"] rd by simp_all
  have ok2: "mux_ok n (set_conn c m1)"
    using inv_conn [OF mux_kept_ok [OF k1] c(1)] c(2) by simp
  show ?thesis
  proof (cases r)
    case (Inl e)
    from on_dispatch_error_progress [OF ok2, of reqs e] k1 c(3) Inr rd Inl show ?thesis
      by (auto simp: mux_step_def mux_kept_def mux_measure_def split: sum.splits)
  next
    case (Inr out)
    with read_and_dispatch_consumes [of "mx_conn m1" out c] rd
    have "length (unread c) < length (unread (mx_conn m1))" by simp
    with on_outcome_progress [OF ok2, of A reqs out] k1 \<open>before_read reqs m = Inr m1\<close> rd Inr show ?thesis
      by (auto simp: mux_step_def mux_kept_def mux_measure_def split: sum.splits)
  qed
qed

text \<open>So the loop returns, on every input.\<close>

lemma mux_loop_returns: "mux_ok n m \<Longrightarrow> \<exists>m'. mux_loop A reqs m = Some m' \<and> mux_stopped n m'"
proof (induction m rule: wf_induct_rule [OF wf_inv_image [OF wf_lex_prod [OF wf_less_than wf_less_than]], of mux_measure])
  case (1 m)
  show ?case
  proof (cases "None \<notin> set (mx_results m)")
    case True
    with mux_ok_stopped [OF 1(2)] show ?thesis by (subst mux_loop.simps) simp
  next
    case False
    from mux_step_progress [OF 1(2), of A reqs] 1(1) False show ?thesis
      by (subst mux_loop.simps) (auto simp: in_inv_image split: sum.splits)
  qed
qed

lemma mux_start_ok: "conn_ok c \<Longrightarrow> mux_ok (length reqs) (mux_start reqs c)"
  by (auto simp: mux_inv_def mux_start_def)

lemma length_collect [simp]: "length (collect_results rs) = length rs"
  by (simp add: collect_results_def)

lemma run_multiplexed_returns:
  assumes "conn_ok c"
  shows "\<exists>rs c'. run_multiplexed A reqs c = Some (rs, c') \<and> length rs = length reqs \<and> conn_ok c'"
proof -
  let ?m = "start_queued reqs (mux_start reqs c)"
  have k: "mux_ok (length reqs) ?m" using start_queued_keeps [OF mux_start_ok [OF assms]] by blast
  obtain r1 c1 where p: "pump_pending_sends (mx_conn ?m) = (r1, c1)" by fastforce
  have c1: "conn_ok c1 \<and> kept c1 = kept (mx_conn ?m)"
    using pump_ids_keeps [OF inv_ok [OF k]] p unfolding pump_pending_sends_def by (metis snd_conv)
  have k1: "mux_ok (length reqs) (set_conn c1 ?m)" using inv_conn_kept [OF k c1] by simp
  obtain r2 c2 where f: "on_tls flush c1 = (r2, c2)" by fastforce
  have c2: "conn_ok c2 \<and> kept c2 = kept (mx_conn ?m)"
    using c1 conn_ok_on_tls [of flush c1] kept_updates(7) [of c1] f by simp
  have k2: "mux_ok (length reqs) (set_conn c2 ?m)" using inv_conn_kept [OF k c2] by simp
  have failed: "length (mx_results (fail_all_outstanding e (set_conn d ?m))) = length reqs" for e d
    using stopped_fail_all [of "length reqs" "set_conn c1 ?m" e] mux_ok_stopped [OF k1]
      fail_slots_keep [of e "map snd (mx_ids ?m) @ mx_queue ?m"] inv_length [OF k]
    by (simp add: fail_all_outstanding_def del: fold_append)
  show ?thesis
  proof (cases r1)
    case (Inl e)
    with p c1 failed show ?thesis by (simp add: run_multiplexed_def)
  next
    case r1: (Inr b)
    show ?thesis
    proof (cases r2)
      case (Inl e)
      with p f r1 c2 failed show ?thesis by (simp add: run_multiplexed_def)
    next
      case (Inr u)
      from mux_loop_returns [OF k2, of A reqs] obtain m' where
        "mux_loop A reqs (set_conn c2 ?m) = Some m'" "mux_stopped (length reqs) m'" by blast
      with p f r1 Inr show ?thesis
        by (simp add: run_multiplexed_def mux_stopped_def conn_ok_prune)
    qed
  qed
qed

subsection \<open>Properties\<close>

text \<open>C4: The multiplexing loop returns on a connection in a good state whatever the peer sends, with exactly
  one result for each request, and leaves the connection in a good state.\<close>

theorem multiplexed_answers_every_request:
  "conn_ok c \<Longrightarrow>
     \<exists>rs c'. run_multiplexed A reqs c = Some (rs, c') \<and> length rs = length reqs \<and> conn_ok c'"
  by (rule run_multiplexed_returns)

lemma multiplexed_answers_every_request_witness:
  "\<exists>rs c'. run_multiplexed stored_decoder [example_request, example_request] example_connection = Some (rs, c') \<and>
     length rs = 2 \<and> conn_ok c'"
  using multiplexed_answers_every_request [OF conn_ok_example, of stored_decoder "[example_request, example_request]"]
  by (simp add: numeral_2_eq_2)

end
