(* ===== verification/Pool.thy ===== *)
theory Pool
  imports Url "HOL-Library.AList" "HOL-Library.Multiset"
begin

text \<open>
  The idle-connection pools: \<open>Pool\<close> of \<open>src/src/pool.rs\<close> for HTTP/1.1 and \<open>PoolInner\<close> of
  \<open>src/src/http2.rs\<close> for HTTP/2, two copies of one data structure with the same caps.  A
  \<open>HashMap<Key, Vec<_>>\<close> is an association list with distinct keys.  The locale \<open>keyed_pool\<close> is the
  contract their clients rely on: last in first out per key, bounded in both ways, and a connection
  only ever comes back under the key it was released under.  Each pool interprets it.
\<close>

record pool_key =
  pk_scheme :: string
  pk_host :: string
  pk_port :: u16

text \<open>\<open>PoolKey::from_request\<close>, and the key \<open>http.rs\<close> builds for its own pool.\<close>

definition pool_key_of :: "url \<Rightarrow> pool_key" where
  "pool_key_of url = \<lparr>pk_scheme = u_scheme url, pk_host = u_host url, pk_port = u_port url\<rparr>"

abbreviation (input) POOL_PER_KEY_CAP :: nat where "POOL_PER_KEY_CAP \<equiv> 4"
abbreviation (input) POOL_GLOBAL_CAP :: nat where "POOL_GLOBAL_CAP \<equiv> 32"

subsection \<open>The contract\<close>

datatype 'c pool_op = Checkout pool_key | Release pool_key 'c

text \<open>A history of checkouts and releases: the connections handed out, each with its key, and the final pool.\<close>

fun run_ops ::
  "(pool_key \<Rightarrow> 'p \<Rightarrow> 'c option \<times> 'p) \<Rightarrow> (pool_key \<Rightarrow> 'c \<Rightarrow> 'p \<Rightarrow> 'p) \<Rightarrow> 'c pool_op list \<Rightarrow> 'p \<Rightarrow>
   (pool_key \<times> 'c) list \<times> 'p" where
  "run_ops checkout release [] p = ([], p)"
| "run_ops checkout release (Checkout k # ops) p =
     (let (r, p) = checkout k p; (out, p) = run_ops checkout release ops p
      in (case r of None \<Rightarrow> out | Some c \<Rightarrow> (k, c) # out, p))"
| "run_ops checkout release (Release k c # ops) p = run_ops checkout release ops (release k c p)"

definition handed_out :: "pool_key \<Rightarrow> (pool_key \<times> 'c) list \<Rightarrow> 'c list" where
  "handed_out k out = map snd (filter (\<lambda>(j, c). j = k) out)"

fun released_under :: "pool_key \<Rightarrow> 'c pool_op list \<Rightarrow> 'c list" where
  "released_under k [] = []"
| "released_under k (Checkout j # ops) = released_under k ops"
| "released_under k (Release j c # ops) = (if j = k then [c] else []) @ released_under k ops"

lemma handed_out_simps [simp]:
  "handed_out k [] = []"
  "handed_out k ((j, c) # out) = (if j = k then [c] else []) @ handed_out k out"
  by (simp_all add: handed_out_def)

locale keyed_pool =
  fixes parked :: "'p \<Rightarrow> pool_key \<Rightarrow> 'c list"
    and total :: "'p \<Rightarrow> nat"
    and ok :: "'p \<Rightarrow> bool"
    and checkout :: "pool_key \<Rightarrow> 'p \<Rightarrow> 'c option \<times> 'p"
    and release :: "pool_key \<Rightarrow> 'c \<Rightarrow> 'p \<Rightarrow> 'p"
  assumes checkout_empty: "ok p \<Longrightarrow> parked p k = [] \<Longrightarrow> checkout k p = (None, p)"
    and checkout_last: "ok p \<Longrightarrow> parked p k = cs @ [c] \<Longrightarrow>
      \<exists>p'. checkout k p = (Some c, p') \<and> ok p' \<and> parked p' = (parked p)(k := cs) \<and> total p = Suc (total p')"
    and release_room: "ok p \<Longrightarrow> total p < POOL_GLOBAL_CAP \<Longrightarrow> length (parked p k) < POOL_PER_KEY_CAP \<Longrightarrow>
      ok (release k c p) \<and> parked (release k c p) = (parked p)(k := parked p k @ [c]) \<and>
      total (release k c p) = Suc (total p)"
    and release_full: "ok p \<Longrightarrow> POOL_GLOBAL_CAP \<le> total p \<or> POOL_PER_KEY_CAP \<le> length (parked p k) \<Longrightarrow>
      ok (release k c p) \<and> parked (release k c p) = parked p \<and> total (release k c p) = total p"
begin

definition within_caps :: "'p \<Rightarrow> bool" where
  "within_caps p \<longleftrightarrow> ok p \<and> total p \<le> POOL_GLOBAL_CAP \<and> (\<forall>k. length (parked p k) \<le> POOL_PER_KEY_CAP)"

lemma checkout_cases:
  assumes "ok p"
  obtains "parked p k = []" "checkout k p = (None, p)"
  | cs c p' where "parked p k = cs @ [c]" "checkout k p = (Some c, p')" "ok p'"
      "parked p' = (parked p)(k := cs)" "total p = Suc (total p')"
proof (cases "parked p k" rule: rev_cases)
  case Nil
  with checkout_empty [OF assms] that(1) show ?thesis by blast
next
  case (snoc cs c)
  with checkout_last [OF assms snoc] that(2) show ?thesis by blast
qed

lemma release_cases:
  assumes "ok p"
  obtains "ok (release k c p)" "parked (release k c p) = (parked p)(k := parked p k @ [c])"
      "total (release k c p) = Suc (total p)" "total p < POOL_GLOBAL_CAP" "length (parked p k) < POOL_PER_KEY_CAP"
  | "ok (release k c p)" "parked (release k c p) = parked p" "total (release k c p) = total p"
  using release_room [OF assms, of k c] release_full [OF assms, of k c] that
  by (meson not_le)

lemma within_caps_checkout: "within_caps p \<Longrightarrow> within_caps (snd (checkout k p))"
proof -
  assume w: "within_caps p"
  then have "ok p" by (simp add: within_caps_def)
  then show ?thesis
  proof (cases rule: checkout_cases [of p k])
    case 1
    with w show ?thesis by simp
  next
    case (2 cs c p')
    have "length (parked p k) \<le> POOL_PER_KEY_CAP" using w by (simp add: within_caps_def)
    with w 2 show ?thesis by (auto simp: within_caps_def)
  qed
qed

lemma within_caps_release: "within_caps p \<Longrightarrow> within_caps (release k c p)"
proof -
  assume w: "within_caps p"
  then have "ok p" by (simp add: within_caps_def)
  then show ?thesis
    by (cases rule: release_cases [of p k c]) (use w in \<open>auto simp: within_caps_def\<close>)
qed

text \<open>What holds of every parked connection under its key.\<close>

definition all_parked :: "(pool_key \<Rightarrow> 'c \<Rightarrow> bool) \<Rightarrow> 'p \<Rightarrow> bool" where
  "all_parked P p \<longleftrightarrow> ok p \<and> (\<forall>k. \<forall>c\<in>set (parked p k). P k c)"

lemma all_parked_checkout:
  assumes "all_parked P p"
  shows "all_parked P (snd (checkout k p)) \<and> (\<forall>c. fst (checkout k p) = Some c \<longrightarrow> P k c)"
proof -
  from assms have "ok p" by (simp add: all_parked_def)
  then show ?thesis
    by (cases rule: checkout_cases [of p k]) (use assms in \<open>auto simp: all_parked_def\<close>)
qed

lemma all_parked_release: "all_parked P p \<Longrightarrow> P k c \<Longrightarrow> all_parked P (release k c p)"
proof -
  assume p: "all_parked P p" and c: "P k c"
  then have "ok p" by (simp add: all_parked_def)
  then show ?thesis
    by (cases rule: release_cases [of p k c]) (use p c in \<open>auto simp: all_parked_def\<close>)
qed

text \<open>Whatever the callers do, both caps hold.\<close>

lemma run_within_caps: "within_caps p \<Longrightarrow> within_caps (snd (run_ops checkout release ops p))"
proof (induction ops arbitrary: p)
  case (Cons op ops)
  show ?case
  proof (cases op)
    case (Checkout k)
    from Cons.IH [OF within_caps_checkout [OF Cons.prems, of k]] Checkout
    show ?thesis by (simp add: split_beta)
  next
    case (Release k c)
    with Cons.IH [OF within_caps_release [OF Cons.prems]] show ?thesis by simp
  qed
qed simp

text \<open>A released connection that was kept is the next one to come out under its key.\<close>

lemma release_checkout:
  assumes "ok p" and "total p < POOL_GLOBAL_CAP" and "length (parked p k) < POOL_PER_KEY_CAP"
  shows "\<exists>p'. checkout k (release k c p) = (Some c, p') \<and> parked p' = parked p"
proof -
  have r: "ok (release k c p)" "parked (release k c p) = (parked p)(k := parked p k @ [c])"
    using release_room [OF assms] by simp_all
  then have "parked (release k c p) k = parked p k @ [c]" by simp
  from checkout_last [OF r(1) this] r(2) show ?thesis by auto
qed

text \<open>
  Isolation and exclusiveness: under each key, what was handed out and what is still parked is at most
  what was parked before and what was released under that key, counted with multiplicity.
\<close>

lemma run_exclusive:
  assumes "ok p"
  defines "r \<equiv> run_ops checkout release"
  shows "mset (handed_out k (fst (r ops p))) + mset (parked (snd (r ops p)) k)
    \<subseteq># mset (parked p k) + mset (released_under k ops)"
  unfolding r_def using assms(1)
proof (induction ops arbitrary: p)
  case (Cons op ops)
  show ?case
  proof (cases op)
    case (Checkout j)
    from Cons.prems show ?thesis
    proof (cases rule: checkout_cases [of p j])
      case 1
      with Cons Checkout show ?thesis by (simp add: split_beta)
    next
      case (2 cs c p')
      have "mset (parked p k) = mset (parked p' k) + (if j = k then {#c#} else {#})" using 2(1,4) by auto
      with Cons.IH [OF 2(3)] 2(2) Checkout show ?thesis by (auto simp: split_beta)
    qed
  next
    case (Release j c)
    let ?new = "if j = k then {#c#} else {#}"
    have ok: "ok (release j c p)"
      and new: "mset (parked (release j c p) k) \<subseteq># mset (parked p k) + ?new"
      by (cases rule: release_cases [OF Cons.prems, of j c], auto)+
    have "mset (parked (release j c p) k) + mset (released_under k ops)
        \<subseteq># mset (parked p k) + mset (released_under k (op # ops))"
      using subset_mset.add_right_mono [OF new, of "mset (released_under k ops)"] Release
      by (cases "j = k") simp_all
    from subset_mset.order_trans [OF Cons.IH [OF ok] this] Release show ?thesis by simp
  qed
qed simp

end

subsection \<open>The HTTP/1.1 pool\<close>

record 'c pool =
  p_entries :: "(pool_key \<times> 'c list) list"

definition pool_new :: "'c pool" where
  "pool_new = \<lparr>p_entries = []\<rparr>"

definition bucket_of :: "(pool_key \<times> 'c list) list \<Rightarrow> pool_key \<Rightarrow> 'c list" where
  "bucket_of es k = (case map_of es k of None \<Rightarrow> [] | Some b \<Rightarrow> b)"

definition total_len :: "(pool_key \<times> 'c list) list \<Rightarrow> nat" where
  "total_len es = sum_list (map (\<lambda>(k, b). length b) es)"

text \<open>A map has each key once, and no bucket is left empty.\<close>

definition entries_ok :: "(pool_key \<times> 'c list) list \<Rightarrow> bool" where
  "entries_ok es \<longleftrightarrow> distinct (map fst es) \<and> (\<forall>k. map_of es k \<noteq> Some [])"

definition pool_checkout :: "pool_key \<Rightarrow> 'c pool \<Rightarrow> 'c option \<times> 'c pool" where
  "pool_checkout key p =
     (case map_of (p_entries p) key of
        None \<Rightarrow> (None, p)
      | Some bucket \<Rightarrow>
          let r = (if bucket = [] then None else Some (last bucket));
              bucket = butlast bucket
          in (r, p\<lparr>p_entries := (if bucket = [] then AList.delete key (p_entries p)
                                 else AList.update key bucket (p_entries p))\<rparr>))"

definition pool_release :: "pool_key \<Rightarrow> 'c \<Rightarrow> 'c pool \<Rightarrow> 'c pool" where
  "pool_release key conn p =
     (if total_len (p_entries p) \<ge> POOL_GLOBAL_CAP then p
      else let p = (case map_of (p_entries p) key of
                      None \<Rightarrow> p\<lparr>p_entries := AList.update key [] (p_entries p)\<rparr>
                    | Some _ \<Rightarrow> p);
               bucket = bucket_of (p_entries p) key
           in if length bucket \<ge> POOL_PER_KEY_CAP then p
              else p\<lparr>p_entries := AList.update key (bucket @ [conn]) (p_entries p)\<rparr>)"

lemma total_len_simps [simp]:
  "total_len [] = 0" "total_len ((k, b) # es) = length b + total_len es"
  by (simp_all add: total_len_def)

lemma total_len_delete:
  "distinct (map fst es) \<Longrightarrow> total_len es = length (bucket_of es k) + total_len (AList.delete k es)"
proof (induction es)
  case (Cons e es)
  obtain j b where "e = (j, b)" by fastforce
  moreover have "map_of es k = None" if "k \<notin> fst ` set es" using that by (simp add: map_of_eq_None_iff)
  ultimately show ?case using Cons by (auto simp: bucket_of_def)
qed (simp add: bucket_of_def)

lemma delete_id_total: "k \<notin> fst ` set es \<Longrightarrow> AList.delete k es = es"
  by simp

lemma total_len_update:
  "distinct (map fst es) \<Longrightarrow>
     total_len (AList.update k b es) + length (bucket_of es k) = total_len es + length b"
proof -
  assume d: "distinct (map fst es)"
  then have d': "distinct (map fst (AList.update k b es))" by (rule distinct_update)
  have "total_len (AList.update k b es) = length b + total_len (AList.delete k (AList.update k b es))"
    using total_len_delete [OF d', of k] by (simp add: bucket_of_def AList.update_conv')
  also have "AList.delete k (AList.update k b es) = AList.delete k es" by (rule delete_update_same)
  finally show ?thesis using total_len_delete [OF d, of k] by simp
qed

lemma bucket_of_update [simp]: "bucket_of (AList.update k b es) = (bucket_of es)(k := b)"
  by (auto simp: bucket_of_def AList.update_conv')

lemma bucket_of_delete [simp]: "bucket_of (AList.delete k es) = (bucket_of es)(k := [])"
  by (auto simp: bucket_of_def delete_conv')

text \<open>The laws on the entries, once for both pools.\<close>

lemma bucket_of_Some: "bucket_of es k = cs @ [c] \<Longrightarrow> map_of es k = Some (cs @ [c])"
  by (simp add: bucket_of_def split: option.splits)

lemma bucket_of_Nil: "entries_ok es \<Longrightarrow> bucket_of es k = [] \<longleftrightarrow> map_of es k = None"
  by (auto simp: bucket_of_def entries_ok_def split: option.splits)

lemma entries_ok_update: "entries_ok es \<Longrightarrow> b \<noteq> [] \<Longrightarrow> entries_ok (AList.update k b es)"
  by (auto simp: entries_ok_def distinct_update AList.update_conv')

lemma entries_ok_delete: "entries_ok es \<Longrightarrow> entries_ok (AList.delete k es)"
  by (auto simp: entries_ok_def distinct_delete delete_conv')

lemma entries_shrink:
  assumes "entries_ok es" and "bucket_of es k = cs @ [c]"
  defines "es' \<equiv> (if cs = [] then AList.delete k es else AList.update k cs es)"
  shows "entries_ok es'" and "bucket_of es' = (bucket_of es)(k := cs)" and "total_len es = Suc (total_len es')"
proof -
  have d: "distinct (map fst es)" using assms(1) by (simp add: entries_ok_def)
  show "entries_ok es'"
    unfolding es'_def using assms(1) by (auto intro: entries_ok_delete entries_ok_update)
  show "bucket_of es' = (bucket_of es)(k := cs)" by (auto simp: es'_def)
  show "total_len es = Suc (total_len es')"
    using total_len_delete [OF d, of k] total_len_update [OF d, of k cs] assms(2) by (auto simp: es'_def)
qed

lemma entries_grow:
  assumes "entries_ok es"
  shows "entries_ok (AList.update k (bucket_of es k @ [c]) es)"
    and "total_len (AList.update k (bucket_of es k @ [c]) es) = Suc (total_len es)"
proof -
  show "entries_ok (AList.update k (bucket_of es k @ [c]) es)" using assms by (simp add: entries_ok_update)
  show "total_len (AList.update k (bucket_of es k @ [c]) es) = Suc (total_len es)"
    using assms total_len_update [of es k "bucket_of es k @ [c]"] by (simp add: entries_ok_def)
qed

lemma pool_checkout_empty:
  "entries_ok (p_entries p) \<Longrightarrow> bucket_of (p_entries p) k = [] \<Longrightarrow> pool_checkout k p = (None, p)"
  by (simp add: pool_checkout_def bucket_of_Nil)

lemma pool_checkout_last:
  "bucket_of (p_entries p) k = cs @ [c] \<Longrightarrow> pool_checkout k p =
     (Some c, p\<lparr>p_entries := (if cs = [] then AList.delete k (p_entries p) else AList.update k cs (p_entries p))\<rparr>)"
  by (simp add: pool_checkout_def bucket_of_Some)

lemma pool_release_room:
  "total_len (p_entries p) < POOL_GLOBAL_CAP \<Longrightarrow> length (bucket_of (p_entries p) k) < POOL_PER_KEY_CAP \<Longrightarrow>
   pool_release k c p = p\<lparr>p_entries := AList.update k (bucket_of (p_entries p) k @ [c]) (p_entries p)\<rparr>"
  by (cases "map_of (p_entries p) k")
    (simp_all add: pool_release_def bucket_of_def AList.update_conv' del: map_of_eq_None_iff)

lemma pool_release_full:
  "POOL_GLOBAL_CAP \<le> total_len (p_entries p) \<or> POOL_PER_KEY_CAP \<le> length (bucket_of (p_entries p) k) \<Longrightarrow>
   pool_release k c p = p"
  by (auto simp: pool_release_def bucket_of_def Let_def split: option.splits)

abbreviation (input) pool_parked :: "'c pool \<Rightarrow> pool_key \<Rightarrow> 'c list" where
  "pool_parked p \<equiv> bucket_of (p_entries p)"

abbreviation (input) pool_total :: "'c pool \<Rightarrow> nat" where
  "pool_total p \<equiv> total_len (p_entries p)"

abbreviation (input) pool_ok :: "'c pool \<Rightarrow> bool" where
  "pool_ok p \<equiv> entries_ok (p_entries p)"

text \<open>The HTTP/1.1 pool keeps the contract.\<close>

interpretation plain_pool: keyed_pool pool_parked pool_total pool_ok pool_checkout pool_release
  by unfold_locales
    (auto simp: pool_checkout_empty pool_checkout_last pool_release_room pool_release_full
      entries_shrink entries_grow)

subsection \<open>The HTTP/2 pool\<close>

text \<open>\<open>PoolInner\<close>: the same structure over shared connections.\<close>

record 'c h2_pool =
  h2p_entries :: "(pool_key \<times> 'c list) list"

definition h2_pool_new :: "'c h2_pool" where
  "h2_pool_new = \<lparr>h2p_entries = []\<rparr>"

definition h2_pool_checkout :: "pool_key \<Rightarrow> 'c h2_pool \<Rightarrow> 'c option \<times> 'c h2_pool" where
  "h2_pool_checkout key p =
     (case map_of (h2p_entries p) key of
        None \<Rightarrow> (None, p)
      | Some bucket \<Rightarrow>
          let conn = (if bucket = [] then None else Some (last bucket));
              bucket = butlast bucket
          in (conn, if bucket = [] then p\<lparr>h2p_entries := AList.delete key (h2p_entries p)\<rparr>
                    else p\<lparr>h2p_entries := AList.update key bucket (h2p_entries p)\<rparr>))"

definition h2_pool_release :: "pool_key \<Rightarrow> 'c \<Rightarrow> 'c h2_pool \<Rightarrow> 'c h2_pool" where
  "h2_pool_release key conn p =
     (let total = sum_list (map (\<lambda>(k, b). length b) (h2p_entries p))
      in if total \<ge> POOL_GLOBAL_CAP then p
         else let p = (case map_of (h2p_entries p) key of
                         None \<Rightarrow> p\<lparr>h2p_entries := AList.update key [] (h2p_entries p)\<rparr>
                       | Some _ \<Rightarrow> p);
                  bucket = bucket_of (h2p_entries p) key
              in if length bucket \<ge> POOL_PER_KEY_CAP then p
                 else p\<lparr>h2p_entries := AList.update key (bucket @ [conn]) (h2p_entries p)\<rparr>)"

text \<open>The two copies agree, so what is proved of one holds of the other.\<close>

definition as_pool :: "'c h2_pool \<Rightarrow> 'c pool" where
  "as_pool p = \<lparr>p_entries = h2p_entries p\<rparr>"

lemma h2_pool_checkout_as_pool:
  "pool_checkout k (as_pool p) = map_prod id as_pool (h2_pool_checkout k p)"
  by (auto simp: pool_checkout_def h2_pool_checkout_def as_pool_def Let_def split: option.splits)

lemma h2_pool_release_as_pool:
  "pool_release k c (as_pool p) = as_pool (h2_pool_release k c p)"
  by (auto simp: pool_release_def h2_pool_release_def as_pool_def Let_def total_len_def split: option.splits)

lemma entries_as_pool: "h2p_entries p = p_entries (as_pool p)"
  by (simp add: as_pool_def)

interpretation h2_pool: keyed_pool "\<lambda>p. pool_parked (as_pool p)" "\<lambda>p. pool_total (as_pool p)"
  "\<lambda>p. pool_ok (as_pool p)" h2_pool_checkout h2_pool_release
proof unfold_locales
  fix p :: "'c h2_pool" and k c cs
  let ?p = "as_pool p"
  assume ok: "pool_ok ?p"
  show "h2_pool_checkout k p = (None, p)" if "pool_parked ?p k = []"
    using ok that by (simp add: h2_pool_checkout_def entries_as_pool bucket_of_Nil)
  show "\<exists>p'. h2_pool_checkout k p = (Some c, p') \<and> pool_ok (as_pool p') \<and>
      pool_parked (as_pool p') = (pool_parked ?p)(k := cs) \<and> pool_total ?p = Suc (pool_total (as_pool p'))"
    if "pool_parked ?p k = cs @ [c]"
    using plain_pool.checkout_last [OF ok that]
    by (cases "h2_pool_checkout k p") (auto simp: h2_pool_checkout_as_pool)
  show "pool_ok (as_pool (h2_pool_release k c p)) \<and>
      pool_parked (as_pool (h2_pool_release k c p)) = (pool_parked ?p)(k := pool_parked ?p k @ [c]) \<and>
      pool_total (as_pool (h2_pool_release k c p)) = Suc (pool_total ?p)"
    if "pool_total ?p < POOL_GLOBAL_CAP" "length (pool_parked ?p k) < POOL_PER_KEY_CAP"
    using plain_pool.release_room [OF ok that] by (simp flip: h2_pool_release_as_pool)
  show "pool_ok (as_pool (h2_pool_release k c p)) \<and>
      pool_parked (as_pool (h2_pool_release k c p)) = pool_parked ?p \<and>
      pool_total (as_pool (h2_pool_release k c p)) = pool_total ?p"
    if "POOL_GLOBAL_CAP \<le> pool_total ?p \<or> POOL_PER_KEY_CAP \<le> length (pool_parked ?p k)"
    using plain_pool.release_full [OF ok that] by (simp flip: h2_pool_release_as_pool)
qed

subsection \<open>Properties\<close>

lemma pool_new_ok: "pool_ok pool_new" "pool_parked pool_new k = []" "pool_total pool_new = 0"
  by (simp_all add: pool_new_def entries_ok_def bucket_of_def)

lemma as_pool_new: "as_pool h2_pool_new = pool_new"
  by (simp add: as_pool_def h2_pool_new_def pool_new_def)

lemma pools_new_within_caps: "plain_pool.within_caps pool_new" "h2_pool.within_caps h2_pool_new"
  by (simp_all add: plain_pool.within_caps_def h2_pool.within_caps_def as_pool_new pool_new_ok)

text \<open>Whatever sequence of checkouts and releases the callers make, both pools stay within both caps:
  at most 4 idle connections per authority and 32 in all.\<close>

lemma pools_within_caps:
  fixes ops :: "'c pool_op list"
  defines "p \<equiv> snd (run_ops pool_checkout pool_release ops pool_new)"
    and "q \<equiv> snd (run_ops h2_pool_checkout h2_pool_release ops h2_pool_new)"
  shows "total_len (p_entries p) \<le> 32 \<and> length (bucket_of (p_entries p) k) \<le> 4 \<and>
    total_len (h2p_entries q) \<le> 32 \<and> length (bucket_of (h2p_entries q) k) \<le> 4"
  using plain_pool.run_within_caps [OF pools_new_within_caps(1), of ops]
    h2_pool.run_within_caps [OF pools_new_within_caps(2), of ops]
  by (simp add: p_def q_def plain_pool.within_caps_def h2_pool.within_caps_def entries_as_pool)

text \<open>C13: A pooled connection is never handed to two callers and never crosses authorities: in every history
  the connections handed out under a key are, counted with multiplicity, among those released under that
  very key.\<close>

theorem pooled_connections_exclusive:
  fixes ops :: "'c pool_op list"
  shows "mset (handed_out k (fst (run_ops pool_checkout pool_release ops pool_new))) \<subseteq># mset (released_under k ops) \<and>
    mset (handed_out k (fst (run_ops h2_pool_checkout h2_pool_release ops h2_pool_new))) \<subseteq># mset (released_under k ops)"
  using plain_pool.run_exclusive [of pool_new k ops] h2_pool.run_exclusive [of h2_pool_new k ops]
  by (simp add: pool_new_ok as_pool_new)
    (meson mset_subset_eq_add_left subset_mset.order_trans)

end
