(* ===== verification/Http1_Write.thy ===== *)
theory Http1_Write
  imports Http1_Read
begin

text \<open>
  The HTTP/1.1 request writer and the CONNECT handshake (\<open>is_valid_header_name\<close>,
  \<open>header_value_has_forbidden\<close>, \<open>validate_header\<close>, \<open>validate_method\<close>, \<open>write_request\<close>,
  \<open>connect_tunnel\<close> of \<open>src/src/http.rs\<close>).  The buffer the code fills with \<open>write!\<close> is a string here;
  the verbose trace is left out.  The lines a request should consist of are stated apart, as the request
  line and a list of fields; what is written is shown to be exactly these lines.
\<close>

subsection \<open>Validation\<close>

definition is_tchar :: "char \<Rightarrow> bool" where
  "is_tchar c \<longleftrightarrow>
     (let n = of_char c :: nat in
      48 \<le> n \<and> n \<le> 57 \<or> 65 \<le> n \<and> n \<le> 90 \<or> 97 \<le> n \<and> n \<le> 122) \<or>
     c \<in> {CHR ''!'', CHR ''#'', CHR ''$'', CHR ''%'', CHR ''&'', CHR 0x27, CHR ''*'', CHR ''+'', CHR ''-'',
          CHR ''.'', CHR ''^'', CHR ''_'', CHR 0x60, CHR ''|'', CHR ''~''}"

definition is_valid_header_name :: "string \<Rightarrow> bool" where
  "is_valid_header_name name \<longleftrightarrow> name \<noteq> [] \<and> list_all is_tchar name"

definition header_value_has_forbidden :: "string \<Rightarrow> bool" where
  "header_value_has_forbidden val \<longleftrightarrow> list_ex (\<lambda>c. c = CHR 0x0D \<or> c = CHR 0x0A \<or> c = CHR 0x00) val"

definition validate_header :: "string \<Rightarrow> string \<Rightarrow> unit result" where
  "validate_header name val =
     (if \<not> is_valid_header_name name then Inl (BadResponse ''invalid header name: {name:?}'')
      else if header_value_has_forbidden val then Inl (BadResponse ''invalid header value for {name:?}'')
      else Inr ())"

definition validate_method :: "string \<Rightarrow> unit result" where
  "validate_method meth =
     (if meth = [] \<or> list_ex (\<lambda>c. let n = of_char c :: nat in n < 0x20 \<or> n = 0x7f \<or> n = 32) meth
      then Inl (BadResponse ''invalid method: {method:?}'') else Inr ())"

fun validate_headers :: "(string \<times> string) list \<Rightarrow> unit result" where
  "validate_headers [] = Inr ()"
| "validate_headers ((k, v) # hs) = bindR (validate_header k v) (\<lambda>_. validate_headers hs)"

subsection \<open>Writing a request\<close>

abbreviation (input) crlf :: string where "crlf \<equiv> [CHR 0x0D, CHR 0x0A]"

definition is_default_port :: "url \<Rightarrow> bool" where
  "is_default_port u \<longleftrightarrow>
     u_scheme u = ''http'' \<and> u_port u = 80 \<or> u_scheme u = ''https'' \<and> u_port u = 443"

definition host_header :: "url \<Rightarrow> string" where
  "host_header u = (if is_default_port u then u_host u else u_host u @ '':'' @ show_nat (unat (u_port u)))"

definition request_target :: "bool \<Rightarrow> url \<Rightarrow> string" where
  "request_target absolute_form u =
     (if absolute_form then
        (if is_default_port u then u_scheme u @ ''://'' @ u_host u @ u_path u
         else u_scheme u @ ''://'' @ u_host u @ '':'' @ show_nat (unat (u_port u)) @ u_path u)
      else u_path u)"

definition basic_creds :: "string \<times> string \<Rightarrow> string" where
  "basic_creds = (\<lambda>(user, pass). base64_encode (bytes_of (user @ '':'' @ pass)))"

definition request_head :: "bool \<Rightarrow> request \<Rightarrow> string" where
  "request_head absolute_form req =
     (let u = rq_url req;
          buf = rq_method req @ '' '' @ request_target absolute_form u @ '' HTTP/1.1'' @ crlf;
          buf = buf @ ''Host: '' @ host_header u @ crlf;
          buf = (if absolute_form
                 then (case rq_proxy req of
                   None \<Rightarrow> buf
                 | Some p \<Rightarrow>
                     (case pc_auth p of
                        None \<Rightarrow> buf
                      | Some up \<Rightarrow> buf @ ''Proxy-Authorization: Basic '' @ basic_creds up @ crlf))
                 else buf);
          have_ua = has_header ''user-agent'' (rq_headers req);
          have_accept = has_header ''accept'' (rq_headers req);
          have_accept_enc = has_header ''accept-encoding'' (rq_headers req);
          have_clen = has_header ''content-length'' (rq_headers req);
          have_auth = has_header ''authorization'' (rq_headers req);
          buf = buf @ concat (map (\<lambda>(k, v). k @ '': '' @ v @ crlf) (rq_headers req));
          buf = (if \<not> have_auth
                 then (case effective_basic_auth req of
                   None \<Rightarrow> buf
                 | Some creds \<Rightarrow> buf @ ''Authorization: Basic '' @ creds @ crlf)
                 else buf);
          buf = (if \<not> have_ua then buf @ ''User-Agent: rsurl/0.0.4'' @ crlf else buf);
          buf = (if \<not> have_accept then buf @ ''Accept: */*'' @ crlf else buf);
          buf = (if \<not> have_accept_enc then buf @ ''Accept-Encoding: gzip, deflate'' @ crlf else buf);
          buf = (if rq_body req \<noteq> [] \<and> \<not> have_clen
                 then buf @ ''Content-Length: '' @ show_nat (length (rq_body req)) @ crlf else buf)
      in buf @ crlf)"

definition write_request :: "request \<Rightarrow> bool \<Rightarrow> transport \<Rightarrow> unit result \<times> transport" where
  "write_request req absolute_form t =
     bindS (validate_method (rq_method req), t) (\<lambda>_ t.
       bindS (validate_headers (rq_headers req), t) (\<lambda>_ t.
         (let (r, t) = bindS (write_all (bytes_of (request_head absolute_form req)) t) (\<lambda>_ t.
                bindS (if rq_body req \<noteq> [] then write_all (rq_body req) t else (Inr (), t)) (\<lambda>_ t. flush t))
          in (liftIo r, t))))"

subsection \<open>The CONNECT handshake\<close>

definition connect_head :: "url \<Rightarrow> proxy_config \<Rightarrow> string" where
  "connect_head target proxy =
     (let host_port = u_host target @ '':'' @ show_nat (unat (u_port target));
          buf = ''CONNECT '' @ host_port @ '' HTTP/1.1'' @ crlf @ ''Host: '' @ host_port @ crlf @
            ''User-Agent: rsurl/0.0.4'' @ crlf @ ''Proxy-Connection: Keep-Alive'' @ crlf;
          buf = (case pc_auth proxy of
            None \<Rightarrow> buf
          | Some up \<Rightarrow> buf @ ''Proxy-Authorization: Basic '' @ basic_creds up @ crlf)
      in buf @ crlf)"

text \<open>A line without its newline and one carriage return before it.\<close>

definition strip_newline :: "bytes \<Rightarrow> bytes" where
  "strip_newline line =
     (let l = (if line \<noteq> [] \<and> last line = 0x0A then butlast line else line)
      in if l \<noteq> [] \<and> last l = 0x0D then butlast l else l)"

text \<open>The loop that reads one byte at a time up to the empty line; the first line is the status.\<close>

function tunnel_loop :: "bytes \<Rightarrow> string option \<Rightarrow> nat \<Rightarrow> transport \<Rightarrow> string option result \<times> transport" where
  "tunnel_loop line_buf status_line count t =
     (if count > MAX_HEADER_BYTES then (Inl (BadResponse ''CONNECT response headers exceed 64 KiB''), t)
      else case t_in t of
        [] \<Rightarrow> (Inl (if t_end t = IoUnexpectedEof then UnexpectedEof else Io (t_end t)), t)
      | b # rest \<Rightarrow>
          (let t = t\<lparr>t_in := rest\<rparr>; line_buf = line_buf @ [b] in
           if b = 0x0A then
             (let trimmed_line = from_utf8_lossy (strip_newline line_buf);
                  status_line = (if status_line = None then Some trimmed_line else status_line)
              in if trimmed_line = [] then (Inr status_line, t)
                 else tunnel_loop [] status_line (count + 1) t)
           else tunnel_loop line_buf status_line (count + 1) t))"
  by pat_completeness auto
termination by (relation "measure (\<lambda>(_, _, _, t). length (t_in t))") auto

declare tunnel_loop.simps [simp del]

definition check_tunnel_status :: "string option \<Rightarrow> unit result" where
  "check_tunnel_status status_line =
     (case status_line of
        None \<Rightarrow> Inl (BadResponse ''CONNECT: no status line'')
      | Some status \<Rightarrow>
          (case splitn 3 CHR '' '' status of
             _ # code # _ \<Rightarrow>
               (case parse_u16 code of
                  None \<Rightarrow> Inl (BadResponse ''CONNECT: bad status {:?}'')
                | Some c \<Rightarrow>
                    if \<not> (200 \<le> c \<and> c < 300) then Inl (BadResponse ''CONNECT to {host_port} failed: {status}'')
                    else Inr ())
           | _ \<Rightarrow> Inl (BadResponse ''CONNECT: malformed status line {status:?}'')))"

definition connect_tunnel :: "url \<Rightarrow> proxy_config \<Rightarrow> transport \<Rightarrow> unit result \<times> transport" where
  "connect_tunnel target proxy t =
     (let (r, t) = bindS (write_all (bytes_of (connect_head target proxy)) t) (\<lambda>_ t. flush t)
      in bindS (liftIo r, t) (\<lambda>_ t.
        bindS (tunnel_loop [] None 0 t) (\<lambda>status t. (check_tunnel_status status, t))))"

subsection \<open>The message a request should be\<close>

definition user_or_default :: "string \<Rightarrow> string option \<Rightarrow> request \<Rightarrow> (string \<times> string) list" where
  "user_or_default name val req =
     (case val of Some v \<Rightarrow> if has_header name (rq_headers req) then [] else [(name, v)] | None \<Rightarrow> [])"

definition message_fields :: "bool \<Rightarrow> request \<Rightarrow> (string \<times> string) list" where
  "message_fields via_proxy req =
     (''Host'', host_header (rq_url req)) #
     (case (if via_proxy then Option.bind (rq_proxy req) pc_auth else None) of
        Some up \<Rightarrow> [(''Proxy-Authorization'', ''Basic '' @ basic_creds up)] | None \<Rightarrow> []) @
     rq_headers req @
     user_or_default ''Authorization'' (map_option ((@) ''Basic '') (effective_basic_auth req)) req @
     user_or_default ''User-Agent'' (Some ''rsurl/0.0.4'') req @
     user_or_default ''Accept'' (Some ''*/*'') req @
     user_or_default ''Accept-Encoding'' (Some ''gzip, deflate'') req @
     user_or_default ''Content-Length''
       (if rq_body req = [] then None else Some (show_nat (length (rq_body req)))) req"

definition message_lines :: "bool \<Rightarrow> request \<Rightarrow> string list" where
  "message_lines via_proxy req =
     (rq_method req @ '' '' @ request_target via_proxy (rq_url req) @ '' HTTP/1.1'') #
     map (\<lambda>(k, v). k @ '': '' @ v) (message_fields via_proxy req)"

lemma has_header_lower: "has_header (to_ascii_lowercase name) hs = has_header name hs"
  by (simp add: has_header_def eq_ignore_ascii_case_def)

definition field_lines :: "(string \<times> string) list \<Rightarrow> string" where
  "field_lines fs = concat (map (\<lambda>(k, v). k @ '': '' @ v @ crlf) fs)"

lemma field_lines_simps [simp]:
  "field_lines [] = []" "field_lines ((k, v) # fs) = k @ '': '' @ v @ crlf @ field_lines fs"
  "field_lines (fs @ gs) = field_lines fs @ field_lines gs"
  by (simp_all add: field_lines_def)

lemma append_if:
  "(if b then buf @ x else buf) = buf @ (if b then x else [])"
  "(case opt of None \<Rightarrow> buf | Some y \<Rightarrow> buf @ f y) = buf @ (case opt of None \<Rightarrow> [] | Some y \<Rightarrow> f y)"
  by (simp_all split: option.split)

lemma request_head_lines:
  "request_head via_proxy req = concat (map (\<lambda>l. l @ crlf) (message_lines via_proxy req)) @ crlf"
proof -
  have h: "has_header ''Authorization'' hs = has_header ''authorization'' hs"
    "has_header ''User-Agent'' hs = has_header ''user-agent'' hs"
    "has_header ''Accept'' hs = has_header ''accept'' hs"
    "has_header ''Accept-Encoding'' hs = has_header ''accept-encoding'' hs"
    "has_header ''Content-Length'' hs = has_header ''content-length'' hs" for hs
    by (simp_all add: has_header_def eq_ignore_ascii_case_def str_eval)
  have proxy: "field_lines (case (if via_proxy then Option.bind (rq_proxy req) pc_auth else None) of
        Some up \<Rightarrow> [(''Proxy-Authorization'', ''Basic '' @ basic_creds up)] | None \<Rightarrow> [])
      = (if via_proxy then (case rq_proxy req of None \<Rightarrow> [] | Some p \<Rightarrow>
          (case pc_auth p of None \<Rightarrow> [] | Some up \<Rightarrow> ''Proxy-Authorization: Basic '' @ basic_creds up @ crlf)) else [])"
    by (auto split: option.split)
  have auth: "field_lines (user_or_default ''Authorization'' (map_option ((@) ''Basic '') (effective_basic_auth req)) req)
      = (if \<not> has_header ''authorization'' (rq_headers req) then (case effective_basic_auth req of None \<Rightarrow> []
          | Some creds \<Rightarrow> ''Authorization: Basic '' @ creds @ crlf) else [])"
    by (simp add: user_or_default_def h split: option.split)
  have rest: "field_lines (user_or_default name (Some v) req)
      = (if \<not> has_header name (rq_headers req) then name @ '': '' @ v @ crlf else [])"
    "field_lines (user_or_default name None req) = []" for name v
    by (simp_all add: user_or_default_def)
  have body: "field_lines (user_or_default ''Content-Length''
        (if rq_body req = [] then None else Some (show_nat (length (rq_body req)))) req)
      = (if rq_body req \<noteq> [] \<and> \<not> has_header ''content-length'' (rq_headers req)
         then ''Content-Length: '' @ show_nat (length (rq_body req)) @ crlf else [])"
    by (simp add: rest h)
  have "concat (map (\<lambda>l. l @ crlf) (message_lines via_proxy req)) = rq_method req @ '' '' @
      request_target via_proxy (rq_url req) @ '' HTTP/1.1'' @ crlf @ field_lines (message_fields via_proxy req)"
    by (simp add: message_lines_def field_lines_def comp_def case_prod_unfold)
  moreover have "request_head via_proxy req = rq_method req @ '' '' @
      request_target via_proxy (rq_url req) @ '' HTTP/1.1'' @ crlf @ field_lines (message_fields via_proxy req) @ crlf"
    unfolding request_head_def message_fields_def Let_def append_if field_lines_simps proxy auth body rest h
    by (simp add: field_lines_def)
  ultimately show ?thesis by simp
qed

subsection \<open>Properties\<close>

text \<open>No character that could end a line or a token.\<close>

definition line_break :: "char \<Rightarrow> bool" where
  "line_break c \<longleftrightarrow> c = CHR 0x0D \<or> c = CHR 0x0A \<or> c = CHR 0x00"

definition unbroken :: "string \<Rightarrow> bool" where
  "unbroken s \<longleftrightarrow> (\<forall>c\<in>set s. \<not> line_break c)"

lemma unbroken_simps [simp]:
  "unbroken []" "unbroken (c # s) \<longleftrightarrow> \<not> line_break c \<and> unbroken s"
  "unbroken (s @ t) \<longleftrightarrow> unbroken s \<and> unbroken t"
  by (auto simp: unbroken_def)

lemma line_break_code: "line_break c \<Longrightarrow> (of_char c :: nat) \<in> {13, 10, 0}"
  by (auto simp: line_break_def)

lemma unbroken_codes: "(\<And>c. c \<in> set s \<Longrightarrow> (of_char c :: nat) \<notin> {13, 10, 0}) \<Longrightarrow> unbroken s"
  unfolding unbroken_def using line_break_code by blast

lemma clean_unbroken: "clean s \<Longrightarrow> unbroken s"
proof (rule unbroken_codes)
  fix c assume "clean s" "c \<in> set s"
  then have "\<not> (of_char c :: nat) < 32" unfolding clean_def forbidden_char_def by blast
  then show "(of_char c :: nat) \<notin> {13, 10, 0}" by auto
qed

lemma graphic_unbroken: "(\<And>c. c \<in> set s \<Longrightarrow> graphic c) \<Longrightarrow> unbroken s"
proof (rule unbroken_codes)
  fix c assume "\<And>c. c \<in> set s \<Longrightarrow> graphic c" "c \<in> set s"
  then have "33 \<le> (of_char c :: nat)" by (simp add: graphic_def Let_def)
  then show "(of_char c :: nat) \<notin> {13, 10, 0}" by auto
qed

lemma show_nat_unbroken [simp]: "unbroken (show_nat n)"
  by (rule graphic_unbroken) (rule show_nat_graphic)

lemma tchar_code: "is_tchar c \<Longrightarrow> 33 \<le> (of_char c :: nat) \<and> (of_char c :: nat) \<noteq> 58"
  by (auto simp: is_tchar_def Let_def)

lemma tchars_unbroken:
  assumes "list_all is_tchar k"
  shows "unbroken k" and "CHR '':'' \<notin> set k"
proof -
  show "unbroken k" using assms tchar_code by (intro unbroken_codes) (fastforce simp: list_all_iff)
  show "CHR '':'' \<notin> set k" using assms tchar_code [of "CHR '':''"] by (auto simp: list_all_iff)
qed

lemma validate_headers_ok:
  "validate_headers hs = Inr () \<Longrightarrow>
     \<forall>(k, v)\<in>set hs. k \<noteq> [] \<and> unbroken k \<and> unbroken v \<and> CHR '':'' \<notin> set k"
proof (induction hs rule: validate_headers.induct)
  case (2 k v hs)
  then have h: "is_valid_header_name k" "\<not> header_value_has_forbidden v" "validate_headers hs = Inr ()"
    by (auto simp: validate_header_def bindR_eq_Inr split: if_splits)
  then have "unbroken v"
    by (simp add: header_value_has_forbidden_def unbroken_def line_break_def list_ex_iff)
  with h tchars_unbroken [of k] 2(1) show ?case by (auto simp: is_valid_header_name_def bindR_eq_Inr validate_header_def)
qed simp

lemma validate_method_ok:
  assumes "validate_method m = Inr ()"
  shows "unbroken m" and "m \<noteq> []" and "CHR '' '' \<notin> set m"
proof -
  have c: "32 < (of_char c :: nat)" if "c \<in> set m" for c
    using assms that by (fastforce simp: validate_method_def list_ex_iff Let_def split: if_splits)
  then show "unbroken m" by (intro unbroken_codes) fastforce
  show "m \<noteq> []" using assms by (auto simp: validate_method_def)
  show "CHR '' '' \<notin> set m" using c [of "CHR '' ''"] by auto
qed

lemma write_all_ok: "write_all bs t = (Inr (), t') \<Longrightarrow> t_out t' = t_out t @ bs"
  by (auto simp: write_all_def split: option.splits if_splits)

lemma write_request_ok:
  assumes "write_request req via_proxy t = (Inr (), t')"
  shows "validate_method (rq_method req) = Inr ()" and "validate_headers (rq_headers req) = Inr ()"
    and "t_out t' = t_out t @ bytes_of (request_head via_proxy req) @ rq_body req"
proof -
  show v: "validate_method (rq_method req) = Inr ()" "validate_headers (rq_headers req) = Inr ()"
    using assms by (auto simp: write_request_def bindS_eq_Inr)
  from assms v obtain t1 t2 where w: "write_all (bytes_of (request_head via_proxy req)) t = (Inr (), t1)"
    "(if rq_body req \<noteq> [] then write_all (rq_body req) t1 else (Inr (), t1)) = (Inr (), t2)" "flush t2 = (Inr (), t')"
    by (auto simp: write_request_def bindS_eq_Inr split: prod.splits)
  from w(3) have "t' = t2" by (metis flush_state snd_conv)
  with w(1,2) show "t_out t' = t_out t @ bytes_of (request_head via_proxy req) @ rq_body req"
    by (auto dest!: write_all_ok split: if_splits)
qed

lemma request_line_unbroken:
  assumes "url_safe (rq_url req)" and "unbroken (rq_method req)"
    and "via_proxy \<Longrightarrow> unbroken (u_scheme (rq_url req))"
  shows "unbroken (rq_method req @ '' '' @ request_target via_proxy (rq_url req) @ '' HTTP/1.1'')"
  using assms by (simp add: request_target_def url_safe_def clean_unbroken line_break_def)

lemma message_fields_unbroken:
  assumes "url_safe (rq_url req)" and "validate_headers (rq_headers req) = Inr ()"
  shows "\<forall>(k, v)\<in>set (message_fields via_proxy req). k \<noteq> [] \<and> unbroken k \<and> unbroken v \<and> CHR '':'' \<notin> set k"
proof -
  have "unbroken (host_header (rq_url req))"
    using assms(1) by (simp add: host_header_def url_safe_def clean_unbroken line_break_def)
  moreover have "unbroken (basic_creds up)" for up
    by (cases up) (simp add: basic_creds_def base64_clean clean_unbroken)
  moreover have "unbroken t" if "effective_basic_auth req = Some t" for t
    using that by (intro clean_unbroken effective_basic_auth_clean)
  ultimately show ?thesis
    using validate_headers_ok [OF assms(2)]
    by (cases "if via_proxy then Option.bind (rq_proxy req) pc_auth else None"; cases "effective_basic_auth req")
      (simp_all add: message_fields_def user_or_default_def line_break_def)
qed

text \<open>C10: No request forges a line: for a URL the parser accepts and whatever method, headers, credentials and
  body the caller supplied, a request that is written consists of exactly the intended lines -- the request
  line, one line for each intended field, the empty line -- and then the body, and none of the lines is
  empty or holds a CR, LF or NUL, nor any field name a colon.\<close>

theorem written_requests_not_forged:
  assumes "write_request req via_proxy t = (Inr (), t')"
    and "url_parse s = Inr (rq_url req)" and "u_scheme (rq_url req) = ''http'' \<or> u_scheme (rq_url req) = ''https''"
  shows "t_out t' = t_out t @ bytes_of (concat (map (\<lambda>l. l @ crlf) (message_lines via_proxy req)) @ crlf) @ rq_body req \<and>
    (\<forall>l\<in>set (message_lines via_proxy req). l \<noteq> [] \<and> unbroken l) \<and>
    (\<forall>(k, v)\<in>set (message_fields via_proxy req). CHR '':'' \<notin> set k)"
proof -
  have safe: "url_safe (rq_url req)" using assms(2,3) by (intro url_parse_safe) auto
  note ok = write_request_ok [OF assms(1)]
  have "unbroken (u_scheme (rq_url req))" using assms(3) by (auto simp: line_break_def)
  note line = request_line_unbroken [OF safe validate_method_ok(1) [OF ok(1)] this, of via_proxy]
  note flds = message_fields_unbroken [OF safe ok(2), of via_proxy]
  have "l \<noteq> [] \<and> unbroken l" if "l \<in> set (message_lines via_proxy req)" for l
    using that line flds validate_method_ok(2) [OF ok(1)] by (auto simp: message_lines_def line_break_def)
  with flds ok(3) show ?thesis by (auto simp: request_head_lines)
qed

lemma written_requests_not_forged_witness:
  "\<exists>t'. write_request example_request False fresh_transport = (Inr (), t') \<and>
     (\<forall>l\<in>set (message_lines False example_request). l \<noteq> [] \<and> unbroken l)"
proof -
  have v: "validate_method ''GET'' = Inr ()" by (simp add: validate_method_def)
  have h: "validate_headers [(''Cookie'', ''a=b''), (''Connection'', ''close'')] = Inr ()"
    by (simp add: validate_header_def is_valid_header_name_def is_tchar_def header_value_has_forbidden_def)
  obtain t' where w: "write_request example_request False fresh_transport = (Inr (), t')"
    using v h by (simp add: write_request_def example_request_def fresh_transport_def)
  have "url_parse ''https://h/'' = Inr (rq_url example_request)"
    by (simp add: url_eval example_request_def)
  from written_requests_not_forged [OF w this] w show ?thesis by (auto simp: example_request_def)
qed

lemma utf8_lossy_Nil [simp]: "utf8_lossy bs = [] \<longleftrightarrow> bs = []"
proof (cases "utf8_step bs")
  case (Inr n)
  with utf8_step_pos(1) [OF this] show ?thesis by (subst utf8_lossy.simps) auto
qed (subst utf8_lossy.simps, auto)

abbreviation (input) blank :: "bytes \<Rightarrow> bool" where "blank l \<equiv> l = [] \<or> l = [0x0D]"

lemma strip_newline_line: "strip_newline (l @ [0x0A]) = [] \<longleftrightarrow> blank l"
proof -
  have "strip_newline (l @ [0x0A]) = (if l \<noteq> [] \<and> last l = 0x0D then butlast l else l)"
    by (simp add: strip_newline_def)
  then show ?thesis by (cases l rule: rev_cases) auto
qed

lemma from_utf8_lossy_Nil: "from_utf8_lossy bs = [] \<longleftrightarrow> bs = []"
  by (simp add: from_utf8_lossy_def str_of_def)

lemma tunnel_loop_lines:
  "tunnel_loop buf st n t = (Inr st', t') \<Longrightarrow> 0x0A \<notin> set buf \<Longrightarrow>
     \<exists>lines. buf @ t_in t = concat (map (\<lambda>l. l @ [0x0A]) lines) @ t_in t' \<and> lines \<noteq> [] \<and>
       (\<forall>l\<in>set lines. 0x0A \<notin> set l) \<and> blank (last lines) \<and> (\<forall>l\<in>set (butlast lines). \<not> blank l) \<and>
       st' = Some (case st of Some s \<Rightarrow> s | None \<Rightarrow> from_utf8_lossy (strip_newline (hd lines @ [0x0A])))"
proof (induction buf st n t rule: tunnel_loop.induct)
  case (1 buf st n t)
  have n: "\<not> n > MAX_HEADER_BYTES" using 1(3) by (auto simp: tunnel_loop.simps [of buf st n t])
  obtain b rest where b: "t_in t = b # rest"
    using 1(3) n by (cases "t_in t") (auto simp: tunnel_loop.simps [of buf st n t])
  let ?t = "t\<lparr>t_in := rest\<rparr>"
  show ?case
  proof (cases "b = 0x0A")
    case False
    then have "tunnel_loop (buf @ [b]) st (n + 1) ?t = (Inr st', t')"
      using 1(3) n b by (simp add: tunnel_loop.simps [of buf st n t])
    from 1(2) [OF n b refl refl False this] False 1(4) b show ?thesis by simp
  next
    case nl: True
    let ?line = "from_utf8_lossy (strip_newline (buf @ [0x0A]))"
    let ?st = "if st = None then Some ?line else st"
    show ?thesis
    proof (cases "?line = []")
      case True
      then have "st' = ?st" "t' = ?t"
        using 1(3) n b nl by (simp_all add: tunnel_loop.simps [of buf st n t] split: if_splits)
      moreover have "blank buf" using True by (simp add: from_utf8_lossy_Nil strip_newline_line)
      ultimately show ?thesis using 1(4) b nl True
        by (intro exI [of _ "[buf]"]) (auto split: option.split)
    next
      case False
      then have r: "tunnel_loop [] ?st (n + 1) ?t = (Inr st', t')"
        using 1(3) n b nl by (simp add: tunnel_loop.simps [of buf st n t] split: if_splits)
      have nb: "\<not> blank buf" using False by (simp add: from_utf8_lossy_Nil strip_newline_line)
      from 1(1) [OF n b refl refl nl refl refl] False r nl obtain lines where
        "t_in ?t = concat (map (\<lambda>l. l @ [0x0A]) lines) @ t_in t'" "lines \<noteq> []"
        "\<forall>l\<in>set lines. 0x0A \<notin> set l" "blank (last lines)" "\<forall>l\<in>set (butlast lines). \<not> blank l"
        "st' = Some (case ?st of Some s \<Rightarrow> s | None \<Rightarrow> from_utf8_lossy (strip_newline (hd lines @ [0x0A])))"
        by auto
      with 1(4) b nl nb show ?thesis
        by (intro exI [of _ "buf # lines"]) (auto split: option.split)
    qed
  qed
qed

lemma write_all_flush_in:
  "bindS (write_all bs t) (\<lambda>_ t. flush t) = (r, t') \<Longrightarrow> t_in t' = t_in t"
  by (cases "write_all bs t"; cases "fst (write_all bs t)") (auto dest!: arg_cong [of _ _ "\<lambda>x. t_in (snd x)"])

text \<open>The CONNECT handshake hands the socket over exactly after the proxy's first empty line: what it
  consumed is the lines up to and including it, of which the first is a status line with a code from 200 to
  299, and every byte after it is left for the TLS handshake.\<close>

lemma tunnel_stops_at_blank_line:
  assumes "connect_tunnel target proxy t = (Inr (), t')"
  shows "\<exists>lines. t_in t = concat (map (\<lambda>l. l @ [0x0A]) lines) @ t_in t' \<and> lines \<noteq> [] \<and>
    blank (last lines) \<and> (\<forall>l\<in>set (butlast lines). \<not> blank l) \<and> (\<forall>l\<in>set lines. 0x0A \<notin> set l) \<and>
    check_tunnel_status (Some (from_utf8_lossy (strip_newline (hd lines @ [0x0A])))) = Inr ()"
proof -
  obtain r t1 where w: "bindS (write_all (bytes_of (connect_head target proxy)) t) (\<lambda>_ t. flush t) = (r, t1)"
    by fastforce
  from assms w obtain st t2 where l: "tunnel_loop [] None 0 t1 = (Inr st, t2)" "check_tunnel_status st = Inr ()" "t' = t2"
    by (auto simp: connect_tunnel_def bindS_eq_Inr)
  from tunnel_loop_lines [OF l(1)] l(2,3) write_all_flush_in [OF w] show ?thesis by auto
qed

text \<open>Forward over one line, to evaluate the loop on an example.\<close>

lemma tunnel_loop_line:
  "0x0A \<notin> set l \<Longrightarrow> n + length l \<le> MAX_HEADER_BYTES \<Longrightarrow> t_in t = l @ 0x0A # rest \<Longrightarrow>
     tunnel_loop buf st n t =
       (let text = from_utf8_lossy (strip_newline (buf @ l @ [0x0A]));
            st = (if st = None then Some text else st)
        in if text = [] then (Inr st, t\<lparr>t_in := rest\<rparr>) else tunnel_loop [] st (n + length l + 1) (t\<lparr>t_in := rest\<rparr>))"
proof (induction l arbitrary: buf n t)
  case Nil
  then show ?case by (subst tunnel_loop.simps) (simp add: Let_def)
next
  case (Cons b l)
  from Cons.prems Cons.IH [of "n + 1" "t\<lparr>t_in := l @ 0x0A # rest\<rparr>" "buf @ [b]"]
  show ?case by (subst tunnel_loop.simps) (simp add: Let_def)
qed

definition example_proxy_reply :: transport where
  "example_proxy_reply = fresh_transport\<lparr>t_in := bytes_of (''HTTP/1.1 200 OK'' @ crlf @ crlf) @ [22, 3]\<rparr>"

lemma example_tunnel:
  "\<exists>t'. connect_tunnel \<lparr>u_scheme = ''https'', u_userinfo = None, u_host = ''h'', u_port = 443, u_path = ''/''\<rparr>
       \<lparr>pc_host = ''p'', pc_port = 80, pc_auth = None\<rparr> example_proxy_reply = (Inr (), t') \<and> t_in t' = [22, 3]"
proof -
  have v: "from_utf8_lossy (bytes_of ''HTTP/1.1 200 OK'') = ''HTTP/1.1 200 OK''"
    by (intro from_utf8_lossy_valid) (simp add: valid_str_def bytes_of_def)
  have s: "strip_newline (bytes_of ''HTTP/1.1 200 OK'' @ [0x0D] @ [0x0A]) = bytes_of ''HTTP/1.1 200 OK''"
    by (simp add: strip_newline_def butlast_append)
  have nl: "0x0A \<notin> set (bytes_of ''HTTP/1.1 200 OK'' @ [0x0D])" by (simp add: bytes_of_def)
  have run: "tunnel_loop [] None 0 t = (Inr (Some ''HTTP/1.1 200 OK''), t\<lparr>t_in := [22, 3]\<rparr>)"
    if t: "t_in t = bytes_of (''HTTP/1.1 200 OK'' @ crlf @ crlf) @ [22, 3]" for t
  proof -
    have in1: "t_in t = (bytes_of ''HTTP/1.1 200 OK'' @ [0x0D]) @ 0x0A # [0x0D, 0x0A, 22, 3]"
      using t by (simp add: bytes_of_def)
    define n where "n = 0 + length (bytes_of ''HTTP/1.1 200 OK'' @ [0x0D :: byte]) + 1"
    have n: "n + 1 \<le> MAX_HEADER_BYTES" by (simp add: n_def)
    have "tunnel_loop [] None 0 t = tunnel_loop [] (Some ''HTTP/1.1 200 OK'') n (t\<lparr>t_in := [0x0D, 0x0A, 22, 3]\<rparr>)"
      using tunnel_loop_line [OF nl _ in1, of 0 "[]" None, folded n_def] v s by (simp add: Let_def)
    also have "\<dots> = (Inr (Some ''HTTP/1.1 200 OK''), t\<lparr>t_in := [22, 3]\<rparr>)"
      using tunnel_loop_line [of "[0x0D]" n "t\<lparr>t_in := [0x0D, 0x0A, 22, 3]\<rparr>" "[22, 3]" "[]" "Some ''HTTP/1.1 200 OK''"]
      n by (simp add: strip_newline_def from_utf8_lossy_Nil Let_def)
    finally show ?thesis .
  qed
  moreover have "check_tunnel_status (Some ''HTTP/1.1 200 OK'') = Inr ()"
    by (simp add: check_tunnel_status_def numeral_3_eq_3 str_eval)
  moreover have "t_in (t\<lparr>t_out := out\<rparr>) = t_in t" for t :: transport and out by simp
  ultimately show ?thesis
    using run [of "example_proxy_reply\<lparr>t_out := out\<rparr>" for out]
    by (simp add: connect_tunnel_def example_proxy_reply_def fresh_transport_def)
qed

lemma tunnel_stops_at_blank_line_witness:
  "\<exists>t' lines. connect_tunnel \<lparr>u_scheme = ''https'', u_userinfo = None, u_host = ''h'', u_port = 443, u_path = ''/''\<rparr>
       \<lparr>pc_host = ''p'', pc_port = 80, pc_auth = None\<rparr> example_proxy_reply = (Inr (), t') \<and>
     t_in example_proxy_reply = concat (map (\<lambda>l. l @ [0x0A]) lines) @ t_in t' \<and> blank (last lines)"
proof -
  obtain t' where t: "connect_tunnel \<lparr>u_scheme = ''https'', u_userinfo = None, u_host = ''h'', u_port = 443, u_path = ''/''\<rparr>
       \<lparr>pc_host = ''p'', pc_port = 80, pc_auth = None\<rparr> example_proxy_reply = (Inr (), t')"
    using example_tunnel by blast
  from tunnel_stops_at_blank_line [OF t] t show ?thesis by blast
qed

end
