(* ===== verification/Client_Conn.thy ===== *)
theory Client_Conn
  imports H2_Mux Pool Http1_Write
begin

text \<open>
  One hop of the HTTP client (\<open>src/src/http.rs\<close>, and \<open>send\<close> and \<open>send_multiplexed\<close> of \<open>src/src/http2.rs\<close>): dialling,
  the choice between HTTP/1.1, HTTP/2 and HTTP/3, one attempt on a pooled connection before a fresh one, and
  what is parked afterwards.  The process-wide pools and the outside world \<open>'w\<close> are the state; DNS and
  sockets, TLS and QUIC are the fields of \<open>net\<close>, free to answer anything.  A TLS session is the transport of
  its plaintext.  An HTTP/2 request whose sending never ends would be the result \<open>None\<close>; \<open>send_once_returns\<close> shows
  that it does not occur.
\<close>

subsection \<open>Decisions\<close>

datatype pooled_error = Stale string | Hard error

definition stale_or_hard :: "error \<Rightarrow> pooled_error" where
  "stale_or_hard e =
     (case e of
        UnexpectedEof \<Rightarrow> Stale ''connection closed by peer''
      | Io k \<Rightarrow>
          if k \<in> {IoUnexpectedEof, ConnectionReset, ConnectionAborted, BrokenPipe, NotConnected}
          then Stale ''{io_err}'' else Hard e
      | _ \<Rightarrow> Hard e)"

definition has_token :: "string \<Rightarrow> (string \<times> string) \<Rightarrow> bool" where
  "has_token token h =
     (eq_ignore_ascii_case (fst h) ''connection'' \<and>
      list_ex (\<lambda>tok. eq_ignore_ascii_case (trim tok) token) (split_char CHR '','' (snd h)))"

definition response_is_reusable :: "string \<Rightarrow> response \<Rightarrow> bool" where
  "response_is_reusable meth resp =
     (if list_ex (has_token ''close'') (rs_headers resp) then False
      else
        let has_framing = list_ex (\<lambda>(k, v). eq_ignore_ascii_case k ''content-length'' \<or>
              eq_ignore_ascii_case k ''transfer-encoding'' \<and> eq_ignore_ascii_case v ''chunked'') (rs_headers resp);
            no_body_allowed = (eq_ignore_ascii_case meth ''HEAD'' \<or>
              100 \<le> rs_status resp \<and> rs_status resp < 200 \<or> rs_status resp = 204 \<or> rs_status resp = 304)
        in if \<not> has_framing \<and> \<not> no_body_allowed then False
           else if rs_version resp = ''HTTP/1.1'' then True
           else list_ex (has_token ''keep-alive'') (rs_headers resp))"

definition h3_should_fall_back :: "error \<Rightarrow> bool" where
  "h3_should_fall_back e =
     (case e of
        Io _ \<Rightarrow> True
      | UnsupportedScheme _ \<Rightarrow> True
      | InvalidUrl _ \<Rightarrow> True
      | BadResponse m \<Rightarrow>
          starts_with ''http3: connection closed'' m \<or> starts_with ''http3: peer closed'' m \<or>
          starts_with ''http3: build client'' m \<or> starts_with ''http3: open_bidi'' m \<or>
          starts_with ''http3: open_uni'' m \<or> starts_with ''http3: feed'' m \<or>
          starts_with ''http3: stream read'' m \<or> starts_with ''http3: stream write'' m \<or>
          starts_with ''http3: stream finish'' m
      | _ \<Rightarrow> False)"

subsection \<open>The world and the pools\<close>

record tls_opts =
  to_verify :: bool
  to_roots :: "bytes option"
  to_alpn :: "string list"

text \<open>
  \<open>n_connect\<close> resolves and connects under the two timeouts, \<open>n_roots\<close> reads a CA bundle, \<open>n_tls\<close> is the handshake
  with the selected ALPN protocol, \<open>n_h3\<close> a request over QUIC, \<open>n_decoders\<close> the decompressors.
\<close>

record 'w net =
  n_connect :: "string \<Rightarrow> u16 \<Rightarrow> duration option \<Rightarrow> duration option \<Rightarrow> 'w \<Rightarrow> transport result \<times> 'w"
  n_roots :: "string \<Rightarrow> 'w \<Rightarrow> bytes result \<times> 'w"
  n_tls :: "tls_opts \<Rightarrow> string \<Rightarrow> transport \<Rightarrow> 'w \<Rightarrow> (transport \<times> string option) result \<times> 'w"
  n_h3 :: "request \<Rightarrow> 'w \<Rightarrow> response result \<times> 'w"
  n_decoders :: decoders

record 'w client =
  cl_plain :: "transport pool"
  cl_tls :: "transport pool"
  cl_h2 :: "connection h2_pool"
  cl_world :: 'w

definition client_new :: "'w \<Rightarrow> 'w client" where
  "client_new w = \<lparr>cl_plain = pool_new, cl_tls = pool_new, cl_h2 = h2_pool_new, cl_world = w\<rparr>"

definition on_world :: "('w \<Rightarrow> 'a \<times> 'w) \<Rightarrow> 'w client \<Rightarrow> 'a \<times> 'w client" where
  "on_world f cl = (let (r, w) = f (cl_world cl) in (r, cl\<lparr>cl_world := w\<rparr>))"

subsection \<open>Dialling\<close>

definition active_proxy :: "request \<Rightarrow> proxy_config option" where
  "active_proxy req = (if proxy_bypassed req then None else rq_proxy req)"

definition tcp_connect :: "'w net \<Rightarrow> request \<Rightarrow> 'w client \<Rightarrow> transport result \<times> 'w client" where
  "tcp_connect N req =
     (let (host, port) = (case active_proxy req of
            Some p \<Rightarrow> (pc_host p, pc_port p)
          | None \<Rightarrow> (u_host (rq_url req), u_port (rq_url req)))
      in on_world (n_connect N host port (rq_connect_timeout req) (rq_read_timeout req)))"

definition tls_opts_from :: "'w net \<Rightarrow> request \<Rightarrow> string list \<Rightarrow> 'w client \<Rightarrow> tls_opts result \<times> 'w client" where
  "tls_opts_from N req alpn cl =
     (case rq_ca_bundle req of
        Some path \<Rightarrow> bindS (on_world (n_roots N path) cl) (\<lambda>roots cl.
          (Inr \<lparr>to_verify = rq_verify_tls req, to_roots = Some roots, to_alpn = alpn\<rparr>, cl))
      | None \<Rightarrow> (Inr \<lparr>to_verify = rq_verify_tls req, to_roots = None, to_alpn = alpn\<rparr>, cl))"

text \<open>The tunnel through the proxy that is in play, if any.\<close>

definition tunnel_if :: "proxy_config option \<Rightarrow> url \<Rightarrow> transport \<Rightarrow> transport result" where
  "tunnel_if proxy url t =
     (case proxy of
        Some p \<Rightarrow> (case connect_tunnel url p t of (Inl e, _) \<Rightarrow> Inl e | (Inr _, t) \<Rightarrow> Inr t)
      | None \<Rightarrow> Inr t)"

definition dial_tls ::
  "'w net \<Rightarrow> request \<Rightarrow> proxy_config option \<Rightarrow> string list \<Rightarrow> 'w client \<Rightarrow> (transport \<times> string option) result \<times> 'w client"
where
  "dial_tls N req proxy alpn cl =
     bindS (tcp_connect N req cl) (\<lambda>t cl.
       bindS (tunnel_if proxy (rq_url req) t, cl) (\<lambda>t cl.
         bindS (tls_opts_from N req alpn cl) (\<lambda>opts cl.
           on_world (n_tls N opts (u_host (rq_url req)) t) cl)))"

subsection \<open>HTTP/1.1\<close>

definition http1_exchange :: "decoders \<Rightarrow> request \<Rightarrow> bool \<Rightarrow> transport \<Rightarrow> response result \<times> transport" where
  "http1_exchange A req absolute_form t =
     bindS (write_request req absolute_form t) (\<lambda>_ t. read_response A (rq_method req) t)"

definition finalize_plain :: "transport \<Rightarrow> request \<Rightarrow> response \<Rightarrow> bool \<Rightarrow> 'w client \<Rightarrow> 'w client" where
  "finalize_plain t req resp may_pool cl =
     (if may_pool \<and> response_is_reusable (rq_method req) resp
      then cl\<lparr>cl_plain := pool_release (pool_key_of (rq_url req)) t (cl_plain cl)\<rparr> else cl)"

definition send_plain_fresh :: "'w net \<Rightarrow> request \<Rightarrow> bool \<Rightarrow> 'w client \<Rightarrow> response result \<times> 'w client" where
  "send_plain_fresh N req may_pool cl =
     bindS (tcp_connect N req cl) (\<lambda>t cl.
       case http1_exchange (n_decoders N) req (via_plain_http_proxy req) t of
         (Inl e, _) \<Rightarrow> (Inl e, cl)
       | (Inr resp, t) \<Rightarrow> (Inr resp, finalize_plain t req resp may_pool cl))"

definition perform_on_pooled_plain ::
  "'w net \<Rightarrow> transport \<Rightarrow> request \<Rightarrow> 'w client \<Rightarrow> (pooled_error + response) \<times> 'w client" where
  "perform_on_pooled_plain N t req cl =
     (case http1_exchange (n_decoders N) req (via_plain_http_proxy req) t of
        (Inl e, _) \<Rightarrow> (Inl (stale_or_hard e), cl)
      | (Inr resp, t) \<Rightarrow> (Inr resp, finalize_plain t req resp True cl))"

definition send_plain :: "'w net \<Rightarrow> request \<Rightarrow> 'w client \<Rightarrow> response result \<times> 'w client" where
  "send_plain N req cl =
     (if rq_http_version_pref req = Http3Only
      then (Inl (UnsupportedScheme ''http/3 requires https://, not http://''), cl)
      else
        let direct = (rq_proxy req = None \<or> proxy_bypassed req) in
        case (if direct then pool_checkout (pool_key_of (rq_url req)) (cl_plain cl) else (None, cl_plain cl)) of
          (None, p) \<Rightarrow> send_plain_fresh N req direct (cl\<lparr>cl_plain := p\<rparr>)
        | (Some t, p) \<Rightarrow>
            (case perform_on_pooled_plain N t req (cl\<lparr>cl_plain := p\<rparr>) of
               (Inr resp, cl) \<Rightarrow> (Inr resp, cl)
             | (Inl (Stale _), cl) \<Rightarrow> send_plain_fresh N req direct cl
             | (Inl (Hard e), cl) \<Rightarrow> (Inl e, cl)))"

subsection \<open>HTTP/1.1 over TLS\<close>

definition finalize_tls :: "transport \<Rightarrow> request \<Rightarrow> response \<Rightarrow> bool \<Rightarrow> 'w client \<Rightarrow> 'w client" where
  "finalize_tls t req resp may_pool cl =
     (if may_pool \<and> tls_pool_eligible req \<and> response_is_reusable (rq_method req) resp
      then cl\<lparr>cl_tls := pool_release (pool_key_of (rq_url req)) t (cl_tls cl)\<rparr> else cl)"

definition send_https_fresh :: "'w net \<Rightarrow> request \<Rightarrow> bool \<Rightarrow> 'w client \<Rightarrow> response result \<times> 'w client" where
  "send_https_fresh N req may_pool cl =
     bindS (dial_tls N req (if u_scheme (rq_url req) = ''https'' then active_proxy req else None) [] cl)
       (\<lambda>(t, _) cl.
         case http1_exchange (n_decoders N) req False t of
           (Inl e, _) \<Rightarrow> (Inl e, cl)
         | (Inr resp, t) \<Rightarrow> (Inr resp, finalize_tls t req resp may_pool cl))"

definition pool_checkout_tls :: "request \<Rightarrow> 'w client \<Rightarrow> transport option \<times> 'w client" where
  "pool_checkout_tls req cl =
     (if \<not> tls_pool_eligible req then (None, cl)
      else let (r, p) = pool_checkout (pool_key_of (rq_url req)) (cl_tls cl) in (r, cl\<lparr>cl_tls := p\<rparr>))"

definition perform_on_pooled_tls ::
  "'w net \<Rightarrow> transport \<Rightarrow> request \<Rightarrow> 'w client \<Rightarrow> (pooled_error + response) \<times> 'w client" where
  "perform_on_pooled_tls N t req cl =
     (case http1_exchange (n_decoders N) req False t of
        (Inl e, _) \<Rightarrow> (Inl (stale_or_hard e), cl)
      | (Inr resp, t) \<Rightarrow> (Inr resp, finalize_tls t req resp True cl))"

text \<open>The last part of \<open>send_https\<close>: HTTP/1.1, on a pooled connection first.\<close>

definition send_https_http1 :: "'w net \<Rightarrow> request \<Rightarrow> 'w client \<Rightarrow> response result \<times> 'w client" where
  "send_https_http1 N req cl =
     (let direct = (rq_proxy req = None \<or> proxy_bypassed req) in
      case (if direct then pool_checkout_tls req cl else (None, cl)) of
        (None, cl) \<Rightarrow> send_https_fresh N req direct cl
      | (Some t, cl) \<Rightarrow>
          (case perform_on_pooled_tls N t req cl of
             (Inr resp, cl) \<Rightarrow> (Inr resp, cl)
           | (Inl (Stale _), cl) \<Rightarrow> send_https_fresh N req direct cl
           | (Inl (Hard e), cl) \<Rightarrow> (Inl e, cl)))"

subsection \<open>HTTP/2\<close>

definition dial_h2 :: "'w net \<Rightarrow> request \<Rightarrow> 'w client \<Rightarrow> connection result \<times> 'w client" where
  "dial_h2 N req cl =
     bindS (dial_tls N req (active_proxy req) [''h2''] cl) (\<lambda>(t, alpn) cl.
       if alpn \<noteq> Some ''h2'' then (Inl H2NotNegotiated, cl) else (connection_new t, cl))"

definition h2_release :: "pool_key \<Rightarrow> connection \<Rightarrow> 'w client \<Rightarrow> 'w client" where
  "h2_release key c cl = cl\<lparr>cl_h2 := h2_pool_release key c (cl_h2 cl)\<rparr>"

definition h2_checkout :: "bool \<Rightarrow> pool_key \<Rightarrow> 'w client \<Rightarrow> connection option \<times> 'w client" where
  "h2_checkout eligible key cl =
     (if eligible then let (r, p) = h2_pool_checkout key (cl_h2 cl) in (r, cl\<lparr>cl_h2 := p\<rparr>) else (None, cl))"

definition h2_send_fresh :: "'w net \<Rightarrow> request \<Rightarrow> 'w client \<Rightarrow> (response result \<times> 'w client) option" where
  "h2_send_fresh N req cl =
     (case dial_h2 N req cl of
        (Inl e, cl) \<Rightarrow> Some (Inl e, cl)
      | (Inr fresh, cl) \<Rightarrow>
          (case run_one_request (n_decoders N) req fresh of
             None \<Rightarrow> None
           | Some (Inl e, _) \<Rightarrow> Some (Inl e, cl)
           | Some (Inr resp, fresh) \<Rightarrow>
               Some (Inr resp, if tls_pool_eligible req \<and> is_usable fresh
                               then h2_release (pool_key_of (rq_url req)) fresh cl else cl)))"

definition h2_send :: "'w net \<Rightarrow> request \<Rightarrow> 'w client \<Rightarrow> (response result \<times> 'w client) option" where
  "h2_send N req cl =
     (if u_scheme (rq_url req) \<noteq> ''https''
      then Some (Inl (UnsupportedScheme ''http/2 over {} not supported''), cl)
      else case h2_checkout (tls_pool_eligible req) (pool_key_of (rq_url req)) cl of
        (None, cl) \<Rightarrow> h2_send_fresh N req cl
      | (Some c, cl) \<Rightarrow>
          if is_usable c
          then (case run_one_request (n_decoders N) req c of
                  None \<Rightarrow> None
                | Some (Inr resp, c) \<Rightarrow>
                    Some (Inr resp, if is_usable c then h2_release (pool_key_of (rq_url req)) c cl else cl)
                | Some (Inl _, _) \<Rightarrow> h2_send_fresh N req cl)
          else h2_send_fresh N req cl)"

fun h2_send_all :: "'w net \<Rightarrow> request list \<Rightarrow> 'w client \<Rightarrow> (response result list \<times> 'w client) option" where
  "h2_send_all N [] cl = Some ([], cl)"
| "h2_send_all N (req # reqs) cl =
     Option.bind (h2_send N req cl) (\<lambda>(r, cl).
       map_option (\<lambda>(rs, cl). (r # rs, cl)) (h2_send_all N reqs cl))"

text \<open>A batch on one connection, which goes back to the pool only when every request was answered.\<close>

definition run_batch ::
  "'w net \<Rightarrow> request list \<Rightarrow> connection \<Rightarrow> 'w client \<Rightarrow> (response result list \<times> 'w client) option" where
  "run_batch N reqs c cl =
     map_option (\<lambda>(results, c).
       (results, if (\<forall>r\<in>set results. \<not> isl r) \<and> is_usable c
                 then h2_release (pool_key_of (rq_url (hd reqs))) c cl else cl))
       (run_multiplexed (n_decoders N) reqs c)"

text \<open>The cold-dial part of \<open>send_multiplexed\<close>.\<close>

definition send_multiplexed_fresh ::
  "'w net \<Rightarrow> request \<Rightarrow> request list \<Rightarrow> 'w client \<Rightarrow> (response result list \<times> 'w client) option" where
  "send_multiplexed_fresh N first reqs cl =
     (case dial_h2 N first cl of
        (Inr fresh, cl) \<Rightarrow> run_batch N reqs fresh cl
      | (Inl _, cl) \<Rightarrow> h2_send_all N reqs cl)"

definition send_multiplexed :: "'w net \<Rightarrow> request list \<Rightarrow> 'w client \<Rightarrow> (response result list \<times> 'w client) option" where
  "send_multiplexed N reqs cl =
     (case reqs of
        [] \<Rightarrow> Some ([], cl)
      | first # _ \<Rightarrow>
          let same_origin_https = (u_scheme (rq_url first) = ''https'' \<and>
                (\<forall>r\<in>set reqs. u_scheme (rq_url r) = u_scheme (rq_url first) \<and>
                   u_host (rq_url r) = u_host (rq_url first) \<and> u_port (rq_url r) = u_port (rq_url first)));
              all_eligible = (\<forall>r\<in>set reqs. tls_pool_eligible r)
          in if \<not> same_origin_https \<or> \<not> all_eligible then h2_send_all N reqs cl
             else case h2_checkout True (pool_key_of (rq_url first)) cl of
               (Some c, cl) \<Rightarrow> if is_usable c then run_batch N reqs c cl else send_multiplexed_fresh N first reqs cl
             | (None, cl) \<Rightarrow> send_multiplexed_fresh N first reqs cl)"

subsection \<open>One hop\<close>

text \<open>The second half of \<open>send_https\<close>: HTTP/2 and HTTP/1.1 over TCP.\<close>

definition send_https_tcp :: "'w net \<Rightarrow> request \<Rightarrow> 'w client \<Rightarrow> (response result \<times> 'w client) option" where
  "send_https_tcp N req cl =
     (case rq_http_version_pref req of
        Http2Only \<Rightarrow> h2_send N req cl
      | Http11Only \<Rightarrow> Some (send_https_http1 N req cl)
      | Http3Only \<Rightarrow> Some (Inl panicked, cl)
      | _ \<Rightarrow>
          (case h2_send N req cl of
             None \<Rightarrow> None
           | Some (Inl H2NotNegotiated, cl) \<Rightarrow> Some (send_https_http1 N req cl)
           | Some m \<Rightarrow> Some m))"

definition send_https :: "'w net \<Rightarrow> request \<Rightarrow> 'w client \<Rightarrow> (response result \<times> 'w client) option" where
  "send_https N req cl =
     (case rq_http_version_pref req of
        Http3Only \<Rightarrow> Some (on_world (n_h3 N req) cl)
      | Http3 \<Rightarrow>
          (case on_world (n_h3 N req) cl of
             (Inr resp, cl) \<Rightarrow> Some (Inr resp, cl)
           | (Inl e, cl) \<Rightarrow> if h3_should_fall_back e then send_https_tcp N req cl else Some (Inl e, cl))
      | _ \<Rightarrow> send_https_tcp N req cl)"

definition send_once :: "'w net \<Rightarrow> request \<Rightarrow> 'w client \<Rightarrow> (response result \<times> 'w client) option" where
  "send_once N req cl =
     (if u_scheme (rq_url req) = ''http'' then Some (send_plain N req cl)
      else if u_scheme (rq_url req) = ''https'' then send_https N req cl
      else Some (Inl (UnsupportedScheme ''{scheme}''), cl))"

subsection \<open>Where pooled connections come from\<close>

text \<open>
  A plain line of an authority was dialled straight to it, and has since only carried requests for it, each
  answered in full with the connection left open.  A TLS line was moreover verified for its host against the
  default roots.  An HTTP/2 line may have been dialled through a proxy; its TLS session was verified likewise
  and chose \<open>h2\<close>.
\<close>

inductive plain_line :: "'w net \<Rightarrow> pool_key \<Rightarrow> transport \<Rightarrow> bool" for N where
  dialled: "n_connect N (pk_host key) (pk_port key) ct rt w = (Inr t, w') \<Longrightarrow> plain_line N key t"
| used: "plain_line N key t \<Longrightarrow> pool_key_of (rq_url req) = key \<Longrightarrow>
    http1_exchange (n_decoders N) req False t = (Inr resp, t') \<Longrightarrow> response_is_reusable (rq_method req) resp \<Longrightarrow>
    plain_line N key t'"

inductive tls_line :: "'w net \<Rightarrow> pool_key \<Rightarrow> transport \<Rightarrow> bool" for N where
  dialled: "n_connect N (pk_host key) (pk_port key) ct rt w = (Inr t, w') \<Longrightarrow>
    n_tls N \<lparr>to_verify = True, to_roots = None, to_alpn = []\<rparr> (pk_host key) t v = (Inr (t', alpn), v') \<Longrightarrow>
    tls_line N key t'"
| used: "tls_line N key t \<Longrightarrow> pool_key_of (rq_url req) = key \<Longrightarrow>
    http1_exchange (n_decoders N) req False t = (Inr resp, t') \<Longrightarrow> response_is_reusable (rq_method req) resp \<Longrightarrow>
    tls_line N key t'"

inductive h2_line :: "'w net \<Rightarrow> pool_key \<Rightarrow> connection \<Rightarrow> bool" for N where
  dialled: "n_tls N \<lparr>to_verify = True, to_roots = None, to_alpn = [''h2'']\<rparr> (pk_host key) t v = (Inr (t', Some ''h2''), v') \<Longrightarrow>
    connection_new t' = Inr c \<Longrightarrow> h2_line N key c"
| one_request: "h2_line N key c \<Longrightarrow> pool_key_of (rq_url req) = key \<Longrightarrow>
    run_one_request (n_decoders N) req c = Some (Inr resp, c') \<Longrightarrow> is_usable c' \<Longrightarrow> h2_line N key c'"
| batch: "h2_line N key c \<Longrightarrow> (\<And>req. req \<in> set reqs \<Longrightarrow> pool_key_of (rq_url req) = key) \<Longrightarrow>
    run_multiplexed (n_decoders N) reqs c = Some (rs, c') \<Longrightarrow> is_usable c' \<Longrightarrow> h2_line N key c'"

definition pools_ok :: "'w net \<Rightarrow> 'w client \<Rightarrow> bool" where
  "pools_ok N cl \<longleftrightarrow> plain_pool.all_parked (plain_line N) (cl_plain cl) \<and>
     plain_pool.all_parked (tls_line N) (cl_tls cl) \<and> h2_pool.all_parked (h2_line N) (cl_h2 cl)"

lemma pools_ok_world [simp]: "pools_ok N (cl\<lparr>cl_world := w\<rparr>) = pools_ok N cl"
  by (simp add: pools_ok_def)

lemma pools_ok_on_world [simp]: "pools_ok N (snd (on_world f cl)) = pools_ok N cl"
  by (simp add: on_world_def case_prod_unfold Let_def)

lemma pools_ok_tcp [simp]: "pools_ok N (snd (tcp_connect M req cl)) = pools_ok N cl"
  by (simp add: tcp_connect_def split: prod.split)

lemma on_world_result: "on_world f cl = (r, cl') \<Longrightarrow> \<exists>w'. f (cl_world cl) = (r, w') \<and> cl' = cl\<lparr>cl_world := w'\<rparr>"
  by (auto simp: on_world_def split: prod.splits)

lemma client_world [simp]: "cl\<lparr>cl_world := cl_world cl\<rparr> = cl" "cl\<lparr>cl_world := w, cl_world := v\<rparr> = cl\<lparr>cl_world := v\<rparr>"
  by simp_all

lemma tls_opts_world: "\<exists>w. snd (tls_opts_from N req alpn cl) = cl\<lparr>cl_world := w\<rparr>"
proof (cases "rq_ca_bundle req")
  case None
  then show ?thesis by (auto simp: tls_opts_from_def intro: exI [of _ "cl_world cl"])
next
  case (Some path)
  obtain r w where "n_roots N path (cl_world cl) = (r, w)" by fastforce
  with Some show ?thesis by (cases r) (auto simp: tls_opts_from_def on_world_def)
qed

lemma dial_tls_world: "\<exists>w. snd (dial_tls N req proxy alpn cl) = cl\<lparr>cl_world := w\<rparr>"
proof -
  have on: "\<exists>w. snd (on_world f c) = cl\<lparr>cl_world := w\<rparr>" if "\<exists>w. c = cl\<lparr>cl_world := w\<rparr>" for f :: "'a \<Rightarrow> 'b \<times> 'a" and c
    using that by (auto simp: on_world_def split: prod.split)
  have c: "\<exists>w. cl = cl\<lparr>cl_world := w\<rparr>" by (rule exI [of _ "cl_world cl"]) simp
  have opts: "\<exists>w. snd (tls_opts_from N req alpn c) = cl\<lparr>cl_world := w\<rparr>" if "\<exists>w. c = cl\<lparr>cl_world := w\<rparr>" for c
    using that tls_opts_world [of N req alpn c] by auto
  show ?thesis unfolding dial_tls_def
    by (intro bindS_state [where P = "\<lambda>c. \<exists>w. c = cl\<lparr>cl_world := w\<rparr>"] on opts)
      (simp_all add: tcp_connect_def on [OF c] split: prod.split)
qed

text \<open>What a dial with default verification stands for.\<close>

lemma dial_tls_trusted:
  assumes "dial_tls N req proxy alpn cl = (Inr (t, a), cl')" and "tls_pool_eligible req"
  obtains t0 v v' where "n_tls N \<lparr>to_verify = True, to_roots = None, to_alpn = alpn\<rparr> (u_host (rq_url req)) t0 v = (Inr (t, a), v')"
    and "active_proxy req = None \<and> proxy = None \<longrightarrow>
      (\<exists>ct rt w w'. n_connect N (u_host (rq_url req)) (u_port (rq_url req)) ct rt w = (Inr t0, w'))"
proof -
  from assms(1) obtain t1 cl1 t0 opts cl2 where
    c: "tcp_connect N req cl = (Inr t1, cl1)" and t: "tunnel_if proxy (rq_url req) t1 = Inr t0"
    and o: "tls_opts_from N req alpn cl1 = (Inr opts, cl2)"
    and n: "on_world (n_tls N opts (u_host (rq_url req)) t0) cl2 = (Inr (t, a), cl')"
    by (auto simp: dial_tls_def bindS_eq_Inr)
  from o assms(2) have opts: "opts = \<lparr>to_verify = True, to_roots = None, to_alpn = alpn\<rparr>"
    by (auto simp: tls_opts_from_def tls_pool_eligible_def)
  from on_world_result [OF n] obtain v' where
    tls: "n_tls N opts (u_host (rq_url req)) t0 (cl_world cl2) = (Inr (t, a), v')" by blast
  have conn: "active_proxy req = None \<and> proxy = None \<longrightarrow>
    (\<exists>ct rt w w'. n_connect N (u_host (rq_url req)) (u_port (rq_url req)) ct rt w = (Inr t0, w'))"
  proof
    assume that: "active_proxy req = None \<and> proxy = None"
    from that t have "t1 = t0" by (simp add: tunnel_if_def)
    with c that on_world_result
    show "\<exists>ct rt w w'. n_connect N (u_host (rq_url req)) (u_port (rq_url req)) ct rt w = (Inr t0, w')"
      by (fastforce simp: tcp_connect_def)
  qed
  from that [OF tls [unfolded opts] conn] show thesis .
qed

lemma via_proxy_direct: "rq_proxy req = None \<or> proxy_bypassed req \<Longrightarrow> \<not> via_plain_http_proxy req \<and> active_proxy req = None"
  by (auto simp: via_plain_http_proxy_def active_proxy_def split: option.splits)

lemma pools_ok_dial [simp]: "pools_ok N (snd (dial_tls M req proxy alpn cl)) = pools_ok N cl"
proof -
  from dial_tls_world [of M req proxy alpn cl] obtain w where "snd (dial_tls M req proxy alpn cl) = cl\<lparr>cl_world := w\<rparr>" ..
  then show ?thesis by simp
qed

lemma pools_ok_release_plain:
  "pools_ok N cl \<Longrightarrow> (may_pool \<Longrightarrow> response_is_reusable (rq_method req) resp \<Longrightarrow> plain_line N (pool_key_of (rq_url req)) t) \<Longrightarrow>
     pools_ok N (finalize_plain t req resp may_pool cl)"
  by (simp add: pools_ok_def finalize_plain_def plain_pool.all_parked_release)

lemma pools_ok_release_tls:
  "pools_ok N cl \<Longrightarrow> (may_pool \<Longrightarrow> tls_pool_eligible req \<Longrightarrow> response_is_reusable (rq_method req) resp \<Longrightarrow>
     tls_line N (pool_key_of (rq_url req)) t) \<Longrightarrow> pools_ok N (finalize_tls t req resp may_pool cl)"
  by (simp add: pools_ok_def finalize_tls_def plain_pool.all_parked_release)

lemma pools_ok_release_h2: "pools_ok N cl \<Longrightarrow> h2_line N key c \<Longrightarrow> pools_ok N (h2_release key c cl)"
  by (simp add: pools_ok_def h2_release_def h2_pool.all_parked_release)

lemma pool_key_fields [simp]:
  "pk_host (pool_key_of u) = u_host u" "pk_port (pool_key_of u) = u_port u" "pk_scheme (pool_key_of u) = u_scheme u"
  by (simp_all add: pool_key_of_def)

subsection \<open>Every hop keeps the pools in order\<close>

lemma pools_ok_plain_fresh:
  assumes "pools_ok N cl" and "may_pool \<longleftrightarrow> rq_proxy req = None \<or> proxy_bypassed req"
  shows "pools_ok N (snd (send_plain_fresh N req may_pool cl))"
  unfolding send_plain_fresh_def
proof (rule bindS_state)
  show "pools_ok N (snd (tcp_connect N req cl))" using assms(1) by simp
next
  fix t cl1
  assume c: "tcp_connect N req cl = (Inr t, cl1)" and ok: "pools_ok N cl1"
  show "pools_ok N (snd (case http1_exchange (n_decoders N) req (via_plain_http_proxy req) t of
         (Inl e, _) \<Rightarrow> (Inl e, cl1) | (Inr resp, t) \<Rightarrow> (Inr resp, finalize_plain t req resp may_pool cl1)))"
  proof (cases "http1_exchange (n_decoders N) req (via_plain_http_proxy req) t")
    case (Pair r t1)
    show ?thesis
    proof (cases r)
      case (Inr resp)
      have "plain_line N (pool_key_of (rq_url req)) t1"
        if "may_pool" "response_is_reusable (rq_method req) resp"
      proof -
        from via_proxy_direct that(1) assms(2) have p: "\<not> via_plain_http_proxy req" "active_proxy req = None" by blast+
        from c p(2) on_world_result have "plain_line N (pool_key_of (rq_url req)) t"
          by (fastforce simp: tcp_connect_def intro: plain_line.dialled)
        with Pair Inr p(1) that(2) show ?thesis by (auto intro: plain_line.used)
      qed
      with Pair Inr ok show ?thesis by (simp add: pools_ok_release_plain)
    qed (use Pair ok in simp)
  qed
qed

lemma pools_ok_plain:
  assumes "pools_ok N cl"
  shows "pools_ok N (snd (send_plain N req cl))"
proof -
  let ?key = "pool_key_of (rq_url req)"
  let ?direct = "rq_proxy req = None \<or> proxy_bypassed req"
  let ?out = "if ?direct then pool_checkout ?key (cl_plain cl) else (None, cl_plain cl)"
  have ok1: "pools_ok N (cl\<lparr>cl_plain := snd ?out\<rparr>)" and line: "\<And>t. fst ?out = Some t \<Longrightarrow> plain_line N ?key t"
    using assms plain_pool.all_parked_checkout [of "plain_line N" "cl_plain cl" ?key] by (auto simp: pools_ok_def split: if_splits)
  have direct: "fst ?out \<noteq> None \<Longrightarrow> ?direct" by (auto split: if_splits)
  have pooled: "pools_ok N (snd (perform_on_pooled_plain N t req (cl\<lparr>cl_plain := snd ?out\<rparr>)))"
    if "fst ?out = Some t" for t
  proof -
    have p: "\<not> via_plain_http_proxy req" using via_proxy_direct direct that by blast
    obtain r t1 where e: "http1_exchange (n_decoders N) req False t = (r, t1)" by fastforce
    have "plain_line N ?key t1" if "r = Inr resp" "response_is_reusable (rq_method req) resp" for resp
      using plain_line.used [OF line [OF \<open>fst ?out = Some t\<close>] refl] e that by simp
    then show ?thesis using e p ok1
      by (cases r) (simp_all add: perform_on_pooled_plain_def pools_ok_release_plain)
  qed
  obtain o1 p1 where o: "?out = (o1, p1)" by fastforce
  show ?thesis
  proof (cases o1)
    case None
    with o ok1 assms show ?thesis
      by (auto simp: send_plain_def Let_def intro!: pools_ok_plain_fresh simp del: if_split)
  next
    case (Some t)
    obtain r cl2 where q: "perform_on_pooled_plain N t req (cl\<lparr>cl_plain := p1\<rparr>) = (r, cl2)" by fastforce
    have "pools_ok N cl2" using pooled [of t] o Some q by simp
    then have "pools_ok N (snd (send_plain_fresh N req ?direct cl2))" by (intro pools_ok_plain_fresh) simp_all
    with \<open>pools_ok N cl2\<close> o Some q assms show ?thesis
      by (cases r) (auto simp: send_plain_def Let_def simp del: if_split split: pooled_error.split)
  qed
qed

lemma pools_ok_tls_fresh:
  assumes "pools_ok N cl" and "may_pool \<longleftrightarrow> rq_proxy req = None \<or> proxy_bypassed req"
  shows "pools_ok N (snd (send_https_fresh N req may_pool cl))"
  unfolding send_https_fresh_def
proof (rule bindS_state, simp add: assms(1), unfold split_paired_all, unfold prod.case)
  fix t a cl1
  let ?p = "if u_scheme (rq_url req) = ''https'' then active_proxy req else None"
  assume c: "dial_tls N req ?p [] cl = (Inr (t, a), cl1)" and ok: "pools_ok N cl1"
  obtain r t1 where e: "http1_exchange (n_decoders N) req False t = (r, t1)" by fastforce
  have "tls_line N (pool_key_of (rq_url req)) t1"
    if r: "r = Inr resp" "may_pool" "tls_pool_eligible req" "response_is_reusable (rq_method req) resp" for resp
  proof -
    from via_proxy_direct r(2) assms(2) have p: "active_proxy req = None" by blast
    from dial_tls_trusted [OF c r(3)] obtain t0 v v' where
      tls: "n_tls N \<lparr>to_verify = True, to_roots = None, to_alpn = []\<rparr> (u_host (rq_url req)) t0 v = (Inr (t, a), v')"
      and conn: "active_proxy req = None \<and> ?p = None \<longrightarrow>
        (\<exists>ct rt w w'. n_connect N (u_host (rq_url req)) (u_port (rq_url req)) ct rt w = (Inr t0, w'))" .
    from conn p obtain ct rt w w' where
      "n_connect N (u_host (rq_url req)) (u_port (rq_url req)) ct rt w = (Inr t0, w')" by (auto split: if_splits)
    with tls have "tls_line N (pool_key_of (rq_url req)) t" by (intro tls_line.dialled) simp_all
    with e r show ?thesis by (auto intro: tls_line.used)
  qed
  with e ok show "pools_ok N (snd (case http1_exchange (n_decoders N) req False t of
      (Inl e, _) \<Rightarrow> (Inl e, cl1) | (Inr resp, t) \<Rightarrow> (Inr resp, finalize_tls t req resp may_pool cl1)))"
    by (cases r) (simp_all add: pools_ok_release_tls)
qed

lemma pools_ok_https_http1:
  assumes "pools_ok N cl"
  shows "pools_ok N (snd (send_https_http1 N req cl))"
proof -
  let ?key = "pool_key_of (rq_url req)"
  let ?direct = "rq_proxy req = None \<or> proxy_bypassed req"
  let ?out = "if ?direct then pool_checkout_tls req cl else (None, cl)"
  have ok1: "pools_ok N (snd ?out)" and line: "\<And>t. fst ?out = Some t \<Longrightarrow> tls_line N ?key t"
    using assms plain_pool.all_parked_checkout [of "tls_line N" "cl_tls cl" ?key]
    by (auto simp: pools_ok_def pool_checkout_tls_def case_prod_unfold Let_def split: if_splits)
  have direct: "fst ?out \<noteq> None \<Longrightarrow> ?direct" by (auto split: if_splits)
  have pooled: "pools_ok N (snd (perform_on_pooled_tls N t req (snd ?out)))" if t: "fst ?out = Some t" for t
  proof -
    obtain r t1 where e: "http1_exchange (n_decoders N) req False t = (r, t1)" by fastforce
    have "tls_line N ?key t1" if "r = Inr resp" "response_is_reusable (rq_method req) resp" for resp
      using tls_line.used [OF line [OF t] refl] e that by simp
    then show ?thesis using e ok1
      by (cases r) (simp_all add: perform_on_pooled_tls_def pools_ok_release_tls)
  qed
  obtain o1 cl1 where o: "?out = (o1, cl1)" by fastforce
  show ?thesis
  proof (cases o1)
    case None
    with o ok1 assms show ?thesis
      by (auto simp: send_https_http1_def Let_def intro!: pools_ok_tls_fresh simp del: if_split)
  next
    case (Some t)
    obtain r cl2 where q: "perform_on_pooled_tls N t req cl1 = (r, cl2)" by fastforce
    have "pools_ok N cl2" using pooled [of t] o Some q by simp
    then have "pools_ok N (snd (send_https_fresh N req ?direct cl2))" by (intro pools_ok_tls_fresh) simp_all
    with \<open>pools_ok N cl2\<close> o Some q assms show ?thesis
      by (cases r) (auto simp: send_https_http1_def Let_def simp del: if_split split: pooled_error.split)
  qed
qed

subsection \<open>HTTP/2 hops return\<close>

lemma conn_ok_line: "h2_line N key c \<Longrightarrow> conn_ok c"
proof (induction rule: h2_line.induct)
  case (one_request key c req resp c')
  then show ?case using run_one_request_returns [of c "n_decoders N" req] by auto
next
  case (batch key c reqs rs c')
  then show ?case using run_multiplexed_returns [of c "n_decoders N" reqs] by auto
qed (rule conn_ok_new)

lemma dial_h2_line:
  assumes "dial_h2 N req cl = (Inr c, cl')"
  shows "conn_ok c" and "tls_pool_eligible req \<Longrightarrow> h2_line N (pool_key_of (rq_url req)) c"
proof -
  from assms obtain t where d: "dial_tls N req (active_proxy req) [''h2''] cl = (Inr (t, Some ''h2''), cl')"
    "connection_new t = Inr c"
    by (auto simp: dial_h2_def bindS_eq_Inr split: if_splits)
  from conn_ok_new [OF d(2)] show "conn_ok c" .
  assume "tls_pool_eligible req"
  from dial_tls_trusted [OF d(1) this] obtain t0 v v' where
    "n_tls N \<lparr>to_verify = True, to_roots = None, to_alpn = [''h2'']\<rparr> (u_host (rq_url req)) t0 v = (Inr (t, Some ''h2''), v')" .
  with d(2) show "h2_line N (pool_key_of (rq_url req)) c" by (intro h2_line.dialled) simp_all
qed

lemma pools_ok_dial_h2: "pools_ok N cl \<Longrightarrow> pools_ok N (snd (dial_h2 N req cl))"
  unfolding dial_h2_def by (rule bindS_state) (auto split: if_split)

lemma h2_send_fresh_returns:
  assumes "pools_ok N cl"
  shows "\<exists>r cl'. h2_send_fresh N req cl = Some (r, cl') \<and> pools_ok N cl'"
proof -
  obtain r cl1 where d: "dial_h2 N req cl = (r, cl1)" by fastforce
  have ok: "pools_ok N cl1" using pools_ok_dial_h2 [OF assms, of req] d by simp
  show ?thesis
  proof (cases r)
    case (Inl e)
    with d ok show ?thesis by (simp add: h2_send_fresh_def)
  next
    case (Inr c)
    note line = dial_h2_line [OF d [unfolded Inr]]
    from run_one_request_returns [OF line(1)] obtain r2 c2 where
      q: "run_one_request (n_decoders N) req c = Some (r2, c2)" by blast
    have "pools_ok N (h2_release (pool_key_of (rq_url req)) c2 cl1)"
      if "tls_pool_eligible req" "is_usable c2" "r2 = Inr resp" for resp
      using that line(2) q ok by (blast intro: pools_ok_release_h2 h2_line.one_request)
    with d Inr q ok show ?thesis by (cases r2) (auto simp: h2_send_fresh_def)
  qed
qed

lemma pools_ok_h2_checkout:
  assumes "pools_ok N cl"
  shows "pools_ok N (snd (h2_checkout el key cl))" and "fst (h2_checkout el key cl) = Some c \<Longrightarrow> h2_line N key c"
  using assms h2_pool.all_parked_checkout [of "h2_line N" "cl_h2 cl" key]
  by (auto simp: pools_ok_def h2_checkout_def case_prod_unfold Let_def split: if_splits)

lemma h2_send_returns:
  assumes "pools_ok N cl"
  shows "\<exists>r cl'. h2_send N req cl = Some (r, cl') \<and> pools_ok N cl'"
proof -
  let ?key = "pool_key_of (rq_url req)"
  obtain o1 cl1 where o: "h2_checkout (tls_pool_eligible req) ?key cl = (o1, cl1)" by fastforce
  have ok: "pools_ok N cl1" and line: "\<And>c. o1 = Some c \<Longrightarrow> h2_line N ?key c"
    using pools_ok_h2_checkout [OF assms, of "tls_pool_eligible req" ?key] o by simp_all
  note fresh = h2_send_fresh_returns [OF ok, of req]
  show ?thesis
  proof (cases "u_scheme (rq_url req) = ''https'' \<and> (\<exists>c. o1 = Some c \<and> is_usable c)")
    case True
    then obtain c where c: "o1 = Some c" "is_usable c" by blast
    from run_one_request_returns [OF conn_ok_line [OF line [OF c(1)]]] obtain r2 c2 where
      q: "run_one_request (n_decoders N) req c = Some (r2, c2)" by blast
    have "pools_ok N (h2_release ?key c2 cl1)" if "is_usable c2" "r2 = Inr resp" for resp
      using that line [OF c(1)] q ok by (blast intro: pools_ok_release_h2 h2_line.one_request)
    with True c q ok fresh o show ?thesis by (cases r2) (auto simp: h2_send_def)
  next
    case False
    with assms ok fresh o show ?thesis by (auto simp: h2_send_def split: option.split)
  qed
qed

lemma h2_send_all_returns:
  "pools_ok N cl \<Longrightarrow> \<exists>rs cl'. h2_send_all N reqs cl = Some (rs, cl') \<and> length rs = length reqs \<and> pools_ok N cl'"
proof (induction reqs arbitrary: cl)
  case (Cons req reqs)
  from h2_send_returns [OF Cons.prems, of req] obtain r cl1 where
    r: "h2_send N req cl = Some (r, cl1)" "pools_ok N cl1" by blast
  from Cons.IH [OF r(2)] r(1) show ?case by auto
qed simp

lemma run_batch_returns:
  assumes "pools_ok N cl" and "h2_line N (pool_key_of (rq_url (hd reqs))) c"
    and "\<And>req. req \<in> set reqs \<Longrightarrow> pool_key_of (rq_url req) = pool_key_of (rq_url (hd reqs))"
  shows "\<exists>rs cl'. run_batch N reqs c cl = Some (rs, cl') \<and> length rs = length reqs \<and> pools_ok N cl'"
proof -
  from run_multiplexed_returns [OF conn_ok_line [OF assms(2)]] obtain rs c1 where
    q: "run_multiplexed (n_decoders N) reqs c = Some (rs, c1)" "length rs = length reqs" by blast
  have "pools_ok N (h2_release (pool_key_of (rq_url (hd reqs))) c1 cl)" if "is_usable c1"
    using h2_line.batch [OF assms(2,3) q(1) that] assms(1) by (intro pools_ok_release_h2)
  with q assms(1) show ?thesis by (auto simp: run_batch_def)
qed

lemma send_multiplexed_fresh_returns:
  assumes "pools_ok N cl" and "reqs \<noteq> []" and "\<And>req. req \<in> set reqs \<Longrightarrow> pool_key_of (rq_url req) = pool_key_of (rq_url (hd reqs))"
    and "tls_pool_eligible (hd reqs)"
  shows "\<exists>rs cl'. send_multiplexed_fresh N (hd reqs) reqs cl = Some (rs, cl') \<and> length rs = length reqs \<and> pools_ok N cl'"
proof -
  obtain r cl1 where d: "dial_h2 N (hd reqs) cl = (r, cl1)" by fastforce
  have ok: "pools_ok N cl1" using pools_ok_dial_h2 [OF assms(1), of "hd reqs"] d by simp
  show ?thesis
  proof (cases r)
    case (Inl e)
    with d h2_send_all_returns [OF ok, of reqs] show ?thesis by (simp add: send_multiplexed_fresh_def)
  next
    case (Inr c)
    from run_batch_returns [OF ok dial_h2_line(2) [OF d [unfolded Inr] assms(4)] assms(3)] d Inr
    show ?thesis by (simp add: send_multiplexed_fresh_def)
  qed
qed

lemma send_multiplexed_returns:
  assumes "pools_ok N cl"
  shows "\<exists>rs cl'. send_multiplexed N reqs cl = Some (rs, cl') \<and> length rs = length reqs \<and> pools_ok N cl'"
proof (cases reqs)
  case Nil
  with assms show ?thesis by (simp add: send_multiplexed_def)
next
  case (Cons first rest)
  let ?key = "pool_key_of (rq_url first)"
  let ?same = "u_scheme (rq_url first) = ''https'' \<and>
    (\<forall>r\<in>set reqs. u_scheme (rq_url r) = u_scheme (rq_url first) \<and>
       u_host (rq_url r) = u_host (rq_url first) \<and> u_port (rq_url r) = u_port (rq_url first))"
  let ?el = "\<forall>r\<in>set reqs. tls_pool_eligible r"
  obtain o1 cl1 where o: "h2_checkout True ?key cl = (o1, cl1)" by fastforce
  have ok: "pools_ok N cl1" and line: "\<And>c. o1 = Some c \<Longrightarrow> h2_line N ?key c"
    using pools_ok_h2_checkout [OF assms, of True ?key] o by simp_all
  show ?thesis
  proof (cases "?same \<and> ?el")
    case False
    then have "send_multiplexed N reqs cl = h2_send_all N reqs cl"
      unfolding send_multiplexed_def Let_def Cons list.case by (subst if_P) blast+
    with h2_send_all_returns [OF assms, of reqs] show ?thesis by simp
  next
    case True
    have hd: "hd reqs = first" "reqs \<noteq> []" "tls_pool_eligible first" using True Cons by simp_all
    have keys: "pool_key_of (rq_url r) = ?key" if "r \<in> set reqs" for r
      using True that by (simp add: pool_key_of_def)
    have e: "send_multiplexed N reqs cl = (case (o1, cl1) of
        (Some c, cl) \<Rightarrow> if is_usable c then run_batch N reqs c cl else send_multiplexed_fresh N first reqs cl
      | (None, cl) \<Rightarrow> send_multiplexed_fresh N first reqs cl)"
      using True unfolding send_multiplexed_def Let_def Cons list.case o [symmetric] by (subst if_not_P) blast+
    from send_multiplexed_fresh_returns [OF ok] hd keys
      run_batch_returns [OF ok, of reqs] line
    show ?thesis unfolding e by (cases o1) auto
  qed
qed

lemma pools_ok_https_tcp:
  assumes "pools_ok N cl"
  shows "\<exists>r cl'. send_https_tcp N req cl = Some (r, cl') \<and> pools_ok N cl'"
proof -
  obtain r cl1 where h: "h2_send N req cl = Some (r, cl1)" "pools_ok N cl1" using h2_send_returns [OF assms] by blast
  obtain r2 cl2 where b: "send_https_http1 N req cl1 = (r2, cl2)" "pools_ok N cl2"
    using pools_ok_https_http1 [OF h(2), of req] by (cases "send_https_http1 N req cl1") simp
  obtain r3 cl3 where c: "send_https_http1 N req cl = (r3, cl3)" "pools_ok N cl3"
    using pools_ok_https_http1 [OF assms, of req] by (cases "send_https_http1 N req cl") simp
  show ?thesis
  proof (cases "r = Inl H2NotNegotiated")
    case True
    with h b c assms show ?thesis
      by (cases "rq_http_version_pref req") (simp_all add: send_https_tcp_def)
  next
    case False
    then have "(case Some (r, cl1) of None \<Rightarrow> None | Some (Inl H2NotNegotiated, cl) \<Rightarrow> Some (send_https_http1 N req cl)
      | Some m \<Rightarrow> Some m) = Some (r, cl1)" by (simp split: sum.split error.split)
    with h b c assms show ?thesis
      by (cases "rq_http_version_pref req") (simp_all add: send_https_tcp_def)
  qed
qed

lemma pools_ok_https:
  assumes "pools_ok N cl"
  shows "\<exists>r cl'. send_https N req cl = Some (r, cl') \<and> pools_ok N cl'"
proof -
  obtain r cl1 where h: "on_world (n_h3 N req) cl = (r, cl1)" "pools_ok N cl1"
    using assms pools_ok_on_world [of N "n_h3 N req" cl] by (cases "on_world (n_h3 N req) cl") simp
  with pools_ok_https_tcp [OF assms, of req] pools_ok_https_tcp [OF h(2), of req] show ?thesis
    by (cases "rq_http_version_pref req"; cases r) (simp_all add: send_https_def)
qed

lemma send_once_returns:
  assumes "pools_ok N cl"
  shows "\<exists>r cl'. send_once N req cl = Some (r, cl') \<and> pools_ok N cl'"
proof -
  obtain r cl1 where "send_plain N req cl = (r, cl1)" "pools_ok N cl1"
    using pools_ok_plain [OF assms, of req] by (cases "send_plain N req cl") simp
  with pools_ok_https [OF assms, of req] assms show ?thesis by (simp add: send_once_def)
qed

lemma pools_ok_new: "pools_ok N (client_new w)"
  by (simp add: pools_ok_def client_new_def plain_pool.all_parked_def h2_pool.all_parked_def pool_new_ok as_pool_new)

text \<open>Every history of hops and batches, with the world changing in between.\<close>

inductive client_run :: "'w net \<Rightarrow> 'w client \<Rightarrow> bool" for N where
  start: "client_run N (client_new w)"
| elsewhere: "client_run N cl \<Longrightarrow> client_run N (cl\<lparr>cl_world := w\<rparr>)"
| hop: "client_run N cl \<Longrightarrow> send_once N req cl = Some (r, cl') \<Longrightarrow> client_run N cl'"
| multiplexed: "client_run N cl \<Longrightarrow> send_multiplexed N reqs cl = Some (rs, cl') \<Longrightarrow> client_run N cl'"

lemma client_run_pools: "client_run N cl \<Longrightarrow> pools_ok N cl"
proof (induction rule: client_run.induct)
  case (hop cl req r cl')
  then show ?case using send_once_returns [of N cl req] by auto
next
  case (multiplexed cl reqs rs cl')
  then show ?case using send_multiplexed_returns [of N cl reqs] by auto
qed (simp_all add: pools_ok_new)

subsection \<open>Requests without default verification\<close>

definition with_pools ::
  "transport pool \<Rightarrow> transport pool \<Rightarrow> connection h2_pool \<Rightarrow> 'w client \<Rightarrow> 'w client" where
  "with_pools p q h cl = cl\<lparr>cl_plain := p, cl_tls := q, cl_h2 := h\<rparr>"

lemma bindS_map_state:
  "(\<And>x s. f x (W s) = map_prod id W (f x s)) \<Longrightarrow> bindS (map_prod id W m) f = map_prod id W (bindS m f)"
  by (cases m; cases "fst m") auto

lemma on_world_pools: "on_world f (with_pools p q h cl) = map_prod id (with_pools p q h) (on_world f cl)"
  by (simp add: on_world_def with_pools_def split: prod.split)

lemma tcp_connect_pools: "tcp_connect N req (with_pools p q h cl) = map_prod id (with_pools p q h) (tcp_connect N req cl)"
  by (simp add: tcp_connect_def on_world_pools split: prod.split)

lemma tls_opts_pools:
  "tls_opts_from N req alpn (with_pools p q h cl) = map_prod id (with_pools p q h) (tls_opts_from N req alpn cl)"
  by (cases "rq_ca_bundle req") (simp_all add: tls_opts_from_def on_world_pools bindS_map_state)

lemma dial_tls_pools:
  "dial_tls N req proxy alpn (with_pools p q h cl) = map_prod id (with_pools p q h) (dial_tls N req proxy alpn cl)"
proof -
  have t: "bindS (r, with_pools p q h s) f = bindS (map_prod id (with_pools p q h) (r, s)) f" for r s f by simp
  show ?thesis unfolding dial_tls_def
    by (simp only: tcp_connect_pools t) (intro bindS_map_state, simp only: t, intro bindS_map_state,
      simp only: tls_opts_pools, intro bindS_map_state on_world_pools)
qed

lemma untrusted_https_fresh_pools:
  assumes "\<not> tls_pool_eligible req"
  shows "send_https_fresh N req may_pool (with_pools p q h cl)
    = map_prod id (with_pools p q h) (send_https_fresh N req may_pool cl)"
  unfolding send_https_fresh_def dial_tls_pools
  by (intro bindS_map_state) (auto simp: finalize_tls_def assms split: prod.split sum.split)

lemma untrusted_https_http1_pools:
  assumes "\<not> tls_pool_eligible req"
  shows "send_https_http1 N req (with_pools p q h cl) = map_prod id (with_pools p q h) (send_https_http1 N req cl)"
proof -
  have "(if d then pool_checkout_tls req c else (None, c)) = (None, c)" for d and c :: "'a client"
    using assms by (simp add: pool_checkout_tls_def)
  then show ?thesis by (simp add: send_https_http1_def Let_def untrusted_https_fresh_pools [OF assms])
qed

lemma untrusted_h2_pools:
  assumes "\<not> tls_pool_eligible req"
  shows "h2_send N req (with_pools p q h cl) = map_option (map_prod id (with_pools p q h)) (h2_send N req cl)"
proof -
  have "dial_h2 N req (with_pools p q h cl) = map_prod id (with_pools p q h) (dial_h2 N req cl)"
    unfolding dial_h2_def dial_tls_pools by (intro bindS_map_state) auto
  then have "h2_send_fresh N req (with_pools p q h cl)
      = map_option (map_prod id (with_pools p q h)) (h2_send_fresh N req cl)"
    by (auto simp: h2_send_fresh_def assms split: prod.split sum.split option.split)
  then show ?thesis by (simp add: h2_send_def h2_checkout_def assms)
qed

lemma untrusted_https_tcp_pools:
  assumes "\<not> tls_pool_eligible req"
  shows "send_https_tcp N req (with_pools p q h cl)
    = map_option (map_prod id (with_pools p q h)) (send_https_tcp N req cl)"
  using untrusted_h2_pools [OF assms, of N p q h cl]
  by (cases "rq_http_version_pref req")
    (auto simp: send_https_tcp_def untrusted_https_http1_pools [OF assms] split: option.split sum.split error.split)

subsection \<open>A batch without HTTP/2\<close>

text \<open>
  When the server does not choose \<open>h2\<close>, the requests of a batch fall back to \<open>send\<close> of \<open>http2.rs\<close>, which has no
  fallback to HTTP/1.1 of its own: every one of them fails, although the comments promise the usual negotiation.
\<close>

definition no_h2 :: "'w net \<Rightarrow> bool" where
  "no_h2 N \<longleftrightarrow> (\<forall>host port ct rt w. \<exists>t w'. n_connect N host port ct rt w = (Inr t, w')) \<and>
     (\<forall>opts host t w. \<exists>t' w'. n_tls N opts host t w = (Inr (t', None), w'))"

definition direct_https :: "request \<Rightarrow> bool" where
  "direct_https req \<longleftrightarrow> u_scheme (rq_url req) = ''https'' \<and> rq_proxy req = None \<and> tls_pool_eligible req"

lemma dial_h2_no_h2:
  assumes "no_h2 N" and "direct_https req"
  shows "\<exists>w. dial_h2 N req cl = (Inl H2NotNegotiated, cl\<lparr>cl_world := w\<rparr>)"
proof -
  have p: "active_proxy req = None" "rq_ca_bundle req = None"
    using assms(2) by (simp_all add: direct_https_def active_proxy_def tls_pool_eligible_def)
  obtain t w where c: "n_connect N (u_host (rq_url req)) (u_port (rq_url req)) (rq_connect_timeout req)
      (rq_read_timeout req) (cl_world cl) = (Inr t, w)" using assms(1) unfolding no_h2_def by blast
  obtain t' w' where n: "n_tls N \<lparr>to_verify = rq_verify_tls req, to_roots = None, to_alpn = [''h2'']\<rparr>
      (u_host (rq_url req)) t w = (Inr (t', None), w')" using assms(1) unfolding no_h2_def by blast
  from p c n have "dial_h2 N req cl = (Inl H2NotNegotiated, cl\<lparr>cl_world := w'\<rparr>)"
    by (simp add: dial_h2_def dial_tls_def tcp_connect_def on_world_def tunnel_if_def tls_opts_from_def)
  then show ?thesis ..
qed

lemma h2_send_all_no_h2:
  assumes "no_h2 N" and "\<forall>req\<in>set reqs. direct_https req"
  shows "h2_send_all N reqs (cl\<lparr>cl_h2 := h2_pool_new\<rparr>) =
    map_option (\<lambda>cl. (replicate (length reqs) (Inl H2NotNegotiated), cl)) (map_option snd (h2_send_all N reqs (cl\<lparr>cl_h2 := h2_pool_new\<rparr>)))"
  using assms(2)
proof (induction reqs arbitrary: cl)
  case (Cons req reqs)
  have swap: "cl\<lparr>cl_h2 := h2_pool_new, cl_world := w\<rparr> = cl\<lparr>cl_world := w, cl_h2 := h2_pool_new\<rparr>" for w by simp
  from dial_h2_no_h2 [OF assms(1), of req "cl\<lparr>cl_h2 := h2_pool_new\<rparr>"] Cons.prems obtain w where
    d: "dial_h2 N req (cl\<lparr>cl_h2 := h2_pool_new\<rparr>) = (Inl H2NotNegotiated, cl\<lparr>cl_world := w, cl_h2 := h2_pool_new\<rparr>)"
    unfolding swap by auto
  have "h2_send N req (cl\<lparr>cl_h2 := h2_pool_new\<rparr>) = Some (Inl H2NotNegotiated, cl\<lparr>cl_world := w, cl_h2 := h2_pool_new\<rparr>)"
    using Cons.prems d
    by (simp add: h2_send_def direct_https_def h2_checkout_def h2_pool_checkout_def h2_pool_new_def h2_send_fresh_def)
  with Cons.IH [of "cl\<lparr>cl_world := w\<rparr>"] Cons.prems show ?case
    by (cases "h2_send_all N reqs (cl\<lparr>cl_world := w, cl_h2 := h2_pool_new\<rparr>)") auto
qed simp

lemma batch_without_h2_fails:
  assumes "no_h2 N" and "\<forall>req\<in>set reqs. direct_https req"
    and "send_multiplexed N reqs (client_new w) = Some (rs, cl')"
  shows "rs = replicate (length reqs) (Inl H2NotNegotiated)"
proof -
  have all: "rs = replicate (length reqs) (Inl H2NotNegotiated)"
    if "h2_send_all N reqs (cl\<lparr>cl_h2 := h2_pool_new\<rparr>) = Some (rs, cl')" for cl
    using h2_send_all_no_h2 [OF assms(1,2), of cl] that by auto
  show ?thesis
  proof (cases reqs)
    case Nil
    with assms(3) show ?thesis by (simp add: send_multiplexed_def)
  next
    case (Cons first rest)
    have n: "client_new w = (client_new w)\<lparr>cl_h2 := h2_pool_new\<rparr>" by (simp add: client_new_def)
    have c: "h2_checkout True k (client_new w) = (None, client_new w)" for k
      by (simp add: client_new_def h2_checkout_def h2_pool_checkout_def h2_pool_new_def)
    obtain v where d: "dial_h2 N first (client_new w) = (Inl H2NotNegotiated, (client_new w)\<lparr>cl_world := v\<rparr>)"
      using dial_h2_no_h2 [OF assms(1), of first] assms(2) Cons by auto
    have "send_multiplexed_fresh N first reqs (client_new w)
        = h2_send_all N reqs ((client_new w)\<lparr>cl_world := v, cl_h2 := h2_pool_new\<rparr>)"
      by (simp add: send_multiplexed_fresh_def d) (simp add: client_new_def)
    then have "send_multiplexed N reqs (client_new w) = h2_send_all N reqs ((client_new w)\<lparr>cl_world := v, cl_h2 := h2_pool_new\<rparr>)
        \<or> send_multiplexed N reqs (client_new w) = h2_send_all N reqs ((client_new w)\<lparr>cl_h2 := h2_pool_new\<rparr>)"
      using n Cons c by (simp add: send_multiplexed_def Let_def)
    with assms(3) all show ?thesis by auto
  qed
qed

subsection \<open>Properties\<close>


text \<open>C19: An HTTPS request without certificate verification or with its own CA bundle is answered as if there were no
  pools, and leaves them as they are: it neither takes a pooled connection nor parks one.\<close>

theorem untrusted_requests_bypass_pools:
  assumes "u_scheme (rq_url req) = ''https''" and "\<not> tls_pool_eligible req"
  shows "send_once N req (with_pools p q h cl) = map_option (map_prod id (with_pools p q h)) (send_once N req cl)"
  using untrusted_https_tcp_pools [OF assms(2)]
  by (cases "rq_http_version_pref req"; cases "on_world (n_h3 N req) cl")
    (auto simp: send_once_def assms(1) send_https_def on_world_pools split: sum.split)

text \<open>A network on which no connection succeeds.\<close>

definition dead_net :: "unit net" where
  "dead_net = \<lparr>n_connect = \<lambda>_ _ _ _ w. (Inl (Io TimedOut), w), n_roots = \<lambda>_ w. (Inl (Io NotFound), w),
     n_tls = \<lambda>_ _ _ w. (Inl (Io TimedOut), w), n_h3 = \<lambda>_ w. (Inl (Io TimedOut), w), n_decoders = stored_decoder\<rparr>"

definition example_plain :: request where
  "example_plain = example_request\<lparr>rq_url := \<lparr>u_scheme = ''http'', u_userinfo = None, u_host = ''h'', u_port = 80, u_path = ''/''\<rparr>\<rparr>"

lemma dead_hop:
  "send_once dead_net example_plain (client_new ()) = Some (Inl (Io TimedOut), client_new ())"
  by (simp add: send_once_def example_plain_def example_request_def send_plain_def client_new_def pool_new_def
      pool_checkout_def send_plain_fresh_def tcp_connect_def active_proxy_def on_world_def dead_net_def)


lemma untrusted_requests_bypass_pools_witness:
  "send_once dead_net (example_request\<lparr>rq_verify_tls := False\<rparr>) (with_pools pool_new pool_new h2_pool_new (client_new ())) =
     map_option (map_prod id (with_pools pool_new pool_new h2_pool_new))
       (send_once dead_net (example_request\<lparr>rq_verify_tls := False\<rparr>) (client_new ()))"
  by (rule untrusted_requests_bypass_pools) (simp_all add: example_request_def tls_pool_eligible_def)

end
