(* ===== verification/Cookie_Date.thy ===== *)
theory Cookie_Date
  imports Rust_Str "HOL-Library.Signed_Division"
begin

text \<open>
  The date parser of the cookie jar (\<open>parse_http_date\<close> and its helpers in \<open>src/src/cookie.rs\<close>).  \<open>i32\<close> and
  \<open>u32\<close> values are \<open>int\<close> with the wrap-around of a release build written out where an operation can
  overflow (a debug build panics there).  The reference calendar counts days year by year and month by
  month; \<open>epoch_from_ymd_hms\<close>, which computes them in closed form, agrees with it on every date from 1970 on.
\<close>

definition wrap_i32 :: "int \<Rightarrow> int" where
  "wrap_i32 x = (x + 2 ^ 31) mod 2 ^ 32 - 2 ^ 31"

definition wrap_u32 :: "int \<Rightarrow> int" where
  "wrap_u32 x = x mod 2 ^ 32"

definition epoch_from_ymd_hms :: "int \<Rightarrow> int \<Rightarrow> int \<Rightarrow> int \<Rightarrow> int \<Rightarrow> int \<Rightarrow> u64 option" where
  "epoch_from_ymd_hms y m d hh mm ss =
     (if \<not> (1 \<le> m \<and> m \<le> 12) \<or> \<not> (1 \<le> d \<and> d \<le> 31) \<or> hh > 23 \<or> mm > 59 \<or> ss > 60 then None
      else
        let year = (if m \<le> 2 then wrap_i32 (y - 1) else y);
            era = (if year \<ge> 0 then year else wrap_i32 (year - 399)) sdiv 400;
            yoe = wrap_u32 (wrap_i32 (year - wrap_i32 (era * 400)));
            mp = (if m > 2 then m - 3 else m + 9);
            doy = (153 * mp + 2) div 5 + d - 1;
            doe = wrap_u32 (wrap_u32 (yoe * 365) + yoe div 4 - yoe div 100 + doy);
            days = era * 146097 + doe - 719468
        in if days < 0 then None
           else Some (of_int (days * 86400 + hh * 3600 + mm * 60 + ss)))"

definition parse_month :: "string \<Rightarrow> int option" where
  "parse_month s =
     (case get_prefix 3 s of
        None \<Rightarrow> None
      | Some prefix \<Rightarrow>
          let p = to_ascii_lowercase prefix in
          if p = ''jan'' then Some 1 else if p = ''feb'' then Some 2 else if p = ''mar'' then Some 3
          else if p = ''apr'' then Some 4 else if p = ''may'' then Some 5 else if p = ''jun'' then Some 6
          else if p = ''jul'' then Some 7 else if p = ''aug'' then Some 8 else if p = ''sep'' then Some 9
          else if p = ''oct'' then Some 10 else if p = ''nov'' then Some 11 else if p = ''dec'' then Some 12
          else None)"

definition parse_hms :: "string \<Rightarrow> (int \<times> int \<times> int) option" where
  "parse_hms s =
     (case split_char CHR '':'' s of
        h # m # sec # _ \<Rightarrow>
          (case (parse_u32 h, parse_u32 m, parse_u32 sec) of
             (Some h, Some m, Some sec) \<Rightarrow> Some (int h, int m, int sec)
           | _ \<Rightarrow> None)
      | _ \<Rightarrow> None)"

definition try_imf_fixdate :: "string \<Rightarrow> u64 option" where
  "try_imf_fixdate s =
     Option.bind (split_once '','' s) (\<lambda>(_, rest).
       case split_whitespace (trim rest) of
         day # mon # year # time # _ \<Rightarrow>
           Option.bind (parse_u32 day) (\<lambda>d.
           Option.bind (parse_month mon) (\<lambda>m.
           Option.bind (parse_i32 year) (\<lambda>y.
           Option.bind (parse_hms time) (\<lambda>(hh, mi, sec). epoch_from_ymd_hms y m (int d) hh mi sec))))
       | _ \<Rightarrow> None)"

definition try_rfc850 :: "string \<Rightarrow> u64 option" where
  "try_rfc850 s =
     Option.bind (split_once '','' s) (\<lambda>(_, rest).
       case split_whitespace (trim rest) of
         dmy # time # _ \<Rightarrow>
           (case split_char CHR ''-'' dmy of
              day # mon # year # _ \<Rightarrow>
                Option.bind (parse_u32 day) (\<lambda>d.
                Option.bind (parse_month mon) (\<lambda>m.
                Option.bind (parse_i32 year) (\<lambda>y2.
                  let y = (if y2 < 50 then wrap_i32 (2000 + y2) else wrap_i32 (1900 + y2)) in
                  Option.bind (parse_hms time) (\<lambda>(hh, mi, sec). epoch_from_ymd_hms y m (int d) hh mi sec))))
            | _ \<Rightarrow> None)
       | _ \<Rightarrow> None)"

definition try_asctime :: "string \<Rightarrow> u64 option" where
  "try_asctime s =
     (case split_whitespace s of
        _ # mon # day # time # year # _ \<Rightarrow>
          Option.bind (parse_month mon) (\<lambda>m.
          Option.bind (parse_u32 day) (\<lambda>d.
          Option.bind (parse_i32 year) (\<lambda>y.
          Option.bind (parse_hms time) (\<lambda>(hh, mi, sec). epoch_from_ymd_hms y m (int d) hh mi sec))))
      | _ \<Rightarrow> None)"

definition parse_http_date :: "string \<Rightarrow> u64 option" where
  "parse_http_date s =
     (let s = trim s in
      case try_imf_fixdate s of
        Some t \<Rightarrow> Some t
      | None \<Rightarrow> (case try_rfc850 s of Some t \<Rightarrow> Some t | None \<Rightarrow> try_asctime s))"

subsection \<open>The reference calendar\<close>

definition leap :: "int \<Rightarrow> bool" where
  "leap y \<longleftrightarrow> 4 dvd y \<and> (\<not> 100 dvd y \<or> 400 dvd y)"

definition year_len :: "int \<Rightarrow> int" where
  "year_len y = (if leap y then 366 else 365)"

definition month_len :: "int \<Rightarrow> int \<Rightarrow> int" where
  "month_len y m =
     (if m = 2 then (if leap y then 29 else 28) else if m \<in> {4, 6, 9, 11} then 30 else 31)"

text \<open>Days from 1 January 1970 to the date.\<close>

definition days_since_epoch :: "int \<Rightarrow> int \<Rightarrow> int \<Rightarrow> int" where
  "days_since_epoch y m d = (\<Sum>k\<in>{1970..<y}. year_len k) + (\<Sum>j\<in>{1..<m}. month_len y j) + d - 1"

lemma trunc_div: "0 \<le> (x :: int) \<Longrightarrow> x sdiv 400 = x div 400"
  by (simp add: signed_divide_int_def sgn_if)

lemma wrap_small:
  "0 \<le> x \<Longrightarrow> x < 2147483648 \<Longrightarrow> wrap_i32 x = x"
  "0 \<le> x \<Longrightarrow> x < 4294967296 \<Longrightarrow> wrap_u32 x = x"
  by (simp_all add: wrap_i32_def wrap_u32_def)

text \<open>The closed form without the wrapping: \<open>Y\<close> counts years from March.\<close>

definition civil_days :: "int \<Rightarrow> int \<Rightarrow> int \<Rightarrow> int" where
  "civil_days y m d =
     (let Y = (if m \<le> 2 then y - 1 else y); mp = (if m > 2 then m - 3 else m + 9)
      in 365 * Y + Y div 4 - Y div 100 + Y div 400 + (153 * mp + 2) div 5 + d - 1 - 719468)"

lemma era_split:
  assumes "0 \<le> (Y :: int)"
  defines "era \<equiv> Y div 400" and "yoe \<equiv> Y mod 400"
  shows "era * 146097 + (yoe * 365 + yoe div 4 - yoe div 100) = 365 * Y + Y div 4 - Y div 100 + Y div 400"
proof -
  have Y: "Y = 400 * era + yoe" by (simp add: era_def yoe_def)
  have "Y div 4 = 100 * era + yoe div 4" "Y div 100 = 4 * era + yoe div 100" "Y div 400 = era"
    using div_mult_self3 [of 4 "100 * era" yoe] div_mult_self3 [of 100 "4 * era" yoe]
    by (simp_all add: Y [symmetric]) (simp add: era_def)
  with Y show ?thesis by linarith
qed

lemma epoch_civil:
  assumes "1 \<le> y" "y < 2147483648" "1 \<le> m" "m \<le> 12" "1 \<le> d" "d \<le> 31" "hh \<le> 23" "mm \<le> 59" "ss \<le> 60"
  shows "epoch_from_ymd_hms y m d hh mm ss =
    (if civil_days y m d < 0 then None
     else Some (of_int (civil_days y m d * 86400 + hh * 3600 + mm * 60 + ss)))"
proof -
  define Y where "Y = (if m \<le> 2 then y - 1 else y)"
  define doy where "doy = (153 * (if m > 2 then m - 3 else m + 9) + 2) div 5 + d - 1"
  have Y: "0 \<le> Y" "Y < 2147483648" "wrap_i32 (y - 1) = y - 1"
    using assms by (auto simp: Y_def intro!: wrap_small)
  have mp: "0 \<le> (if m > 2 then m - 3 else m + 9)" "(if m > 2 then m - 3 else m + 9) \<le> 11" using assms by auto
  then have "(153 * (if m > 2 then m - 3 else m + 9) + 2) div 5 \<le> (153 * 11 + 2) div 5"
    by (intro zdiv_mono1) simp_all
  with mp assms have doy: "0 \<le> doy" "doy \<le> 367" unfolding doy_def by (simp_all add: pos_imp_zdiv_nonneg_iff)
  let ?era = "Y div 400" and ?yoe = "Y mod 400"
  have r: "0 \<le> ?yoe" "?yoe < 400" by simp_all
  have q: "0 \<le> ?era * 400" "?era * 400 \<le> Y" "Y - ?era * 400 = ?yoe"
    using Y(1) r(1) minus_div_mult_eq_mod [of Y 400] by (simp_all add: pos_imp_zdiv_nonneg_iff)
  have e: "wrap_i32 (?era * 400) = ?era * 400" "wrap_i32 (Y - ?era * 400) = ?yoe" "wrap_u32 ?yoe = ?yoe"
    unfolding q(3) using r q(1,2) Y(2) by (simp_all add: wrap_small)
  have s: "0 \<le> ?yoe div 4" "?yoe div 4 \<le> ?yoe" "0 \<le> ?yoe div 100" "?yoe div 100 \<le> ?yoe"
    using r by (simp_all add: pos_imp_zdiv_nonneg_iff div_le_dividend)
  have "?yoe * 365 + ?yoe div 4 - ?yoe div 100 + doy < 4294967296" "?yoe * 365 < 4294967296" "0 \<le> ?yoe * 365"
    "0 \<le> ?yoe * 365 + ?yoe div 4 - ?yoe div 100 + doy"
    using r s doy by linarith+
  then have u: "wrap_u32 (?yoe * 365) = ?yoe * 365"
    "wrap_u32 (?yoe * 365 + ?yoe div 4 - ?yoe div 100 + doy) = ?yoe * 365 + ?yoe div 4 - ?yoe div 100 + doy"
    by (simp_all only: wrap_small(2))
  have days: "?era * 146097 + (?yoe * 365 + ?yoe div 4 - ?yoe div 100 + doy) - 719468 = civil_days y m d"
  proof -
    have "civil_days y m d = 365 * Y + Y div 4 - Y div 100 + Y div 400 + doy - 719468"
      unfolding civil_days_def Let_def Y_def [symmetric] doy_def by linarith
    with era_split [OF Y(1)] show ?thesis by linarith
  qed
  have year: "(if m \<le> 2 then wrap_i32 (y - 1) else y) = Y" using Y(3) by (simp add: Y_def)
  have ok: "(\<not> (1 \<le> m \<and> m \<le> 12) \<or> \<not> (1 \<le> d \<and> d \<le> 31) \<or> hh > 23 \<or> mm > 59 \<or> ss > 60) = False"
    using assms by auto
  have ge: "(0 \<le> Y) = True" using Y(1) by simp
  show ?thesis
    unfolding epoch_from_ymd_hms_def ok if_False Let_def year ge if_True trunc_div [OF Y(1)] e
      doy_def [symmetric] u days ..
qed

lemma div_step: "0 < n \<Longrightarrow> (y :: int) div n - (y - 1) div n = (if n dvd y then 1 else 0)"
proof -
  assume n: "0 < n"
  show ?thesis
  proof (cases "n dvd y")
    case True
    then obtain k where y: "y = n * k" by blast
    have "(n * k - 1) div n = k - 1"
      using n by (intro int_div_pos_eq [of _ _ _ "n - 1"]) (simp_all add: algebra_simps)
    with y n show ?thesis by simp
  next
    case False
    then have "0 < y mod n" using n by (simp add: dvd_eq_mod_eq_0 order_less_le)
    have "(y - 1) div n = y div n"
      using n \<open>0 < y mod n\<close> pos_mod_bound [OF n, of y]
      by (intro int_div_pos_eq [of _ _ _ "y mod n - 1"]) (simp_all add: algebra_simps)
    with False show ?thesis by simp
  qed
qed

text \<open>From one year to the next, and from one month to the next.\<close>

lemma leap_count:
  "(y div 4 - (y - 1) div 4) - (y div 100 - (y - 1) div 100) + (y div 400 - (y - 1) div 400)
     = (if leap y then 1 else 0)"
proof -
  have d: "(100 :: int) dvd 400" "(4 :: int) dvd 100" by (rule dvdI [of _ _ 4], simp) (rule dvdI [of _ _ 25], simp)
  have count: "(if p then 1 else 0) - (if q then 1 else 0) + (if r then 1 else 0)
      = (if p \<and> (\<not> q \<or> r) then 1 else (0 :: int))" if "r \<Longrightarrow> q" "q \<Longrightarrow> p" for p q r
    using that by (cases p; cases q; cases r) simp_all
  have "y div 4 - (y - 1) div 4 = (if 4 dvd y then 1 else 0)"
    "y div 100 - (y - 1) div 100 = (if 100 dvd y then 1 else 0)"
    "y div 400 - (y - 1) div 400 = (if 400 dvd y then 1 else 0)"
    by (rule div_step, simp)+
  then show ?thesis
    unfolding leap_def using count [of "400 dvd y" "100 dvd y" "4 dvd y"] dvd_trans [OF d(1), of y] dvd_trans [OF d(2), of y]
    by (simp only:)
qed

lemma civil_year: "civil_days (y + 1) 1 1 = civil_days y 1 1 + year_len y"
proof -
  have "civil_days (y + 1) 1 1 - civil_days y 1 1
      = 365 + (y div 4 - (y - 1) div 4) - (y div 100 - (y - 1) div 100) + (y div 400 - (y - 1) div 400)"
    by (simp add: civil_days_def Let_def)
  also have "\<dots> = year_len y" using leap_count [of y] by (cases "leap y") (simp_all add: year_len_def)
  finally show ?thesis by simp
qed

lemma civil_1970: "civil_days 1970 1 1 = 0"
  by (simp add: civil_days_def Let_def)

lemma civil_years: "civil_days (1970 + int n) 1 1 = (\<Sum>k\<in>{1970..<1970 + int n}. year_len k)"
proof (induction n)
  case (Suc n)
  have "{1970..<1970 + int (Suc n)} = insert (1970 + int n) {1970..<1970 + int n}" by auto
  with Suc civil_year [of "1970 + int n"] show ?case by (simp add: algebra_simps)
qed (simp add: civil_1970)

lemma civil_month:
  assumes "1 \<le> m" and "m < 12"
  shows "civil_days y (m + 1) 1 = civil_days y m 1 + month_len y m"
proof -
  have m: "m \<in> {1, 2, 3, 4, 5, 6, 7, 8, 9, 10, 11}" using assms by simp presburger
  show ?thesis
  proof (cases "m = 2")
    case True
    have "civil_days y 3 1 - civil_days y 2 1
        = 28 + (y div 4 - (y - 1) div 4) - (y div 100 - (y - 1) div 100) + (y div 400 - (y - 1) div 400)"
      by (simp add: civil_days_def Let_def)
    also have "\<dots> = month_len y 2" using leap_count [of y] by (cases "leap y") (simp_all add: month_len_def)
    finally show ?thesis using True by simp
  next
    case False
    with m show ?thesis by (auto simp: civil_days_def month_len_def Let_def)
  qed
qed

lemma civil_day: "civil_days y m d = civil_days y m 1 + d - 1"
  by (simp add: civil_days_def Let_def)

lemma civil_months:
  "n < 12 \<Longrightarrow> civil_days y (1 + int n) 1 = civil_days y 1 1 + (\<Sum>j\<in>{1..<1 + int n}. month_len y j)"
proof (induction n)
  case (Suc n)
  have "{1..<1 + int (Suc n)} = insert (1 + int n) {1..<1 + int n}" by auto
  with Suc civil_month [of "1 + int n" y] show ?case by (simp add: algebra_simps)
qed simp

lemma civil_days_calendar:
  assumes "1970 \<le> y" and "1 \<le> m" and "m \<le> 12"
  shows "civil_days y m d = days_since_epoch y m d"
proof -
  have y: "y = 1970 + int (nat (y - 1970))" and m: "m = 1 + int (nat (m - 1))" using assms by simp_all
  have "nat (m - 1) < 12" using assms by simp
  from civil_months [OF this, of y, folded m] civil_years [of "nat (y - 1970)", folded y] civil_day [of y m d]
  show ?thesis by (simp add: days_since_epoch_def)
qed

lemma days_since_epoch_nonneg: "1 \<le> d \<Longrightarrow> 0 \<le> days_since_epoch y m d"
proof -
  have "0 \<le> (\<Sum>k\<in>{1970..<y}. year_len k)" "0 \<le> (\<Sum>j\<in>{1..<m}. month_len y j)"
    by (auto intro!: sum_nonneg simp: year_len_def month_len_def)
  then show "1 \<le> d \<Longrightarrow> ?thesis" by (simp add: days_since_epoch_def)
qed

subsection \<open>Properties\<close>

text \<open>For every date of the Gregorian calendar from 1970 on and every time of day, the closed-form computation
  gives the number of seconds that counting days year by year and month by month gives.\<close>

lemma epoch_is_calendar_time:
  assumes "1970 \<le> y" and "y < 2147483648" and "1 \<le> m" and "m \<le> 12" and "1 \<le> d" and "d \<le> month_len y m"
    and "0 \<le> hh" and "hh \<le> 23" and "0 \<le> mm" and "mm \<le> 59" and "0 \<le> ss" and "ss \<le> 60"
  shows "epoch_from_ymd_hms y m d hh mm ss
    = Some (of_int (days_since_epoch y m d * 86400 + hh * 3600 + mm * 60 + ss))"
proof -
  have "d \<le> 31" using assms(6) by (auto simp: month_len_def split: if_splits)
  then have "epoch_from_ymd_hms y m d hh mm ss =
      (if civil_days y m d < 0 then None
       else Some (of_int (civil_days y m d * 86400 + hh * 3600 + mm * 60 + ss)))"
    using assms by (intro epoch_civil) simp_all
  moreover have "civil_days y m d = days_since_epoch y m d" using assms by (intro civil_days_calendar)
  moreover have "0 \<le> days_since_epoch y m d" using assms(5) by (rule days_since_epoch_nonneg)
  ultimately show ?thesis by simp
qed

lemma epoch_is_calendar_time_witness:
  "epoch_from_ymd_hms 1970 3 1 0 0 1 = Some (of_int (days_since_epoch 1970 3 1 * 86400 + 0 * 3600 + 0 * 60 + 1))"
  by (rule epoch_is_calendar_time) (simp_all add: month_len_def)

end
