(* ===== verification/Cookie.thy ===== *)
theory Cookie
  imports Cookie_Date Url
begin

text \<open>
  The cookie jar (\<open>src/src/cookie.rs\<close>): \<open>Set-Cookie\<close> parsing, matching, the \<open>Cookie:\<close> header, and the
  Netscape \<open>cookies.txt\<close> format.  The clock is the argument \<open>now\<close>; a file is its text.  The jar
  invariant is that every stored cookie is clean and scoped, and its consequence that a cookie only ever
  goes back to hosts in the scope of the host that set it.
\<close>

record cookie =
  ck_name :: string
  ck_value :: string
  ck_domain :: string
  ck_path :: string
  ck_expires :: "u64 option"
  ck_secure :: bool
  ck_http_only :: bool
  ck_host_only :: bool

record cookie_jar =
  cj_cookies :: "cookie list"

definition jar_new :: cookie_jar where
  "jar_new = \<lparr>cj_cookies = []\<rparr>"

subsection \<open>Helpers\<close>

definition has_forbidden_cookie_char :: "string \<Rightarrow> bool" where
  "has_forbidden_cookie_char s \<longleftrightarrow> list_ex (\<lambda>c. let n = of_char c :: nat in n < 32 \<or> n = 127) s"

definition has_jar_separator :: "string \<Rightarrow> bool" where
  "has_jar_separator s \<longleftrightarrow> list_ex (\<lambda>c. c = CHR 0x09 \<or> c = CHR 0x0D \<or> c = CHR 0x0A) s"

definition is_scopable_cookie_domain :: "string \<Rightarrow> bool" where
  "is_scopable_cookie_domain domain \<longleftrightarrow>
     (let d = trim_matches (\<lambda>c. c = CHR ''.'') domain in d \<noteq> [] \<and> CHR ''.'' \<in> set d)"

fun all_u8 :: "string list \<Rightarrow> nat \<Rightarrow> nat option" where
  "all_u8 [] parts = Some parts"
| "all_u8 (p # ps) parts = (if parse_u8 p = None then None else all_u8 ps (parts + 1))"

definition is_ip_literal :: "string \<Rightarrow> bool" where
  "is_ip_literal host \<longleftrightarrow>
     (if starts_with ''['' host \<or> CHR '':'' \<in> set host then True
      else all_u8 (split_char CHR ''.'' host) 0 = Some 4)"

definition default_path :: "string \<Rightarrow> string" where
  "default_path uri_path =
     (if uri_path = [] \<or> \<not> starts_with ''/'' uri_path then ''/''
      else case rfind_char CHR ''/'' uri_path of
        Some idx \<Rightarrow> if idx = 0 then ''/'' else take idx uri_path
      | None \<Rightarrow> ''/'')"

definition domain_match :: "string \<Rightarrow> string \<Rightarrow> bool \<Rightarrow> bool" where
  "domain_match request_host cookie_domain host_only =
     (let rh = to_ascii_lowercase request_host; cd = to_ascii_lowercase cookie_domain in
      if host_only then rh = cd else if rh = cd then True else ends_with (''.'' @ cd) rh)"

definition path_match :: "string \<Rightarrow> string \<Rightarrow> bool" where
  "path_match request_path cookie_path =
     (if request_path = cookie_path then True
      else case strip_prefix cookie_path request_path of
        Some rest \<Rightarrow> if ends_with ''/'' cookie_path then True else starts_with ''/'' rest
      | None \<Rightarrow> False)"

definition matches_request :: "cookie \<Rightarrow> url \<Rightarrow> u64 \<Rightarrow> bool" where
  "matches_request c u now =
     (if (case ck_expires c of Some e \<Rightarrow> e \<le> now | None \<Rightarrow> False) then False
      else if ck_secure c \<and> \<not> is_tls u then False
      else if \<not> domain_match (u_host u) (ck_domain c) (ck_host_only c) then False
      else if \<not> path_match (u_path u) (ck_path c) then False
      else True)"

subsection \<open>Set-Cookie\<close>

text \<open>What the attributes have set so far.\<close>

record cookie_attrs =
  ca_domain :: string
  ca_host_only :: bool
  ca_path :: string
  ca_expires :: "u64 option"
  ca_max_age :: "int option"
  ca_secure :: bool
  ca_http_only :: bool

text \<open>The \<open>Domain\<close> attribute; \<open>None\<close> rejects the cookie.\<close>

definition domain_attr :: "string \<Rightarrow> string \<Rightarrow> cookie_attrs \<Rightarrow> cookie_attrs option" where
  "domain_attr request_host v a =
     (let v = to_ascii_lowercase (case strip_prefix ''.'' v of Some r \<Rightarrow> r | None \<Rightarrow> v) in
      if v = [] then Some a
      else if is_ip_literal request_host then Some a
      else if \<not> is_scopable_cookie_domain v then None
      else if \<not> domain_match request_host v False then None
      else Some (a\<lparr>ca_domain := v, ca_host_only := False\<rparr>))"

definition cookie_attr :: "string \<Rightarrow> string \<Rightarrow> cookie_attrs \<Rightarrow> cookie_attrs option" where
  "cookie_attr request_host attr a =
     (let attr = trim attr in
      if attr = [] then Some a
      else
        let (k, v) = (case split_once ''='' attr of Some (k, v) \<Rightarrow> (trim k, Some (trim v)) | None \<Rightarrow> (attr, None)) in
        if eq_ignore_ascii_case k ''domain'' then
          (case v of Some v \<Rightarrow> domain_attr request_host v a | None \<Rightarrow> Some a)
        else if eq_ignore_ascii_case k ''path'' then
          (case v of Some v \<Rightarrow> Some (if starts_with ''/'' v then a\<lparr>ca_path := v\<rparr> else a) | None \<Rightarrow> Some a)
        else if eq_ignore_ascii_case k ''expires'' then
          (case v of Some v \<Rightarrow> Some (a\<lparr>ca_expires := parse_http_date v\<rparr>) | None \<Rightarrow> Some a)
        else if eq_ignore_ascii_case k ''max-age'' then
          (case v of
             Some v \<Rightarrow> (case parse_i64 v of Some n \<Rightarrow> Some (a\<lparr>ca_max_age := Some n\<rparr>) | None \<Rightarrow> Some a)
           | None \<Rightarrow> Some a)
        else if eq_ignore_ascii_case k ''secure'' then Some (a\<lparr>ca_secure := True\<rparr>)
        else if eq_ignore_ascii_case k ''httponly'' then Some (a\<lparr>ca_http_only := True\<rparr>)
        else Some a)"

fun cookie_attr_list :: "string \<Rightarrow> string list \<Rightarrow> cookie_attrs \<Rightarrow> cookie_attrs option" where
  "cookie_attr_list request_host [] a = Some a"
| "cookie_attr_list request_host (p # ps) a =
     Option.bind (cookie_attr request_host p a) (cookie_attr_list request_host ps)"

definition saturating_add_u64 :: "u64 \<Rightarrow> u64 \<Rightarrow> u64" where
  "saturating_add_u64 a b = (if unat a + unat b < 2 ^ 64 then a + b else 0xffffffffffffffff)"

definition parse_set_cookie :: "string \<Rightarrow> url \<Rightarrow> u64 \<Rightarrow> cookie option" where
  "parse_set_cookie line request_url now =
     (case split_char CHR '';'' line of
        [] \<Rightarrow> None
      | first # parts \<Rightarrow>
          Option.bind (split_once ''='' (trim first)) (\<lambda>(name, val).
            let name = trim name; val = trim val in
            if name = [] then None
            else if has_forbidden_cookie_char name \<or> has_forbidden_cookie_char val then None
            else
              let request_host = to_ascii_lowercase (u_host request_url);
                  a = \<lparr>ca_domain = request_host, ca_host_only = True, ca_path = default_path (u_path request_url),
                       ca_expires = None, ca_max_age = None, ca_secure = False, ca_http_only = False\<rparr>
              in Option.bind (cookie_attr_list request_host parts a) (\<lambda>a.
                   let expires = (case ca_max_age a of
                     Some ma \<Rightarrow> if ma \<le> 0 then Some 0 else Some (saturating_add_u64 now (of_int ma))
                   | None \<Rightarrow> ca_expires a)
                   in Some \<lparr>ck_name = name, ck_value = val, ck_domain = ca_domain a, ck_path = ca_path a,
                        ck_expires = expires, ck_secure = ca_secure a, ck_http_only = ca_http_only a,
                        ck_host_only = ca_host_only a\<rparr>)))"

subsection \<open>The jar\<close>

definition same_cookie :: "cookie \<Rightarrow> cookie \<Rightarrow> bool" where
  "same_cookie x c \<longleftrightarrow>
     ck_name x = ck_name c \<and> eq_ignore_ascii_case (ck_domain x) (ck_domain c) \<and> ck_path x = ck_path c"

definition remove_matching :: "cookie \<Rightarrow> cookie_jar \<Rightarrow> cookie_jar" where
  "remove_matching c j = j\<lparr>cj_cookies := filter (\<lambda>x. \<not> same_cookie x c) (cj_cookies j)\<rparr>"

definition push_cookie :: "cookie \<Rightarrow> cookie_jar \<Rightarrow> cookie_jar" where
  "push_cookie c j = j\<lparr>cj_cookies := cj_cookies j @ [c]\<rparr>"

definition add_set_cookie :: "url \<Rightarrow> string \<Rightarrow> u64 \<Rightarrow> cookie_jar \<Rightarrow> cookie_jar" where
  "add_set_cookie request_url line now j =
     (case parse_set_cookie line request_url now of
        None \<Rightarrow> j
      | Some parsed \<Rightarrow>
          if (case ck_expires parsed of Some e \<Rightarrow> e \<le> now | None \<Rightarrow> False) then remove_matching parsed j
          else push_cookie parsed (remove_matching parsed j))"

fun ingest_headers :: "url \<Rightarrow> u64 \<Rightarrow> (string \<times> string) list \<Rightarrow> cookie_jar \<Rightarrow> cookie_jar" where
  "ingest_headers request_url now [] j = j"
| "ingest_headers request_url now ((k, v) # hs) j =
     ingest_headers request_url now hs
       (if eq_ignore_ascii_case k ''set-cookie'' then add_set_cookie request_url v now j else j)"

definition ingest_response :: "u64 \<Rightarrow> url \<Rightarrow> (string \<times> string) list \<Rightarrow> cookie_jar \<Rightarrow> cookie_jar" where
  "ingest_response now request_url headers j = ingest_headers request_url now headers j"

definition purge_expired :: "u64 \<Rightarrow> cookie_jar \<Rightarrow> cookie_jar" where
  "purge_expired now j =
     j\<lparr>cj_cookies := filter (\<lambda>c. case ck_expires c of Some e \<Rightarrow> e > now | None \<Rightarrow> True) (cj_cookies j)\<rparr>"

text \<open>The cookies that go out, longest path first, and the header value.\<close>

definition outgoing :: "u64 \<Rightarrow> url \<Rightarrow> cookie_jar \<Rightarrow> cookie list" where
  "outgoing now u j =
     sort_key (\<lambda>c. - int (length (ck_path c)))
       (filter (\<lambda>c. \<not> has_forbidden_cookie_char (ck_name c) \<and> \<not> has_forbidden_cookie_char (ck_value c))
         (filter (\<lambda>c. matches_request c u now) (cj_cookies j)))"

fun join_semicolon :: "string list \<Rightarrow> string" where
  "join_semicolon [] = []"
| "join_semicolon [s] = s"
| "join_semicolon (s # ss) = s @ ''; '' @ join_semicolon ss"

definition cookie_header :: "u64 \<Rightarrow> url \<Rightarrow> cookie_jar \<Rightarrow> string option" where
  "cookie_header now u j =
     (let matches = outgoing now u j
      in if matches = [] then None
         else Some (join_semicolon (map (\<lambda>c. ck_name c @ ''='' @ ck_value c) matches)))"

definition add_explicit :: "string \<Rightarrow> string \<Rightarrow> url \<Rightarrow> cookie_jar \<Rightarrow> cookie_jar" where
  "add_explicit name val request_url j =
     (let c = \<lparr>ck_name = name, ck_value = val, ck_domain = to_ascii_lowercase (u_host request_url),
               ck_path = ''/'', ck_expires = None, ck_secure = False, ck_http_only = False, ck_host_only = True\<rparr>
      in push_cookie c (remove_matching c j))"

subsection \<open>The cookies.txt format\<close>

abbreviation (input) TAB :: string where "TAB \<equiv> [CHR 0x09]"

definition jar_line :: "cookie \<Rightarrow> u64 \<Rightarrow> string" where
  "jar_line c e =
     (if ck_http_only c then ''#HttpOnly_'' else []) @ ck_domain c @ TAB @
     (if ck_host_only c then ''FALSE'' else ''TRUE'') @ TAB @ ck_path c @ TAB @
     (if ck_secure c then ''TRUE'' else ''FALSE'') @ TAB @ show_nat (unat e) @ TAB @ ck_name c @ TAB @ ck_value c"

fun jar_lines :: "cookie list \<Rightarrow> string list" where
  "jar_lines [] = []"
| "jar_lines (c # cs) =
     (case ck_expires c of
        None \<Rightarrow> jar_lines cs
      | Some e \<Rightarrow>
          if has_jar_separator (ck_name c) \<or> has_jar_separator (ck_value c) \<or> has_jar_separator (ck_domain c) \<or>
            has_jar_separator (ck_path c)
          then jar_lines cs else jar_line c e # jar_lines cs)"

definition jar_banner :: "string list" where
  "jar_banner = [''# Netscape HTTP Cookie File'', ''# https://curl.se/docs/http-cookies.html'',
     ''# This file was generated by rsurl. Edit at your own risk.'', []]"

text \<open>What \<open>save_netscape\<close> writes to a file that takes everything.\<close>

definition save_netscape :: "cookie_jar \<Rightarrow> string" where
  "save_netscape j = concat (map (\<lambda>l. l @ [CHR 0x0A]) (jar_banner @ jar_lines (cj_cookies j)))"

datatype line_outcome = CookieLine cookie | Skip | Malformed

definition parse_netscape_fields :: "bool \<Rightarrow> string \<Rightarrow> line_outcome" where
  "parse_netscape_fields http_only body =
     (case split_char CHR 0x09 body of
        [f0, f1, f2, f3, f4, f5, f6] \<Rightarrow>
          if f0 = [] then Malformed
          else
            let host_only = (\<not> eq_ignore_ascii_case f1 ''TRUE''); secure = eq_ignore_ascii_case f3 ''TRUE''
            in (case parse_i64 f4 of
                  None \<Rightarrow> Malformed
                | Some expires_raw \<Rightarrow>
                    let expires = (if expires_raw \<le> 0 then None else Some (of_int expires_raw))
                    in if f5 = [] then Malformed
                       else if has_forbidden_cookie_char f5 \<or> has_forbidden_cookie_char f6 then Skip
                       else
                         let domain = trim_start_matches (\<lambda>c. c = CHR ''.'') f0
                         in if \<not> host_only \<and> \<not> is_scopable_cookie_domain domain then Skip
                            else CookieLine \<lparr>ck_name = f5, ck_value = f6, ck_domain = domain, ck_path = f2,
                              ck_expires = expires, ck_secure = secure, ck_http_only = http_only,
                              ck_host_only = host_only\<rparr>)
      | _ \<Rightarrow> Malformed)"

definition parse_netscape_line :: "string \<Rightarrow> line_outcome" where
  "parse_netscape_line line =
     (case strip_prefix ''#HttpOnly_'' line of
        Some rest \<Rightarrow> parse_netscape_fields True rest
      | None \<Rightarrow>
          if starts_with ''#'' line \<or> trim line = [] then Skip else parse_netscape_fields False line)"

text \<open>\<open>BufRead::lines\<close>: the last line may lack its newline; \<open>\r\<close> goes with the newline.\<close>

definition strip_cr :: "string \<Rightarrow> string" where
  "strip_cr l = (if l \<noteq> [] \<and> last l = CHR 0x0D then butlast l else l)"

definition lines_of :: "string \<Rightarrow> string list" where
  "lines_of s =
     (let ps = split_char CHR 0x0A s
      in map strip_cr (butlast ps) @ (if last ps = [] then [] else [last ps]))"

fun load_lines :: "string list \<Rightarrow> cookie_jar \<Rightarrow> cookie_jar result" where
  "load_lines [] j = Inr j"
| "load_lines (line # rest) j =
     (if \<not> valid_str line then Inl (Io InvalidData)
      else case parse_netscape_line line of
        CookieLine c \<Rightarrow> load_lines rest (push_cookie c j)
      | Skip \<Rightarrow> load_lines rest j
      | Malformed \<Rightarrow> Inl (BadResponse ''cookies.txt: malformed line {} in {path}''))"

text \<open>The file is its bytes, or the error of opening it.\<close>

definition load_netscape :: "io_kind + string \<Rightarrow> cookie_jar result" where
  "load_netscape file = bindR (liftIo file) (\<lambda>text. load_lines (lines_of text) jar_new)"

definition load_netscape_or_empty :: "io_kind + string \<Rightarrow> cookie_jar result" where
  "load_netscape_or_empty file =
     (case load_netscape file of
        Inl e \<Rightarrow> if e = Io NotFound then Inr jar_new else Inl e
      | Inr j \<Rightarrow> Inr j)"

subsection \<open>Scope\<close>

text \<open>What the origin of a cookie allows: only its own host, or a domain with an inner dot that contains it.\<close>

definition in_scope :: "string \<Rightarrow> string \<Rightarrow> bool \<Rightarrow> bool" where
  "in_scope host domain host_only \<longleftrightarrow>
     (if host_only then domain = to_ascii_lowercase host
      else \<not> is_ip_literal (to_ascii_lowercase host) \<and> is_scopable_cookie_domain domain \<and> domain_match host domain False)"

definition clean_cookie :: "cookie \<Rightarrow> bool" where
  "clean_cookie c \<longleftrightarrow> ck_name c \<noteq> [] \<and>
     \<not> has_forbidden_cookie_char (ck_name c) \<and> \<not> has_forbidden_cookie_char (ck_value c)"

lemma domain_match_lower [simp]: "domain_match (to_ascii_lowercase h) d b = domain_match h d b"
  by (simp add: domain_match_def)

lemma domain_attr_scope:
  "domain_attr (to_ascii_lowercase h) v a = Some a' \<Longrightarrow> in_scope h (ca_domain a) (ca_host_only a) \<Longrightarrow>
     in_scope h (ca_domain a') (ca_host_only a')"
  by (auto simp: domain_attr_def in_scope_def Let_def split: if_splits option.splits)

lemma cookie_attr_scope:
  assumes "cookie_attr (to_ascii_lowercase h) attr a = Some a'" and "in_scope h (ca_domain a) (ca_host_only a)"
  shows "in_scope h (ca_domain a') (ca_host_only a')"
proof -
  consider v where "domain_attr (to_ascii_lowercase h) v a = Some a'"
    | "ca_domain a' = ca_domain a" "ca_host_only a' = ca_host_only a"
    using assms(1) unfolding cookie_attr_def Let_def by (auto split: if_splits option.splits prod.splits)
  then show ?thesis by cases (use assms(2) domain_attr_scope in auto)
qed

lemma cookie_attr_list_scope:
  "cookie_attr_list (to_ascii_lowercase h) ps a = Some a' \<Longrightarrow> in_scope h (ca_domain a) (ca_host_only a) \<Longrightarrow>
     in_scope h (ca_domain a') (ca_host_only a')"
  by (induction ps arbitrary: a) (auto simp: bind_eq_Some_conv dest: cookie_attr_scope)

lemma parse_set_cookie_scope:
  assumes "parse_set_cookie line u now = Some c"
  shows "in_scope (u_host u) (ck_domain c) (ck_host_only c) \<and> clean_cookie c"
proof -
  from assms obtain name val ps a where c: "\<not> has_forbidden_cookie_char name" "\<not> has_forbidden_cookie_char val"
    "name \<noteq> []" "ck_name c = name" "ck_value c = val" "ck_domain c = ca_domain a" "ck_host_only c = ca_host_only a"
    "cookie_attr_list (to_ascii_lowercase (u_host u)) ps
       \<lparr>ca_domain = to_ascii_lowercase (u_host u), ca_host_only = True, ca_path = default_path (u_path u),
        ca_expires = None, ca_max_age = None, ca_secure = False, ca_http_only = False\<rparr> = Some a"
    by (auto simp: parse_set_cookie_def Let_def bind_eq_Some_conv split: list.splits if_splits)
  from cookie_attr_list_scope [OF c(8)] c show ?thesis by (simp add: in_scope_def clean_cookie_def)
qed

text \<open>Every cookie of a jar comes from one of the responses it ingested.\<close>

fun ingest_all :: "(u64 \<times> url \<times> (string \<times> string) list) list \<Rightarrow> cookie_jar \<Rightarrow> cookie_jar" where
  "ingest_all [] j = j"
| "ingest_all ((now, u, hs) # rest) j = ingest_all rest (ingest_response now u hs j)"

definition from_hosts :: "string set \<Rightarrow> cookie_jar \<Rightarrow> bool" where
  "from_hosts H j \<longleftrightarrow>
     (\<forall>c\<in>set (cj_cookies j). clean_cookie c \<and> (\<exists>h\<in>H. in_scope h (ck_domain c) (ck_host_only c)))"

lemma from_hosts_add: "from_hosts H j \<Longrightarrow> u_host u \<in> H \<Longrightarrow> from_hosts H (add_set_cookie u line now j)"
  by (auto simp: add_set_cookie_def from_hosts_def remove_matching_def push_cookie_def
      split: option.split dest: parse_set_cookie_scope)

lemma from_hosts_ingest: "from_hosts H j \<Longrightarrow> u_host u \<in> H \<Longrightarrow> from_hosts H (ingest_response now u hs j)"
  unfolding ingest_response_def
  by (induction u now hs j rule: ingest_headers.induct) (simp_all add: from_hosts_add)

lemma from_hosts_ingest_all:
  "from_hosts H j \<Longrightarrow> (\<And>now u hs. (now, u, hs) \<in> set rs \<Longrightarrow> u_host u \<in> H) \<Longrightarrow> from_hosts H (ingest_all rs j)"
  by (induction rs j rule: ingest_all.induct) (auto intro: from_hosts_ingest)

lemma outgoing_cookies:
  "c \<in> set (outgoing now u j) \<Longrightarrow> c \<in> set (cj_cookies j) \<and> matches_request c u now \<and>
     \<not> has_forbidden_cookie_char (ck_name c) \<and> \<not> has_forbidden_cookie_char (ck_value c)"
  by (simp add: outgoing_def)

lemma matches_request_iff:
  "matches_request c u now \<longleftrightarrow> (\<forall>e. ck_expires c = Some e \<longrightarrow> now < e) \<and> (ck_secure c \<longrightarrow> is_tls u) \<and>
     domain_match (u_host u) (ck_domain c) (ck_host_only c) \<and> path_match (u_path u) (ck_path c)"
  by (auto simp: matches_request_def not_le split: option.splits)

lemma join_semicolon_set: "ch \<in> set (join_semicolon ss) \<Longrightarrow> (\<exists>s\<in>set ss. ch \<in> set s) \<or> ch \<in> set ''; ''"
  by (induction ss rule: join_semicolon.induct) auto

lemma forbidden_append [simp]:
  "has_forbidden_cookie_char (s @ t) \<longleftrightarrow> has_forbidden_cookie_char s \<or> has_forbidden_cookie_char t"
  by (simp add: has_forbidden_cookie_char_def)

lemma forbidden_Cons [simp]:
  "has_forbidden_cookie_char (c # s) \<longleftrightarrow>
     (let n = of_char c :: nat in n < 32 \<or> n = 127) \<or> has_forbidden_cookie_char s"
  by (simp add: has_forbidden_cookie_char_def)

lemma join_semicolon_clean:
  "(\<And>s. s \<in> set ss \<Longrightarrow> \<not> has_forbidden_cookie_char s) \<Longrightarrow> \<not> has_forbidden_cookie_char (join_semicolon ss)"
proof (induction ss rule: join_semicolon.induct)
  case (3 s t ts)
  then show ?case by simp
qed (simp_all add: has_forbidden_cookie_char_def)

subsection \<open>A jar on disk\<close>

text \<open>What the format can hold: a cookie with an expiry in the reader's range, a domain it can tell from a
  comment, and no field separator in any field.\<close>

definition storable :: "cookie \<Rightarrow> bool" where
  "storable c \<longleftrightarrow> clean_cookie c \<and> (\<exists>e. ck_expires c = Some e \<and> 0 < unat e \<and> unat e < 2 ^ 63) \<and>
     \<not> has_jar_separator (ck_domain c) \<and> \<not> has_jar_separator (ck_path c) \<and>
     ck_domain c \<noteq> [] \<and> hd (ck_domain c) \<noteq> CHR ''.'' \<and> hd (ck_domain c) \<noteq> CHR ''#'' \<and>
     (ck_host_only c \<or> is_scopable_cookie_domain (ck_domain c)) \<and>
     valid_str (ck_name c) \<and> valid_str (ck_value c) \<and> valid_str (ck_domain c) \<and> valid_str (ck_path c)"

lemma separator_iff:
  "has_jar_separator s \<longleftrightarrow> CHR 0x09 \<in> set s \<or> CHR 0x0D \<in> set s \<or> CHR 0x0A \<in> set s"
  by (auto simp: has_jar_separator_def list_ex_iff)

lemma clean_no_separator: "\<not> has_forbidden_cookie_char s \<Longrightarrow> \<not> has_jar_separator s"
  unfolding has_forbidden_cookie_char_def has_jar_separator_def list_ex_iff by (auto simp: Let_def)

lemma show_nat_no_separator: "\<not> has_jar_separator (show_nat n)"
  unfolding separator_iff using show_nat_digits [of _ n] by fastforce

definition jar_fields :: "cookie \<Rightarrow> u64 \<Rightarrow> string" where
  "jar_fields c e = ck_domain c @ TAB @ (if ck_host_only c then ''FALSE'' else ''TRUE'') @ TAB @ ck_path c @ TAB @
     (if ck_secure c then ''TRUE'' else ''FALSE'') @ TAB @ show_nat (unat e) @ TAB @ ck_name c @ TAB @ ck_value c"

lemma jar_line_fields: "jar_line c e = (if ck_http_only c then ''#HttpOnly_'' else []) @ jar_fields c e"
  by (simp add: jar_line_def jar_fields_def)

lemma split_jar_fields:
  assumes "storable c"
  shows "split_char CHR 0x09 (jar_fields c e) = [ck_domain c, if ck_host_only c then ''FALSE'' else ''TRUE'', ck_path c,
     if ck_secure c then ''TRUE'' else ''FALSE'', show_nat (unat e), ck_name c, ck_value c]"
proof -
  have "CHR 0x09 \<notin> set s" if "\<not> has_jar_separator s" for s using that by (simp add: separator_iff)
  then show ?thesis using assms show_nat_no_separator clean_no_separator
    by (simp add: jar_fields_def storable_def clean_cookie_def split_char_field split_char_last)
qed

lemma true_word: "eq_ignore_ascii_case ''TRUE'' ''TRUE''" and false_word: "\<not> eq_ignore_ascii_case ''FALSE'' ''TRUE''"
  by (simp_all add: eq_ignore_ascii_case_def to_ascii_lowercase_def ascii_lower_def)

lemma parse_jar_fields:
  assumes "storable c" and "ck_expires c = Some e"
  shows "parse_netscape_fields (ck_http_only c) (jar_fields c e) = CookieLine c"
proof -
  from assms have "trim_start_matches (\<lambda>c. c = CHR ''.'') (ck_domain c) = ck_domain c"
    by (cases "ck_domain c") (simp_all add: storable_def trim_start_matches_def)
  moreover obtain n where n: "unat e = n" "0 < n" "int n < 2 ^ 63" using assms by (auto simp: storable_def)
  moreover have "word_of_int (int n) = e" by (simp add: n(1) [symmetric])
  ultimately show ?thesis using assms parse_i64_show [OF n(3)]
    by (simp add: parse_netscape_fields_def split_jar_fields storable_def clean_cookie_def
        true_word false_word Let_def) blast
qed

definition example_page :: url where
  "example_page = \<lparr>u_scheme = ''https'', u_userinfo = None, u_host = ''a.b.c'', u_port = 443, u_path = ''/x''\<rparr>"

definition example_cookie :: cookie where
  "example_cookie = \<lparr>ck_name = ''i'', ck_value = ''9'', ck_domain = ''b.c'', ck_path = ''/'', ck_expires = Some 60,
     ck_secure = True, ck_http_only = True, ck_host_only = False\<rparr>"

lemmas cookie_eval = has_forbidden_cookie_char_def is_ip_literal_def is_scopable_cookie_domain_def
  trim_matches_def trim_start_matches_def trim_end_matches_def domain_match_def default_path_def
  parse_i64_def parse_signed_def parse_u8_def saturating_add_u64_def

lemma example_set_cookie:
  "parse_set_cookie ''i=9; Domain=.b.c; Path=/; Max-Age=60; Secure; HttpOnly'' example_page 0 = Some example_cookie"
proof -
  have a: "cookie_attr ''a.b.c'' '' Domain=.b.c'' a = Some (a\<lparr>ca_domain := ''b.c'', ca_host_only := False\<rparr>)"
    "cookie_attr ''a.b.c'' '' Path=/'' a = Some (a\<lparr>ca_path := ''/''\<rparr>)"
    "cookie_attr ''a.b.c'' '' Max-Age=60'' a = Some (a\<lparr>ca_max_age := Some 60\<rparr>)"
    "cookie_attr ''a.b.c'' '' Secure'' a = Some (a\<lparr>ca_secure := True\<rparr>)"
    "cookie_attr ''a.b.c'' '' HttpOnly'' a = Some (a\<lparr>ca_http_only := True\<rparr>)" for a
    by (simp_all add: cookie_attr_def domain_attr_def cookie_eval str_eval)
  have "to_ascii_lowercase ''a.b.c'' = ''a.b.c''" by (simp add: str_eval)
  with a show ?thesis
    by (simp add: parse_set_cookie_def example_page_def example_cookie_def cookie_eval str_eval)
qed

lemma jar_fields_graphic: "CHR ''E'' \<in> set (jar_fields c e)"
  by (simp add: jar_fields_def)

lemma parse_jar_line:
  assumes "storable c" and "ck_expires c = Some e"
  shows "parse_netscape_line (jar_line c e) = CookieLine c"
proof (cases "ck_http_only c")
  case True
  then show ?thesis using parse_jar_fields [OF assms]
    by (simp only: parse_netscape_line_def jar_line_fields strip_prefix_append option.case if_True)
next
  case False
  obtain d ds where d: "ck_domain c = d # ds" "d \<noteq> CHR ''#''"
    using assms(1) by (cases "ck_domain c") (auto simp: storable_def)
  have "strip_prefix ''#HttpOnly_'' (jar_fields c e) = None" "\<not> starts_with ''#'' (jar_fields c e)"
    by (simp_all add: jar_fields_def d strip_prefix_def starts_with_def)
  moreover have "trim (jar_fields c e) \<noteq> []"
    using trim_graphic [OF jar_fields_graphic, of c e] by (auto simp: graphic_def)
  ultimately show ?thesis using parse_jar_fields [OF assms] False
    by (simp add: parse_netscape_line_def jar_line_fields)
qed

text \<open>A cookie whose expiry is past the reader's range makes a line the reader calls malformed.\<close>

definition unreadable :: "cookie \<Rightarrow> bool" where
  "unreadable c \<longleftrightarrow> storable (c\<lparr>ck_expires := Some 1\<rparr>) \<and> \<not> ck_http_only c \<and>
     (\<exists>e. ck_expires c = Some e \<and> 2 ^ 63 \<le> unat e)"

lemma parse_unreadable_line:
  assumes "unreadable c" and "ck_expires c = Some e"
  shows "parse_netscape_line (jar_line c e) = Malformed"
proof -
  let ?c = "c\<lparr>ck_expires := Some 1\<rparr>"
  have c: "storable ?c" "\<not> ck_http_only ?c" using assms by (simp_all add: unreadable_def)
  obtain d ds where d: "ck_domain c = d # ds" "d \<noteq> CHR ''#''"
    using c by (cases "ck_domain c") (auto simp: storable_def)
  have f: "jar_fields ?c e = jar_fields c e" by (simp add: jar_fields_def)
  have "strip_prefix ''#HttpOnly_'' (jar_fields c e) = None" "\<not> starts_with ''#'' (jar_fields c e)"
    by (simp_all add: jar_fields_def d strip_prefix_def starts_with_def)
  moreover have "trim (jar_fields c e) \<noteq> []"
    using trim_graphic [OF jar_fields_graphic, of c e] by (auto simp: graphic_def)
  moreover obtain n where n: "unat e = n" "2 ^ 63 \<le> int n" using assms by (auto simp: unreadable_def)
  then have "parse_i64 (show_nat (unat e)) = None" using parse_i64_show_big [OF n(2)] by simp
  then have "parse_netscape_fields False (jar_fields c e) = Malformed"
    using split_jar_fields [OF c(1), of e] d by (simp add: f parse_netscape_fields_def)
  ultimately show ?thesis using c by (simp add: parse_netscape_line_def jar_line_fields)
qed

lemma lines_of_cons:
  "CHR 0x0A \<notin> set l \<Longrightarrow> lines_of (l @ CHR 0x0A # t) = strip_cr l # lines_of t"
  by (simp add: lines_of_def split_char_field Let_def)

lemma lines_of_text:
  "(\<And>l. l \<in> set ls \<Longrightarrow> CHR 0x0A \<notin> set l \<and> CHR 0x0D \<notin> set l) \<Longrightarrow>
     lines_of (concat (map (\<lambda>l. l @ [CHR 0x0A]) ls)) = ls"
proof (induction ls)
  case (Cons l ls)
  have "strip_cr l = l"
  proof (cases "l = []")
    case False
    then have "last l \<noteq> CHR 0x0D" using Cons.prems [of l] by (metis last_in_set list.set_intros(1))
    then show ?thesis by (simp add: strip_cr_def)
  qed (simp add: strip_cr_def)
  with Cons show ?case by (simp add: lines_of_cons)
qed (simp add: lines_of_def)

lemma jar_lines_storable:
  "(\<And>c. c \<in> set cs \<Longrightarrow> ck_expires c \<noteq> None \<Longrightarrow> storable c) \<Longrightarrow>
     jar_lines cs = map (\<lambda>c. jar_line c (the (ck_expires c))) (filter (\<lambda>c. ck_expires c \<noteq> None) cs)"
proof (induction cs)
  case (Cons c cs)
  then have "jar_lines cs = map (\<lambda>c. jar_line c (the (ck_expires c))) (filter (\<lambda>c. ck_expires c \<noteq> None) cs)" by simp
  then show ?case using Cons.prems [of c] by (auto simp: storable_def clean_cookie_def clean_no_separator)
qed simp

lemma jar_line_text:
  assumes "storable c"
  shows "CHR 0x0A \<notin> set (jar_line c e)" and "CHR 0x0D \<notin> set (jar_line c e)" and "valid_str (jar_line c e)"
proof -
  have "valid_str (show_nat (unat e))" using show_nat_digits [of _ "unat e"] by (intro valid_str_ascii) fastforce
  moreover have "valid_str TAB" "valid_str ''FALSE''" "valid_str ''TRUE''" "valid_str ''#HttpOnly_''" "valid_str []"
    by (auto intro!: valid_str_ascii)
  ultimately show "valid_str (jar_line c e)"
    using assms unfolding jar_line_def storable_def by (intro valid_str_append) auto
  show "CHR 0x0A \<notin> set (jar_line c e)" "CHR 0x0D \<notin> set (jar_line c e)"
    using assms show_nat_no_separator [of "unat e"] clean_no_separator [of "ck_name c"] clean_no_separator [of "ck_value c"]
    by (simp_all add: jar_line_def storable_def clean_cookie_def separator_iff)
qed

lemma load_jar_lines:
  "(\<And>c. c \<in> set cs \<Longrightarrow> storable c) \<Longrightarrow>
     load_lines (map (\<lambda>c. jar_line c (the (ck_expires c))) cs) j = Inr (j\<lparr>cj_cookies := cj_cookies j @ cs\<rparr>)"
proof (induction cs arbitrary: j)
  case (Cons c cs)
  then obtain e where e: "storable c" "ck_expires c = Some e" by (auto simp: storable_def)
  with Cons show ?case by (simp add: jar_line_text parse_jar_line push_cookie_def)
qed simp

lemma load_banner: "load_lines (jar_banner @ ls) j = load_lines ls j"
proof -
  have "valid_str l \<and> parse_netscape_line l = Skip" if l: "l \<in> set jar_banner" for l
  proof
    show "valid_str l" using l by (auto simp: jar_banner_def intro!: valid_str_ascii)
    show "parse_netscape_line l = Skip"
      using l by (auto simp: jar_banner_def parse_netscape_line_def strip_prefix_def starts_with_def trim_trimmed trimmed_def)
  qed
  then show ?thesis by (simp add: jar_banner_def)
qed

lemma banner_text: "l \<in> set jar_banner \<Longrightarrow> CHR 0x0A \<notin> set l \<and> CHR 0x0D \<notin> set l"
  by (auto simp: jar_banner_def)

text \<open>One cookie whose \<open>Max-Age\<close> put its expiry past \<open>i64::MAX\<close> makes the whole saved jar fail to load.\<close>

lemma far_expiry_spoils_jar:
  assumes "unreadable c" and "cj_cookies j = [c]"
  shows "load_netscape (Inr (save_netscape j)) = Inl (BadResponse ''cookies.txt: malformed line {} in {path}'')"
proof -
  from assms obtain e where e: "ck_expires c = Some e" "storable (c\<lparr>ck_expires := Some 1\<rparr>)" by (auto simp: unreadable_def)
  have f: "jar_line (c\<lparr>ck_expires := Some 1\<rparr>) e = jar_line c e" by (simp add: jar_line_def)
  note tx = jar_line_text [OF e(2), of e, unfolded f]
  have "jar_lines (cj_cookies j) = [jar_line c e]"
    using assms(2) e by (simp add: storable_def clean_cookie_def clean_no_separator)
  moreover have "lines_of (concat (map (\<lambda>l. l @ [CHR 0x0A]) (jar_banner @ [jar_line c e]))) = jar_banner @ [jar_line c e]"
    using tx banner_text by (intro lines_of_text) auto
  ultimately show ?thesis using tx(3) parse_unreadable_line [OF assms(1) e(1)]
    by (simp only: load_netscape_def save_netscape_def liftIo.simps bindR.simps load_banner) simp
qed

subsection \<open>Properties\<close>



text \<open>The \<open>Cookie:\<close> header of any jar, loaded from disk or not, holds no control character: it is the pairs
  of cookies of the jar that match the request, longest path first.\<close>

lemma cookie_header_clean:
  assumes "cookie_header now u j = Some h"
  shows "\<not> has_forbidden_cookie_char h \<and>
    (\<exists>cs. h = join_semicolon (map (\<lambda>c. ck_name c @ ''='' @ ck_value c) cs) \<and>
       set cs \<subseteq> {c \<in> set (cj_cookies j). matches_request c u now} \<and>
       sorted_wrt (\<lambda>c d. length (ck_path d) \<le> length (ck_path c)) cs)"
proof -
  let ?cs = "outgoing now u j"
  from assms have h: "h = join_semicolon (map (\<lambda>c. ck_name c @ ''='' @ ck_value c) ?cs)"
    by (auto simp: cookie_header_def Let_def split: if_splits)
  have "\<not> has_forbidden_cookie_char h" unfolding h
    by (intro join_semicolon_clean) (auto dest!: outgoing_cookies simp: has_forbidden_cookie_char_def)
  moreover have "sorted_wrt (\<lambda>c d. length (ck_path d) \<le> length (ck_path c)) ?cs"
    using sorted_sort_key [of "\<lambda>c. - int (length (ck_path c))"]
    by (simp add: outgoing_def sorted_map)
  moreover have "set ?cs \<subseteq> {c \<in> set (cj_cookies j). matches_request c u now}" using outgoing_cookies by blast
  ultimately show ?thesis using h by blast
qed

lemma cookie_header_clean_witness:
  "cookie_header 2 example_page \<lparr>cj_cookies = [example_cookie]\<rparr> = Some ''i=9'' \<and>
     \<not> has_forbidden_cookie_char ''i=9''"
proof -
  have h: "cookie_header 2 example_page \<lparr>cj_cookies = [example_cookie]\<rparr> = Some ''i=9''"
    by (simp add: cookie_header_def outgoing_def matches_request_def example_cookie_def example_page_def is_tls_def
        path_match_def cookie_eval str_eval)
  with cookie_header_clean [OF h] show ?thesis by blast
qed

text \<open>C15: A jar whose persistent cookies the format can hold comes back from its file as it was, less the session
  cookies, in the same order.\<close>

theorem jar_file_roundtrip:
  assumes "\<And>c. c \<in> set (cj_cookies j) \<Longrightarrow> ck_expires c \<noteq> None \<Longrightarrow> storable c"
  shows "load_netscape (Inr (save_netscape j)) = Inr \<lparr>cj_cookies = filter (\<lambda>c. ck_expires c \<noteq> None) (cj_cookies j)\<rparr>"
proof -
  let ?cs = "filter (\<lambda>c. ck_expires c \<noteq> None) (cj_cookies j)"
  let ?ls = "map (\<lambda>c. jar_line c (the (ck_expires c))) ?cs"
  have l: "CHR 0x0A \<notin> set l \<and> CHR 0x0D \<notin> set l" if l: "l \<in> set (jar_banner @ ?ls)" for l
  proof (cases "l \<in> set jar_banner")
    case False
    with l obtain c e where "c \<in> set (cj_cookies j)" "ck_expires c = Some e" "l = jar_line c e" by auto
    with assms show ?thesis by (simp add: jar_line_text)
  qed (rule banner_text)
  have "jar_lines (cj_cookies j) = ?ls" using assms by (rule jar_lines_storable)
  then have "lines_of (save_netscape j) = jar_banner @ ?ls"
    unfolding save_netscape_def by (simp only:) (rule lines_of_text, rule l)
  moreover have "load_lines ?ls jar_new = Inr \<lparr>cj_cookies = ?cs\<rparr>"
    by (subst load_jar_lines) (use assms in \<open>auto simp: jar_new_def\<close>)
  ultimately show ?thesis by (simp only: load_netscape_def liftIo.simps bindR.simps load_banner)
qed

lemma jar_file_roundtrip_witness:
  "load_netscape (Inr (save_netscape \<lparr>cj_cookies = [example_cookie]\<rparr>)) = Inr \<lparr>cj_cookies = [example_cookie]\<rparr>"
proof -
  have "valid_str ''i''" "valid_str ''9''" "valid_str ''b.c''" "valid_str ''/''" by (auto intro!: valid_str_ascii)
  then have "storable example_cookie"
    by (simp add: storable_def clean_cookie_def example_cookie_def has_jar_separator_def cookie_eval)
  then show ?thesis using jar_file_roundtrip [of "\<lparr>cj_cookies = [example_cookie]\<rparr>"] by (simp add: example_cookie_def)
qed

end
