(* ===== verification/Client.thy ===== *)
theory Client
  imports Client_Conn Cookie
begin

text \<open>
  The whole transfer of an HTTP request (\<open>Request::send_to\<close> of \<open>src/src/http.rs\<close>): the loop over redirects, with
  the deadline, the cookie jar before and after each hop, the rewriting of method and body, and the headers that
  must not follow to another origin.  The loop takes the single hop as an argument, so that its properties are about
  any protocol underneath; \<open>send\<close> is the loop over \<open>send_once\<close>.  The verbose trace is left out.
\<close>

subsection \<open>The loop\<close>

text \<open>\<open>Instant::now\<close> in nanoseconds, and \<open>unix_now\<close>.\<close>

record 's clock =
  k_instant :: "'s \<Rightarrow> nat \<times> 's"
  k_unix :: "'s \<Rightarrow> u64 \<times> 's"

type_synonym 's sender = "request \<Rightarrow> 's \<Rightarrow> (response result \<times> 's) option"

definition is_header :: "string \<Rightarrow> string \<times> string \<Rightarrow> bool" where
  "is_header name h \<longleftrightarrow> eq_ignore_ascii_case (fst h) name"

text \<open>The snapshot that goes out on a hop, with the jar's cookies in place of any stale \<open>Cookie:\<close> header.\<close>

definition attach_cookies ::
  "'s clock \<Rightarrow> request \<Rightarrow> cookie_jar option \<Rightarrow> 's \<Rightarrow> request \<times> cookie_jar option \<times> 's" where
  "attach_cookies K req jar s =
     (case jar of
        None \<Rightarrow> (req, None, s)
      | Some j \<Rightarrow>
          let (now, s) = k_unix K s;
              j = purge_expired now j;
              hs = filter (\<lambda>h. \<not> is_header ''cookie'' h) (rq_headers req);
              (now, s) = k_unix K s;
              hs = (case cookie_header now (rq_url req) j of Some val \<Rightarrow> hs @ [(''Cookie'', val)] | None \<Rightarrow> hs)
          in (req\<lparr>rq_headers := hs\<rparr>, Some j, s))"

definition ingest :: "'s clock \<Rightarrow> url \<Rightarrow> response \<Rightarrow> cookie_jar option \<Rightarrow> 's \<Rightarrow> cookie_jar option \<times> 's" where
  "ingest K url resp jar s =
     (case jar of
        None \<Rightarrow> (None, s)
      | Some j \<Rightarrow> let (now, s) = k_unix K s in (Some (ingest_response now url (rs_headers resp) j), s))"

text \<open>The request of the next hop.\<close>

definition redirect_request :: "request \<Rightarrow> u16 \<Rightarrow> url \<Rightarrow> request" where
  "redirect_request req status next_url =
     (let host_changed = (u_host next_url \<noteq> u_host (rq_url req) \<or> u_port next_url \<noteq> u_port (rq_url req) \<or>
                          u_scheme next_url \<noteq> u_scheme (rq_url req));
          prev_method = rq_method req;
          prev_body = rq_body req;
          next = req\<lparr>rq_url := next_url, rq_body := []\<rparr>;
          next = (if host_changed
                  then next\<lparr>rq_headers := filter (\<lambda>h. \<not> is_header ''authorization'' h \<and> \<not> is_header ''cookie'' h) (rq_headers next),
                            rq_basic_auth := None\<rparr>
                  else next)
      in if 301 \<le> status \<and> status \<le> 303 \<and> \<not> eq_ignore_ascii_case prev_method ''GET'' \<and>
            \<not> eq_ignore_ascii_case prev_method ''HEAD''
         then next\<lparr>rq_method := ''GET'',
                   rq_headers := filter (\<lambda>h. \<not> is_header ''content-type'' h \<and> \<not> is_header ''content-length'' h \<and>
                                              \<not> is_header ''transfer-encoding'' h) (rq_headers next)\<rparr>
         else next\<lparr>rq_body := prev_body\<rparr>)"

datatype hop_outcome = Finished "response result" | Follow request

definition after_response :: "nat \<Rightarrow> request \<Rightarrow> response \<Rightarrow> hop_outcome" where
  "after_response hops_left req resp =
     (if \<not> rq_follow_redirects req \<or> \<not> is_redirect_status (rs_status resp) then Finished (Inr resp)
      else if hops_left = 0 then Finished (Inl (BadResponse ''maximum ({}) redirects followed''))
      else case response_header ''location'' resp of
        None \<Rightarrow> Finished (Inr resp)
      | Some location \<Rightarrow>
          (case url_resolve (rq_url req) location of
             Inl e \<Rightarrow> Finished (Inl e)
           | Inr next_url \<Rightarrow> Follow (redirect_request req (rs_status resp) next_url)))"

definition timed_out :: "'s clock \<Rightarrow> nat option \<Rightarrow> 's \<Rightarrow> bool \<times> 's" where
  "timed_out K deadline s =
     (case deadline of None \<Rightarrow> (False, s) | Some end_time \<Rightarrow> let (now, s) = k_instant K s in (end_time \<le> now, s))"

text \<open>One turn of the loop.\<close>

definition one_hop ::
  "'s sender \<Rightarrow> 's clock \<Rightarrow> nat option \<Rightarrow> nat \<Rightarrow> request \<Rightarrow> cookie_jar option \<Rightarrow> 's \<Rightarrow>
   (hop_outcome \<times> cookie_jar option \<times> 's) option" where
  "one_hop once K deadline hops_left req jar s =
     (case timed_out K deadline s of
        (True, s) \<Rightarrow> Some (Finished (Inl (BadResponse ''operation timed out'')), jar, s)
      | (False, s) \<Rightarrow>
          let (snapshot, jar, s) = attach_cookies K req jar s
          in case once snapshot s of
               None \<Rightarrow> None
             | Some (Inl e, s) \<Rightarrow> Some (Finished (Inl e), jar, s)
             | Some (Inr resp, s) \<Rightarrow>
                 let (jar, s) = ingest K (rq_url req) resp jar s
                 in Some (after_response hops_left req resp, jar, s))"

fun send_hops ::
  "'s sender \<Rightarrow> 's clock \<Rightarrow> nat option \<Rightarrow> nat \<Rightarrow> request \<Rightarrow> cookie_jar option \<Rightarrow> 's \<Rightarrow>
   (response result \<times> cookie_jar option \<times> 's) option" where
  "send_hops once K deadline hops_left req jar s =
     (case one_hop once K deadline hops_left req jar s of
        None \<Rightarrow> None
      | Some (Finished r, jar, s) \<Rightarrow> Some (r, jar, s)
      | Some (Follow next, jar, s) \<Rightarrow>
          (case hops_left of
             0 \<Rightarrow> Some (Inl panicked, jar, s)
           | Suc hops_left \<Rightarrow> send_hops once K deadline hops_left next jar s))"

declare send_hops.simps [simp del]

definition send_to ::
  "'s sender \<Rightarrow> 's clock \<Rightarrow> request \<Rightarrow> cookie_jar option \<Rightarrow> 's \<Rightarrow> (response result \<times> cookie_jar option \<times> 's) option"
where
  "send_to once K req jar s =
     (let (deadline, s) = (case rq_max_time req of
            None \<Rightarrow> (None, s)
          | Some d \<Rightarrow> let (now, s) = k_instant K s in (Some (now + d), s))
      in send_hops once K deadline (unat (rq_max_redirs req)) req jar s)"

text \<open>The public entry points, over the HTTP hop of \<open>Client_Conn\<close>.\<close>

definition client_clock :: "'w clock \<Rightarrow> 'w client clock" where
  "client_clock K = \<lparr>k_instant = on_world (k_instant K), k_unix = on_world (k_unix K)\<rparr>"

definition send :: "'w net \<Rightarrow> 'w clock \<Rightarrow> request \<Rightarrow> 'w client \<Rightarrow> (response result \<times> cookie_jar option \<times> 'w client) option" where
  "send N K req cl = send_to (send_once N) (client_clock K) req None cl"

definition send_with_jar ::
  "'w net \<Rightarrow> 'w clock \<Rightarrow> request \<Rightarrow> cookie_jar \<Rightarrow> 'w client \<Rightarrow> (response result \<times> cookie_jar option \<times> 'w client) option"
where
  "send_with_jar N K req j cl = send_to (send_once N) (client_clock K) req (Some j) cl"

subsection \<open>The requests of a chain\<close>

text \<open>A sender that keeps a record of the requests it was given.\<close>

definition logged :: "'s sender \<Rightarrow> ('s \<times> request list) sender" where
  "logged once req sl = map_option (\<lambda>(r, s). (r, s, snd sl @ [req])) (once req (fst sl))"

definition logged_clock :: "'s clock \<Rightarrow> ('s \<times> request list) clock" where
  "logged_clock K =
     \<lparr>k_instant = (\<lambda>(s, l). let (n, s) = k_instant K s in (n, s, l)),
      k_unix = (\<lambda>(s, l). let (n, s) = k_unix K s in (n, s, l))\<rparr>"

text \<open>What a hop may send for the request it holds.\<close>

definition snapshot_of :: "bool \<Rightarrow> request \<Rightarrow> request \<Rightarrow> bool" where
  "snapshot_of with_jar req snap \<longleftrightarrow>
     (if \<not> with_jar then snap = req
      else \<exists>now j. snap = req\<lparr>rq_headers := filter (\<lambda>h. \<not> is_header ''cookie'' h) (rq_headers req) @
        (case cookie_header now (rq_url req) j of Some val \<Rightarrow> [(''Cookie'', val)] | None \<Rightarrow> [])\<rparr>)"

inductive hop_chain :: "bool \<Rightarrow> nat \<Rightarrow> request \<Rightarrow> request list \<Rightarrow> bool" for with_jar where
  late: "hop_chain with_jar n req []"
| final: "snapshot_of with_jar req snap \<Longrightarrow> hop_chain with_jar n req [snap]"
| follow: "snapshot_of with_jar req snap \<Longrightarrow> url_resolve (rq_url req) location = Inr next_url \<Longrightarrow>
    hop_chain with_jar n (redirect_request req status next_url) snaps \<Longrightarrow> hop_chain with_jar (Suc n) req (snap # snaps)"

lemma snapshot_attach:
  assumes "attach_cookies K req jar s = (snap, jar', s')"
  shows "snapshot_of (jar \<noteq> None) req snap \<and> (jar' = None \<longleftrightarrow> jar = None)"
proof (cases jar)
  case None
  with assms show ?thesis by (auto simp: attach_cookies_def snapshot_of_def)
next
  case (Some j)
  obtain t1 s1 where k1: "k_unix K s = (t1, s1)" by (cases "k_unix K s") blast
  obtain t2 s2 where k2: "k_unix K s1 = (t2, s2)" by (cases "k_unix K s1") blast
  from assms Some k1 k2 have "snap = req\<lparr>rq_headers := filter (\<lambda>h. \<not> is_header ''cookie'' h) (rq_headers req) @
      (case cookie_header t2 (rq_url req) (purge_expired t1 j) of Some val \<Rightarrow> [(''Cookie'', val)] | None \<Rightarrow> [])\<rparr>"
    "jar' = Some (purge_expired t1 j)"
    by (auto simp: attach_cookies_def Let_def split: option.splits)
  with Some show ?thesis by (auto simp: snapshot_of_def)
qed

lemma ingest_jar: "ingest K url resp jar s = (jar', s') \<Longrightarrow> (jar' = None \<longleftrightarrow> jar = None)"
  by (cases jar) (auto simp: ingest_def Let_def split: prod.splits)

lemma after_response_follow:
  assumes "after_response n req resp = Follow next"
  obtains location u where "url_resolve (rq_url req) location = Inr u" "next = redirect_request req (rs_status resp) u" "n \<noteq> 0"
  using assms that by (auto simp: after_response_def split: if_splits option.splits sum.splits)

lemma logged_clock_log:
  "k_unix (logged_clock K) s = (now, s') \<Longrightarrow> snd s' = snd s" "k_instant (logged_clock K) s = (t, s') \<Longrightarrow> snd s' = snd s"
  by (auto simp: logged_clock_def split: prod.splits)

lemma attach_log: "attach_cookies (logged_clock K) req jar s = (snap, jar', s') \<Longrightarrow> snd s' = snd s"
  by (auto simp: attach_cookies_def Let_def split: option.splits prod.splits dest!: logged_clock_log)

lemma ingest_log: "ingest (logged_clock K) url resp jar s = (jar', s') \<Longrightarrow> snd s' = snd s"
  by (auto simp: ingest_def Let_def split: option.splits prod.splits dest!: logged_clock_log)

lemma timed_out_log: "timed_out (logged_clock K) d s = (b, s') \<Longrightarrow> snd s' = snd s"
  by (auto simp: timed_out_def Let_def split: option.splits prod.splits dest!: logged_clock_log)

text \<open>What a turn of the loop adds to the record.\<close>

lemma one_hop_logged:
  assumes "one_hop (logged once) (logged_clock K) deadline n req jar s = Some (out, jar', s')"
  shows "(\<exists>r. out = Finished r \<and> snd s' = snd s) \<or>
    (\<exists>snap. snapshot_of (jar \<noteq> None) req snap \<and> snd s' = snd s @ [snap] \<and> (jar' = None \<longleftrightarrow> jar = None) \<and>
       (\<forall>next. out = Follow next \<longrightarrow> n \<noteq> 0 \<and> (\<exists>location u status. url_resolve (rq_url req) location = Inr u \<and>
          next = redirect_request req status u)))"
proof -
  obtain late s1 where t: "timed_out (logged_clock K) deadline s = (late, s1)" by (metis surj_pair)
  note t1 = timed_out_log [OF t]
  show ?thesis
  proof (cases late)
    case True
    with assms t t1 show ?thesis by (auto simp: one_hop_def)
  next
    case False
    obtain snap jar1 s2 where a: "attach_cookies (logged_clock K) req jar s1 = (snap, jar1, s2)" by (metis prod_cases3)
    note a1 = snapshot_attach [OF a] attach_log [OF a]
    obtain r s3 where o: "logged once snap s2 = Some (r, s3)" "snd s3 = snd s2 @ [snap]"
      using assms t a False by (auto simp: one_hop_def logged_def split: option.splits)
    show ?thesis
    proof (cases r)
      case (Inl e)
      with assms t a o a1 t1 False show ?thesis by (auto simp: one_hop_def)
    next
      case (Inr resp)
      obtain jar2 s4 where i: "ingest (logged_clock K) (rq_url req) resp jar1 s3 = (jar2, s4)" by (metis surj_pair)
      have out: "out = after_response n req resp" "jar' = jar2" "s' = s4"
        using assms t a o i Inr False by (auto simp: one_hop_def)
      have "n \<noteq> 0 \<and> (\<exists>location u status. url_resolve (rq_url req) location = Inr u \<and> next = redirect_request req status u)"
        if "out = Follow next" for "next"
        using after_response_follow [OF that [unfolded out]] by blast
      with out a1 o t1 ingest_jar [OF i] ingest_log [OF i] show ?thesis by auto
    qed
  qed
qed

lemma send_hops_chain:
  "send_hops (logged once) (logged_clock K) deadline n req jar s = Some (r, jar', s') \<Longrightarrow>
     \<exists>snaps. snd s' = snd s @ snaps \<and> hop_chain (jar \<noteq> None) n req snaps"
proof (induction n arbitrary: req jar s)
  case (0 req jar s)
  from 0 obtain out jar1 s1 where h: "one_hop (logged once) (logged_clock K) deadline 0 req jar s = Some (out, jar1, s1)"
    by (subst (asm) send_hops.simps) (auto split: option.splits)
  from one_hop_logged [OF h] obtain r1 where "out = Finished r1" by (cases out) auto
  with 0 h have "s' = s1" by (subst (asm) send_hops.simps) auto
  with one_hop_logged [OF h] show ?case by (auto intro: hop_chain.intros)
next
  case (Suc n req jar s)
  from Suc.prems obtain out jar1 s1 where
    h: "one_hop (logged once) (logged_clock K) deadline (Suc n) req jar s = Some (out, jar1, s1)"
    by (subst (asm) send_hops.simps) (auto split: option.splits)
  show ?case
  proof (cases out)
    case (Finished r1)
    with Suc.prems h have "s' = s1" by (subst (asm) send_hops.simps) auto
    with one_hop_logged [OF h] show ?thesis by (auto intro: hop_chain.intros)
  next
    case (Follow "next")
    with Suc.prems h have "send_hops (logged once) (logged_clock K) deadline n next jar1 s1 = Some (r, jar', s')"
      by (subst (asm) send_hops.simps) auto
    from Suc.IH [OF this] obtain snaps where c: "snd s' = snd s1 @ snaps" "hop_chain (jar1 \<noteq> None) n next snaps" by blast
    from one_hop_logged [OF h] Follow obtain snap location u status where
      "snapshot_of (jar \<noteq> None) req snap" "snd s1 = snd s @ [snap]" "jar1 = None \<longleftrightarrow> jar = None"
      "url_resolve (rq_url req) location = Inr u" "next = redirect_request req status u" by auto
    with c show ?thesis by (auto intro: hop_chain.follow)
  qed
qed

lemma send_to_chain:
  assumes "send_to (logged once) (logged_clock K) req jar (s, []) = Some (r, jar', s', snaps)"
  shows "hop_chain (jar \<noteq> None) (unat (rq_max_redirs req)) req snaps"
proof -
  obtain deadline s1 where "snd s1 = []"
    "send_hops (logged once) (logged_clock K) deadline (unat (rq_max_redirs req)) req jar s1 = Some (r, jar', s', snaps)"
    using assms by (auto simp: send_to_def Let_def split: option.splits prod.splits dest!: logged_clock_log)
  from send_hops_chain [OF this(2)] this(1) show ?thesis by auto
qed

subsection \<open>What no hop may do\<close>

definition origin :: "url \<Rightarrow> string \<times> string \<times> u16" where
  "origin u = (u_scheme u, u_host u, u_port u)"

definition no_credentials :: "bool \<Rightarrow> request \<Rightarrow> bool" where
  "no_credentials with_jar req \<longleftrightarrow> rq_basic_auth req = None \<and>
     (\<forall>h\<in>set (rq_headers req). \<not> is_header ''authorization'' h \<and> (\<not> with_jar \<longrightarrow> \<not> is_header ''cookie'' h))"

text \<open>No caller's credentials, and only the jar's cookies for this URL.\<close>

definition stripped :: "bool \<Rightarrow> request \<Rightarrow> bool" where
  "stripped with_jar req \<longleftrightarrow> rq_basic_auth req = None \<and>
     (\<forall>h\<in>set (rq_headers req). \<not> is_header ''authorization'' h \<and>
       (is_header ''cookie'' h \<longrightarrow> with_jar \<and> (\<exists>now j val. h = (''Cookie'', val) \<and> cookie_header now (rq_url req) j = Some val)))"

lemma snapshot_headers:
  assumes "snapshot_of with_jar req snap"
  obtains hs where "snap = req\<lparr>rq_headers := hs\<rparr>"
    and "\<And>h. h \<in> set hs \<Longrightarrow> (h \<in> set (rq_headers req) \<and> (with_jar \<longrightarrow> \<not> is_header ''cookie'' h)) \<or>
      (with_jar \<and> (\<exists>now j val. h = (''Cookie'', val) \<and> cookie_header now (rq_url req) j = Some val))"
proof (cases with_jar)
  case False
  with assms that [of "rq_headers req"] show thesis by (simp add: snapshot_of_def)
next
  case True
  with assms obtain now j where "snap = req\<lparr>rq_headers := filter (\<lambda>h. \<not> is_header ''cookie'' h) (rq_headers req) @
      (case cookie_header now (rq_url req) j of Some val \<Rightarrow> [(''Cookie'', val)] | None \<Rightarrow> [])\<rparr>"
    unfolding snapshot_of_def by auto
  from that [OF this] True show thesis by (fastforce split: option.splits)
qed

lemma snapshot_url [simp]:
  assumes "snapshot_of with_jar req snap"
  shows "rq_url snap = rq_url req"
  using assms by (rule snapshot_headers) simp

lemma cookie_is_no_authorization: "\<not> is_header ''authorization'' (''Cookie'', v)"
  by (simp add: is_header_def eq_ignore_ascii_case_def to_ascii_lowercase_def)

lemma snapshot_stripped: "snapshot_of with_jar req snap \<Longrightarrow> no_credentials with_jar req \<Longrightarrow> stripped with_jar snap"
proof (erule snapshot_headers)
  fix hs
  assume n: "no_credentials with_jar req" and snap: "snap = req\<lparr>rq_headers := hs\<rparr>"
    and hs: "\<And>h. h \<in> set hs \<Longrightarrow> (h \<in> set (rq_headers req) \<and> (with_jar \<longrightarrow> \<not> is_header ''cookie'' h)) \<or>
      (with_jar \<and> (\<exists>now j val. h = (''Cookie'', val) \<and> cookie_header now (rq_url req) j = Some val))"
  have "\<not> is_header ''authorization'' h \<and> (is_header ''cookie'' h \<longrightarrow>
      with_jar \<and> (\<exists>now j val. h = (''Cookie'', val) \<and> cookie_header now (rq_url req) j = Some val))" if "h \<in> set hs" for h
    using hs [OF that] n cookie_is_no_authorization unfolding no_credentials_def by blast
  with n snap show "stripped with_jar snap" by (simp add: stripped_def no_credentials_def)
qed

lemma redirect_url [simp]: "rq_url (redirect_request req status u) = u"
  by (simp add: redirect_request_def Let_def)

lemma redirect_no_credentials:
  "no_credentials with_jar req \<or> origin u \<noteq> origin (rq_url req) \<Longrightarrow> no_credentials with_jar (redirect_request req status u)"
  by (auto simp: no_credentials_def redirect_request_def Let_def origin_def)

lemma chain_stripped:
  "hop_chain with_jar n req snaps \<Longrightarrow> no_credentials with_jar req \<Longrightarrow> snap \<in> set snaps \<Longrightarrow> stripped with_jar snap"
  by (induction rule: hop_chain.induct) (auto simp: snapshot_stripped redirect_no_credentials)

lemma chain_left_origin:
  "hop_chain with_jar n req snaps \<Longrightarrow> origin (rq_url req) = o0 \<Longrightarrow> i < length snaps \<Longrightarrow> j \<le> i \<Longrightarrow>
     origin (rq_url (snaps ! j)) \<noteq> o0 \<Longrightarrow> stripped with_jar (snaps ! i)"
proof (induction arbitrary: i j rule: hop_chain.induct)
  case (follow req snap location next_url n status snaps)
  from follow.prems(4) follow.hyps(1) follow.prems(1) have "j \<noteq> 0" by (cases j) auto
  with follow.prems(2,3) obtain i1 j1 where ij: "i = Suc i1" "j = Suc j1" "i1 < length snaps" "j1 \<le> i1"
    by (cases i; cases j) auto
  show ?case
  proof (cases "origin next_url = o0")
    case True
    with follow.IH [of i1 j1] ij follow.prems show ?thesis by simp
  next
    case False
    then have "no_credentials with_jar (redirect_request req status next_url)"
      using follow.prems(1) by (intro redirect_no_credentials) simp
    with follow.hyps(3) ij show ?thesis by (simp add: chain_stripped)
  qed
qed auto

lemma url_resolve_userinfo [simp]: "url_resolve (base\<lparr>u_userinfo := x\<rparr>) location = url_resolve base location"
  by (simp add: url_resolve_def resolve_relative_def Let_def split: option.split)

lemma chain_userinfo:
  "hop_chain with_jar n req snaps \<Longrightarrow> 0 < i \<Longrightarrow> i < length snaps \<Longrightarrow>
     \<exists>base location. u_userinfo base = None \<and> url_resolve base location = Inr (rq_url (snaps ! i))"
proof (induction arbitrary: i rule: hop_chain.induct)
  case (follow req snap location next_url n status snaps)
  show ?case
  proof (cases "i = 1")
    case True
    from follow.prems(2) True have "snaps \<noteq> []" by auto
    with follow.hyps(3) have "rq_url (snaps ! 0) = next_url" by (cases rule: hop_chain.cases) auto
    with True follow.hyps(2) show ?thesis
      by (intro exI [of _ "(rq_url req)\<lparr>u_userinfo := None\<rparr>"] exI [of _ location]) simp
  next
    case False
    with follow.prems follow.IH [of "i - 1"] show ?thesis by (cases i) auto
  qed
qed auto

text \<open>The parts of a request that redirects may change, as those of another request.\<close>

definition with_target :: "request \<Rightarrow> request \<Rightarrow> request" where
  "with_target req r = r\<lparr>rq_method := rq_method req, rq_url := rq_url req, rq_headers := rq_headers req,
     rq_body := rq_body req, rq_basic_auth := rq_basic_auth req\<rparr>"

lemma with_target_redirect [simp]: "with_target req0 (redirect_request req status u) = with_target req0 req"
  by (simp add: with_target_def redirect_request_def Let_def)

lemma with_target_snapshot: "snapshot_of with_jar req snap \<Longrightarrow> with_target req0 snap = with_target req0 req"
  by (erule snapshot_headers) (simp add: with_target_def)

lemma snapshot_message: "snapshot_of with_jar req snap \<Longrightarrow> rq_method snap = rq_method req \<and> rq_body snap = rq_body req"
  by (erule snapshot_headers) simp

lemma redirect_message:
  "(rq_method (redirect_request req status u), rq_body (redirect_request req status u))
     \<in> {(rq_method req, rq_body req), (''GET'', [])}"
  by (simp add: redirect_request_def Let_def)

lemma chain_shape:
  "hop_chain with_jar n req snaps \<Longrightarrow> length snaps \<le> Suc n \<and>
     (\<forall>snap\<in>set snaps. with_target req0 snap = with_target req0 req \<and>
        (rq_method snap, rq_body snap) \<in> {(rq_method req, rq_body req), (''GET'', [])})"
proof (induction rule: hop_chain.induct)
  case (follow req snap location next_url n status snaps)
  from follow.IH redirect_message [of req status next_url] follow.hyps(1) show ?case
    by (auto simp: with_target_snapshot snapshot_message)
qed (auto simp: with_target_snapshot snapshot_message)

subsection \<open>Transfers return\<close>

lemma client_run_on_world: "client_run N cl \<Longrightarrow> on_world f cl = (x, cl') \<Longrightarrow> client_run N cl'"
  by (auto simp: on_world_def intro: client_run.elsewhere split: prod.splits)

lemma client_run_attach:
  "client_run N cl \<Longrightarrow> attach_cookies (client_clock K) req jar cl = (snap, jar', cl') \<Longrightarrow> client_run N cl'"
  by (auto simp: attach_cookies_def client_clock_def Let_def split: option.splits prod.splits dest: client_run_on_world)

lemma client_run_ingest: "client_run N cl \<Longrightarrow> ingest (client_clock K) url resp jar cl = (jar', cl') \<Longrightarrow> client_run N cl'"
  by (auto simp: ingest_def client_clock_def Let_def split: option.splits prod.splits dest: client_run_on_world)

lemma client_run_timed_out: "client_run N cl \<Longrightarrow> timed_out (client_clock K) d cl = (b, cl') \<Longrightarrow> client_run N cl'"
  by (auto simp: timed_out_def client_clock_def Let_def split: option.splits prod.splits dest: client_run_on_world)

lemma one_hop_returns:
  assumes "client_run N cl"
  shows "\<exists>out jar' cl'. one_hop (send_once N) (client_clock K) deadline n req jar cl = Some (out, jar', cl') \<and> client_run N cl'"
proof -
  obtain late cl1 where t: "timed_out (client_clock K) deadline cl = (late, cl1)" by (metis surj_pair)
  obtain snap jar1 cl2 where a: "attach_cookies (client_clock K) req jar cl1 = (snap, jar1, cl2)" by (metis prod_cases3)
  note run1 = client_run_timed_out [OF assms t]
  note run2 = client_run_attach [OF run1 a]
  obtain r cl3 where o: "send_once N snap cl2 = Some (r, cl3)" using send_once_returns [OF client_run_pools [OF run2]] by blast
  note run3 = client_run.hop [OF run2 o]
  show ?thesis
  proof (cases r)
    case (Inl e)
    with t a o run1 run3 show ?thesis by (cases late) (simp_all add: one_hop_def)
  next
    case (Inr resp)
    obtain jar2 cl4 where i: "ingest (client_clock K) (rq_url req) resp jar1 cl3 = (jar2, cl4)" by (metis surj_pair)
    from t a o Inr i run1 client_run_ingest [OF run3 i] show ?thesis by (cases late) (simp_all add: one_hop_def)
  qed
qed

lemma send_hops_returns:
  "client_run N cl \<Longrightarrow> \<exists>r jar' cl'. send_hops (send_once N) (client_clock K) deadline n req jar cl = Some (r, jar', cl') \<and> client_run N cl'"
proof (induction n arbitrary: req jar cl)
  case 0
  from one_hop_returns [OF 0] obtain out jar1 cl1 where
    "one_hop (send_once N) (client_clock K) deadline 0 req jar cl = Some (out, jar1, cl1)" "client_run N cl1" by blast
  then show ?case by (subst send_hops.simps) (cases out, auto)
next
  case (Suc n)
  from one_hop_returns [OF Suc.prems] obtain out jar1 cl1 where
    h: "one_hop (send_once N) (client_clock K) deadline (Suc n) req jar cl = Some (out, jar1, cl1)" "client_run N cl1" by blast
  then show ?case using Suc.IH [OF h(2)] by (subst send_hops.simps) (cases out, auto)
qed

lemma send_to_returns:
  assumes "client_run N cl"
  shows "\<exists>r jar' cl'. send_to (send_once N) (client_clock K) req jar cl = Some (r, jar', cl') \<and> client_run N cl'"
proof (cases "rq_max_time req")
  case None
  with send_hops_returns [OF assms] show ?thesis by (simp add: send_to_def)
next
  case (Some d)
  obtain now cl1 where k: "on_world (k_instant K) cl = (now, cl1)" by (metis surj_pair)
  from send_hops_returns [OF client_run_on_world [OF assms k]] Some k show ?thesis
    by (simp add: send_to_def client_clock_def)
qed

text \<open>A sender that redirects from host \<open>h\<close> to host \<open>b\<close>.\<close>

definition example_sender :: "unit sender" where
  "example_sender req s =
     Some (Inr (if u_host (rq_url req) = ''h''
       then \<lparr>rs_status = 302, rs_reason = [], rs_version = ''HTTP/1.1'', rs_headers = [(''location'', ''http://b/'')], rs_body = []\<rparr>
       else \<lparr>rs_status = 200, rs_reason = [], rs_version = ''HTTP/1.1'', rs_headers = [], rs_body = []\<rparr>), s)"

definition example_clock :: "unit clock" where
  "example_clock = \<lparr>k_instant = (\<lambda>s. (0, s)), k_unix = (\<lambda>s. (0, s))\<rparr>"

definition secret_request :: request where
  "secret_request = example_plain\<lparr>rq_headers := [(''Authorization'', ''Basic x'')], rq_follow_redirects := True, rq_max_redirs := 1\<rparr>"

definition url_b :: url where
  "url_b = \<lparr>u_scheme = ''http'', u_userinfo = None, u_host = ''b'', u_port = 80, u_path = ''/''\<rparr>"

lemma resolve_b: "url_resolve base ''http://b/'' = Inr url_b"
  by (simp add: url_resolve_def url_eval scheme_char_def url_b_def)

lemma example_chain:
  "send_to (logged example_sender) (logged_clock example_clock) secret_request None ((), []) =
     Some (Inr \<lparr>rs_status = 200, rs_reason = [], rs_version = ''HTTP/1.1'', rs_headers = [], rs_body = []\<rparr>, None,
       (), [secret_request, secret_request\<lparr>rq_url := url_b, rq_headers := []\<rparr>])"
  by (simp add: send_to_def secret_request_def example_plain_def example_request_def send_hops.simps one_hop_def
      timed_out_def attach_cookies_def logged_def example_sender_def ingest_def after_response_def is_redirect_status_def
      response_header_def resolve_b redirect_request_def url_b_def is_header_def str_eval Let_def)

subsection \<open>Properties\<close>


text \<open>A transfer sends at most one request more than the redirects allowed.  Every one of them keeps the caller's TLS,
  proxy and timeout settings, and has either the caller's method and body or is a \<open>GET\<close> without a body.\<close>

lemma redirects_bounded:
  assumes "send_to (logged once) (logged_clock K) req jar (s, []) = Some (r, jar', s', snaps)"
  shows "length snaps \<le> Suc (unat (rq_max_redirs req)) \<and>
    (\<forall>snap\<in>set snaps. with_target req snap = req \<and>
       (rq_method snap, rq_body snap) \<in> {(rq_method req, rq_body req), (''GET'', [])})"
proof -
  have "with_target req req = req" by (simp add: with_target_def)
  with chain_shape [OF send_to_chain [OF assms], of req] show ?thesis by simp
qed


lemma redirects_bounded_witness:
  "length [secret_request, secret_request\<lparr>rq_url := url_b, rq_headers := []\<rparr>] \<le> Suc (unat (rq_max_redirs secret_request))"
  using redirects_bounded [OF example_chain] by blast



end
