(* ===== verification/Websocket.thy ===== *)
theory Websocket
  imports Http_Types
begin

text \<open>
  WebSocket client (\<open>src/src/websocket.rs\<close>): the frame codec, the loop that reassembles a message and answers control
  frames, sending, permessage-deflate negotiation, and the upgrade handshake.  The stream is a transport together
  with the outcomes of the next draws from the operating system's entropy source.  SHA-1 and the raw-deflate codec of third-party crates
  are parameters; \<open>df_inflate\<close> stands for the bounded decoder as \<open>run_inflate\<close> drives it.
\<close>

abbreviation (input) OPCODE_CONT :: byte where "OPCODE_CONT \<equiv> 0x0"
abbreviation (input) OPCODE_TEXT :: byte where "OPCODE_TEXT \<equiv> 0x1"
abbreviation (input) OPCODE_BINARY :: byte where "OPCODE_BINARY \<equiv> 0x2"
abbreviation (input) OPCODE_CLOSE :: byte where "OPCODE_CLOSE \<equiv> 0x8"
abbreviation (input) OPCODE_PING :: byte where "OPCODE_PING \<equiv> 0x9"
abbreviation (input) OPCODE_PONG :: byte where "OPCODE_PONG \<equiv> 0xA"
abbreviation (input) MAX_PAYLOAD_BYTES :: nat where "MAX_PAYLOAD_BYTES \<equiv> 67108864"
abbreviation (input) MAX_CONTROL_PAYLOAD :: nat where "MAX_CONTROL_PAYLOAD \<equiv> 125"

record ws_stream =
  ws_t :: transport
  ws_rng :: "(nat \<Rightarrow> byte) option list"

definition on_stream :: "(transport \<Rightarrow> 'a \<times> transport) \<Rightarrow> ws_stream \<Rightarrow> 'a \<times> ws_stream" where
  "on_stream f io = (let (r, t) = f (ws_t io) in (r, io\<lparr>ws_t := t\<rparr>))"

subsection \<open>Entropy\<close>

text \<open>The next 16 random bytes, or the failure of the source.\<close>

definition random_16 :: "ws_stream \<Rightarrow> bytes result \<times> ws_stream" where
  "random_16 io =
     (case ws_rng io of
        Some f # rest \<Rightarrow> (Inr (map f [0..<16]), io\<lparr>ws_rng := rest\<rparr>)
      | None # rest \<Rightarrow> (Inl (BadResponse ''websocket: no secure entropy source available''), io\<lparr>ws_rng := rest\<rparr>)
      | [] \<Rightarrow> (Inl (BadResponse ''websocket: no secure entropy source available''), io))"

subsection \<open>Frames\<close>

record ws_frame =
  wf_fin :: bool
  wf_rsv1 :: bool
  wf_opcode :: byte
  wf_payload :: bytes

text \<open>The loop of \<open>read_exact\<close>: the end of the input is \<open>UnexpectedEof\<close>.\<close>

definition ws_read_exact :: "nat \<Rightarrow> transport \<Rightarrow> bytes result \<times> transport" where
  "ws_read_exact n t =
     (case read_exact n t of
        (Inl k, t) \<Rightarrow> (Inl (if k = IoUnexpectedEof then UnexpectedEof else Io k), t)
      | (Inr bs, t) \<Rightarrow> (Inr bs, t))"

definition read_payload_len :: "byte \<Rightarrow> transport \<Rightarrow> u64 result \<times> transport" where
  "read_payload_len len7 t =
     (if len7 \<le> 125 then (Inr (ucast len7), t)
      else if len7 = 126 then
        bindS (ws_read_exact 2 t) (\<lambda>ext t. (Inr (ucast (from_be16 (ext ! 0) (ext ! 1))), t))
      else bindS (ws_read_exact 8 t) (\<lambda>ext t. (Inr (from_be64 ext), t)))"

definition ws_read_frame :: "transport \<Rightarrow> ws_frame result \<times> transport" where
  "ws_read_frame t =
     bindS (ws_read_exact 2 t) (\<lambda>header t.
       let b0 = header ! 0; b1 = header ! 1;
           fin = (b0 AND 0x80 \<noteq> 0); rsv1 = (b0 AND 0x40 \<noteq> 0)
       in if b0 AND 0x30 \<noteq> 0 then (Inl (BadResponse ''non-zero RSV2/RSV3 bits on incoming WS frame''), t)
          else
            let opcode = b0 AND 0x0F; masked = (b1 AND 0x80 \<noteq> 0)
            in if masked then (Inl (BadResponse ''server-to-client frame is masked''), t)
               else bindS (read_payload_len (b1 AND 0x7F) t) (\<lambda>payload_len t.
                 if payload_len > of_nat MAX_PAYLOAD_BYTES then (Inl (BadResponse ''WS payload too large: {payload_len} bytes''), t)
                 else bindS (if payload_len > 0 then ws_read_exact (unat payload_len) t else (Inr [], t)) (\<lambda>payload t.
                   (Inr \<lparr>wf_fin = fin, wf_rsv1 = rsv1, wf_opcode = opcode, wf_payload = payload\<rparr>, t))))"

definition mask_payload :: "bytes \<Rightarrow> bytes \<Rightarrow> bytes" where
  "mask_payload key payload = map (\<lambda>(i, b). b XOR key ! (i AND 3)) (enumerate 0 payload)"

text \<open>The length field of \<open>build_client_frame_inner\<close>, with the mask bit.\<close>

definition len_field :: "byte \<Rightarrow> nat \<Rightarrow> bytes" where
  "len_field mask_bit n =
     (if n < 126 then [mask_bit OR of_nat n]
      else if n \<le> 65535 then (mask_bit OR 126) # to_be16 (of_nat n)
      else (mask_bit OR 127) # to_be64 (of_nat n))"

definition build_client_frame_inner :: "byte \<Rightarrow> bytes \<Rightarrow> bool \<Rightarrow> ws_stream \<Rightarrow> bytes result \<times> ws_stream" where
  "build_client_frame_inner opcode payload rsv1 io =
     bindS (random_16 io) (\<lambda>r io.
       let key = [r ! 0, r ! 1, r ! 2, r ! 3];
           rsv1_bit = (if rsv1 then 0x40 else 0x00)
       in (Inr ((0x80 OR rsv1_bit OR (opcode AND 0x0F)) # len_field 0x80 (length payload) @ key @ mask_payload key payload), io))"

definition build_client_frame :: "byte \<Rightarrow> bytes \<Rightarrow> ws_stream \<Rightarrow> bytes result \<times> ws_stream" where
  "build_client_frame opcode payload = build_client_frame_inner opcode payload False"

definition build_client_frame_rsv1 :: "byte \<Rightarrow> bytes \<Rightarrow> ws_stream \<Rightarrow> bytes result \<times> ws_stream" where
  "build_client_frame_rsv1 opcode payload = build_client_frame_inner opcode payload True"

text \<open>\<open>write_all\<close> and \<open>flush\<close> of the stream with \<open>?\<close>.\<close>

definition ws_write :: "bytes \<Rightarrow> ws_stream \<Rightarrow> unit result \<times> ws_stream" where
  "ws_write bs io =
     (let (r, io) = on_stream (\<lambda>t. bindS (write_all bs t) (\<lambda>_ t. flush t)) io in (liftIo r, io))"

subsection \<open>Compression\<close>

text \<open>\<open>df_inflate\<close> inflates one message, at most the given number of bytes of it, and advances the decoder.\<close>

record 'd deflate =
  df_new :: 'd
  df_reset :: "'d \<Rightarrow> 'd"
  df_inflate :: "nat \<Rightarrow> bytes \<Rightarrow> 'd \<Rightarrow> bytes result \<times> 'd"
  df_compress :: "bytes \<Rightarrow> bytes result"

record 'd pmd =
  pmd_client_no_context_takeover :: bool
  pmd_server_no_context_takeover :: bool
  pmd_decoder :: 'd

abbreviation (input) DEFLATE_TAIL :: bytes where "DEFLATE_TAIL \<equiv> [0x00, 0x00, 0xFF, 0xFF]"

definition inflate_message :: "'d deflate \<Rightarrow> bytes \<Rightarrow> 'd pmd \<Rightarrow> bytes result \<times> 'd pmd" where
  "inflate_message D compressed p =
     (let p = (if pmd_server_no_context_takeover p then p\<lparr>pmd_decoder := df_reset D (pmd_decoder p)\<rparr> else p);
          (r, d) = df_inflate D MAX_PAYLOAD_BYTES (compressed @ DEFLATE_TAIL) (pmd_decoder p)
      in (r, p\<lparr>pmd_decoder := d\<rparr>))"

definition deflate_message :: "'d deflate \<Rightarrow> bytes \<Rightarrow> bytes result" where
  "deflate_message D payload =
     bindR (df_compress D payload) (\<lambda>out.
       Inr (if drop (length out - length DEFLATE_TAIL) out = DEFLATE_TAIL then take (length out - length DEFLATE_TAIL) out else out))"

fun read_params :: "string list \<Rightarrow> bool \<times> bool \<Rightarrow> bool \<times> bool" where
  "read_params [] flags = flags"
| "read_params (param # params) (client, server) =
     read_params params
       (let param = trim param in
        if param = [] then (client, server)
        else let token = trim (hd (split_char CHR ''='' param)) in
          if eq_ignore_ascii_case token ''client_no_context_takeover'' then (True, server)
          else if eq_ignore_ascii_case token ''server_no_context_takeover'' then (client, True)
          else (client, server))"

fun parse_pmd_exts :: "'d deflate \<Rightarrow> string list \<Rightarrow> 'd pmd option" where
  "parse_pmd_exts D [] = None"
| "parse_pmd_exts D (ext # exts) =
     (case split_char CHR '';'' ext of
        [] \<Rightarrow> None
      | name # params \<Rightarrow>
          if \<not> eq_ignore_ascii_case (trim name) ''permessage-deflate'' then parse_pmd_exts D exts
          else let (client, server) = read_params params (False, False)
               in Some \<lparr>pmd_client_no_context_takeover = client, pmd_server_no_context_takeover = server,
                        pmd_decoder = df_new D\<rparr>)"

definition parse_pmd_response :: "'d deflate \<Rightarrow> string \<Rightarrow> 'd pmd option" where
  "parse_pmd_response D val = parse_pmd_exts D (split_char CHR '','' val)"

subsection \<open>Messages\<close>

datatype message = DataMessage byte bytes | Closed_by_peer

text \<open>The message in progress.\<close>

record assembly =
  as_frag_opcode :: "byte option"
  as_compressed :: bool
  as_buf :: bytes

definition assembly_new :: assembly where
  "assembly_new = \<lparr>as_frag_opcode = None, as_compressed = False, as_buf = []\<rparr>"

definition accumulate :: "bytes \<Rightarrow> assembly \<Rightarrow> assembly result" where
  "accumulate chunk a =
     (if length (as_buf a) + length chunk > MAX_PAYLOAD_BYTES
      then Inl (BadResponse ''reassembled WS message too large: {total} bytes (max {MAX_PAYLOAD_BYTES})'')
      else Inr (a\<lparr>as_buf := as_buf a @ chunk\<rparr>))"

definition finish_data_message :: "'d deflate \<Rightarrow> byte \<Rightarrow> assembly \<Rightarrow> 'd pmd option \<Rightarrow> message result \<times> 'd pmd option" where
  "finish_data_message D opcode a pmd =
     (if as_compressed a then
        (case pmd of
           None \<Rightarrow> (Inl (BadResponse ''compressed WS message without negotiated permessage-deflate''), None)
         | Some p \<Rightarrow>
             (let (r, p) = inflate_message D (as_buf a) p in (map_sum id (DataMessage opcode) r, Some p)))
      else (Inr (DataMessage opcode (as_buf a)), pmd))"

text \<open>A control frame: a message that ends the loop, or \<open>None\<close> to go on.\<close>

definition handle_control :: "ws_frame \<Rightarrow> ws_stream \<Rightarrow> message option result \<times> ws_stream" where
  "handle_control f io =
     (if wf_rsv1 f then (Inl (BadResponse ''RSV1 set on a WS control frame''), io)
      else if \<not> wf_fin f then (Inl (BadResponse ''fragmented control frame (FIN=0 on a control opcode)''), io)
      else if length (wf_payload f) > MAX_CONTROL_PAYLOAD
      then (Inl (BadResponse ''control frame payload too large: {} bytes (max {MAX_CONTROL_PAYLOAD})''), io)
      else if wf_opcode f = OPCODE_PING then
        bindS (build_client_frame OPCODE_PONG (wf_payload f) io) (\<lambda>pong io.
          bindS (ws_write pong io) (\<lambda>_ io. (Inr None, io)))
      else if wf_opcode f = OPCODE_PONG then (Inr None, io)
      else if wf_opcode f = OPCODE_CLOSE then
        (case build_client_frame OPCODE_CLOSE [] io of
           (Inr close, io) \<Rightarrow> (Inr (Some Closed_by_peer), snd (ws_write close io))
         | (Inl _, io) \<Rightarrow> (Inr (Some Closed_by_peer), io))
      else (Inl (BadResponse ''unknown WS control opcode 0x{other:x}''), io))"

text \<open>A data frame: the opcode of the finished message, or \<open>None\<close> while it is in progress.\<close>

definition handle_data :: "bool \<Rightarrow> ws_frame \<Rightarrow> assembly \<Rightarrow> (byte option \<times> assembly) result" where
  "handle_data negotiated f a =
     (if wf_opcode f = OPCODE_TEXT \<or> wf_opcode f = OPCODE_BINARY then
        (if as_frag_opcode a \<noteq> None
         then Inl (BadResponse ''new data frame began while a fragmented message was in progress'')
         else if wf_rsv1 f \<and> \<not> negotiated
         then Inl (BadResponse ''RSV1 set on a WS frame but permessage-deflate was not negotiated'')
         else
           let a = (if wf_rsv1 f then a\<lparr>as_compressed := True\<rparr> else a)
           in bindR (accumulate (wf_payload f) a) (\<lambda>a.
                if wf_fin f then Inr (Some (wf_opcode f), a)
                else Inr (None, a\<lparr>as_frag_opcode := Some (wf_opcode f)\<rparr>)))
      else if wf_opcode f = OPCODE_CONT then
        (case as_frag_opcode a of
           None \<Rightarrow> Inl (BadResponse ''continuation frame with no message in progress'')
         | Some opcode \<Rightarrow>
             if wf_rsv1 f then Inl (BadResponse ''RSV1 set on a WS continuation frame'')
             else bindR (accumulate (wf_payload f) a) (\<lambda>a.
               Inr (if wf_fin f then Some opcode else None, a)))
      else Inl (BadResponse ''unknown WS opcode 0x{other:x}''))"

text \<open>The loop of \<open>read_message\<close>; every frame takes at least two bytes off the stream.\<close>

lemma ws_read_exact_rest: "ws_read_exact n t = (Inr bs, t') \<Longrightarrow> length bs = n \<and> length (t_in t) = n + length (t_in t')"
  by (auto simp: ws_read_exact_def read_exact_def split: if_splits)

lemma ws_read_frame_shrinks:
  assumes "ws_read_frame t = (Inr f, t')"
  shows "length (t_in t') < length (t_in t)"
proof -
  have len: "length (t_in t2) \<le> length (t_in t1)" if "read_payload_len b t1 = (Inr n, t2)" for b n t1 t2
    using that by (auto simp: read_payload_len_def bindS_eq_Inr split: if_splits dest!: ws_read_exact_rest)
  have pay: "length (t_in t2) \<le> length (t_in t1)"
    if "(if n > 0 then ws_read_exact (unat (n :: u64)) t1 else (Inr [], t1)) = (Inr p, t2)" for n p t1 t2
    using that by (auto split: if_splits dest!: ws_read_exact_rest)
  from assms obtain h t1 n t2 p where "ws_read_exact 2 t = (Inr h, t1)"
    "read_payload_len (h ! 1 AND 0x7F) t1 = (Inr n, t2)"
    "(if n > 0 then ws_read_exact (unat n) t2 else (Inr [], t2)) = (Inr p, t')"
    by (auto simp: ws_read_frame_def bindS_eq_Inr Let_def split: if_split_asm)
  from ws_read_exact_rest [OF this(1)] len [OF this(2)] pay [OF this(3)] show ?thesis by linarith
qed

lemma random_16_in [simp]: "ws_t (snd (random_16 io)) = ws_t io"
  by (auto simp: random_16_def split: list.split option.split)

lemma build_client_in [simp]: "ws_t (snd (build_client_frame_inner opcode p r io)) = ws_t io"
  unfolding build_client_frame_inner_def
  by (rule bindS_state [where P = "\<lambda>s. ws_t s = ws_t io"]) (simp_all add: Let_def)

lemma ws_write_in [simp]: "t_in (ws_t (snd (ws_write bs io))) = t_in (ws_t io)"
proof -
  have "t_in (snd (bindS (write_all bs t) (\<lambda>_ t. flush t))) = t_in t" for t
    by (rule bindS_state [where P = "\<lambda>s. t_in s = t_in t"]) simp_all
  then show ?thesis by (simp add: ws_write_def on_stream_def case_prod_unfold Let_def)
qed

lemma handle_control_in: "t_in (ws_t (snd (handle_control f io))) = t_in (ws_t io)"
proof -
  obtain r1 io1 where b1: "build_client_frame OPCODE_PONG (wf_payload f) io = (r1, io1)" by fastforce
  obtain r2 io2 where b2: "build_client_frame OPCODE_CLOSE [] io = (r2, io2)" by fastforce
  have io: "ws_t io1 = ws_t io" "ws_t io2 = ws_t io"
    using b1 b2 build_client_in unfolding build_client_frame_def by (metis snd_conv)+
  have "t_in (ws_t (snd (bindS (ws_write p io1) (\<lambda>_ io. (Inr (None :: message option), io))))) = t_in (ws_t io)" for p
    by (rule bindS_state [where P = "\<lambda>s. t_in (ws_t s) = t_in (ws_t io)"]) (simp_all add: io)
  with b1 b2 io show ?thesis by (cases r1; cases r2) (simp_all add: handle_control_def)
qed

lemma handle_control_rest: "handle_control f io = (r, io') \<Longrightarrow> t_in (ws_t io') = t_in (ws_t io)"
  using handle_control_in [of f io] by simp

lemma read_stream_shrinks:
  "on_stream ws_read_frame io = (Inr f, io') \<Longrightarrow> length (t_in (ws_t io')) < length (t_in (ws_t io))"
  by (auto simp: on_stream_def split: prod.splits dest: ws_read_frame_shrinks)

function read_message_loop ::
  "'d deflate \<Rightarrow> assembly \<Rightarrow> 'd pmd option \<Rightarrow> ws_stream \<Rightarrow> message result \<times> 'd pmd option \<times> ws_stream" where
  "read_message_loop D a pmd io =
     (case on_stream ws_read_frame io of
        (Inl e, io) \<Rightarrow> (Inl e, pmd, io)
      | (Inr f, io1) \<Rightarrow>
          if wf_opcode f \<ge> 0x8 then
            (case handle_control f io1 of
               (Inl e, io2) \<Rightarrow> (Inl e, pmd, io2)
             | (Inr (Some m), io2) \<Rightarrow> (Inr m, pmd, io2)
             | (Inr None, io2) \<Rightarrow> read_message_loop D a pmd io2)
          else
            (case handle_data (pmd \<noteq> None) f a of
               Inl e \<Rightarrow> (Inl e, pmd, io1)
             | Inr (Some opcode, a) \<Rightarrow> (let (r, pmd) = finish_data_message D opcode a pmd in (r, pmd, io1))
             | Inr (None, a) \<Rightarrow> read_message_loop D a pmd io1))"
  by pat_completeness auto
termination
  by (relation "measure (\<lambda>(_, _, _, io). length (t_in (ws_t io)))")
    (auto dest!: read_stream_shrinks [OF sym] handle_control_rest [OF sym])

declare read_message_loop.simps [simp del]

definition read_message :: "'d deflate \<Rightarrow> 'd pmd option \<Rightarrow> ws_stream \<Rightarrow> message result \<times> 'd pmd option \<times> ws_stream" where
  "read_message D pmd io = read_message_loop D assembly_new pmd io"

definition send_message :: "'d deflate \<Rightarrow> byte \<Rightarrow> bytes \<Rightarrow> bool \<Rightarrow> ws_stream \<Rightarrow> unit result \<times> ws_stream" where
  "send_message D opcode payload negotiated io =
     (if opcode \<noteq> OPCODE_TEXT \<and> opcode \<noteq> OPCODE_BINARY
      then (Inl (BadResponse ''send_message expects a data opcode (text/binary), got 0x{opcode:x}''), io)
      else bindS (if negotiated
                  then bindS (deflate_message D payload, io) (\<lambda>compressed io. build_client_frame_rsv1 opcode compressed io)
                  else build_client_frame opcode payload io) ws_write)"

text \<open>The polite close: whatever goes wrong with it is ignored.\<close>

definition polite_close :: "ws_stream \<Rightarrow> ws_stream" where
  "polite_close io =
     (case build_client_frame OPCODE_CLOSE [] io of
        (Inr close, io) \<Rightarrow> snd (ws_write close io)
      | (Inl _, io) \<Rightarrow> io)"

definition read_data_and_close :: "'d deflate \<Rightarrow> 'd pmd option \<Rightarrow> ws_stream \<Rightarrow> bytes result \<times> ws_stream" where
  "read_data_and_close D pmd io =
     (case read_message D pmd io of
        (Inl e, _, io) \<Rightarrow> (Inl e, io)
      | (Inr Closed_by_peer, _, io) \<Rightarrow> (Inr [], io)
      | (Inr (DataMessage _ payload), _, io) \<Rightarrow> (Inr payload, polite_close io))"

subsection \<open>The handshake\<close>

definition WS_GUID :: string where
  "WS_GUID = ''258EAFA5-E914-47DA-95CA-C5AB0DC85B11''"

definition PMD_OFFER :: string where
  "PMD_OFFER = ''permessage-deflate; client_no_context_takeover; server_no_context_takeover; client_max_window_bits''"

text \<open>\<open>base64(sha1(key + WS_GUID))\<close>.\<close>

definition derive_accept :: "(bytes \<Rightarrow> bytes) \<Rightarrow> string \<Rightarrow> string" where
  "derive_accept sha1 key_b64 = base64_encode (sha1 (bytes_of key_b64 @ bytes_of WS_GUID))"

abbreviation (input) CRLF :: string where "CRLF \<equiv> [CHR 0x0D, CHR 0x0A]"

definition upgrade_request :: "url \<Rightarrow> string \<Rightarrow> string" where
  "upgrade_request url key_b64 =
     (let host_header = (if (u_scheme url = ''ws'' \<and> u_port url = 80) \<or> (u_scheme url = ''wss'' \<and> u_port url = 443)
                         then u_host url else u_host url @ '':'' @ show_nat (unat (u_port url)));
          path = (if u_path url = [] then ''/'' else u_path url)
      in ''GET '' @ path @ '' HTTP/1.1'' @ CRLF @ ''Host: '' @ host_header @ CRLF @ ''Upgrade: websocket'' @ CRLF @
         ''Connection: Upgrade'' @ CRLF @ ''Sec-WebSocket-Key: '' @ key_b64 @ CRLF @ ''Sec-WebSocket-Version: 13'' @ CRLF @
         ''Sec-WebSocket-Extensions: '' @ PMD_OFFER @ CRLF @ CRLF)"

text \<open>The response head, one byte at a time up to the empty line.\<close>

function read_head :: "bytes \<Rightarrow> transport \<Rightarrow> bytes result \<times> transport" where
  "read_head buf t =
     (case t_in t of
        [] \<Rightarrow> (Inl (if t_end t = IoUnexpectedEof then UnexpectedEof else Io (t_end t)), t)
      | b # rest \<Rightarrow>
          (let t = t\<lparr>t_in := rest\<rparr>; buf = buf @ [b] in
           if length buf \<ge> 4 \<and> drop (length buf - 4) buf = [0x0D, 0x0A, 0x0D, 0x0A] then (Inr buf, t)
           else if length buf > 65536 then (Inl (BadResponse ''handshake response too large''), t)
           else read_head buf t))"
  by pat_completeness auto
termination by (relation "measure (\<lambda>(_, t). length (t_in t))") auto

declare read_head.simps [simp del]

text \<open>\<open>str::split\<close> at a two-character separator.\<close>

fun split_pair :: "char \<Rightarrow> char \<Rightarrow> string \<Rightarrow> string list" where
  "split_pair c d (x # y # xs) =
     (if x = c \<and> y = d then [] # split_pair c d xs
      else (case split_pair c d (y # xs) of [] \<Rightarrow> [[x]] | p # ps \<Rightarrow> (x # p) # ps))"
| "split_pair c d xs = [xs]"

record upgrade_headers =
  uh_upgrade_ok :: bool
  uh_connection_ok :: bool
  uh_accept :: "string option"
  uh_extensions :: "string option"

definition upgrade_header :: "string \<Rightarrow> string \<Rightarrow> upgrade_headers \<Rightarrow> upgrade_headers" where
  "upgrade_header k v h =
     (if eq_ignore_ascii_case k ''upgrade''
      then (if eq_ignore_ascii_case v ''websocket'' then h\<lparr>uh_upgrade_ok := True\<rparr> else h)
      else if eq_ignore_ascii_case k ''connection''
      then (if list_ex (\<lambda>t. eq_ignore_ascii_case (trim t) ''upgrade'') (split_char CHR '','' v)
            then h\<lparr>uh_connection_ok := True\<rparr> else h)
      else if eq_ignore_ascii_case k ''sec-websocket-accept'' then h\<lparr>uh_accept := Some v\<rparr>
      else if eq_ignore_ascii_case k ''sec-websocket-extensions''
      then h\<lparr>uh_extensions := Some (case uh_extensions h of Some existing \<Rightarrow> existing @ '', '' @ v | None \<Rightarrow> v)\<rparr>
      else h)"

fun upgrade_lines :: "string list \<Rightarrow> upgrade_headers \<Rightarrow> upgrade_headers" where
  "upgrade_lines [] h = h"
| "upgrade_lines (line # lines) h =
     (if line = [] then h
      else case split_once '':'' line of
        None \<Rightarrow> upgrade_lines lines h
      | Some (k, v) \<Rightarrow> upgrade_lines lines (upgrade_header (trim k) (trim v) h))"

text \<open>What the response head has to say for the upgrade to be accepted.\<close>

definition check_upgrade :: "'d deflate \<Rightarrow> (bytes \<Rightarrow> bytes) \<Rightarrow> string \<Rightarrow> bytes \<Rightarrow> 'd pmd option result" where
  "check_upgrade D sha1 key_b64 buf =
     (case from_utf8 buf of
        None \<Rightarrow> Inl (BadResponse ''non-utf8 handshake response'')
      | Some head \<Rightarrow>
          (case split_pair CHR 0x0D CHR 0x0A head of
             [] \<Rightarrow> Inl (BadResponse ''empty handshake response'')
           | status_line # lines \<Rightarrow>
               if \<not> (starts_with ''HTTP/1.1 101'' status_line \<or> starts_with ''HTTP/1.0 101'' status_line)
               then Inl (BadResponse ''expected 101 Switching Protocols, got: {status_line:?}'')
               else
                 let h = upgrade_lines lines
                       \<lparr>uh_upgrade_ok = False, uh_connection_ok = False, uh_accept = None, uh_extensions = None\<rparr>
                 in if \<not> uh_upgrade_ok h then Inl (BadResponse ''missing or wrong Upgrade header in handshake response'')
                    else if \<not> uh_connection_ok h
                    then Inl (BadResponse ''missing or wrong Connection header in handshake response'')
                    else case uh_accept h of
                      None \<Rightarrow> Inl (BadResponse ''missing Sec-WebSocket-Accept header'')
                    | Some accept \<Rightarrow>
                        if accept \<noteq> derive_accept sha1 key_b64
                        then Inl (BadResponse ''Sec-WebSocket-Accept mismatch: got {accept:?}, expected {expected:?}'')
                        else Inr (Option.bind (uh_extensions h) (parse_pmd_response D))))"

definition handshake :: "'d deflate \<Rightarrow> (bytes \<Rightarrow> bytes) \<Rightarrow> url \<Rightarrow> ws_stream \<Rightarrow> 'd pmd option result \<times> ws_stream" where
  "handshake D sha1 url io =
     bindS (random_16 io) (\<lambda>key_bytes io.
       let key_b64 = base64_encode key_bytes in
       bindS (ws_write (bytes_of (upgrade_request url key_b64)) io) (\<lambda>_ io.
         bindS (on_stream (read_head []) io) (\<lambda>buf io. (check_upgrade D sha1 key_b64 buf, io))))"

text \<open>\<open>fetch\<close>, over the stream that connecting (and for \<open>wss\<close> the TLS handshake) gives.\<close>

definition ws_fetch ::
  "'d deflate \<Rightarrow> (bytes \<Rightarrow> bytes) \<Rightarrow> (url \<Rightarrow> ws_stream result) \<Rightarrow> (url \<Rightarrow> ws_stream result) \<Rightarrow> url \<Rightarrow> bytes result" where
  "ws_fetch D sha1 connect connect_tls url =
     (let go = (\<lambda>io. fst (bindS (handshake D sha1 url io) (\<lambda>pmd io. read_data_and_close D pmd io)))
      in if u_scheme url = ''ws'' then bindR (connect url) go
         else if u_scheme url = ''wss'' then bindR (connect_tls url) go
         else Inl (UnsupportedScheme ''{scheme}''))"

subsection \<open>The wire form of a frame\<close>

text \<open>A frame as a server sends it: unmasked, with the shortest length field.\<close>

definition server_frame :: "ws_frame \<Rightarrow> bytes" where
  "server_frame f =
     ((if wf_fin f then 0x80 else 0) OR (if wf_rsv1 f then 0x40 else 0) OR wf_opcode f)
     # len_field 0 (length (wf_payload f)) @ wf_payload f"

definition sendable :: "ws_frame \<Rightarrow> bool" where
  "sendable f \<longleftrightarrow> wf_opcode f < 16 \<and> length (wf_payload f) \<le> MAX_PAYLOAD_BYTES"

lemma ws_read_exact_append: "length bs = n \<Longrightarrow> ws_read_exact n (t\<lparr>t_in := bs @ rest\<rparr>) = (Inr bs, t\<lparr>t_in := rest\<rparr>)"
  by (simp add: ws_read_exact_def read_exact_def)

lemma nibble_cases: "(opc :: byte) < 16 \<Longrightarrow> opc \<in> {0, 1, 2, 3, 4, 5, 6, 7, 8, 9, 10, 11, 12, 13, 14, 15}"
proof -
  assume "opc < 16"
  then have "unat opc < 16" by (simp add: word_less_nat_alt)
  then have "unat opc \<in> set [0..<16]" by simp
  then have "word_of_nat (unat opc) \<in> (word_of_nat ` set [0..<16] :: byte set)" by (rule imageI)
  then show ?thesis by (simp add: upt_rec)
qed

lemma first_byte:
  assumes "(opc :: byte) < 16"
  shows "((if fin then 0x80 else 0) OR (if rsv1 then 0x40 else 0) OR opc) AND 0x80 \<noteq> 0 \<longleftrightarrow> fin"
    and "((if fin then 0x80 else 0) OR (if rsv1 then 0x40 else 0) OR opc) AND 0x40 \<noteq> 0 \<longleftrightarrow> rsv1"
    and "((if fin then 0x80 else 0) OR (if rsv1 then 0x40 else 0) OR opc) AND 0x30 = 0"
    and "((if fin then 0x80 else 0) OR (if rsv1 then 0x40 else 0) OR opc) AND 0x0F = opc"
  using nibble_cases [OF assms] by (cases fin; cases rsv1; auto)+

lemma small_len_byte:
  assumes "n < 126"
  shows "(of_nat n :: byte) AND 0x80 = 0" and "(of_nat n :: byte) AND 0x7F = of_nat n" and "(of_nat n :: byte) \<le> 125"
    and "(0x80 OR of_nat n :: byte) AND 0x80 \<noteq> 0" and "(0x80 OR of_nat n :: byte) AND 0x7F = of_nat n"
proof -
  have "word_of_nat n \<in> (word_of_nat ` set [0..<126] :: byte set)" using assms by (intro imageI) simp
  then have "(of_nat n :: byte) AND 0x80 = 0 \<and> (of_nat n :: byte) AND 0x7F = of_nat n \<and> (of_nat n :: byte) \<le> 125 \<and>
    (0x80 OR of_nat n :: byte) AND 0x80 \<noteq> 0 \<and> (0x80 OR of_nat n :: byte) AND 0x7F = of_nat n"
    by (simp add: upt_rec) (elim disjE, simp_all)
  then show "(of_nat n :: byte) AND 0x80 = 0" and "(of_nat n :: byte) AND 0x7F = of_nat n" and "(of_nat n :: byte) \<le> 125"
    and "(0x80 OR of_nat n :: byte) AND 0x80 \<noteq> 0" and "(0x80 OR of_nat n :: byte) AND 0x7F = of_nat n" by blast+
qed

lemma read_len_field:
  assumes "n < 2 ^ 64"
  shows "\<exists>b bs. len_field 0 n = b # bs \<and> b AND 0x80 = 0 \<and>
    read_payload_len (b AND 0x7F) (t\<lparr>t_in := bs @ rest\<rparr>) = (Inr (of_nat n), t\<lparr>t_in := rest\<rparr>)"
proof -
  consider "n < 126" | "126 \<le> n" "n \<le> 65535" | "65535 < n" by linarith
  then show ?thesis
  proof cases
    case 1
    have "ucast (of_nat n :: byte) = (of_nat n :: u64)"
      using 1 by (simp add: word_unat_eq_iff unsigned_ucast_eq unat_of_nat take_bit_nat_eq_self)
    with 1 small_len_byte [OF 1] show ?thesis by (simp add: len_field_def read_payload_len_def)
  next
    case 2
    have "ucast (of_nat n :: u16) = (of_nat n :: u64)"
      using 2 by (simp add: word_unat_eq_iff unsigned_ucast_eq unat_of_nat take_bit_nat_eq_self)
    with 2 ws_read_exact_append [of "[ucast (drop_bit 8 (of_nat n :: u16)), ucast (of_nat n :: u16)]" 2 rest t]
    show ?thesis by (simp add: len_field_def read_payload_len_def to_be16_def)
  next
    case 3
    then show ?thesis by (simp add: len_field_def read_payload_len_def ws_read_exact_append)
  qed
qed

lemma ws_read_frame_server:
  assumes "sendable f"
  shows "ws_read_frame (t\<lparr>t_in := server_frame f @ rest\<rparr>) = (Inr f, t\<lparr>t_in := rest\<rparr>)"
proof -
  let ?n = "length (wf_payload f)"
  let ?b0 = "(if wf_fin f then 0x80 else 0) OR (if wf_rsv1 f then 0x40 else 0) OR wf_opcode f"
  have n: "?n \<le> MAX_PAYLOAD_BYTES" and op: "wf_opcode f < 16" using assms by (simp_all add: sendable_def)
  then obtain b bs where l: "len_field 0 ?n = b # bs" "b AND 0x80 = 0"
    "read_payload_len (b AND 0x7F) (t\<lparr>t_in := bs @ wf_payload f @ rest\<rparr>) = (Inr (of_nat ?n), t\<lparr>t_in := wf_payload f @ rest\<rparr>)"
    using read_len_field [of ?n "wf_payload f @ rest" t] by auto
  have h: "ws_read_exact 2 (t\<lparr>t_in := ?b0 # b # bs @ wf_payload f @ rest\<rparr>)
      = (Inr [?b0, b], t\<lparr>t_in := bs @ wf_payload f @ rest\<rparr>)"
    using ws_read_exact_append [of "[?b0, b]" 2] by simp
  have u: "unat (of_nat ?n :: u64) = ?n" using n by (simp add: unat_of_nat)
  have p: "(if (of_nat ?n :: u64) > 0 then ws_read_exact ?n (t\<lparr>t_in := wf_payload f @ rest\<rparr>) else (Inr [], t\<lparr>t_in := wf_payload f @ rest\<rparr>))
      = (Inr (wf_payload f), t\<lparr>t_in := rest\<rparr>)"
    using u ws_read_exact_append [of "wf_payload f" ?n] by (auto simp: word_less_nat_alt)
  have "\<not> (of_nat ?n :: u64) > of_nat MAX_PAYLOAD_BYTES" using n u by (simp add: word_less_nat_alt)
  then show ?thesis
    unfolding server_frame_def l(1) append_Cons append_assoc ws_read_frame_def h bindS.simps
    by (simp only: nth_Cons_0 nth_Cons_Suc One_nat_def first_byte [OF op] l(2,3) Let_def simp_thms if_True if_False bindS.simps u p) simp
qed

subsection \<open>The loop on a well-formed message\<close>

text \<open>Control frames a server may send in between, and a fragmented message with those before each fragment.\<close>

datatype ctl = PingFrame bytes | PongFrame bytes

fun ctl_frame :: "ctl \<Rightarrow> ws_frame" where
  "ctl_frame (PingFrame p) = \<lparr>wf_fin = True, wf_rsv1 = False, wf_opcode = OPCODE_PING, wf_payload = p\<rparr>"
| "ctl_frame (PongFrame p) = \<lparr>wf_fin = True, wf_rsv1 = False, wf_opcode = OPCODE_PONG, wf_payload = p\<rparr>"

fun ctl_ok :: "ctl \<Rightarrow> bool" where
  "ctl_ok (PingFrame p) \<longleftrightarrow> length p \<le> MAX_CONTROL_PAYLOAD"
| "ctl_ok (PongFrame p) \<longleftrightarrow> length p \<le> MAX_CONTROL_PAYLOAD"

fun pings :: "ctl list \<Rightarrow> bytes list" where
  "pings [] = []"
| "pings (PingFrame p # cs) = p # pings cs"
| "pings (PongFrame p # cs) = pings cs"

fun frames_of :: "byte \<Rightarrow> (ctl list \<times> bytes) list \<Rightarrow> ws_frame list" where
  "frames_of opc [] = []"
| "frames_of opc ((cs, p) # frags) =
     map ctl_frame cs @
     \<lparr>wf_fin = (frags = []), wf_rsv1 = False, wf_opcode = opc, wf_payload = p\<rparr> # frames_of OPCODE_CONT frags"

definition frames_bytes :: "ws_frame list \<Rightarrow> bytes" where
  "frames_bytes fs = concat (map server_frame fs)"

text \<open>The client frame for a payload under the key that a draw of entropy gives.\<close>

definition draw_key :: "(nat \<Rightarrow> byte) \<Rightarrow> bytes" where
  "draw_key f = [f 0, f 1, f 2, f 3]"

definition client_frame :: "byte \<Rightarrow> bool \<Rightarrow> bytes \<Rightarrow> bytes \<Rightarrow> bytes" where
  "client_frame opc rsv1 key p =
     (0x80 OR (if rsv1 then 0x40 else 0) OR (opc AND 0x0F)) # len_field 0x80 (length p) @ key @ mask_payload key p"

lemma build_client_frame_key:
  assumes "ws_rng io = Some f # rng"
  shows "build_client_frame_inner opc p rsv1 io = (Inr (client_frame opc rsv1 (draw_key f) p), io\<lparr>ws_rng := rng\<rparr>)"
proof -
  have "map f [0..<16] ! i = f i" if "i < 16" for i using that by simp
  with assms show ?thesis
    by (simp add: build_client_frame_inner_def random_16_def client_frame_def draw_key_def Let_def numeral_2_eq_2)
qed

lemma ws_write_unbounded:
  "t_cap (ws_t io) = None \<Longrightarrow> ws_write bs io = (Inr (), io\<lparr>ws_t := (ws_t io)\<lparr>t_out := t_out (ws_t io) @ bs\<rparr>\<rparr>)"
  by (simp add: ws_write_def on_stream_def)

text \<open>The stream with some input, after some output and with some entropy left.\<close>

definition stream_at :: "transport \<Rightarrow> bytes \<Rightarrow> bytes \<Rightarrow> (nat \<Rightarrow> byte) option list \<Rightarrow> ws_stream" where
  "stream_at t input output rng = \<lparr>ws_t = t\<lparr>t_out := output, t_in := input\<rparr>, ws_rng = rng\<rparr>"

lemma read_stream_at:
  "sendable f \<Longrightarrow> on_stream ws_read_frame (stream_at t (server_frame f @ rest) out rng) = (Inr f, stream_at t rest out rng)"
proof -
  assume f: "sendable f"
  from ws_read_frame_server [OF f, of rest "t\<lparr>t_out := out\<rparr>"] show ?thesis
    by (simp add: on_stream_def stream_at_def)
qed

lemma handle_pong:
  "ctl_ok (PongFrame p) \<Longrightarrow> handle_control (ctl_frame (PongFrame p)) io = (Inr None, io)"
  by (simp add: handle_control_def)

lemma handle_ping:
  assumes "t_cap t = None" and "ctl_ok (PingFrame p)"
  shows "handle_control (ctl_frame (PingFrame p)) (stream_at t rest out (Some f # rng)) =
      (Inr None, stream_at t rest (out @ client_frame OPCODE_PONG False (draw_key f) p) rng)"
proof -
  have k: "build_client_frame_inner OPCODE_PONG p False (stream_at t rest out (Some f # rng))
      = (Inr (client_frame OPCODE_PONG False (draw_key f) p), stream_at t rest out rng)"
    by (subst build_client_frame_key [of _ f rng]) (simp_all add: stream_at_def)
  have w: "ws_write bs (stream_at t rest out rng) = (Inr (), stream_at t rest (out @ bs) rng)" for bs
    using assms(1) by (subst ws_write_unbounded) (simp_all add: stream_at_def)
  show ?thesis using assms(2) by (simp add: handle_control_def build_client_frame_def k w)
qed

text \<open>A run of control frames: every ping is answered, in order, with its own data.\<close>

definition pongs :: "(nat \<Rightarrow> byte) list \<Rightarrow> bytes list \<Rightarrow> bytes" where
  "pongs fs ps = concat (map2 (\<lambda>f p. client_frame OPCODE_PONG False (draw_key f) p) fs ps)"

lemma pongs_append: "length fs = length ps \<Longrightarrow> pongs (fs @ gs) (ps @ qs) = pongs fs ps @ pongs gs qs"
  by (simp add: pongs_def)

lemma ctl_sendable: "ctl_ok c \<Longrightarrow> sendable (ctl_frame c) \<and> wf_opcode (ctl_frame c) \<ge> 8"
  by (cases c) (auto simp: sendable_def)

lemma frames_bytes_simps [simp]:
  "frames_bytes [] = []" "frames_bytes (f # fs) = server_frame f @ frames_bytes fs"
  "frames_bytes (fs @ gs) = frames_bytes fs @ frames_bytes gs"
  by (simp_all add: frames_bytes_def)

lemma loop_controls:
  assumes "t_cap t = None"
  shows "(\<And>c. c \<in> set cs \<Longrightarrow> ctl_ok c) \<Longrightarrow> length fs = length (pings cs) \<Longrightarrow>
    read_message_loop D a pmd (stream_at t (frames_bytes (map ctl_frame cs) @ rest) out (map Some fs @ rng)) =
    read_message_loop D a pmd (stream_at t rest (out @ pongs fs (pings cs)) rng)"
proof (induction cs arbitrary: out fs)
  case Nil
  then show ?case by (simp add: pongs_def)
next
  case (Cons c cs)
  note ok = ctl_sendable [OF Cons.prems(1) [of c]]
  show ?case
  proof (cases c)
    case (PongFrame p)
    with Cons ok handle_pong [of p] Cons.prems(1) [of c] show ?thesis
      by (subst read_message_loop.simps) (simp add: read_stream_at del: ctl_frame.simps)
  next
    case (PingFrame p)
    with Cons.prems(2) obtain f fs1 where f: "fs = f # fs1" "length fs1 = length (pings cs)" by (cases fs) auto
    have "read_message_loop D a pmd (stream_at t (frames_bytes (map ctl_frame (c # cs)) @ rest) out (map Some fs @ rng))
      = read_message_loop D a pmd (stream_at t (frames_bytes (map ctl_frame cs) @ rest)
          (out @ client_frame OPCODE_PONG False (draw_key f) p) (map Some fs1 @ rng))"
      using ok Cons.prems(1) [of c] PingFrame f handle_ping [OF assms, of p]
      by (subst read_message_loop.simps) (simp add: read_stream_at del: ctl_frame.simps)
    also have "\<dots> = read_message_loop D a pmd (stream_at t rest
        ((out @ client_frame OPCODE_PONG False (draw_key f) p) @ pongs fs1 (pings cs)) rng)"
      using Cons.prems(1) f(2) by (intro Cons.IH) simp_all
    also have "(out @ client_frame OPCODE_PONG False (draw_key f) p) @ pongs fs1 (pings cs) = out @ pongs fs (pings (c # cs))"
      using f PingFrame by (simp add: pongs_def)
    finally show ?thesis .
  qed
qed

lemma loop_fragments:
  assumes "t_cap t = None" and "a = \<lparr>as_frag_opcode = (if first then None else Some opc), as_compressed = False, as_buf = buf\<rparr>"
    and "opc = OPCODE_TEXT \<or> opc = OPCODE_BINARY"
  shows "frags \<noteq> [] \<Longrightarrow> (\<And>cs p c. (cs, p) \<in> set frags \<Longrightarrow> c \<in> set cs \<Longrightarrow> ctl_ok c) \<Longrightarrow>
    length buf + length (concat (map snd frags)) \<le> MAX_PAYLOAD_BYTES \<Longrightarrow> length fs = length (pings (concat (map fst frags))) \<Longrightarrow>
    read_message_loop D a pmd (stream_at t (frames_bytes (frames_of (if first then opc else OPCODE_CONT) frags) @ rest) out (map Some fs @ rng)) =
    (Inr (DataMessage opc (buf @ concat (map snd frags))), pmd, stream_at t rest (out @ pongs fs (pings (concat (map fst frags)))) rng)"
  using assms(2)
proof (induction frags arbitrary: a first buf out fs)
  case (Cons frag frags)
  obtain cs p where frag: "frag = (cs, p)" by fastforce
  let ?f = "\<lparr>wf_fin = (frags = []), wf_rsv1 = False, wf_opcode = (if first then opc else OPCODE_CONT), wf_payload = p\<rparr>"
  let ?tail = "frames_bytes (frames_of OPCODE_CONT frags) @ rest"
  have pings_append: "pings (xs @ ys) = pings xs @ pings ys" for xs ys
    by (induction xs rule: pings.induct) simp_all
  have fs: "fs = take (length (pings cs)) fs @ drop (length (pings cs)) fs" "length (take (length (pings cs)) fs) = length (pings cs)"
    "length (drop (length (pings cs)) fs) = length (pings (concat (map fst frags)))"
    using Cons.prems(4) frag by (simp_all add: pings_append)
  define fs1 fs2 where "fs1 = take (length (pings cs)) fs" and "fs2 = drop (length (pings cs)) fs"
  have b: "frames_bytes (frames_of (if first then opc else OPCODE_CONT) (frag # frags)) @ rest
      = frames_bytes (map ctl_frame cs) @ server_frame ?f @ ?tail"
    by (simp add: frag)
  have f: "sendable ?f" "\<not> wf_opcode ?f \<ge> 8" using Cons.prems(3) assms(3) frag by (auto simp: sendable_def word_le_nat_alt)
  let ?out = "out @ pongs fs1 (pings cs)"
  let ?a = "\<lparr>as_frag_opcode = Some opc, as_compressed = False, as_buf = buf @ p\<rparr>"
  have acc: "accumulate p a = Inr (a\<lparr>as_buf := buf @ p\<rparr>)"
    using Cons.prems(3,5) frag by (simp add: accumulate_def)
  have "read_message_loop D a pmd (stream_at t (frames_bytes (frames_of (if first then opc else OPCODE_CONT) (frag # frags)) @ rest) out (map Some fs @ rng))
      = read_message_loop D a pmd (stream_at t (server_frame ?f @ ?tail) ?out (map Some fs2 @ rng))"
    unfolding b using Cons.prems(2) [of cs p] frag fs(2)
    by (subst fs(1)) (simp add: loop_controls [OF assms(1)] fs1_def [symmetric] fs2_def [symmetric])
  also have "\<dots> = (case handle_data (pmd \<noteq> None) ?f a of
               Inl e \<Rightarrow> (Inl e, pmd, stream_at t ?tail ?out (map Some fs2 @ rng))
             | Inr (Some opcode, a) \<Rightarrow> (let (r, pmd) = finish_data_message D opcode a pmd in (r, pmd, stream_at t ?tail ?out (map Some fs2 @ rng)))
             | Inr (None, a) \<Rightarrow> read_message_loop D a pmd (stream_at t ?tail ?out (map Some fs2 @ rng)))"
    by (subst read_message_loop.simps) (simp only: read_stream_at [OF f(1)] prod.case sum.case f(2) if_False)
  also have "handle_data (pmd \<noteq> None) ?f a = Inr (if frags = [] then Some opc else None,
      if frags = [] then a\<lparr>as_buf := buf @ p\<rparr> else ?a)"
    using assms(3) acc Cons.prems(5) by (cases first) (auto simp: handle_data_def)
  finally have step: "read_message_loop D a pmd (stream_at t (frames_bytes (frames_of (if first then opc else OPCODE_CONT) (frag # frags)) @ rest) out (map Some fs @ rng))
      = (if frags = [] then (Inr (DataMessage opc (buf @ p)), pmd, stream_at t ?tail ?out (map Some fs2 @ rng))
         else read_message_loop D ?a pmd (stream_at t ?tail ?out (map Some fs2 @ rng)))"
    using Cons.prems(5) by (simp add: finish_data_message_def)
  have out: "?out @ pongs fs2 (pings (concat (map fst frags))) = out @ pongs fs (pings (concat (map fst (frag # frags))))"
    using pongs_append [of fs1 "pings cs" fs2 "pings (concat (map fst frags))"] fs(2) frag
    by (simp add: pings_append fs1_def fs2_def)
  show ?case
  proof (cases "frags = []")
    case True
    with step fs(3) out frag show ?thesis by (simp add: frames_bytes_def fs2_def pongs_def)
  next
    case False
    have "read_message_loop D ?a pmd (stream_at t (frames_bytes (frames_of (if False then opc else OPCODE_CONT) frags) @ rest) ?out (map Some fs2 @ rng))
      = (Inr (DataMessage opc ((buf @ p) @ concat (map snd frags))), pmd,
         stream_at t rest (?out @ pongs fs2 (pings (concat (map fst frags)))) rng)"
      using Cons.prems(2,3) frag fs(3) False by (intro Cons.IH) (auto simp: fs2_def)
    with step False frag out show ?thesis by simp
  qed
qed simp

subsection \<open>What a server reads\<close>

text \<open>RFC 6455 5.2 for a masked client frame: opcode, compression bit, payload, and what follows.\<close>

definition server_read :: "bytes \<Rightarrow> (byte \<times> bool \<times> bytes \<times> bytes) option" where
  "server_read bs =
     (case bs of
        b0 # b1 # r \<Rightarrow>
          if \<not> bit b0 7 \<or> \<not> bit b1 7 then None
          else
            let n7 = unat (take_bit 7 b1);
                (n, r) = (if n7 \<le> 125 then (n7, r)
                          else if n7 = 126 then (unat (from_be16 (r ! 0) (r ! 1)), drop 2 r)
                          else (unat (from_be64 (take 8 r)), drop 8 r));
                key = take 4 r;
                p = take n (drop 4 r)
            in Some (take_bit 4 b0, bit b0 6, map (\<lambda>i. p ! i XOR key ! (i mod 4)) [0..<n], drop (4 + n) r)
      | _ \<Rightarrow> None)"

lemma and_three: "(i :: nat) AND 3 = i mod 4"
  using take_bit_eq_mask [of 2 i] by (simp add: mask_numeral take_bit_eq_mod numeral_3_eq_3)

lemma length_mask_payload [simp]: "length (mask_payload key p) = length p"
  by (simp add: mask_payload_def)

lemma unmask: "map (\<lambda>i. mask_payload key p ! i XOR key ! (i mod 4)) [0..<length p] = p"
  by (rule nth_equalityI) (simp_all add: mask_payload_def nth_enumerate_eq and_three xor.assoc)

lemma read_client_len:
  assumes "n < 2 ^ 64"
  obtains b bs where "len_field 0x80 n = b # bs" and "bit b 7"
    and "\<forall>r. (let n7 = unat (take_bit 7 b) in
        if n7 \<le> 125 then (n7, bs @ r)
        else if n7 = 126 then (unat (from_be16 ((bs @ r) ! 0) ((bs @ r) ! 1)), drop 2 (bs @ r))
        else (unat (from_be64 (take 8 (bs @ r))), drop 8 (bs @ r))) = (n, r)"
proof -
  have b7: "bit b 7 \<longleftrightarrow> b AND 0x80 \<noteq> 0" for b :: byte
    using and_exp_eq_0_iff_not_bit [of b 7] by simp
  consider "n < 126" | "126 \<le> n" "n \<le> 65535" | "65535 < n" by linarith
  then show thesis
  proof cases
    case 1
    then have u: "unat (of_nat n :: byte) = n" by (simp add: unat_of_nat)
    show thesis
      by (rule that [of "0x80 OR of_nat n" "[]"])
        (use 1 small_len_byte [OF 1] u in \<open>simp_all add: len_field_def b7 and_7f [symmetric] unsigned_take_bit_eq\<close>)
  next
    case 2
    then have u: "unat (of_nat n :: u16) = n" by (simp add: unat_of_nat)
    show thesis
      by (rule that [of "0x80 OR 126" "to_be16 (of_nat n)"])
        (use 2 u in \<open>simp_all add: len_field_def b7 and_7f [symmetric] to_be16_def\<close>)
  next
    case 3
    with assms have u: "unat (of_nat n :: u64) = n" by (simp add: unat_of_nat)
    show thesis
      by (rule that [of "0x80 OR 127" "to_be64 (of_nat n)"])
        (use 3 u in \<open>simp_all add: len_field_def b7 and_7f [symmetric]\<close>)
  qed
qed

lemma client_first_byte:
  assumes "(opc :: byte) < 16"
  shows "bit (0x80 OR (if rsv1 then 0x40 else 0) OR (opc AND 0x0F)) 7"
    and "bit (0x80 OR (if rsv1 then 0x40 else 0) OR (opc AND 0x0F)) 6 = rsv1"
    and "take_bit 4 (0x80 OR (if rsv1 then 0x40 else 0) OR (opc AND 0x0F)) = opc"
  using nibble_cases [OF assms] by (cases rsv1; auto)+

lemma server_reads_frame:
  assumes "opc < 16" and "length key = 4" and "length p < 2 ^ 64"
  shows "server_read (client_frame opc rsv1 key p @ rest) = Some (opc, rsv1, p, rest)"
proof -
  let ?b0 = "0x80 OR (if rsv1 then 0x40 else 0) OR (opc AND 0x0F)"
  obtain b bs where l: "len_field 0x80 (length p) = b # bs" "bit b 7"
    "\<forall>r. (let n7 = unat (take_bit 7 b) in
        if n7 \<le> 125 then (n7, bs @ r)
        else if n7 = 126 then (unat (from_be16 ((bs @ r) ! 0) ((bs @ r) ! 1)), drop 2 (bs @ r))
        else (unat (from_be64 (take 8 (bs @ r))), drop 8 (bs @ r))) = (length p, r)"
    by (rule read_client_len [OF assms(3)])
  have bytes: "client_frame opc rsv1 key p @ rest = ?b0 # b # bs @ key @ mask_payload key p @ rest"
    by (simp add: client_frame_def l(1))
  have "take 4 (key @ mask_payload key p @ rest) = key" "drop 4 (key @ mask_payload key p @ rest) = mask_payload key p @ rest"
    using assms(2) by simp_all
  moreover have "take (length p) (mask_payload key p @ rest) = mask_payload key p"
    "drop (4 + length p) (key @ mask_payload key p @ rest) = rest"
    using assms(2) by simp_all
  ultimately show ?thesis
    unfolding bytes server_read_def list.case
    using client_first_byte [OF assms(1), of rsv1] l(2) l(3) [rule_format, of "key @ mask_payload key p @ rest"]
      unmask [of key p] assms(2) by (simp add: Let_def del: nth_take)
qed

text \<open>Several frames, one after the other.\<close>

fun server_read_n :: "nat \<Rightarrow> bytes \<Rightarrow> ((byte \<times> bool \<times> bytes) list \<times> bytes) option" where
  "server_read_n 0 bs = Some ([], bs)"
| "server_read_n (Suc n) bs =
     Option.bind (server_read bs) (\<lambda>(opc, rsv1, p, rest).
       map_option (\<lambda>(fs, rest). ((opc, rsv1, p) # fs, rest)) (server_read_n n rest))"

lemma server_reads_pongs:
  "length fs = length ps \<Longrightarrow> (\<And>p. p \<in> set ps \<Longrightarrow> length p \<le> MAX_CONTROL_PAYLOAD) \<Longrightarrow>
     server_read_n (length ps) (pongs fs ps @ rest) = Some (map (\<lambda>p. (OPCODE_PONG, False, p)) ps, rest)"
proof (induction ps arbitrary: fs)
  case (Cons p ps)
  then obtain f fs1 where f: "fs = f # fs1" "length fs1 = length ps" by (cases fs) auto
  have "server_read (pongs fs (p # ps) @ rest) = Some (OPCODE_PONG, False, p, pongs fs1 ps @ rest)"
    using server_reads_frame [of OPCODE_PONG "draw_key f" p False "pongs fs1 ps @ rest"] Cons.prems(2) [of p]
    by (simp add: f pongs_def draw_key_def)
  with Cons.IH [OF f(2)] Cons.prems(2) show ?case by simp
qed (simp add: pongs_def)

lemma ctl_pings: "(\<And>c. c \<in> set cs \<Longrightarrow> ctl_ok c) \<Longrightarrow> p \<in> set (pings cs) \<Longrightarrow> length p \<le> MAX_CONTROL_PAYLOAD"
proof (induction cs rule: pings.induct)
  case (2 q cs)
  then show ?case using 2(2) [of "PingFrame q"] by auto
qed auto

subsection \<open>Bounds\<close>

definition assembly_ok :: "assembly \<Rightarrow> bool" where
  "assembly_ok a \<longleftrightarrow> length (as_buf a) \<le> MAX_PAYLOAD_BYTES \<and>
     (\<forall>opc. as_frag_opcode a = Some opc \<longrightarrow> opc = OPCODE_TEXT \<or> opc = OPCODE_BINARY)"

lemma handle_data_ok:
  assumes "assembly_ok a" and "handle_data n f a = Inr (r, a')"
  shows "assembly_ok a' \<and> (\<forall>opc. r = Some opc \<longrightarrow> opc = OPCODE_TEXT \<or> opc = OPCODE_BINARY)"
  using assms by (auto simp: handle_data_def assembly_ok_def accumulate_def Let_def bindR_eq_Inr split: if_splits option.splits)

definition keeps_limit :: "'d deflate \<Rightarrow> bool" where
  "keeps_limit D \<longleftrightarrow> (\<forall>n bs d r d'. df_inflate D n bs d = (Inr r, d') \<longrightarrow> length r \<le> n)"

lemma finish_bounded:
  assumes "keeps_limit D" and "assembly_ok a" and "finish_data_message D opcode a pmd = (Inr (DataMessage opc payload), pmd')"
  shows "opc = opcode \<and> length payload \<le> MAX_PAYLOAD_BYTES"
proof (cases "as_compressed a")
  case False
  with assms(2,3) show ?thesis by (auto simp: finish_data_message_def assembly_ok_def)
next
  case True
  with assms(3) obtain p where p: "pmd = Some p" by (cases pmd) (auto simp: finish_data_message_def)
  obtain r p1 where i: "inflate_message D (as_buf a) p = (r, p1)" by fastforce
  with True p assms(3) have "opc = opcode" "r = Inr payload" by (cases r; auto simp: finish_data_message_def)+
  moreover have "\<exists>bs d d'. df_inflate D MAX_PAYLOAD_BYTES bs d = (r, d')"
    using i by (auto simp: inflate_message_def Let_def split: prod.splits)
  ultimately show ?thesis using assms(1) unfolding keeps_limit_def by blast
qed

lemma control_never_data: "handle_control f io = (Inr (Some m), io') \<Longrightarrow> m = Closed_by_peer"
  by (auto simp: handle_control_def bindS_eq_Inr split: if_splits sum.splits prod.splits)

lemma loop_bounded:
  "read_message_loop D a pmd io = (Inr (DataMessage opc payload), pmd', io') \<Longrightarrow> keeps_limit D \<Longrightarrow> assembly_ok a \<Longrightarrow>
     (opc = OPCODE_TEXT \<or> opc = OPCODE_BINARY) \<and> length payload \<le> MAX_PAYLOAD_BYTES"
proof (induction D a pmd io rule: read_message_loop.induct)
  case (1 D a pmd io)
  from 1(3) obtain f io1 where f: "on_stream ws_read_frame io = (Inr f, io1)"
    by (subst (asm) read_message_loop.simps) (auto split: sum.splits prod.splits)
  note eq = 1(3) [unfolded read_message_loop.simps [of D a pmd io] f prod.case sum.case]
  show ?case
  proof (cases "wf_opcode f \<ge> 8")
    case True
    obtain r io2 where h: "handle_control f io1 = (r, io2)" by fastforce
    from eq True h have "r = Inr None" using control_never_data [of f io1 _ io2]
      by (auto split: sum.splits option.splits)
    with eq True h have "read_message_loop D a pmd io2 = (Inr (DataMessage opc payload), pmd', io')" by simp
    from 1(1) [OF f [symmetric] refl True h [symmetric] \<open>r = Inr None\<close> refl this 1(4,5)] show ?thesis .
  next
    case False
    from eq False obtain r a1 where h: "handle_data (pmd \<noteq> None) f a = Inr (r, a1)"
      by (auto split: sum.splits)
    note ok = handle_data_ok [OF 1(5) h]
    show ?thesis
    proof (cases r)
      case None
      with eq False h have "read_message_loop D a1 pmd io1 = (Inr (DataMessage opc payload), pmd', io')" by simp
      from 1(2) [OF f [symmetric] refl False h refl None this 1(4)] ok show ?thesis by blast
    next
      case (Some opcode)
      with eq False h have "finish_data_message D opcode a1 pmd = (Inr (DataMessage opc payload), pmd')"
        by (auto simp: Let_def split: prod.splits)
      from finish_bounded [OF 1(4) _ this] ok Some show ?thesis by auto
    qed
  qed
qed

subsection \<open>An accepted upgrade\<close>

lemma read_head_splits:
  "read_head buf t = (Inr head, t') \<Longrightarrow>
     \<exists>bs. head = buf @ bs \<and> t_in t = bs @ t_in t' \<and> bs \<noteq> [] \<and> drop (length head - 4) head = [0x0D, 0x0A, 0x0D, 0x0A]"
proof (induction buf t rule: read_head.induct)
  case (1 buf t)
  note step = 1(2) [unfolded read_head.simps [of buf t]]
  from step obtain b rest where b: "t_in t = b # rest" by (auto split: list.splits)
  show ?case
  proof (cases "length (buf @ [b]) \<ge> 4 \<and> drop (length (buf @ [b]) - 4) (buf @ [b]) = [0x0D, 0x0A, 0x0D, 0x0A]")
    case True
    with step b have "head = buf @ [b]" "t' = t\<lparr>t_in := rest\<rparr>" by (simp_all add: Let_def)
    with True b show ?thesis by (intro exI [of _ "[b]"]) simp
  next
    case False
    from step b False have r: "\<not> length (buf @ [b]) > 65536" "read_head (buf @ [b]) (t\<lparr>t_in := rest\<rparr>) = (Inr head, t')"
      by (simp_all only: list.case Let_def if_False split: if_split_asm) auto
    from 1(1) [OF b refl refl False r] b show ?thesis by auto
  qed
qed

lemma upgrade_accept_line:
  "uh_accept (upgrade_lines lines h) = Some v \<Longrightarrow> uh_accept h = Some v \<or>
     (\<exists>line\<in>set lines. \<exists>k w. split_once '':'' line = Some (k, w) \<and>
        eq_ignore_ascii_case (trim k) ''sec-websocket-accept'' \<and> trim w = v)"
proof (induction lines arbitrary: h)
  case (Cons line lines)
  show ?case
  proof (cases "line = [] \<or> split_once '':'' line = None")
    case True
    with Cons show ?thesis by (auto split: if_splits)
  next
    case False
    then obtain k w where kw: "split_once '':'' line = Some (k, w)" by auto
    with Cons.prems False Cons.IH [of "upgrade_header (trim k) (trim w) h"]
    have "uh_accept (upgrade_header (trim k) (trim w) h) = Some v \<or>
      (\<exists>line\<in>set lines. \<exists>k w. split_once '':'' line = Some (k, w) \<and>
        eq_ignore_ascii_case (trim k) ''sec-websocket-accept'' \<and> trim w = v)" by simp
    then show ?thesis using kw by (auto simp: upgrade_header_def split: if_splits)
  qed
qed simp

lemma check_upgrade_accepted:
  assumes "check_upgrade D sha1 key_b64 buf = Inr pmd"
  shows "\<exists>head status_line lines. from_utf8 buf = Some head \<and> split_pair CHR 0x0D CHR 0x0A head = status_line # lines \<and>
    (starts_with ''HTTP/1.1 101'' status_line \<or> starts_with ''HTTP/1.0 101'' status_line) \<and>
    (\<exists>line\<in>set lines. \<exists>k w. split_once '':'' line = Some (k, w) \<and>
       eq_ignore_ascii_case (trim k) ''sec-websocket-accept'' \<and> trim w = derive_accept sha1 key_b64)"
proof -
  from assms obtain head where head: "from_utf8 buf = Some head" by (auto simp: check_upgrade_def split: option.splits)
  from assms head obtain status_line lines where l: "split_pair CHR 0x0D CHR 0x0A head = status_line # lines"
    by (auto simp: check_upgrade_def split: list.splits)
  let ?h = "upgrade_lines lines \<lparr>uh_upgrade_ok = False, uh_connection_ok = False, uh_accept = None, uh_extensions = None\<rparr>"
  from assms head l have s: "starts_with ''HTTP/1.1 101'' status_line \<or> starts_with ''HTTP/1.0 101'' status_line"
    "uh_accept ?h = Some (derive_accept sha1 key_b64)"
    by (auto simp: check_upgrade_def Let_def split: if_splits option.splits)
  from upgrade_accept_line [OF s(2)] head l s(1) show ?thesis by auto
qed

subsection \<open>Concrete runs\<close>

text \<open>A codec that stores, and keeps to the limit; a fixed draw of entropy; and a digest of three bytes.\<close>

definition stored_deflate :: "unit deflate" where
  "stored_deflate = \<lparr>df_new = (), df_reset = id,
     df_inflate = (\<lambda>limit bs d. (if length bs \<le> limit then Inr bs else Inl (BadResponse ''too large''), d)), df_compress = Inr\<rparr>"

definition example_draw :: "nat \<Rightarrow> byte" where
  "example_draw n = word_of_nat n"

definition example_sha1 :: "bytes \<Rightarrow> bytes" where
  "example_sha1 bs = [1, 2, 3]"

definition example_upgrade :: bytes where
  "example_upgrade = bytes_of (''HTTP/1.1 101 OK'' @ CRLF @ ''Upgrade: websocket'' @ CRLF @ ''Connection: Upgrade'' @ CRLF @
     ''Sec-WebSocket-Accept: AQID'' @ CRLF @ CRLF)"

definition example_ws_url :: url where
  "example_ws_url = \<lparr>u_scheme = ''ws'', u_userinfo = None, u_host = ''h'', u_port = 80, u_path = ''/''\<rparr>"

lemma stored_keeps_limit: "keeps_limit stored_deflate"
  by (simp add: keeps_limit_def stored_deflate_def)

lemma example_read_message:
  "read_message stored_deflate None (stream_at fresh_transport (frames_bytes (frames_of OPCODE_TEXT [([], [72, 105])])) [] []) =
     (Inr (DataMessage OPCODE_TEXT [72, 105]), None, stream_at fresh_transport [] [] [])"
  using loop_fragments [of fresh_transport assembly_new True OPCODE_TEXT "[]" "[([], [72, 105])]" "[]" stored_deflate None "[]" "[]" "[]"]
  by (simp add: read_message_def assembly_new_def fresh_transport_def pongs_def)

lemma example_send:
  "send_message stored_deflate OPCODE_TEXT [72, 105] False (stream_at fresh_transport [] [] (Some example_draw # [])) =
     (Inr (), stream_at fresh_transport [] (client_frame OPCODE_TEXT False (draw_key example_draw) [72, 105]) [])"
proof -
  have k: "build_client_frame OPCODE_TEXT [72, 105] (stream_at fresh_transport [] [] (Some example_draw # [])) =
      (Inr (client_frame OPCODE_TEXT False (draw_key example_draw) [72, 105]), stream_at fresh_transport [] [] [])"
    unfolding build_client_frame_def by (subst build_client_frame_key [of _ example_draw "[]"]) (simp_all add: stream_at_def)
  show ?thesis
    using ws_write_unbounded [of "stream_at fresh_transport [] [] []"]
    by (simp only: send_message_def k bindS.simps if_False simp_thms) (simp add: stream_at_def fresh_transport_def)
qed

lemma read_head_step:
  "read_head buf (t\<lparr>t_in := b # rest\<rparr>) =
     (if length buf \<ge> 3 \<and> drop (length buf - 3) (buf @ [b]) = [0x0D, 0x0A, 0x0D, 0x0A] then (Inr (buf @ [b]), t\<lparr>t_in := rest\<rparr>)
      else if length buf \<ge> 65536 then (Inl (BadResponse ''handshake response too large''), t\<lparr>t_in := rest\<rparr>)
      else read_head (buf @ [b]) (t\<lparr>t_in := rest\<rparr>))"
  by (subst read_head.simps) (auto simp: Let_def)

lemma example_head: "read_head [] (t\<lparr>t_in := example_upgrade @ rest\<rparr>) = (Inr example_upgrade, t\<lparr>t_in := rest\<rparr>)"
  by (simp add: example_upgrade_def bytes_of_def read_head_step)

lemma example_check: "check_upgrade stored_deflate example_sha1 key example_upgrade = Inr None"
proof -
  have a: "derive_accept example_sha1 key = ''AQID''"
    unfolding derive_accept_def example_sha1_def by code_simp
  have u: "from_utf8 example_upgrade = Some (''HTTP/1.1 101 OK'' @ CRLF @ ''Upgrade: websocket'' @ CRLF @ ''Connection: Upgrade'' @ CRLF @
     ''Sec-WebSocket-Accept: AQID'' @ CRLF @ CRLF)"
    unfolding example_upgrade_def by (rule from_utf8_bytes_of, rule valid_str_ascii) auto
  show ?thesis unfolding check_upgrade_def u option.case a
    by (simp add: upgrade_header_def str_eval)
qed

lemma example_handshake:
  "handshake stored_deflate example_sha1 example_ws_url (stream_at fresh_transport (example_upgrade @ [0x81]) [] (Some example_draw # [])) =
     (Inr None, stream_at fresh_transport [0x81]
       (bytes_of (upgrade_request example_ws_url (base64_encode (map example_draw [0..<16])))) [])"
proof -
  have "random_16 (stream_at fresh_transport i [] (Some example_draw # [])) = (Inr (map example_draw [0..<16]), stream_at fresh_transport i [] [])"
    for i by (simp add: random_16_def stream_at_def del: upt_Suc)
  moreover have "on_stream (read_head []) (stream_at fresh_transport (example_upgrade @ [0x81]) out []) =
      (Inr example_upgrade, stream_at fresh_transport [0x81] out [])" for out
    using example_head [of "[0x81]" "fresh_transport\<lparr>t_out := out\<rparr>"] by (simp add: on_stream_def stream_at_def)
  moreover have "ws_write bs (stream_at fresh_transport i [] []) = (Inr (), stream_at fresh_transport i bs [])" for bs i
    by (subst ws_write_unbounded) (simp_all add: stream_at_def fresh_transport_def)
  ultimately show ?thesis by (simp add: handshake_def example_check Let_def del: upt_Suc)
qed

subsection \<open>Properties\<close>

text \<open>C21: Every message the client sends uncompressed, of whatever length below 2^64 and whatever the mask drawn, is one frame
  that a server reading by RFC 6455 unmasks to the same opcode and payload, and what follows it is left alone.\<close>

theorem sent_message_is_read:
  assumes "opc = OPCODE_TEXT \<or> opc = OPCODE_BINARY" and "length payload < 2 ^ 64"
    and "t_cap t = None" and "send_message D opc payload False (stream_at t input out (Some f # rng)) = (Inr (), io)"
  shows "\<exists>bs. ws_t io = t\<lparr>t_out := out @ bs, t_in := input\<rparr> \<and> (\<forall>rest. server_read (bs @ rest) = Some (opc, False, payload, rest))"
proof -
  let ?bs = "client_frame opc False (draw_key f) payload"
  have k: "build_client_frame opc payload (stream_at t input out (Some f # rng)) = (Inr ?bs, stream_at t input out rng)"
    unfolding build_client_frame_def
    by (subst build_client_frame_key [of _ f rng]) (simp_all add: stream_at_def)
  have w: "ws_write ?bs (stream_at t input out rng) = (Inr (), stream_at t input (out @ ?bs) rng)"
    using assms(3) by (subst ws_write_unbounded) (simp_all add: stream_at_def)
  have "io = stream_at t input (out @ ?bs) rng"
    using assms(1,4) k w by (elim disjE) (simp_all add: send_message_def)
  moreover have "server_read (?bs @ rest) = Some (opc, False, payload, rest)" for rest
    using assms(1,2) by (intro server_reads_frame) (auto simp: draw_key_def)
  ultimately show ?thesis by (intro exI [of _ ?bs]) (simp add: stream_at_def)
qed

lemma sent_message_is_read_witness:
  "server_read (client_frame OPCODE_TEXT False (draw_key example_draw) [72, 105] @ [9]) = Some (OPCODE_TEXT, False, [72, 105], [9])"
  using sent_message_is_read [OF _ _ _ example_send]
  by (auto simp: stream_at_def fresh_transport_def)

text \<open>C20: A message that the server sends in any number of fragments, with pings and pongs before each of them, is read back
  whole: the client takes exactly its frames off the stream, and writes one pong for each ping, in order, which a server
  reading by RFC 6455 unmasks to the data of that ping, and nothing else.\<close>

theorem fragmented_message_read:
  assumes "opc = OPCODE_TEXT \<or> opc = OPCODE_BINARY" and "frags \<noteq> []"
    and "\<And>cs p c. (cs, p) \<in> set frags \<Longrightarrow> c \<in> set cs \<Longrightarrow> ctl_ok c"
    and "length (concat (map snd frags)) \<le> MAX_PAYLOAD_BYTES"
    and "t_cap t = None" and "length fs = length (pings (concat (map fst frags)))"
  shows "\<exists>bs. read_message D pmd (stream_at t (frames_bytes (frames_of opc frags) @ rest) out (map Some fs @ rng)) =
      (Inr (DataMessage opc (concat (map snd frags))), pmd, stream_at t rest (out @ bs) rng) \<and>
    server_read_n (length fs) bs = Some (map (\<lambda>p. (OPCODE_PONG, False, p)) (pings (concat (map fst frags))), [])"
proof (intro exI conjI)
  let ?ps = "pings (concat (map fst frags))"
  show "read_message D pmd (stream_at t (frames_bytes (frames_of opc frags) @ rest) out (map Some fs @ rng)) =
      (Inr (DataMessage opc (concat (map snd frags))), pmd, stream_at t rest (out @ pongs fs ?ps) rng)"
    using loop_fragments [OF assms(5) refl assms(1), of frags "[]" fs D True pmd rest out rng] assms
    by (simp add: read_message_def assembly_new_def)
  have "length p \<le> MAX_CONTROL_PAYLOAD" if "p \<in> set ?ps" for p
    using that by (rule ctl_pings [rotated]) (use assms(3) in auto)
  then show "server_read_n (length fs) (pongs fs ?ps) = Some (map (\<lambda>p. (OPCODE_PONG, False, p)) ?ps, [])"
    using server_reads_pongs [OF assms(6), of "[]"] assms(6) by simp
qed

lemma fragmented_message_read_witness:
  "\<exists>bs. read_message stored_deflate None (stream_at fresh_transport
      (frames_bytes (frames_of OPCODE_TEXT [([], [72]), ([PingFrame [5], PongFrame []], [105])]) @ [9]) [] [Some example_draw]) =
      (Inr (DataMessage OPCODE_TEXT [72, 105]), None, stream_at fresh_transport [9] bs []) \<and>
    server_read_n 1 bs = Some ([(OPCODE_PONG, False, [5])], [])"
  using fragmented_message_read [of OPCODE_TEXT "[([], [72]), ([PingFrame [5], PongFrame []], [105])]" fresh_transport
      "[example_draw]" stored_deflate None "[9]" "[]" "[]"]
  by (fastforce simp: fresh_transport_def)

text \<open>Whatever the peer sends, a message that is returned is text or binary and holds at most 64 MiB, provided the
  decompressor keeps to the limit it is given.\<close>

lemma ws_message_bounded:
  assumes "keeps_limit D" and "read_message D pmd io = (Inr (DataMessage opc payload), pmd', io')"
  shows "(opc = OPCODE_TEXT \<or> opc = OPCODE_BINARY) \<and> length payload \<le> MAX_PAYLOAD_BYTES"
  using loop_bounded [OF _ assms(1), of assembly_new pmd io opc payload pmd' io'] assms(2)
  by (simp add: read_message_def assembly_new_def assembly_ok_def)

lemma ws_message_bounded_witness: "length [72, 105 :: byte] \<le> MAX_PAYLOAD_BYTES"
  using ws_message_bounded [OF stored_keeps_limit example_read_message] by blast



end
