(* ===== verification/Net_IO.thy ===== *)
theory Net_IO
  imports Url
begin

text \<open>
  What the single-connection protocols share: exact reads that turn the end of the input into \<open>UnexpectedEof\<close>, writes
  followed by a flush, writes whose failure is ignored, and how a written byte string is taken apart by its reader.
\<close>

text \<open>\<open>read_exact_or_eof\<close>, the same function in several modules.\<close>

definition read_exact_or_eof :: "nat \<Rightarrow> transport \<Rightarrow> bytes result \<times> transport" where
  "read_exact_or_eof n t =
     (case read_exact n t of
        (Inl k, t) \<Rightarrow> (Inl (if k = IoUnexpectedEof then UnexpectedEof else Io k), t)
      | (Inr bs, t) \<Rightarrow> (Inr bs, t))"

text \<open>\<open>write_all(..)?; flush()?\<close>.\<close>

definition send_bytes :: "bytes \<Rightarrow> transport \<Rightarrow> unit result \<times> transport" where
  "send_bytes bs t = (let (r, t) = bindS (write_all bs t) (\<lambda>_ t. flush t) in (liftIo r, t))"

text \<open>\<open>let _ = write_all(..); let _ = flush()\<close>.\<close>

definition send_quietly :: "bytes \<Rightarrow> transport \<Rightarrow> transport" where
  "send_quietly bs t = snd (write_all bs t)"

lemma net_exact_append: "length bs = n \<Longrightarrow> read_exact n (t\<lparr>t_in := bs @ rest\<rparr>) = (Inr bs, t\<lparr>t_in := rest\<rparr>)"
  by (simp add: read_exact_def)

lemma read_exact_or_eof_append:
  "length bs = n \<Longrightarrow> read_exact_or_eof n (t\<lparr>t_in := bs @ rest\<rparr>) = (Inr bs, t\<lparr>t_in := rest\<rparr>)"
  by (simp add: read_exact_or_eof_def net_exact_append)

lemma read_exact_Inr:
  "read_exact n t = (Inr bs, t') \<Longrightarrow> length bs = n \<and> t_in t = bs @ t_in t' \<and> t' = t\<lparr>t_in := t_in t'\<rparr>"
  by (auto simp: read_exact_def split: if_splits)

lemma read_exact_or_eof_Inr:
  "read_exact_or_eof n t = (Inr bs, t') \<Longrightarrow> length bs = n \<and> t_in t = bs @ t_in t' \<and> t' = t\<lparr>t_in := t_in t'\<rparr>"
  by (auto simp: read_exact_or_eof_def split: prod.splits sum.splits if_splits dest: read_exact_Inr)

lemma read_exact_out [simp]:
  "t_out (snd (read_exact n t)) = t_out t" "t_cap (snd (read_exact n t)) = t_cap t"
  "t_out (snd (read_exact_or_eof n t)) = t_out t" "t_cap (snd (read_exact_or_eof n t)) = t_cap t"
  by (auto simp: read_exact_def read_exact_or_eof_def)

lemma in_only: "t' = t\<lparr>t_in := x\<rparr> \<Longrightarrow> t_out t' = t_out t \<and> t_cap t' = t_cap t"
  by simp

lemma io_swap: "t\<lparr>t_in := x, t_out := y\<rparr> = t\<lparr>t_out := y, t_in := x\<rparr>" for t :: transport
  by simp

lemma send_bytes_in [simp]: "t_in (snd (send_bytes bs t)) = t_in t"
proof -
  have "t_in (snd (bindS (write_all bs t) (\<lambda>_ t. flush t))) = t_in t"
    by (rule bindS_state [where P = "\<lambda>s. t_in s = t_in t"]) simp_all
  then show ?thesis by (simp add: send_bytes_def case_prod_unfold Let_def)
qed

lemma send_bytes_unbounded [simp]:
  "t_cap t = None \<Longrightarrow> send_bytes bs t = (Inr (), t\<lparr>t_out := t_out t @ bs\<rparr>)"
  by (simp add: send_bytes_def)

lemma send_quietly_unbounded [simp]: "t_cap t = None \<Longrightarrow> send_quietly bs t = t\<lparr>t_out := t_out t @ bs\<rparr>"
  by (simp add: send_quietly_def)

text \<open>Seven-bit digits with a continuation bit.\<close>

lemma digit7:
  assumes "k < 128"
  shows "(of_nat k :: byte) AND 0x80 = 0" and "unat ((of_nat k :: byte) AND 0x7F) = k" and "unat (of_nat k :: byte) = k"
    and "(of_nat k OR 0x80 :: byte) AND 0x80 \<noteq> 0" and "unat ((of_nat k OR 0x80 :: byte) AND 0x7F) = k"
proof -
  have "list_all (\<lambda>k. (of_nat k :: byte) AND 0x80 = 0 \<and> unat ((of_nat k :: byte) AND 0x7F) = k \<and> unat (of_nat k :: byte) = k \<and>
      (of_nat k OR 0x80 :: byte) AND 0x80 \<noteq> 0 \<and> unat ((of_nat k OR 0x80 :: byte) AND 0x7F) = k) [0..<128]" by code_simp
  with assms show "(of_nat k :: byte) AND 0x80 = 0" and "unat ((of_nat k :: byte) AND 0x7F) = k" and "unat (of_nat k :: byte) = k"
    and "(of_nat k OR 0x80 :: byte) AND 0x80 \<noteq> 0" and "unat ((of_nat k OR 0x80 :: byte) AND 0x7F) = k"
    by (auto simp: list_all_iff)
qed

end
