(* ===== verification/Mqtt.thy ===== *)
theory Mqtt
  imports Net_IO
begin

text \<open>
  MQTT v3.1.1 (\<open>src/src/mqtt.rs\<close>): the packet codec, the CONNECT handshake, publishing with QoS 0 or 1, and the
  subscriber that waits for one message.  Connecting and the six bytes of entropy for the client id are parameters.
\<close>

abbreviation (input) PKT_CONNECT :: byte where "PKT_CONNECT \<equiv> 1"
abbreviation (input) PKT_CONNACK :: byte where "PKT_CONNACK \<equiv> 2"
abbreviation (input) PKT_PUBLISH :: byte where "PKT_PUBLISH \<equiv> 3"
abbreviation (input) PKT_PUBACK :: byte where "PKT_PUBACK \<equiv> 4"
abbreviation (input) PKT_SUBSCRIBE :: byte where "PKT_SUBSCRIBE \<equiv> 8"
abbreviation (input) PKT_SUBACK :: byte where "PKT_SUBACK \<equiv> 9"
abbreviation (input) PKT_PINGRESP :: byte where "PKT_PINGRESP \<equiv> 13"
abbreviation (input) PKT_DISCONNECT :: byte where "PKT_DISCONNECT \<equiv> 14"
abbreviation (input) MAX_PACKET_BYTES :: nat where "MAX_PACKET_BYTES \<equiv> 67108864"

subsection \<open>Writing packets\<close>

definition hex_nibble :: "byte \<Rightarrow> char" where
  "hex_nibble n = (if n \<le> 9 then char_of (48 + unat n) else char_of (97 + unat n - 10))"

definition random_client_id :: "bytes \<Rightarrow> string" where
  "random_client_id buf = ''rsurl-'' @ concat (map (\<lambda>b. [hex_nibble (drop_bit 4 b), hex_nibble (b AND 0x0F)]) buf)"

definition mqtt_push_str :: "string \<Rightarrow> bytes" where
  "mqtt_push_str s = (let n = min (length s) 65535 in to_be16 (of_nat n) @ take n (bytes_of s))"

function remaining_length_loop :: "nat \<Rightarrow> bytes" where
  "remaining_length_loop x =
     (let byte = of_nat (x AND 0x7F); x = drop_bit 7 x
      in if x > 0 then (byte OR 0x80) # remaining_length_loop x else [byte])"
  by pat_completeness auto
termination by (relation "measure id") (auto simp: drop_bit_eq_div intro!: div_less_dividend Nat.gr0I)

declare remaining_length_loop.simps [simp del]

definition write_remaining_length :: "nat \<Rightarrow> bytes" where
  "write_remaining_length len = remaining_length_loop (min len 268435455)"

definition build_connect :: "string \<Rightarrow> string option \<Rightarrow> string option \<Rightarrow> u16 \<Rightarrow> bytes" where
  "build_connect client_id user pass keep_alive_secs =
     (let flags = 0x02 OR (if user \<noteq> None then 0x80 else 0) OR (if pass \<noteq> None then 0x40 else 0);
          vh = mqtt_push_str ''MQTT'' @ [4] @ [flags] @ to_be16 keep_alive_secs;
          pl = mqtt_push_str client_id @ (case user of Some u \<Rightarrow> mqtt_push_str u | None \<Rightarrow> []) @
               (case pass of Some p \<Rightarrow> mqtt_push_str p | None \<Rightarrow> [])
      in push_bit 4 PKT_CONNECT # write_remaining_length (length vh + length pl) @ vh @ pl)"

definition build_subscribe :: "u16 \<Rightarrow> string \<Rightarrow> bytes" where
  "build_subscribe packet_id topic =
     (let body = to_be16 packet_id @ mqtt_push_str topic @ [0x00]
      in (push_bit 4 PKT_SUBSCRIBE OR 0x02) # write_remaining_length (length body) @ body)"

text \<open>The topic by its bytes: a control character is an ASCII one or one of U+0080 to U+009F, which UTF-8 writes as
  0xC2 and 0x80 to 0x9F.\<close>

fun validate_publish_topic :: "string \<Rightarrow> unit result" where
  "validate_publish_topic [] = Inr ()"
| "validate_publish_topic (c # cs) =
     (if c = CHR ''+'' \<or> c = CHR ''#'' then Inl (InvalidUrl ''mqtt: publish topic must not contain wildcard {ch:?}'')
      else if c = CHR 0x00 then Inl (InvalidUrl ''mqtt: publish topic must not contain NUL'')
      else if (of_char c :: nat) < 32 \<or> (of_char c :: nat) = 127 \<or>
              (c = CHR 0xC2 \<and> cs \<noteq> [] \<and> 0x80 \<le> (of_char (hd cs) :: nat) \<and> (of_char (hd cs) :: nat) \<le> 0x9F)
      then Inl (InvalidUrl ''mqtt: publish topic must not contain control char {:?}'')
      else validate_publish_topic cs)"

definition build_publish :: "string \<Rightarrow> bytes \<Rightarrow> byte \<Rightarrow> u16 \<Rightarrow> bytes" where
  "build_publish topic payload qos packet_id =
     (let body = mqtt_push_str topic @ (if qos > 0 then to_be16 packet_id else []) @ payload
      in (push_bit 4 PKT_PUBLISH OR push_bit 1 (qos AND 0x03)) # write_remaining_length (length body) @ body)"

subsection \<open>Reading packets\<close>

definition parse_puback :: "bytes \<Rightarrow> u16 result" where
  "parse_puback body =
     (if length body < 2 then Inl (BadResponse ''mqtt: short PUBACK'')
      else Inr (from_be16 (body ! 0) (body ! 1)))"

definition extract_publish_payload :: "bytes \<Rightarrow> bytes result" where
  "extract_publish_payload body =
     (if length body < 2 then Inl (BadResponse ''mqtt: short PUBLISH'')
      else let after_topic = 2 + unat (from_be16 (body ! 0) (body ! 1))
           in if length body < after_topic then Inl (BadResponse ''mqtt: PUBLISH topic length exceeds packet'')
              else Inr (drop after_topic body))"

text \<open>The loop of \<open>read_remaining_length\<close>, with the number of bytes that may still come.\<close>

fun remaining_length_bytes :: "nat \<Rightarrow> nat \<Rightarrow> nat \<Rightarrow> transport \<Rightarrow> (io_kind + nat) \<times> transport" where
  "remaining_length_bytes 0 v multiplier t = (Inl InvalidData, t)"
| "remaining_length_bytes (Suc k) v multiplier t =
     bindS (read_exact 1 t) (\<lambda>b t.
       let v = v + unat (b ! 0 AND 0x7F) * multiplier
       in if b ! 0 AND 0x80 = 0 then (Inr v, t)
          else if k = 0 then (Inl InvalidData, t)
          else remaining_length_bytes k v (multiplier * 128) t)"

definition read_remaining_length :: "transport \<Rightarrow> (io_kind + nat) \<times> transport" where
  "read_remaining_length = remaining_length_bytes 4 0 1"

definition read_packet :: "transport \<Rightarrow> (byte \<times> bytes) result \<times> transport" where
  "read_packet t =
     bindS (read_exact_or_eof 1 t) (\<lambda>hdr t.
       bindS (map_prod liftIo id (read_remaining_length t)) (\<lambda>rem t.
         if rem > MAX_PACKET_BYTES then (Inl (BadResponse ''mqtt: packet too large''), t)
         else bindS (if rem > 0 then read_exact_or_eof rem t else (Inr [], t)) (\<lambda>body t.
           (Inr (drop_bit 4 (hdr ! 0), body), t))))"

subsection \<open>Sessions\<close>

definition connect_handshake :: "bytes \<Rightarrow> string option \<Rightarrow> string option \<Rightarrow> transport \<Rightarrow> unit result \<times> transport" where
  "connect_handshake entropy user pass t =
     bindS (send_bytes (build_connect (random_client_id entropy) user pass 60) t) (\<lambda>_ t.
       bindS (read_packet t) (\<lambda>(ctype, body) t.
         if ctype \<noteq> PKT_CONNACK then (Inl (BadResponse ''mqtt: expected CONNACK, got packet type {ctype}''), t)
         else if length body < 2 then (Inl (BadResponse ''mqtt: short CONNACK''), t)
         else if body ! 1 \<noteq> 0 then (Inl (BadResponse ''mqtt: connack {rc}''), t)
         else (Inr (), t)))"

lemma remaining_length_shrinks:
  "remaining_length_bytes k v m t = (Inr n, t') \<Longrightarrow> length (t_in t') < length (t_in t)"
proof (induction k arbitrary: v m t)
  case (Suc k)
  from Suc.prems obtain b t1 where b: "read_exact 1 t = (Inr b, t1)"
    and r: "t1 = t' \<or> remaining_length_bytes k (v + unat (b ! 0 AND 0x7F) * m) (m * 128) t1 = (Inr n, t')"
    by (auto simp: bindS_eq_Inr Let_def split: if_splits)
  from read_exact_Inr [OF b] have "length (t_in t1) < length (t_in t)" by (metis length_append less_add_same_cancel2 zero_less_one)
  with r Suc.IH show ?case by (metis less_trans)
qed simp

lemma read_packet_shrinks:
  assumes "read_packet t = (Inr p, t')"
  shows "length (t_in t') < length (t_in t)"
proof -
  from assms obtain h t1 n t2 b where h: "read_exact_or_eof 1 t = (Inr h, t1)" and n: "read_remaining_length t1 = (Inr n, t2)"
    and b: "(if n > 0 then read_exact_or_eof n t2 else (Inr [], t2)) = (Inr b, t')"
    by (auto simp: read_packet_def bindS_eq_Inr map_prod_def split: if_split_asm prod.splits)
  have "length (t_in t1) \<le> length (t_in t)" using read_exact_or_eof_Inr [OF h] by simp
  moreover have "length (t_in t2) < length (t_in t1)"
    using n unfolding read_remaining_length_def by (rule remaining_length_shrinks)
  moreover have "length (t_in t') \<le> length (t_in t2)"
    using b by (auto split: if_splits dest: read_exact_or_eof_Inr)
  ultimately show ?thesis by simp
qed

text \<open>The two loops that skip PINGRESP packets.\<close>

function await_puback :: "u16 \<Rightarrow> transport \<Rightarrow> unit result \<times> transport" where
  "await_puback packet_id t =
     (case read_packet t of
        (Inl e, t) \<Rightarrow> (Inl e, t)
      | (Inr (ctype, body), t) \<Rightarrow>
          if ctype = PKT_PUBACK then
            (case parse_puback body of
               Inl e \<Rightarrow> (Inl e, t)
             | Inr acked \<Rightarrow>
                 if acked \<noteq> packet_id then (Inl (BadResponse ''mqtt: PUBACK packet id {acked} != sent {packet_id}''), t)
                 else (Inr (), t))
          else if ctype = PKT_PINGRESP then await_puback packet_id t
          else (Inl (BadResponse ''mqtt: unexpected packet type {other} while awaiting PUBACK''), t))"
  by pat_completeness auto
termination by (relation "measure (\<lambda>(_, t). length (t_in t))") (auto dest!: read_packet_shrinks [OF sym])

function await_publish :: "transport \<Rightarrow> bytes result \<times> transport" where
  "await_publish t =
     (case read_packet t of
        (Inl e, t) \<Rightarrow> (Inl e, t)
      | (Inr (ctype, body), t) \<Rightarrow>
          if ctype = PKT_PUBLISH then (extract_publish_payload body, t)
          else if ctype = PKT_PINGRESP then await_publish t
          else (Inl (BadResponse ''mqtt: unexpected packet type {other} before PUBLISH''), t))"
  by pat_completeness auto
termination by (relation "measure (\<lambda>t. length (t_in t))") (auto dest!: read_packet_shrinks [OF sym])

declare await_puback.simps [simp del] await_publish.simps [simp del]

definition disconnect :: "transport \<Rightarrow> transport" where
  "disconnect = send_quietly [push_bit 4 PKT_DISCONNECT, 0x00]"

definition run_publish ::
  "bytes \<Rightarrow> string \<Rightarrow> bytes \<Rightarrow> byte \<Rightarrow> string option \<Rightarrow> string option \<Rightarrow> transport \<Rightarrow> unit result \<times> transport" where
  "run_publish entropy topic payload qos user pass t =
     bindS (connect_handshake entropy user pass t) (\<lambda>_ t.
       bindS (send_bytes (build_publish topic payload qos 1) t) (\<lambda>_ t.
         bindS (if qos = 1 then await_puback 1 t else (Inr (), t)) (\<lambda>_ t.
           (Inr (), disconnect t))))"

definition run_session ::
  "bytes \<Rightarrow> string \<Rightarrow> string option \<Rightarrow> string option \<Rightarrow> transport \<Rightarrow> bytes result \<times> transport" where
  "run_session entropy topic user pass t =
     bindS (connect_handshake entropy user pass t) (\<lambda>_ t.
       bindS (send_bytes (build_subscribe 1 topic) t) (\<lambda>_ t.
         bindS (read_packet t) (\<lambda>(ctype, body) t.
           if ctype \<noteq> PKT_SUBACK then (Inl (BadResponse ''mqtt: expected SUBACK, got packet type {ctype}''), t)
           else if length body < 3 then (Inl (BadResponse ''mqtt: short SUBACK''), t)
           else if body ! 2 = 0x80 then (Inl (BadResponse ''mqtt: suback failure (0x80)''), t)
           else bindS (await_publish t) (\<lambda>payload t. (Inr payload, disconnect t)))))"

definition split_userinfo :: "string option \<Rightarrow> string option \<times> string option" where
  "split_userinfo ui =
     (case ui of
        None \<Rightarrow> (None, None)
      | Some s \<Rightarrow> (case split_once '':'' s of Some (u, p) \<Rightarrow> (Some u, Some p) | None \<Rightarrow> (Some s, None)))"

definition mqtt_topic :: "url \<Rightarrow> string" where
  "mqtt_topic url = (case strip_prefix ''/'' (u_path url) of Some p \<Rightarrow> p | None \<Rightarrow> u_path url)"

text \<open>The entry points, over the streams that connecting (and for \<open>mqtts\<close> the TLS handshake) gives.\<close>

definition mqtt_fetch :: "(url \<Rightarrow> transport result) \<Rightarrow> (url \<Rightarrow> transport result) \<Rightarrow> bytes \<Rightarrow> url \<Rightarrow> bytes result" where
  "mqtt_fetch connect connect_tls entropy url =
     (if mqtt_topic url = [] then Inl (InvalidUrl ''mqtt: no topic in URL path ({:?})'')
      else let (user, pass) = split_userinfo (u_userinfo url)
           in bindR (if is_tls url then connect_tls url else connect url) (\<lambda>t.
                fst (run_session entropy (mqtt_topic url) user pass t)))"

definition mqtt_publish ::
  "(url \<Rightarrow> transport result) \<Rightarrow> (url \<Rightarrow> transport result) \<Rightarrow> bytes \<Rightarrow> url \<Rightarrow> bytes \<Rightarrow> byte \<Rightarrow> unit result" where
  "mqtt_publish connect connect_tls entropy url payload qos =
     (if mqtt_topic url = [] then Inl (InvalidUrl ''mqtt: no topic in URL path ({:?})'')
      else bindR (validate_publish_topic (mqtt_topic url)) (\<lambda>_.
        if qos > 1 then Inl (BadResponse ''mqtt: unsupported publish QoS {qos} (only 0 and 1)'')
        else let (user, pass) = split_userinfo (u_userinfo url)
             in bindR (if is_tls url then connect_tls url else connect url) (\<lambda>t.
                  fst (run_publish entropy (mqtt_topic url) payload qos user pass t))))"

subsection \<open>The other side of the wire\<close>

text \<open>A broker that reads by the MQTT standard: the remaining length has at most four digits, least significant first.\<close>

fun broker_len :: "nat \<Rightarrow> bytes \<Rightarrow> (nat \<times> bytes) option" where
  "broker_len (Suc k) (b # bs) =
     (if b AND 0x80 = 0 then Some (unat b, bs)
      else map_option (\<lambda>(n, rest). (unat (b AND 0x7F) + 128 * n, rest)) (broker_len k bs))"
| "broker_len _ _ = None"

fun broker_packet :: "bytes \<Rightarrow> (byte \<times> bytes \<times> bytes) option" where
  "broker_packet [] = None"
| "broker_packet (h # bs) =
     Option.bind (broker_len 4 bs) (\<lambda>(n, bs). if length bs < n then None else Some (h, take n bs, drop n bs))"

fun broker_str :: "bytes \<Rightarrow> (bytes \<times> bytes) option" where
  "broker_str (a # b # bs) =
     (let n = unat (from_be16 a b) in if length bs < n then None else Some (take n bs, drop n bs))"
| "broker_str _ = None"

datatype broker_event = Connected bytes "bytes option" "bytes option" | Subscribed u16 bytes byte
  | Published bytes "u16 option" bytes | Disconnected

definition broker_opt_str :: "bool \<Rightarrow> bytes \<Rightarrow> (bytes option \<times> bytes) option" where
  "broker_opt_str present bs = (if present then map_option (map_prod Some id) (broker_str bs) else Some (None, bs))"

definition broker_connect :: "bytes \<Rightarrow> broker_event option" where
  "broker_connect body =
     Option.bind (broker_str body) (\<lambda>(name, bs).
       case bs of
         level # flags # _ # _ # bs \<Rightarrow>
           if name = bytes_of ''MQTT'' \<and> level = 4 \<and> flags AND 0x3F = 0x02 \<and> (flags AND 0x80 = 0 \<longrightarrow> flags AND 0x40 = 0) then
             Option.bind (broker_str bs) (\<lambda>(cid, bs).
             Option.bind (broker_opt_str (flags AND 0x80 \<noteq> 0) bs) (\<lambda>(user, bs).
             Option.bind (broker_opt_str (flags AND 0x40 \<noteq> 0) bs) (\<lambda>(pass, bs).
               if bs = [] then Some (Connected cid user pass) else None)))
           else None
       | _ \<Rightarrow> None)"

definition broker_publish :: "byte \<Rightarrow> bytes \<Rightarrow> broker_event option" where
  "broker_publish h body =
     Option.bind (broker_str body) (\<lambda>(topic, bs).
       if h AND 0x06 = 0 then Some (Published topic None bs)
       else case bs of a # b # bs \<Rightarrow> Some (Published topic (Some (from_be16 a b)) bs) | _ \<Rightarrow> None)"

definition broker_subscribe :: "bytes \<Rightarrow> broker_event option" where
  "broker_subscribe body =
     (case body of
        a # b # bs \<Rightarrow>
          Option.bind (broker_str bs) (\<lambda>(topic, bs). if length bs = 1 then Some (Subscribed (from_be16 a b) topic (hd bs)) else None)
      | _ \<Rightarrow> None)"

definition broker_event_of :: "byte \<Rightarrow> bytes \<Rightarrow> broker_event option" where
  "broker_event_of h body =
     (if h = 0x10 then broker_connect body
      else if drop_bit 4 h = 3 then broker_publish h body
      else if h = 0x82 then broker_subscribe body
      else if h = 0xE0 \<and> body = [] then Some Disconnected else None)"

fun broker_reads :: "nat \<Rightarrow> bytes \<Rightarrow> (broker_event list \<times> bytes) option" where
  "broker_reads 0 bs = Some ([], bs)"
| "broker_reads (Suc n) bs =
     Option.bind (broker_packet bs) (\<lambda>(h, body, bs).
     Option.bind (broker_event_of h body) (\<lambda>e.
       map_option (map_prod ((#) e) id) (broker_reads n bs)))"

subsection \<open>Remaining lengths\<close>

lemma remaining_length_step:
  shows "x < 128 \<Longrightarrow> remaining_length_loop x = [of_nat x]"
    and "128 \<le> x \<Longrightarrow> remaining_length_loop x = (of_nat (x mod 128) OR 0x80) # remaining_length_loop (x div 128)"
  by (subst remaining_length_loop.simps, simp add: and_7f drop_bit_eq_div take_bit_eq_mod)
    (subst remaining_length_loop.simps [of x], simp add: and_7f drop_bit_eq_div take_bit_eq_mod Let_def div_greater_zero_iff)

lemma broker_len_written:
  "x < 128 ^ k \<Longrightarrow> 0 < k \<Longrightarrow> broker_len k (remaining_length_loop x @ rest) = Some (x, rest)"
proof (induction k arbitrary: x)
  case (Suc k)
  show ?case
  proof (cases "x < 128")
    case True
    then show ?thesis by (simp add: remaining_length_step digit7)
  next
    case False
    with Suc.prems have "x div 128 < 128 ^ k" "0 < k"
      by (auto simp: div_less_iff_less_mult less_mult_imp_div_less mult.commute intro: Nat.gr0I)
    with False Suc.IH [of "x div 128"] show ?thesis by (simp add: remaining_length_step digit7)
  qed
qed simp

lemma remaining_length_written:
  "x < 128 ^ k \<Longrightarrow> 0 < k \<Longrightarrow>
     remaining_length_bytes k v m (t\<lparr>t_in := remaining_length_loop x @ rest\<rparr>) = (Inr (v + x * m), t\<lparr>t_in := rest\<rparr>)"
proof (induction k arbitrary: x v m)
  case (Suc k)
  show ?case
  proof (cases "x < 128")
    case True
    then show ?thesis
      using net_exact_append [of "[of_nat x]" 1] by (simp add: remaining_length_step digit7)
  next
    case False
    with Suc.prems have k: "x div 128 < 128 ^ k" "0 < k"
      by (auto simp: div_less_iff_less_mult less_mult_imp_div_less mult.commute intro: Nat.gr0I)
    have e: "v + x mod 128 * m + x div 128 * (m * 128) = v + x * m"
    proof -
      have "v + x mod 128 * m + x div 128 * (m * 128) = v + (x div 128 * 128 + x mod 128) * m" by (simp only: algebra_simps)
      then show ?thesis by simp
    qed
    from False k e Suc.IH [OF k, of "v + x mod 128 * m" "m * 128"] show ?thesis
      using net_exact_append [of "[of_nat (x mod 128) OR 0x80]" 1] by (simp add: remaining_length_step digit7)
  qed
qed simp

lemma remaining_length_reads:
  "remaining_length_bytes k v m t = (Inr n, t') \<Longrightarrow>
     \<exists>x. broker_len k (t_in t) = Some (x, t_in t') \<and> n = v + x * m \<and> t' = t\<lparr>t_in := t_in t'\<rparr>"
proof (induction k arbitrary: v m t)
  case (Suc k)
  from Suc.prems obtain b t1 where b: "read_exact 1 t = (Inr b, t1)"
    and r: "if b ! 0 AND 0x80 = 0 then t1 = t' \<and> n = v + unat (b ! 0 AND 0x7F) * m
       else remaining_length_bytes k (v + unat (b ! 0 AND 0x7F) * m) (m * 128) t1 = (Inr n, t')"
    by (auto simp: bindS_eq_Inr Let_def split: if_splits)
  from read_exact_Inr [OF b] obtain c where c: "b = [c]" "t_in t = c # t_in t1" "t1 = t\<lparr>t_in := t_in t1\<rparr>"
    by (auto simp: length_Suc_conv)
  show ?case
  proof (cases "c AND 0x80 = 0")
    case True
    have "unat (c AND 0x7F) = unat c"
    proof -
      have "c = (c AND 0x80) OR (c AND 0x7F)"
      proof (rule bit_word_eqI)
        fix n assume "n < LENGTH(8)"
        then have "n \<in> {0, 1, 2, 3, 4, 5, 6, 7}" by auto
        then show "bit c n = bit ((c AND 0x80) OR (c AND 0x7F)) n" by (auto simp: bit_simps)
      qed
      with True show ?thesis by simp
    qed
    with True r c show ?thesis by simp
  next
    case False
    with r c Suc.IH [of "v + unat (c AND 0x7F) * m" "m * 128" t1]
    obtain x where "broker_len k (t_in t1) = Some (x, t_in t')" "n = v + unat (c AND 0x7F) * m + x * (m * 128)"
      "t' = t1\<lparr>t_in := t_in t'\<rparr>" by auto
    with False c show ?thesis
      by (intro exI [of _ "unat (c AND 0x7F) + 128 * x"]) (simp add: algebra_simps, metis c(3) transport.update_convs(1) transport.surjective)
  qed
qed simp

subsection \<open>Packets\<close>

lemma broker_len_length: "broker_len k bs = Some (n, rest) \<Longrightarrow> length rest < length bs"
  by (induction k bs arbitrary: n rest rule: broker_len.induct) (fastforce split: if_splits)+

text \<open>What is read as a packet is a packet of the standard.\<close>

lemma read_packet_reads:
  assumes "read_packet t = (Inr (c, body), t')"
  shows "\<exists>h. broker_packet (t_in t) = Some (h, body, t_in t') \<and> c = drop_bit 4 h \<and> t' = t\<lparr>t_in := t_in t'\<rparr>"
proof -
  from assms obtain h t1 n t2 where h: "read_exact_or_eof 1 t = (Inr h, t1)" and n: "read_remaining_length t1 = (Inr n, t2)"
    and b: "(if n > 0 then read_exact_or_eof n t2 else (Inr [], t2)) = (Inr body, t')" and c: "c = drop_bit 4 (h ! 0)"
    by (auto simp: read_packet_def bindS_eq_Inr map_prod_def split: if_split_asm prod.splits)
  from read_exact_or_eof_Inr [OF h] obtain b0 where b0: "h = [b0]" "t_in t = b0 # t_in t1" "t1 = t\<lparr>t_in := t_in t1\<rparr>"
    by (auto simp: length_Suc_conv)
  from remaining_length_reads [OF n [unfolded read_remaining_length_def]]
  have l: "broker_len 4 (t_in t1) = Some (n, t_in t2)" "t2 = t1\<lparr>t_in := t_in t2\<rparr>" by auto
  have "t_in t2 = body @ t_in t' \<and> length body = n \<and> t' = t2\<lparr>t_in := t_in t'\<rparr>"
    using b by (auto split: if_splits dest: read_exact_or_eof_Inr)
  with b0 l c show ?thesis
    by simp (metis transport.update_convs(1) transport.surjective)
qed

definition packet_of :: "byte \<Rightarrow> bytes \<Rightarrow> bytes" where
  "packet_of h body = h # write_remaining_length (length body) @ body"

lemma broker_packet_written:
  "length body \<le> 268435455 \<Longrightarrow> broker_packet (packet_of h body @ rest) = Some (h, body, rest)"
  using broker_len_written [of "length body" 4 "body @ rest"] by (simp add: packet_of_def write_remaining_length_def)

lemma read_packet_written:
  assumes "length body \<le> MAX_PACKET_BYTES"
  shows "read_packet (t\<lparr>t_in := packet_of h body @ rest\<rparr>) = (Inr (drop_bit 4 h, body), t\<lparr>t_in := rest\<rparr>)"
proof -
  have "read_remaining_length (t\<lparr>t_in := remaining_length_loop (length body) @ body @ rest\<rparr>)
      = (Inr (length body), t\<lparr>t_in := body @ rest\<rparr>)"
    unfolding read_remaining_length_def using remaining_length_written [of "length body" 4 0 1] assms by simp
  then show ?thesis
    using assms read_exact_or_eof_append [of "[h]" 1] read_exact_or_eof_append [of body "length body"]
    by (simp add: packet_of_def write_remaining_length_def read_packet_def)
qed

lemma broker_str_pushed:
  "length s \<le> 65535 \<Longrightarrow> broker_str (mqtt_push_str s @ rest) = Some (bytes_of s, rest)"
  by (simp add: mqtt_push_str_def to_be16_def unat_of_nat Let_def)

lemma length_mqtt_push_str: "length (mqtt_push_str s) \<le> 65537"
  by (simp add: mqtt_push_str_def Let_def)

text \<open>The packets the client builds are what they are meant to be.\<close>

lemma connect_is_read:
  assumes "length cid \<le> 65535" and "\<forall>s. user = Some s \<longrightarrow> length s \<le> 65535" and "\<forall>s. pass = Some s \<longrightarrow> length s \<le> 65535"
    and "pass \<noteq> None \<longrightarrow> user \<noteq> None"
  shows "\<exists>body. build_connect cid user pass ka = packet_of 0x10 body \<and> length body \<le> 268435455 \<and>
    broker_event_of 0x10 body = Some (Connected (bytes_of cid) (map_option bytes_of user) (map_option bytes_of pass))"
proof -
  let ?u = "case user of Some u \<Rightarrow> mqtt_push_str u | None \<Rightarrow> []" and ?p = "case pass of Some p \<Rightarrow> mqtt_push_str p | None \<Rightarrow> []"
  let ?flags = "0x02 OR (if user \<noteq> None then 0x80 else 0) OR (if pass \<noteq> None then 0x40 else 0) :: byte"
  let ?body = "mqtt_push_str ''MQTT'' @ 4 # ?flags # ucast (drop_bit 8 ka) # ucast ka # mqtt_push_str cid @ ?u @ ?p"
  have "length ?u \<le> 65537" "length ?p \<le> 65537" using length_mqtt_push_str by (auto split: option.split)
  with length_mqtt_push_str [of cid] have "length ?body \<le> 268435455" by (simp add: mqtt_push_str_def)
  moreover have "build_connect cid user pass ka = packet_of 0x10 ?body"
    by (simp add: build_connect_def packet_of_def to_be16_def Let_def)
  moreover have "broker_event_of 0x10 ?body = Some (Connected (bytes_of cid) (map_option bytes_of user) (map_option bytes_of pass))"
    using assms broker_str_pushed [of _ "[]"]
    by (cases user; cases pass)
      (simp_all add: broker_event_of_def broker_connect_def broker_str_pushed broker_opt_str_def)
  ultimately show ?thesis by blast
qed

lemma publish_is_read:
  assumes "length topic \<le> 65535" and "qos \<le> 1" and "length payload \<le> 268369914"
  shows "\<exists>body h. build_publish topic payload qos pid = packet_of h body \<and> length body \<le> 268435455 \<and>
    broker_event_of h body = Some (Published (bytes_of topic) (if qos = 0 then None else Some pid) payload)"
proof -
  let ?body = "mqtt_push_str topic @ (if qos > 0 then to_be16 pid else []) @ payload"
  have "length ?body \<le> 268435455" using assms(3) length_mqtt_push_str [of topic] by simp
  moreover have "build_publish topic payload qos pid = packet_of (0x30 OR push_bit 1 (qos AND 0x03)) ?body"
    by (simp add: build_publish_def packet_of_def Let_def)
  moreover from assms(2) have "qos = 0 \<or> qos = 1" by (simp add: word_le_nat_alt word_unat_eq_iff) linarith
  then have "broker_event_of (0x30 OR push_bit 1 (qos AND 0x03)) ?body =
      Some (Published (bytes_of topic) (if qos = 0 then None else Some pid) payload)"
    using assms(1) by (auto simp: broker_event_of_def broker_publish_def broker_str_pushed to_be16_def)
  ultimately show ?thesis by blast
qed

lemma subscribe_is_read:
  assumes "length topic \<le> 65535"
  shows "\<exists>body. build_subscribe pid topic = packet_of 0x82 body \<and> length body \<le> 268435455 \<and>
    broker_event_of 0x82 body = Some (Subscribed pid (bytes_of topic) 0)"
proof -
  let ?body = "to_be16 pid @ mqtt_push_str topic @ [0x00]"
  have "length ?body \<le> 268435455" using length_mqtt_push_str [of topic] by simp
  moreover have "build_subscribe pid topic = packet_of 0x82 ?body"
    by (simp add: build_subscribe_def packet_of_def Let_def)
  moreover have "broker_event_of 0x82 ?body = Some (Subscribed pid (bytes_of topic) 0)"
    using assms by (simp add: broker_event_of_def broker_subscribe_def broker_str_pushed to_be16_def)
  ultimately show ?thesis by blast
qed

lemma disconnect_is_read: "broker_event_of 0xE0 [] = Some Disconnected" "[0xE0, 0] = packet_of 0xE0 []"
  by (simp_all add: broker_event_of_def packet_of_def write_remaining_length_def remaining_length_step)

lemma broker_reads_packet:
  "broker_event_of h body = Some e \<Longrightarrow> length body \<le> 268435455 \<Longrightarrow>
     broker_reads (Suc n) (packet_of h body @ rest) = map_option (map_prod ((#) e) id) (broker_reads n rest)"
  by (simp add: broker_packet_written)

text \<open>A PUBLISH that does not fit the length field is declared shorter than it is: its tail is read as further packets.\<close>

lemma oversized_publish_splits:
  assumes "268435455 < length body"
  shows "broker_packet (packet_of h body) = Some (h, take 268435455 body, drop 268435455 body)"
  using assms broker_len_written [of 268435455 4 body] by (simp add: packet_of_def write_remaining_length_def)

subsection \<open>Sessions\<close>

text \<open>What the broker has to send for a publication to count as acknowledged.\<close>

inductive acked :: "u16 \<Rightarrow> bytes \<Rightarrow> bytes \<Rightarrow> bool" for pid :: u16 where
  now: "broker_packet bs = Some (h, a # b # body, rest) \<Longrightarrow> drop_bit 4 h = PKT_PUBACK \<Longrightarrow> from_be16 a b = pid \<Longrightarrow> acked pid bs rest"
| later: "broker_packet bs = Some (h, body, bs') \<Longrightarrow> drop_bit 4 h = PKT_PINGRESP \<Longrightarrow> acked pid bs' rest \<Longrightarrow> acked pid bs rest"

definition connack_ok :: "bytes \<Rightarrow> bytes \<Rightarrow> bool" where
  "connack_ok bs rest \<longleftrightarrow> (\<exists>h a body. broker_packet bs = Some (h, a # 0 # body, rest) \<and> drop_bit 4 h = PKT_CONNACK)"

lemma await_puback_acked:
  "await_puback pid t = (Inr (), t') \<Longrightarrow> acked pid (t_in t) (t_in t') \<and> t_out t' = t_out t \<and> t_cap t' = t_cap t"
proof (induction pid t rule: await_puback.induct)
  case (1 pid t)
  note step = 1(2) [unfolded await_puback.simps [of pid t]]
  from step obtain c body t1 where p: "read_packet t = (Inr (c, body), t1)" by (cases "read_packet t") (auto split: sum.splits)
  from read_packet_reads [OF p] obtain h where h: "broker_packet (t_in t) = Some (h, body, t_in t1)" "c = drop_bit 4 h"
    "t1 = t\<lparr>t_in := t_in t1\<rparr>" by auto
  note io = in_only [OF h(3)]
  show ?case
  proof (cases "c = PKT_PUBACK")
    case True
    with step p have "t' = t1" "2 \<le> length body" "from_be16 (body ! 0) (body ! 1) = pid"
      by (auto simp: parse_puback_def split: if_splits)
    moreover from \<open>2 \<le> length body\<close> obtain a b body' where "body = a # b # body'"
      by (cases body; cases "tl body") auto
    ultimately show ?thesis using True h io by (auto intro: acked.now)
  next
    case False
    with step p have c: "c = PKT_PINGRESP" and "await_puback pid t1 = (Inr (), t')" by (auto split: if_splits)
    with 1(1) [OF p [symmetric] refl refl False c] h io show ?thesis by (auto intro: acked.later)
  qed
qed

lemma connect_handshake_Inr:
  assumes "connect_handshake entropy user pass t = (Inr (), t')" and "t_cap t = None"
  shows "connack_ok (t_in t) (t_in t') \<and> t_out t' = t_out t @ build_connect (random_client_id entropy) user pass 60 \<and> t_cap t' = None"
proof -
  let ?t = "t\<lparr>t_out := t_out t @ build_connect (random_client_id entropy) user pass 60\<rparr>"
  from assms obtain c body where p: "read_packet ?t = (Inr (c, body), t')"
    and b: "c = PKT_CONNACK" "2 \<le> length body" "body ! 1 = 0"
    by (auto simp: connect_handshake_def bindS_eq_Inr split: if_splits)
  from read_packet_reads [OF p] obtain h where h: "broker_packet (t_in t) = Some (h, body, t_in t')" "c = drop_bit 4 h"
    "t' = ?t\<lparr>t_in := t_in t'\<rparr>" by auto
  moreover from b obtain a body' where "body = a # 0 # body'" by (cases body; cases "tl body") auto
  ultimately show ?thesis using b(1) assms(2) in_only [OF h(3)] by (auto simp: connack_ok_def)
qed

lemma length_client_id: "length entropy = 6 \<Longrightarrow> length (random_client_id entropy) = 18"
  by (simp add: random_client_id_def length_concat comp_def sum_list_triv)

definition credentials_ok :: "string option \<Rightarrow> string option \<Rightarrow> bool" where
  "credentials_ok user pass \<longleftrightarrow> (\<forall>s. user = Some s \<longrightarrow> length s \<le> 65535) \<and> (\<forall>s. pass = Some s \<longrightarrow> length s \<le> 65535) \<and>
     (pass \<noteq> None \<longrightarrow> user \<noteq> None)"

text \<open>The three packets of a session.\<close>

lemma session_is_read:
  assumes "credentials_ok user pass" and "length entropy = 6"
    and "broker_event_of h body = Some e" and "length body \<le> 268435455"
  shows "broker_reads 3 (build_connect (random_client_id entropy) user pass 60 @ packet_of h body @ [0xE0, 0]) =
    Some ([Connected (bytes_of (random_client_id entropy)) (map_option bytes_of user) (map_option bytes_of pass), e, Disconnected], [])"
proof -
  obtain cb where c: "build_connect (random_client_id entropy) user pass 60 = packet_of 0x10 cb" "length cb \<le> 268435455"
    "broker_event_of 0x10 cb = Some (Connected (bytes_of (random_client_id entropy)) (map_option bytes_of user) (map_option bytes_of pass))"
    using connect_is_read [of "random_client_id entropy" user pass 60] assms(1,2) by (auto simp: credentials_ok_def length_client_id)
  have d: "broker_reads (Suc 0) (packet_of 0xE0 []) = Some ([Disconnected], [])"
    using broker_reads_packet [OF disconnect_is_read(1), of 0 "[]"] by simp
  show ?thesis
    unfolding numeral_3_eq_3 c(1) disconnect_is_read(2)
    by (simp only: broker_reads_packet [OF c(3,2)] broker_reads_packet [OF assms(3,4)] d) simp
qed

subsection \<open>Properties\<close>


lemma example_publish:
  assumes "t_cap t = None"
  shows "run_publish [0, 0, 0, 0, 0, 0] ''a'' [7] 1 (Some ''u'') None
      (t\<lparr>t_in := packet_of 0x20 [0, 0] @ packet_of 0xD0 [] @ packet_of 0x40 [0, 1]\<rparr>) =
    (Inr (), t\<lparr>t_in := [], t_out := t_out t @ build_connect (random_client_id [0, 0, 0, 0, 0, 0]) (Some ''u'') None 60 @
       build_publish ''a'' [7] 1 1 @ [0xE0, 0]\<rparr>)"
proof -
  have p: "parse_puback [0, 1] = Inr 1" by (simp add: parse_puback_def from_be16_def)
  have "read_packet (t\<lparr>t_in := packet_of 0x40 [0, 1]\<rparr>) = (Inr (4, [0, 1]), t\<lparr>t_in := []\<rparr>)" for t
    using read_packet_written [where body = "[0, 1]" and h = "0x40" and rest = "[]" and t = t] by simp
  then have a: "await_puback 1 (t\<lparr>t_in := packet_of 0x40 [0, 1]\<rparr>) = (Inr (), t\<lparr>t_in := []\<rparr>)" for t
    by (subst await_puback.simps) (simp add: p)
  have "await_puback 1 (t\<lparr>t_in := packet_of 0xD0 [] @ packet_of 0x40 [0, 1]\<rparr>) = (Inr (), t\<lparr>t_in := []\<rparr>)" for t
    by (subst await_puback.simps) (simp add: read_packet_written a)
  with assms show ?thesis
    by (simp add: io_swap read_packet_written run_publish_def connect_handshake_def disconnect_def)
qed


text \<open>A subscriber whose broker accepts the connection and the subscription gets the payload of the first PUBLISH, whatever
  number of PINGRESPs come before it; what was written is a CONNECT, a SUBSCRIBE to the topic at QoS 0 and a DISCONNECT, and
  nothing after the PUBLISH is consumed.\<close>

lemma mqtt_first_message:
  assumes "t_cap t = None" and "length entropy = 6" and "credentials_ok user pass"
    and "length topic \<le> 65535" and "code \<noteq> 0x80" and "length topic' \<le> 65535" and "length payload \<le> 66977780"
  shows "\<exists>bs. run_session entropy topic user pass
      (t\<lparr>t_in := packet_of 0x20 [flags, 0] @ packet_of 0x90 [0, 1, code] @ concat (replicate n (packet_of 0xD0 [])) @
         packet_of 0x30 (mqtt_push_str topic' @ payload) @ rest\<rparr>) =
      (Inr payload, t\<lparr>t_in := rest, t_out := t_out t @ bs\<rparr>) \<and>
    broker_reads 3 bs = Some ([Connected (bytes_of (random_client_id entropy)) (map_option bytes_of user) (map_option bytes_of pass),
      Subscribed 1 (bytes_of topic) 0, Disconnected], [])"
proof -
  let ?c = "build_connect (random_client_id entropy) user pass 60"
  let ?pub = "packet_of 0x30 (mqtt_push_str topic' @ payload)"
  obtain body where b: "build_subscribe 1 topic = packet_of 0x82 body" "length body \<le> 268435455"
    "broker_event_of 0x82 body = Some (Subscribed 1 (bytes_of topic) 0)"
    using subscribe_is_read [OF assms(4), of 1] by blast
  let ?bs = "?c @ packet_of 0x82 body @ [0xE0, 0]"
  have e: "extract_publish_payload (mqtt_push_str topic' @ payload) = Inr payload"
    using assms(6) by (simp add: extract_publish_payload_def mqtt_push_str_def to_be16_def unat_of_nat Let_def)
  have "length (mqtt_push_str topic' @ payload) \<le> MAX_PACKET_BYTES" using length_mqtt_push_str [of topic'] assms(7) by simp
  then have last: "await_publish (t\<lparr>t_in := ?pub @ rest\<rparr>) = (Inr payload, t\<lparr>t_in := rest\<rparr>)" for t
    by (subst await_publish.simps) (simp add: read_packet_written e)
  have wait: "await_publish (t\<lparr>t_in := concat (replicate n (packet_of 0xD0 [])) @ ?pub @ rest\<rparr>) = (Inr payload, t\<lparr>t_in := rest\<rparr>)" for t
  proof (induction n)
    case (Suc n)
    then show ?case by (subst await_publish.simps) (simp add: read_packet_written)
  qed (simp add: last)
  have "run_session entropy topic user pass
      (t\<lparr>t_in := packet_of 0x20 [flags, 0] @ packet_of 0x90 [0, 1, code] @ concat (replicate n (packet_of 0xD0 [])) @ ?pub @ rest\<rparr>) =
      (Inr payload, t\<lparr>t_in := rest, t_out := t_out t @ ?bs\<rparr>)"
    using assms(1,5) wait [of "t\<lparr>t_out := t_out t @ ?c @ packet_of 0x82 body\<rparr>"]
    by (simp add: io_swap read_packet_written run_session_def connect_handshake_def disconnect_def b(1))
  with session_is_read [OF assms(3,2) b(3,2)] show ?thesis by blast
qed

lemma mqtt_first_message_witness:
  "\<exists>out. run_session [0, 0, 0, 0, 0, 0] ''a'' None None
      (fresh_transport\<lparr>t_in := packet_of 0x20 [0, 0] @ packet_of 0x90 [0, 1, 0] @ packet_of 0xD0 [] @
         packet_of 0x30 (mqtt_push_str ''b'' @ [7, 8]) @ [9]\<rparr>) =
      (Inr [7, 8], fresh_transport\<lparr>t_in := [9], t_out := out\<rparr>)"
  using mqtt_first_message [where t = fresh_transport and entropy = "[0, 0, 0, 0, 0, 0]" and user = None and pass = None
      and topic = "''a''" and code = 0 and topic' = "''b''" and payload = "[7, 8]" and flags = 0 and n = 1 and rest = "[9]"]
  by (auto simp: fresh_transport_def credentials_ok_def)

end
