(* ===== verification/Tftp.thy ===== *)
theory Tftp
  imports Net_IO
begin

text \<open>
  TFTP (\<open>src/src/tftp.rs\<close>): packets, the download loop of \<open>fetch\<close> and the upload loop of \<open>store\<close>.  The socket is what the
  network will deliver, in order (datagrams with their source, and receive errors such as a timeout), and what was
  sent, in order.  When nothing is left to deliver every further receive times out.  Name resolution and binding the
  socket are parameters.
\<close>

abbreviation (input) OP_RRQ :: u16 where "OP_RRQ \<equiv> 1"
abbreviation (input) OP_WRQ :: u16 where "OP_WRQ \<equiv> 2"
abbreviation (input) OP_DATA :: u16 where "OP_DATA \<equiv> 3"
abbreviation (input) OP_ACK :: u16 where "OP_ACK \<equiv> 4"
abbreviation (input) OP_ERROR :: u16 where "OP_ERROR \<equiv> 5"
abbreviation (input) BLOCK_SIZE :: nat where "BLOCK_SIZE \<equiv> 512"
abbreviation (input) MAX_RETRIES :: nat where "MAX_RETRIES \<equiv> 3"
abbreviation (input) MAX_TOTAL_BYTES :: nat where "MAX_TOTAL_BYTES \<equiv> 268435456"

subsection \<open>Packets\<close>

definition tftp_request :: "u16 \<Rightarrow> string \<Rightarrow> bytes" where
  "tftp_request opcode filename = to_be16 opcode @ bytes_of filename @ [0] @ bytes_of ''octet'' @ [0]"

definition build_rrq :: "string \<Rightarrow> bytes" where
  "build_rrq filename = tftp_request OP_RRQ filename"

definition build_wrq :: "string \<Rightarrow> bytes" where
  "build_wrq filename = tftp_request OP_WRQ filename"

definition build_data :: "u16 \<Rightarrow> bytes \<Rightarrow> bytes" where
  "build_data block payload = to_be16 OP_DATA @ to_be16 block @ payload"

definition build_ack :: "u16 \<Rightarrow> bytes" where
  "build_ack block = to_be16 OP_ACK @ to_be16 block"

definition parse_opcode :: "bytes \<Rightarrow> u16 option" where
  "parse_opcode buf = (if length buf < 2 then None else Some (from_be16 (buf ! 0) (buf ! 1)))"

definition parse_data :: "bytes \<Rightarrow> (u16 \<times> bytes) result" where
  "parse_data buf =
     (if length buf < 4 then Inl (BadResponse ''tftp: short DATA packet'')
      else if parse_opcode buf \<noteq> Some OP_DATA then Inl (BadResponse ''tftp: not a DATA packet'')
      else Inr (from_be16 (buf ! 2) (buf ! 3), drop 4 buf))"

definition parse_ack :: "bytes \<Rightarrow> u16 result" where
  "parse_ack buf =
     (if length buf < 4 then Inl (BadResponse ''tftp: short ACK packet'')
      else if parse_opcode buf \<noteq> Some OP_ACK then Inl (BadResponse ''tftp: not an ACK packet'')
      else Inr (from_be16 (buf ! 2) (buf ! 3)))"

definition parse_error :: "bytes \<Rightarrow> string result" where
  "parse_error buf =
     (if length buf < 4 then Inl (BadResponse ''tftp: short ERROR packet'')
      else if parse_opcode buf \<noteq> Some OP_ERROR then Inl (BadResponse ''tftp: not an ERROR packet'')
      else let msg_bytes = drop 4 buf;
               e = (case position (\<lambda>b. b = 0) msg_bytes of Some i \<Rightarrow> i | None \<Rightarrow> length msg_bytes)
           in Inr (from_utf8_lossy (take e msg_bytes)))"

definition filename_of :: "url \<Rightarrow> string result" where
  "filename_of url =
     (let filename = (case strip_prefix ''/'' (u_path url) of Some p \<Rightarrow> p | None \<Rightarrow> u_path url)
      in if filename = [] then Inl (InvalidUrl ''tftp: empty filename in {}://{}/{}'')
         else if CHR 0x00 \<in> set filename then Inl (InvalidUrl ''tftp: filename contains NUL'')
         else Inr filename)"

subsection \<open>The socket\<close>

text \<open>An address is an IP and a port.  \<open>us_cap\<close> bounds how many more sends succeed.\<close>

type_synonym addr = "string \<times> u16"

datatype recv = Datagram bytes addr | RecvError io_kind

record udp =
  us_in :: "recv list"
  us_out :: "(bytes \<times> addr) list"
  us_cap :: "nat option"

text \<open>\<open>recv_from\<close> into a buffer of 532 bytes: what does not fit of a datagram is lost.\<close>

definition recv_from :: "udp \<Rightarrow> recv \<times> udp" where
  "recv_from s =
     (case us_in s of
        [] \<Rightarrow> (RecvError WouldBlock, s)
      | Datagram bs a # rest \<Rightarrow> (Datagram (take (4 + BLOCK_SIZE + 16) bs) a, s\<lparr>us_in := rest\<rparr>)
      | RecvError k # rest \<Rightarrow> (RecvError k, s\<lparr>us_in := rest\<rparr>))"

definition udp_send :: "bytes \<Rightarrow> addr \<Rightarrow> udp \<Rightarrow> unit result \<times> udp" where
  "udp_send bs a s =
     (case us_cap s of
        None \<Rightarrow> (Inr (), s\<lparr>us_out := us_out s @ [(bs, a)]\<rparr>)
      | Some 0 \<Rightarrow> (Inl (Io IoOther), s)
      | Some (Suc n) \<Rightarrow> (Inr (), s\<lparr>us_out := us_out s @ [(bs, a)], us_cap := Some n\<rparr>))"

text \<open>One pass through a loop body ends in \<open>continue\<close> with a new state, or in the result of the transfer.\<close>

datatype ('a, 's) pass = Continue 's | Return "'a result"

subsection \<open>Download\<close>

record download =
  dl_peer :: "addr option"
  dl_out :: bytes
  dl_expected :: u16
  dl_last_packet :: bytes
  dl_last_dest :: addr
  dl_retries :: nat

text \<open>The DATA branch.  The block number is incremented last, so a transfer that would wrap it fails after the ACK.\<close>

definition fetch_data :: "bytes \<Rightarrow> addr \<Rightarrow> download \<Rightarrow> udp \<Rightarrow> (bytes, download) pass result \<times> udp" where
  "fetch_data pkt from d s =
     (case parse_data pkt of
        Inl e \<Rightarrow> (Inl e, s)
      | Inr (block, payload) \<Rightarrow>
          if block \<noteq> dl_expected d then
            (if block + 1 = dl_expected d
             then bindS (udp_send (build_ack block) from s) (\<lambda>_ s. (Inr (Continue d), s))
             else (Inr (Continue d), s))
          else
            let peer = (if dl_peer d = None then Some from else dl_peer d)
            in if length (dl_out d) + length payload > MAX_TOTAL_BYTES
               then (Inl (BadResponse ''tftp: transfer exceeds {} bytes''), s)
               else let out = dl_out d @ payload
                    in bindS (udp_send (build_ack block) from s) (\<lambda>_ s.
                         if length payload < BLOCK_SIZE then (Inr (Return (Inr out)), s)
                         else if dl_expected d = - 1
                         then (Inl (BadResponse ''tftp: block number wrapped; refusing oversized transfer''), s)
                         else (Inr (Continue \<lparr>dl_peer = peer, dl_out = out, dl_expected = dl_expected d + 1,
                                 dl_last_packet = build_ack block, dl_last_dest = from, dl_retries = 0\<rparr>), s)))"

definition fetch_step :: "addr \<Rightarrow> recv \<Rightarrow> download \<Rightarrow> udp \<Rightarrow> (bytes, download) pass result \<times> udp" where
  "fetch_step server ev d s =
     (case ev of
        RecvError k \<Rightarrow>
          if k = WouldBlock \<or> k = TimedOut then
            (if dl_retries d \<ge> MAX_RETRIES then (Inl UnexpectedEof, s)
             else bindS (udp_send (dl_last_packet d) (dl_last_dest d) s) (\<lambda>_ s.
               (Inr (Continue (d\<lparr>dl_retries := dl_retries d + 1\<rparr>)), s)))
          else (Inl (Io k), s)
      | Datagram pkt from \<Rightarrow>
          if (case dl_peer d of Some p \<Rightarrow> from \<noteq> p | None \<Rightarrow> fst from \<noteq> fst server) then (Inr (Continue d), s)
          else (case parse_opcode pkt of
                  None \<Rightarrow> (Inl (BadResponse ''tftp: packet too short''), s)
                | Some op \<Rightarrow>
                    if op = OP_DATA then fetch_data pkt from d s
                    else if op = OP_ERROR then (bindR (parse_error pkt) (\<lambda>msg. Inl (BadResponse ''tftp: {msg}'')), s)
                    else (Inl (BadResponse ''tftp: unexpected opcode {op}''), s)))"

text \<open>Every pass takes an event off the network or uses up a retry.\<close>

definition pass_measure :: "nat \<Rightarrow> udp \<Rightarrow> nat" where
  "pass_measure retries s = (length (us_in s) * (MAX_RETRIES + 1)) + (MAX_RETRIES - retries)"

lemma udp_send_in [simp]: "us_in (snd (udp_send bs a s)) = us_in s"
  by (simp add: udp_send_def split: option.split nat.split)

lemma udp_send_rest: "udp_send bs a s = (r, s') \<Longrightarrow> us_in s' = us_in s"
  using udp_send_in [of bs a s] by simp

lemma fetch_data_continues:
  "fetch_data pkt from d s = (Inr (Continue d'), s') \<Longrightarrow> us_in s' = us_in s"
  by (auto simp: fetch_data_def Let_def bindS_eq_Inr split: sum.splits prod.splits if_split_asm dest: udp_send_rest)

lemma fetch_step_continues:
  assumes "fetch_step server ev d s = (Inr (Continue d'), s')"
  shows "us_in s' = us_in s \<and> (\<forall>k. ev = RecvError k \<longrightarrow> dl_retries d < MAX_RETRIES \<and> dl_retries d' = dl_retries d + 1)"
proof (cases ev)
  case (RecvError k)
  with assms show ?thesis by (auto simp: fetch_step_def bindS_eq_Inr split: if_splits dest: udp_send_rest)
next
  case (Datagram pkt src)
  with assms have "(s' = s) \<or> fetch_data pkt src d s = (Inr (Continue d'), s')"
    by (auto simp: fetch_step_def bindR_eq_Inr split: if_split_asm option.splits)
  with Datagram show ?thesis by (auto dest: fetch_data_continues)
qed

lemma recv_from_cases:
  "recv_from s = (ev, s') \<Longrightarrow> (\<exists>e rest. us_in s = e # rest \<and> us_in s' = rest) \<or> (us_in s = [] \<and> s' = s \<and> ev = RecvError WouldBlock)"
  by (auto simp: recv_from_def split: list.splits recv.splits)

function fetch_loop :: "addr \<Rightarrow> download \<Rightarrow> udp \<Rightarrow> bytes result \<times> udp" where
  "fetch_loop server d s =
     (let (ev, s1) = recv_from s
      in case fetch_step server ev d s1 of
           (Inl e, s2) \<Rightarrow> (Inl e, s2)
         | (Inr (Return r), s2) \<Rightarrow> (r, s2)
         | (Inr (Continue d'), s2) \<Rightarrow> fetch_loop server d' s2)"
  by pat_completeness auto

lemma pass_decreases:
  assumes "recv_from s = (ev, s1)" and "us_in s2 = us_in s1"
    and "\<forall>k. ev = RecvError k \<longrightarrow> r < MAX_RETRIES \<and> r' = r + 1"
  shows "pass_measure r' s2 < pass_measure r s"
  using recv_from_cases [OF assms(1)] assms(2,3) by (auto simp: pass_measure_def)

lemma fetch_pass_decreases:
  "recv_from s = (ev, s1) \<Longrightarrow> fetch_step server ev d s1 = (Inr (Continue d'), s2) \<Longrightarrow>
     pass_measure (dl_retries d') s2 < pass_measure (dl_retries d) s"
  by (rule pass_decreases [of s ev s1]) (simp_all add: fetch_step_continues)

termination fetch_loop
proof (relation "measure (\<lambda>(_, d, s). pass_measure (dl_retries d) s)", goal_cases)
  case (2 server d s x ev s1 r s2 b d')
  then have "recv_from s = (ev, s1)" and "fetch_step server ev d s1 = (Inr (Continue d'), s2)" by simp_all
  then show ?case unfolding in_measure prod.case by (rule fetch_pass_decreases)
qed simp

declare fetch_loop.simps [simp del]

definition fetch_over :: "addr \<Rightarrow> string \<Rightarrow> udp \<Rightarrow> bytes result \<times> udp" where
  "fetch_over server filename s =
     bindS (udp_send (build_rrq filename) server s) (\<lambda>_ s.
       fetch_loop server \<lparr>dl_peer = None, dl_out = [], dl_expected = 1, dl_last_packet = build_rrq filename,
         dl_last_dest = server, dl_retries = 0\<rparr> s)"

text \<open>\<open>fetch\<close> and its resolver and socket.\<close>

definition tftp_fetch :: "(string \<Rightarrow> u16 \<Rightarrow> addr result) \<Rightarrow> udp result \<Rightarrow> url \<Rightarrow> bytes result" where
  "tftp_fetch resolve bound url =
     bindR (filename_of url) (\<lambda>filename.
       bindR (resolve (u_host url) (u_port url)) (\<lambda>server.
         bindR bound (\<lambda>s. fst (fetch_over server filename s))))"

subsection \<open>Upload\<close>

record upload =
  ul_peer :: "addr option"
  ul_last_packet :: bytes
  ul_last_dest :: addr
  ul_retries :: nat
  ul_block :: u16
  ul_sent_offset :: nat
  ul_sent_final :: bool

definition store_ack :: "bytes \<Rightarrow> bytes \<Rightarrow> addr \<Rightarrow> upload \<Rightarrow> udp \<Rightarrow> (unit, upload) pass result \<times> udp" where
  "store_ack data pkt from u s =
     (case parse_ack pkt of
        Inl e \<Rightarrow> (Inl e, s)
      | Inr acked \<Rightarrow>
          if acked \<noteq> ul_block u then (Inr (Continue u), s)
          else
            let peer = (if ul_peer u = None then Some from else ul_peer u)
            in if ul_sent_final u then (Inr (Return (Inr ())), s)
               else
                 let next_offset = (if ul_block u = 0 then 0 else ul_sent_offset u + BLOCK_SIZE)
                 in if ul_block u = - 1
                    then (Inl (BadResponse ''tftp: block number wrapped; refusing oversized transfer''), s)
                    else
                      let next_block = ul_block u + 1;
                          end_offset = min (next_offset + BLOCK_SIZE) (length data);
                          payload = take (end_offset - next_offset) (drop next_offset data);
                          dgram = build_data next_block payload
                      in bindS (udp_send dgram from s) (\<lambda>_ s.
                           (Inr (Continue \<lparr>ul_peer = peer, ul_last_packet = dgram, ul_last_dest = from, ul_retries = 0,
                              ul_block = next_block, ul_sent_offset = next_offset,
                              ul_sent_final = length payload < BLOCK_SIZE\<rparr>), s)))"

definition store_step :: "bytes \<Rightarrow> addr \<Rightarrow> recv \<Rightarrow> upload \<Rightarrow> udp \<Rightarrow> (unit, upload) pass result \<times> udp" where
  "store_step data server ev u s =
     (case ev of
        RecvError k \<Rightarrow>
          if k = WouldBlock \<or> k = TimedOut then
            (if ul_retries u \<ge> MAX_RETRIES then (Inl UnexpectedEof, s)
             else bindS (udp_send (ul_last_packet u) (ul_last_dest u) s) (\<lambda>_ s.
               (Inr (Continue (u\<lparr>ul_retries := ul_retries u + 1\<rparr>)), s)))
          else (Inl (Io k), s)
      | Datagram pkt from \<Rightarrow>
          if (case ul_peer u of Some p \<Rightarrow> from \<noteq> p | None \<Rightarrow> fst from \<noteq> fst server) then (Inr (Continue u), s)
          else (case parse_opcode pkt of
                  None \<Rightarrow> (Inl (BadResponse ''tftp: packet too short''), s)
                | Some op \<Rightarrow>
                    if op = OP_ACK then store_ack data pkt from u s
                    else if op = OP_ERROR then (bindR (parse_error pkt) (\<lambda>msg. Inl (BadResponse ''tftp: {msg}'')), s)
                    else (Inl (BadResponse ''tftp: unexpected opcode {op}''), s)))"

lemma store_ack_continues:
  "store_ack data pkt from u s = (Inr (Continue u'), s') \<Longrightarrow> us_in s' = us_in s"
  by (auto simp: store_ack_def Let_def bindS_eq_Inr split: sum.splits prod.splits if_split_asm dest: udp_send_rest)

lemma store_step_continues:
  assumes "store_step data server ev u s = (Inr (Continue u'), s')"
  shows "us_in s' = us_in s \<and> (\<forall>k. ev = RecvError k \<longrightarrow> ul_retries u < MAX_RETRIES \<and> ul_retries u' = ul_retries u + 1)"
proof (cases ev)
  case (RecvError k)
  with assms show ?thesis by (auto simp: store_step_def bindS_eq_Inr split: if_splits dest: udp_send_rest)
next
  case (Datagram pkt src)
  with assms have "(s' = s) \<or> store_ack data pkt src u s = (Inr (Continue u'), s')"
    by (auto simp: store_step_def bindR_eq_Inr split: if_split_asm option.splits)
  with Datagram show ?thesis by (auto dest: store_ack_continues)
qed

lemma store_pass_decreases:
  "recv_from s = (ev, s1) \<Longrightarrow> store_step data server ev u s1 = (Inr (Continue u'), s2) \<Longrightarrow>
     pass_measure (ul_retries u') s2 < pass_measure (ul_retries u) s"
  by (rule pass_decreases [of s ev s1]) (simp_all add: store_step_continues)

function store_loop :: "bytes \<Rightarrow> addr \<Rightarrow> upload \<Rightarrow> udp \<Rightarrow> unit result \<times> udp" where
  "store_loop data server u s =
     (let (ev, s1) = recv_from s
      in case store_step data server ev u s1 of
           (Inl e, s2) \<Rightarrow> (Inl e, s2)
         | (Inr (Return r), s2) \<Rightarrow> (r, s2)
         | (Inr (Continue u'), s2) \<Rightarrow> store_loop data server u' s2)"
  by pat_completeness auto
termination
proof (relation "measure (\<lambda>(_, _, u, s). pass_measure (ul_retries u) s)", goal_cases)
  case (2 data server u s x ev s1 r s2 b u')
  then have "recv_from s = (ev, s1)" and "store_step data server ev u s1 = (Inr (Continue u'), s2)" by simp_all
  then show ?case unfolding in_measure prod.case by (rule store_pass_decreases)
qed simp

declare store_loop.simps [simp del]

definition upload_new :: "addr \<Rightarrow> string \<Rightarrow> upload" where
  "upload_new server filename =
     \<lparr>ul_peer = None, ul_last_packet = build_wrq filename, ul_last_dest = server, ul_retries = 0, ul_block = 0,
      ul_sent_offset = 0, ul_sent_final = False\<rparr>"

definition store_over :: "bytes \<Rightarrow> addr \<Rightarrow> string \<Rightarrow> udp \<Rightarrow> unit result \<times> udp" where
  "store_over data server filename s =
     bindS (udp_send (build_wrq filename) server s) (\<lambda>_ s. store_loop data server (upload_new server filename) s)"

definition tftp_store :: "(string \<Rightarrow> u16 \<Rightarrow> addr result) \<Rightarrow> udp result \<Rightarrow> url \<Rightarrow> bytes \<Rightarrow> unit result" where
  "tftp_store resolve bound url data =
     bindR (filename_of url) (\<lambda>filename.
       if length data > MAX_TOTAL_BYTES then Inl (BadResponse ''tftp: upload exceeds {MAX_TOTAL_BYTES} bytes'')
       else bindR (resolve (u_host url) (u_port url)) (\<lambda>server.
         bindR bound (\<lambda>s. fst (store_over data server filename s))))"

subsection \<open>Packets are read back\<close>

lemma be16_nth: "from_be16 (to_be16 w ! 0) (to_be16 w ! Suc 0) = w"
  by (simp add: to_be16_def)

lemma parse_built:
  "parse_opcode (build_ack b) = Some OP_ACK" "parse_ack (build_ack b) = Inr b"
  "parse_opcode (build_data b p) = Some OP_DATA" "parse_data (build_data b p) = Inr (b, p)"
proof -
  have n: "to_be16 w = [a, b] \<Longrightarrow> from_be16 a b = w" for w a b using be16_nth [of w] by simp
  obtain a c where a: "to_be16 OP_ACK = [a, c]" by (simp add: to_be16_def)
  obtain d e where d: "to_be16 OP_DATA = [d, e]" by (simp add: to_be16_def)
  obtain f g where f: "to_be16 b = [f, g]" by (simp add: to_be16_def)
  note nn = n [OF a] n [OF d] n [OF f]
  show "parse_opcode (build_ack b) = Some OP_ACK" "parse_ack (build_ack b) = Inr b"
    "parse_opcode (build_data b p) = Some OP_DATA" "parse_data (build_data b p) = Inr (b, p)"
    using nn by (simp_all add: parse_opcode_def parse_ack_def parse_data_def build_ack_def build_data_def a d f
        numeral_2_eq_2 numeral_3_eq_3)
qed

lemma build_data_inject: "build_data b p = build_data b' p' \<longleftrightarrow> b = b' \<and> p = p'"
proof
  assume "build_data b p = build_data b' p'"
  then have "parse_data (build_data b p) = parse_data (build_data b' p')" by (rule arg_cong)
  then show "b = b' \<and> p = p'" by (simp only: parse_built(4) sum.inject prod.inject)
qed (simp only:)

lemma build_wrq_not_data: "build_wrq f \<noteq> build_data b p"
  by (simp add: build_wrq_def tftp_request_def build_data_def to_be16_def)

subsection \<open>An upload and its server\<close>

text \<open>A server by RFC 1350 that takes one upload at the address \<open>tid\<close>: it acknowledges the request with 0, takes DATA blocks in
  order, and acknowledges what it took.  The network may lose, delay, repeat and reorder everything that was ever sent; the
  acknowledgements sent so far are a set.\<close>

record usys =
  sy_client :: "upload + unit result"
  sy_out :: "(bytes \<times> addr) list"
  sy_next :: nat
  sy_file :: bytes
  sy_done :: bool
  sy_acks :: "u16 set"

text \<open>What the client may receive: any error; anything from elsewhere; from the IP of the server, only what the server sent,
  where acknowledgements are ones of the set.\<close>

definition deliverable :: "addr \<Rightarrow> addr \<Rightarrow> u16 set \<Rightarrow> recv \<Rightarrow> bool" where
  "deliverable server tid acks ev \<longleftrightarrow>
     (\<forall>pkt a. ev = Datagram pkt a \<longrightarrow> fst a = fst server \<longrightarrow>
        a = tid \<and> (parse_opcode pkt = Some OP_ACK \<longrightarrow> (\<exists>k\<in>acks. pkt = build_ack k)))"

inductive upload_run :: "bytes \<Rightarrow> addr \<Rightarrow> addr \<Rightarrow> string \<Rightarrow> usys \<Rightarrow> bool"
  for data :: bytes and server :: addr and tid :: addr and filename :: string where
  start: "upload_run data server tid filename \<lparr>sy_client = Inl (upload_new server filename),
      sy_out = [(build_wrq filename, server)], sy_next = 0, sy_file = [], sy_done = False, sy_acks = {}\<rparr>"
| goes_on: "upload_run data server tid filename S \<Longrightarrow> sy_client S = Inl u \<Longrightarrow> deliverable server tid (sy_acks S) ev \<Longrightarrow>
    store_step data server ev u \<lparr>us_in = [], us_out = sy_out S, us_cap = cap\<rparr> = (Inr (Continue u'), s') \<Longrightarrow>
    upload_run data server tid filename (S\<lparr>sy_client := Inl u', sy_out := us_out s'\<rparr>)"
| returns: "upload_run data server tid filename S \<Longrightarrow> sy_client S = Inl u \<Longrightarrow> deliverable server tid (sy_acks S) ev \<Longrightarrow>
    store_step data server ev u \<lparr>us_in = [], us_out = sy_out S, us_cap = cap\<rparr> = (Inr (Return r), s') \<Longrightarrow>
    upload_run data server tid filename (S\<lparr>sy_client := Inr r\<rparr>)"
| fails: "upload_run data server tid filename S \<Longrightarrow> sy_client S = Inl u \<Longrightarrow> deliverable server tid (sy_acks S) ev \<Longrightarrow>
    store_step data server ev u \<lparr>us_in = [], us_out = sy_out S, us_cap = cap\<rparr> = (Inl e, s') \<Longrightarrow>
    upload_run data server tid filename (S\<lparr>sy_client := Inr (Inl e)\<rparr>)"
| request: "upload_run data server tid filename S \<Longrightarrow> (build_wrq filename, server) \<in> set (sy_out S) \<Longrightarrow>
    upload_run data server tid filename (S\<lparr>sy_acks := insert 0 (sy_acks S)\<rparr>)"
| data_block: "upload_run data server tid filename S \<Longrightarrow> 0 \<in> sy_acks S \<Longrightarrow> \<not> sy_done S \<Longrightarrow>
    (build_data (of_nat (sy_next S + 1)) p, tid) \<in> set (sy_out S) \<Longrightarrow>
    upload_run data server tid filename (S\<lparr>sy_next := sy_next S + 1, sy_file := sy_file S @ p, sy_done := (length p < BLOCK_SIZE),
      sy_acks := insert (of_nat (sy_next S + 1)) (sy_acks S)\<rparr>)"

text \<open>The \<open>k\<close>-th block of the file, counted from one.\<close>

definition block_of :: "bytes \<Rightarrow> nat \<Rightarrow> bytes" where
  "block_of data k = take BLOCK_SIZE (drop (BLOCK_SIZE * (k - 1)) data)"

definition sent_ok :: "bytes \<Rightarrow> nat \<Rightarrow> (bytes \<times> addr) list \<Rightarrow> bool" where
  "sent_ok data B out \<longleftrightarrow>
     (\<forall>b p a. (build_data b p, a) \<in> set out \<longrightarrow> (\<exists>k. b = of_nat k \<and> 1 \<le> k \<and> k \<le> B \<and> p = block_of data k))"

definition client_ok :: "bytes \<Rightarrow> nat \<Rightarrow> upload \<Rightarrow> bool" where
  "client_ok data B u \<longleftrightarrow> ul_block u = of_nat B \<and> B < 65536 \<and>
     (if B = 0 then \<not> ul_sent_final u
      else ul_sent_offset u = BLOCK_SIZE * (B - 1) \<and> BLOCK_SIZE * (B - 1) \<le> length data \<and>
           (ul_sent_final u \<longleftrightarrow> length (block_of data B) < BLOCK_SIZE)) \<and>
     (\<forall>b p. ul_last_packet u = build_data b p \<longrightarrow> (\<exists>k. b = of_nat k \<and> 1 \<le> k \<and> k \<le> B \<and> p = block_of data k))"

definition server_ok :: "bytes \<Rightarrow> nat \<Rightarrow> usys \<Rightarrow> bool" where
  "server_ok data B S \<longleftrightarrow> sy_next S \<le> B \<and> B < 65536 \<and> sy_acks S \<subseteq> of_nat ` {..sy_next S} \<and>
     sy_file S = take (BLOCK_SIZE * sy_next S) data \<and>
     (sy_done S \<longleftrightarrow> sy_next S \<noteq> 0 \<and> length (block_of data (sy_next S)) < BLOCK_SIZE)"

lemma u16_eq: "a < 65536 \<Longrightarrow> b < 65536 \<Longrightarrow> (of_nat a :: u16) = of_nat b \<longleftrightarrow> a = b"
  by (simp add: word_unat_eq_iff unat_of_nat)

lemma u16_last: "k < 65536 \<Longrightarrow> (of_nat k :: u16) = - 1 \<longleftrightarrow> k = 65535"
  by (simp add: word_unat_eq_iff unat_of_nat unsigned_minus_1_eq_mask mask_eq_exp_minus_1)

lemma take_next_block: "take (BLOCK_SIZE * k) data @ block_of data (k + 1) = take (BLOCK_SIZE * (k + 1)) data"
  by (simp add: block_of_def take_add [symmetric] add.commute)

lemma last_block: "length (block_of data k) < BLOCK_SIZE \<Longrightarrow> k \<noteq> 0 \<Longrightarrow> take (BLOCK_SIZE * k) data = data"
  by (cases k) (auto simp: block_of_def)

text \<open>One pass of the client.\<close>

lemma store_ack_ok:
  assumes "client_ok data B u" and "sent_ok data B (us_out s)"
    and "store_ack data pkt a u s = (Inr (Continue u'), s')"
  shows "\<exists>B'. B \<le> B' \<and> client_ok data B' u' \<and> sent_ok data B' (us_out s')"
proof -
  from assms(3) obtain acked where acked: "parse_ack pkt = Inr acked" by (auto simp: store_ack_def split: sum.splits)
  show ?thesis
  proof (cases "acked = ul_block u")
    case False
    with assms acked show ?thesis by (auto simp: store_ack_def)
  next
    case True
    define off where "off = (if ul_block u = 0 then 0 else ul_sent_offset u + BLOCK_SIZE)"
    define p where "p = take (min (off + BLOCK_SIZE) (length data) - off) (drop off data)"
    have lp: "length p < BLOCK_SIZE \<longleftrightarrow> min (off + BLOCK_SIZE) (length data) - off < BLOCK_SIZE" by (simp add: p_def)
    from True assms(3) acked have f: "\<not> ul_sent_final u" and w: "ul_block u \<noteq> - 1"
      and s: "udp_send (build_data (ul_block u + 1) p) a s = (Inr (), s')"
      and u': "u' = \<lparr>ul_peer = (if ul_peer u = None then Some a else ul_peer u), ul_last_packet = build_data (ul_block u + 1) p,
        ul_last_dest = a, ul_retries = 0, ul_block = ul_block u + 1, ul_sent_offset = off, ul_sent_final = length p < BLOCK_SIZE\<rparr>"
      by (auto simp: store_ack_def Let_def bindS_eq_Inr off_def [symmetric] p_def [symmetric] lp split: if_split_asm)
    from assms(1) have B: "ul_block u = of_nat B" "B < 65536" by (simp_all add: client_ok_def)
    have "B \<noteq> 65535" using w B by auto
    then have B1: "B + 1 < 65536" "ul_block u + 1 = of_nat (B + 1)" using B by simp_all
    have off: "off = BLOCK_SIZE * B" "BLOCK_SIZE * B \<le> length data"
    proof -
      have "ul_block u = 0 \<longleftrightarrow> B = 0" using B u16_eq [of B 0] by simp
      with assms(1) f off_def show "off = BLOCK_SIZE * B" "BLOCK_SIZE * B \<le> length data"
        by (cases B; auto simp: client_ok_def block_of_def)+
    qed
    then have p: "p = block_of data (B + 1)" by (simp add: p_def block_of_def min_def)
    have "client_ok data (B + 1) u'"
      using B1 off by (auto simp: client_ok_def u' p build_data_inject simp del: of_nat_Suc)
    moreover have "us_out s' = us_out s @ [(build_data (of_nat (B + 1)) (block_of data (B + 1)), a)]"
      using s p B1(2) by (auto simp: udp_send_def split: option.splits nat.splits)
    then have "sent_ok data (B + 1) (us_out s')"
      using assms(2) by (fastforce simp: sent_ok_def build_data_inject)
    ultimately show ?thesis by (intro exI [of _ "B + 1"]) simp
  qed
qed

definition peer_ok :: "addr \<Rightarrow> addr option \<Rightarrow> bool" where
  "peer_ok server peer \<longleftrightarrow> (\<forall>p. peer = Some p \<longrightarrow> fst p = fst server)"

lemma heard_from_server:
  "peer_ok server peer \<Longrightarrow> \<not> (case peer of Some p \<Rightarrow> a \<noteq> p | None \<Rightarrow> fst a \<noteq> fst server) \<Longrightarrow> fst a = fst server"
  by (auto simp: peer_ok_def split: option.splits)

lemma udp_send_out: "udp_send bs a s = (Inr (), s') \<Longrightarrow> us_out s' = us_out s @ [(bs, a)]"
  by (auto simp: udp_send_def split: option.splits nat.splits)

lemma store_ack_peer:
  "store_ack data pkt a u s = (Inr (Continue u'), s') \<Longrightarrow> ul_peer u' = ul_peer u \<or> ul_peer u' = Some a"
  by (auto simp: store_ack_def Let_def bindS_eq_Inr split: sum.splits if_split_asm)

lemma store_step_ok:
  assumes "client_ok data B u" and "sent_ok data B (us_out s)" and "peer_ok server (ul_peer u)"
    and "store_step data server ev u s = (Inr (Continue u'), s')"
  shows "\<exists>B'. B \<le> B' \<and> client_ok data B' u' \<and> sent_ok data B' (us_out s') \<and> peer_ok server (ul_peer u')"
proof (cases ev)
  case (RecvError k)
  with assms(4) have "udp_send (ul_last_packet u) (ul_last_dest u) s = (Inr (), s')" and u': "u' = u\<lparr>ul_retries := ul_retries u + 1\<rparr>"
    by (auto simp: store_step_def bindS_eq_Inr split: if_splits)
  from udp_send_out [OF this(1)] have "us_out s' = us_out s @ [(ul_last_packet u, ul_last_dest u)]" .
  moreover have "client_ok data B u'" "peer_ok server (ul_peer u')" using assms(1,3) u' by (auto simp: client_ok_def split: if_splits)
  moreover have "sent_ok data B (us_out s')"
    using assms(1,2) calculation(1) by (auto simp: sent_ok_def client_ok_def)
  ultimately show ?thesis by blast
next
  case (Datagram pkt a)
  show ?thesis
  proof (cases "(case ul_peer u of Some p \<Rightarrow> a \<noteq> p | None \<Rightarrow> fst a \<noteq> fst server)")
    case True
    with assms Datagram have "u' = u" "s' = s" by (simp_all add: store_step_def)
    with assms show ?thesis by blast
  next
    case False
    with assms(4) Datagram have ack: "store_ack data pkt a u s = (Inr (Continue u'), s')"
      by (auto simp: store_step_def bindR_eq_Inr split: if_split_asm option.split_asm)
    have "peer_ok server (ul_peer u')"
      using store_ack_peer [OF ack] heard_from_server [OF assms(3) False] assms(3) by (auto simp: peer_ok_def)
    with store_ack_ok [OF assms(1,2) ack] show ?thesis by blast
  qed
qed

lemma store_step_returns:
  assumes "store_step data server ev u s = (Inr (Return r), s')"
  shows "\<exists>pkt a. ev = Datagram pkt a \<and> \<not> (case ul_peer u of Some p \<Rightarrow> a \<noteq> p | None \<Rightarrow> fst a \<noteq> fst server) \<and>
    parse_opcode pkt = Some OP_ACK \<and> parse_ack pkt = Inr (ul_block u) \<and> ul_sent_final u \<and> r = Inr ()"
proof (cases ev)
  case (RecvError k)
  with assms show ?thesis by (auto simp: store_step_def bindS_eq_Inr split: if_splits)
next
  case (Datagram pkt a)
  with assms have c: "\<not> (case ul_peer u of Some p \<Rightarrow> a \<noteq> p | None \<Rightarrow> fst a \<noteq> fst server)" "parse_opcode pkt = Some OP_ACK"
    and ack: "store_ack data pkt a u s = (Inr (Return r), s')"
    by (auto simp: store_step_def bindR_eq_Inr split: if_split_asm option.split_asm)
  from ack have "parse_ack pkt = Inr (ul_block u) \<and> ul_sent_final u \<and> r = Inr ()"
    by (auto simp: store_ack_def Let_def bindS_eq_Inr split: sum.splits if_split_asm)
  with Datagram c show ?thesis by blast
qed

definition usys_ok :: "bytes \<Rightarrow> addr \<Rightarrow> usys \<Rightarrow> bool" where
  "usys_ok data server S \<longleftrightarrow>
     (\<exists>B. server_ok data B S \<and> sent_ok data B (sy_out S) \<and>
        (case sy_client S of
           Inl u \<Rightarrow> client_ok data B u \<and> peer_ok server (ul_peer u)
         | Inr (Inr _) \<Rightarrow> sy_file S = data \<and> sy_done S
         | Inr (Inl _) \<Rightarrow> True))"

lemma server_ok_later: "server_ok data B S \<Longrightarrow> B \<le> B' \<Longrightarrow> B' < 65536 \<Longrightarrow> server_ok data B' (S\<lparr>sy_client := c, sy_out := out\<rparr>)"
  by (auto simp: server_ok_def)

text \<open>The acknowledgement of the last block is only in the network when the server has the whole file.\<close>

lemma upload_acknowledged:
  assumes "server_ok data B S" and "client_ok data B u" and "ul_sent_final u"
    and "k \<in> sy_acks S" and "k = ul_block u"
  shows "sy_file S = data \<and> sy_done S"
proof -
  from assms(1,4) obtain n where n: "k = of_nat n" "n \<le> sy_next S" "sy_next S \<le> B" "B < 65536" by (auto simp: server_ok_def)
  with assms(2,5) have "n = B" using u16_eq [of n B] by (simp add: client_ok_def)
  with n have nx: "sy_next S = B" by simp
  from assms(2,3) have "B \<noteq> 0" "length (block_of data B) < BLOCK_SIZE" by (auto simp: client_ok_def split: if_splits)
  with assms(1) nx last_block [of data B] show ?thesis by (simp add: server_ok_def)
qed

lemma upload_run_ok: "upload_run data server tid filename S \<Longrightarrow> usys_ok data server S"
proof (induction rule: upload_run.induct)
  case start
  show ?case
    unfolding usys_ok_def
    by (intro exI [of _ 0])
      (auto simp: server_ok_def sent_ok_def client_ok_def peer_ok_def upload_new_def build_wrq_not_data build_wrq_not_data [symmetric])
next
  case (goes_on S u ev cap u' s')
  then obtain B where B: "server_ok data B S" "sent_ok data B (sy_out S)" "client_ok data B u" "peer_ok server (ul_peer u)"
    by (auto simp: usys_ok_def)
  from store_step_ok [OF B(3) _ B(4) goes_on(4)] B(2) obtain B' where B': "B \<le> B'" "client_ok data B' u'"
    "sent_ok data B' (us_out s')" "peer_ok server (ul_peer u')" by auto
  with server_ok_later [OF B(1)] show ?case by (auto simp: usys_ok_def client_ok_def intro!: exI [of _ B'])
next
  case (returns S u ev cap r s')
  then obtain B where B: "server_ok data B S" "sent_ok data B (sy_out S)" "client_ok data B u" "peer_ok server (ul_peer u)"
    by (auto simp: usys_ok_def)
  from store_step_returns [OF returns(4)] obtain pkt a where p: "ev = Datagram pkt a"
    "\<not> (case ul_peer u of Some p \<Rightarrow> a \<noteq> p | None \<Rightarrow> fst a \<noteq> fst server)" "parse_opcode pkt = Some OP_ACK"
    "parse_ack pkt = Inr (ul_block u)" "ul_sent_final u" "r = Inr ()" by blast
  with returns(3) heard_from_server [OF B(4) p(2)] obtain k where k: "k \<in> sy_acks S" "pkt = build_ack k"
    unfolding deliverable_def by blast
  with p(4) have "k = ul_block u" by (simp add: parse_built)
  with k(1) upload_acknowledged [OF B(1,3) p(5)] have "sy_file S = data \<and> sy_done S" by blast
  with B(1,2) p(6) show ?case by (auto simp: usys_ok_def server_ok_def intro!: exI [of _ B])
next
  case (fails S u ev cap e s')
  then obtain B where "server_ok data B S" "sent_ok data B (sy_out S)" by (auto simp: usys_ok_def)
  then show ?case by (auto simp: usys_ok_def server_ok_def intro!: exI [of _ B])
next
  case (request S)
  then obtain B where B: "server_ok data B S" "sent_ok data B (sy_out S)"
    "case sy_client S of Inl u \<Rightarrow> client_ok data B u \<and> peer_ok server (ul_peer u)
         | Inr (Inr _) \<Rightarrow> sy_file S = data \<and> sy_done S | Inr (Inl _) \<Rightarrow> True"
    by (auto simp: usys_ok_def)
  then have "server_ok data B (S\<lparr>sy_acks := insert 0 (sy_acks S)\<rparr>)" by (force simp: server_ok_def)
  with B show ?case by (auto simp: usys_ok_def intro!: exI [of _ B] split: sum.splits)
next
  case (data_block S p)
  then obtain B where B: "server_ok data B S" "sent_ok data B (sy_out S)"
    "case sy_client S of Inl u \<Rightarrow> client_ok data B u \<and> peer_ok server (ul_peer u)
         | Inr (Inr _) \<Rightarrow> sy_file S = data \<and> sy_done S | Inr (Inl _) \<Rightarrow> True"
    by (auto simp: usys_ok_def)
  from B(2) data_block(4) obtain k where k: "(of_nat (sy_next S + 1) :: u16) = of_nat k" "1 \<le> k" "k \<le> B" "p = block_of data k"
    unfolding sent_ok_def by blast
  from B(1) k have "sy_next S \<le> B" "B < 65536" by (simp_all add: server_ok_def)
  have "k = sy_next S + 1"
  proof (cases "sy_next S + 1 < 65536")
    case True
    with k \<open>B < 65536\<close> u16_eq [of "sy_next S + 1" k] show ?thesis by simp
  next
    case False
    with \<open>sy_next S \<le> B\<close> \<open>B < 65536\<close> have "sy_next S + 1 = 65536" by simp
    then have "(of_nat k :: u16) = of_nat 0" using k(1) by simp
    with k \<open>B < 65536\<close> u16_eq [of k 0] show ?thesis by simp
  qed
  moreover have "sy_acks S \<subseteq> of_nat ` {..sy_next S}" using B(1) by (simp add: server_ok_def)
  then have "insert (of_nat (sy_next S + 1)) (sy_acks S) \<subseteq> of_nat ` {..sy_next S + 1}" by (fastforce simp del: of_nat_add of_nat_Suc)
  ultimately have "server_ok data B (S\<lparr>sy_next := sy_next S + 1, sy_file := sy_file S @ p, sy_done := (length p < BLOCK_SIZE),
      sy_acks := insert (of_nat (sy_next S + 1)) (sy_acks S)\<rparr>)"
    using k B(1) take_next_block [of "sy_next S" data] by (simp add: server_ok_def)
  with B data_block(3) show ?case by (auto simp: usys_ok_def intro!: exI [of _ B] split: sum.splits)
qed

subsection \<open>A download and what the network delivers\<close>

text \<open>DATA packets from the IP of the server are blocks of the file; nothing is asked of any other datagram.\<close>

definition honest :: "bytes \<Rightarrow> addr \<Rightarrow> recv \<Rightarrow> bool" where
  "honest file server ev \<longleftrightarrow>
     (\<forall>pkt a b p. ev = Datagram pkt a \<longrightarrow> fst a = fst server \<longrightarrow> parse_data (take 532 pkt) = Inr (b, p) \<longrightarrow>
        b \<noteq> 0 \<and> p = block_of file (unat b) \<and> BLOCK_SIZE * (unat b - 1) \<le> length file)"

definition download_ok :: "bytes \<Rightarrow> addr \<Rightarrow> download \<Rightarrow> bool" where
  "download_ok file server d \<longleftrightarrow>
     dl_expected d \<noteq> 0 \<and> dl_out d = take (BLOCK_SIZE * (unat (dl_expected d) - 1)) file \<and> peer_ok server (dl_peer d)"

lemma take_to_block:
  "k \<noteq> 0 \<Longrightarrow> take (BLOCK_SIZE * (k - 1)) file @ block_of file k = take (BLOCK_SIZE * k) file"
  using take_next_block [of "k - 1" "file"] by simp

lemma unat_u16_suc: "(w :: u16) \<noteq> - 1 \<Longrightarrow> unat (w + 1) = unat w + 1"
proof -
  assume "w \<noteq> - 1"
  then have "1 + w \<noteq> 0" by (metis add.commute add_eq_0_iff2)
  then show ?thesis using unatSuc [of w] by (simp add: add.commute)
qed

lemma u16_max: "unat (w :: u16) < 65536"
proof -
  have "unat w < 2 ^ LENGTH(16)" by (rule unsigned_less)
  then show ?thesis by simp
qed

lemma fetch_data_ok:
  assumes "download_ok file server d" and "fst a = fst server"
    and "\<And>b p. parse_data pkt = Inr (b, p) \<Longrightarrow> b \<noteq> 0 \<and> p = block_of file (unat b)"
    and "fetch_data pkt a d s = (Inr q, s')"
  shows "(\<exists>d'. q = Continue d' \<and> download_ok file server d') \<or> (q = Return (Inr file) \<and> length file < BLOCK_SIZE * unat (dl_expected d))"
proof -
  from assms(4) obtain b p where bp: "parse_data pkt = Inr (b, p)" by (auto simp: fetch_data_def split: sum.splits)
  show ?thesis
  proof (cases "b = dl_expected d")
    case False
    with bp assms(1,4) show ?thesis by (auto simp: fetch_data_def bindS_eq_Inr split: if_splits)
  next
    case True
    let ?k = "unat (dl_expected d)"
    from assms(3) [OF bp] True have p: "p = block_of file ?k" and k: "?k \<noteq> 0" by (auto simp: unat_eq_0)
    have out: "dl_out d @ p = take (BLOCK_SIZE * ?k) file"
      using assms(1) k take_to_block [OF k, of "file"] by (simp add: download_ok_def p)
    show ?thesis
    proof (cases "length p < BLOCK_SIZE")
      case True
      then have "dl_out d @ p = file" using out last_block k p by simp
      moreover have "length file < BLOCK_SIZE * ?k"
        using True k p by (cases ?k) (auto simp: block_of_def)
      ultimately show ?thesis using assms(4) bp True \<open>b = dl_expected d\<close>
        by (auto simp: fetch_data_def Let_def bindS_eq_Inr split: if_splits)
    next
      case False
      then have w: "dl_expected d \<noteq> - 1"
        and q: "q = Continue \<lparr>dl_peer = (if dl_peer d = None then Some a else dl_peer d), dl_out = dl_out d @ p,
          dl_expected = dl_expected d + 1, dl_last_packet = build_ack b, dl_last_dest = a, dl_retries = 0\<rparr>"
        using assms(4) bp True by (auto simp: fetch_data_def Let_def bindS_eq_Inr split: if_splits)
      have "dl_expected d + 1 \<noteq> 0" using w by (metis add_eq_0_iff2)
      then have "download_ok file server \<lparr>dl_peer = (if dl_peer d = None then Some a else dl_peer d), dl_out = dl_out d @ p,
          dl_expected = dl_expected d + 1, dl_last_packet = build_ack b, dl_last_dest = a, dl_retries = 0\<rparr>"
        using assms(1,2) out unat_u16_suc [OF w] by (auto simp: download_ok_def peer_ok_def)
      with q show ?thesis by blast
    qed
  qed
qed

lemma fetch_step_ok:
  assumes "download_ok file server d" and "\<And>pkt a. ev = Datagram pkt a \<Longrightarrow> fst a = fst server \<Longrightarrow>
      (\<forall>b p. parse_data pkt = Inr (b, p) \<longrightarrow> b \<noteq> 0 \<and> p = block_of file (unat b))"
    and "fetch_step server ev d s = (Inr q, s')"
  shows "(\<exists>d'. q = Continue d' \<and> download_ok file server d') \<or> (q = Return (Inr file) \<and> length file < BLOCK_SIZE * 65535)"
proof (cases ev)
  case (RecvError k)
  with assms show ?thesis by (auto simp: fetch_step_def bindS_eq_Inr download_ok_def split: if_splits)
next
  case (Datagram pkt a)
  show ?thesis
  proof (cases "(case dl_peer d of Some p \<Rightarrow> a \<noteq> p | None \<Rightarrow> fst a \<noteq> fst server)")
    case True
    with assms Datagram show ?thesis by (auto simp: fetch_step_def)
  next
    case False
    with assms(3) Datagram have data: "fetch_data pkt a d s = (Inr q, s')"
      by (auto simp: fetch_step_def bindR_eq_Inr split: if_split_asm option.split_asm)
    from assms(1) have "peer_ok server (dl_peer d)" by (simp add: download_ok_def)
    from fetch_data_ok [OF assms(1) heard_from_server [OF this False] _ data] assms(2) [OF Datagram heard_from_server [OF this False]]
      u16_max [of "dl_expected d"] show ?thesis by fastforce
  qed
qed

lemma fetch_loop_exact:
  "fetch_loop server d s = (Inr out, s') \<Longrightarrow> download_ok file server d \<Longrightarrow> (\<And>ev. ev \<in> set (us_in s) \<Longrightarrow> honest file server ev) \<Longrightarrow>
     out = file \<and> length file < BLOCK_SIZE * 65535"
proof (induction server d s rule: fetch_loop.induct)
  case (1 server d s)
  obtain ev s1 where r: "recv_from s = (ev, s1)" by fastforce
  note step = 1(2) [unfolded fetch_loop.simps [of server d s] r Let_def prod.case]
  then obtain q s2 where q: "fetch_step server ev d s1 = (Inr q, s2)"
    by (cases "fetch_step server ev d s1") (auto split: sum.splits)
  have h: "(\<forall>b p. parse_data pkt = Inr (b, p) \<longrightarrow> b \<noteq> 0 \<and> p = block_of file (unat b))"
    if ev: "ev = Datagram pkt a" "fst a = fst server" for pkt a
  proof -
    from r ev(1) obtain bs where "Datagram bs a \<in> set (us_in s)" "pkt = take 532 bs"
      by (auto simp: recv_from_def split: list.splits recv.splits)
    with 1(4) ev(2) show ?thesis unfolding honest_def by blast
  qed
  from fetch_step_ok [OF 1(3) _ q] h
  have "(\<exists>d'. q = Continue d' \<and> download_ok file server d') \<or> (q = Return (Inr file) \<and> length file < BLOCK_SIZE * 65535)" by blast
  then show ?case
  proof
    assume "\<exists>d'. q = Continue d' \<and> download_ok file server d'"
    then obtain d' where d': "q = Continue d'" "download_ok file server d'" by blast
    with step q have "fetch_loop server d' s2 = (Inr out, s')" by simp
    moreover have "us_in s2 = us_in s1" using fetch_step_continues [of server ev d s1 d' s2] q d'(1) by simp
    moreover have "set (us_in s1) \<subseteq> set (us_in s)" using recv_from_cases [OF r] by auto
    ultimately show ?thesis using 1(1) [OF r [symmetric] _ q [symmetric] _ d'(1)] d'(2) 1(4) by auto
  next
    assume "q = Return (Inr file) \<and> length file < BLOCK_SIZE * 65535"
    with step q show ?thesis by simp
  qed
qed

subsection \<open>A download that gets through\<close>

text \<open>What may come between two blocks: timeouts, datagrams from other hosts, and repetitions of earlier blocks.\<close>

definition noise :: "bytes \<Rightarrow> addr \<Rightarrow> addr \<Rightarrow> nat \<Rightarrow> recv \<Rightarrow> bool" where
  "noise file server tid k ev =
     (case ev of
        RecvError e \<Rightarrow> e = WouldBlock \<or> e = TimedOut
      | Datagram pkt a \<Rightarrow> fst a \<noteq> fst server \<or> (a = tid \<and> list_ex (\<lambda>j. pkt = build_data (of_nat j) (block_of file j)) [1..<k]))"

fun is_timeout :: "recv \<Rightarrow> bool" where
  "is_timeout (RecvError e) = True"
| "is_timeout (Datagram pkt a) = False"

text \<open>The blocks from the \<open>k\<close>-th on, each after some noise.\<close>

fun delivery :: "bytes \<Rightarrow> addr \<Rightarrow> nat \<Rightarrow> recv list list \<Rightarrow> recv list" where
  "delivery file tid k [] = []"
| "delivery file tid k (evs # evss) =
     evs @ Datagram (build_data (of_nat k) (block_of file k)) tid # delivery file tid (k + 1) evss"

definition gets_through :: "bytes \<Rightarrow> addr \<Rightarrow> addr \<Rightarrow> nat \<Rightarrow> recv list list \<Rightarrow> bool" where
  "gets_through file server tid k evss =
     list_all (\<lambda>(j, evs). list_all (noise file server tid j) evs \<and> length (filter is_timeout evs) \<le> MAX_RETRIES) (enumerate k evss)"

lemma length_build_data: "length (block_of file k) \<le> BLOCK_SIZE" "length (build_data b (block_of file k)) \<le> 516"
  by (simp_all add: block_of_def build_data_def)

definition waiting_for :: "addr \<Rightarrow> addr \<Rightarrow> nat \<Rightarrow> download \<Rightarrow> bool" where
  "waiting_for server tid k d \<longleftrightarrow>
     1 \<le> k \<and> k < 65536 \<and> dl_expected d = of_nat k \<and> fst tid = fst server \<and>
     (dl_peer d = Some tid \<or> (dl_peer d = None \<and> k = 1))"

text \<open>Noise leaves the download where it was, but for the packets sent and the retries.\<close>

lemma fetch_noise:
  assumes "us_cap s = None" and "waiting_for server tid k d"
  shows "list_all (noise file server tid k) evs \<Longrightarrow> dl_retries d + length (filter is_timeout evs) \<le> MAX_RETRIES \<Longrightarrow>
    \<exists>r sent. fetch_loop server d (s\<lparr>us_in := evs @ rest\<rparr>) =
      fetch_loop server (d\<lparr>dl_retries := r\<rparr>) (s\<lparr>us_in := rest, us_out := sent\<rparr>)"
  using assms
proof (induction evs arbitrary: d s)
  case Nil
  show ?case by (intro exI [of _ "dl_retries d"] exI [of _ "us_out s"]) simp
next
  case (Cons ev evs)
  have "\<exists>d' sent. fetch_loop server d (s\<lparr>us_in := (ev # evs) @ rest\<rparr>) = fetch_loop server d' (s\<lparr>us_in := evs @ rest, us_out := sent\<rparr>) \<and>
    d' = d\<lparr>dl_retries := dl_retries d'\<rparr> \<and> dl_retries d' + length (filter is_timeout evs) \<le> MAX_RETRIES"
  proof (cases ev)
    case (RecvError e)
    with Cons.prems show ?thesis
      by (intro exI [of _ "d\<lparr>dl_retries := dl_retries d + 1\<rparr>"] exI [of _ "us_out s @ [(dl_last_packet d, dl_last_dest d)]"])
        (subst fetch_loop.simps, simp add: recv_from_def fetch_step_def noise_def udp_send_def)
  next
    case (Datagram pkt a)
    show ?thesis
    proof (cases "a = tid")
      case False
      with Cons.prems Datagram show ?thesis
        by (intro exI [of _ d] exI [of _ "us_out s"])
          (subst fetch_loop.simps, auto simp: recv_from_def fetch_step_def noise_def waiting_for_def)
    next
      case True
      with Cons.prems(1,4) Datagram obtain j where j: "1 \<le> j" "j < k" "pkt = build_data (of_nat j) (block_of file j)"
        by (auto simp: noise_def waiting_for_def list_ex_iff)
      with Cons.prems(4) have p: "dl_peer d = Some tid" "dl_expected d \<noteq> of_nat j"
        using u16_eq [of j k] by (auto simp: waiting_for_def)
      have t: "take 532 pkt = pkt" using length_build_data(2) [of "of_nat j" "file" j] j(3) by simp
      define sent where "sent = (if of_nat j + 1 = dl_expected d then us_out s @ [(build_ack (of_nat j), tid)] else us_out s)"
      have "fetch_step server ev d (s\<lparr>us_in := evs @ rest\<rparr>) = (Inr (Continue d), s\<lparr>us_in := evs @ rest, us_out := sent\<rparr>)"
        using Cons.prems(3) p True Datagram
        by (auto simp: fetch_step_def fetch_data_def j(3) parse_built udp_send_def sent_def)
      with Datagram t Cons.prems(2) show ?thesis
        by (intro exI [of _ d] exI [of _ sent]) (subst fetch_loop.simps, simp add: recv_from_def)
    qed
  qed
  then obtain d' sent where d': "fetch_loop server d (s\<lparr>us_in := (ev # evs) @ rest\<rparr>) = fetch_loop server d' (s\<lparr>us_in := evs @ rest, us_out := sent\<rparr>)"
    "d' = d\<lparr>dl_retries := dl_retries d'\<rparr>" "dl_retries d' + length (filter is_timeout evs) \<le> MAX_RETRIES" by blast
  from Cons.prems(4) have "waiting_for server tid k (d\<lparr>dl_retries := dl_retries d'\<rparr>)" by (simp add: waiting_for_def)
  then have w: "waiting_for server tid k d'" using d'(2) by simp
  have io: "(s\<lparr>us_out := sent\<rparr>)\<lparr>us_in := evs @ rest\<rparr> = s\<lparr>us_in := evs @ rest, us_out := sent\<rparr>" by simp
  from Cons.IH [OF _ d'(3) _ w, of "s\<lparr>us_out := sent\<rparr>"] Cons.prems(1,3) obtain r sent' where
    "fetch_loop server d' (s\<lparr>us_in := evs @ rest, us_out := sent\<rparr>) = fetch_loop server (d'\<lparr>dl_retries := r\<rparr>) (s\<lparr>us_in := rest, us_out := sent'\<rparr>)"
    unfolding io by auto
  with d'(1) have "fetch_loop server d (s\<lparr>us_in := (ev # evs) @ rest\<rparr>) = fetch_loop server (d'\<lparr>dl_retries := r\<rparr>) (s\<lparr>us_in := rest, us_out := sent'\<rparr>)" by simp
  moreover have "d'\<lparr>dl_retries := r\<rparr> = d\<lparr>dl_retries := r\<rparr>" by (subst d'(2)) simp
  ultimately show ?case by metis
qed

lemma udp_swap: "s\<lparr>us_in := x, us_out := y\<rparr> = s\<lparr>us_out := y, us_in := x\<rparr>" for s :: udp
  by simp

lemma fetch_block:
  assumes "us_cap s = None" and "waiting_for server tid k d" and "dl_out d = take (BLOCK_SIZE * (k - 1)) file"
    and "length file < BLOCK_SIZE * 65535" and "BLOCK_SIZE * (k - 1) \<le> length file"
  shows "fetch_loop server d (s\<lparr>us_in := Datagram (build_data (of_nat k) (block_of file k)) tid # rest\<rparr>) =
    (if BLOCK_SIZE * k > length file then (Inr file, s\<lparr>us_in := rest, us_out := us_out s @ [(build_ack (of_nat k), tid)]\<rparr>)
     else fetch_loop server \<lparr>dl_peer = Some tid, dl_out = take (BLOCK_SIZE * k) file, dl_expected = of_nat (k + 1),
         dl_last_packet = build_ack (of_nat k), dl_last_dest = tid, dl_retries = 0\<rparr>
       (s\<lparr>us_in := rest, us_out := us_out s @ [(build_ack (of_nat k), tid)]\<rparr>))"
proof -
  let ?p = "block_of file k"
  let ?s = "s\<lparr>us_in := rest\<rparr>" and ?s' = "s\<lparr>us_in := rest, us_out := us_out s @ [(build_ack (of_nat k), tid)]\<rparr>"
  from assms(2) have k: "k \<noteq> 0" "k < 65536" "dl_expected d = of_nat k" by (simp_all add: waiting_for_def)
  have t: "take 532 (build_data (of_nat k) ?p) = build_data (of_nat k) ?p" using length_build_data(2) [of "of_nat k" "file" k] by simp
  have out: "dl_out d @ ?p = take (BLOCK_SIZE * k) file" using assms(3) take_to_block [OF k(1)] by simp
  have short: "length ?p < BLOCK_SIZE \<longleftrightarrow> length file < BLOCK_SIZE * k" using k(1) assms(5) by (cases k) (auto simp: block_of_def)
  have room: "\<not> length (dl_out d) + length ?p > MAX_TOTAL_BYTES"
  proof -
    have "length (dl_out d) + length ?p = length (take (BLOCK_SIZE * k) file)" using out by (metis length_append)
    with assms(4) show ?thesis by simp
  qed
  have w: "dl_expected d = - 1 \<longleftrightarrow> k = 65535" using u16_last [OF k(2)] k(3) by simp
  have "fetch_step server (Datagram (build_data (of_nat k) ?p) tid) d ?s = fetch_data (build_data (of_nat k) ?p) tid d ?s"
    using assms(2) by (auto simp: fetch_step_def parse_built waiting_for_def)
  also have "\<dots> = (if length file < BLOCK_SIZE * k then (Inr (Return (Inr file)), ?s')
      else (Inr (Continue \<lparr>dl_peer = Some tid, dl_out = take (BLOCK_SIZE * k) file, dl_expected = of_nat (k + 1),
         dl_last_packet = build_ack (of_nat k), dl_last_dest = tid, dl_retries = 0\<rparr>), ?s'))"
  proof (cases "length file < BLOCK_SIZE * k")
    case True
    then show ?thesis using assms(1) k room short out by (simp add: fetch_data_def parse_built udp_send_def Let_def)
  next
    case False
    with assms(4) have "k \<noteq> 65535" by auto
    with False assms(1,2) k room short out w show ?thesis
      by (auto simp: fetch_data_def parse_built udp_send_def Let_def waiting_for_def)
  qed
  finally show ?thesis by (subst fetch_loop.simps) (simp add: recv_from_def t)
qed

lemma fetch_delivery:
  assumes "length file < BLOCK_SIZE * 65535"
  shows "us_cap s = None \<Longrightarrow> waiting_for server tid k d \<Longrightarrow> dl_out d = take (BLOCK_SIZE * (k - 1)) file \<Longrightarrow> dl_retries d = 0 \<Longrightarrow>
    gets_through file server tid k evss \<Longrightarrow> k + length evss = length file div BLOCK_SIZE + 2 \<Longrightarrow> evss \<noteq> [] \<Longrightarrow>
    fst (fetch_loop server d (s\<lparr>us_in := delivery file tid k evss @ rest\<rparr>)) = Inr file"
proof (induction evss arbitrary: k d s)
  case (Cons evs evss)
  let ?b = "Datagram (build_data (of_nat k) (block_of file k)) tid"
  from Cons.prems(5) have n: "list_all (noise file server tid k) evs" "length (filter is_timeout evs) \<le> MAX_RETRIES"
    "gets_through file server tid (k + 1) evss" by (simp_all add: gets_through_def)
  obtain r sent where noisy: "fetch_loop server d (s\<lparr>us_in := evs @ ?b # delivery file tid (k + 1) evss @ rest\<rparr>) =
      fetch_loop server (d\<lparr>dl_retries := r\<rparr>) (s\<lparr>us_in := ?b # delivery file tid (k + 1) evss @ rest, us_out := sent\<rparr>)"
    using fetch_noise [OF Cons.prems(1,2) n(1), of "?b # delivery file tid (k + 1) evss @ rest"] n(2) Cons.prems(4) by auto
  have "1 \<le> k" using Cons.prems(2) by (simp add: waiting_for_def)
  with Cons.prems(6) have "k - 1 \<le> length file div BLOCK_SIZE" by simp
  then have le: "BLOCK_SIZE * (k - 1) \<le> length file" by (simp add: less_eq_div_iff_mult_less_eq mult.commute)
  let ?s = "s\<lparr>us_out := sent\<rparr>"
  have b: "fetch_loop server (d\<lparr>dl_retries := r\<rparr>) (?s\<lparr>us_in := ?b # delivery file tid (k + 1) evss @ rest\<rparr>) =
    (if BLOCK_SIZE * k > length file then (Inr file, ?s\<lparr>us_in := delivery file tid (k + 1) evss @ rest, us_out := us_out ?s @ [(build_ack (of_nat k), tid)]\<rparr>)
     else fetch_loop server \<lparr>dl_peer = Some tid, dl_out = take (BLOCK_SIZE * k) file, dl_expected = of_nat (k + 1),
         dl_last_packet = build_ack (of_nat k), dl_last_dest = tid, dl_retries = 0\<rparr>
       (?s\<lparr>us_in := delivery file tid (k + 1) evss @ rest, us_out := us_out ?s @ [(build_ack (of_nat k), tid)]\<rparr>))"
    using Cons.prems(1-3) assms le by (intro fetch_block) (simp_all add: waiting_for_def)
  show ?case
  proof (cases "BLOCK_SIZE * k > length file")
    case True
    with b noisy show ?thesis by (simp add: udp_swap)
  next
    case False
    then have "k \<le> length file div BLOCK_SIZE" by (simp add: less_eq_div_iff_mult_less_eq mult.commute)
    with Cons.prems(6) have ne: "evss \<noteq> []" by auto
    from False assms have "k + 1 < 65536" by simp
    then have w: "waiting_for server tid (k + 1) \<lparr>dl_peer = Some tid, dl_out = take (BLOCK_SIZE * k) file, dl_expected = of_nat (k + 1),
         dl_last_packet = build_ack (of_nat k), dl_last_dest = tid, dl_retries = 0\<rparr>"
      using Cons.prems(2) by (simp add: waiting_for_def)
    have "fst (fetch_loop server \<lparr>dl_peer = Some tid, dl_out = take (BLOCK_SIZE * k) file, dl_expected = of_nat (k + 1),
         dl_last_packet = build_ack (of_nat k), dl_last_dest = tid, dl_retries = 0\<rparr>
       ((s\<lparr>us_out := sent @ [(build_ack (of_nat k), tid)]\<rparr>)\<lparr>us_in := delivery file tid (k + 1) evss @ rest\<rparr>)) = Inr file"
      using Cons.prems(1,6) by (intro Cons.IH [OF _ w _ _ n(3)] ne) simp_all
    with False b noisy show ?thesis by (simp add: udp_swap)
  qed
qed simp

subsection \<open>Concrete runs\<close>

abbreviation (input) example_server :: addr where "example_server \<equiv> (''10.0.0.1'', 69)"
abbreviation (input) example_tid :: addr where "example_tid \<equiv> (''10.0.0.1'', 2000)"

text \<open>A timeout and a stray datagram, then the only block.\<close>

definition example_noise :: "recv list list" where
  "example_noise = [[RecvError TimedOut, Datagram [9] (''10.0.0.2'', 2000)]]"

definition example_net :: udp where
  "example_net = \<lparr>us_in = delivery [1, 2, 3] example_tid 1 example_noise @ [], us_out = [], us_cap = None\<rparr>"

lemma example_gets_through: "gets_through [1, 2, 3] example_server example_tid 1 example_noise"
  by (simp add: gets_through_def example_noise_def noise_def)

lemma example_download: "\<exists>s'. fetch_over example_server ''f'' example_net = (Inr [1, 2, 3], s')"
proof -
  let ?s = "\<lparr>us_in = [], us_out = [(build_rrq ''f'', example_server)], us_cap = None\<rparr>"
  let ?d = "\<lparr>dl_peer = None, dl_out = [], dl_expected = 1, dl_last_packet = build_rrq ''f'', dl_last_dest = example_server, dl_retries = 0\<rparr>"
  have "fst (fetch_loop example_server ?d (?s\<lparr>us_in := delivery [1, 2, 3] example_tid 1 example_noise @ []\<rparr>)) = Inr [1, 2, 3]"
    by (rule fetch_delivery [OF _ _ _ _ _ example_gets_through]) (simp_all add: waiting_for_def example_noise_def)
  then have "fst (fetch_over example_server ''f'' example_net) = Inr [1, 2, 3]"
    by (simp add: fetch_over_def example_net_def udp_send_def)
  then show ?thesis by (metis prod.collapse)
qed

lemma example_upload:
  "\<exists>S. upload_run [7] example_server example_tid ''f'' S \<and> sy_client S = Inr (Inr ()) \<and> sy_next S = 1"
proof -
  let ?wrq = "(build_wrq ''f'', example_server)" and ?data = "(build_data 1 [7], example_tid)"
  let ?u = "\<lparr>ul_peer = Some example_tid, ul_last_packet = build_data 1 [7], ul_last_dest = example_tid, ul_retries = 0, ul_block = 1,
    ul_sent_offset = 0, ul_sent_final = True\<rparr>"
  have "upload_run [7] example_server example_tid ''f'' \<lparr>sy_client = Inl (upload_new example_server ''f''), sy_out = [?wrq],
      sy_next = 0, sy_file = [], sy_done = False, sy_acks = {0}\<rparr>"
    using upload_run.request [OF upload_run.start [of "[7]" example_server example_tid "''f''"]] by simp
  from upload_run.goes_on [OF this, of "upload_new example_server ''f''" "Datagram (build_ack 0) example_tid" None ?u
      "\<lparr>us_in = [], us_out = [?wrq, ?data], us_cap = None\<rparr>"]
  have "upload_run [7] example_server example_tid ''f'' \<lparr>sy_client = Inl ?u, sy_out = [?wrq, ?data],
      sy_next = 0, sy_file = [], sy_done = False, sy_acks = {0}\<rparr>"
    by (simp add: deliverable_def store_step_def store_ack_def parse_built upload_new_def udp_send_def Let_def)
  from upload_run.data_block [OF this, of "[7]"]
  have "upload_run [7] example_server example_tid ''f'' \<lparr>sy_client = Inl ?u, sy_out = [?wrq, ?data],
      sy_next = 1, sy_file = [7], sy_done = True, sy_acks = {1, 0}\<rparr>" by simp
  from upload_run.returns [OF this, of ?u "Datagram (build_ack 1) example_tid" None "Inr ()"
      "\<lparr>us_in = [], us_out = [?wrq, ?data], us_cap = None\<rparr>"]
  have "upload_run [7] example_server example_tid ''f'' \<lparr>sy_client = Inr (Inr ()), sy_out = [?wrq, ?data],
      sy_next = 1, sy_file = [7], sy_done = True, sy_acks = {1, 0}\<rparr>"
    by (simp add: deliverable_def store_step_def store_ack_def parse_built)
  then show ?thesis by (metis usys.select_convs(1,3))
qed

subsection \<open>Properties\<close>

text \<open>C24: Whatever the network loses, repeats, reorders or forges from other hosts, a download that returns gives exactly the file of the
  server, and that file is shorter than 65535 blocks.\<close>

theorem tftp_download_exact:
  assumes "fetch_over server filename s = (Inr out, s')" and "\<And>ev. ev \<in> set (us_in s) \<Longrightarrow> honest file server ev"
  shows "out = file \<and> length file < BLOCK_SIZE * 65535"
proof -
  from assms(1) obtain s1 where s1: "udp_send (build_rrq filename) server s = (Inr (), s1)"
    and l: "fetch_loop server \<lparr>dl_peer = None, dl_out = [], dl_expected = 1, dl_last_packet = build_rrq filename,
      dl_last_dest = server, dl_retries = 0\<rparr> s1 = (Inr out, s')"
    by (auto simp: fetch_over_def bindS_eq_Inr)
  from l show ?thesis
    by (rule fetch_loop_exact) (use assms(2) udp_send_rest [OF s1] in \<open>auto simp: download_ok_def peer_ok_def\<close>)
qed

lemma tftp_download_exact_witness:
  "\<exists>out s'. fetch_over example_server ''f'' example_net = (Inr out, s') \<and> out = [1, 2, 3]"
proof -
  obtain s' where s': "fetch_over example_server ''f'' example_net = (Inr [1, 2, 3], s')" using example_download by blast
  have t: "take 532 (build_data 1 (block_of [1, 2, 3] 1)) = build_data 1 (block_of [1, 2, 3] 1)"
    using length_build_data(2) [of 1 "[1, 2, 3]" 1] by simp
  have "honest [1, 2, 3] example_server ev" if "ev \<in> set (us_in example_net)" for ev
    using that t by (auto simp: example_net_def example_noise_def honest_def parse_built)
  from tftp_download_exact [OF s' this] s' show ?thesis by blast
qed

text \<open>C25: A download of a file of fewer than 65535 blocks succeeds when each block arrives, in order, after at most three timeouts and
  any number of datagrams of other hosts and repetitions of earlier blocks.\<close>

theorem tftp_download_completes:
  assumes "us_cap s = None" and "length file < BLOCK_SIZE * 65535" and "fst tid = fst server"
    and "gets_through file server tid 1 evss" and "length evss = length file div BLOCK_SIZE + 1"
    and "us_in s = delivery file tid 1 evss @ rest"
  shows "fst (fetch_over server filename s) = Inr file"
proof -
  let ?s = "s\<lparr>us_out := us_out s @ [(build_rrq filename, server)]\<rparr>"
  let ?d = "\<lparr>dl_peer = None, dl_out = [], dl_expected = 1, dl_last_packet = build_rrq filename, dl_last_dest = server, dl_retries = 0\<rparr>"
  have "fst (fetch_loop server ?d (?s\<lparr>us_in := delivery file tid 1 evss @ rest\<rparr>)) = Inr file"
    using assms(1,3-5) by (intro fetch_delivery assms(2)) (auto simp: waiting_for_def)
  moreover have "?s\<lparr>us_in := delivery file tid 1 evss @ rest\<rparr> = ?s" using assms(6) by simp
  ultimately show ?thesis using assms(1) by (simp add: fetch_over_def udp_send_def)
qed

lemma tftp_download_completes_witness: "fst (fetch_over example_server ''f'' example_net) = Inr [1, 2, 3]"
  by (rule tftp_download_completes [OF _ _ _ example_gets_through]) (simp_all add: example_net_def example_noise_def)

text \<open>C26: In every run of the client against a server over a network that loses, repeats, reorders and delays, and lets other hosts
  inject anything: once the client reports success the server has accepted the last block and holds exactly the file.\<close>

theorem tftp_upload_complete:
  assumes "upload_run data server tid filename S" and "sy_client S = Inr (Inr ())"
  shows "sy_file S = data \<and> sy_done S"
  using upload_run_ok [OF assms(1)] assms(2) by (auto simp: usys_ok_def)

lemma tftp_upload_complete_witness:
  "\<exists>S. upload_run [7] example_server example_tid ''f'' S \<and> sy_next S = 1 \<and> sy_file S = [7]"
  using example_upload tftp_upload_complete by blast

end
