(* ===== verification/Ldap_Ber.thy ===== *)
theory Ldap_Ber
  imports Net_IO
begin

text \<open>
  The BER writer and reader of the LDAP client (\<open>src/src/ldap.rs\<close>), and a reference reader by X.690 that takes lengths
  and integers as mathematical numbers.  The client's reader is a cursor over a slice; here it is a function from the
  bytes to the value and the bytes left.
\<close>

abbreviation (input) BER_BOOLEAN :: byte where "BER_BOOLEAN \<equiv> 0x01"
abbreviation (input) BER_INTEGER :: byte where "BER_INTEGER \<equiv> 0x02"
abbreviation (input) BER_OCTET_STRING :: byte where "BER_OCTET_STRING \<equiv> 0x04"
abbreviation (input) BER_ENUMERATED :: byte where "BER_ENUMERATED \<equiv> 0x0A"
abbreviation (input) BER_SEQUENCE :: byte where "BER_SEQUENCE \<equiv> 0x30"
abbreviation (input) BER_SET :: byte where "BER_SET \<equiv> 0x31"

definition tag_app :: "byte \<Rightarrow> bool \<Rightarrow> byte" where
  "tag_app n constructed = 0x40 OR (if constructed then 0x20 else 0) OR (n AND 0x1f)"

definition tag_ctx :: "byte \<Rightarrow> bool \<Rightarrow> byte" where
  "tag_ctx n constructed = 0x80 OR (if constructed then 0x20 else 0) OR (n AND 0x1f)"

subsection \<open>Writer\<close>

text \<open>The bytes of a length, least significant first, as the loop of \<open>encode_length\<close> collects them.\<close>

function length_digits :: "nat \<Rightarrow> bytes" where
  "length_digits l = (if l > 0 then of_nat (l AND 0xff) # length_digits (drop_bit 8 l) else [])"
  by pat_completeness auto
termination by (relation "measure id") (auto simp: drop_bit_eq_div)

declare length_digits.simps [simp del]

definition encode_length :: "nat \<Rightarrow> bytes" where
  "encode_length len =
     (if len < 0x80 then [of_nat len]
      else let ds = length_digits len in (0x80 OR of_nat (length ds)) # rev ds)"

definition write_tlv :: "byte \<Rightarrow> bytes \<Rightarrow> bytes" where
  "write_tlv t v = t # encode_length (length v) @ v"

text \<open>\<open>write_constructed\<close> writes a placeholder for the length and patches or splices it afterwards.\<close>

definition write_constructed :: "byte \<Rightarrow> bytes \<Rightarrow> bytes" where
  "write_constructed t body =
     (let out = t # 0 # body; body_len = length out - 2
      in if body_len < 0x80 then out[1 := of_nat body_len]
         else take 1 out @ encode_length body_len @ drop 2 out)"

fun drop_redundant :: "bytes \<Rightarrow> bytes" where
  "drop_redundant (a # b # bs) =
     (if (a = 0x00 \<and> b AND 0x80 = 0) \<or> (a = 0xff \<and> b AND 0x80 \<noteq> 0) then drop_redundant (b # bs) else a # b # bs)"
| "drop_redundant bs = bs"

definition write_integer :: "u64 \<Rightarrow> bytes" where
  "write_integer v = write_tlv BER_INTEGER (drop_redundant (to_be64 v))"

definition write_enumerated :: "u64 \<Rightarrow> bytes" where
  "write_enumerated v = write_tlv BER_ENUMERATED (drop_redundant (to_be64 v))"

definition write_octet_string :: "bytes \<Rightarrow> bytes" where
  "write_octet_string s = write_tlv BER_OCTET_STRING s"

definition write_boolean :: "bool \<Rightarrow> bytes" where
  "write_boolean b = write_tlv BER_BOOLEAN [if b then 0xff else 0x00]"

subsection \<open>Reader\<close>

text \<open>\<open>usize\<close> has eight bytes.\<close>

definition ber_length :: "bytes \<Rightarrow> (nat \<times> bytes) result" where
  "ber_length data =
     (case data of
        [] \<Rightarrow> Inl (BadResponse ''ber: truncated length'')
      | first # data \<Rightarrow>
          if first < 0x80 then Inr (unat first, data)
          else let n = unat (first AND 0x7f)
               in if n = 0 then Inl (BadResponse ''ber: indefinite length not allowed'')
                  else if n > 8 then Inl (BadResponse ''ber: length too large'')
                  else if length data < n then Inl (BadResponse ''ber: truncated length bytes'')
                  else Inr (unat (from_be64 (take n data)), drop n data))"

definition read_tlv :: "bytes \<Rightarrow> ((byte \<times> bytes) \<times> bytes) result" where
  "read_tlv data =
     (case data of
        [] \<Rightarrow> Inl (BadResponse ''ber: truncated tag'')
      | t # data \<Rightarrow>
          bindR (ber_length data) (\<lambda>(len, data).
            if length data < len then Inl (BadResponse ''ber: truncated value'')
            else Inr ((t, take len data), drop len data)))"

definition read_expect :: "byte \<Rightarrow> bytes \<Rightarrow> (bytes \<times> bytes) result" where
  "read_expect t data =
     bindR (read_tlv data) (\<lambda>((t', v), data).
       if t' \<noteq> t then Inl (BadResponse ''ber: expected tag {:#04x}, got {:#04x}'') else Inr (v, data))"

definition decode_integer_i64 :: "bytes \<Rightarrow> u64 result" where
  "decode_integer_i64 bs =
     (if bs = [] \<or> length bs > 8 then Inl (BadResponse ''ber: bad integer length'')
      else Inr (foldl (\<lambda>acc b. push_bit 8 acc OR ucast b) (if bs ! 0 AND 0x80 \<noteq> 0 then - 1 else 0) bs))"

definition read_integer_i64 :: "bytes \<Rightarrow> (u64 \<times> bytes) result" where
  "read_integer_i64 data =
     bindR (read_expect BER_INTEGER data) (\<lambda>(v, data). bindR (decode_integer_i64 v) (\<lambda>n. Inr (n, data)))"

definition read_enumerated_i64 :: "bytes \<Rightarrow> (u64 \<times> bytes) result" where
  "read_enumerated_i64 data =
     bindR (read_expect BER_ENUMERATED data) (\<lambda>(v, data). bindR (decode_integer_i64 v) (\<lambda>n. Inr (n, data)))"

definition read_octet_string :: "bytes \<Rightarrow> (bytes \<times> bytes) result" where
  "read_octet_string = read_expect BER_OCTET_STRING"

subsection \<open>The reference reader\<close>

fun be_value :: "bytes \<Rightarrow> nat" where
  "be_value [] = 0"
| "be_value (b # bs) = unat b * 256 ^ length bs + be_value bs"

text \<open>One tag, length and value, lengths in any definite form.\<close>

fun x690_tlv :: "bytes \<Rightarrow> ((byte \<times> bytes) \<times> bytes) option" where
  "x690_tlv (t # l # bs) =
     (let k = (if l < 0x80 then 0 else unat l - 128);
          n = (if l < 0x80 then unat l else be_value (take k bs)); bs = drop k bs
      in if l = 0x80 \<or> length bs < n then None else Some ((t, take n bs), drop n bs))"
| "x690_tlv _ = None"

text \<open>The elements of a constructed value; each takes at least two bytes.\<close>

fun x690_items :: "nat \<Rightarrow> bytes \<Rightarrow> (byte \<times> bytes) list option" where
  "x690_items fuel [] = Some []"
| "x690_items 0 (b # bs) = None"
| "x690_items (Suc fuel) (b # bs) =
     Option.bind (x690_tlv (b # bs)) (\<lambda>(tv, rest). map_option ((#) tv) (x690_items fuel rest))"

definition x690_elements :: "bytes \<Rightarrow> (byte \<times> bytes) list option" where
  "x690_elements bs = x690_items (length bs) bs"

text \<open>Two's complement.\<close>

definition x690_integer :: "bytes \<Rightarrow> int" where
  "x690_integer bs = int (be_value bs) - (if bs \<noteq> [] \<and> hd bs AND 0x80 \<noteq> 0 then 256 ^ length bs else 0)"

subsection \<open>Lengths\<close>

lemma write_constructed_tlv: "write_constructed t body = write_tlv t body"
  by (simp add: write_constructed_def write_tlv_def encode_length_def Let_def)

lemma length_digits_pos:
  "0 < l \<Longrightarrow> length_digits l = of_nat (l mod 256) # length_digits (l div 256)"
  by (subst length_digits.simps) (simp add: and_ff take_bit_eq_mod drop_bit_eq_div)

lemma length_digits_zero [simp]: "length_digits 0 = []"
  by (subst length_digits.simps) simp

lemma be_value_append: "be_value (as @ bs) = be_value as * 256 ^ length bs + be_value bs"
  by (induction as) (simp_all add: algebra_simps power_add)

lemma be_value_digits: "be_value (rev (length_digits l)) = l"
proof (induction l rule: length_digits.induct)
  case (1 l)
  show ?case
  proof (cases "l = 0")
    case False
    with 1 have "be_value (rev (length_digits (l div 256))) = l div 256" by (simp add: drop_bit_eq_div)
    with False show ?thesis
      by (simp add: length_digits_pos be_value_append unat_of_nat)
  qed simp
qed

lemma length_digits_bound: "l < 256 ^ k \<Longrightarrow> length (length_digits l) \<le> k"
proof (induction k arbitrary: l)
  case (Suc k)
  show ?case
  proof (cases "l = 0")
    case False
    from Suc.prems have "l div 256 < 256 ^ k" by (simp add: less_mult_imp_div_less mult.commute)
    with Suc.IH False show ?thesis by (simp add: length_digits_pos)
  qed simp
qed simp

lemma from_be64_value: "length bs \<le> 8 \<Longrightarrow> unat (from_be64 bs) = be_value bs"
proof -
  have "length bs \<le> 8 \<Longrightarrow> unat (foldl (\<lambda>acc b. push_bit 8 acc OR ucast b) 0 bs :: u64) = be_value bs \<and> be_value bs < 256 ^ length bs" for bs :: bytes
  proof (induction bs rule: rev_induct)
    case (snoc b bs)
    let ?w = "foldl (\<lambda>acc b. push_bit 8 acc OR ucast b) 0 bs :: u64"
    from snoc have w: "unat ?w = be_value bs" "be_value bs < 256 ^ length bs" by simp_all
    have "(256 :: nat) ^ length bs \<le> 256 ^ 7" using snoc.prems by (intro power_increasing) simp_all
    with w have small: "unat ?w < 2 ^ 56" by simp
    have "push_bit 8 ?w AND ucast b = 0"
    proof (rule bit_word_eqI)
      fix n assume "n < LENGTH(64)"
      show "bit (push_bit 8 ?w AND ucast b) n = bit (0 :: u64) n"
        by (auto simp: bit_simps not_le dest: bit_imp_le_length [where 'a = 8])
    qed
    then have "push_bit 8 ?w OR ucast b = push_bit 8 ?w + ucast b" by (simp only: disjunctive_add_eq_or)
    moreover have "unat (push_bit 8 ?w + ucast b :: u64) = unat ?w * 256 + unat b"
    proof -
      have "unat (push_bit 8 ?w) = unat ?w * 256"
        using small by (simp add: push_bit_eq_mult unat_word_ariths)
      moreover have "unat (ucast b :: u64) = unat b" using unat_byte_less [of b] by (simp add: unsigned_ucast_eq take_bit_nat_eq_self)
      ultimately show ?thesis using small unat_byte_less [of b] by (simp add: unat_word_ariths)
    qed
    ultimately show ?case using w unat_byte_less [of b] by (simp add: be_value_append)
  qed simp
  then show "length bs \<le> 8 \<Longrightarrow> unat (from_be64 bs) = be_value bs" by (simp add: from_be64_def)
qed

subsection \<open>What is written is read back\<close>

lemma digits_count: "n < 2 ^ 64 \<Longrightarrow> length (length_digits n) \<le> 8"
  using length_digits_bound [of n 8] by simp

lemma long_length:
  assumes "0x80 \<le> n" and "n < 2 ^ 64"
  shows "1 \<le> length (length_digits n)" and "length (length_digits n) \<le> 8"
proof -
  show "1 \<le> length (length_digits n)" using assms(1) by (simp add: length_digits_pos)
  show "length (length_digits n) \<le> 8" by (rule digits_count [OF assms(2)])
qed

lemma length_byte:
  assumes "1 \<le> k" and "k \<le> 8"
  shows "\<not> (0x80 OR of_nat k :: byte) < 0x80" and "unat ((0x80 OR of_nat k :: byte) AND 0x7f) = k"
    and "unat (0x80 OR of_nat k :: byte) - 128 = k" and "(0x80 OR of_nat k :: byte) \<noteq> 0x80"
proof -
  have "k \<in> {1, 2, 3, 4, 5, 6, 7, 8}" using assms by auto
  then show "\<not> (0x80 OR of_nat k :: byte) < 0x80" and "unat ((0x80 OR of_nat k :: byte) AND 0x7f) = k"
    and "unat (0x80 OR of_nat k :: byte) - 128 = k" and "(0x80 OR of_nat k :: byte) \<noteq> 0x80" by auto
qed

lemma ber_length_encoded: "n < 2 ^ 64 \<Longrightarrow> ber_length (encode_length n @ rest) = Inr (n, rest)"
proof (cases "n < 0x80")
  case True
  then have "unat (of_nat n :: byte) = n" "(of_nat n :: byte) < 0x80" by (simp_all add: unat_of_nat word_less_nat_alt)
  with True show ?thesis by (simp add: encode_length_def ber_length_def)
next
  case False
  assume n: "n < 2 ^ 64"
  with False long_length have k: "1 \<le> length (length_digits n)" "length (length_digits n) \<le> 8" by auto
  note b = length_byte [OF k]
  have "unat (from_be64 (rev (length_digits n))) = n"
    using from_be64_value [of "rev (length_digits n)"] k be_value_digits by simp
  moreover have "length_digits n \<noteq> []" using k by auto
  ultimately show ?thesis using False b k
    by (simp add: encode_length_def ber_length_def Let_def linorder_not_less del: word_not_simps)
qed

lemma read_tlv_written: "length v < 2 ^ 64 \<Longrightarrow> read_tlv (write_tlv t v @ rest) = Inr ((t, v), rest)"
  by (simp add: read_tlv_def write_tlv_def ber_length_encoded)

lemma x690_tlv_written: "length v < 2 ^ 64 \<Longrightarrow> x690_tlv (write_tlv t v @ rest) = Some ((t, v), rest)"
proof (cases "length v < 0x80")
  case True
  then have "unat (of_nat (length v) :: byte) = length v" "(of_nat (length v) :: byte) < 0x80"
    by (simp_all add: unat_of_nat word_less_nat_alt)
  moreover from this have "(of_nat (length v) :: byte) \<noteq> 0x80" by auto
  ultimately show ?thesis using True by (simp add: write_tlv_def encode_length_def Let_def)
next
  case False
  assume n: "length v < 2 ^ 64"
  with False long_length have k: "1 \<le> length (length_digits (length v))" "length (length_digits (length v)) \<le> 8" by auto
  note b = length_byte [OF k]
  with False be_value_digits [of "length v"] show ?thesis
    by (simp add: write_tlv_def encode_length_def Let_def del: word_not_simps)
qed

lemma length_write_tlv: "2 + length v \<le> length (write_tlv t v)"
proof -
  have "1 \<le> length (encode_length (length v))" by (simp add: encode_length_def Let_def)
  then show ?thesis by (simp add: write_tlv_def)
qed

text \<open>Written elements are taken apart again.\<close>

lemma x690_items_written:
  "(\<And>t v. (t, v) \<in> set tvs \<Longrightarrow> length v < 2 ^ 64) \<Longrightarrow> length (concat (map (\<lambda>(t, v). write_tlv t v) tvs)) \<le> fuel \<Longrightarrow>
     x690_items fuel (concat (map (\<lambda>(t, v). write_tlv t v) tvs)) = Some tvs"
proof (induction tvs arbitrary: fuel)
  case (Cons tv tvs)
  obtain t v where tv: "tv = (t, v)" by fastforce
  with Cons.prems obtain fuel' where f: "fuel = Suc fuel'" "length (concat (map (\<lambda>(t, v). write_tlv t v) tvs)) \<le> fuel'"
    using length_write_tlv [of v t] by (cases fuel) auto
  obtain b bs where b: "write_tlv t v = b # bs" by (simp add: write_tlv_def)
  have ih: "x690_items fuel' (concat (map (\<lambda>(t, v). write_tlv t v) tvs)) = Some tvs"
    by (rule Cons.IH) (use Cons.prems(1) f(2) in auto)
  have "x690_tlv (b # bs @ concat (map (\<lambda>(t, v). write_tlv t v) tvs)) = Some ((t, v), concat (map (\<lambda>(t, v). write_tlv t v) tvs))"
    using x690_tlv_written [of v t] Cons.prems(1) tv b by fastforce
  with ih show ?case by (simp add: f tv b)
qed simp

lemma x690_elements_written:
  "(\<And>t v. (t, v) \<in> set tvs \<Longrightarrow> length v < 2 ^ 64) \<Longrightarrow>
     x690_elements (concat (map (\<lambda>(t, v). write_tlv t v) tvs)) = Some tvs"
  unfolding x690_elements_def by (rule x690_items_written) auto

subsection \<open>Integers\<close>

lemma decode_fold_be64:
  "foldl (\<lambda>acc b. push_bit 8 acc OR ucast b) s (to_be64 w) = w" for s w :: u64
proof (rule bit_word_eqI)
  fix n
  assume "n < LENGTH(64)"
  then have "n < 64" by simp
  then consider "n < 8" | "8 \<le> n" "n < 16" | "16 \<le> n" "n < 24" | "24 \<le> n" "n < 32" | "32 \<le> n" "n < 40"
    | "40 \<le> n" "n < 48" | "48 \<le> n" "n < 56" | "56 \<le> n" "n < 64" by linarith
  then show "bit (foldl (\<lambda>acc b. push_bit 8 acc OR ucast b) s (to_be64 w)) n = bit w n"
    by cases (simp_all add: to_be64_def bit_simps less_diff_conv2)
qed

definition fold_integer :: "bytes \<Rightarrow> u64" where
  "fold_integer bs = foldl (\<lambda>acc b. push_bit 8 acc OR ucast b) (if bs ! 0 AND 0x80 \<noteq> 0 then - 1 else 0) bs"

lemma sign_step: "NOT (mask 16) OR (0xff00 :: u64) = NOT (mask 8)"
proof -
  have "NOT (mask 16) OR push_bit 8 (mask 8) = (NOT (mask 8) :: u64)" by (rule bit_word_eqI) (auto simp: bit_simps)
  moreover have "(0xff00 :: u64) = push_bit 8 (mask 8)" by (simp add: mask_numeral)
  ultimately show ?thesis by (simp only:)
qed

lemma fold_drop_redundant: "fold_integer (drop_redundant bs) = fold_integer bs"
proof (induction bs rule: drop_redundant.induct)
  case (1 a b bs)
  then show ?case by (auto simp: fold_integer_def sign_step)
qed simp_all

lemma drop_redundant_length: "length (drop_redundant bs) \<le> length bs" "bs \<noteq> [] \<Longrightarrow> drop_redundant bs \<noteq> []"
  by (induction bs rule: drop_redundant.induct) auto

lemma decode_integer_written: "decode_integer_i64 (drop_redundant (to_be64 v)) = Inr v"
proof -
  have ne: "to_be64 v \<noteq> []" by (simp add: to_be64_def)
  then have "drop_redundant (to_be64 v) \<noteq> []" "length (drop_redundant (to_be64 v)) \<le> 8"
    using drop_redundant_length [of "to_be64 v"] by simp_all
  moreover have "fold_integer (to_be64 v) = v" by (simp add: fold_integer_def decode_fold_be64)
  ultimately show ?thesis
    using fold_drop_redundant [of "to_be64 v"] by (simp add: decode_integer_i64_def fold_integer_def linorder_not_less)
qed

text \<open>The integer a minimal encoding stands for is that of the eight bytes.\<close>

lemma x690_drop_redundant: "x690_integer (drop_redundant bs) = x690_integer bs"
proof (induction bs rule: drop_redundant.induct)
  case (1 a b bs)
  then show ?case by (auto simp: x690_integer_def)
qed simp_all

end
