(* ===== verification/Ldap_Filter.thy ===== *)
theory Ldap_Filter
  imports Ldap_Ber
begin

text \<open>
  Search filters of the LDAP client (\<open>src/src/ldap.rs\<close>): the parser of their string form (RFC 4515) and their BER form
  (RFC 4511), each with a reference in the other direction: a printer, and a decoder as a server has it.
  The cursor of \<open>FilterParser\<close> is the list of characters left.
\<close>

datatype ldap_filter =
    FAnd "ldap_filter list"
  | FOr "ldap_filter list"
  | FNot ldap_filter
  | EqualityMatch string string
  | Substrings string "string option" "string list" "string option"
  | Present string
  | ExtensibleMatch "string option" "string option" string bool

definition reject_ctl :: "string \<Rightarrow> unit result" where
  "reject_ctl s =
     (if list_ex (\<lambda>c. (of_char c :: nat) < 0x20 \<or> (of_char c :: nat) = 0x7f) s
      then Inl (BadResponse ''ldap: {what} contains illegal control byte {b:#04x}'') else Inr ())"

abbreviation (input) MAX_FILTER_DEPTH :: nat where "MAX_FILTER_DEPTH \<equiv> 64"

subsection \<open>Parser\<close>

definition filter_expect :: "char \<Rightarrow> string \<Rightarrow> string result" where
  "filter_expect c s =
     (case s of
        [] \<Rightarrow> Inl (BadResponse ''filter: expected {:?}, got EOF'')
      | x # s \<Rightarrow> if x = c then Inr s else Inl (BadResponse ''filter: expected {:?}, got {:?}''))"

definition utf8_slice :: "string \<Rightarrow> string \<Rightarrow> string result" where
  "utf8_slice message s = (case from_utf8 (bytes_of s) of None \<Rightarrow> Inl (BadResponse message) | Some s \<Rightarrow> Inr s)"

definition read_value :: "string \<Rightarrow> (string \<times> string) result" where
  "read_value s =
     bindR (utf8_slice ''filter: non-utf8 value'' (takeWhile (\<lambda>c. c \<noteq> CHR '')'') s)) (\<lambda>v.
       Inr (v, dropWhile (\<lambda>c. c \<noteq> CHR '')'') s))"

text \<open>The loop over the segments between the stars, with the position of each.\<close>

fun substring_segments :: "nat \<Rightarrow> nat \<Rightarrow> string list \<Rightarrow> string option \<times> string list \<times> string option \<Rightarrow>
    (string option \<times> string list \<times> string option) result" where
  "substring_segments i n [] acc = Inr acc"
| "substring_segments i n (seg # segs) (initial, anys, final) =
     (if seg = [] then substring_segments (i + 1) n segs (initial, anys, final)
      else bindR (reject_ctl seg) (\<lambda>_.
        substring_segments (i + 1) n segs
          (if i = 0 then (Some seg, anys, final)
           else if i = n then (initial, anys, Some seg)
           else (initial, anys @ [seg], final))))"

text \<open>The tokens of an extensible match after the attribute.\<close>

fun extensible_tokens :: "string list \<Rightarrow> bool \<Rightarrow> string option \<Rightarrow> (bool \<times> string option) result" where
  "extensible_tokens [] dn_attributes matching_rule = Inr (dn_attributes, matching_rule)"
| "extensible_tokens (tok # toks) dn_attributes matching_rule =
     (if tok = ''dn'' then
        (if dn_attributes then Inl (BadResponse ''filter: duplicate 'dn' in extensible match'')
         else extensible_tokens toks True matching_rule)
      else if tok = [] then Inl (BadResponse ''filter: empty token in extensible match'')
      else if matching_rule \<noteq> None then Inl (BadResponse ''filter: multiple matching rules in extensible match'')
      else extensible_tokens toks dn_attributes (Some tok))"

definition reject_ctl_opt :: "string option \<Rightarrow> unit result" where
  "reject_ctl_opt x = (case x of None \<Rightarrow> Inr () | Some s \<Rightarrow> reject_ctl s)"

definition parse_extensible :: "string \<Rightarrow> string \<Rightarrow> (ldap_filter \<times> string) result" where
  "parse_extensible desc s =
     (let tokens = split_char CHR '':'' desc
      in if last tokens \<noteq> [] then Inl (BadResponse ''filter: malformed extensible match (expected ':=')'')
         else let tokens = butlast tokens
           in if tokens = [] then Inl (BadResponse ''filter: empty extensible match description'')
              else let attr_type = (if hd tokens = [] then None else Some (hd tokens))
                in bindR (extensible_tokens (tl tokens) False None) (\<lambda>(dn_attributes, matching_rule).
                     if attr_type = None \<and> matching_rule = None
                     then Inl (BadResponse ''filter: extensible match needs an attribute or matching rule'')
                     else bindR (read_value s) (\<lambda>(match_value, s).
                       bindR (reject_ctl match_value) (\<lambda>_.
                       bindR (reject_ctl_opt attr_type) (\<lambda>_.
                       bindR (reject_ctl_opt matching_rule) (\<lambda>_.
                         Inr (ExtensibleMatch matching_rule attr_type match_value dn_attributes, s)))))))"

definition parse_simple :: "string \<Rightarrow> (ldap_filter \<times> string) result" where
  "parse_simple s =
     (let is_desc = (\<lambda>c. c \<noteq> CHR ''='' \<and> c \<noteq> CHR '')''); desc = takeWhile is_desc s
      in if list_ex (\<lambda>c. c = CHR ''~'' \<or> c = CHR ''<'' \<or> c = CHR ''>'') desc
         then Inl (BadResponse ''filter: operator {:?} not supported'')
         else bindR (utf8_slice ''filter: non-utf8 attr'' desc) (\<lambda>desc.
           bindR (filter_expect CHR ''='' (dropWhile is_desc s)) (\<lambda>s.
             if CHR '':'' \<in> set desc then parse_extensible desc s
             else bindR (read_value s) (\<lambda>(v, s).
               if v = ''*'' then Inr (Present desc, s)
               else if CHR ''*'' \<in> set v then
                 (let segments = split_char CHR ''*'' v
                  in bindR (substring_segments 0 (length segments - 1) segments (None, [], None)) (\<lambda>(initial, anys, final).
                       Inr (Substrings desc initial anys final, s)))
               else Inr (EqualityMatch desc v, s)))))"

text \<open>\<open>parse\<close> and the loop of \<open>parse_list\<close>.  A filter that was parsed has left less input, so the test in the loop always
  succeeds (\<open>parse_items_step\<close>); it only lets the recursion be seen to end.\<close>

function (sequential) parse_filter_at :: "nat \<Rightarrow> string \<Rightarrow> (ldap_filter \<times> string) result"
  and parse_items :: "nat \<Rightarrow> string \<Rightarrow> (ldap_filter list \<times> string) result" where
  "parse_filter_at depth s =
     (if depth > MAX_FILTER_DEPTH then Inl (BadResponse ''ldap: filter nesting too deep'')
      else case s of
        [] \<Rightarrow> Inl (BadResponse ''filter: expected {:?}, got EOF'')
      | x # s \<Rightarrow>
          if x \<noteq> CHR ''('' then Inl (BadResponse ''filter: expected {:?}, got {:?}'')
          else bindR
            (case s of
               [] \<Rightarrow> Inl (BadResponse ''filter: empty filter'')
             | c # s' \<Rightarrow>
                 if c = CHR ''&'' \<or> c = CHR ''|'' then
                   bindR (parse_items (depth + 1) s') (\<lambda>(items, s).
                     if items = [] then Inl (BadResponse ''filter: empty list'')
                     else Inr (if c = CHR ''&'' then FAnd items else FOr items, s))
                 else if c = CHR ''!'' then
                   bindR (parse_filter_at (depth + 1) s') (\<lambda>(inner, s). Inr (FNot inner, s))
                 else parse_simple s)
            (\<lambda>(f, s). bindR (filter_expect CHR '')'' s) (\<lambda>s. Inr (f, s))))"
| "parse_items depth s =
     (if \<not> starts_with ''('' s then Inr ([], s)
      else bindR (parse_filter_at depth s) (\<lambda>(f, s').
        if length s' < length s then bindR (parse_items depth s') (\<lambda>(fs, s). Inr (f # fs, s))
        else Inr ([f], s')))"
  by pat_completeness auto
termination
  by (relation "measure (\<lambda>x. case x of Inl (_, s) \<Rightarrow> 2 * length s | Inr (_, s) \<Rightarrow> 2 * length s + 1)") auto

declare parse_filter_at.simps [simp del] parse_items.simps [simp del]

definition parse_filter :: "string \<Rightarrow> ldap_filter result" where
  "parse_filter s =
     bindR (parse_filter_at 0 s) (\<lambda>(f, s). if s \<noteq> [] then Inl (BadResponse ''filter: trailing garbage'') else Inr f)"

subsection \<open>Encoder\<close>

fun encode_filter :: "ldap_filter \<Rightarrow> bytes" where
  "encode_filter (FAnd items) = write_constructed (tag_ctx 0 True) (concat (map encode_filter items))"
| "encode_filter (FOr items) = write_constructed (tag_ctx 1 True) (concat (map encode_filter items))"
| "encode_filter (FNot inner) = write_constructed (tag_ctx 2 True) (encode_filter inner)"
| "encode_filter (EqualityMatch attr v) =
     write_constructed (tag_ctx 3 True) (write_octet_string (bytes_of attr) @ write_octet_string (bytes_of v))"
| "encode_filter (Substrings attr initial anys final) =
     write_constructed (tag_ctx 4 True)
       (write_octet_string (bytes_of attr) @
        write_constructed BER_SEQUENCE
          ((case initial of None \<Rightarrow> [] | Some s \<Rightarrow> write_tlv (tag_ctx 0 False) (bytes_of s)) @
           concat (map (\<lambda>s. write_tlv (tag_ctx 1 False) (bytes_of s)) anys) @
           (case final of None \<Rightarrow> [] | Some s \<Rightarrow> write_tlv (tag_ctx 2 False) (bytes_of s))))"
| "encode_filter (Present attr) = write_tlv (tag_ctx 7 False) (bytes_of attr)"
| "encode_filter (ExtensibleMatch rule attr v dn) =
     write_constructed (tag_ctx 9 True)
       ((case rule of None \<Rightarrow> [] | Some s \<Rightarrow> write_tlv (tag_ctx 1 False) (bytes_of s)) @
        (case attr of None \<Rightarrow> [] | Some s \<Rightarrow> write_tlv (tag_ctx 2 False) (bytes_of s)) @
        write_tlv (tag_ctx 3 False) (bytes_of v) @
        (if dn then write_tlv (tag_ctx 4 False) [0xff] else []))"

subsection \<open>The parser uses up its input\<close>

lemma filter_expect_Inr: "filter_expect c s = Inr s' \<Longrightarrow> s = c # s'"
  by (auto simp: filter_expect_def split: list.splits if_splits)

lemma read_value_shrinks: "read_value s = Inr (v, s') \<Longrightarrow> length s' \<le> length s"
  by (auto simp: read_value_def bindR_eq_Inr length_dropWhile_le)

lemma parse_extensible_shrinks: "parse_extensible desc s = Inr (f, s') \<Longrightarrow> length s' \<le> length s"
  by (auto simp: parse_extensible_def Let_def bindR_eq_Inr split: if_splits dest!: read_value_shrinks)

lemma parse_simple_shrinks: "parse_simple s = Inr (f, s') \<Longrightarrow> length s' < length s"
proof -
  assume a: "parse_simple s = Inr (f, s')"
  let ?is_desc = "\<lambda>c. c \<noteq> CHR ''='' \<and> c \<noteq> CHR '')''"
  from a obtain desc s1 where e: "filter_expect CHR ''='' (dropWhile ?is_desc s) = Inr s1"
    and r: "parse_extensible desc s1 = Inr (f, s') \<or> (\<exists>v. read_value s1 = Inr (v, s'))"
    by (auto simp: parse_simple_def Let_def bindR_eq_Inr split: if_splits prod.splits)
  have "length s1 < length (dropWhile ?is_desc s)" using filter_expect_Inr [OF e] by simp
  moreover have "length (dropWhile ?is_desc s) \<le> length s" by (rule length_dropWhile_le)
  moreover have "length s' \<le> length s1" using r parse_extensible_shrinks read_value_shrinks by blast
  ultimately show ?thesis by simp
qed

lemma parse_shrinks:
  "parse_filter_at depth s = Inr (f, s') \<Longrightarrow> length s' < length s"
  "parse_items depth s = Inr (fs, s') \<Longrightarrow> length s' \<le> length s"
proof (induction depth s and depth s arbitrary: f s' and fs s' rule: parse_filter_at_parse_items.induct)
  case (1 depth s)
  note step = 1(3) [unfolded parse_filter_at.simps [of depth s]]
  from step obtain c s1 where s: "s = CHR ''('' # c # s1" by (auto split: list.splits if_splits)
  from step s obtain g s2 where g: "(if c = CHR ''&'' \<or> c = CHR ''|'' then
         bindR (parse_items (depth + 1) s1) (\<lambda>(items, s). if items = [] then Inl (BadResponse ''filter: empty list'')
           else Inr (if c = CHR ''&'' then FAnd items else FOr items, s))
       else if c = CHR ''!'' then bindR (parse_filter_at (depth + 1) s1) (\<lambda>(inner, s). Inr (FNot inner, s))
       else parse_simple (c # s1)) = Inr (g, s2)" and e: "filter_expect CHR '')'' s2 = Inr s'" and d: "\<not> depth > MAX_FILTER_DEPTH"
    by (auto simp: bindR_eq_Inr split: if_split_asm)
  have "length s2 \<le> length (c # s1)"
  proof (cases "c = CHR ''&'' \<or> c = CHR ''|''")
    case True
    then show ?thesis using g 1(1) [OF d s _ refl True] by (auto simp: bindR_eq_Inr split: if_splits)
  next
    case False
    then show ?thesis
      using g 1(2) [OF d s _ refl False] parse_simple_shrinks [of "c # s1" g s2]
      by (auto simp: bindR_eq_Inr split: if_splits)
  qed
  with filter_expect_Inr [OF e] s show ?case by simp
next
  case (2 depth s)
  note step = 2(3) [unfolded parse_items.simps [of depth s]]
  show ?case
  proof (cases "starts_with ''('' s")
    case True
    with step obtain g s1 where g: "parse_filter_at depth s = Inr (g, s1)" by (auto simp: bindR_eq_Inr split: prod.splits)
    with 2(1) True have l: "length s1 < length s" by blast
    with step g True obtain gs where "parse_items depth s1 = Inr (gs, s')" by (auto simp: bindR_eq_Inr)
    with 2(2) [OF _ g refl l] True l show ?thesis by force
  qed (use step in simp)
qed

lemma parse_items_step:
  "parse_items depth s =
     (if \<not> starts_with ''('' s then Inr ([], s)
      else bindR (parse_filter_at depth s) (\<lambda>(f, s'). bindR (parse_items depth s') (\<lambda>(fs, s). Inr (f # fs, s))))"
proof (cases "parse_filter_at depth s")
  case (Inr p)
  obtain f s' where "p = (f, s')" by fastforce
  with Inr parse_shrinks(1) [of depth s f s'] show ?thesis by (subst parse_items.simps) simp
qed (subst parse_items.simps, simp)

subsection \<open>The string form\<close>

fun join :: "char \<Rightarrow> string list \<Rightarrow> string" where
  "join c [] = []"
| "join c [x] = x"
| "join c (x # y # xs) = x @ c # join c (y # xs)"

definition opt_str :: "string option \<Rightarrow> string" where
  "opt_str x = (case x of None \<Rightarrow> [] | Some s \<Rightarrow> s)"

fun show_filter :: "ldap_filter \<Rightarrow> string" where
  "show_filter (FAnd items) = ''(&'' @ concat (map show_filter items) @ '')''"
| "show_filter (FOr items) = ''(|'' @ concat (map show_filter items) @ '')''"
| "show_filter (FNot inner) = ''(!'' @ show_filter inner @ '')''"
| "show_filter (EqualityMatch attr v) = ''('' @ attr @ ''='' @ v @ '')''"
| "show_filter (Substrings attr initial anys final) =
     ''('' @ attr @ ''='' @ join CHR ''*'' (opt_str initial # anys @ [opt_str final]) @ '')''"
| "show_filter (Present attr) = ''('' @ attr @ ''=*)''"
| "show_filter (ExtensibleMatch rule attr v dn) =
     ''('' @ join CHR '':'' (opt_str attr # (if dn then [''dn''] else []) @ (case rule of None \<Rightarrow> [] | Some r \<Rightarrow> [r]) @ [[]]) @
     ''='' @ v @ '')''"

fun filter_depth :: "ldap_filter \<Rightarrow> nat" where
  "filter_depth (FAnd items) = Suc (foldr max (map filter_depth items) 0)"
| "filter_depth (FOr items) = Suc (foldr max (map filter_depth items) 0)"
| "filter_depth (FNot inner) = Suc (filter_depth inner)"
| "filter_depth _ = 0"

definition desc_ok :: "string \<Rightarrow> bool" where
  "desc_ok s \<longleftrightarrow> valid_str s \<and> list_all (\<lambda>c. c \<notin> {CHR ''='', CHR '')'', CHR ''~'', CHR ''<'', CHR ''>'', CHR '':''}) s \<and>
     (s = [] \<or> hd s \<notin> {CHR ''&'', CHR ''|'', CHR ''!''})"

definition value_ok :: "string \<Rightarrow> bool" where
  "value_ok v \<longleftrightarrow> valid_str v \<and> CHR '')'' \<notin> set v"

definition no_ctl :: "string \<Rightarrow> bool" where
  "no_ctl s \<longleftrightarrow> list_all (\<lambda>c. 0x20 \<le> (of_char c :: nat) \<and> (of_char c :: nat) \<noteq> 0x7f) s"

definition segment_ok :: "string \<Rightarrow> bool" where
  "segment_ok s \<longleftrightarrow> s \<noteq> [] \<and> value_ok s \<and> no_ctl s \<and> CHR ''*'' \<notin> set s"

fun filter_wf :: "ldap_filter \<Rightarrow> bool" where
  "filter_wf (FAnd items) \<longleftrightarrow> items \<noteq> [] \<and> list_all filter_wf items"
| "filter_wf (FOr items) \<longleftrightarrow> items \<noteq> [] \<and> list_all filter_wf items"
| "filter_wf (FNot inner) \<longleftrightarrow> filter_wf inner"
| "filter_wf (EqualityMatch attr v) \<longleftrightarrow> desc_ok attr \<and> value_ok v \<and> CHR ''*'' \<notin> set v"
| "filter_wf (Substrings attr initial anys final) \<longleftrightarrow>
     desc_ok attr \<and> pred_option segment_ok initial \<and> list_all segment_ok anys \<and> pred_option segment_ok final \<and>
     (initial \<noteq> None \<or> anys \<noteq> [] \<or> final \<noteq> None)"
| "filter_wf (Present attr) \<longleftrightarrow> desc_ok attr"
| "filter_wf (ExtensibleMatch rule attr v dn) \<longleftrightarrow>
     pred_option (\<lambda>r. desc_ok r \<and> no_ctl r \<and> r \<noteq> [] \<and> r \<noteq> ''dn'') rule \<and>
     pred_option (\<lambda>a. desc_ok a \<and> no_ctl a \<and> a \<noteq> []) attr \<and> value_ok v \<and> no_ctl v \<and> (rule \<noteq> None \<or> attr \<noteq> None)"

subsection \<open>Parsing what was printed\<close>

lemma span_at:
  "list_all P xs \<Longrightarrow> \<not> P c \<Longrightarrow> takeWhile P (xs @ c # ys) = xs"
  "list_all P xs \<Longrightarrow> \<not> P c \<Longrightarrow> dropWhile P (xs @ c # ys) = c # ys"
  by (induction xs) simp_all

lemma split_join: "xs \<noteq> [] \<Longrightarrow> list_all (\<lambda>x. c \<notin> set x) xs \<Longrightarrow> split_char c (join c xs) = xs"
  by (induction c xs rule: join.induct) (simp_all add: split_char_field split_char_last)

lemma utf8_slice_valid: "valid_str s \<Longrightarrow> utf8_slice m s = Inr s"
  by (simp add: utf8_slice_def from_utf8_bytes_of)

lemma reject_ctl_ok: "no_ctl s \<Longrightarrow> reject_ctl s = Inr ()"
  by (auto simp: no_ctl_def reject_ctl_def list_all_iff list_ex_iff)

lemma read_value_ok: "value_ok v \<Longrightarrow> read_value (v @ CHR '')'' # rest) = Inr (v, CHR '')'' # rest)"
proof -
  assume v: "value_ok v"
  then have "list_all (\<lambda>c. c \<noteq> CHR '')'') v" by (auto simp: value_ok_def list_all_iff)
  with v show ?thesis by (simp add: read_value_def span_at utf8_slice_valid value_ok_def)
qed

lemma set_join: "set (join c xs) \<subseteq> insert c (\<Union>(set ` set xs))"
  by (induction c xs rule: join.induct) auto

lemma list_all_join: "(\<And>x. x \<in> set xs \<Longrightarrow> list_all P x) \<Longrightarrow> P c \<Longrightarrow> list_all P (join c xs)"
  by (induction c xs rule: join.induct) auto

lemma valid_join: "(\<And>x. x \<in> set xs \<Longrightarrow> valid_str x) \<Longrightarrow> (of_char c :: nat) < 128 \<Longrightarrow> valid_str (join c xs)"
proof (induction c xs rule: join.induct)
  case (1 c)
  then show ?case by (simp add: valid_str_def bytes_of_def)
next
  case (3 c x y xs)
  have "valid_str [c]" by (rule valid_str_ascii) (use 3(3) in auto)
  then have "valid_str ([c] @ join c (y # xs))" by (rule valid_str_append) (use 3 in auto)
  with valid_str_append [of x "[c] @ join c (y # xs)"] 3(2) show ?case by simp
qed simp

lemma segments_read:
  "list_all segment_ok anys \<Longrightarrow> fs = [] \<or> no_ctl fs \<Longrightarrow> 0 < i \<Longrightarrow> n = i + length anys \<Longrightarrow>
     substring_segments i n (anys @ [fs]) (initial, acc, None) =
       Inr (initial, acc @ anys, if fs = [] then None else Some fs)"
  by (induction anys arbitrary: i acc) (auto simp: reject_ctl_ok segment_ok_def)

lemma segments_read_all:
  assumes "pred_option segment_ok initial" and "list_all segment_ok anys" and "pred_option segment_ok final"
  shows "substring_segments 0 (length anys + 1) (opt_str initial # anys @ [opt_str final]) (None, [], None) = Inr (initial, anys, final)"
proof -
  have f: "opt_str final = [] \<or> no_ctl (opt_str final)" "(if opt_str final = [] then None else Some (opt_str final)) = final"
    using assms(3) by (cases final; simp add: opt_str_def segment_ok_def)+
  show ?thesis
    using segments_read [OF assms(2) f(1), of 1 "length anys + 1" initial "[]"]
      segments_read [OF assms(2) f(1), of 1 "length anys + 1" None "[]"] f(2) assms(1)
    by (cases initial) (auto simp: opt_str_def segment_ok_def reject_ctl_ok)
qed

definition is_desc :: "char \<Rightarrow> bool" where
  "is_desc c \<longleftrightarrow> c \<noteq> CHR ''='' \<and> c \<noteq> CHR '')''"

lemma parse_simple_desc:
  assumes "valid_str desc" and "list_all (\<lambda>c. c \<notin> {CHR ''='', CHR '')'', CHR ''~'', CHR ''<'', CHR ''>''}) desc"
  shows "parse_simple (desc @ CHR ''='' # s) =
    (if CHR '':'' \<in> set desc then parse_extensible desc s
     else bindR (read_value s) (\<lambda>(v, s).
       if v = ''*'' then Inr (Present desc, s)
       else if CHR ''*'' \<in> set v then
         (let segments = split_char CHR ''*'' v
          in bindR (substring_segments 0 (length segments - 1) segments (None, [], None)) (\<lambda>(initial, anys, final).
               Inr (Substrings desc initial anys final, s)))
       else Inr (EqualityMatch desc v, s)))"
proof -
  have d: "list_all (\<lambda>c. c \<noteq> CHR ''='' \<and> c \<noteq> CHR '')'') desc" "\<not> list_ex (\<lambda>c. c = CHR ''~'' \<or> c = CHR ''<'' \<or> c = CHR ''>'') desc"
    using assms(2) by (auto simp: list_all_iff list_ex_iff)
  show ?thesis
    using d(2) by (simp add: parse_simple_def Let_def span_at [OF d(1)] utf8_slice_valid [OF assms(1)] filter_expect_def)
qed

lemma desc_ok_simple:
  "desc_ok d \<Longrightarrow> valid_str d \<and> list_all (\<lambda>c. c \<notin> {CHR ''='', CHR '')'', CHR ''~'', CHR ''<'', CHR ''>''}) d \<and> CHR '':'' \<notin> set d"
  by (auto simp: desc_ok_def list_all_iff)

lemma value_ok_join:
  assumes "\<And>x. x \<in> set xs \<Longrightarrow> x = [] \<or> value_ok x"
  shows "value_ok (join CHR ''*'' xs)"
proof -
  have "valid_str x" if "x \<in> set xs" for x
    using assms [OF that] by (auto simp: value_ok_def valid_str_def bytes_of_def)
  then have "valid_str (join CHR ''*'' xs)" by (rule valid_join) simp_all
  moreover have "CHR '')'' \<notin> set (join CHR ''*'' xs)" using set_join [of "CHR ''*''" xs] assms by (fastforce simp: value_ok_def)
  ultimately show ?thesis by (simp add: value_ok_def)
qed

lemma join_star:
  assumes "list_all segment_ok anys" and "initial \<noteq> None \<or> anys \<noteq> [] \<or> final \<noteq> None"
    and "pred_option segment_ok initial" and "pred_option segment_ok final"
  shows "join CHR ''*'' (opt_str initial # anys @ [opt_str final]) \<noteq> ''*''"
    and "CHR ''*'' \<in> set (join CHR ''*'' (opt_str initial # anys @ [opt_str final]))"
    and "split_char CHR ''*'' (join CHR ''*'' (opt_str initial # anys @ [opt_str final])) = opt_str initial # anys @ [opt_str final]"
proof -
  let ?segs = "opt_str initial # anys @ [opt_str final]"
  have n: "list_all (\<lambda>x. CHR ''*'' \<notin> set x) ?segs"
    using assms by (cases initial; cases final) (auto simp: opt_str_def segment_ok_def list_all_iff)
  show split: "split_char CHR ''*'' (join CHR ''*'' ?segs) = ?segs" using split_join [OF _ n] by simp
  show "join CHR ''*'' ?segs \<noteq> ''*''"
  proof
    assume "join CHR ''*'' ?segs = ''*''"
    with split have "?segs = [[], []]" by simp
    with assms show False by (cases initial; cases final) (auto simp: opt_str_def segment_ok_def)
  qed
  show "CHR ''*'' \<in> set (join CHR ''*'' ?segs)"
    by (cases anys) simp_all
qed

lemma parse_equality:
  assumes "desc_ok attr" and "value_ok v" and "CHR ''*'' \<notin> set v"
  shows "parse_simple (attr @ CHR ''='' # v @ CHR '')'' # rest) = Inr (EqualityMatch attr v, CHR '')'' # rest)"
proof -
  from assms have "v \<noteq> ''*''" by auto
  with assms desc_ok_simple [OF assms(1)] show ?thesis by (simp add: parse_simple_desc read_value_ok)
qed

lemma parse_present:
  assumes "desc_ok attr"
  shows "parse_simple (attr @ CHR ''='' # CHR ''*'' # CHR '')'' # rest) = Inr (Present attr, CHR '')'' # rest)"
proof -
  have "valid_str ''*''" by (rule valid_str_ascii) simp
  then have "value_ok ''*''" by (simp add: value_ok_def)
  from read_value_ok [OF this, of rest] desc_ok_simple [OF assms] show ?thesis by (simp add: parse_simple_desc)
qed

lemma parse_substrings:
  assumes "desc_ok attr" and w: "pred_option segment_ok initial" "list_all segment_ok anys" "pred_option segment_ok final"
    and ne: "initial \<noteq> None \<or> anys \<noteq> [] \<or> final \<noteq> None"
  shows "parse_simple (attr @ CHR ''='' # join CHR ''*'' (opt_str initial # anys @ [opt_str final]) @ CHR '')'' # rest) =
    Inr (Substrings attr initial anys final, CHR '')'' # rest)"
proof -
  define segs where "segs = opt_str initial # anys @ [opt_str final]"
  have "x = [] \<or> value_ok x" if "x \<in> set segs" for x
    using that w by (cases initial; cases final) (auto simp: segs_def opt_str_def segment_ok_def list_all_iff)
  then have v: "value_ok (join CHR ''*'' segs)" by (rule value_ok_join)
  note j = join_star [OF w(2) ne w(1,3), folded segs_def]
  have l: "length segs - 1 = length anys + 1" by (simp add: segs_def)
  have r: "substring_segments 0 (length segs - 1) segs (None, [], None) = Inr (initial, anys, final)"
    unfolding l unfolding segs_def by (rule segments_read_all [OF w])
  show ?thesis
    unfolding segs_def [symmetric]
    using desc_ok_simple [OF assms(1)] j r by (simp add: parse_simple_desc read_value_ok [OF v] Let_def)
qed

lemma dn_clean: "list_all (\<lambda>c. c \<notin> {CHR ''='', CHR '')'', CHR ''~'', CHR ''<'', CHR ''>'', CHR '':''}) ''dn''"
  by simp

lemma parse_extensible_printed:
  assumes r: "pred_option (\<lambda>r. desc_ok r \<and> no_ctl r \<and> r \<noteq> [] \<and> r \<noteq> ''dn'') rule"
    and a: "pred_option (\<lambda>a. desc_ok a \<and> no_ctl a \<and> a \<noteq> []) attr" and v: "value_ok v" "no_ctl v" and ne: "rule \<noteq> None \<or> attr \<noteq> None"
  shows "parse_simple (join CHR '':'' (opt_str attr # (if dn then [''dn''] else []) @ (case rule of None \<Rightarrow> [] | Some r \<Rightarrow> [r]) @ [[]]) @
      CHR ''='' # v @ CHR '')'' # rest) = Inr (ExtensibleMatch rule attr v dn, CHR '')'' # rest)"
proof -
  define toks where "toks = (if dn then [''dn''] else []) @ (case rule of None \<Rightarrow> [] | Some r \<Rightarrow> [r])"
  define desc where "desc = join CHR '':'' (opt_str attr # toks @ [[]])"
  have "valid_str ''dn''" by (rule valid_str_ascii) auto
  moreover have "valid_str []" by (rule valid_str_ascii) simp
  moreover have "x = [] \<or> x = ''dn'' \<or> desc_ok x" if "x \<in> set (opt_str attr # toks @ [[]])" for x
    using that r a by (cases attr; cases rule; cases dn) (auto simp: toks_def opt_str_def)
  ultimately have strs: "valid_str x \<and> list_all (\<lambda>c. c \<notin> {CHR ''='', CHR '')'', CHR ''~'', CHR ''<'', CHR ''>'', CHR '':''}) x"
    if "x \<in> set (opt_str attr # toks @ [[]])" for x
    using that unfolding desc_ok_def by (metis list.pred_inject(1) dn_clean)
  have 1: "valid_str desc" unfolding desc_def by (rule valid_join, erule strs [THEN conjunct1]) simp
  have 2: "list_all (\<lambda>c. c \<notin> {CHR ''='', CHR '')'', CHR ''~'', CHR ''<'', CHR ''>''}) desc"
    unfolding desc_def by (rule list_all_join, erule list.pred_mono_strong [OF strs [THEN conjunct2]]) simp_all
  have 3: "CHR '':'' \<in> set desc" unfolding desc_def by (cases toks) simp_all
  have "CHR '':'' \<notin> set x" if "x \<in> set (opt_str attr # toks @ [[]])" for x
    using strs [OF that, THEN conjunct2] unfolding list_all_iff by blast
  then have 4: "split_char CHR '':'' desc = opt_str attr # toks @ [[]]"
    unfolding desc_def by (intro split_join) (simp, simp only: list_all_iff, blast)
  have 5: "extensible_tokens toks False None = Inr (dn, rule)"
    using r by (cases rule) (auto simp: toks_def)
  have 6: "(if opt_str attr = [] then None else Some (opt_str attr)) = attr"
    using a by (cases attr) (auto simp: opt_str_def)
  have 7: "reject_ctl_opt attr = Inr ()" "reject_ctl_opt rule = Inr ()"
    using r a by (cases attr; cases rule; simp add: reject_ctl_opt_def reject_ctl_ok)+
  have "parse_extensible desc (v @ CHR '')'' # rest) = Inr (ExtensibleMatch rule attr v dn, CHR '')'' # rest)"
  proof -
    have t: "last (opt_str attr # toks @ [[]]) = []" "butlast (opt_str attr # toks @ [[]]) = opt_str attr # toks" by (simp_all add: butlast_append)
    show ?thesis
      unfolding parse_extensible_def Let_def 4 t list.sel 5 bindR.simps prod.case 6 read_value_ok [OF v(1)] reject_ctl_ok [OF v(2)] 7
      using ne by auto
  qed
  then show ?thesis
    unfolding toks_def [symmetric] append_assoc [symmetric] unfolding append_assoc desc_def [symmetric]
    using parse_simple_desc [OF 1 2] 3 by simp
qed

text \<open>Groups: the items of a list follow each other up to the closing parenthesis.\<close>

lemma parse_items_printed:
  assumes "\<And>f rest. f \<in> set fs \<Longrightarrow> parse_filter_at depth (show_filter f @ rest) = Inr (f, rest)"
    and "\<And>f. f \<in> set fs \<Longrightarrow> \<exists>body. show_filter f = CHR ''('' # body"
  shows "parse_items depth (concat (map show_filter fs) @ CHR '')'' # rest) = Inr (fs, CHR '')'' # rest)"
  using assms
proof (induction fs)
  case Nil
  then show ?case by (subst parse_items_step) (simp add: starts_with_def)
next
  case (Cons f fs)
  from Cons.prems(2) [of f] obtain body where b: "show_filter f = CHR ''('' # body" by auto
  then have "starts_with ''('' (show_filter f @ concat (map show_filter fs) @ CHR '')'' # rest)" by (simp add: starts_with_def)
  with Cons show ?case by (subst parse_items_step) simp
qed

lemma show_filter_open: "\<exists>body. show_filter f = CHR ''('' # body"
  by (cases f) simp_all

lemma parse_leaf:
  assumes "depth \<le> MAX_FILTER_DEPTH" and "body \<noteq> []" and "hd body \<notin> {CHR ''&'', CHR ''|'', CHR ''!''}"
    and "parse_simple (body @ CHR '')'' # rest) = Inr (f, CHR '')'' # rest)"
  shows "parse_filter_at depth (CHR ''('' # body @ CHR '')'' # rest) = Inr (f, rest)"
proof -
  from assms(2) obtain c cs where "body = c # cs" by (cases body) auto
  with assms show ?thesis by (subst parse_filter_at.simps) (simp add: filter_expect_def)
qed

lemma hd_desc: "desc_ok d \<Longrightarrow> hd (d @ CHR ''='' # s) \<notin> {CHR ''&'', CHR ''|'', CHR ''!''}"
  by (cases d) (auto simp: desc_ok_def)

lemma foldr_max: "x \<in> set xs \<Longrightarrow> (x :: nat) \<le> foldr max xs 0"
  by (induction xs) auto

lemma parse_filter_printed:
  "filter_wf f \<Longrightarrow> depth + filter_depth f \<le> MAX_FILTER_DEPTH \<Longrightarrow> parse_filter_at depth (show_filter f @ rest) = Inr (f, rest)"
proof (induction f arbitrary: depth rest)
  case (FAnd items)
  have "parse_items (depth + 1) (concat (map show_filter items) @ CHR '')'' # rest) = Inr (items, CHR '')'' # rest)"
  proof (rule parse_items_printed [OF _ show_filter_open])
    fix f r assume f: "f \<in> set items"
    then have "filter_depth f \<le> foldr max (map filter_depth items) 0" by (intro foldr_max) simp
    with FAnd.prems f show "parse_filter_at (depth + 1) (show_filter f @ r) = Inr (f, r)"
      by (intro FAnd.IH) (auto simp: list_all_iff)
  qed
  with FAnd.prems show ?case by (subst parse_filter_at.simps) (simp add: filter_expect_def)
next
  case (FOr items)
  have "parse_items (depth + 1) (concat (map show_filter items) @ CHR '')'' # rest) = Inr (items, CHR '')'' # rest)"
  proof (rule parse_items_printed [OF _ show_filter_open])
    fix f r assume f: "f \<in> set items"
    then have "filter_depth f \<le> foldr max (map filter_depth items) 0" by (intro foldr_max) simp
    with FOr.prems f show "parse_filter_at (depth + 1) (show_filter f @ r) = Inr (f, r)"
      by (intro FOr.IH) (auto simp: list_all_iff)
  qed
  with FOr.prems show ?case by (subst parse_filter_at.simps) (simp add: filter_expect_def)
next
  case (FNot inner)
  then have "parse_filter_at (depth + 1) (show_filter inner @ CHR '')'' # rest) = Inr (inner, CHR '')'' # rest)" by simp
  with FNot.prems show ?case by (subst parse_filter_at.simps) (simp add: filter_expect_def)
next
  case (EqualityMatch attr v)
  then show ?case
    using parse_leaf [of depth "attr @ CHR ''='' # v" rest] parse_equality [of attr v rest] hd_desc [of attr v] by simp
next
  case (Present attr)
  then show ?case
    using parse_leaf [of depth "attr @ CHR ''='' # ''*''" rest] parse_present [of attr rest] hd_desc [of attr "''*''"] by simp
next
  case (Substrings attr initial anys final)
  then show ?case
    using parse_leaf [of depth "attr @ CHR ''='' # join CHR ''*'' (opt_str initial # anys @ [opt_str final])" rest]
      parse_substrings [of attr initial anys final rest] hd_desc [of attr] by (simp del: join.simps)
next
  case (ExtensibleMatch rule attr v dn)
  let ?toks = "(if dn then [''dn''] else []) @ (case rule of None \<Rightarrow> [] | Some r \<Rightarrow> [r]) @ [[]]"
  have h: "hd (join CHR '':'' (opt_str attr # ?toks) @ CHR ''='' # v) \<notin> {CHR ''&'', CHR ''|'', CHR ''!''}"
  proof -
    obtain y ys where t: "?toks = y # ys" by (cases ?toks) auto
    have "hd (opt_str attr @ CHR '':'' # s) \<notin> {CHR ''&'', CHR ''|'', CHR ''!''}" for s
      using ExtensibleMatch.prems(1) by (cases attr) (auto simp: opt_str_def desc_ok_def hd_append)
    then show ?thesis unfolding t by simp
  qed
  have ne: "join CHR '':'' (opt_str attr # ?toks) @ CHR ''='' # v \<noteq> []" by simp
  have p: "parse_simple ((join CHR '':'' (opt_str attr # ?toks) @ CHR ''='' # v) @ CHR '')'' # rest)
      = Inr (ExtensibleMatch rule attr v dn, CHR '')'' # rest)"
    unfolding append_assoc append_Cons by (rule parse_extensible_printed) (use ExtensibleMatch.prems(1) in simp_all)
  have "depth \<le> MAX_FILTER_DEPTH" using ExtensibleMatch.prems(2) by simp
  from parse_leaf [OF this ne h p] show ?case unfolding show_filter.simps append_assoc append_Cons append_Nil by simp
qed

subsection \<open>The filter a server reads\<close>

text \<open>The decoder of RFC 4511, 4.5.1.7; \<open>n\<close> bounds the nesting it follows.\<close>

fun take_tagged :: "byte \<Rightarrow> (byte \<times> bytes) list \<Rightarrow> string option \<times> (byte \<times> bytes) list" where
  "take_tagged t ((t', v) # tvs) = (if t' = t then (Some (str_of v), tvs) else (None, (t', v) # tvs))"
| "take_tagged t [] = (None, [])"

definition decode_substrings :: "string \<Rightarrow> (byte \<times> bytes) list \<Rightarrow> ldap_filter option" where
  "decode_substrings attr tvs =
     (let (initial, tvs1) = take_tagged 0x80 tvs; anys = takeWhile (\<lambda>(t, v). t = 0x81) tvs1;
          (final, tvs3) = take_tagged 0x82 (dropWhile (\<lambda>(t, v). t = 0x81) tvs1)
      in if tvs \<noteq> [] \<and> tvs3 = [] then Some (Substrings attr initial (map (str_of \<circ> snd) anys) final) else None)"

definition decode_extensible :: "(byte \<times> bytes) list \<Rightarrow> ldap_filter option" where
  "decode_extensible tvs =
     (let (rule, tvs) = take_tagged 0x81 tvs; (attr, tvs) = take_tagged 0x82 tvs; (v, tvs) = take_tagged 0x83 tvs
      in case v of
           None \<Rightarrow> None
         | Some v \<Rightarrow>
             if tvs = [] then Some (ExtensibleMatch rule attr v False)
             else if tvs = [(0x84, [0xff])] then Some (ExtensibleMatch rule attr v True) else None)"

definition two_strings :: "(byte \<times> bytes) list \<Rightarrow> byte \<Rightarrow> (string \<times> bytes) option" where
  "two_strings tvs t =
     (case tvs of
        [(ta, a), (tb, b)] \<Rightarrow> if ta = BER_OCTET_STRING \<and> tb = t then Some (str_of a, b) else None
      | _ \<Rightarrow> None)"

fun decode_filter :: "nat \<Rightarrow> byte \<times> bytes \<Rightarrow> ldap_filter option" where
  "decode_filter 0 tv = None"
| "decode_filter (Suc n) (t, v) =
     (if t = 0xA0 then Option.bind (x690_elements v) (\<lambda>tvs. map_option FAnd (those (map (decode_filter n) tvs)))
      else if t = 0xA1 then Option.bind (x690_elements v) (\<lambda>tvs. map_option FOr (those (map (decode_filter n) tvs)))
      else if t = 0xA2 then Option.bind (x690_elements v) (\<lambda>tvs. case tvs of [tv] \<Rightarrow> map_option FNot (decode_filter n tv) | _ \<Rightarrow> None)
      else if t = 0xA3 then
        Option.bind (x690_elements v) (\<lambda>tvs. map_option (\<lambda>(a, b). EqualityMatch a (str_of b)) (two_strings tvs BER_OCTET_STRING))
      else if t = 0xA4 then
        Option.bind (x690_elements v) (\<lambda>tvs. Option.bind (two_strings tvs BER_SEQUENCE) (\<lambda>(a, b).
          Option.bind (x690_elements b) (decode_substrings a)))
      else if t = 0x87 then Some (Present (str_of v))
      else if t = 0xA9 then Option.bind (x690_elements v) decode_extensible
      else None)"

lemma elements_of_parts:
  assumes "concat (map (\<lambda>(t, v). write_tlv t v) tvs) = bs" and "length bs < 2 ^ 64"
  shows "x690_elements bs = Some tvs"
proof -
  have "length v < 2 ^ 64" if tv: "(t, v) \<in> set tvs" for t v
  proof -
    from tv obtain xs ys where "tvs = xs @ (t, v) # ys" by (auto dest: split_list)
    with assms length_write_tlv [of v t] show ?thesis by auto
  qed
  then show ?thesis unfolding assms(1) [symmetric] by (rule x690_elements_written)
qed

lemma filter_tags:
  "tag_ctx 0 True = 0xA0" "tag_ctx 1 True = 0xA1" "tag_ctx 2 True = 0xA2" "tag_ctx 3 True = 0xA3" "tag_ctx 4 True = 0xA4"
  "tag_ctx 9 True = 0xA9" "tag_ctx 7 False = 0x87" "tag_ctx 0 False = 0x80" "tag_ctx 1 False = 0x81" "tag_ctx 2 False = 0x82"
  "tag_ctx 3 False = 0x83" "tag_ctx 4 False = 0x84"
  by (simp_all add: tag_ctx_def)

lemma length_tlv_value: "length (write_tlv t v) < 2 ^ 64 \<Longrightarrow> length v < 2 ^ 64"
  using length_write_tlv [of v t] by simp

lemma decode_list:
  assumes "\<And>f. f \<in> set items \<Longrightarrow> \<exists>tv. encode_filter f = write_tlv (fst tv) (snd tv) \<and> decode_filter n tv = Some f"
  shows "\<exists>tvs. concat (map encode_filter items) = concat (map (\<lambda>(t, v). write_tlv t v) tvs) \<and>
    those (map (decode_filter n) tvs) = Some items"
  using assms
proof (induction items)
  case Nil
  show ?case by (intro exI [of _ "[]"]) simp
next
  case (Cons f items)
  then obtain tvs where t: "concat (map encode_filter items) = concat (map (\<lambda>(t, v). write_tlv t v) tvs)"
    "those (map (decode_filter n) tvs) = Some items" by auto
  from Cons.prems [of f] obtain tv where "encode_filter f = write_tlv (fst tv) (snd tv)" "decode_filter n tv = Some f" by auto
  with t show ?case by (intro exI [of _ "tv # tvs"]) (simp add: case_prod_unfold)
qed

lemma take_tagged_opt:
  "take_tagged t ((case x of None \<Rightarrow> [] | Some s \<Rightarrow> [(t, bytes_of s)]) @ tvs) =
     (if x = None then take_tagged t tvs else (x, tvs))"
  by (cases x) simp_all

lemma take_tagged_other: "tvs = [] \<or> fst (hd tvs) \<noteq> t \<Longrightarrow> take_tagged t tvs = (None, tvs)"
  by (cases tvs) (auto simp: prod_eq_iff)

lemma decode_substrings_parts:
  assumes "initial \<noteq> None \<or> anys \<noteq> [] \<or> final \<noteq> None"
  shows "decode_substrings attr ((case initial of None \<Rightarrow> [] | Some s \<Rightarrow> [(0x80, bytes_of s)]) @ map (\<lambda>s. (0x81, bytes_of s)) anys @
      (case final of None \<Rightarrow> [] | Some s \<Rightarrow> [(0x82, bytes_of s)])) = Some (Substrings attr initial anys final)"
proof -
  let ?f = "case final of None \<Rightarrow> [] | Some s \<Rightarrow> [(0x82 :: byte, bytes_of s)]"
  let ?as = "map (\<lambda>s. (0x81 :: byte, bytes_of s)) anys"
  have i: "take_tagged 0x80 ((case initial of None \<Rightarrow> [] | Some s \<Rightarrow> [(0x80, bytes_of s)]) @ ?as @ ?f) = (initial, ?as @ ?f)"
    by (cases initial; cases anys; cases final) simp_all
  have t: "takeWhile (\<lambda>(t, v). t = 0x81) (?as @ ?f) = ?as" "dropWhile (\<lambda>(t, v). t = 0x81) (?as @ ?f) = ?f"
    by (induction anys) (cases final; simp)+
  have f: "take_tagged 0x82 ?f = (final, [])" by (cases final) simp_all
  show ?thesis
    unfolding decode_substrings_def i Let_def prod.case t f using assms by (auto simp: comp_def split: option.split)
qed

lemma decode_extensible_parts:
  "decode_extensible ((case rule of None \<Rightarrow> [] | Some s \<Rightarrow> [(0x81, bytes_of s)]) @ (case attr of None \<Rightarrow> [] | Some s \<Rightarrow> [(0x82, bytes_of s)]) @
     (0x83, bytes_of v) # (if dn then [(0x84, [0xff])] else [])) = Some (ExtensibleMatch rule attr v dn)"
  by (cases rule; cases attr; cases dn) (simp_all add: decode_extensible_def)

lemma element_lists:
  "(case x of None \<Rightarrow> [] | Some s \<Rightarrow> write_tlv t (bytes_of s)) =
     concat (map (\<lambda>(t, v). write_tlv t v) (case x of None \<Rightarrow> [] | Some s \<Rightarrow> [(t, bytes_of s)]))"
  "concat (map (\<lambda>s. write_tlv t (bytes_of s)) ss) = concat (map (\<lambda>(t, v). write_tlv t v) (map (\<lambda>s. (t, bytes_of s)) ss))"
  by (simp_all add: comp_def split: option.split)

definition reads_back :: "nat \<Rightarrow> ldap_filter \<Rightarrow> bool" where
  "reads_back n f \<longleftrightarrow> (\<exists>t v. encode_filter f = write_tlv t v \<and> decode_filter n (t, v) = Some f)"

lemma reads_backI: "encode_filter f = write_tlv t v \<Longrightarrow> decode_filter n (t, v) = Some f \<Longrightarrow> reads_back n f"
  by (auto simp: reads_back_def)

lemma reads_list:
  assumes "\<And>f. f \<in> set items \<Longrightarrow> reads_back n f" and "length (concat (map encode_filter items)) < 2 ^ 64"
  shows "Option.bind (x690_elements (concat (map encode_filter items))) (\<lambda>tvs. map_option g (those (map (decode_filter n) tvs))) = Some (g items)"
proof -
  have "\<exists>tv. encode_filter f = write_tlv (fst tv) (snd tv) \<and> decode_filter n tv = Some f" if "f \<in> set items" for f
    using assms(1) [OF that] by (auto simp: reads_back_def)
  from decode_list [OF this] obtain tvs where t: "concat (map encode_filter items) = concat (map (\<lambda>(t, v). write_tlv t v) tvs)"
    "those (map (decode_filter n) tvs) = Some items" by auto
  from elements_of_parts [OF t(1) [symmetric] assms(2)] t(2) show ?thesis by simp
qed

lemma reads_and:
  assumes "\<And>f. f \<in> set items \<Longrightarrow> reads_back n f" and "length (encode_filter (FAnd items)) < 2 ^ 64"
  shows "reads_back (Suc n) (FAnd items)"
proof (rule reads_backI)
  show e: "encode_filter (FAnd items) = write_tlv 0xA0 (concat (map encode_filter items))"
    by (simp add: write_constructed_tlv filter_tags)
  from assms(2) have "length (concat (map encode_filter items)) < 2 ^ 64" unfolding e by (rule length_tlv_value)
  from reads_list [OF assms(1) this] show "decode_filter (Suc n) (0xA0, concat (map encode_filter items)) = Some (FAnd items)" by simp
qed

lemma reads_or:
  assumes "\<And>f. f \<in> set items \<Longrightarrow> reads_back n f" and "length (encode_filter (FOr items)) < 2 ^ 64"
  shows "reads_back (Suc n) (FOr items)"
proof (rule reads_backI)
  show e: "encode_filter (FOr items) = write_tlv 0xA1 (concat (map encode_filter items))"
    by (simp add: write_constructed_tlv filter_tags)
  from assms(2) have "length (concat (map encode_filter items)) < 2 ^ 64" unfolding e by (rule length_tlv_value)
  from reads_list [OF assms(1) this] show "decode_filter (Suc n) (0xA1, concat (map encode_filter items)) = Some (FOr items)" by simp
qed

lemma reads_not:
  assumes "reads_back n inner" and "length (encode_filter (FNot inner)) < 2 ^ 64"
  shows "reads_back (Suc n) (FNot inner)"
proof (rule reads_backI)
  show e: "encode_filter (FNot inner) = write_tlv 0xA2 (encode_filter inner)"
    by (simp add: write_constructed_tlv filter_tags)
  from assms(2) have b: "length (encode_filter inner) < 2 ^ 64" unfolding e by (rule length_tlv_value)
  from assms(1) obtain t v where tv: "encode_filter inner = write_tlv t v" "decode_filter n (t, v) = Some inner" by (auto simp: reads_back_def)
  have "x690_elements (encode_filter inner) = Some [(t, v)]" by (rule elements_of_parts [OF _ b]) (simp add: tv)
  then show "decode_filter (Suc n) (0xA2, encode_filter inner) = Some (FNot inner)" using tv(2) by simp
qed

lemma reads_equality:
  assumes "length (encode_filter (EqualityMatch attr v)) < 2 ^ 64"
  shows "reads_back (Suc n) (EqualityMatch attr v)"
proof (rule reads_backI)
  let ?body = "write_octet_string (bytes_of attr) @ write_octet_string (bytes_of v)"
  show e: "encode_filter (EqualityMatch attr v) = write_tlv 0xA3 ?body" by (simp add: write_constructed_tlv filter_tags)
  from assms have b: "length ?body < 2 ^ 64" unfolding e by (rule length_tlv_value)
  have "x690_elements ?body = Some [(BER_OCTET_STRING, bytes_of attr), (BER_OCTET_STRING, bytes_of v)]"
    by (rule elements_of_parts [OF _ b]) (simp add: write_octet_string_def)
  then show "decode_filter (Suc n) (0xA3, ?body) = Some (EqualityMatch attr v)" by (simp add: two_strings_def)
qed

lemma reads_substrings:
  assumes "initial \<noteq> None \<or> anys \<noteq> [] \<or> final \<noteq> None" and "length (encode_filter (Substrings attr initial anys final)) < 2 ^ 64"
  shows "reads_back (Suc n) (Substrings attr initial anys final)"
proof (rule reads_backI)
  define parts where "parts = (case initial of None \<Rightarrow> [] | Some s \<Rightarrow> [(0x80 :: byte, bytes_of s)]) @ map (\<lambda>s. (0x81, bytes_of s)) anys @
      (case final of None \<Rightarrow> [] | Some s \<Rightarrow> [(0x82, bytes_of s)])"
  define subs where "subs = concat (map (\<lambda>(t, v). write_tlv t v) parts)"
  let ?body = "write_octet_string (bytes_of attr) @ write_tlv BER_SEQUENCE subs"
  show e: "encode_filter (Substrings attr initial anys final) = write_tlv 0xA4 ?body"
    by (cases initial; cases final; simp add: write_constructed_tlv filter_tags element_lists subs_def parts_def)
  from assms(2) have b: "length ?body < 2 ^ 64" unfolding e by (rule length_tlv_value)
  then have "length (write_tlv BER_SEQUENCE subs) < 2 ^ 64" by simp
  then have "length subs < 2 ^ 64" by (rule length_tlv_value)
  then have s: "x690_elements subs = Some parts" by (rule elements_of_parts [OF subs_def [symmetric]])
  have "x690_elements ?body = Some [(BER_OCTET_STRING, bytes_of attr), (BER_SEQUENCE, subs)]"
    by (rule elements_of_parts [OF _ b]) (simp add: write_octet_string_def)
  moreover have "decode_substrings attr parts = Some (Substrings attr initial anys final)"
    unfolding parts_def by (rule decode_substrings_parts [OF assms(1)])
  ultimately show "decode_filter (Suc n) (0xA4, ?body) = Some (Substrings attr initial anys final)"
    using s by (simp add: two_strings_def)
qed

lemma reads_extensible:
  assumes "length (encode_filter (ExtensibleMatch rule attr v dn)) < 2 ^ 64"
  shows "reads_back (Suc n) (ExtensibleMatch rule attr v dn)"
proof (rule reads_backI)
  define parts where "parts = (case rule of None \<Rightarrow> [] | Some s \<Rightarrow> [(0x81 :: byte, bytes_of s)]) @
     (case attr of None \<Rightarrow> [] | Some s \<Rightarrow> [(0x82, bytes_of s)]) @ (0x83, bytes_of v) # (if dn then [(0x84, [0xff])] else [])"
  define body where "body = concat (map (\<lambda>(t, v). write_tlv t v) parts)"
  show e: "encode_filter (ExtensibleMatch rule attr v dn) = write_tlv 0xA9 body"
    by (cases rule; cases attr; cases dn; simp add: write_constructed_tlv filter_tags element_lists body_def parts_def)
  from assms have "length body < 2 ^ 64" unfolding e by (rule length_tlv_value)
  then have "x690_elements body = Some parts" by (rule elements_of_parts [OF body_def [symmetric]])
  moreover have "decode_extensible parts = Some (ExtensibleMatch rule attr v dn)"
    unfolding parts_def by (rule decode_extensible_parts)
  ultimately show "decode_filter (Suc n) (0xA9, body) = Some (ExtensibleMatch rule attr v dn)" by simp
qed

lemma part_of_group: "f \<in> set items \<Longrightarrow> length (encode_filter f) \<le> length (concat (map encode_filter items))"
  by (auto dest!: split_list)

lemma encoded_part:
  assumes "length (encode_filter (FAnd items)) < 2 ^ 64 \<or> length (encode_filter (FOr items)) < 2 ^ 64" and "f \<in> set items"
  shows "length (encode_filter f) < 2 ^ 64"
proof -
  let ?body = "concat (map encode_filter items)"
  have "\<exists>t. length (write_tlv t ?body) < 2 ^ 64" using assms(1) by (auto simp: write_constructed_tlv)
  then have "length ?body < 2 ^ 64" by (metis length_tlv_value)
  then show ?thesis using part_of_group [OF assms(2)] by simp
qed

lemma depth_part:
  assumes "f \<in> set items" and "Suc (foldr max (map filter_depth items) 0) \<le> n"
  shows "\<exists>k. n = Suc k \<and> filter_depth f \<le> k"
proof -
  have "filter_depth f \<le> foldr max (map filter_depth items) 0" using assms(1) by (intro foldr_max) simp
  with assms(2) show ?thesis by (intro exI [of _ "n - 1"]) linarith
qed

lemma encoded_filter_read:
  "filter_wf f \<Longrightarrow> length (encode_filter f) < 2 ^ 64 \<Longrightarrow> filter_depth f \<le> n \<Longrightarrow> reads_back (Suc n) f"
proof (induction f arbitrary: n)
  case (FAnd items)
  have "reads_back n f" if f: "f \<in> set items" for f
  proof -
    from FAnd.prems(3) have "Suc (foldr max (map filter_depth items) 0) \<le> n" by simp
    with depth_part [OF f] obtain k where k: "n = Suc k" "filter_depth f \<le> k" by blast
    moreover from f FAnd.prems(1) have "filter_wf f" by (simp add: list_all_iff)
    ultimately show ?thesis using FAnd.IH [OF f, of k] encoded_part [OF _ f] FAnd.prems(2) by blast
  qed
  then show ?case using FAnd.prems(2) by (rule reads_and)
next
  case (FOr items)
  have "reads_back n f" if f: "f \<in> set items" for f
  proof -
    from FOr.prems(3) have "Suc (foldr max (map filter_depth items) 0) \<le> n" by simp
    with depth_part [OF f] obtain k where k: "n = Suc k" "filter_depth f \<le> k" by blast
    moreover from f FOr.prems(1) have "filter_wf f" by (simp add: list_all_iff)
    ultimately show ?thesis using FOr.IH [OF f, of k] encoded_part [OF _ f] FOr.prems(2) by blast
  qed
  then show ?case using FOr.prems(2) by (rule reads_or)
next
  case (FNot inner)
  have "length (write_tlv (tag_ctx 2 True) (encode_filter inner)) < 2 ^ 64"
    using FNot.prems(2) by (simp add: write_constructed_tlv)
  then have l: "length (encode_filter inner) < 2 ^ 64" by (rule length_tlv_value)
  from FNot.prems(3) obtain k where k: "n = Suc k" "filter_depth inner \<le> k" by (cases n) auto
  from FNot.prems(1) have "filter_wf inner" by simp
  from FNot.IH [OF this l k(2)] k(1) have "reads_back n inner" by simp
  then show ?case using FNot.prems(2) by (rule reads_not)
next
  case (Present attr)
  then show ?case by (intro reads_backI [of _ "0x87" "bytes_of attr"]) (simp_all add: filter_tags)
next
  case (EqualityMatch attr v)
  from this(2) show ?case by (rule reads_equality)
next
  case (Substrings attr initial anys final)
  from Substrings.prems(1) have "initial \<noteq> None \<or> anys \<noteq> [] \<or> final \<noteq> None" by simp
  then show ?case using Substrings.prems(2) by (rule reads_substrings)
next
  case (ExtensibleMatch rule attr v dn)
  from this(2) show ?case by (rule reads_extensible)
qed

end
