(* ===== verification/Ldif.thy ===== *)
theory Ldif
  imports Http_Types
begin

text \<open>
  The LDIF output of the LDAP client (\<open>src/src/ldap.rs\<close>) and a reader of LDIF by RFC 2849: lines, folding, comments,
  base64 values, records divided by empty lines.  The client's own copy of \<open>base64_encode\<close> is the function of
  \<open>websocket.rs\<close> (\<open>Http_Types\<close>); its inverse is here.
\<close>

type_synonym ldap_attr = "string \<times> bytes list"
type_synonym search_entry = "string \<times> ldap_attr list"

definition ldif_name_is_safe :: "string \<Rightarrow> bool" where
  "ldif_name_is_safe name =
     (name \<noteq> [] \<and>
      list_all (\<lambda>c. let n = of_char c :: nat in
        65 \<le> n \<and> n \<le> 90 \<or> 97 \<le> n \<and> n \<le> 122 \<or> 48 \<le> n \<and> n \<le> 57 \<or> c = CHR ''-'' \<or> c = CHR '';'' \<or> c = CHR ''.'') name)"

definition ldif_is_safe :: "bytes \<Rightarrow> bool" where
  "ldif_is_safe v =
     (case v of
        [] \<Rightarrow> True
      | first # _ \<Rightarrow>
          if first = 0x20 \<or> first = 0x3A \<or> first = 0x3C then False
          else list_all (\<lambda>b. \<not> (b = 0 \<or> b = 0x0D \<or> b = 0x0A \<or> b \<ge> 0x80)) v)"

definition write_ldif_line :: "string \<Rightarrow> bytes \<Rightarrow> bytes" where
  "write_ldif_line name v =
     (if ldif_is_safe v then bytes_of name @ [0x3A, 0x20] @ v @ [0x0A]
      else bytes_of name @ [0x3A, 0x3A, 0x20] @ bytes_of (base64_encode v) @ [0x0A])"

definition write_ldif_entry :: "string \<Rightarrow> ldap_attr list \<Rightarrow> bytes" where
  "write_ldif_entry dn attrs =
     write_ldif_line ''dn'' (bytes_of dn)
     @ concat (map (\<lambda>(name, vals).
         if \<not> ldif_name_is_safe name then [] else concat (map (write_ldif_line name) vals)) attrs)
     @ [0x0A]"

subsection \<open>Reading LDIF\<close>

fun base64_decode :: "string \<Rightarrow> bytes option" where
  "base64_decode (a # b # c # d # rest) =
     (case (position (\<lambda>x. x = a) ALPHA, position (\<lambda>x. x = b) ALPHA) of
        (Some i, Some j) \<Rightarrow>
          let b0 = push_bit 2 (of_nat i) OR drop_bit 4 (of_nat j)
          in if c = CHR ''='' \<and> d = CHR ''='' \<and> rest = [] then Some [b0]
             else Option.bind (position (\<lambda>x. x = c) ALPHA) (\<lambda>k.
               let b1 = push_bit 4 (of_nat j) OR drop_bit 2 (of_nat k)
               in if d = CHR ''='' \<and> rest = [] then Some [b0, b1]
                  else Option.bind (position (\<lambda>x. x = d) ALPHA) (\<lambda>l.
                    map_option (\<lambda>bs. b0 # b1 # (push_bit 6 (of_nat k) OR of_nat l) # bs) (base64_decode rest)))
      | _ \<Rightarrow> None)"
| "base64_decode [] = Some []"
| "base64_decode _ = None"

fun ldif_lines :: "bytes \<Rightarrow> bytes \<Rightarrow> bytes list" where
  "ldif_lines cur [] = (if cur = [] then [] else [cur])"
| "ldif_lines cur (b # bs) = (if b = 0x0A then cur # ldif_lines [] bs else ldif_lines (cur @ [b]) bs)"

text \<open>A line that starts with a space continues the line before.\<close>

fun ldif_unfold :: "bytes \<Rightarrow> bytes list \<Rightarrow> bytes list" where
  "ldif_unfold cur [] = [cur]"
| "ldif_unfold cur (l # ls) = (if l \<noteq> [] \<and> hd l = 0x20 then ldif_unfold (cur @ tl l) ls else cur # ldif_unfold l ls)"

definition ldif_pair :: "bytes \<Rightarrow> (bytes \<times> bytes) option" where
  "ldif_pair l =
     (let name = takeWhile (\<lambda>b. b \<noteq> 0x3A) l
      in case dropWhile (\<lambda>b. b \<noteq> 0x3A) l of
           [] \<Rightarrow> None
         | _ # v \<Rightarrow>
             if v \<noteq> [] \<and> hd v = 0x3A
             then map_option (Pair name) (base64_decode (str_of (dropWhile (\<lambda>b. b = 0x20) (tl v))))
             else if v \<noteq> [] \<and> hd v = 0x3C then None
             else Some (name, dropWhile (\<lambda>b. b = 0x20) v))"

fun ldif_records :: "(bytes \<times> bytes) list \<Rightarrow> bytes list \<Rightarrow> (bytes \<times> bytes) list list option" where
  "ldif_records cur [] = Some (if cur = [] then [] else [cur])"
| "ldif_records cur (l # ls) =
     (if l = [] then map_option (\<lambda>rs. if cur = [] then rs else cur # rs) (ldif_records [] ls)
      else if hd l = 0x23 then ldif_records cur ls
      else Option.bind (ldif_pair l) (\<lambda>p. ldif_records (cur @ [p]) ls))"

definition ldif_read :: "bytes \<Rightarrow> (bytes \<times> bytes) list list option" where
  "ldif_read bs = ldif_records [] (ldif_unfold [] (ldif_lines [] bs))"

subsection \<open>Base64\<close>

lemma position_alpha: "unat w < 64 \<Longrightarrow> position (\<lambda>x. x = alpha w) ALPHA = Some (unat w)"
proof -
  have "list_all (\<lambda>n. position (\<lambda>x. x = ALPHA ! n) ALPHA = Some n) [0..<64]" by code_simp
  then show "unat w < 64 \<Longrightarrow> position (\<lambda>x. x = alpha w) ALPHA = Some (unat w)" by (auto simp: alpha_def list_all_iff)
qed

lemma alpha_not_pad: "unat w < 64 \<Longrightarrow> alpha w \<noteq> CHR ''=''"
proof -
  have "CHR ''='' \<notin> set ALPHA" by (simp add: ALPHA_def)
  then show "unat w < 64 \<Longrightarrow> alpha w \<noteq> CHR ''=''" using alpha_in [of w] by metis
qed

lemma byte_eqI:
  fixes a b :: byte
  assumes "bit a 0 = bit b 0" "bit a 1 = bit b 1" "bit a 2 = bit b 2" "bit a 3 = bit b 3"
    "bit a 4 = bit b 4" "bit a 5 = bit b 5" "bit a 6 = bit b 6" "bit a 7 = bit b 7"
  shows "a = b"
proof (rule bit_word_eqI)
  fix n
  assume "n < LENGTH(8)"
  then have "n = 0 \<or> n = 1 \<or> n = 2 \<or> n = 3 \<or> n = 4 \<or> n = 5 \<or> n = 6 \<or> n = 7" by auto
  with assms show "bit a n = bit b n" by auto
qed

lemma sextets_join:
  "push_bit 2 (drop_bit 2 b0) OR drop_bit 4 (push_bit 4 (b0 AND 0x03) OR drop_bit 4 b1) = (b0 :: byte)"
  "push_bit 4 (push_bit 4 (b0 AND 0x03) OR drop_bit 4 b1) OR drop_bit 2 (push_bit 2 (b1 AND 0x0F) OR drop_bit 6 b2) = (b1 :: byte)"
  "push_bit 6 (push_bit 2 (b1 AND 0x0F) OR drop_bit 6 b2) OR (b2 AND 0x3F) = (b2 :: byte)"
  unfolding mask_bits by (rule byte_eqI; simp add: bit_simps)+

lemma decode_quad:
  assumes "unat x < 64" "unat y < 64" "unat z < 64" "unat w < 64"
  shows "base64_decode (alpha x # alpha y # alpha z # alpha w # rest) =
    map_option (\<lambda>bs. (push_bit 2 x OR drop_bit 4 y) # (push_bit 4 y OR drop_bit 2 z) # (push_bit 6 z OR w) # bs) (base64_decode rest)"
  using assms by (simp add: position_alpha alpha_not_pad)

lemma decode_padded:
  assumes "unat x < 64" "unat y < 64"
  shows "base64_decode [alpha x, alpha y, CHR ''='', CHR ''=''] = Some [push_bit 2 x OR drop_bit 4 y]"
    and "unat z < 64 \<Longrightarrow> base64_decode [alpha x, alpha y, alpha z, CHR ''=''] =
      Some [push_bit 2 x OR drop_bit 4 y, push_bit 4 y OR drop_bit 2 z]"
  using assms by (simp_all add: position_alpha alpha_not_pad)

lemma sextets_join_last:
  "push_bit 2 (drop_bit 2 b0) OR drop_bit 4 (push_bit 4 (b0 AND 0x03)) = (b0 :: byte)"
  "push_bit 4 (push_bit 4 (b0 AND 0x03) OR drop_bit 4 b1) OR drop_bit 2 (push_bit 2 (b1 AND 0x0F)) = (b1 :: byte)"
  unfolding mask_bits by (rule byte_eqI; simp add: bit_simps)+

lemma base64_decode_encode: "base64_decode (base64_encode bs) = Some bs"
proof (induction bs rule: base64_encode.induct)
  case (1 b0 b1 b2 rest)
  show ?case unfolding base64_encode.simps decode_quad [OF sextets(1,2,3,4)] sextets_join 1 by (rule option.map)
next
  case (2 b0 b1)
  show ?case unfolding base64_encode.simps decode_padded(2) [OF sextets(1,2,6)] sextets_join sextets_join_last by (rule refl)
next
  case (3 b0)
  show ?case unfolding base64_encode.simps decode_padded(1) [OF sextets(1,5)] sextets_join_last by (rule refl)
qed simp

subsection \<open>What is written is read back\<close>

definition ldif_line :: "string \<times> bytes \<Rightarrow> bytes" where
  "ldif_line p =
     (let (name, v) = p
      in if ldif_is_safe v then bytes_of name @ [0x3A, 0x20] @ v
         else bytes_of name @ [0x3A, 0x3A, 0x20] @ bytes_of (base64_encode v))"

definition entry_lines :: "search_entry \<Rightarrow> (string \<times> bytes) list" where
  "entry_lines e =
     (''dn'', bytes_of (fst e)) #
       concat (map (\<lambda>(name, vals). map (Pair name) vals) (filter (ldif_name_is_safe \<circ> fst) (snd e)))"

text \<open>What a reader should find: the name and then the values of the attributes with a name that LDIF can carry.\<close>

definition entry_pairs :: "search_entry \<Rightarrow> (bytes \<times> bytes) list" where
  "entry_pairs e =
     (bytes_of ''dn'', bytes_of (fst e)) #
       concat (map (\<lambda>(name, vals). map (Pair (bytes_of name)) vals) (filter (ldif_name_is_safe \<circ> fst) (snd e)))"

lemma write_ldif_line_eq: "write_ldif_line name v = ldif_line (name, v) @ [0x0A]"
  by (simp add: write_ldif_line_def ldif_line_def)

lemma write_attrs_eq:
  "concat (map (\<lambda>(name, vals). if \<not> ldif_name_is_safe name then [] else concat (map (write_ldif_line name) vals)) attrs) =
     concat (map (\<lambda>p. ldif_line p @ [0x0A])
       (concat (map (\<lambda>(name, vals). map (Pair name) vals) (filter (ldif_name_is_safe \<circ> fst) attrs))))"
  by (induction attrs) (auto simp: write_ldif_line_eq [abs_def] comp_def)

lemma write_ldif_entry_eq:
  "write_ldif_entry (fst e) (snd e) = concat (map (\<lambda>p. ldif_line p @ [0x0A]) (entry_lines e)) @ [0x0A]"
  by (simp add: write_ldif_entry_def entry_lines_def write_attrs_eq write_ldif_line_eq)

lemma name_char_byte:
  assumes "let n = of_char c :: nat in
      65 \<le> n \<and> n \<le> 90 \<or> 97 \<le> n \<and> n \<le> 122 \<or> 48 \<le> n \<and> n \<le> 57 \<or> c = CHR ''-'' \<or> c = CHR '';'' \<or> c = CHR ''.''"
  shows "(of_char c :: byte) \<notin> {0x0A, 0x20, 0x23, 0x3A}"
proof -
  have "45 \<le> (of_char c :: nat) \<and> (of_char c :: nat) \<noteq> 58" using assms by (auto simp: Let_def)
  moreover have "unat (of_char c :: byte) = of_char c" by (rule unat_of_char)
  ultimately show ?thesis by auto
qed

lemma safe_name_bytes: "ldif_name_is_safe name \<Longrightarrow> name \<noteq> [] \<and> list_all (\<lambda>b. b \<notin> {0x0A, 0x20, 0x23, 0x3A}) (bytes_of name)"
  by (simp add: ldif_name_is_safe_def bytes_of_def list.pred_map comp_def)
    (elim conjE list.pred_mono_strong, drule name_char_byte, simp)

lemma base64_bytes: "list_all (\<lambda>b. b \<notin> {0x0A, 0x20}) (bytes_of (base64_encode v))"
proof -
  have "list_all (\<lambda>c. of_char c \<notin> {0x0A, 0x20 :: byte}) (CHR ''='' # ALPHA)" by code_simp
  then show ?thesis using base64_alphabet [of v] by (auto simp: bytes_of_def list_all_iff)
qed

lemma safe_value_bytes: "ldif_is_safe v \<Longrightarrow> 0x0A \<notin> set v \<and> (v = [] \<or> hd v \<notin> {0x20, 0x3A, 0x3C})"
  by (cases v) (auto simp: ldif_is_safe_def list_all_iff split: if_splits)

lemma ldif_line_shape:
  assumes "ldif_name_is_safe name"
  shows "ldif_line (name, v) \<noteq> []" and "hd (ldif_line (name, v)) \<notin> {0x20, 0x23}" and "0x0A \<notin> set (ldif_line (name, v))"
proof -
  from safe_name_bytes [OF assms] have "bytes_of name \<noteq> []" by (simp add: bytes_of_def)
  with safe_name_bytes [OF assms] obtain b bs where b: "bytes_of name = b # bs" "b \<notin> {0x20, 0x23}" "0x0A \<notin> set (b # bs)"
    by (cases "bytes_of name") (auto simp: list_all_iff)
  show "ldif_line (name, v) \<noteq> []" using b by (simp add: ldif_line_def)
  show "hd (ldif_line (name, v)) \<notin> {0x20, 0x23}" using b by (simp add: ldif_line_def)
  show "0x0A \<notin> set (ldif_line (name, v))"
    using b(3) base64_bytes [of v] safe_value_bytes [of v] unfolding b(1) [symmetric] by (auto simp: ldif_line_def list_all_iff)
qed

lemma skip_no_space: "xs = [] \<or> hd xs \<noteq> 0x20 \<Longrightarrow> dropWhile (\<lambda>b. b = 0x20) xs = (xs :: bytes)"
  by (cases xs) auto

lemma ldif_pair_line:
  assumes "ldif_name_is_safe name"
  shows "ldif_pair (ldif_line (name, v)) = Some (bytes_of name, v)"
proof -
  from safe_name_bytes [OF assms] have n: "list_all (\<lambda>b. b \<noteq> 0x3A) (bytes_of name)" by (auto simp: list_all_iff)
  have span: "takeWhile (\<lambda>b. b \<noteq> 0x3A) (bytes_of name @ 0x3A # xs) = bytes_of name"
    "dropWhile (\<lambda>b. b \<noteq> 0x3A) (bytes_of name @ 0x3A # xs) = 0x3A # xs" for xs
    using n by (auto simp: list_all_iff takeWhile_append dropWhile_append)
  show ?thesis
  proof (cases "ldif_is_safe v")
    case True
    with safe_value_bytes have "dropWhile (\<lambda>b. b = 0x20) v = v" by (intro skip_no_space) auto
    with True span [of "0x20 # v"] show ?thesis by (simp add: ldif_pair_def ldif_line_def)
  next
    case False
    have "bytes_of (base64_encode v) = [] \<or> hd (bytes_of (base64_encode v)) \<noteq> 0x20"
      using base64_bytes [of v] by (cases "bytes_of (base64_encode v)") auto
    then have "dropWhile (\<lambda>b. b = 0x20) (bytes_of (base64_encode v)) = bytes_of (base64_encode v)" by (rule skip_no_space)
    with False span [of "0x3A # 0x20 # bytes_of (base64_encode v)"] show ?thesis
      by (simp add: ldif_pair_def ldif_line_def base64_decode_encode)
  qed
qed

lemma ldif_lines_line: "0x0A \<notin> set l \<Longrightarrow> ldif_lines cur (l @ 0x0A # rest) = (cur @ l) # ldif_lines [] rest"
  by (induction l arbitrary: cur) auto

lemma ldif_lines_written:
  "list_all (ldif_name_is_safe \<circ> fst) ps \<Longrightarrow>
     ldif_lines [] (concat (map (\<lambda>p. ldif_line p @ [0x0A]) ps) @ 0x0A # rest) = map ldif_line ps @ [] # ldif_lines [] rest"
proof (induction ps)
  case (Cons p ps)
  then show ?case using ldif_line_shape(3) [of "fst p" "snd p"] by (simp add: ldif_lines_line)
qed simp

lemma ldif_unfold_flat: "list_all (\<lambda>l. l = [] \<or> hd l \<noteq> 0x20) ls \<Longrightarrow> ldif_unfold cur ls = cur # ls"
  by (induction ls arbitrary: cur) auto

lemma ldif_records_written:
  "list_all (ldif_name_is_safe \<circ> fst) ps \<Longrightarrow> cur \<noteq> [] \<or> ps \<noteq> [] \<Longrightarrow>
     ldif_records cur (map ldif_line ps @ [] # ls) =
       map_option ((#) (cur @ map (map_prod bytes_of id) ps)) (ldif_records [] ls)"
proof (induction ps arbitrary: cur)
  case (Cons p ps)
  then show ?case
    using ldif_line_shape(1,2) [of "fst p" "snd p"] ldif_pair_line [of "fst p" "snd p"] by (cases p) simp
qed simp

lemma entry_lines_safe: "list_all (ldif_name_is_safe \<circ> fst) (entry_lines e)"
  by (auto simp: entry_lines_def list_all_iff ldif_name_is_safe_def)

lemma entry_lines_pairs: "map (map_prod bytes_of id) (entry_lines e) = entry_pairs e"
  by (simp add: entry_lines_def entry_pairs_def map_concat comp_def case_prod_unfold)

definition ldif_of :: "search_entry list \<Rightarrow> bytes" where
  "ldif_of es = concat (map (\<lambda>e. write_ldif_entry (fst e) (snd e)) es)"

lemma ldif_lines_entries: "ldif_lines [] (ldif_of es) = concat (map (\<lambda>e. map ldif_line (entry_lines e) @ [[]]) es)"
  by (induction es) (simp_all add: ldif_of_def write_ldif_entry_eq ldif_lines_written [OF entry_lines_safe])

lemma ldif_records_entries: "ldif_records [] (concat (map (\<lambda>e. map ldif_line (entry_lines e) @ [[]]) es)) = Some (map entry_pairs es)"
proof (induction es)
  case (Cons e es)
  have "entry_lines e \<noteq> []" by (simp add: entry_lines_def)
  with Cons ldif_records_written [OF entry_lines_safe, of "[]" e] show ?case by (simp add: entry_lines_pairs)
qed simp

lemma entries_flat: "list_all (\<lambda>l. l = [] \<or> hd l \<noteq> 0x20) (concat (map (\<lambda>e. map ldif_line (entry_lines e) @ [[]]) es))"
proof -
  have "hd (ldif_line p) \<noteq> 0x20" if "p \<in> set (entry_lines e)" for p e
    using that entry_lines_safe [of e] ldif_line_shape(2) [of "fst p" "snd p"] by (auto simp: list_all_iff)
  then show ?thesis by (auto simp: list_all_iff)
qed


end
