(* ===== verification/Ldap.thy ===== *)
theory Ldap
  imports Ldap_Filter Ldif
begin

text \<open>
  The LDAP client (\<open>src/src/ldap.rs\<close>): the search a URL describes, the messages of a bind, a search and an unbind, the
  reading of the answers, and the session of \<open>fetch\<close>, with a server's reader of requests as the other side.  Time-outs
  are not modelled; connecting and the TLS handshake are parameters.
\<close>

subsection \<open>URLs\<close>

datatype scope = Base | OneLevel | Subtree

fun scope_as_int :: "scope \<Rightarrow> u64" where
  "scope_as_int Base = 0"
| "scope_as_int OneLevel = 1"
| "scope_as_int Subtree = 2"

record parsed_url_query =
  pq_dn :: string
  pq_attrs :: "string list"
  pq_scope :: scope
  pq_filter :: string

definition hex_val :: "byte \<Rightarrow> byte option" where
  "hex_val b =
     (if 0x30 \<le> b \<and> b \<le> 0x39 then Some (b - 0x30)
      else if 0x61 \<le> b \<and> b \<le> 0x66 then Some (10 + b - 0x61)
      else if 0x41 \<le> b \<and> b \<le> 0x46 then Some (10 + b - 0x41)
      else None)"

fun percent_bytes :: "bytes \<Rightarrow> bytes" where
  "percent_bytes (b # x # y # rest) =
     (case if b = 0x25 then (hex_val x, hex_val y) else (None, None) of
        (Some h1, Some h2) \<Rightarrow> (push_bit 4 h1 OR h2) # percent_bytes rest
      | _ \<Rightarrow> b # percent_bytes (x # y # rest))"
| "percent_bytes (b # rest) = b # percent_bytes rest"
| "percent_bytes [] = []"

definition percent_decode :: "string \<Rightarrow> string" where
  "percent_decode s = from_utf8_lossy (percent_bytes (bytes_of s))"

text \<open>\<open>parts.next().unwrap_or("")\<close>.\<close>

definition part :: "string list \<Rightarrow> nat \<Rightarrow> string" where
  "part ps i = (if i < length ps then ps ! i else [])"

definition parse_scope :: "string \<Rightarrow> scope result" where
  "parse_scope s =
     (let s = to_ascii_lowercase s
      in if s = [] \<or> s = ''base'' then Inr Base
         else if s = ''one'' then Inr OneLevel
         else if s = ''sub'' then Inr Subtree
         else Inl (BadResponse ''ldap url: unknown scope {other:?}''))"

definition parse_ldap_path :: "string \<Rightarrow> parsed_url_query result" where
  "parse_ldap_path path =
     (let rest = (case strip_prefix ''/'' path of Some r \<Rightarrow> r | None \<Rightarrow> path); parts = splitn 5 CHR ''?'' rest;
          attrs = (if part parts 1 = [] then []
                   else filter (\<lambda>a. a \<noteq> []) (map (\<lambda>a. percent_decode (trim a)) (split_char CHR '','' (part parts 1))))
      in bindR (parse_scope (part parts 2)) (\<lambda>scope.
           Inr \<lparr>pq_dn = percent_decode (part parts 0), pq_attrs = attrs, pq_scope = scope,
             pq_filter = (if part parts 3 = [] then ''(objectClass=*)'' else percent_decode (part parts 3))\<rparr>))"

subsection \<open>Requests\<close>

abbreviation (input) APP_BIND_REQUEST :: byte where "APP_BIND_REQUEST \<equiv> 0"
abbreviation (input) APP_BIND_RESPONSE :: byte where "APP_BIND_RESPONSE \<equiv> 1"
abbreviation (input) APP_UNBIND_REQUEST :: byte where "APP_UNBIND_REQUEST \<equiv> 2"
abbreviation (input) APP_SEARCH_REQUEST :: byte where "APP_SEARCH_REQUEST \<equiv> 3"
abbreviation (input) APP_SEARCH_RESULT_ENTRY :: byte where "APP_SEARCH_RESULT_ENTRY \<equiv> 4"
abbreviation (input) APP_SEARCH_RESULT_DONE :: byte where "APP_SEARCH_RESULT_DONE \<equiv> 5"
abbreviation (input) APP_SEARCH_RESULT_REFERENCE :: byte where "APP_SEARCH_RESULT_REFERENCE \<equiv> 19"
abbreviation (input) MAX_MESSAGE_BYTES :: nat where "MAX_MESSAGE_BYTES \<equiv> 67108864"

text \<open>A message identifier, \<open>i32\<close>, as the \<open>i64\<close> it is written as.\<close>

definition mid64 :: "32 word \<Rightarrow> u64" where
  "mid64 n = scast n"

definition build_bind_request :: "32 word \<Rightarrow> string \<Rightarrow> string \<Rightarrow> bytes" where
  "build_bind_request message_id name password =
     write_constructed BER_SEQUENCE
       (write_integer (mid64 message_id)
        @ write_constructed (tag_app APP_BIND_REQUEST True)
            (write_integer 3 @ write_octet_string (bytes_of name) @ write_tlv (tag_ctx 0 False) (bytes_of password)))"

definition build_unbind_request :: "32 word \<Rightarrow> bytes" where
  "build_unbind_request message_id =
     write_constructed BER_SEQUENCE (write_integer (mid64 message_id) @ write_tlv (tag_app APP_UNBIND_REQUEST False) [])"

definition build_search_request :: "32 word \<Rightarrow> parsed_url_query \<Rightarrow> bytes result" where
  "build_search_request message_id q =
     bindR (parse_filter (pq_filter q)) (\<lambda>filter.
       Inr (write_constructed BER_SEQUENCE
         (write_integer (mid64 message_id)
          @ write_constructed (tag_app APP_SEARCH_REQUEST True)
              (write_octet_string (bytes_of (pq_dn q))
               @ write_enumerated (scope_as_int (pq_scope q))
               @ write_enumerated 0
               @ write_integer 100
               @ write_integer 30
               @ write_boolean False
               @ encode_filter filter
               @ write_constructed BER_SEQUENCE (concat (map (\<lambda>attr. write_octet_string (bytes_of attr)) (pq_attrs q)))))))"

subsection \<open>Responses\<close>

definition read_message_from :: "transport \<Rightarrow> bytes result \<times> transport" where
  "read_message_from t =
     bindS (read_exact_or_eof 1 t) (\<lambda>tag_buf t.
       if tag_buf ! 0 \<noteq> BER_SEQUENCE then (Inl (BadResponse ''ldap: expected SEQUENCE, got {:#04x}''), t)
       else bindS (read_exact_or_eof 1 t) (\<lambda>first t.
         bindS
           (if first ! 0 < 0x80 then (Inr (unat (first ! 0)), t)
            else let n = unat (first ! 0 AND 0x7f)
                 in if n = 0 \<or> n > 8 then (Inl (BadResponse ''ldap: bad length form''), t)
                    else bindS (read_exact_or_eof n t) (\<lambda>lb t. (Inr (unat (from_be64 lb)), t)))
           (\<lambda>len t.
              if len > MAX_MESSAGE_BYTES
              then (Inl (BadResponse ''ldap: message length {len} exceeds maximum {MAX_MESSAGE_BYTES}''), t)
              else read_exact_or_eof len t)))"

definition split_message :: "bytes \<Rightarrow> (u64 \<times> byte \<times> bytes) result" where
  "split_message body =
     bindR (read_integer_i64 body) (\<lambda>(mid, r).
       bindR (read_tlv r) (\<lambda>((op_tag, op_body), _). Inr (mid, op_tag, op_body)))"

definition parse_ldap_result :: "bytes \<Rightarrow> (u64 \<times> string) result" where
  "parse_ldap_result body =
     bindR (read_enumerated_i64 body) (\<lambda>(rc, r).
       bindR (read_octet_string r) (\<lambda>(_, r).
         bindR (read_octet_string r) (\<lambda>(diag, _). Inr (rc, from_utf8_lossy diag))))"

lemma ber_length_rest: "ber_length data = Inr (n, rest) \<Longrightarrow> length rest < length data"
  by (auto simp: ber_length_def Let_def split: list.splits if_splits)

lemma read_tlv_rest: "read_tlv data = Inr (tv, rest) \<Longrightarrow> length rest < length data"
proof -
  assume r: "read_tlv data = Inr (tv, rest)"
  then obtain t d n d' where d: "data = t # d" "ber_length d = Inr (n, d')" "rest = drop n d'"
    by (cases data) (auto simp: read_tlv_def bindR_eq_Inr split: if_splits)
  with ber_length_rest [OF d(2)] show ?thesis by simp
qed

lemma read_expect_rest: "read_expect t data = Inr (v, rest) \<Longrightarrow> length rest < length data"
  by (auto simp: read_expect_def bindR_eq_Inr dest!: read_tlv_rest split: if_splits)

lemma read_octet_string_rest: "read_octet_string data = Inr (v, rest) \<Longrightarrow> length rest < length data"
  unfolding read_octet_string_def by (rule read_expect_rest)

function entry_values :: "bytes \<Rightarrow> bytes list result" where
  "entry_values data =
     (if data = [] then Inr []
      else case read_octet_string data of
        Inl e \<Rightarrow> Inl e
      | Inr (v, data) \<Rightarrow> bindR (entry_values data) (\<lambda>vs. Inr (v # vs)))"
  by pat_completeness auto
termination by (relation "measure length") (auto dest: read_octet_string_rest)

definition partial_attribute :: "bytes \<Rightarrow> ldap_attr result" where
  "partial_attribute pa =
     bindR (read_octet_string pa) (\<lambda>(name_bytes, pr).
       bindR (read_expect BER_SET pr) (\<lambda>(vals_tlv, _).
         bindR (entry_values vals_tlv) (\<lambda>vals. Inr (from_utf8_lossy name_bytes, vals))))"

function entry_attributes :: "bytes \<Rightarrow> ldap_attr list result" where
  "entry_attributes data =
     (if data = [] then Inr []
      else case read_expect BER_SEQUENCE data of
        Inl e \<Rightarrow> Inl e
      | Inr (pa, data) \<Rightarrow> bindR (partial_attribute pa) (\<lambda>a. bindR (entry_attributes data) (\<lambda>as. Inr (a # as))))"
  by pat_completeness auto
termination by (relation "measure length") (auto dest: read_expect_rest)

declare entry_values.simps [simp del] entry_attributes.simps [simp del]

definition parse_search_entry :: "bytes \<Rightarrow> search_entry result" where
  "parse_search_entry body =
     bindR (read_octet_string body) (\<lambda>(dn_bytes, r).
       bindR (read_expect BER_SEQUENCE r) (\<lambda>(attrs_tlv, _).
         bindR (entry_attributes attrs_tlv) (\<lambda>attributes. Inr (from_utf8_lossy dn_bytes, attributes))))"

subsection \<open>The session\<close>

lemma read_message_shrinks: "read_message_from t = (Inr body, t') \<Longrightarrow> length (t_in t') < length (t_in t)"
  by (auto simp: read_message_from_def bindS_eq_Inr Let_def split: if_splits dest!: read_exact_or_eof_Inr)

function search_loop :: "32 word \<Rightarrow> bytes \<Rightarrow> transport \<Rightarrow> bytes result \<times> transport" where
  "search_loop search_mid out t =
     (case read_message_from t of
        (Inl e, t) \<Rightarrow> (Inl e, t)
      | (Inr body, t) \<Rightarrow>
          (case split_message body of
             Inl e \<Rightarrow> (Inl e, t)
           | Inr (mid, otag, obody) \<Rightarrow>
               if mid \<noteq> mid64 search_mid then search_loop search_mid out t
               else if otag = tag_app APP_SEARCH_RESULT_ENTRY True then
                 (case parse_search_entry obody of
                    Inl e \<Rightarrow> (Inl e, t)
                  | Inr (dn, attrs) \<Rightarrow> search_loop search_mid (out @ write_ldif_entry dn attrs) t)
               else if otag = tag_app APP_SEARCH_RESULT_REFERENCE True then search_loop search_mid out t
               else if otag = tag_app APP_SEARCH_RESULT_DONE True then
                 (case parse_ldap_result obody of
                    Inl e \<Rightarrow> (Inl e, t)
                  | Inr (rc, diag) \<Rightarrow>
                      if rc \<noteq> 0 then (Inl (BadResponse ''ldap search failed: code {rc}: {diag}''), t) else (Inr out, t))
               else (Inl (BadResponse ''ldap: unexpected protocolOp tag {:#04x}''), t)))"
  by pat_completeness auto
termination by (relation "measure (\<lambda>(_, _, t). length (t_in t))") (auto dest!: read_message_shrinks [OF sym])

declare search_loop.simps [simp del]

text \<open>What \<open>fetch\<close> does on the connected stream.\<close>

definition ldap_session :: "string \<Rightarrow> string \<Rightarrow> parsed_url_query \<Rightarrow> transport \<Rightarrow> bytes result \<times> transport" where
  "ldap_session bind_name bind_pass q t =
     (let message_id = 1
      in bindS (send_bytes (build_bind_request message_id bind_name bind_pass) t) (\<lambda>_ t.
         let message_id = message_id + 1
         in bindS (read_message_from t) (\<lambda>resp t.
            case split_message resp of
              Inl e \<Rightarrow> (Inl e, t)
            | Inr (_, op_tag, op_body) \<Rightarrow>
                if op_tag \<noteq> tag_app APP_BIND_RESPONSE True
                then (Inl (BadResponse ''ldap: expected BindResponse, got tag {:#04x}''), t)
                else case parse_ldap_result op_body of
                  Inl e \<Rightarrow> (Inl e, t)
                | Inr (rc, diag) \<Rightarrow>
                    if rc \<noteq> 0 then (Inl (BadResponse ''ldap bind failed: code {rc}: {diag}''), t)
                    else case build_search_request message_id q of
                      Inl e \<Rightarrow> (Inl e, t)
                    | Inr search_msg \<Rightarrow>
                        bindS (send_bytes search_msg t) (\<lambda>_ t.
                          let search_mid = message_id; message_id = message_id + 1
                          in bindS (search_loop search_mid [] t) (\<lambda>out t.
                               (Inr out, send_quietly (build_unbind_request message_id) t))))))"

definition bind_credentials :: "string option \<Rightarrow> string \<times> string" where
  "bind_credentials ui =
     (case ui of
        None \<Rightarrow> ([], [])
      | Some ui \<Rightarrow>
          (case split_once '':'' ui of
             Some (u, p) \<Rightarrow> (percent_decode u, percent_decode p)
           | None \<Rightarrow> (percent_decode ui, [])))"

definition ldap_fetch :: "(url \<Rightarrow> transport result) \<Rightarrow> (url \<Rightarrow> transport result) \<Rightarrow> url \<Rightarrow> bytes result" where
  "ldap_fetch connect connect_tls url =
     (if u_scheme url \<noteq> ''ldap'' \<and> u_scheme url \<noteq> ''ldaps'' then Inl (UnsupportedScheme (u_scheme url))
      else bindR (parse_ldap_path (u_path url)) (\<lambda>q.
        bindR (reject_ctl (pq_dn q)) (\<lambda>_.
        bindR (reject_ctl (pq_filter q)) (\<lambda>_.
        let (bind_name, bind_pass) = bind_credentials (u_userinfo url)
        in bindR (reject_ctl bind_name) (\<lambda>_.
           bindR (reject_ctl bind_pass) (\<lambda>_.
           bindR (if is_tls url then connect_tls url else connect url) (\<lambda>t.
             fst (ldap_session bind_name bind_pass q t))))))))"

subsection \<open>The other side of the wire\<close>

text \<open>A request as a server reads it (RFC 4511, 4.2, 4.3 and 4.5.1): the number of the message, then what it asks for.\<close>

datatype ldap_request =
    BindRequest int bytes bytes
  | UnbindRequest int
  | SearchRequest int bytes int int int int bool ldap_filter "bytes list"

definition server_bind :: "int \<Rightarrow> (byte \<times> bytes) list \<Rightarrow> ldap_request option" where
  "server_bind mid tvs =
     (case tvs of
        [(ta, version), (tb, name), (tc, password)] \<Rightarrow>
          if [ta, tb, tc] = [BER_INTEGER, BER_OCTET_STRING, 0x80] \<and> x690_integer version = 3
          then Some (BindRequest mid name password) else None
      | _ \<Rightarrow> None)"

definition server_search :: "int \<Rightarrow> (byte \<times> bytes) list \<Rightarrow> ldap_request option" where
  "server_search mid tvs =
     (case tvs of
        [(ta, dn), (tb, scope), (tc, deref), (td, size_limit), (te, time_limit), (tf, types_only), flt, (tg, attrs)] \<Rightarrow>
          if [ta, tb, tc, td, te, tf, tg] =
               [BER_OCTET_STRING, BER_ENUMERATED, BER_ENUMERATED, BER_INTEGER, BER_INTEGER, BER_BOOLEAN, BER_SEQUENCE]
             \<and> length types_only = 1
          then Option.bind (decode_filter 65 flt) (\<lambda>f.
                 Option.bind (x690_elements attrs) (\<lambda>as.
                   if list_all (\<lambda>(t, _). t = BER_OCTET_STRING) as
                   then Some (SearchRequest mid dn (x690_integer scope) (x690_integer deref) (x690_integer size_limit)
                          (x690_integer time_limit) (types_only \<noteq> [0]) f (map snd as))
                   else None))
          else None
      | _ \<Rightarrow> None)"

definition server_op :: "int \<Rightarrow> byte \<Rightarrow> bytes \<Rightarrow> ldap_request option" where
  "server_op mid t op =
     (if t = 0x60 then Option.bind (x690_elements op) (server_bind mid)
      else if t = 0x42 then (if op = [] then Some (UnbindRequest mid) else None)
      else if t = 0x63 then Option.bind (x690_elements op) (server_search mid)
      else None)"

definition server_message :: "bytes \<Rightarrow> ldap_request option" where
  "server_message body =
     Option.bind (x690_elements body) (\<lambda>tvs.
       case tvs of
         [(ti, i), (t, op)] \<Rightarrow> if ti = BER_INTEGER then server_op (x690_integer i) t op else None
       | _ \<Rightarrow> None)"

fun server_reads :: "nat \<Rightarrow> bytes \<Rightarrow> (ldap_request list \<times> bytes) option" where
  "server_reads 0 bs = Some ([], bs)"
| "server_reads (Suc n) bs =
     Option.bind (x690_tlv bs) (\<lambda>((t, body), rest).
       if t \<noteq> BER_SEQUENCE then None
       else Option.bind (server_message body) (\<lambda>r. map_option (map_prod ((#) r) id) (server_reads n rest)))"

lemma x690_integers:
  "x690_integer (drop_redundant (to_be64 0)) = 0" "x690_integer (drop_redundant (to_be64 1)) = 1"
  "x690_integer (drop_redundant (to_be64 2)) = 2" "x690_integer (drop_redundant (to_be64 3)) = 3"
  "x690_integer (drop_redundant (to_be64 30)) = 30" "x690_integer (drop_redundant (to_be64 100)) = 100"
  by (simp_all add: x690_drop_redundant to_be64_def x690_integer_def)

lemma mid64_numbers: "mid64 1 = 1" "mid64 2 = 2" "mid64 3 = 3"
  by (simp_all add: mid64_def)

lemma ldap_tags:
  "tag_app 0 True = 0x60" "tag_app 1 True = 0x61" "tag_app 2 False = 0x42" "tag_app 3 True = 0x63" "tag_app 4 True = 0x64"
  "tag_app 5 True = 0x65" "tag_app 19 True = 0x73"
  by (simp_all add: tag_app_def)

lemma server_reads_message:
  assumes "msg = write_tlv BER_SEQUENCE body" and "length msg < 2 ^ 64" and "server_message body = Some r"
  shows "server_reads (Suc n) (msg @ rest) = map_option (map_prod ((#) r) id) (server_reads n rest)"
proof -
  from assms(1,2) have "length body < 2 ^ 64" by (metis length_tlv_value)
  then show ?thesis using assms(3) unfolding assms(1) server_reads.simps by (subst x690_tlv_written) simp_all
qed

lemma message_parts:
  assumes "body = write_integer v @ write_tlv t op" and "length body < 2 ^ 64"
  shows "server_message body = server_op (x690_integer (drop_redundant (to_be64 v))) t op"
proof -
  have "x690_elements body = Some [(BER_INTEGER, drop_redundant (to_be64 v)), (t, op)]"
    by (rule elements_of_parts [OF _ assms(2)]) (simp add: assms(1) write_integer_def)
  then show ?thesis by (simp add: server_message_def)
qed

text \<open>The message of a request, from the outside in.\<close>

lemma request_read:
  assumes "msg = write_tlv BER_SEQUENCE (write_integer v @ write_tlv t op)" and "length msg < 2 ^ 64"
    and "length op < 2 ^ 64 \<Longrightarrow> server_op (x690_integer (drop_redundant (to_be64 v))) t op = Some r"
  shows "server_reads (Suc n) (msg @ rest) = map_option (map_prod ((#) r) id) (server_reads n rest)"
proof -
  let ?body = "write_integer v @ write_tlv t op"
  from assms(1,2) have b: "length ?body < 2 ^ 64" by (metis length_tlv_value)
  then have "length (write_tlv t op) < 2 ^ 64" by simp
  then have "length op < 2 ^ 64" by (rule length_tlv_value)
  from message_parts [OF refl b] assms(3) [OF this] have "server_message ?body = Some r" by simp
  with assms(1,2) show ?thesis by (rule server_reads_message)
qed

lemma bind_request_read:
  assumes "length (build_bind_request 1 name password) < 2 ^ 64"
  shows "server_reads (Suc n) (build_bind_request 1 name password @ rest) =
    map_option (map_prod ((#) (BindRequest 1 (bytes_of name) (bytes_of password))) id) (server_reads n rest)"
proof (rule request_read [OF _ assms])
  let ?op = "write_integer 3 @ write_octet_string (bytes_of name) @ write_tlv 0x80 (bytes_of password)"
  show "build_bind_request 1 name password = write_tlv BER_SEQUENCE (write_integer 1 @ write_tlv 0x60 ?op)"
    by (simp add: build_bind_request_def write_constructed_tlv ldap_tags filter_tags mid64_numbers)
  assume "length ?op < 2 ^ 64"
  then have "x690_elements ?op =
      Some [(BER_INTEGER, drop_redundant (to_be64 3)), (BER_OCTET_STRING, bytes_of name), (0x80, bytes_of password)]"
    by (rule elements_of_parts [rotated]) (simp add: write_integer_def write_octet_string_def)
  then show "server_op (x690_integer (drop_redundant (to_be64 1))) 0x60 ?op = Some (BindRequest 1 (bytes_of name) (bytes_of password))"
    by (simp add: server_op_def server_bind_def x690_integers)
qed

lemma unbind_request_read:
  "server_reads (Suc n) (build_unbind_request 3 @ rest) = map_option (map_prod ((#) (UnbindRequest 3)) id) (server_reads n rest)"
proof (rule request_read)
  show e: "build_unbind_request 3 = write_tlv BER_SEQUENCE (write_integer 3 @ write_tlv 0x42 [])"
    by (simp add: build_unbind_request_def write_constructed_tlv ldap_tags mid64_numbers)
  show "length (build_unbind_request 3) < 2 ^ 64"
    unfolding e by (simp add: write_integer_def write_tlv_def encode_length_def to_be64_def)
  show "server_op (x690_integer (drop_redundant (to_be64 3))) 0x42 [] = Some (UnbindRequest 3)"
    by (simp add: server_op_def x690_integers)
qed

text \<open>The query and the filter it carries as text.\<close>

definition scope_number :: "scope \<Rightarrow> int" where
  "scope_number sc = (case sc of Base \<Rightarrow> 0 | OneLevel \<Rightarrow> 1 | Subtree \<Rightarrow> 2)"

definition search_asked :: "parsed_url_query \<Rightarrow> ldap_filter \<Rightarrow> ldap_request" where
  "search_asked q f =
     SearchRequest 2 (bytes_of (pq_dn q)) (scope_number (pq_scope q)) 0 100 30 False f (map bytes_of (pq_attrs q))"

lemma scope_read: "x690_integer (drop_redundant (to_be64 (scope_as_int sc))) = scope_number sc"
  by (cases sc) (simp_all add: x690_integers scope_number_def)

lemma parse_filter_show: "filter_wf f \<Longrightarrow> filter_depth f \<le> 64 \<Longrightarrow> parse_filter (show_filter f) = Inr f"
  using parse_filter_printed [of f 0 "[]"] by (simp add: parse_filter_def)

lemma attribute_list_read:
  assumes "length (concat (map (\<lambda>a. write_octet_string (bytes_of a)) as)) < 2 ^ 64"
  shows "x690_elements (concat (map (\<lambda>a. write_octet_string (bytes_of a)) as)) = Some (map (\<lambda>a. (BER_OCTET_STRING, bytes_of a)) as)"
  by (rule elements_of_parts [OF _ assms]) (simp add: write_octet_string_def comp_def)

lemma search_request_read:
  assumes "filter_wf f" and "filter_depth f \<le> 64" and "pq_filter q = show_filter f"
    and "build_search_request 2 q = Inr msg" and "length msg < 2 ^ 64"
  shows "server_reads (Suc n) (msg @ rest) = map_option (map_prod ((#) (search_asked q f)) id) (server_reads n rest)"
proof (rule request_read [OF _ assms(5)])
  define as where "as = concat (map (\<lambda>a. write_octet_string (bytes_of a)) (pq_attrs q))"
  let ?op = "write_octet_string (bytes_of (pq_dn q)) @ write_enumerated (scope_as_int (pq_scope q)) @ write_enumerated 0 @
    write_integer 100 @ write_integer 30 @ write_boolean False @ encode_filter f @ write_tlv BER_SEQUENCE as"
  show "msg = write_tlv BER_SEQUENCE (write_integer 2 @ write_tlv 0x63 ?op)"
    using assms(4) by (simp add: build_search_request_def assms(3) parse_filter_show [OF assms(1,2)]
      write_constructed_tlv ldap_tags mid64_numbers as_def)
  assume op: "length ?op < 2 ^ 64"
  then have "length (encode_filter f) < 2 ^ 64" "length (write_tlv BER_SEQUENCE as) < 2 ^ 64" by simp_all
  then have al: "length as < 2 ^ 64" and "reads_back 65 f"
    using encoded_filter_read [OF assms(1) _ assms(2)] by (blast intro: length_tlv_value, simp)
  then obtain t v where tv: "encode_filter f = write_tlv t v" "decode_filter 65 (t, v) = Some f" by (auto simp: reads_back_def)
  have e: "x690_elements ?op =
      Some [(BER_OCTET_STRING, bytes_of (pq_dn q)), (BER_ENUMERATED, drop_redundant (to_be64 (scope_as_int (pq_scope q)))),
        (BER_ENUMERATED, drop_redundant (to_be64 0)), (BER_INTEGER, drop_redundant (to_be64 100)),
        (BER_INTEGER, drop_redundant (to_be64 30)), (BER_BOOLEAN, [0]), (t, v), (BER_SEQUENCE, as)]"
    by (rule elements_of_parts [OF _ op])
      (simp add: write_octet_string_def write_enumerated_def write_integer_def write_boolean_def tv(1))
  have a: "x690_elements as = Some (map (\<lambda>a. (BER_OCTET_STRING, bytes_of a)) (pq_attrs q))"
    using al unfolding as_def by (rule attribute_list_read)
  show "server_op (x690_integer (drop_redundant (to_be64 2))) 0x63 ?op = Some (search_asked q f)"
    by (simp add: server_op_def e a server_search_def tv(2) scope_read x690_integers search_asked_def list_all_iff comp_def)
qed

subsection \<open>Answers of a server\<close>

definition result_body :: "bytes \<Rightarrow> bytes \<Rightarrow> bytes" where
  "result_body matched diag = write_enumerated 0 @ write_octet_string matched @ write_octet_string diag"

definition attribute_bytes :: "ldap_attr \<Rightarrow> bytes" where
  "attribute_bytes a =
     write_tlv BER_SEQUENCE (write_octet_string (bytes_of (fst a)) @ write_tlv BER_SET (concat (map write_octet_string (snd a))))"

definition entry_body :: "search_entry \<Rightarrow> bytes" where
  "entry_body e = write_octet_string (bytes_of (fst e)) @ write_tlv BER_SEQUENCE (concat (map attribute_bytes (snd e)))"

text \<open>What a server may send before the end of the search: an entry, a reference, or a message of another exchange.\<close>

datatype server_answer = Entry search_entry | Reference bytes | Foreign u64 byte bytes

fun answer_body :: "server_answer \<Rightarrow> bytes" where
  "answer_body (Entry e) = write_integer 2 @ write_tlv 0x64 (entry_body e)"
| "answer_body (Reference r) = write_integer 2 @ write_tlv 0x73 r"
| "answer_body (Foreign mid t v) = write_integer mid @ write_tlv t v"

fun answer_ok :: "server_answer \<Rightarrow> bool" where
  "answer_ok (Entry e) \<longleftrightarrow> valid_str (fst e) \<and> list_all (valid_str \<circ> fst) (snd e)"
| "answer_ok (Reference r) \<longleftrightarrow> True"
| "answer_ok (Foreign mid t v) \<longleftrightarrow> mid \<noteq> 2"

fun entries_of :: "server_answer list \<Rightarrow> search_entry list" where
  "entries_of [] = []"
| "entries_of (Entry e # as) = e # entries_of as"
| "entries_of (a # as) = entries_of as"

lemma len64: "n \<le> MAX_MESSAGE_BYTES \<Longrightarrow> n < 2 ^ 64"
  by simp

lemma read_message_written:
  assumes "length body \<le> MAX_MESSAGE_BYTES"
  shows "read_message_from (t\<lparr>t_in := write_tlv BER_SEQUENCE body @ rest\<rparr>) = (Inr body, t\<lparr>t_in := rest\<rparr>)"
proof (cases "length body < 0x80")
  case True
  then have n: "unat (of_nat (length body) :: byte) = length body" "(of_nat (length body) :: byte) < 0x80"
    by (simp_all add: unat_of_nat word_less_nat_alt)
  have "read_message_from (t\<lparr>t_in := [BER_SEQUENCE] @ [of_nat (length body)] @ body @ rest\<rparr>) = (Inr body, t\<lparr>t_in := rest\<rparr>)"
    unfolding read_message_from_def using assms n
    by (simp add: read_exact_or_eof_append [of "[_]" 1, simplified] read_exact_or_eof_append)
  with True show ?thesis by (simp add: write_tlv_def encode_length_def)
next
  case False
  let ?ds = "length_digits (length body)"
  from False have "0x80 \<le> length body" by simp
  note k = long_length [OF this len64 [OF assms]]
  note b = length_byte [OF k]
  from k(1) have ne: "?ds \<noteq> []" by auto
  have v: "unat (from_be64 (rev ?ds)) = length body" using from_be64_value [of "rev ?ds"] k be_value_digits by simp
  have "read_message_from (t\<lparr>t_in := [BER_SEQUENCE] @ [0x80 OR of_nat (length ?ds)] @ rev ?ds @ body @ rest\<rparr>) = (Inr body, t\<lparr>t_in := rest\<rparr>)"
    unfolding read_message_from_def using assms k b v ne
    by (simp add: read_exact_or_eof_append [of "[_]" 1, simplified] read_exact_or_eof_append Let_def del: word_not_simps)
  with False show ?thesis by (simp add: write_tlv_def encode_length_def Let_def)
qed

lemma read_written_integers:
  "read_integer_i64 (write_integer v @ rest) = Inr (v, rest)" "read_enumerated_i64 (write_enumerated v @ rest) = Inr (v, rest)"
proof -
  have "length (drop_redundant (to_be64 v)) \<le> 8" using drop_redundant_length(1) [of "to_be64 v"] by simp
  then have "length (drop_redundant (to_be64 v)) < 2 ^ 64" by simp
  then show "read_integer_i64 (write_integer v @ rest) = Inr (v, rest)" "read_enumerated_i64 (write_enumerated v @ rest) = Inr (v, rest)"
    by (simp_all add: read_integer_i64_def read_enumerated_i64_def read_expect_def write_integer_def write_enumerated_def
      read_tlv_written decode_integer_written)
qed

lemma read_written_string: "length s < 2 ^ 64 \<Longrightarrow> read_octet_string (write_octet_string s @ rest) = Inr (s, rest)"
  by (simp add: read_octet_string_def read_expect_def write_octet_string_def read_tlv_written)

lemma string_length: "length (write_octet_string s) < 2 ^ 64 \<Longrightarrow> length s < 2 ^ 64"
  unfolding write_octet_string_def by (rule length_tlv_value)

lemma split_message_written:
  "length v < 2 ^ 64 \<Longrightarrow> split_message (write_integer mid @ write_tlv t v) = Inr (mid, t, v)"
  using read_tlv_written [of v t "[]"] by (simp add: split_message_def read_written_integers)

lemma parse_result_written:
  assumes "length (result_body matched diag) < 2 ^ 64"
  shows "\<exists>d. parse_ldap_result (result_body matched diag) = Inr (0, d)"
proof -
  from assms have "length (write_octet_string matched) < 2 ^ 64" "length (write_octet_string diag) < 2 ^ 64"
    by (simp_all add: result_body_def)
  then have "length matched < 2 ^ 64" "length diag < 2 ^ 64" by (simp_all only: string_length)
  with read_written_string [of diag "[]"] show ?thesis
    by (simp add: parse_ldap_result_def result_body_def read_written_integers read_written_string)
qed

lemma entry_values_written:
  "length (concat (map write_octet_string vs)) < 2 ^ 64 \<Longrightarrow> entry_values (concat (map write_octet_string vs)) = Inr vs"
proof (induction vs)
  case Nil
  show ?case by (simp add: entry_values.simps)
next
  case (Cons v vs)
  then have "length (write_octet_string v) < 2 ^ 64" by simp
  then have "length v < 2 ^ 64" by (rule string_length)
  moreover have "write_octet_string v @ concat (map write_octet_string vs) \<noteq> []" by (simp add: write_octet_string_def write_tlv_def)
  moreover have "entry_values (concat (map write_octet_string vs)) = Inr vs" using Cons by simp
  ultimately show ?case by (subst entry_values.simps) (simp add: read_written_string)
qed

lemma read_expect_written: "length v < 2 ^ 64 \<Longrightarrow> read_expect t (write_tlv t v @ rest) = Inr (v, rest)"
  by (simp add: read_expect_def read_tlv_written)

lemma partial_attribute_written:
  assumes "valid_str (fst a)"
    and "length (write_octet_string (bytes_of (fst a)) @ write_tlv BER_SET (concat (map write_octet_string (snd a)))) < 2 ^ 64"
  shows "partial_attribute (write_octet_string (bytes_of (fst a)) @ write_tlv BER_SET (concat (map write_octet_string (snd a)))) = Inr a"
proof -
  from assms(2) have n: "length (write_octet_string (bytes_of (fst a))) < 2 ^ 64"
    and v: "length (write_tlv BER_SET (concat (map write_octet_string (snd a)))) < 2 ^ 64" by simp_all
  from n have "length (bytes_of (fst a)) < 2 ^ 64" by (rule string_length)
  moreover from v have "length (concat (map write_octet_string (snd a))) < 2 ^ 64" by (rule length_tlv_value)
  ultimately show ?thesis
    using read_expect_written [of "concat (map write_octet_string (snd a))" BER_SET "[]"]
    by (simp add: partial_attribute_def read_written_string entry_values_written from_utf8_lossy_valid [OF assms(1)])
qed

lemma entry_attributes_written:
  "list_all (valid_str \<circ> fst) attrs \<Longrightarrow> length (concat (map attribute_bytes attrs)) < 2 ^ 64 \<Longrightarrow>
     entry_attributes (concat (map attribute_bytes attrs)) = Inr attrs"
proof (induction attrs)
  case Nil
  show ?case by (simp add: entry_attributes.simps)
next
  case (Cons a attrs)
  let ?pa = "write_octet_string (bytes_of (fst a)) @ write_tlv BER_SET (concat (map write_octet_string (snd a)))"
  from Cons.prems(2) have "length (write_tlv BER_SEQUENCE ?pa) < 2 ^ 64" by (simp add: attribute_bytes_def)
  then have l: "length ?pa < 2 ^ 64" by (rule length_tlv_value)
  moreover have "partial_attribute ?pa = Inr a" using _ l by (rule partial_attribute_written) (use Cons.prems(1) in simp)
  moreover have "attribute_bytes a @ concat (map attribute_bytes attrs) \<noteq> []" by (simp add: attribute_bytes_def write_tlv_def)
  moreover have "entry_attributes (concat (map attribute_bytes attrs)) = Inr attrs" using Cons by simp
  ultimately show ?case
    using read_expect_written [OF l, of BER_SEQUENCE "concat (map attribute_bytes attrs)"]
    by (subst entry_attributes.simps) (simp add: attribute_bytes_def)
qed

lemma parse_entry_written:
  assumes "answer_ok (Entry e)" and "length (entry_body e) < 2 ^ 64"
  shows "parse_search_entry (entry_body e) = Inr e"
proof -
  let ?as = "concat (map attribute_bytes (snd e))"
  from assms(2) have n: "length (write_octet_string (bytes_of (fst e))) < 2 ^ 64" and v: "length (write_tlv BER_SEQUENCE ?as) < 2 ^ 64"
    by (simp_all add: entry_body_def)
  from n have "length (bytes_of (fst e)) < 2 ^ 64" by (rule string_length)
  moreover from v have l: "length ?as < 2 ^ 64" by (rule length_tlv_value)
  moreover have "entry_attributes ?as = Inr (snd e)" using _ l by (rule entry_attributes_written) (use assms(1) in simp)
  ultimately show ?thesis
    using read_expect_written [OF l, of BER_SEQUENCE "[]"] from_utf8_lossy_valid [of "fst e"] assms(1)
    by (simp add: parse_search_entry_def entry_body_def read_written_string)
qed

definition answer_bytes :: "server_answer \<Rightarrow> bytes" where
  "answer_bytes a = write_tlv BER_SEQUENCE (answer_body a)"

definition done_bytes :: "bytes \<Rightarrow> bytes \<Rightarrow> bytes" where
  "done_bytes matched diag = write_tlv BER_SEQUENCE (write_integer 2 @ write_tlv 0x65 (result_body matched diag))"

lemma search_loop_done:
  assumes "length (write_integer 2 @ write_tlv 0x65 (result_body matched diag)) \<le> MAX_MESSAGE_BYTES"
  shows "search_loop 2 out (t\<lparr>t_in := done_bytes matched diag @ rest\<rparr>) = (Inr out, t\<lparr>t_in := rest\<rparr>)"
proof -
  from len64 [OF assms] have "length (write_tlv 0x65 (result_body matched diag)) < 2 ^ 64" by simp
  then have l: "length (result_body matched diag) < 2 ^ 64" by (rule length_tlv_value)
  with parse_result_written obtain d where "parse_ldap_result (result_body matched diag) = Inr (0, d)" by blast
  then show ?thesis
    by (subst search_loop.simps)
      (simp add: done_bytes_def read_message_written [OF assms] split_message_written [OF l] mid64_numbers ldap_tags)
qed

lemma search_loop_answer:
  assumes "answer_ok a" and "length (answer_body a) \<le> MAX_MESSAGE_BYTES"
  shows "search_loop 2 out (t\<lparr>t_in := answer_bytes a @ rest\<rparr>) =
    search_loop 2 (out @ ldif_of (entries_of [a])) (t\<lparr>t_in := rest\<rparr>)"
proof -
  note m = read_message_written [OF assms(2), where t = t and rest = rest]
  have l: "length v < 2 ^ 64" if "answer_body a = write_integer mid @ write_tlv tg v" for mid tg v
  proof -
    from len64 [OF assms(2)] have "length (write_tlv tg v) < 2 ^ 64" by (simp add: that)
    then show ?thesis by (rule length_tlv_value)
  qed
  show ?thesis
  proof (cases a)
    case (Entry e)
    then have b: "length (entry_body e) < 2 ^ 64" using l [of 2 "0x64" "entry_body e"] by simp
    have "parse_search_entry (entry_body e) = Inr e" using _ b by (rule parse_entry_written) (use assms(1) Entry in simp)
    with Entry m b show ?thesis
      by (subst search_loop.simps) (simp add: answer_bytes_def split_message_written mid64_numbers ldap_tags ldif_of_def case_prod_unfold)
  next
    case (Reference r)
    with l [of 2 "0x73" r] have "length r < 2 ^ 64" by simp
    with Reference m show ?thesis
      by (subst search_loop.simps) (simp add: answer_bytes_def split_message_written mid64_numbers ldap_tags ldif_of_def)
  next
    case (Foreign mid tg v)
    with l [of mid tg v] have "length v < 2 ^ 64" by simp
    with Foreign m assms(1) show ?thesis
      by (subst search_loop.simps) (simp add: answer_bytes_def split_message_written mid64_numbers ldif_of_def)
  qed
qed

lemma entries_of_append: "entries_of (as @ bs) = entries_of as @ entries_of bs"
  by (induction as rule: entries_of.induct) simp_all

lemma ldif_of_append: "ldif_of (as @ bs) = ldif_of as @ ldif_of bs"
  by (simp add: ldif_of_def)

lemma search_loop_answers:
  assumes "list_all answer_ok as" and "list_all (\<lambda>a. length (answer_body a) \<le> MAX_MESSAGE_BYTES) as"
    and "length (write_integer 2 @ write_tlv 0x65 (result_body matched diag)) \<le> MAX_MESSAGE_BYTES"
  shows "search_loop 2 out (t\<lparr>t_in := concat (map answer_bytes as) @ done_bytes matched diag @ rest\<rparr>) =
    (Inr (out @ ldif_of (entries_of as)), t\<lparr>t_in := rest\<rparr>)"
  using assms(1,2)
proof (induction as arbitrary: out)
  case Nil
  then show ?case using search_loop_done [OF assms(3)] by (simp add: ldif_of_def)
next
  case (Cons a as)
  then have "search_loop 2 out (t\<lparr>t_in := answer_bytes a @ concat (map answer_bytes as) @ done_bytes matched diag @ rest\<rparr>) =
      (Inr ((out @ ldif_of (entries_of [a])) @ ldif_of (entries_of as)), t\<lparr>t_in := rest\<rparr>)"
    by (subst search_loop_answer) simp_all
  then show ?case using entries_of_append [of "[a]" as] ldif_of_append by simp
qed

subsection \<open>The search as a whole\<close>

definition bind_ok_bytes :: "u64 \<Rightarrow> bytes \<Rightarrow> bytes \<Rightarrow> bytes" where
  "bind_ok_bytes mid matched diag = write_tlv BER_SEQUENCE (write_integer mid @ write_tlv 0x61 (result_body matched diag))"

lemma read_bind_ok:
  assumes "length (write_integer mid @ write_tlv 0x61 (result_body matched diag)) \<le> MAX_MESSAGE_BYTES"
  shows "split_message (write_integer mid @ write_tlv 0x61 (result_body matched diag)) = Inr (mid, 0x61, result_body matched diag)"
    and "\<exists>d. parse_ldap_result (result_body matched diag) = Inr (0, d)"
proof -
  from len64 [OF assms] have "length (write_tlv 0x61 (result_body matched diag)) < 2 ^ 64" by simp
  then have l: "length (result_body matched diag) < 2 ^ 64" by (rule length_tlv_value)
  then show "split_message (write_integer mid @ write_tlv 0x61 (result_body matched diag)) = Inr (mid, 0x61, result_body matched diag)"
    by (rule split_message_written)
  from l show "\<exists>d. parse_ldap_result (result_body matched diag) = Inr (0, d)" by (rule parse_result_written)
qed

lemma ldap_session_served:
  assumes "t_cap t = None" and "build_search_request 2 q = Inr msg"
    and "list_all answer_ok as" and "list_all (\<lambda>a. length (answer_body a) \<le> MAX_MESSAGE_BYTES) as"
    and "length (write_integer mid @ write_tlv 0x61 (result_body bm bd)) \<le> MAX_MESSAGE_BYTES"
    and "length (write_integer 2 @ write_tlv 0x65 (result_body dm dd)) \<le> MAX_MESSAGE_BYTES"
  shows "ldap_session name password q (t\<lparr>t_in := bind_ok_bytes mid bm bd @ concat (map answer_bytes as) @ done_bytes dm dd @ rest\<rparr>) =
    (Inr (ldif_of (entries_of as)),
     t\<lparr>t_in := rest, t_out := t_out t @ build_bind_request 1 name password @ msg @ build_unbind_request 3\<rparr>)"
proof -
  let ?rest = "concat (map answer_bytes as) @ done_bytes dm dd @ rest"
  let ?bind = "build_bind_request 1 name password"
  obtain d where d: "parse_ldap_result (result_body bm bd) = Inr (0, d)" using read_bind_ok(2) [OF assms(5)] by blast
  have k: "(1 :: 32 word) + 1 = 2" "(2 :: 32 word) + 1 = 3" by simp_all
  have r: "read_message_from (t\<lparr>t_out := t_out t @ ?bind, t_in := bind_ok_bytes mid bm bd @ ?rest\<rparr>) =
      (Inr (write_integer mid @ write_tlv 0x61 (result_body bm bd)), t\<lparr>t_out := t_out t @ ?bind, t_in := ?rest\<rparr>)"
    unfolding bind_ok_bytes_def by (rule read_message_written [OF assms(5)])
  have l: "search_loop 2 [] (t\<lparr>t_out := t_out t @ ?bind @ msg, t_in := ?rest\<rparr>) =
      (Inr (ldif_of (entries_of as)), t\<lparr>t_out := t_out t @ ?bind @ msg, t_in := rest\<rparr>)"
    using search_loop_answers [OF assms(3,4,6), where out = "[]" and rest = rest and t = "t\<lparr>t_out := t_out t @ ?bind @ msg\<rparr>"]
    by simp
  have s1: "send_bytes ?bind (t\<lparr>t_in := bind_ok_bytes mid bm bd @ ?rest\<rparr>) =
      (Inr (), t\<lparr>t_out := t_out t @ ?bind, t_in := bind_ok_bytes mid bm bd @ ?rest\<rparr>)"
    using assms(1) by (simp add: io_swap)
  have s2: "send_bytes msg (t\<lparr>t_out := t_out t @ ?bind, t_in := ?rest\<rparr>) = (Inr (), t\<lparr>t_out := t_out t @ ?bind @ msg, t_in := ?rest\<rparr>)"
    using assms(1) by (simp add: io_swap)
  have s3: "send_quietly (build_unbind_request 3) (t\<lparr>t_out := t_out t @ ?bind @ msg, t_in := rest\<rparr>) =
      t\<lparr>t_in := rest, t_out := t_out t @ ?bind @ msg @ build_unbind_request 3\<rparr>"
    using assms(1) by (simp add: io_swap)
  show ?thesis
    unfolding ldap_session_def Let_def k s1 bindS.simps r read_bind_ok(1) [OF assms(5)] sum.case prod.case ldap_tags d
      assms(2) s2 l s3 by simp
qed

text \<open>C38: An LDAP search end to end.  Let the query carry the text of a well-formed filter and let the server accept the bind
  and send entries, references and messages of other exchanges in any order, then the end of the search.  Then the
  client returns exactly the LDIF of the entries, in order, and what it has sent is read by a server (RFC 4511, lengths and
  integers by X.690) as the bind with the given name and password, the search for exactly that name, scope, filter and
  list of attributes, and the unbind, and nothing else.\<close>

theorem ldap_search_served:
  assumes "t_cap t = None" and "t_out t = []" and "filter_wf f" and "filter_depth f \<le> 64" and "pq_filter q = show_filter f"
    and "build_search_request 2 q = Inr msg" and "length msg < 2 ^ 64" and "length (build_bind_request 1 name password) < 2 ^ 64"
    and "list_all answer_ok as" and "list_all (\<lambda>a. length (answer_body a) \<le> 67108864) as"
    and "length (write_integer mid @ write_tlv 0x61 (result_body bm bd)) \<le> 67108864"
    and "length (write_integer 2 @ write_tlv 0x65 (result_body dm dd)) \<le> 67108864"
    and "t_in t = bind_ok_bytes mid bm bd @ concat (map answer_bytes as) @ done_bytes dm dd"
  shows "\<exists>t'. ldap_session name password q t = (Inr (ldif_of (entries_of as)), t') \<and>
    server_reads 3 (t_out t') = Some ([BindRequest 1 (bytes_of name) (bytes_of password), search_asked q f, UnbindRequest 3], [])"
proof -
  let ?sent = "build_bind_request 1 name password @ msg @ build_unbind_request 3"
  have e: "t\<lparr>t_in := bind_ok_bytes mid bm bd @ concat (map answer_bytes as) @ done_bytes dm dd @ []\<rparr> = t"
    unfolding append_Nil2 assms(13) [symmetric] by (rule transport.surjective [THEN trans, THEN sym]) simp
  have s: "ldap_session name password q t = (Inr (ldif_of (entries_of as)), t\<lparr>t_in := [], t_out := t_out t @ ?sent\<rparr>)"
    using ldap_session_served [OF assms(1,6,9-12), where rest = "[]" and name = name and password = password] unfolding e .
  have b: "server_reads (Suc 2) (build_bind_request 1 name password @ msg @ build_unbind_request 3) =
      map_option (map_prod ((#) (BindRequest 1 (bytes_of name) (bytes_of password))) id) (server_reads 2 (msg @ build_unbind_request 3))"
    by (rule bind_request_read [OF assms(8)])
  have m: "server_reads (Suc 1) (msg @ build_unbind_request 3) =
      map_option (map_prod ((#) (search_asked q f)) id) (server_reads 1 (build_unbind_request 3))"
    by (rule search_request_read [OF assms(3-7)])
  have u: "server_reads (Suc 0) (build_unbind_request 3 @ []) = map_option (map_prod ((#) (UnbindRequest 3)) id) (server_reads 0 [])"
    by (rule unbind_request_read)
  have n: "(3 :: nat) = Suc 2" "(2 :: nat) = Suc 1" "(1 :: nat) = Suc 0" by simp_all
  have r: "server_reads 3 ?sent = Some ([BindRequest 1 (bytes_of name) (bytes_of password), search_asked q f, UnbindRequest 3], [])"
    unfolding n(1) b unfolding n(2) m unfolding n(3) using u by (simp del: server_reads.simps(2))
  show ?thesis by (rule exI [of _ "t\<lparr>t_in := [], t_out := t_out t @ ?sent\<rparr>"]) (use s r assms(2) in \<open>simp del: server_reads.simps\<close>)
qed

definition example_filter :: ldap_filter where
  "example_filter = FAnd [Present ''cn'', Substrings ''sn'' (Some ''a'') [] None]"

definition example_query :: parsed_url_query where
  "example_query = \<lparr>pq_dn = ''dc=x'', pq_attrs = [''cn''], pq_scope = Subtree, pq_filter = show_filter example_filter\<rparr>"

definition example_answers :: "server_answer list" where
  "example_answers = [Entry (''cn=a'', [(''cn'', [[0x61]])]), Foreign 7 0x64 [], Reference []]"

definition example_server :: transport where
  "example_server =
     fresh_transport\<lparr>t_in := bind_ok_bytes 1 [] [] @ concat (map answer_bytes example_answers) @ done_bytes [] []\<rparr>"

lemma example_search_message: "case build_search_request 2 example_query of Inl e \<Rightarrow> False | Inr msg \<Rightarrow> length msg \<le> 100"
  by code_simp

theorem ldap_search_served_witness:
  "\<exists>t'. ldap_session ''u'' ''p'' example_query example_server = (Inr (ldif_of [(''cn=a'', [(''cn'', [[0x61]])])]), t') \<and>
    server_reads 3 (t_out t') =
      Some ([BindRequest 1 (bytes_of ''u'') (bytes_of ''p''), search_asked example_query example_filter, UnbindRequest 3], [])"
proof -
  obtain msg where m: "build_search_request 2 example_query = Inr msg" "length msg \<le> 100"
    using example_search_message by (auto split: sum.splits)
  have f: "filter_wf example_filter" "filter_depth example_filter \<le> 64"
    by (simp_all add: example_filter_def desc_ok_def segment_ok_def value_ok_def no_ctl_def valid_str_def bytes_of_def)
  have b: "length (build_bind_request 1 ''u'' ''p'') \<le> 100" by code_simp
  have a: "list_all answer_ok example_answers" by (simp add: example_answers_def valid_str_def bytes_of_def)
  have "list_all (\<lambda>a. length (answer_body a) \<le> 100) example_answers"
    unfolding example_answers_def list.pred_inject by (intro conjI TrueI; code_simp)
  then have l: "list_all (\<lambda>a. length (answer_body a) \<le> 67108864) example_answers" by (rule list.pred_mono_strong) simp
  have r: "length (write_integer 1 @ write_tlv 0x61 (result_body [] [])) \<le> 100"
    "length (write_integer 2 @ write_tlv 0x65 (result_body [] [])) \<le> 100" by code_simp+
  show ?thesis
    using ldap_search_served [of example_server example_filter example_query msg "''u''" "''p''" example_answers 1 "[]" "[]" "[]" "[]"]
      m b f a l r by (simp add: example_server_def fresh_transport_def example_query_def example_answers_def)
qed

end
