(* ===== verification/Ldap_Typed.thy ===== *)
theory Ldap_Typed
  imports Ldap_Filter
begin

text \<open>
  What the filter parser of the LDAP client (\<open>FilterParser\<close> in \<open>src/src/ldap.rs\<close>) lets through, whatever the text: the
  shape of a filter that the BER encoder is given.
\<close>

definition desc_typed :: "string \<Rightarrow> bool" where
  "desc_typed s \<longleftrightarrow> valid_str s \<and> list_all (\<lambda>c. c \<notin> {CHR ''='', CHR '')'', CHR ''~'', CHR ''<'', CHR ''>'', CHR '':''}) s"

fun filter_typed :: "ldap_filter \<Rightarrow> bool" where
  "filter_typed (FAnd items) \<longleftrightarrow> items \<noteq> [] \<and> list_all filter_typed items"
| "filter_typed (FOr items) \<longleftrightarrow> items \<noteq> [] \<and> list_all filter_typed items"
| "filter_typed (FNot inner) \<longleftrightarrow> filter_typed inner"
| "filter_typed (EqualityMatch attr v) \<longleftrightarrow> desc_typed attr \<and> value_ok v \<and> CHR ''*'' \<notin> set v"
| "filter_typed (Substrings attr initial anys final) \<longleftrightarrow>
     desc_typed attr \<and> pred_option segment_ok initial \<and> list_all segment_ok anys \<and> pred_option segment_ok final"
| "filter_typed (Present attr) \<longleftrightarrow> desc_typed attr"
| "filter_typed (ExtensibleMatch rule attr v dn) \<longleftrightarrow>
     pred_option (\<lambda>r. desc_typed r \<and> no_ctl r \<and> r \<noteq> [] \<and> r \<noteq> ''dn'') rule \<and>
     pred_option (\<lambda>a. desc_typed a \<and> no_ctl a \<and> a \<noteq> []) attr \<and> value_ok v \<and> no_ctl v \<and> (rule \<noteq> None \<or> attr \<noteq> None)"

subsection \<open>Pieces of UTF-8\<close>

lemma continuation_high: "utf8_cont c \<Longrightarrow> \<not> c < 0x80" "utf8_second3 b c \<Longrightarrow> \<not> c < 0x80" "utf8_second4 b c \<Longrightarrow> \<not> c < 0x80"
  by (auto simp: utf8_cont_def utf8_second3_def utf8_second4_def word_less_nat_alt word_le_nat_alt split: if_splits)

lemma utf8_lead:
  assumes v: "utf8_valid (b # bs)"
  shows "\<exists>cs ds. b # bs = cs @ ds \<and> cs \<noteq> [] \<and> utf8_valid cs \<and> utf8_valid ds \<and> (cs = [b] \<or> list_all (\<lambda>x. \<not> x < 0x80) cs)"
proof -
  let ?two = "0xC2 \<le> b \<and> b \<le> 0xDF" and ?three = "0xE0 \<le> b \<and> b \<le> 0xEF" and ?four = "0xF0 \<le> b \<and> b \<le> 0xF4"
  consider "b < 0x80" | "\<not> b < 0x80" "?two" | "\<not> b < 0x80" "\<not> ?two" "?three"
    | "\<not> b < 0x80" "\<not> ?two" "\<not> ?three" "?four" | "\<not> b < 0x80" "\<not> ?two" "\<not> ?three" "\<not> ?four" by blast
  then show ?thesis
  proof cases
    case 1
    with v show ?thesis by (intro exI [of _ "[b]"] exI [of _ bs]) simp
  next
    case 2
    with v obtain c cs where "bs = c # cs" "utf8_cont c" "utf8_valid cs" by (cases bs) auto
    with 2 continuation_high(1) [of c] show ?thesis by (intro exI [of _ "[b, c]"] exI [of _ cs]) simp
  next
    case 3
    with v obtain c d cs where "bs = c # d # cs" "utf8_second3 b c" "utf8_cont d" "utf8_valid cs"
      by (auto split: list.splits)
    moreover have "\<not> b \<le> 0xDF" using 3 by (simp add: word_le_nat_alt)
    ultimately show ?thesis using 3 continuation_high(1) [of d] continuation_high(2) [of b c]
      by (intro exI [of _ "[b, c, d]"] exI [of _ cs]) simp
  next
    case 4
    with v obtain c d e cs where "bs = c # d # e # cs" "utf8_second4 b c" "utf8_cont d" "utf8_cont e" "utf8_valid cs"
      by (auto split: list.splits)
    moreover have "\<not> b \<le> 0xDF" "\<not> b \<le> 0xEF" using 4 by (simp_all add: word_le_nat_alt)
    ultimately show ?thesis using 4 continuation_high(1) [of d] continuation_high(1) [of e] continuation_high(3) [of b c]
      by (intro exI [of _ "[b, c, d, e]"] exI [of _ cs]) simp
  next
    case 5
    with v show ?thesis by simp
  qed
qed

text \<open>Cutting a valid string at an ASCII character leaves valid strings.\<close>

lemma utf8_valid_around:
  "utf8_valid (xs @ b # ys) \<Longrightarrow> b < 0x80 \<Longrightarrow> utf8_valid xs \<and> utf8_valid ys"
proof (induction "length xs" arbitrary: xs rule: less_induct)
  case less
  show ?case
  proof (cases xs)
    case Nil
    with less.prems show ?thesis by simp
  next
    case (Cons x xs')
    with less.prems(1) have "utf8_valid (x # xs' @ b # ys)" by simp
    then obtain cs ds where c: "x # xs' @ b # ys = cs @ ds" "cs \<noteq> []" "utf8_valid cs" "utf8_valid ds"
      "cs = [x] \<or> list_all (\<lambda>x. \<not> x < 0x80) cs" using utf8_lead by blast
    from c(1) Cons have "xs @ b # ys = cs @ ds" by simp
    then consider us where "cs = xs @ us" "us @ ds = b # ys" | us where "xs = cs @ us" "ds = us @ b # ys"
      unfolding append_eq_append_conv2 by metis
    then show ?thesis
    proof cases
      case 1
      show ?thesis
      proof (cases us)
        case Nil
        with 1 c less.prems(2) show ?thesis by simp
      next
        case (Cons u us')
        with 1 have "b \<in> set cs" "length cs > 1" using \<open>xs = x # xs'\<close> by auto
        with c(5) less.prems(2) show ?thesis by (auto simp: list_all_iff)
      qed
    next
      case 2
      with c(2) have "length us < length xs" by simp
      from less.hyps [OF this] 2 c(4) less.prems(2) have "utf8_valid us \<and> utf8_valid ys" by simp
      with 2 c(3) utf8_valid_append show ?thesis by simp
    qed
  qed
qed

lemma valid_str_around: "valid_str (s @ c # t) \<Longrightarrow> (of_char c :: nat) < 128 \<Longrightarrow> valid_str s \<and> valid_str t"
proof -
  assume v: "valid_str (s @ c # t)" and c: "(of_char c :: nat) < 128"
  have b: "bytes_of (s @ c # t) = bytes_of s @ of_char c # bytes_of t" by (simp add: bytes_of_def)
  have "unat (of_char c :: byte) < unat (0x80 :: byte)" using c by (simp only: unat_of_char) simp
  then have "(of_char c :: byte) < 0x80" by (simp only: word_less_nat_alt)
  with v show ?thesis unfolding valid_str_def b by (rule utf8_valid_around)
qed

lemma split_char_parts:
  "valid_str s \<Longrightarrow> (of_char c :: nat) < 128 \<Longrightarrow> p \<in> set (split_char c s) \<Longrightarrow> valid_str p \<and> c \<notin> set p \<and> set p \<subseteq> set s"
proof (induction "length s" arbitrary: s rule: less_induct)
  case less
  show ?case
  proof (cases "c \<in> set s")
    case True
    then obtain a b where s: "s = a @ c # b" "c \<notin> set a" by (meson split_list_first)
    have v: "valid_str a \<and> valid_str b" using less.prems(1,2) unfolding s(1) by (rule valid_str_around)
    have l: "length b < length s" by (simp add: s(1))
    from less.prems(3) have "p = a \<or> p \<in> set (split_char c b)" unfolding s(1) split_char_field [OF s(2)] by simp
    then show ?thesis
    proof
      assume "p = a"
      with s v show ?thesis by auto
    next
      assume "p \<in> set (split_char c b)"
      from less.hyps [OF l conjunct2 [OF v] less.prems(2) this] show ?thesis unfolding s(1) by auto
    qed
  next
    case False
    from less.prems(3) have "p = s" unfolding split_char_last [OF False] by simp
    with False less.prems(1) show ?thesis by simp
  qed
qed

subsection \<open>What the pieces of the parser return\<close>

lemma utf8_slice_Inr: "utf8_slice m s = Inr v \<Longrightarrow> v = s \<and> valid_str s"
  by (auto simp: utf8_slice_def from_utf8_def valid_str_def split: option.splits if_splits)

lemma reject_ctl_Inr: "reject_ctl s = Inr u \<Longrightarrow> no_ctl s"
  by (auto simp: reject_ctl_def no_ctl_def list_ex_iff list_all_iff not_less split: if_splits)

lemma reject_ctl_opt_Inr: "reject_ctl_opt x = Inr u \<Longrightarrow> pred_option no_ctl x"
  by (cases x) (simp_all add: reject_ctl_opt_def, drule reject_ctl_Inr)

lemma read_value_typed: "read_value s = Inr (v, s') \<Longrightarrow> value_ok v"
proof -
  assume "read_value s = Inr (v, s')"
  then have "v = takeWhile (\<lambda>c. c \<noteq> CHR '')'') s" "valid_str v"
    by (auto simp: read_value_def bindR_eq_Inr dest!: utf8_slice_Inr)
  then show ?thesis unfolding value_ok_def using set_takeWhileD [of "CHR '')''" "\<lambda>c. c \<noteq> CHR '')''" s] by blast
qed

lemma substring_segments_typed:
  "substring_segments i n segs (initial, anys, final) = Inr (initial', anys', final') \<Longrightarrow>
     list_all (\<lambda>s. value_ok s \<and> CHR ''*'' \<notin> set s) segs \<Longrightarrow>
     pred_option segment_ok initial \<Longrightarrow> list_all segment_ok anys \<Longrightarrow> pred_option segment_ok final \<Longrightarrow>
     pred_option segment_ok initial' \<and> list_all segment_ok anys' \<and> pred_option segment_ok final'"
proof (induction i n segs "(initial, anys, final)" arbitrary: initial anys final rule: substring_segments.induct)
  case (2 i n seg segs initial anys final)
  show ?case
  proof (cases "seg = []")
    case True
    with 2(1) 2(3-) show ?thesis by simp
  next
    case False
    with 2(3) obtain u where u: "reject_ctl seg = Inr u"
      and r: "substring_segments (i + 1) n segs (if i = 0 then (Some seg, anys, final)
        else if i = n then (initial, anys, Some seg) else (initial, anys @ [seg], final)) = Inr (initial', anys', final')"
      by (auto simp: bindR_eq_Inr)
    have "segment_ok seg" using False 2(4) reject_ctl_Inr [OF u] by (simp add: segment_ok_def)
    with r 2(4-) 2(2) [OF False u] show ?thesis by (auto split: if_split_asm)
  qed
qed simp

lemma extensible_tokens_typed:
  "extensible_tokens toks dn rule = Inr (dn', rule') \<Longrightarrow> list_all Q toks \<Longrightarrow>
     pred_option (\<lambda>r. Q r \<and> r \<noteq> [] \<and> r \<noteq> ''dn'') rule \<Longrightarrow> pred_option (\<lambda>r. Q r \<and> r \<noteq> [] \<and> r \<noteq> ''dn'') rule'"
proof (induction toks dn rule rule: extensible_tokens.induct)
  case (2 tok toks dn rule)
  show ?case
  proof (cases "tok = ''dn''")
    case True
    with 2(1) 2(3-) show ?thesis by (auto split: if_splits)
  next
    case False
    with 2(2-) show ?thesis by (auto split: if_split_asm)
  qed
qed simp

lemma parse_extensible_typed:
  assumes "parse_extensible desc s = Inr (f, s')" and "valid_str desc"
    and "list_all (\<lambda>c. c \<notin> {CHR ''='', CHR '')'', CHR ''~'', CHR ''<'', CHR ''>''}) desc"
  shows "filter_typed f \<and> filter_depth f = 0"
proof -
  let ?tokens = "butlast (split_char CHR '':'' desc)"
  define attr where "attr = (if hd ?tokens = [] then None else Some (hd ?tokens))"
  note step = assms(1) [unfolded parse_extensible_def Let_def, folded attr_def]
  from step have ne: "?tokens \<noteq> []" by (auto split: if_splits)
  from step obtain dn rule v s1 u1 u2 u3 where t: "extensible_tokens (tl ?tokens) False None = Inr (dn, rule)"
    and some: "\<not> (attr = None \<and> rule = None)" and v: "read_value s = Inr (v, s1)" "reject_ctl v = Inr u1"
    and c: "reject_ctl_opt attr = Inr u2" "reject_ctl_opt rule = Inr u3" and f: "f = ExtensibleMatch rule attr v dn"
    by (auto simp: bindR_eq_Inr split: if_split_asm)
  have tok: "desc_typed p" if "p \<in> set ?tokens" for p
  proof -
    have "p \<in> set (split_char CHR '':'' desc)" using that by (rule in_set_butlastD)
    from split_char_parts [OF assms(2) _ this] have "valid_str p" "CHR '':'' \<notin> set p" "set p \<subseteq> set desc" by simp_all
    with assms(3) show ?thesis unfolding desc_typed_def list_all_iff by blast
  qed
  have "list_all desc_typed (tl ?tokens)" using tok list.set_sel(2) [OF ne] by (auto simp: list_all_iff)
  from extensible_tokens_typed [OF t this] have "pred_option (\<lambda>r. desc_typed r \<and> r \<noteq> [] \<and> r \<noteq> ''dn'') rule" by simp
  moreover have "desc_typed (hd ?tokens)" by (rule tok [OF list.set_sel(1) [OF ne]])
  then have "pred_option (\<lambda>a. desc_typed a \<and> a \<noteq> []) attr" by (simp add: attr_def)
  ultimately show ?thesis
    using some read_value_typed [OF v(1)] reject_ctl_Inr [OF v(2)] reject_ctl_opt_Inr [OF c(1)] reject_ctl_opt_Inr [OF c(2)]
    unfolding f by (cases rule; cases attr) simp_all
qed

lemma parse_simple_typed:
  assumes "parse_simple s = Inr (f, s')"
  shows "filter_typed f \<and> filter_depth f = 0"
proof -
  define desc where "desc = takeWhile (\<lambda>c. c \<noteq> CHR ''='' \<and> c \<noteq> CHR '')'') s"
  note step = assms [unfolded parse_simple_def Let_def, folded desc_def]
  have op: "\<not> list_ex (\<lambda>c. c = CHR ''~'' \<or> c = CHR ''<'' \<or> c = CHR ''>'') desc" by (rule notI) (use step in simp)
  from step [unfolded if_not_P [OF op]] obtain d s1 where u: "utf8_slice ''filter: non-utf8 attr'' desc = Inr d"
    and r: "(if CHR '':'' \<in> set d then parse_extensible d s1
             else bindR (read_value s1) (\<lambda>(v, s).
               if v = ''*'' then Inr (Present d, s)
               else if CHR ''*'' \<in> set v then
                 bindR (substring_segments 0 (length (split_char CHR ''*'' v) - 1) (split_char CHR ''*'' v) (None, [], None))
                   (\<lambda>(initial, anys, final). Inr (Substrings d initial anys final, s))
               else Inr (EqualityMatch d v, s))) = Inr (f, s')"
    unfolding bindR_eq_Inr by blast
  from utf8_slice_Inr [OF u] have d: "d = desc" "valid_str d" by simp_all
  have plain: "list_all (\<lambda>c. c \<notin> {CHR ''='', CHR '')'', CHR ''~'', CHR ''<'', CHR ''>''}) d"
    using op unfolding d(1) list_all_iff list_ex_iff unfolding desc_def by (blast dest: set_takeWhileD)
  show ?thesis
  proof (cases "CHR '':'' \<in> set d")
    case True
    with r have "parse_extensible d s1 = Inr (f, s')" by simp
    then show ?thesis using d(2) plain by (rule parse_extensible_typed)
  next
    case False
    with plain d(2) have t: "desc_typed d" unfolding desc_typed_def list_all_iff by blast
    from False r obtain v s2 where v: "read_value s1 = Inr (v, s2)" by (auto simp: bindR_eq_Inr)
    note ok = read_value_typed [OF v]
    consider "f = Present d" | "CHR ''*'' \<notin> set v" "f = EqualityMatch d v"
      | i as l where "f = Substrings d i as l"
        "substring_segments 0 (length (split_char CHR ''*'' v) - 1) (split_char CHR ''*'' v) (None, [], None) = Inr (i, as, l)"
      using False r v by (auto simp: bindR_eq_Inr split: if_split_asm)
    then show ?thesis
    proof cases
      case 3
      have "list_all (\<lambda>s. value_ok s \<and> CHR ''*'' \<notin> set s) (split_char CHR ''*'' v)"
        using ok split_char_parts [of v "CHR ''*''"] by (auto simp: list_all_iff value_ok_def)
      from substring_segments_typed [OF 3(2) this] t 3(1) show ?thesis by simp
    qed (use t ok in simp_all)
  qed
qed

subsection \<open>Filters\<close>

lemma parse_filter_at_cases:
  assumes "parse_filter_at depth s = Inr (f, s')"
  shows "depth \<le> MAX_FILTER_DEPTH \<and> (\<exists>x c s1 s2. s = x # c # s1 \<and>
    ((\<exists>items. items \<noteq> [] \<and> (f = FAnd items \<or> f = FOr items) \<and> parse_items (depth + 1) s1 = Inr (items, s2)) \<or>
     (\<exists>inner. f = FNot inner \<and> parse_filter_at (depth + 1) s1 = Inr (inner, s2)) \<or>
     parse_simple (c # s1) = Inr (f, s2)))"
proof -
  note step = assms [unfolded parse_filter_at.simps [of depth s]]
  from step obtain x c s1 where s: "s = x # c # s1" by (auto split: list.splits if_splits)
  from step s show ?thesis by (auto simp: bindR_eq_Inr split: if_split_asm)
qed

definition within :: "nat \<Rightarrow> ldap_filter \<Rightarrow> bool" where
  "within depth f \<longleftrightarrow> filter_typed f \<and> depth + filter_depth f \<le> MAX_FILTER_DEPTH"

lemma foldr_max_le: "list_all (\<lambda>x. x \<le> n) xs \<Longrightarrow> foldr max xs 0 \<le> (n :: nat)"
  by (induction xs) simp_all

lemma within_group:
  assumes "depth \<le> MAX_FILTER_DEPTH" and "items \<noteq> []" and "list_all (within (depth + 1)) items"
  shows "within depth (FAnd items)" and "within depth (FOr items)"
proof -
  have t: "list_all filter_typed items" using assms(3) by (rule list.pred_mono_strong) (simp add: within_def)
  have d: "list_all (\<lambda>f. depth + 1 + filter_depth f \<le> MAX_FILTER_DEPTH) items"
    using assms(3) by (rule list.pred_mono_strong) (simp add: within_def)
  from d assms(2) have "depth + 1 \<le> MAX_FILTER_DEPTH" by (cases items) auto
  moreover have "foldr max (map filter_depth items) 0 \<le> MAX_FILTER_DEPTH - (depth + 1)"
    using d by (intro foldr_max_le) (auto simp: list_all_iff)
  ultimately show "within depth (FAnd items)" and "within depth (FOr items)" using t assms(2) by (simp_all add: within_def)
qed

lemma parsed_within:
  "(length s < n \<longrightarrow> parse_filter_at depth s = Inr (f, s') \<longrightarrow> within depth f) \<and>
   (length s < n \<longrightarrow> parse_items depth s = Inr (fs, s') \<longrightarrow> list_all (within depth) fs)"
proof (induction n arbitrary: depth s f fs s')
  case (Suc n)
  have filter: "within depth f" if l: "length s < Suc n" and p: "parse_filter_at depth s = Inr (f, s')" for depth s f s'
  proof -
    from parse_filter_at_cases [OF p] obtain x c s1 s2 where d: "depth \<le> MAX_FILTER_DEPTH" and s: "s = x # c # s1"
      and r: "(\<exists>items. items \<noteq> [] \<and> (f = FAnd items \<or> f = FOr items) \<and> parse_items (depth + 1) s1 = Inr (items, s2)) \<or>
        (\<exists>inner. f = FNot inner \<and> parse_filter_at (depth + 1) s1 = Inr (inner, s2)) \<or> parse_simple (c # s1) = Inr (f, s2)"
      by blast
    from l s have l1: "length s1 < n" by simp
    from r consider items where "items \<noteq> []" "f = FAnd items \<or> f = FOr items" "parse_items (depth + 1) s1 = Inr (items, s2)"
      | inner where "f = FNot inner" "parse_filter_at (depth + 1) s1 = Inr (inner, s2)" | "parse_simple (c # s1) = Inr (f, s2)"
      by blast
    then show ?thesis
    proof cases
      case (1 items)
      with Suc.IH [of s1 "depth + 1"] l1 have "list_all (within (depth + 1)) items" by blast
      from within_group [OF d 1(1) this] 1(2) show ?thesis by blast
    next
      case (2 inner)
      with Suc.IH [of s1 "depth + 1"] l1 have "within (depth + 1) inner" by blast
      with 2(1) show ?thesis by (simp add: within_def)
    next
      case 3
      with parse_simple_typed d show ?thesis by (auto simp: within_def)
    qed
  qed
  have items: "list_all (within depth) fs" if l: "length s < Suc n" and p: "parse_items depth s = Inr (fs, s')"
  proof (cases "starts_with ''('' s")
    case True
    with p obtain g s1 gs where g: "parse_filter_at depth s = Inr (g, s1)" "parse_items depth s1 = Inr (gs, s')" "fs = g # gs"
      unfolding parse_items_step [of depth s] by (auto simp: bindR_eq_Inr)
    from parse_shrinks(1) [OF g(1)] l have "length s1 < n" by simp
    with Suc.IH g(2) have "list_all (within depth) gs" by blast
    with filter [OF l g(1)] g(3) show ?thesis by simp
  next
    case False
    with p show ?thesis unfolding parse_items_step [of depth s] by simp
  qed
  from filter items show ?case by blast
qed simp



end
