(* ===== verification/Qpack.thy ===== *)
theory Qpack
  imports Hpack
begin

text \<open>
  QPACK (\<open>mod qpack\<close> of \<open>src/src/http3.rs\<close>, RFC 9204): the static table, the dynamic table a peer fills over its encoder
  stream, the decoder of encoder instructions and of field sections, and the literal-only encoder of requests.
  Counts and indices are natural numbers; where the code checks an addition on \<open>u64\<close> or \<open>usize\<close> the check is written
  out, and the insert count cannot reach \<open>2^64\<close> before that many instructions have been read.
  The Huffman code is the same as that of HPACK, and the integer codec the same up to its interface and messages.
\<close>

subsection \<open>The static table\<close>

definition QSTATIC_TABLE :: "field list" where
  "QSTATIC_TABLE = [
    ('':authority'', ''''), ('':path'', ''/''), (''age'', ''0''), (''content-disposition'', ''''),
    (''content-length'', ''0''), (''cookie'', ''''), (''date'', ''''), (''etag'', ''''), (''if-modified-since'', ''''),
    (''if-none-match'', ''''), (''last-modified'', ''''), (''link'', ''''), (''location'', ''''), (''referer'', ''''),
    (''set-cookie'', ''''), ('':method'', ''CONNECT''), ('':method'', ''DELETE''), ('':method'', ''GET''),
    ('':method'', ''HEAD''), ('':method'', ''OPTIONS''), ('':method'', ''POST''), ('':method'', ''PUT''),
    ('':scheme'', ''http''), ('':scheme'', ''https''), ('':status'', ''103''), ('':status'', ''200''),
    ('':status'', ''304''), ('':status'', ''404''), ('':status'', ''503''), (''accept'', ''*/*''),
    (''accept'', ''application/dns-message''), (''accept-encoding'', ''gzip, deflate, br''), (''accept-ranges'', ''bytes''),
    (''access-control-allow-headers'', ''cache-control''), (''access-control-allow-headers'', ''content-type''),
    (''access-control-allow-origin'', ''*''), (''cache-control'', ''max-age=0''), (''cache-control'', ''max-age=2592000''),
    (''cache-control'', ''max-age=604800''), (''cache-control'', ''no-cache''), (''cache-control'', ''no-store''),
    (''cache-control'', ''public, max-age=31536000''), (''content-encoding'', ''br''), (''content-encoding'', ''gzip''),
    (''content-type'', ''application/dns-message''), (''content-type'', ''application/javascript''),
    (''content-type'', ''application/json''), (''content-type'', ''application/x-www-form-urlencoded''),
    (''content-type'', ''image/gif''), (''content-type'', ''image/jpeg''), (''content-type'', ''image/png''),
    (''content-type'', ''text/css''), (''content-type'', ''text/html; charset=utf-8''), (''content-type'', ''text/plain''),
    (''content-type'', ''text/plain;charset=utf-8''), (''range'', ''bytes=0-''),
    (''strict-transport-security'', ''max-age=31536000''),
    (''strict-transport-security'', ''max-age=31536000; includesubdomains''),
    (''strict-transport-security'', ''max-age=31536000; includesubdomains; preload''), (''vary'', ''accept-encoding''),
    (''vary'', ''origin''), (''x-content-type-options'', ''nosniff''), (''x-xss-protection'', ''1; mode=block''),
    ('':status'', ''100''), ('':status'', ''204''), ('':status'', ''206''), ('':status'', ''302''), ('':status'', ''400''),
    ('':status'', ''403''), ('':status'', ''421''), ('':status'', ''425''), ('':status'', ''500''),
    (''accept-language'', ''''), (''access-control-allow-credentials'', ''FALSE''),
    (''access-control-allow-credentials'', ''TRUE''), (''access-control-allow-headers'', ''*''),
    (''access-control-allow-methods'', ''get''), (''access-control-allow-methods'', ''get, post, options''),
    (''access-control-allow-methods'', ''options''), (''access-control-expose-headers'', ''content-length''),
    (''access-control-request-headers'', ''content-type''), (''access-control-request-method'', ''get''),
    (''access-control-request-method'', ''post''), (''alt-svc'', ''clear''), (''authorization'', ''''),
    (''content-security-policy'', ''script-src 'none'; object-src 'none'; base-uri 'none'' @ [CHR 0x27]),
    (''early-data'', ''1''), (''expect-ct'', ''''), (''forwarded'', ''''), (''if-range'', ''''), (''origin'', ''''),
    (''purpose'', ''prefetch''), (''server'', ''''), (''timing-allow-origin'', ''*''),
    (''upgrade-insecure-requests'', ''1''), (''user-agent'', ''''), (''x-forwarded-for'', ''''),
    (''x-frame-options'', ''deny''), (''x-frame-options'', ''sameorigin'')]"

definition find_indexed :: "string \<Rightarrow> string \<Rightarrow> nat option" where
  "find_indexed name val = position (\<lambda>(n, v). n = name \<and> v = val) QSTATIC_TABLE"

definition find_name :: "string \<Rightarrow> nat option" where
  "find_name name = position (\<lambda>(n, _). n = name) QSTATIC_TABLE"

text \<open>\<open>STATIC_TABLE.get(idx as usize)\<close> with the error of the caller.\<close>

definition static_entry :: "string \<Rightarrow> u64 \<Rightarrow> field result" where
  "static_entry message idx =
     (if unat idx < length QSTATIC_TABLE then Inr (QSTATIC_TABLE ! unat idx) else Inl (BadResponse message))"

subsection \<open>Integers and strings\<close>

definition prefix_mask :: "nat \<Rightarrow> byte" where
  "prefix_mask prefix_bits = ucast (push_bit prefix_bits 1 - 1 :: 16 word)"

text \<open>The loop over the bytes after the first; \<open>None\<close> when they run out.\<close>

fun qint_loop :: "bytes \<Rightarrow> nat \<Rightarrow> nat \<Rightarrow> u64 \<Rightarrow> (u64 \<times> nat) option result" where
  "qint_loop [] used shift v = Inr None"
| "qint_loop (b # bs) used shift v =
     (case checked_add64 v (push_bit shift (ucast (b AND 0x7F))) of
        None \<Rightarrow> Inl (BadResponse ''qpack int overflow'')
      | Some v \<Rightarrow>
          if b AND 0x80 = 0 then Inr (Some (v, Suc used))
          else if shift + 7 > 63 then Inl (BadResponse ''qpack int too long'')
          else qint_loop bs (Suc used) (shift + 7) v)"

definition decode_int_partial :: "byte \<Rightarrow> nat \<Rightarrow> bytes \<Rightarrow> (u64 \<times> nat) option result" where
  "decode_int_partial first prefix_bits rest =
     (let prefix = ucast (first AND prefix_mask prefix_bits); max_prefix = ucast (prefix_mask prefix_bits)
      in if prefix < max_prefix then Inr (Some (prefix, 0)) else qint_loop rest 0 0 max_prefix)"

definition qdecode_int :: "byte \<Rightarrow> nat \<Rightarrow> bytes \<Rightarrow> (u64 \<times> nat) result" where
  "qdecode_int first prefix_bits rest =
     bindR (decode_int_partial first prefix_bits rest) (\<lambda>r.
       case r of None \<Rightarrow> Inl (BadResponse ''qpack int truncated'') | Some x \<Rightarrow> Inr x)"

definition qencode_int :: "u64 \<Rightarrow> nat \<Rightarrow> byte \<Rightarrow> bytes" where
  "qencode_int v prefix_bits prefix_high_bits =
     (let max_prefix = push_bit prefix_bits 1 - 1
      in if v < max_prefix then [prefix_high_bits OR ucast v]
         else (prefix_high_bits OR ucast max_prefix) # encode_int_loop (v - max_prefix))"

text \<open>\<open>huffman_decode\<close> is the function of \<open>http2.rs\<close> with messages that begin with another letter.\<close>

definition qhuffman_decode :: "bytes \<Rightarrow> bytes result" where
  "qhuffman_decode input =
     (case huffman_decode input of
        Inl e \<Rightarrow> Inl (case e of BadResponse m \<Rightarrow> BadResponse (CHR ''q'' # tl m) | _ \<Rightarrow> e)
      | Inr bs \<Rightarrow> Inr bs)"

definition utf8_or :: "string \<Rightarrow> bytes \<Rightarrow> string result" where
  "utf8_or message bs = (case from_utf8 bs of None \<Rightarrow> Inl (BadResponse message) | Some s \<Rightarrow> Inr s)"

definition decode_string_bytes :: "bytes \<Rightarrow> bool \<Rightarrow> string result" where
  "decode_string_bytes bs huffman =
     (if huffman then bindR (qhuffman_decode bs) (utf8_or ''qpack: {what} not utf-8'')
      else utf8_or ''qpack: {what} not utf-8'' bs)"

definition try_decode_literal_string_7bit :: "bytes \<Rightarrow> (string \<times> nat) option result" where
  "try_decode_literal_string_7bit buf =
     (case buf of
        [] \<Rightarrow> Inr None
      | b # rest \<Rightarrow>
          bindR (decode_int_partial b 7 rest) (\<lambda>r.
            case r of
              None \<Rightarrow> Inr None
            | Some (slen, used) \<Rightarrow>
                let start = 1 + used
                in case checked_add_usize start (unat slen) of
                     None \<Rightarrow> Inl (BadResponse ''qpack: oversized literal string length'')
                   | Some stop \<Rightarrow>
                       if stop > length buf then Inr None
                       else bindR (decode_string_bytes (take (stop - start) (drop start buf)) (b AND 0x80 \<noteq> 0)) (\<lambda>s.
                              Inr (Some (s, stop)))))"

definition decode_literal_string_7bit :: "bytes \<Rightarrow> (string \<times> nat) result" where
  "decode_literal_string_7bit buf =
     (case buf of
        [] \<Rightarrow> Inl (BadResponse ''qpack: missing literal string'')
      | b # rest \<Rightarrow>
          bindR (qdecode_int b 7 rest) (\<lambda>(slen, used).
            let start = 1 + used
            in case checked_add_usize start (unat slen) of
                 None \<Rightarrow> Inl (BadResponse ''qpack: truncated/oversized literal value'')
               | Some stop \<Rightarrow>
                   if stop > length buf then Inl (BadResponse ''qpack: truncated/oversized literal value'')
                   else let raw = take (stop - start) (drop start buf)
                     in bindR (if b AND 0x80 \<noteq> 0 then bindR (qhuffman_decode raw) (utf8_or ''qpack: literal value not utf-8'')
                               else utf8_or ''qpack: literal value not utf-8'' raw) (\<lambda>s. Inr (s, stop))))"

subsection \<open>The dynamic table\<close>

abbreviation (input) MAX_DYNAMIC_CAPACITY :: nat where "MAX_DYNAMIC_CAPACITY \<equiv> 4096"
abbreviation (input) ENTRY_OVERHEAD :: nat where "ENTRY_OVERHEAD \<equiv> 32"

record dynamic_table =
  dt_entries :: "field list"
  dt_size :: nat
  dt_capacity :: nat
  dt_insert_count :: nat
  dt_dropped :: nat

definition dt_new :: dynamic_table where
  "dt_new = \<lparr>dt_entries = [], dt_size = 0, dt_capacity = 0, dt_insert_count = 0, dt_dropped = 0\<rparr>"

text \<open>The body of the loop of \<open>evict_to_fit\<close>: \<open>pop_front\<close> and its accounts.\<close>

definition dt_pop :: "dynamic_table \<Rightarrow> dynamic_table" where
  "dt_pop t =
     (case dt_entries t of
        [] \<Rightarrow> t
      | (n, v) # es \<Rightarrow>
          t\<lparr>dt_entries := es, dt_size := dt_size t - (length n + length v + ENTRY_OVERHEAD), dt_dropped := dt_dropped t + 1\<rparr>)"

function evict_to_fit :: "nat \<Rightarrow> dynamic_table \<Rightarrow> dynamic_table" where
  "evict_to_fit incoming t =
     (if dt_size t + incoming > dt_capacity t \<and> dt_entries t \<noteq> [] then evict_to_fit incoming (dt_pop t) else t)"
  by pat_completeness auto
termination
  by (relation "measure (\<lambda>(incoming, t). length (dt_entries t))") (auto simp: dt_pop_def split: list.splits prod.splits)

declare evict_to_fit.simps [simp del]

definition set_capacity :: "u64 \<Rightarrow> dynamic_table \<Rightarrow> unit result \<times> dynamic_table" where
  "set_capacity cap t =
     (if unat cap > MAX_DYNAMIC_CAPACITY
      then (Inl (BadResponse ''qpack: encoder set capacity {cap} above advertised max {MAX_DYNAMIC_CAPACITY}''), t)
      else (Inr (), evict_to_fit 0 (t\<lparr>dt_capacity := unat cap\<rparr>)))"

definition dt_insert :: "string \<Rightarrow> string \<Rightarrow> dynamic_table \<Rightarrow> unit result \<times> dynamic_table" where
  "dt_insert name v t =
     (let entry_size = length name + length v + ENTRY_OVERHEAD
      in if entry_size > dt_capacity t
         then (Inl (BadResponse ''qpack: dynamic entry size {entry_size} exceeds capacity {}''), t)
         else let t = evict_to_fit entry_size t
           in (Inr (), t\<lparr>dt_size := dt_size t + entry_size, dt_entries := dt_entries t @ [(name, v)],
                 dt_insert_count := dt_insert_count t + 1\<rparr>))"

definition get_absolute :: "nat \<Rightarrow> dynamic_table \<Rightarrow> field result" where
  "get_absolute ab t =
     (if ab < dt_dropped t \<or> ab \<ge> dt_insert_count t
      then Inl (BadResponse ''qpack: dynamic absolute index {abs} not live (dropped {}, count {})'')
      else let pos = ab - dt_dropped t
        in if pos < length (dt_entries t) then Inr (dt_entries t ! pos)
           else Inl (BadResponse ''qpack: dynamic index out of range''))"

subsection \<open>The encoder stream\<close>

definition relative_to_absolute_insert :: "nat \<Rightarrow> u64 \<Rightarrow> nat result" where
  "relative_to_absolute_insert insert_count rel =
     (if insert_count = 0 \<or> insert_count - 1 < unat rel
      then Inl (BadResponse ''qpack: relative index {rel} out of range (insert count {insert_count})'')
      else Inr (insert_count - 1 - unat rel))"

text \<open>The second half of both insert instructions: the value, then the insertion.\<close>

definition insert_with_value :: "string \<Rightarrow> nat \<Rightarrow> bytes \<Rightarrow> dynamic_table \<Rightarrow> nat option result \<times> dynamic_table" where
  "insert_with_value name p buf t =
     (case try_decode_literal_string_7bit (drop p buf) of
        Inl e \<Rightarrow> (Inl e, t)
      | Inr None \<Rightarrow> (Inr None, t)
      | Inr (Some (v, vlen)) \<Rightarrow> bindS (dt_insert name v t) (\<lambda>_ t. (Inr (Some (p + vlen)), t)))"

definition decode_encoder_instruction :: "bytes \<Rightarrow> dynamic_table \<Rightarrow> nat option result \<times> dynamic_table" where
  "decode_encoder_instruction buf t =
     (case buf of
        [] \<Rightarrow> (Inr None, t)
      | b0 # rest \<Rightarrow>
          if b0 AND 0x80 \<noteq> 0 then
            bindS (qdecode_int b0 6 rest, t) (\<lambda>(idx, used) t.
              bindS
                (if b0 AND 0x40 \<noteq> 0
                 then bindR (static_entry ''qpack: encoder static name index {idx} out of range'' idx) (\<lambda>e. Inr (fst e))
                 else bindR (relative_to_absolute_insert (dt_insert_count t) idx) (\<lambda>ab.
                        bindR (get_absolute ab t) (\<lambda>e. Inr (fst e))), t)
                (\<lambda>name t. insert_with_value name (1 + used) buf t))
          else if b0 AND 0x40 \<noteq> 0 then
            bindS (qdecode_int b0 5 rest, t) (\<lambda>(nlen, used) t.
              let p = 1 + used
              in case checked_add_usize p (unat nlen) of
                   None \<Rightarrow> (Inl (BadResponse ''qpack: oversized encoder literal name length''), t)
                 | Some nend \<Rightarrow>
                     if nend > length buf then (Inr None, t)
                     else bindS (decode_string_bytes (take (nend - p) (drop p buf)) (b0 AND 0x20 \<noteq> 0), t) (\<lambda>name t.
                            insert_with_value name nend buf t))
          else if b0 AND 0x20 \<noteq> 0 then
            bindS (qdecode_int b0 5 rest, t) (\<lambda>(cap, used) t.
              bindS (set_capacity cap t) (\<lambda>_ t. (Inr (Some (1 + used)), t)))
          else
            bindS (qdecode_int b0 5 rest, t) (\<lambda>(idx, used) t.
              bindS (bindR (relative_to_absolute_insert (dt_insert_count t) idx) (\<lambda>ab. get_absolute ab t), t) (\<lambda>(n, v) t.
                bindS (dt_insert n v t) (\<lambda>_ t. (Inr (Some (1 + used)), t)))))"

lemma qint_loop_used: "qint_loop bs used shift v = Inr (Some (w, n)) \<Longrightarrow> used < n \<and> n \<le> used + length bs"
proof (induction bs used shift v rule: qint_loop.induct)
  case (2 b bs used shift v)
  then show ?case by (fastforce split: option.splits if_splits)
qed simp

lemma decode_int_partial_used: "decode_int_partial b p rest = Inr (Some (v, n)) \<Longrightarrow> n \<le> length rest"
  by (auto simp: decode_int_partial_def Let_def split: if_splits dest!: qint_loop_used)

lemma qdecode_int_used: "qdecode_int b p rest = Inr (v, n) \<Longrightarrow> n \<le> length rest"
  by (auto simp: qdecode_int_def bindR_eq_Inr split: option.splits dest!: decode_int_partial_used)

lemma try_literal_used:
  assumes "try_decode_literal_string_7bit buf = Inr (Some (s, n))"
  shows "0 < n \<and> n \<le> length buf"
proof (cases buf)
  case (Cons b rest)
  show ?thesis
  proof (cases "decode_int_partial b 7 rest")
    case (Inr r)
    with assms Cons show ?thesis
      by (cases r) (auto simp: try_decode_literal_string_7bit_def Let_def checked_add_usize_def bindR_eq_Inr split: if_split_asm)
  qed (use assms Cons in \<open>simp add: try_decode_literal_string_7bit_def\<close>)
qed (use assms in \<open>simp add: try_decode_literal_string_7bit_def\<close>)

lemma literal_used: "decode_literal_string_7bit buf = Inr (s, n) \<Longrightarrow> 0 < n \<and> n \<le> length buf"
  by (auto simp: decode_literal_string_7bit_def bindR_eq_Inr Let_def checked_add_usize_def
      split: list.split_asm option.split_asm prod.split_asm if_split_asm)

lemma insert_with_value_used:
  "insert_with_value name p buf t = (Inr (Some n), t') \<Longrightarrow> p \<le> length buf \<Longrightarrow> p < n \<and> n \<le> length buf"
  by (auto simp: insert_with_value_def bindS_eq_Inr split: sum.splits option.splits dest!: try_literal_used)

lemma encoder_instruction_used:
  "decode_encoder_instruction buf t = (Inr (Some n), t') \<Longrightarrow> 0 < n \<and> n \<le> length buf"
  by (auto simp: decode_encoder_instruction_def bindS_eq_Inr Let_def checked_add_usize_def
      split: list.splits option.splits if_split_asm dest!: qdecode_int_used insert_with_value_used)

function apply_encoder_loop :: "bytes \<Rightarrow> nat \<Rightarrow> dynamic_table \<Rightarrow> nat result \<times> dynamic_table" where
  "apply_encoder_loop buf p t =
     (if p < length buf then
        (case decode_encoder_instruction (drop p buf) t of
           (Inl e, t) \<Rightarrow> (Inl e, t)
         | (Inr None, t) \<Rightarrow> (Inr p, t)
         | (Inr (Some used), t) \<Rightarrow> apply_encoder_loop buf (p + used) t)
      else (Inr p, t))"
  by pat_completeness auto
termination by (relation "measure (\<lambda>(buf, p, t). length buf - p)") (auto dest!: encoder_instruction_used [OF sym])

declare apply_encoder_loop.simps [simp del]

definition apply_encoder_instructions :: "bytes \<Rightarrow> dynamic_table \<Rightarrow> nat result \<times> dynamic_table" where
  "apply_encoder_instructions buf t = apply_encoder_loop buf 0 t"

subsection \<open>Field sections\<close>

definition max_entries :: nat where
  "max_entries = MAX_DYNAMIC_CAPACITY div ENTRY_OVERHEAD"

definition decode_required_insert_count :: "u64 \<Rightarrow> nat \<Rightarrow> nat result" where
  "decode_required_insert_count encoded total_inserts =
     (if encoded = 0 then Inr 0
      else let full_range = 2 * max_entries
        in if unat encoded > full_range
           then Inl (BadResponse ''qpack: encoded Required Insert Count {encoded} exceeds 2*MaxEntries {full_range}'')
           else let max_value = total_inserts + max_entries; max_wrapped = max_value div full_range * full_range;
                    ric = max_wrapped + unat encoded - 1
             in if ric > max_value \<and> ric \<le> full_range
                then Inl (BadResponse ''qpack: Required Insert Count wrap underflow'')
                else let ric = (if ric > max_value then ric - full_range else ric)
                  in if ric = 0 then Inl (BadResponse ''qpack: reconstructed Required Insert Count is zero'') else Inr ric)"

definition block_references_dynamic_table :: "bytes \<Rightarrow> bool" where
  "block_references_dynamic_table buf =
     (case buf of [] \<Rightarrow> False | b # rest \<Rightarrow> (case qdecode_int b 8 rest of Inr (enc_ric, _) \<Rightarrow> enc_ric \<noteq> 0 | Inl _ \<Rightarrow> False))"

definition decode_base :: "byte \<Rightarrow> bytes \<Rightarrow> nat \<Rightarrow> (nat \<times> nat) result" where
  "decode_base first rest ric =
     bindR (qdecode_int first 7 rest) (\<lambda>(delta_base, used).
       if first AND 0x80 \<noteq> 0 then
         (if ric < unat delta_base \<or> ric - unat delta_base < 1 then Inl (BadResponse ''qpack: negative Base'')
          else Inr (ric - unat delta_base - 1, used))
       else if ric + unat delta_base < 2 ^ 64 then Inr (ric + unat delta_base, used)
       else Inl (BadResponse ''qpack: Base overflow''))"

definition field_relative_to_absolute :: "nat \<Rightarrow> u64 \<Rightarrow> nat result" where
  "field_relative_to_absolute base rel =
     (if base < 1 \<or> base - 1 < unat rel then Inl (BadResponse ''qpack: field relative index {rel} out of range (Base {base})'')
      else Inr (base - 1 - unat rel))"

definition post_base_to_absolute :: "nat \<Rightarrow> u64 \<Rightarrow> nat result" where
  "post_base_to_absolute base idx =
     (if base + unat idx < 2 ^ 64 then Inr (base + unat idx) else Inl (BadResponse ''qpack: post-base index overflow''))"

text \<open>A name followed by its literal value.\<close>

definition with_literal_value :: "string \<Rightarrow> nat \<Rightarrow> bytes \<Rightarrow> (field \<times> nat) result" where
  "with_literal_value name p buf =
     bindR (decode_literal_string_7bit (drop p buf)) (\<lambda>(v, n). Inr ((name, v), p + n))"

text \<open>The body of the loop of \<open>decode_field_section_with\<close>: one field line at the start of \<open>buf\<close> and its length.\<close>

definition decode_field_line :: "dynamic_table \<Rightarrow> nat \<Rightarrow> bytes \<Rightarrow> (field \<times> nat) result" where
  "decode_field_line t base buf =
     (let b = hd buf; rest = tl buf
      in if b AND 0x80 \<noteq> 0 then
           bindR (qdecode_int b 6 rest) (\<lambda>(idx, used).
             bindR (if b AND 0x40 \<noteq> 0 then static_entry ''qpack: static index out of range: {idx}'' idx
                    else bindR (field_relative_to_absolute base idx) (\<lambda>ab. get_absolute ab t)) (\<lambda>entry.
               Inr (entry, 1 + used)))
         else if b AND 0x40 \<noteq> 0 then
           bindR (qdecode_int b 4 rest) (\<lambda>(idx, used).
             bindR (if b AND 0x10 \<noteq> 0 then static_entry ''qpack: static name index out of range: {idx}'' idx
                    else bindR (field_relative_to_absolute base idx) (\<lambda>ab. get_absolute ab t)) (\<lambda>entry.
               with_literal_value (fst entry) (1 + used) buf))
         else if b AND 0x20 \<noteq> 0 then
           bindR (qdecode_int b 3 rest) (\<lambda>(nlen, used).
             let p = 1 + used
             in case checked_add_usize p (unat nlen) of
                  None \<Rightarrow> Inl (BadResponse ''qpack: truncated/oversized literal name'')
                | Some nend \<Rightarrow>
                    if nend > length buf then Inl (BadResponse ''qpack: truncated/oversized literal name'')
                    else bindR (decode_string_bytes (take (nend - p) (drop p buf)) (b AND 0x08 \<noteq> 0)) (\<lambda>name.
                           with_literal_value name nend buf))
         else if b AND 0x10 \<noteq> 0 then
           bindR (qdecode_int b 4 rest) (\<lambda>(idx, used).
             bindR (post_base_to_absolute base idx) (\<lambda>ab.
               bindR (get_absolute ab t) (\<lambda>entry. Inr (entry, 1 + used))))
         else
           bindR (qdecode_int b 3 rest) (\<lambda>(idx, used).
             bindR (post_base_to_absolute base idx) (\<lambda>ab.
               bindR (get_absolute ab t) (\<lambda>entry. with_literal_value (fst entry) (1 + used) buf))))"

lemma with_literal_value_used: "with_literal_value name p buf = Inr (e, n) \<Longrightarrow> p < n"
  by (auto simp: with_literal_value_def bindR_eq_Inr dest!: literal_used)

lemma field_line_used: "decode_field_line t base buf = Inr (e, n) \<Longrightarrow> 0 < n"
  by (auto simp: decode_field_line_def bindR_eq_Inr Let_def checked_add_usize_def
      split: option.splits if_split_asm dest!: with_literal_value_used)

function field_lines :: "dynamic_table \<Rightarrow> nat \<Rightarrow> bytes \<Rightarrow> nat \<Rightarrow> nat \<Rightarrow> field list \<Rightarrow> field list result" where
  "field_lines t base buf p list_size out =
     (if p < length buf then
        (case decode_field_line t base (drop p buf) of
           Inl e \<Rightarrow> Inl e
         | Inr (entry, used) \<Rightarrow>
             let list_size = saturating_add_usize (saturating_add_usize
                   (saturating_add_usize list_size (length (fst entry))) (length (snd entry))) 32
             in if list_size > MAX_DECODED_HEADER_LIST then Inl (BadResponse ''qpack: decoded header list exceeds limit'')
                else field_lines t base buf (p + used) list_size (out @ [entry]))
      else Inr out)"
  by pat_completeness auto
termination by (relation "measure (\<lambda>(t, base, buf, p, list_size, out). length buf - p)") (auto dest!: field_line_used)

declare field_lines.simps [simp del]

definition decode_field_section_with :: "bytes \<Rightarrow> dynamic_table \<Rightarrow> field list result" where
  "decode_field_section_with buf t =
     (case buf of
        [] \<Rightarrow> Inl (BadResponse ''qpack: empty field section'')
      | b # rest \<Rightarrow>
          bindR (qdecode_int b 8 rest) (\<lambda>(enc_ric, n1).
            bindR (decode_required_insert_count enc_ric (dt_insert_count t)) (\<lambda>ric.
              if ric > dt_insert_count t
              then Inl (BadResponse ''qpack: Required Insert Count {ric} exceeds available inserts {}'')
              else let p = 1 + n1
                in if p \<ge> length buf then Inl (BadResponse ''qpack: truncated field-section prefix'')
                   else bindR (decode_base (buf ! p) (drop (p + 1) buf) ric) (\<lambda>(base, n2).
                          field_lines t base buf (p + 1 + n2) 0 []))))"

subsection \<open>The encoder of requests\<close>

definition encode_string_7bit :: "string \<Rightarrow> bytes" where
  "encode_string_7bit s = qencode_int (of_nat (length (bytes_of s))) 7 0x00 @ bytes_of s"

definition encode_name_3bit :: "string \<Rightarrow> bytes" where
  "encode_name_3bit s = qencode_int (of_nat (length (bytes_of s))) 3 0x20 @ bytes_of s"

definition encode_field :: "string \<Rightarrow> string \<Rightarrow> bytes" where
  "encode_field name v =
     (case find_indexed name v of
        Some idx \<Rightarrow> qencode_int (of_nat idx) 6 0xC0
      | None \<Rightarrow>
          (case find_name name of
             Some idx \<Rightarrow> qencode_int (of_nat idx) 4 0x50 @ encode_string_7bit v
           | None \<Rightarrow> encode_name_3bit name @ encode_string_7bit v))"

definition encode_field_section :: "field list \<Rightarrow> bytes" where
  "encode_field_section fs = qencode_int 0 8 0x00 @ qencode_int 0 7 0x00 @ concat (map (\<lambda>(n, v). encode_field n v) fs)"

end
