(* ===== verification/Qpack_Wire.thy ===== *)
theory Qpack_Wire
  imports Qpack
begin

text \<open>
  QPACK against a peer that follows RFC 9204: its dynamic table, its encoder instructions and its field sections, with any
  choice of representation and Huffman coding, are read by the decoder of \<open>src/src/http3.rs\<close> as they were meant, and the
  sections the client writes are among them.
\<close>

subsection \<open>Integers\<close>

lemma prefix_mask_eq: "p \<le> 8 \<Longrightarrow> prefix_mask p = mask p"
proof -
  have "push_bit p 1 - 1 = (mask p :: 16 word)" by (simp add: mask_eq_exp_minus_1)
  then show "p \<le> 8 \<Longrightarrow> prefix_mask p = mask p"
    unfolding prefix_mask_def by (simp only:) (rule bit_word_eqI, auto simp: bit_simps)
qed

lemma prefix_of_byte: "p \<le> 8 \<Longrightarrow> (ucast (b AND prefix_mask p) :: u64) = ucast b AND max_prefix p"
  and mask_of_byte: "p \<le> 8 \<Longrightarrow> (ucast (prefix_mask p) :: u64) = max_prefix p"
  by (auto simp: prefix_mask_eq max_prefix_mask bit_simps intro!: bit_word_eqI)

lemma qint_loop_of_hpack:
  "decode_int_loop bs (Suc used) shift a = Inr (v, Suc n) \<Longrightarrow> qint_loop bs used shift a = Inr (Some (v, n))"
proof (induction bs arbitrary: used shift a)
  case (Cons b bs)
  then show ?case by (auto split: option.splits if_splits)
qed simp

lemma qdecode_int_of_hpack:
  assumes "decode_int p (c # rest) = Inr (v, Suc n)" and "p \<le> 8"
  shows "decode_int_partial c p rest = Inr (Some (v, n))" and "qdecode_int c p rest = Inr (v, n)"
proof -
  show "decode_int_partial c p rest = Inr (Some (v, n))"
    using assms(1) qint_loop_of_hpack [of rest 0 0]
    by (auto simp: decode_int_def decode_int_partial_def Let_def prefix_of_byte mask_of_byte assms(2) split: if_splits)
      (metis antisym_conv3 order_less_le word_and_le1)+
  then show "qdecode_int c p rest = Inr (v, n)" by (simp add: qdecode_int_def)
qed

lemma qencode_int_hpack: "encode_int v p = b # bs \<Longrightarrow> qencode_int v p hi = (hi OR b) # bs"
  by (auto simp: qencode_int_def encode_int_def max_prefix_def Let_def split: if_splits)

text \<open>Everything about an encoded integer: it is read back, and the bits above its prefix are the given ones.\<close>

lemma qint_read:
  assumes "0 < p" and "p \<le> 8" and "hi AND mask p = 0"
  shows "\<exists>b bs. qencode_int v p hi = b # bs \<and> (\<forall>rest. qdecode_int b p (bs @ rest) = Inr (v, length bs)) \<and>
    (\<forall>rest. decode_int_partial b p (bs @ rest) = Inr (Some (v, length bs))) \<and>
    (\<forall>k. p \<le> k \<longrightarrow> k < 8 \<longrightarrow> bit b k = bit hi k) \<and> length bs \<le> 10"
proof -
  have hi: "hi AND ucast (max_prefix p) = 0"
  proof -
    have "(ucast (max_prefix p) :: byte) = mask p" using assms(2) by (intro bit_word_eqI) (auto simp: max_prefix_mask bit_simps)
    with assms(3) show ?thesis by simp
  qed
  obtain b bs where e: "encode_int v p = b # bs"
    by (cases "encode_int v p") (auto simp: encode_int_def split: if_splits)
  have d: "decode_int p ((hi OR b) # bs @ rest) = Inr (v, Suc (length bs))" for rest
    using decode_int_flagged [OF assms(2,1) hi, of v rest] e by auto
  have "\<not> bit b k" if "p \<le> k" "k < 8" for k
  proof -
    have "b = ucast (if v < max_prefix p then v else max_prefix p)" using e by (auto simp: encode_int_def split: if_splits)
    moreover have "\<not> bit v k" if "v < max_prefix p"
    proof -
      have "unat v < 2 ^ p" using that max_prefix_unat [OF assms(2)] by (simp add: word_less_nat_alt)
      with \<open>p \<le> k\<close> show ?thesis using bit_take_bit_iff [of p "unat v" k] by (simp add: take_bit_nat_eq_self bit_unsigned_iff)
    qed
    ultimately show ?thesis using \<open>p \<le> k\<close> by (auto simp: bit_simps max_prefix_mask)
  qed
  then have "bit (hi OR b) k = bit hi k" if "p \<le> k" "k < 8" for k using that by (simp add: bit_or_iff)
  moreover have "length bs \<le> 10" using length_encode_int [of v p] e by simp
  ultimately show ?thesis
    using qencode_int_hpack [OF e, of hi] qdecode_int_of_hpack [OF d assms(2)] by blast
qed

lemma flag_bits:
  "(b :: byte) AND 0x80 \<noteq> 0 \<longleftrightarrow> bit b 7" "(b :: byte) AND 0x40 \<noteq> 0 \<longleftrightarrow> bit b 6" "(b :: byte) AND 0x20 \<noteq> 0 \<longleftrightarrow> bit b 5"
  "(b :: byte) AND 0x10 \<noteq> 0 \<longleftrightarrow> bit b 4" "(b :: byte) AND 0x08 \<noteq> 0 \<longleftrightarrow> bit b 3"
  using and_exp_eq_0_iff_not_bit [of b 7] and_exp_eq_0_iff_not_bit [of b 6] and_exp_eq_0_iff_not_bit [of b 5]
    and_exp_eq_0_iff_not_bit [of b 4] and_exp_eq_0_iff_not_bit [of b 3] by simp_all

subsection \<open>Strings\<close>

definition raw_string :: "bool \<Rightarrow> string \<Rightarrow> bytes" where
  "raw_string h s = (if h then huffman_encode (bytes_of s) else bytes_of s)"

definition put_string :: "nat \<Rightarrow> byte \<Rightarrow> bool \<Rightarrow> string \<Rightarrow> bytes" where
  "put_string p hi h s = qencode_int (of_nat (length (raw_string h s))) p hi @ raw_string h s"

abbreviation put_value :: "bool \<Rightarrow> string \<Rightarrow> bytes" where
  "put_value h s \<equiv> put_string 7 (if h then 0x80 else 0) h s"

definition string_ok :: "bool \<Rightarrow> string \<Rightarrow> bool" where
  "string_ok h s \<longleftrightarrow> valid_str s \<and> length (raw_string h s) < 2 ^ 63"

lemma from_utf8_valid: "valid_str s \<Longrightarrow> utf8_or m (bytes_of s) = Inr s"
  by (simp add: utf8_or_def from_utf8_bytes_of)

lemma raw_string_read: "string_ok h s \<Longrightarrow> decode_string_bytes (raw_string h s) h = Inr s"
  by (simp add: decode_string_bytes_def raw_string_def qhuffman_decode_def huffman_decode_encode from_utf8_valid string_ok_def)

lemma raw_string_length: "string_ok h s \<Longrightarrow> unat (of_nat (length (raw_string h s)) :: u64) = length (raw_string h s)"
  by (simp add: string_ok_def unat_of_nat)

lemma value_read:
  assumes "string_ok h s"
  shows "decode_literal_string_7bit (put_value h s @ rest) = Inr (s, length (put_value h s))"
    and "try_decode_literal_string_7bit (put_value h s @ rest) = Inr (Some (s, length (put_value h s)))"
proof -
  let ?hi = "if h then 0x80 else 0 :: byte" and ?n = "of_nat (length (raw_string h s)) :: u64"
  have m: "?hi AND mask 7 = 0" by (simp add: mask_numeral)
  obtain b bs where b: "qencode_int ?n 7 ?hi = b # bs" "\<And>rest. qdecode_int b 7 (bs @ rest) = Inr (?n, length bs)"
      "\<And>rest. decode_int_partial b 7 (bs @ rest) = Inr (Some (?n, length bs))" "\<And>k. 7 \<le> k \<Longrightarrow> k < 8 \<Longrightarrow> bit b k = bit ?hi k" "length bs \<le> 10"
    using qint_read [of 7 ?hi ?n, OF _ _ m] by auto
  have f: "b AND 0x80 \<noteq> 0 \<longleftrightarrow> h" using b(4) [of 7] by (simp add: flag_bits)
  have l: "1 + length bs + length (raw_string h s) < 2 ^ 64" using assms b(5) by (simp add: string_ok_def)
  have u: "(if h then bindR (qhuffman_decode (raw_string h s)) (utf8_or m) else utf8_or m (raw_string h s)) = Inr s" for m
    using assms by (simp add: raw_string_def qhuffman_decode_def huffman_decode_encode from_utf8_valid string_ok_def)
  show "decode_literal_string_7bit (put_value h s @ rest) = Inr (s, length (put_value h s))"
    using l u f by (simp add: put_string_def b decode_literal_string_7bit_def checked_add_usize_def raw_string_length [OF assms])
  show "try_decode_literal_string_7bit (put_value h s @ rest) = Inr (Some (s, length (put_value h s)))"
    using l f raw_string_read [OF assms]
    by (simp add: put_string_def b try_decode_literal_string_7bit_def checked_add_usize_def raw_string_length [OF assms])
qed

subsection \<open>The table of a peer\<close>

text \<open>The encoder's side by RFC 9204, 3.2 and 4.3: how many entries were inserted, the live ones (newest first), the capacity.\<close>

record ref_table =
  rt_count :: nat
  rt_live :: "field list"
  rt_cap :: nat

definition ref_new :: ref_table where
  "ref_new = \<lparr>rt_count = 0, rt_live = [], rt_cap = 0\<rparr>"

definition ref_insert :: "string \<Rightarrow> string \<Rightarrow> ref_table \<Rightarrow> ref_table option" where
  "ref_insert n v rt =
     (if entry_size n v \<le> rt_cap rt
      then Some (rt\<lparr>rt_count := rt_count rt + 1, rt_live := (n, v) # fit (rt_cap rt - entry_size n v) (rt_live rt)\<rparr>)
      else None)"

definition ref_get :: "ref_table \<Rightarrow> nat \<Rightarrow> field option" where
  "ref_get rt ab =
     (if ab < rt_count rt \<and> rt_count rt \<le> ab + length (rt_live rt) then Some (rt_live rt ! (rt_count rt - 1 - ab)) else None)"

text \<open>Instructions of the encoder stream, with the Huffman flag of every string.  An index without a table is relative, counted
  back from the newest entry.\<close>

datatype instruction =
    SetCapacity nat
  | InsertStatic nat bool string
  | InsertDynamic nat bool string
  | InsertLiteral bool string bool string
  | Duplicate nat

fun ref_apply :: "instruction \<Rightarrow> ref_table \<Rightarrow> ref_table option" where
  "ref_apply (SetCapacity c) rt =
     (if c \<le> MAX_DYNAMIC_CAPACITY then Some (rt\<lparr>rt_live := fit c (rt_live rt), rt_cap := c\<rparr>) else None)"
| "ref_apply (InsertStatic i h v) rt =
     (if i < length QSTATIC_TABLE then ref_insert (fst (QSTATIC_TABLE ! i)) v rt else None)"
| "ref_apply (InsertDynamic r h v) rt =
     (if r < length (rt_live rt) then ref_insert (fst (rt_live rt ! r)) v rt else None)"
| "ref_apply (InsertLiteral hn n h v) rt = ref_insert n v rt"
| "ref_apply (Duplicate r) rt =
     (if r < length (rt_live rt) then ref_insert (fst (rt_live rt ! r)) (snd (rt_live rt ! r)) rt else None)"

fun instruction_bytes :: "instruction \<Rightarrow> bytes" where
  "instruction_bytes (SetCapacity c) = qencode_int (of_nat c) 5 0x20"
| "instruction_bytes (InsertStatic i h v) = qencode_int (of_nat i) 6 0xC0 @ put_value h v"
| "instruction_bytes (InsertDynamic r h v) = qencode_int (of_nat r) 6 0x80 @ put_value h v"
| "instruction_bytes (InsertLiteral hn n h v) = put_string 5 (if hn then 0x60 else 0x40) hn n @ put_value h v"
| "instruction_bytes (Duplicate r) = qencode_int (of_nat r) 5 0x00"

fun instruction_ok :: "instruction \<Rightarrow> bool" where
  "instruction_ok (SetCapacity c) \<longleftrightarrow> True"
| "instruction_ok (InsertStatic i h v) \<longleftrightarrow> string_ok h v"
| "instruction_ok (InsertDynamic r h v) \<longleftrightarrow> string_ok h v"
| "instruction_ok (InsertLiteral hn n h v) \<longleftrightarrow> string_ok hn n \<and> string_ok h v"
| "instruction_ok (Duplicate r) \<longleftrightarrow> True"

text \<open>Eviction is that of the HPACK tables, on the entries in the other order.\<close>

interpretation q_table: evicting_table "\<lambda>t. rev (dt_entries t)" dt_size dt_capacity dt_pop evict_to_fit
proof unfold_locales
  show "evict_to_fit incoming t =
      (if dt_size t + incoming > dt_capacity t \<and> rev (dt_entries t) \<noteq> [] then evict_to_fit incoming (dt_pop t) else t)" for incoming t
    by (subst evict_to_fit.simps) simp
qed (auto simp: dt_pop_def entry_size_def split: list.splits)

lemma evict_counts:
  "dt_insert_count (evict_to_fit incoming t) = dt_insert_count t"
  "dt_dropped (evict_to_fit incoming t) + length (dt_entries (evict_to_fit incoming t)) = dt_dropped t + length (dt_entries t)"
proof (induction incoming t rule: evict_to_fit.induct)
  case (1 incoming t)
  { case 1 show ?case using "1.IH"(1) by (subst evict_to_fit.simps) (auto simp: dt_pop_def split: list.splits) }
  { case 2 show ?case using "1.IH"(2) by (subst (1 2) evict_to_fit.simps) (auto simp: dt_pop_def split: list.splits) }
qed

definition agrees :: "dynamic_table \<Rightarrow> ref_table \<Rightarrow> bool" where
  "agrees t rt \<longleftrightarrow>
     dt_entries t = rev (rt_live rt) \<and> dt_size t = table_size (rt_live rt) \<and> dt_capacity t = rt_cap rt \<and>
     dt_insert_count t = rt_count rt \<and> dt_dropped t + length (rt_live rt) = rt_count rt \<and>
     table_size (rt_live rt) \<le> rt_cap rt \<and> rt_cap rt \<le> MAX_DYNAMIC_CAPACITY"

lemma agrees_new: "agrees dt_new ref_new"
  by (simp add: agrees_def dt_new_def ref_new_def)

lemma agrees_live: "agrees t rt \<Longrightarrow> length (rt_live rt) \<le> 128"
  using table_size_length [of "rt_live rt"] by (simp add: agrees_def)

lemma agrees_get: "agrees t rt \<Longrightarrow> ref_get rt ab = Some e \<Longrightarrow> get_absolute ab t = Inr e"
proof -
  assume a: "agrees t rt" and g: "ref_get rt ab = Some e"
  let ?l = "rt_live rt"
  from g have ab: "ab < rt_count rt" "rt_count rt \<le> ab + length ?l" and e: "e = ?l ! (rt_count rt - 1 - ab)"
    by (auto simp: ref_get_def split: if_splits)
  from a have d: "dt_dropped t + length ?l = rt_count rt" "dt_insert_count t = rt_count rt" "dt_entries t = rev ?l"
    by (simp_all add: agrees_def)
  have "rev ?l ! (ab - dt_dropped t) = ?l ! (length ?l - Suc (ab - dt_dropped t))" using ab d by (intro rev_nth) linarith
  moreover have "length ?l - Suc (ab - dt_dropped t) = rt_count rt - 1 - ab" using ab d by linarith
  moreover have "ab - dt_dropped t < length ?l" using ab d by linarith
  ultimately show ?thesis using ab d e by (simp add: get_absolute_def Let_def)
qed

lemma agrees_evict:
  assumes "agrees t rt" and "incoming \<le> c" and "c \<le> MAX_DYNAMIC_CAPACITY"
  shows "let t' = evict_to_fit incoming (t\<lparr>dt_capacity := c\<rparr>); live = fit (c - incoming) (rt_live rt)
    in dt_entries t' = rev live \<and> dt_size t' = table_size live \<and> dt_capacity t' = c \<and>
       dt_insert_count t' = rt_count rt \<and> dt_dropped t' + length live = rt_count rt"
proof -
  let ?t = "t\<lparr>dt_capacity := c\<rparr>"
  define t' where "t' = evict_to_fit incoming ?t"
  have a: "dt_entries t = rev (rt_live rt)" "dt_size t = table_size (rt_live rt)" "dt_insert_count t = rt_count rt"
    "dt_dropped t + length (rt_live rt) = rt_count rt" using assms(1) by (simp_all add: agrees_def)
  have "q_table.consistent ?t" by (simp add: q_table.consistent_def a)
  from q_table.evict_spec [OF this, of incoming] assms(2) have e: "dt_size t' = table_size (rev (dt_entries t'))" "dt_capacity t' = c"
    "rev (dt_entries t') = fit (c - incoming) (rt_live rt)" by (simp_all add: q_table.consistent_def a t'_def)
  have n: "dt_insert_count t' = rt_count rt" "dt_dropped t' + length (dt_entries t') = rt_count rt"
    using evict_counts [of incoming ?t] a by (simp_all add: t'_def)
  from e(3) have l: "dt_entries t' = rev (fit (c - incoming) (rt_live rt))" by (rule rev_swap [THEN iffD1])
  show ?thesis unfolding Let_def t'_def [symmetric] using e(1,2) n l by simp
qed

lemma agrees_insert:
  assumes "agrees t rt" and "ref_insert n v rt = Some rt'"
  shows "\<exists>t'. dt_insert n v t = (Inr (), t') \<and> agrees t' rt'"
proof -
  from assms(2) have s: "entry_size n v \<le> rt_cap rt"
    and rt': "rt' = rt\<lparr>rt_count := rt_count rt + 1, rt_live := (n, v) # fit (rt_cap rt - entry_size n v) (rt_live rt)\<rparr>"
    by (auto simp: ref_insert_def split: if_splits)
  from assms(1) have c: "t\<lparr>dt_capacity := rt_cap rt\<rparr> = t" "rt_cap rt \<le> MAX_DYNAMIC_CAPACITY" by (simp_all add: agrees_def)
  note e = agrees_evict [OF assms(1) s c(2), unfolded c(1) Let_def]
  have z: "length n + length v + 32 = entry_size n v" by (simp add: entry_size_def)
  have "table_size (fit (rt_cap rt - entry_size n v) (rt_live rt)) + entry_size n v \<le> rt_cap rt"
    using table_size_fit [of "rt_cap rt - entry_size n v" "rt_live rt"] s by simp
  then show ?thesis using e s c(2) assms(1) by (auto simp: dt_insert_def z Let_def rt' agrees_def)
qed

lemma agrees_capacity:
  assumes "agrees t rt" and "c \<le> MAX_DYNAMIC_CAPACITY"
  shows "\<exists>t'. set_capacity (of_nat c) t = (Inr (), t') \<and> agrees t' (rt\<lparr>rt_live := fit c (rt_live rt), rt_cap := c\<rparr>)"
proof -
  have u: "unat (of_nat c :: u64) = c" using assms(2) by (simp add: unat_of_nat)
  show ?thesis using agrees_evict [OF assms(1) le0 assms(2)] assms(2) table_size_fit [of c "rt_live rt"]
    by (simp add: set_capacity_def u Let_def agrees_def)
qed

subsection \<open>Instructions\<close>

lemma insert_value_read:
  assumes "agrees t rt" and "ref_insert n v rt = Some rt'" and "string_ok h v" and "drop p buf = put_value h v @ rest"
  shows "\<exists>t'. insert_with_value n p buf t = (Inr (Some (p + length (put_value h v))), t') \<and> agrees t' rt'"
  using agrees_insert [OF assms(1,2)] value_read(2) [OF assms(3), of rest] assms(4) by (auto simp: insert_with_value_def)

lemma relative_index:
  assumes "agrees t rt" and "r < length (rt_live rt)"
  shows "\<exists>ab. relative_to_absolute_insert (dt_insert_count t) (of_nat r) = Inr ab \<and> get_absolute ab t = Inr (rt_live rt ! r)"
proof -
  from assms have c: "dt_insert_count t = rt_count rt" "length (rt_live rt) \<le> rt_count rt" by (auto simp: agrees_def)
  have "unat (of_nat r :: u64) = r" using agrees_live [OF assms(1)] assms(2) by (simp add: unat_of_nat)
  moreover have "ref_get rt (rt_count rt - 1 - r) = Some (rt_live rt ! r)"
    using c assms(2) by (simp add: ref_get_def Suc_diff_Suc)
  ultimately show ?thesis using agrees_get [OF assms(1)] c assms(2) by (simp add: relative_to_absolute_insert_def)
qed

text \<open>What the first byte of an encoded integer looks like to the decoder, for each pattern of high bits used.\<close>

lemma qint_at:
  assumes "0 < p" and "p \<le> 8" and "hi AND mask p = 0"
  shows "\<exists>b bs. qencode_int v p hi = b # bs \<and> (\<forall>rest. qdecode_int b p (bs @ rest) = Inr (v, length bs)) \<and> length bs \<le> 10 \<and>
    (p \<le> 7 \<longrightarrow> (b AND 0x80 \<noteq> 0 \<longleftrightarrow> bit hi 7)) \<and> (p \<le> 6 \<longrightarrow> (b AND 0x40 \<noteq> 0 \<longleftrightarrow> bit hi 6)) \<and>
    (p \<le> 5 \<longrightarrow> (b AND 0x20 \<noteq> 0 \<longleftrightarrow> bit hi 5)) \<and> (p \<le> 4 \<longrightarrow> (b AND 0x10 \<noteq> 0 \<longleftrightarrow> bit hi 4)) \<and> (p \<le> 3 \<longrightarrow> (b AND 0x08 \<noteq> 0 \<longleftrightarrow> bit hi 3))"
  using qint_read [OF assms, of v] unfolding flag_bits by fastforce

lemma instruction_read:
  assumes "agrees t rt" and "ref_apply i rt = Some rt'" and "instruction_ok i"
  shows "\<exists>t'. decode_encoder_instruction (instruction_bytes i @ rest) t = (Inr (Some (length (instruction_bytes i))), t') \<and> agrees t' rt'"
proof (cases i)
  case (SetCapacity c)
  with assms(2) have c: "c \<le> MAX_DYNAMIC_CAPACITY" and rt': "rt' = rt\<lparr>rt_live := fit c (rt_live rt), rt_cap := c\<rparr>"
    by (auto split: if_splits)
  have "(0x20 :: byte) AND mask 5 = 0" by (simp add: mask_numeral)
  from qint_at [OF _ _ this, of "of_nat c"] obtain b bs where "qencode_int (of_nat c) 5 0x20 = b # bs"
      "qdecode_int b 5 (bs @ rest) = Inr (of_nat c, length bs)" "b AND 0x80 = 0" "b AND 0x40 = 0" "b AND 0x20 \<noteq> 0" by auto
  with agrees_capacity [OF assms(1) c] show ?thesis unfolding rt' SetCapacity by (auto simp: decode_encoder_instruction_def)
next
  case (InsertStatic k h v)
  with assms(2) have k: "k < length QSTATIC_TABLE" and r: "ref_insert (fst (QSTATIC_TABLE ! k)) v rt = Some rt'"
    by (auto split: if_splits)
  have "(0xC0 :: byte) AND mask 6 = 0" by (simp add: mask_numeral)
  from qint_at [OF _ _ this, of "of_nat k"] obtain b bs where b: "qencode_int (of_nat k) 6 0xC0 = b # bs"
      "\<And>rest. qdecode_int b 6 (bs @ rest) = Inr (of_nat k, length bs)" "b AND 0x80 \<noteq> 0" "b AND 0x40 \<noteq> 0" by auto
  have "length QSTATIC_TABLE = 99" by (simp add: QSTATIC_TABLE_def)
  with k have "static_entry m (of_nat k) = Inr (QSTATIC_TABLE ! k)" for m by (simp add: static_entry_def unat_of_nat)
  moreover obtain t' where "insert_with_value (fst (QSTATIC_TABLE ! k)) (1 + length bs) (b # bs @ put_value h v @ rest) t =
      (Inr (Some (1 + length bs + length (put_value h v))), t')" "agrees t' rt'"
    using insert_value_read [OF assms(1) r, of h "1 + length bs" "b # bs @ put_value h v @ rest" rest] assms(3) InsertStatic by auto
  ultimately show ?thesis using b unfolding InsertStatic by (simp add: decode_encoder_instruction_def)
next
  case (InsertDynamic k h v)
  with assms(2) have k: "k < length (rt_live rt)" and r: "ref_insert (fst (rt_live rt ! k)) v rt = Some rt'"
    by (auto split: if_splits)
  have "(0x80 :: byte) AND mask 6 = 0" by (simp add: mask_numeral)
  from qint_at [OF _ _ this, of "of_nat k"] obtain b bs where b: "qencode_int (of_nat k) 6 0x80 = b # bs"
      "\<And>rest. qdecode_int b 6 (bs @ rest) = Inr (of_nat k, length bs)" "b AND 0x80 \<noteq> 0" "b AND 0x40 = 0" by auto
  from relative_index [OF assms(1) k] obtain ab where "relative_to_absolute_insert (dt_insert_count t) (of_nat k) = Inr ab"
      "get_absolute ab t = Inr (rt_live rt ! k)" by blast
  moreover obtain t' where "insert_with_value (fst (rt_live rt ! k)) (1 + length bs) (b # bs @ put_value h v @ rest) t =
      (Inr (Some (1 + length bs + length (put_value h v))), t')" "agrees t' rt'"
    using insert_value_read [OF assms(1) r, of h "1 + length bs" "b # bs @ put_value h v @ rest" rest] assms(3) InsertDynamic by auto
  ultimately show ?thesis using b unfolding InsertDynamic by (simp add: decode_encoder_instruction_def)
next
  case (InsertLiteral hn n h v)
  with assms(2,3) have r: "ref_insert n v rt = Some rt'" and s: "string_ok hn n" "string_ok h v" by auto
  let ?raw = "raw_string hn n" and ?hi = "if hn then 0x60 else 0x40 :: byte"
  have m: "?hi AND mask 5 = 0" by (simp add: mask_numeral)
  have bits: "\<not> bit ?hi 7" "bit ?hi 6" "bit ?hi 5 = hn" by simp_all
  from qint_at [OF _ _ m, of "of_nat (length ?raw)"] bits obtain b bs where b: "qencode_int (of_nat (length ?raw)) 5 ?hi = b # bs"
      "\<And>rest. qdecode_int b 5 (bs @ rest) = Inr (of_nat (length ?raw), length bs)" "length bs \<le> 10"
      "b AND 0x80 = 0" "b AND 0x40 \<noteq> 0" "b AND 0x20 \<noteq> 0 \<longleftrightarrow> hn" by auto
  have l: "1 + length bs + length ?raw < 2 ^ 64" using s(1) b(3) by (simp add: string_ok_def)
  obtain t' where "insert_with_value n (1 + length bs + length ?raw) (b # bs @ ?raw @ put_value h v @ rest) t =
      (Inr (Some (1 + length bs + length ?raw + length (put_value h v))), t')" "agrees t' rt'"
    using insert_value_read [OF assms(1) r s(2), of "1 + length bs + length ?raw" "b # bs @ ?raw @ put_value h v @ rest" rest] by auto
  with b l raw_string_read [OF s(1)] raw_string_length [OF s(1)] show ?thesis unfolding InsertLiteral
    by (simp add: decode_encoder_instruction_def put_string_def checked_add_usize_def)
next
  case (Duplicate k)
  with assms(2) have k: "k < length (rt_live rt)" and r: "ref_insert (fst (rt_live rt ! k)) (snd (rt_live rt ! k)) rt = Some rt'"
    by (auto split: if_splits)
  have "(0 :: byte) AND mask 5 = 0" by simp
  from qint_at [OF _ _ this, of "of_nat k"] obtain b bs where "qencode_int (of_nat k) 5 0 = b # bs"
      "qdecode_int b 5 (bs @ rest) = Inr (of_nat k, length bs)" "b AND 0x80 = 0" "b AND 0x40 = 0" "b AND 0x20 = 0" by auto
  with relative_index [OF assms(1) k] agrees_insert [OF assms(1) r] show ?thesis unfolding Duplicate
    by (auto simp: decode_encoder_instruction_def case_prod_unfold)
qed

fun ref_run :: "instruction list \<Rightarrow> ref_table \<Rightarrow> ref_table option" where
  "ref_run [] rt = Some rt"
| "ref_run (i # is) rt = Option.bind (ref_apply i rt) (ref_run is)"

definition stream_bytes :: "instruction list \<Rightarrow> bytes" where
  "stream_bytes is = concat (map instruction_bytes is)"

lemma instruction_bytes_pos: "0 < length (instruction_bytes i)"
  by (cases i) (simp_all add: put_string_def qencode_int_def Let_def)

lemma apply_stream:
  "agrees t rt \<Longrightarrow> ref_run is rt = Some rt' \<Longrightarrow> list_all instruction_ok is \<Longrightarrow> drop p buf = stream_bytes is \<Longrightarrow> p \<le> length buf \<Longrightarrow>
     \<exists>t'. apply_encoder_loop buf p t = (Inr (length buf), t') \<and> agrees t' rt'"
proof (induction "is" arbitrary: p t rt)
  case Nil
  then have "p = length buf" by (simp add: stream_bytes_def)
  with Nil show ?case by (subst apply_encoder_loop.simps) simp
next
  case (Cons i "is")
  from Cons.prems(2) obtain rt1 where r: "ref_apply i rt = Some rt1" "ref_run is rt1 = Some rt'" by (auto simp: bind_eq_Some_conv)
  from Cons.prems(4) have d: "drop p buf = instruction_bytes i @ stream_bytes is" by (simp add: stream_bytes_def)
  from instruction_read [OF Cons.prems(1) r(1), of "stream_bytes is"] Cons.prems(3) obtain t1 where
    t1: "decode_encoder_instruction (drop p buf) t = (Inr (Some (length (instruction_bytes i))), t1)" "agrees t1 rt1"
    unfolding d by auto
  have d1: "drop (p + length (instruction_bytes i)) buf = stream_bytes is"
    using arg_cong [OF d, of "drop (length (instruction_bytes i))"] by (simp add: add.commute)
  have l: "length buf - p = length (instruction_bytes i) + length (stream_bytes is)" using arg_cong [OF d, of length] by simp
  with Cons.prems(5) instruction_bytes_pos [of i] have p: "p < length buf" "p + length (instruction_bytes i) \<le> length buf" by linarith+
  from Cons.IH [OF t1(2) r(2) _ d1 p(2)] Cons.prems(3) t1(1) p(1) show ?case by (subst apply_encoder_loop.simps) simp
qed

subsection \<open>Field sections\<close>

text \<open>The lines of RFC 9204, 4.5, with absolute indices, the flag for fields never to be indexed and those for Huffman strings.\<close>

datatype field_line =
    LineStatic nat
  | LineDynamic nat
  | LinePostBase nat
  | LineStaticName bool nat bool string
  | LineDynamicName bool nat bool string
  | LinePostBaseName bool nat bool string
  | LineLiteral bool bool string bool string

fun line_field :: "ref_table \<Rightarrow> field_line \<Rightarrow> field option" where
  "line_field rt (LineStatic i) = (if i < length QSTATIC_TABLE then Some (QSTATIC_TABLE ! i) else None)"
| "line_field rt (LineDynamic ab) = ref_get rt ab"
| "line_field rt (LinePostBase ab) = ref_get rt ab"
| "line_field rt (LineStaticName never i h v) = (if i < length QSTATIC_TABLE then Some (fst (QSTATIC_TABLE ! i), v) else None)"
| "line_field rt (LineDynamicName never ab h v) = map_option (\<lambda>e. (fst e, v)) (ref_get rt ab)"
| "line_field rt (LinePostBaseName never ab h v) = map_option (\<lambda>e. (fst e, v)) (ref_get rt ab)"
| "line_field rt (LineLiteral never hn n h v) = Some (n, v)"

fun line_ok :: "nat \<Rightarrow> field_line \<Rightarrow> bool" where
  "line_ok base (LineStatic i) \<longleftrightarrow> True"
| "line_ok base (LineDynamic ab) \<longleftrightarrow> ab < base"
| "line_ok base (LinePostBase ab) \<longleftrightarrow> base \<le> ab"
| "line_ok base (LineStaticName never i h v) \<longleftrightarrow> string_ok h v"
| "line_ok base (LineDynamicName never ab h v) \<longleftrightarrow> ab < base \<and> string_ok h v"
| "line_ok base (LinePostBaseName never ab h v) \<longleftrightarrow> base \<le> ab \<and> string_ok h v"
| "line_ok base (LineLiteral never hn n h v) \<longleftrightarrow> string_ok hn n \<and> string_ok h v"

fun line_bytes :: "nat \<Rightarrow> field_line \<Rightarrow> bytes" where
  "line_bytes base (LineStatic i) = qencode_int (of_nat i) 6 0xC0"
| "line_bytes base (LineDynamic ab) = qencode_int (of_nat (base - 1 - ab)) 6 0x80"
| "line_bytes base (LinePostBase ab) = qencode_int (of_nat (ab - base)) 4 0x10"
| "line_bytes base (LineStaticName never i h v) = qencode_int (of_nat i) 4 (if never then 0x70 else 0x50) @ put_value h v"
| "line_bytes base (LineDynamicName never ab h v) =
     qencode_int (of_nat (base - 1 - ab)) 4 (if never then 0x60 else 0x40) @ put_value h v"
| "line_bytes base (LinePostBaseName never ab h v) = qencode_int (of_nat (ab - base)) 3 (if never then 0x08 else 0x00) @ put_value h v"
| "line_bytes base (LineLiteral never hn n h v) =
     put_string 3 (0x20 OR (if never then 0x10 else 0) OR (if hn then 0x08 else 0)) hn n @ put_value h v"

lemma with_value_read:
  "string_ok h v \<Longrightarrow> drop p buf = put_value h v @ rest \<Longrightarrow> with_literal_value n p buf = Inr ((n, v), p + length (put_value h v))"
  by (simp add: with_literal_value_def value_read)

lemma static_read: "i < length QSTATIC_TABLE \<Longrightarrow> static_entry m (of_nat i) = Inr (QSTATIC_TABLE ! i)"
proof -
  have "length QSTATIC_TABLE = 99" by (simp add: QSTATIC_TABLE_def)
  then show "i < length QSTATIC_TABLE \<Longrightarrow> static_entry m (of_nat i) = Inr (QSTATIC_TABLE ! i)" by (simp add: static_entry_def unat_of_nat)
qed

lemma dynamic_read:
  assumes "agrees t rt" and "ref_get rt ab = Some e" and "base < 2 ^ 64" and "rt_count rt < 2 ^ 64"
  shows "ab < base \<Longrightarrow> bindR (field_relative_to_absolute base (of_nat (base - 1 - ab))) (\<lambda>ab. get_absolute ab t) = Inr e"
    and "base \<le> ab \<Longrightarrow> post_base_to_absolute base (of_nat (ab - base)) = Inr ab"
proof -
  have ab: "ab < 2 ^ 64" using assms(2,4) by (auto simp: ref_get_def split: if_splits)
  have "unat (of_nat (base - 1 - ab) :: u64) = base - 1 - ab" "unat (of_nat (ab - base) :: u64) = ab - base"
    using assms(3) ab by (simp_all add: unat_of_nat)
  with agrees_get [OF assms(1,2)] ab
  show "ab < base \<Longrightarrow> bindR (field_relative_to_absolute base (of_nat (base - 1 - ab))) (\<lambda>ab. get_absolute ab t) = Inr e"
    and "base \<le> ab \<Longrightarrow> post_base_to_absolute base (of_nat (ab - base)) = Inr ab"
    by (simp_all add: field_relative_to_absolute_def post_base_to_absolute_def)
qed

lemma line_read:
  assumes "agrees t rt" and "line_field rt l = Some f" and "line_ok base l" and "base < 2 ^ 64" and "rt_count rt < 2 ^ 64"
  shows "decode_field_line t base (line_bytes base l @ rest) = Inr (f, length (line_bytes base l))"
proof (cases l)
  case (LineStatic i)
  with assms(2) have i: "i < length QSTATIC_TABLE" "f = QSTATIC_TABLE ! i" by (auto split: if_splits)
  have m: "(0xC0 :: byte) AND mask 6 = 0" by (simp add: mask_numeral)
  from qint_at [OF _ _ m, of "of_nat i"] obtain b bs where "qencode_int (of_nat i) 6 0xC0 = b # bs"
      "qdecode_int b 6 (bs @ rest) = Inr (of_nat i, length bs)" "b AND 0x80 \<noteq> 0" "b AND 0x40 \<noteq> 0" by auto
  then show ?thesis using i unfolding LineStatic by (simp add: decode_field_line_def static_read)
next
  case (LineDynamic ab)
  with assms(2,3) have g: "ref_get rt ab = Some f" "ab < base" by auto
  have m: "(0x80 :: byte) AND mask 6 = 0" by (simp add: mask_numeral)
  from qint_at [OF _ _ m, of "of_nat (base - 1 - ab)"] obtain b bs where "qencode_int (of_nat (base - 1 - ab)) 6 0x80 = b # bs"
      "qdecode_int b 6 (bs @ rest) = Inr (of_nat (base - 1 - ab), length bs)" "b AND 0x80 \<noteq> 0" "b AND 0x40 = 0" by auto
  then show ?thesis using dynamic_read(1) [OF assms(1) g(1) assms(4,5) g(2)] unfolding LineDynamic by (simp add: decode_field_line_def)
next
  case (LinePostBase ab)
  with assms(2,3) have g: "ref_get rt ab = Some f" "base \<le> ab" by auto
  have m: "(0x10 :: byte) AND mask 4 = 0" by (simp add: mask_numeral)
  from qint_at [OF _ _ m, of "of_nat (ab - base)"] obtain b bs where "qencode_int (of_nat (ab - base)) 4 0x10 = b # bs"
      "qdecode_int b 4 (bs @ rest) = Inr (of_nat (ab - base), length bs)"
      "b AND 0x80 = 0" "b AND 0x40 = 0" "b AND 0x20 = 0" "b AND 0x10 \<noteq> 0" by auto
  then show ?thesis using dynamic_read(2) [OF assms(1) g(1) assms(4,5) g(2)] agrees_get [OF assms(1) g(1)] unfolding LinePostBase by (simp add: decode_field_line_def)
next
  case (LineStaticName never i h v)
  with assms(2,3) have i: "i < length QSTATIC_TABLE" "f = (fst (QSTATIC_TABLE ! i), v)" and s: "string_ok h v" by (auto split: if_splits)
  let ?hi = "if never then 0x70 else 0x50 :: byte"
  have m: "?hi AND mask 4 = 0" by (simp add: mask_numeral)
  have bits: "\<not> bit ?hi 7" "bit ?hi 6" "bit ?hi 4" by simp_all
  from qint_at [OF _ _ m, of "of_nat i"] bits obtain b bs where "qencode_int (of_nat i) 4 ?hi = b # bs"
      "\<And>rest. qdecode_int b 4 (bs @ rest) = Inr (of_nat i, length bs)" "b AND 0x80 = 0" "b AND 0x40 \<noteq> 0" "b AND 0x10 \<noteq> 0" by auto
  then show ?thesis using i with_value_read [OF s, of "1 + length bs" "b # bs @ put_value h v @ rest" rest]
    unfolding LineStaticName by (simp add: decode_field_line_def static_read)
next
  case (LineDynamicName never ab h v)
  with assms(2,3) obtain e where g: "ref_get rt ab = Some e" "ab < base" "f = (fst e, v)" and s: "string_ok h v" by auto
  let ?hi = "if never then 0x60 else 0x40 :: byte"
  have m: "?hi AND mask 4 = 0" by (simp add: mask_numeral)
  have bits: "\<not> bit ?hi 7" "bit ?hi 6" "\<not> bit ?hi 4" by simp_all
  from qint_at [OF _ _ m, of "of_nat (base - 1 - ab)"] bits obtain b bs where "qencode_int (of_nat (base - 1 - ab)) 4 ?hi = b # bs"
      "\<And>rest. qdecode_int b 4 (bs @ rest) = Inr (of_nat (base - 1 - ab), length bs)"
      "b AND 0x80 = 0" "b AND 0x40 \<noteq> 0" "b AND 0x10 = 0" by auto
  then show ?thesis using g dynamic_read(1) [OF assms(1) g(1) assms(4,5) g(2)]
      with_value_read [OF s, of "1 + length bs" "b # bs @ put_value h v @ rest" rest]
    unfolding LineDynamicName by (simp add: decode_field_line_def)
next
  case (LinePostBaseName never ab h v)
  with assms(2,3) obtain e where g: "ref_get rt ab = Some e" "base \<le> ab" "f = (fst e, v)" and s: "string_ok h v" by auto
  let ?hi = "if never then 0x08 else 0 :: byte"
  have m: "?hi AND mask 3 = 0" by (simp add: mask_numeral)
  have bits: "\<not> bit ?hi 7" "\<not> bit ?hi 6" "\<not> bit ?hi 5" "\<not> bit ?hi 4" by simp_all
  from qint_at [OF _ _ m, of "of_nat (ab - base)"] bits obtain b bs where "qencode_int (of_nat (ab - base)) 3 ?hi = b # bs"
      "\<And>rest. qdecode_int b 3 (bs @ rest) = Inr (of_nat (ab - base), length bs)"
      "b AND 0x80 = 0" "b AND 0x40 = 0" "b AND 0x20 = 0" "b AND 0x10 = 0" by auto
  then show ?thesis using g dynamic_read(2) [OF assms(1) g(1) assms(4,5) g(2)] agrees_get [OF assms(1) g(1)]
      with_value_read [OF s, of "1 + length bs" "b # bs @ put_value h v @ rest" rest]
    unfolding LinePostBaseName by (simp add: decode_field_line_def)
next
  case (LineLiteral never hn n h v)
  with assms(2,3) have f: "f = (n, v)" and s: "string_ok hn n" "string_ok h v" by auto
  let ?raw = "raw_string hn n" and ?hi = "0x20 OR (if never then 0x10 else 0) OR (if hn then 0x08 else 0) :: byte"
  have m: "?hi AND mask 3 = 0" by (simp add: mask_numeral)
  have bits: "\<not> bit ?hi 7" "\<not> bit ?hi 6" "bit ?hi 5" "bit ?hi 3 = hn" by simp_all
  from qint_at [OF _ _ m, of "of_nat (length ?raw)"] bits obtain b bs where b: "qencode_int (of_nat (length ?raw)) 3 ?hi = b # bs"
      "\<And>rest. qdecode_int b 3 (bs @ rest) = Inr (of_nat (length ?raw), length bs)" "length bs \<le> 10"
      "b AND 0x80 = 0" "b AND 0x40 = 0" "b AND 0x20 \<noteq> 0" "b AND 0x08 \<noteq> 0 \<longleftrightarrow> hn" by auto
  have l: "1 + length bs + length ?raw < 2 ^ 64" using s(1) b(3) by (simp add: string_ok_def)
  with b f raw_string_read [OF s(1)] raw_string_length [OF s(1)]
    with_value_read [OF s(2), of "1 + length bs + length ?raw" "b # bs @ ?raw @ put_value h v @ rest" rest]
  show ?thesis unfolding LineLiteral by (simp add: decode_field_line_def put_string_def checked_add_usize_def)
qed

text \<open>The prefix of a section: the Required Insert Count modulo twice the maximal number of entries, and the Base.\<close>

lemma wrapped_count:
  fixes r m :: nat
  assumes "r \<le> m" and "m < r + 256"
  shows "m div 256 * 256 + r mod 256 = r \<or> m div 256 * 256 + r mod 256 = r + 256"
proof -
  have "m div 256 \<le> (r + 256) div 256" using assms(2) by (intro div_le_mono) simp
  then have "m div 256 = r div 256 \<or> m div 256 = r div 256 + 1" using div_le_mono [OF assms(1), of 256] by auto
  then show ?thesis using div_mult_mod_eq [of r 256] by auto
qed

lemma required_insert_count_read:
  assumes "ric \<le> count" and "count < ric + 128 \<or> ric = 0"
  shows "decode_required_insert_count (if ric = 0 then 0 else of_nat (ric mod 256 + 1)) count = Inr ric"
proof (cases "ric = 0")
  case False
  define e :: u64 where "e = of_nat (ric mod 256 + 1)"
  have small: "x \<le> 256 \<Longrightarrow> unat (of_nat x :: u64) = x" for x by (simp add: unat_of_nat)
  have l: "ric mod 256 + 1 \<le> 256" using mod_less_divisor [of 256 ric] by linarith
  then have u: "unat e = ric mod 256 + 1" unfolding e_def by (rule small)
  then have z: "e \<noteq> 0" by auto
  define q where "q = (count + 128) div 256 * 256 + ric mod 256"
  have w: "q = ric \<or> q = ric + 256"
    unfolding q_def using assms False by (intro wrapped_count) auto
  have c: "(count + 128) div 256 * 256 + unat e - 1 = q" "\<not> 256 < unat e" using u l by (simp_all add: q_def)
  have n: "max_entries = 128" "2 * (128 :: nat) = 256" by (simp_all add: max_entries_def)
  have "decode_required_insert_count e count = Inr ric"
    unfolding decode_required_insert_count_def Let_def n c(1) using w assms False z c(2) by (elim disjE) simp_all
  with False show ?thesis by (simp only: e_def if_False)
qed (simp add: decode_required_insert_count_def)

definition section_prefix :: "nat \<Rightarrow> nat \<Rightarrow> bytes" where
  "section_prefix ric base =
     qencode_int (if ric = 0 then 0 else of_nat (ric mod 256 + 1)) 8 0
     @ (if ric \<le> base then qencode_int (of_nat (base - ric)) 7 0x00 else qencode_int (of_nat (ric - base - 1)) 7 0x80)"

definition section_bytes :: "nat \<Rightarrow> nat \<Rightarrow> field_line list \<Rightarrow> bytes" where
  "section_bytes ric base ls = section_prefix ric base @ concat (map (line_bytes base) ls)"

text \<open>The size of a list of fields by RFC 9114, 4.2.2.\<close>

definition fields_size :: "field list \<Rightarrow> nat" where
  "fields_size fs = sum_list (map (\<lambda>(n, v). length n + length v + 32) fs)"

lemma line_bytes_pos: "0 < length (line_bytes base l)"
  by (cases l) (simp_all add: put_string_def qencode_int_def Let_def)

lemma field_lines_read:
  assumes "agrees t rt" and "base < 2 ^ 64" and "rt_count rt < 2 ^ 64"
  shows "map (line_field rt) ls = map Some fs \<Longrightarrow> list_all (line_ok base) ls \<Longrightarrow> drop p buf = concat (map (line_bytes base) ls) \<Longrightarrow>
     p \<le> length buf \<Longrightarrow> list_size + fields_size fs \<le> MAX_DECODED_HEADER_LIST \<Longrightarrow>
     field_lines t base buf p list_size out = Inr (out @ fs)"
proof (induction ls arbitrary: fs p list_size out)
  case Nil
  then show ?case by (subst field_lines.simps) simp
next
  case (Cons l ls)
  from Cons.prems(1) obtain f fs' where fs: "fs = f # fs'" "line_field rt l = Some f" "map (line_field rt) ls = map Some fs'"
    by (cases fs) auto
  from Cons.prems(3) have d: "drop p buf = line_bytes base l @ concat (map (line_bytes base) ls)" by simp
  have r: "decode_field_line t base (drop p buf) = Inr (f, length (line_bytes base l))"
    unfolding d using Cons.prems(2) by (intro line_read [OF assms(1) fs(2) _ assms(2,3)]) simp
  have d1: "drop (p + length (line_bytes base l)) buf = concat (map (line_bytes base) ls)"
    using arg_cong [OF d, of "drop (length (line_bytes base l))"] by (simp add: add.commute)
  have l: "length buf - p = length (line_bytes base l) + length (concat (map (line_bytes base) ls))" using arg_cong [OF d, of length] by simp
  with Cons.prems(4) line_bytes_pos [of base l] have p: "p < length buf" "p + length (line_bytes base l) \<le> length buf" by linarith+
  let ?n = "list_size + length (fst f) + length (snd f) + 32"
  have n: "?n + fields_size fs' \<le> MAX_DECODED_HEADER_LIST" using Cons.prems(5) by (simp add: fs(1) fields_size_def case_prod_unfold)
  then have "saturating_add_usize (saturating_add_usize (saturating_add_usize list_size (length (fst f))) (length (snd f))) 32 = ?n"
    by (simp add: saturating_add_usize_def)
  moreover have "field_lines t base buf (p + length (line_bytes base l)) ?n (out @ [f]) = Inr ((out @ [f]) @ fs')"
    by (rule Cons.IH [OF fs(3) _ d1 p(2) n]) (use Cons.prems(2) in simp)
  ultimately show ?case using r p(1) n fs(1) by (subst field_lines.simps) (simp add: Let_def)
qed

lemma base_read:
  assumes "ric < 2 ^ 64" and "base < 2 ^ 64"
  shows "\<exists>b bs. (if ric \<le> base then qencode_int (of_nat (base - ric)) 7 0x00 else qencode_int (of_nat (ric - base - 1)) 7 0x80) = b # bs \<and>
    (\<forall>rest. decode_base b (bs @ rest) ric = Inr (base, length bs))"
proof (cases "ric \<le> base")
  case True
  have "(0 :: byte) AND mask 7 = 0" by simp
  from qint_at [OF _ _ this, of "of_nat (base - ric)"] obtain b bs where "qencode_int (of_nat (base - ric)) 7 0 = b # bs"
      "\<And>rest. qdecode_int b 7 (bs @ rest) = Inr (of_nat (base - ric), length bs)" "b AND 0x80 = 0" by auto
  moreover have "unat (of_nat (base - ric) :: u64) = base - ric" using assms by (simp add: unat_of_nat)
  ultimately show ?thesis using True assms(2) by (auto simp: decode_base_def simp del: of_nat_diff)
next
  case False
  have "(0x80 :: byte) AND mask 7 = 0" by (simp add: mask_numeral)
  from qint_at [OF _ _ this, of "of_nat (ric - base - 1)"] obtain b bs where "qencode_int (of_nat (ric - base - 1)) 7 0x80 = b # bs"
      "\<And>rest. qdecode_int b 7 (bs @ rest) = Inr (of_nat (ric - base - 1), length bs)" "b AND 0x80 \<noteq> 0" by auto
  moreover have "unat (of_nat (ric - base - 1) :: u64) = ric - base - 1" using assms by (simp add: unat_of_nat)
  ultimately show ?thesis using False by (auto simp: decode_base_def simp del: of_nat_diff)
qed

lemma section_read:
  assumes "agrees t rt" and "base < 2 ^ 64" and "rt_count rt < 2 ^ 64" and "ric \<le> rt_count rt" and "rt_count rt < ric + 128 \<or> ric = 0"
    and "map (line_field rt) ls = map Some fs" and "list_all (line_ok base) ls" and "fields_size fs \<le> MAX_DECODED_HEADER_LIST"
  shows "decode_field_section_with (section_bytes ric base ls) t = Inr fs"
proof -
  let ?enc = "if ric = 0 then 0 else of_nat (ric mod 256 + 1) :: u64" and ?ls = "concat (map (line_bytes base) ls)"
  have "(0 :: byte) AND mask 8 = 0" by simp
  from qint_at [OF _ _ this, of ?enc] obtain b bs where b: "qencode_int ?enc 8 0 = b # bs"
      "\<And>rest. qdecode_int b 8 (bs @ rest) = Inr (?enc, length bs)" by auto
  from base_read [of ric base] assms(2-4) obtain c cs where
    c: "(if ric \<le> base then qencode_int (of_nat (base - ric)) 7 0x00 else qencode_int (of_nat (ric - base - 1)) 7 0x80) = c # cs"
      "\<And>rest. decode_base c (cs @ rest) ric = Inr (base, length cs)" by auto
  have buf: "section_bytes ric base ls = b # bs @ c # cs @ ?ls" unfolding section_bytes_def section_prefix_def b(1) c(1) by simp
  have "decode_required_insert_count ?enc (rt_count rt) = Inr ric"
    using assms(4,5) by (rule required_insert_count_read)
  moreover have "dt_insert_count t = rt_count rt" using assms(1) by (simp add: agrees_def)
  moreover have "field_lines t base (b # bs @ c # cs @ ?ls) (1 + length bs + 1 + length cs) 0 [] = Inr ([] @ fs)"
    by (rule field_lines_read [OF assms(1-3,6,7)]) (use assms(8) in auto)
  ultimately show ?thesis unfolding buf decode_field_section_with_def using assms(4) b(2) c(2)
    by (simp add: nth_append)
qed

text \<open>C27: the decoder keeps the table of any peer that follows RFC 9204: after the bytes of any list of encoder instructions the
  peer's own table allows, with any choice of Huffman coding, all of them are consumed, and a section the peer then writes
  (any Required Insert Count the wrapping admits, any Base before or behind it, any mixture of static, dynamic, post-base and
  literal lines) is decoded to the fields those lines stand for.\<close>

theorem qpack_sections_read:
  assumes "ref_run is ref_new = Some rt" and "list_all instruction_ok is" and "rt_count rt < 2 ^ 64"
    and "ric \<le> rt_count rt" and "rt_count rt < ric + 128 \<or> ric = 0" and "base < 2 ^ 64"
    and "map (line_field rt) ls = map Some fs" and "list_all (line_ok base) ls" and "fields_size fs \<le> MAX_DECODED_HEADER_LIST"
  shows "\<exists>t. apply_encoder_instructions (stream_bytes is) dt_new = (Inr (length (stream_bytes is)), t) \<and>
    decode_field_section_with (section_bytes ric base ls) t = Inr fs"
proof -
  obtain t where "apply_encoder_instructions (stream_bytes is) dt_new = (Inr (length (stream_bytes is)), t)" "agrees t rt"
    using apply_stream [OF agrees_new assms(1,2), of 0] by (auto simp: apply_encoder_instructions_def)
  with section_read [OF _ assms(6,3-5,7-9)] show ?thesis by blast
qed

text \<open>The hypotheses hold for a peer that inserts two entries, one of them Huffman coded and one by duplication, and writes a section
  with a post-base line, a line before the Base and a static one.\<close>

theorem qpack_sections_read_witness:
  "let is = [SetCapacity 100, InsertStatic 1 True ''/a'', Duplicate 0]; ls = [LineDynamic 0, LinePostBase 1, LineStatic 25] in
     \<exists>t. apply_encoder_instructions (stream_bytes is) dt_new = (Inr (length (stream_bytes is)), t) \<and>
       decode_field_section_with (section_bytes 2 1 ls) t = Inr [('':path'', ''/a''), ('':path'', ''/a''), ('':status'', ''200'')]"
proof -
  have s: "QSTATIC_TABLE ! Suc 0 = ('':path'', ''/'')" "QSTATIC_TABLE ! 25 = ('':status'', ''200'')" "length QSTATIC_TABLE = 99"
    by (simp_all add: QSTATIC_TABLE_def)
  let ?rt = "\<lparr>rt_count = 2, rt_live = [('':path'', ''/a''), ('':path'', ''/a'')], rt_cap = 100\<rparr>"
  have r: "ref_run [SetCapacity 100, InsertStatic 1 True ''/a'', Duplicate 0] ref_new = Some ?rt"
    by (simp add: s ref_new_def ref_insert_def entry_size_def)
  have o: "list_all instruction_ok [SetCapacity 100, InsertStatic 1 True ''/a'', Duplicate 0]"
  proof -
    have "length (huffman_encode (bytes_of ''/a'')) = 2" "valid_str ''/a''" by code_simp+
    then show ?thesis by (simp add: string_ok_def raw_string_def)
  qed
  show ?thesis unfolding Let_def
    by (rule qpack_sections_read [OF r o, of 2 1])
      (simp_all add: s ref_get_def fields_size_def)
qed

subsection \<open>Requests\<close>

lemma position_Some: "position P xs = Some i \<Longrightarrow> i < length xs \<and> P (xs ! i)"
  by (induction xs arbitrary: i) (auto split: if_splits option.splits simp: nth_Cons' less_Suc_eq_0_disj)

lemma encode_field_line:
  assumes "string_ok False n" and "string_ok False v"
  shows "\<exists>l. encode_field n v = line_bytes base l \<and> line_ok base l \<and> (\<forall>rt. line_field rt l = Some (n, v))"
proof (cases "find_indexed n v")
  case (Some i)
  then have "i < length QSTATIC_TABLE" "QSTATIC_TABLE ! i = (n, v)" by (auto simp: find_indexed_def dest: position_Some)
  with Some show ?thesis by (intro exI [of _ "LineStatic i"]) (simp add: encode_field_def)
next
  case none: None
  show ?thesis
  proof (cases "find_name n")
    case (Some i)
    then have "i < length QSTATIC_TABLE" "fst (QSTATIC_TABLE ! i) = n" by (auto simp: find_name_def dest: position_Some)
    with Some none assms(2) show ?thesis
      by (intro exI [of _ "LineStaticName False i False v"]) (simp add: encode_field_def encode_string_7bit_def put_string_def raw_string_def)
  qed (use none assms in \<open>intro exI [of _ "LineLiteral False False n False v"],
    simp add: encode_field_def encode_string_7bit_def encode_name_3bit_def put_string_def raw_string_def\<close>)
qed

lemma encode_fields_lines:
  "list_all (\<lambda>(n, v). string_ok False n \<and> string_ok False v) fs \<Longrightarrow>
     \<exists>ls. concat (map (\<lambda>(n, v). encode_field n v) fs) = concat (map (line_bytes base) ls) \<and> list_all (line_ok base) ls \<and>
       (\<forall>rt. map (line_field rt) ls = map Some fs)"
proof (induction fs)
  case (Cons f fs)
  obtain n v where f: "f = (n, v)" by (cases f)
  from Cons.IH Cons.prems obtain ls where "concat (map (\<lambda>(n, v). encode_field n v) fs) = concat (map (line_bytes base) ls)"
    "list_all (line_ok base) ls" "\<And>rt. map (line_field rt) ls = map Some fs" by auto
  moreover from Cons.prems encode_field_line [of n v base] obtain l where
    "encode_field n v = line_bytes base l" "line_ok base l" "\<And>rt. line_field rt l = Some (n, v)" by (auto simp: f)
  ultimately show ?case by (intro exI [of _ "l # ls"]) (simp add: f)
qed simp

lemma fields_size_bound: "(n, v) \<in> set fs \<Longrightarrow> length n + length v \<le> fields_size fs"
  by (induction fs) (auto simp: fields_size_def)

text \<open>The field section written for a request is decoded to the same fields, pseudo-headers included, whatever mixture of
  static and literal lines the encoder chose, and whatever the state of the peer's table is.\<close>

lemma qpack_requests_read:
  assumes "agrees t rt" and "rt_count rt < 2 ^ 64"
    and "list_all (\<lambda>(n, v). valid_str n \<and> valid_str v) fs" and "fields_size fs \<le> MAX_DECODED_HEADER_LIST"
  shows "decode_field_section_with (encode_field_section fs) t = Inr fs"
proof -
  have "list_all (\<lambda>(n, v). string_ok False n \<and> string_ok False v) fs"
    using assms(3,4) fields_size_bound by (fastforce simp: list_all_iff string_ok_def raw_string_def bytes_of_def)
  from encode_fields_lines [OF this, of 0] obtain ls where
    ls: "concat (map (\<lambda>(n, v). encode_field n v) fs) = concat (map (line_bytes 0) ls)" "list_all (line_ok 0) ls"
      "map (line_field rt) ls = map Some fs" by blast
  have "encode_field_section fs = section_bytes 0 0 ls"
    by (simp add: encode_field_section_def section_bytes_def section_prefix_def ls(1))
  with section_read [OF assms(1) _ assms(2), of 0 0 ls fs] ls assms(4) show ?thesis by simp
qed

lemma qpack_requests_read_witness:
  "let fs = [('':method'', ''GET''), ('':path'', ''/x''), (''x-a'', ''1'')] in decode_field_section_with (encode_field_section fs) dt_new = Inr fs"
  unfolding Let_def
  by (rule qpack_requests_read [OF agrees_new]) (simp_all add: ref_new_def fields_size_def, code_simp)

text \<open>An instruction cut inside its index is refused, not held back: \<open>decode_encoder_instruction\<close> reads the index with
  \<open>decode_int\<close>, for which an unfinished integer is an error.  A name reference to \<open>server\<close> (index 92) takes two bytes.\<close>

lemma encoder_stream_split_fails:
  assumes "63 \<le> k" and "k < length QSTATIC_TABLE"
  shows "decode_encoder_instruction (take 1 (instruction_bytes (InsertStatic k h v))) t = (Inl (BadResponse ''qpack int truncated''), t)"
proof -
  have "length QSTATIC_TABLE = 99" by (simp add: QSTATIC_TABLE_def)
  with assms(2) have "unat (of_nat k :: u64) = k" by (simp add: unat_of_nat)
  with assms(1) have "\<not> (of_nat k :: u64) < 63" by (simp add: word_less_nat_alt)
  then have "take 1 (instruction_bytes (InsertStatic k h v)) = [0xFF]" by (simp add: qencode_int_def Let_def)
  then show ?thesis
    by (simp add: decode_encoder_instruction_def qdecode_int_def decode_int_partial_def prefix_mask_def)
qed

end
