(* ===== verification/H3.thy ===== *)
theory H3
  imports Qpack_Wire H2_Request
begin

text \<open>
  HTTP/3 (\<open>src/src/http3.rs\<close>): variable-length integers, frames, the server's unidirectional streams with the QPACK table they
  feed, the request as it is written and the loop that reads the response.  QUIC itself (\<open>purecrypto::quic\<close>, a package) and the
  UDP socket are a script of what they answer: the results of opening and writing streams in \<open>quic_conn\<close>, and per turn of the
  read loop a \<open>h3_tick\<close>.  A loop that outlives its script has the value \<open>None\<close>: it is still waiting.
\<close>

subsection \<open>Variable-length integers\<close>

abbreviation (input) VARINT_MAX :: u64 where "VARINT_MAX \<equiv> 0x3FFFFFFFFFFFFFFF"

definition varint_len :: "u64 \<Rightarrow> nat" where
  "varint_len v = (if v < 2 ^ 6 then 1 else if v < 2 ^ 14 then 2 else if v < 2 ^ 30 then 4 else 8)"

text \<open>\<open>bytes[0] | mark\<close> and the rest.\<close>

fun mark_first :: "byte \<Rightarrow> bytes \<Rightarrow> bytes" where
  "mark_first mark [] = []"
| "mark_first mark (b # bs) = (b OR mark) # bs"

definition varint_encode :: "u64 \<Rightarrow> bytes" where
  "varint_encode v =
     (if v < 2 ^ 6 then [ucast v]
      else if v < 2 ^ 14 then mark_first 0x40 (to_be16 (ucast v))
      else if v < 2 ^ 30 then mark_first 0x80 (to_be32 (ucast v))
      else mark_first 0xC0 (to_be64 v))"

definition varint_decode :: "bytes \<Rightarrow> (u64 \<times> nat) result" where
  "varint_decode buf =
     (case buf of
        [] \<Rightarrow> Inl (BadResponse ''varint: empty input'')
      | b # rest \<Rightarrow>
          let n = 2 ^ unat (drop_bit 6 b)
          in if length buf < n then Inl (BadResponse ''varint: need {n} bytes, have {}'')
             else Inr (foldl (\<lambda>v b. push_bit 8 v OR ucast b) (ucast (b AND 0x3F)) (take (n - 1) rest), n))"

lemma low_bits: "v < 2 ^ k \<Longrightarrow> k < 64 \<Longrightarrow> bit v n \<Longrightarrow> n < k" for v :: u64
proof -
  assume a: "v < 2 ^ k" "k < 64" "bit v n"
  then have "v AND mask k = v" by (simp add: mask_eq_iff word_2p_lem word_size)
  then have "bit (v AND mask k) n" using a(3) by simp
  then show ?thesis by (simp add: bit_simps)
qed

lemma varint_marks: "(0x40 :: byte) = push_bit 6 1" "(0x80 :: byte) = push_bit 7 1" "(0xC0 :: byte) = push_bit 7 1 OR push_bit 6 1"
  by simp_all

lemma varint_decode_at:
  "unat (drop_bit 6 b) = k \<Longrightarrow> 2 ^ k = Suc (length bs) \<Longrightarrow>
     varint_decode (b # bs @ rest) = Inr (foldl (\<lambda>v b. push_bit 8 v OR ucast b) (ucast (b AND 0x3F)) bs, Suc (length bs))"
  by (simp add: varint_decode_def)

abbreviation (input) be_value :: "u64 \<Rightarrow> bytes \<Rightarrow> u64" where
  "be_value \<equiv> foldl (\<lambda>v b. push_bit 8 v OR ucast b)"

lemma varint_read1:
  assumes "v < 2 ^ 6"
  shows "varint_decode (varint_encode v @ rest) = Inr (v, varint_len v)"
proof -
  have "drop_bit 6 (ucast v :: byte) = 0" by (rule bit_word_eqI) (auto simp: bit_simps dest: low_bits [OF assms, rotated])
  moreover have "ucast (ucast v AND 0x3F :: byte) = v"
    by (rule bit_word_eqI) (auto simp: mask_bits bit_simps dest: low_bits [OF assms, rotated])
  ultimately show ?thesis using assms varint_decode_at [of "ucast v" 0 "[]" rest] by (simp add: varint_encode_def varint_len_def)
qed

lemma varint_read2:
  assumes "\<not> v < 2 ^ 6" "v < 2 ^ 14"
  shows "varint_decode (varint_encode v @ rest) = Inr (v, varint_len v)"
proof -
  let ?w = "ucast v :: u16"
  let ?b = "(ucast (drop_bit 8 ?w) :: byte) OR 0x40" and ?bs = "[ucast ?w] :: bytes"
  have "drop_bit 6 ?b = 1"
    unfolding varint_marks by (rule bit_word_eqI) (auto simp: bit_simps dest: low_bits [OF assms(2), rotated])
  then have d: "unat (drop_bit 6 ?b) = 1" by (simp only: unat_1)
  have f: "be_value (ucast (?b AND 0x3F)) ?bs = v"
  proof (rule bit_word_eqI)
    fix n
    assume "n < LENGTH(64)"
    consider "n < 8" | "8 \<le> n" by linarith
    then show "bit (be_value (ucast (?b AND 0x3F)) ?bs) n = bit v n"
      unfolding mask_bits varint_marks foldl.simps by cases (auto simp: bit_simps dest: low_bits [OF assms(2), rotated])
  qed
  have e: "varint_encode v = ?b # ?bs" "varint_len v = 2" using assms by (simp_all only: varint_encode_def varint_len_def to_be16_def mark_first.simps if_True if_False)
  have l: "2 ^ 1 = Suc (length ?bs)" "Suc (length ?bs) = 2" by simp_all
  show ?thesis unfolding e using varint_decode_at [OF d l(1), of rest] unfolding f l(2) by simp
qed

lemma varint_read4:
  assumes "\<not> v < 2 ^ 6" "\<not> v < 2 ^ 14" "v < 2 ^ 30"
  shows "varint_decode (varint_encode v @ rest) = Inr (v, varint_len v)"
proof -
  let ?w = "ucast v :: u32"
  let ?b = "(ucast (drop_bit 24 ?w) :: byte) OR 0x80" and ?bs = "[ucast (drop_bit 16 ?w), ucast (drop_bit 8 ?w), ucast ?w] :: bytes"
  have "drop_bit 6 ?b = 2"
    unfolding varint_marks by (rule bit_word_eqI) (auto simp: bit_simps dest: low_bits [OF assms(3), rotated])
  then have d: "unat (drop_bit 6 ?b) = 2" by simp
  have f: "be_value (ucast (?b AND 0x3F)) ?bs = v"
  proof (rule bit_word_eqI)
    fix n
    assume "n < LENGTH(64)"
    consider "n < 8" | "8 \<le> n" "n < 16" | "16 \<le> n" "n < 24" | "24 \<le> n" by linarith
    then show "bit (be_value (ucast (?b AND 0x3F)) ?bs) n = bit v n"
      unfolding mask_bits varint_marks foldl.simps by cases (auto simp: bit_simps dest: low_bits [OF assms(3), rotated])
  qed
  have e: "varint_encode v = ?b # ?bs" "varint_len v = 4" using assms by (simp_all only: varint_encode_def varint_len_def to_be32_def mark_first.simps if_True if_False)
  have l: "2 ^ 2 = Suc (length ?bs)" "Suc (length ?bs) = 4" by simp_all
  show ?thesis unfolding e using varint_decode_at [OF d l(1), of rest] unfolding f l(2) by simp
qed

lemma varint_read8:
  assumes "\<not> v < 2 ^ 6" "\<not> v < 2 ^ 14" "\<not> v < 2 ^ 30" "v < 2 ^ 62"
  shows "varint_decode (varint_encode v @ rest) = Inr (v, varint_len v)"
proof -
  let ?b = "(ucast (drop_bit 56 v) :: byte) OR 0xC0" and ?bs = "tl (to_be64 v)"
  have "drop_bit 6 ?b = 3"
    unfolding varint_marks by (rule bit_word_eqI) (auto simp: bit_simps dest: low_bits [OF assms(4), rotated])
  then have d: "unat (drop_bit 6 ?b) = 3" by simp
  have "?b AND 0x3F = ucast (drop_bit 56 v)"
    unfolding mask_bits varint_marks by (rule bit_word_eqI) (auto simp: bit_simps dest: low_bits [OF assms(4), rotated])
  moreover have "be_value (ucast (ucast (drop_bit 56 v) :: byte)) ?bs = from_be64 (to_be64 v)"
    by (simp only: from_be64_def to_be64_def list.sel foldl.simps push_bit_of_0 or.left_neutral)
  ultimately have f: "be_value (ucast (?b AND 0x3F)) ?bs = v" by (simp only: from_be64_to_be64)
  have e: "varint_encode v = ?b # ?bs" "varint_len v = 8"
    using assms(1-3) by (simp_all only: varint_encode_def varint_len_def to_be64_def list.sel mark_first.simps if_True if_False)
  have l: "2 ^ 3 = Suc (length ?bs)" "Suc (length ?bs) = 8" by (simp_all add: to_be64_def)
  show ?thesis unfolding e using varint_decode_at [OF d l(1), of rest] unfolding f l(2) by simp
qed

lemma varint_read: "v \<le> VARINT_MAX \<Longrightarrow> varint_decode (varint_encode v @ rest) = Inr (v, varint_len v)"
proof -
  assume "v \<le> VARINT_MAX"
  then have "v < 2 ^ 62" by (simp add: word_le_nat_alt word_less_nat_alt)
  then show ?thesis using varint_read1 varint_read2 varint_read4 varint_read8 by blast
qed

lemma varint_len_encode: "length (varint_encode v) = varint_len v"
proof -
  have l: "length (mark_first m bs) = length bs" for m bs by (cases bs) simp_all
  show ?thesis by (simp add: varint_encode_def varint_len_def l)
qed

lemma varint_len_bounds: "1 \<le> varint_len v" "varint_len v \<le> 8"
  by (simp_all add: varint_len_def)

subsection \<open>Frame headers\<close>

abbreviation (input) FRAME_DATA :: u64 where "FRAME_DATA \<equiv> 0x00"
abbreviation (input) FRAME_HEADERS :: u64 where "FRAME_HEADERS \<equiv> 0x01"
abbreviation (input) FRAME_SETTINGS :: u64 where "FRAME_SETTINGS \<equiv> 0x04"

abbreviation (input) UNI_CONTROL :: u64 where "UNI_CONTROL \<equiv> 0x00"
abbreviation (input) UNI_QPACK_ENCODER :: u64 where "UNI_QPACK_ENCODER \<equiv> 0x02"
abbreviation (input) UNI_QPACK_DECODER :: u64 where "UNI_QPACK_DECODER \<equiv> 0x03"

abbreviation (input) MAX_UNI_BUFFER :: nat where "MAX_UNI_BUFFER \<equiv> 64 * 1024"
abbreviation (input) MAX_HEADERS_FRAME_LEN :: nat where "MAX_HEADERS_FRAME_LEN \<equiv> 256 * 1024"

record h3_frame =
  h3_ty :: u64
  h3_len :: u64

definition h3_encode_header :: "u64 \<Rightarrow> u64 \<Rightarrow> bytes" where
  "h3_encode_header ty len = varint_encode ty @ varint_encode len"

definition h3_decode_header :: "bytes \<Rightarrow> (h3_frame \<times> nat) result" where
  "h3_decode_header buf =
     bindR (varint_decode buf) (\<lambda>(ty, n1).
       bindR (varint_decode (drop n1 buf)) (\<lambda>(len, n2). Inr (\<lparr>h3_ty = ty, h3_len = len\<rparr>, n1 + n2)))"

subsection \<open>The connection\<close>

text \<open>What \<open>QuicConnection\<close> answers from here on: the ids of the streams it opens (\<open>None\<close> is an error) and the number of bytes
  every write accepts (\<open>None\<close> an error; once the script is used up, all of them).  \<open>q_sent\<close> is what has been accepted, in
  order, and \<open>q_finished\<close> the streams whose sending side was closed.\<close>

record quic_conn =
  q_open :: "u64 option list"
  q_writes :: "nat option list"
  q_finish_ok :: bool
  q_sent :: "(u64 \<times> bytes) list"
  q_finished :: "u64 list"

definition quic_open :: "string \<Rightarrow> quic_conn \<Rightarrow> u64 result \<times> quic_conn" where
  "quic_open message q =
     (case q_open q of
        Some sid # rest \<Rightarrow> (Inr sid, q\<lparr>q_open := rest\<rparr>)
      | None # rest \<Rightarrow> (Inl (BadResponse message), q\<lparr>q_open := rest\<rparr>)
      | [] \<Rightarrow> (Inl (BadResponse message), q))"

definition quic_write :: "u64 \<Rightarrow> bytes \<Rightarrow> quic_conn \<Rightarrow> nat result \<times> quic_conn" where
  "quic_write sid data q =
     (case q_writes q of
        [] \<Rightarrow> (Inr (length data), q\<lparr>q_sent := q_sent q @ [(sid, data)]\<rparr>)
      | None # rest \<Rightarrow> (Inl (BadResponse ''http3: stream write: {e:?}''), q\<lparr>q_writes := rest\<rparr>)
      | Some n # rest \<Rightarrow> (Inr (min n (length data)), q\<lparr>q_writes := rest, q_sent := q_sent q @ [(sid, take n data)]\<rparr>))"

function h3_write_all :: "u64 \<Rightarrow> bytes \<Rightarrow> quic_conn \<Rightarrow> unit result \<times> quic_conn" where
  "h3_write_all sid data q =
     (if data = [] then (Inr (), q)
      else (case quic_write sid data q of
              (Inl e, q) \<Rightarrow> (Inl e, q)
            | (Inr n, q) \<Rightarrow>
                if n = 0 then (Inl (BadResponse ''http3: stream write blocked (flow control)''), q)
                else h3_write_all sid (drop n data) q))"
  by pat_completeness auto
termination by (relation "measure (\<lambda>(sid, data, q). length data)") auto

declare h3_write_all.simps [simp del]

definition quic_finish :: "u64 \<Rightarrow> quic_conn \<Rightarrow> unit result \<times> quic_conn" where
  "quic_finish sid q =
     (if q_finish_ok q then (Inr (), q\<lparr>q_finished := q_finished q @ [sid]\<rparr>)
      else (Inl (BadResponse ''http3: stream finish: {e:?}''), q))"

definition control_stream_bytes :: bytes where
  "control_stream_bytes =
     (let settings = varint_encode 0x01 @ varint_encode 4096 @ varint_encode 0x07 @ varint_encode 0
      in varint_encode UNI_CONTROL @ h3_encode_header FRAME_SETTINGS (of_nat (length settings)) @ settings)"

definition open_control_stream :: "quic_conn \<Rightarrow> unit result \<times> quic_conn" where
  "open_control_stream q =
     bindS (quic_open ''http3: open_uni: {e:?}'' q) (\<lambda>sid q. h3_write_all sid control_stream_bytes q)"

definition open_qpack_streams :: "quic_conn \<Rightarrow> u64 option \<times> quic_conn" where
  "open_qpack_streams q =
     (let q = (case quic_open [] q of
                 (Inl e, q) \<Rightarrow> q
               | (Inr enc, q) \<Rightarrow> snd (h3_write_all enc (varint_encode UNI_QPACK_ENCODER) q))
      in case quic_open [] q of
           (Inl e, q) \<Rightarrow> (None, q)
         | (Inr dec, q) \<Rightarrow>
             (case h3_write_all dec (varint_encode UNI_QPACK_DECODER) q of
                (Inl e, q) \<Rightarrow> (None, q)
              | (Inr _, q) \<Rightarrow> (Some dec, q)))"

definition encode_section_ack :: "u64 \<Rightarrow> bytes" where
  "encode_section_ack stream_id = qencode_int stream_id 7 0x80"

subsection \<open>The request\<close>

definition h3_skipped_header :: "string \<Rightarrow> bool" where
  "h3_skipped_header kl \<longleftrightarrow> starts_with '':'' kl \<or>
     kl \<in> {''host'', ''connection'', ''transfer-encoding'', ''upgrade'', ''keep-alive'', ''proxy-connection''}"

text \<open>The loop over the caller's headers: fields, and whether \<open>user-agent\<close> and \<open>accept-encoding\<close> are among them.\<close>

fun h3_user_fields :: "(string \<times> string) list \<Rightarrow> bool \<Rightarrow> bool \<Rightarrow> field list \<times> bool \<times> bool" where
  "h3_user_fields [] ua_given enc_given = ([], ua_given, enc_given)"
| "h3_user_fields ((k, v) # hs) ua_given enc_given =
     (let kl = to_ascii_lowercase k
      in if h3_skipped_header kl then h3_user_fields hs ua_given enc_given
         else let (fs, flags) = h3_user_fields hs (ua_given \<or> kl = ''user-agent'') (enc_given \<or> kl = ''accept-encoding'')
           in ((kl, v) # fs, flags))"

definition h3_request_fields :: "request \<Rightarrow> field list" where
  "h3_request_fields req =
     (let u = rq_url req;
          host_port = (if u_port u = 443 then u_host u else u_host u @ '':'' @ show_nat (unat (u_port u)));
          (fs, ua_given, enc_given) = h3_user_fields (rq_headers req) False False
      in [('':method'', rq_method req), ('':scheme'', ''https''), ('':authority'', host_port), ('':path'', u_path u)] @ fs
         @ (if \<not> ua_given then [(''user-agent'', ''rsurl/0.0.4'')] else [])
         @ (if \<not> enc_given then [(''accept-encoding'', ''gzip, deflate'')] else [])
         @ (if rq_body req \<noteq> [] then [(''content-length'', show_nat (length (rq_body req)))] else []))"

definition h3_request_bytes :: "request \<Rightarrow> bytes" where
  "h3_request_bytes req =
     (let qpack_payload = encode_field_section (h3_request_fields req)
      in h3_encode_header FRAME_HEADERS (of_nat (length qpack_payload)) @ qpack_payload
         @ (if rq_body req \<noteq> [] then h3_encode_header FRAME_DATA (of_nat (length (rq_body req))) @ rq_body req else []))"

definition h3_write_request :: "u64 \<Rightarrow> request \<Rightarrow> quic_conn \<Rightarrow> unit result \<times> quic_conn" where
  "h3_write_request sid req q = bindS (h3_write_all sid (h3_request_bytes req) q) (\<lambda>_ q. quic_finish sid q)"

subsection \<open>The server's unidirectional streams\<close>

record uni_state =
  us_buf :: bytes
  us_ty :: "u64 option"

record http3_state =
  hs_table :: dynamic_table
  hs_decoder :: "u64 option"
  hs_uni :: "u64 \<rightharpoonup> uni_state"

definition http3_new :: "u64 option \<Rightarrow> http3_state" where
  "http3_new decoder_stream = \<lparr>hs_table = dt_new, hs_decoder = decoder_stream, hs_uni = Map.empty\<rparr>"

text \<open>\<open>entry(sid).or_default()\<close> and writing the entry back.\<close>

definition uni_entry :: "u64 \<Rightarrow> http3_state \<Rightarrow> uni_state" where
  "uni_entry sid s = (case hs_uni s sid of Some u \<Rightarrow> u | None \<Rightarrow> \<lparr>us_buf = [], us_ty = None\<rparr>)"

definition set_uni :: "u64 \<Rightarrow> uni_state \<Rightarrow> http3_state \<Rightarrow> http3_state" where
  "set_uni sid u s = s\<lparr>hs_uni := (hs_uni s)(sid \<mapsto> u)\<rparr>"

text \<open>The reads of one pass over a stream: what each returns, until one is empty or fails (the end of the list).\<close>

fun read_uni :: "u64 \<Rightarrow> bytes list \<Rightarrow> http3_state \<Rightarrow> unit result \<times> http3_state" where
  "read_uni sid [] s = (Inr (), s)"
| "read_uni sid (c # cs) s =
     (if c = [] then (Inr (), s)
      else let u = uni_entry sid s
        in if length (us_buf u) + length c > MAX_UNI_BUFFER
           then (Inl (BadResponse ''http3: server uni-stream buffer exceeded limit''), set_uni sid u s)
           else read_uni sid cs (set_uni sid (u\<lparr>us_buf := us_buf u @ c\<rparr>) s))"

definition process_uni_stream :: "u64 \<Rightarrow> http3_state \<Rightarrow> unit result \<times> http3_state" where
  "process_uni_stream sid s =
     (let u = uni_entry sid s; s = set_uni sid u s;
          u = (if us_ty u = None then
                 (case varint_decode (us_buf u) of
                    Inr (ty, used) \<Rightarrow> u\<lparr>us_ty := Some ty, us_buf := drop used (us_buf u)\<rparr>
                  | Inl _ \<Rightarrow> u)
               else u);
          s = set_uni sid u s
      in if us_ty u = None then (Inr (), s)
         else if us_ty u = Some UNI_QPACK_ENCODER then
           (case apply_encoder_instructions (us_buf u) (hs_table s) of
              (Inl e, t) \<Rightarrow> (Inl e, s\<lparr>hs_table := t\<rparr>)
            | (Inr consumed, t) \<Rightarrow> (Inr (), set_uni sid (u\<lparr>us_buf := drop consumed (us_buf u)\<rparr>) (s\<lparr>hs_table := t\<rparr>)))
         else (Inr (), set_uni sid (u\<lparr>us_buf := []\<rparr>) s))"

fun drain_uni_streams :: "(u64 \<times> bytes list) list \<Rightarrow> http3_state \<Rightarrow> unit result \<times> http3_state" where
  "drain_uni_streams [] s = (Inr (), s)"
| "drain_uni_streams ((sid, reads) # rest) s =
     bindS (read_uni sid reads s) (\<lambda>_ s. bindS (process_uni_stream sid s) (\<lambda>_ s. drain_uni_streams rest s))"

subsection \<open>The response\<close>

record h3_reader =
  hr_state :: http3_state
  hr_conn :: quic_conn
  hr_buf :: bytes
  hr_headers :: "field list option"
  hr_body :: bytes

datatype frame_outcome = Consumed nat bool | NeedMore | FrameErr error

text \<open>\<open>try_consume_frame\<close>, with the new values of \<open>headers\<close> and \<open>body\<close>.\<close>

definition try_consume_frame ::
  "bytes \<Rightarrow> field list option \<Rightarrow> bytes \<Rightarrow> dynamic_table \<Rightarrow> frame_outcome \<times> field list option \<times> bytes" where
  "try_consume_frame buf headers body t =
     (case h3_decode_header buf of
        Inl e \<Rightarrow> (NeedMore, headers, body)
      | Inr (f, hdr_len) \<Rightarrow>
          if h3_ty f = FRAME_HEADERS \<and> unat (h3_len f) > MAX_HEADERS_FRAME_LEN
          then (FrameErr (BadResponse ''http3: HEADERS frame length exceeds limit''), headers, body)
          else if h3_ty f = FRAME_DATA \<and> unat (h3_len f) > MAX_RESPONSE_BYTES - length body
          then (FrameErr (BadResponse ''http3: DATA frame length exceeds response budget''), headers, body)
          else let stop = saturating_add_usize hdr_len (unat (h3_len f))
            in if length buf < stop then (NeedMore, headers, body)
               else let payload = take (stop - hdr_len) (drop hdr_len buf)
                 in if h3_ty f = FRAME_HEADERS then
                      (case decode_field_section_with payload t of
                         Inl e \<Rightarrow> (FrameErr e, headers, body)
                       | Inr fs \<Rightarrow>
                           (Consumed stop (block_references_dynamic_table payload),
                            if headers \<noteq> None then headers else Some fs, body))
                    else if h3_ty f = FRAME_DATA then (Consumed stop False, headers, body @ payload)
                    else (Consumed stop False, headers, body))"

definition send_section_ack :: "u64 \<Rightarrow> http3_state \<Rightarrow> quic_conn \<Rightarrow> quic_conn" where
  "send_section_ack request_sid s q =
     (case hs_decoder s of
        None \<Rightarrow> q
      | Some dec \<Rightarrow> snd (h3_write_all dec (encode_section_ack request_sid) q))"

lemma varint_decode_used: "varint_decode buf = Inr (v, n) \<Longrightarrow> 0 < n \<and> n \<le> length buf"
  by (auto simp: varint_decode_def Let_def split: list.splits if_splits)

lemma h3_header_used: "h3_decode_header buf = Inr (f, n) \<Longrightarrow> 0 < n \<and> n \<le> length buf"
  by (fastforce simp: h3_decode_header_def bindR_eq_Inr dest: varint_decode_used)

lemma consumed_pos: "try_consume_frame buf headers body t = (Consumed n ack, r) \<Longrightarrow> 0 < n \<and> n \<le> length buf"
  by (fastforce simp: try_consume_frame_def Let_def saturating_add_usize_def
      dest: h3_header_used split: sum.splits prod.splits if_splits)

text \<open>The loop that peels frames off the buffer of the request stream \<open>sid\<close>.\<close>

function peel_frames :: "u64 \<Rightarrow> h3_reader \<Rightarrow> unit result \<times> h3_reader" where
  "peel_frames sid r =
     (case try_consume_frame (hr_buf r) (hr_headers r) (hr_body r) (hs_table (hr_state r)) of
        (NeedMore, hs, body) \<Rightarrow> (Inr (), r\<lparr>hr_headers := hs, hr_body := body\<rparr>)
      | (FrameErr e, hs, body) \<Rightarrow> (Inl e, r\<lparr>hr_headers := hs, hr_body := body\<rparr>)
      | (Consumed n ack, hs, body) \<Rightarrow>
          let q = (if ack then send_section_ack sid (hr_state r) (hr_conn r) else hr_conn r);
              r' = r\<lparr>hr_conn := q, hr_buf := drop n (hr_buf r), hr_headers := hs, hr_body := body\<rparr>
          in if hr_buf r' = [] then (Inr (), r') else peel_frames sid r')"
  by pat_completeness auto
termination
  by (relation "measure (\<lambda>(sid, r). length (hr_buf r))") (auto dest!: consumed_pos [OF sym])

declare peel_frames.simps [simp del]

text \<open>One turn of the read loop as the world answers it: the deadline, \<open>is_closed\<close>, what the readable unidirectional streams
  return, the read of the request stream (\<open>None\<close> is an error) and how \<open>pump_once\<close> ends.\<close>

record h3_tick =
  tk_late :: bool
  tk_closed :: bool
  tk_uni :: "(u64 \<times> bytes list) list"
  tk_read :: "(bytes \<times> bool) option"
  tk_pump :: "unit result"

text \<open>The part of a turn before \<open>pump_once\<close>; its value says whether the stream has ended.\<close>

definition read_turn :: "u64 \<Rightarrow> h3_tick \<Rightarrow> h3_reader \<Rightarrow> bool result \<times> h3_reader" where
  "read_turn sid k r =
     (if tk_late k then (Inl (Io TimedOut), r)
      else if tk_closed k then (Inl (BadResponse ''http3: peer closed connection''), r)
      else case drain_uni_streams (tk_uni k) (hr_state r) of
             (Inl e, s) \<Rightarrow> (Inl e, r\<lparr>hr_state := s\<rparr>)
           | (Inr _, s) \<Rightarrow>
               let r = r\<lparr>hr_state := s\<rparr>
               in case tk_read k of
                    None \<Rightarrow> (Inl (BadResponse ''http3: stream read: {e:?}''), r)
                  | Some (c, fin) \<Rightarrow>
                      if c \<noteq> [] \<and> length (hr_buf r) + length c > MAX_RESPONSE_BYTES
                      then (Inl (BadResponse ''http3: response too large''), r)
                      else bindS (peel_frames sid (r\<lparr>hr_buf := hr_buf r @ c\<rparr>)) (\<lambda>_ r.
                             if fin \<and> hr_buf r \<noteq> []
                             then (Inl (BadResponse ''http3: stream FIN with partial frame in buffer''), r)
                             else (Inr fin, r)))"

fun read_loop :: "u64 \<Rightarrow> h3_tick list \<Rightarrow> h3_reader \<Rightarrow> unit result option \<times> h3_reader" where
  "read_loop sid [] r = (None, r)"
| "read_loop sid (k # ks) r =
     (case read_turn sid k r of
        (Inl e, r) \<Rightarrow> (Some (Inl e), r)
      | (Inr True, r) \<Rightarrow> (Some (Inr ()), r)
      | (Inr False, r) \<Rightarrow> (case tk_pump k of Inl e \<Rightarrow> (Some (Inl e), r) | Inr _ \<Rightarrow> read_loop sid ks r))"

fun h3_response_fields :: "field list \<Rightarrow> u16 option \<Rightarrow> field list \<Rightarrow> (u16 option \<times> field list) result" where
  "h3_response_fields [] status hdrs = Inr (status, hdrs)"
| "h3_response_fields ((k, v) # fs) status hdrs =
     (if k = '':status'' then
        (case parse_u16 v of
           None \<Rightarrow> Inl (BadResponse ''http3: bad :status {v:?}'')
         | Some s \<Rightarrow> h3_response_fields fs (Some s) hdrs)
      else if starts_with '':'' k then h3_response_fields fs status hdrs
      else h3_response_fields fs status (hdrs @ [(k, v)]))"

definition h3_finalize_response :: "decoders \<Rightarrow> field list \<Rightarrow> bytes \<Rightarrow> response result" where
  "h3_finalize_response A fs body =
     bindR (h3_response_fields fs None []) (\<lambda>(status, hdrs).
       case status of
         None \<Rightarrow> Inl (BadResponse ''http3: missing :status'')
       | Some st \<Rightarrow>
           bindR (maybe_decode_body A hdrs body) (\<lambda>(hdrs, body).
             Inr \<lparr>rs_status = st, rs_reason = [], rs_version = ''HTTP/3'', rs_headers = hdrs, rs_body = body\<rparr>))"

definition reader_new :: "http3_state \<Rightarrow> quic_conn \<Rightarrow> h3_reader" where
  "reader_new s q = \<lparr>hr_state = s, hr_conn = q, hr_buf = [], hr_headers = None, hr_body = []\<rparr>"

definition h3_read_response ::
  "decoders \<Rightarrow> u64 \<Rightarrow> h3_tick list \<Rightarrow> http3_state \<Rightarrow> quic_conn \<Rightarrow> response result option \<times> h3_reader" where
  "h3_read_response A sid ks s q =
     (case read_loop sid ks (reader_new s q) of
        (None, r) \<Rightarrow> (None, r)
      | (Some (Inl e), r) \<Rightarrow> (Some (Inl e), r)
      | (Some (Inr _), r) \<Rightarrow>
          (Some (case hr_headers r of
                   None \<Rightarrow> Inl (BadResponse ''http3: no HEADERS frame'')
                 | Some fs \<Rightarrow> h3_finalize_response A fs (hr_body r)), r))"

subsection \<open>A whole exchange\<close>

text \<open>A turn of the handshake loop: \<open>is_handshake_complete\<close>, the deadline, the result of \<open>pump_once\<close>, \<open>is_closed\<close>.\<close>

fun h3_handshake :: "(bool \<times> bool \<times> unit result \<times> bool) list \<Rightarrow> unit result option" where
  "h3_handshake [] = None"
| "h3_handshake ((complete, late, pumped, closed) # turns) =
     (if complete then Some (Inr ())
      else if late then Some (Inl (Io TimedOut))
      else case pumped of
             Inl e \<Rightarrow> Some (Inl e)
           | Inr _ \<Rightarrow>
               if closed then Some (Inl (BadResponse ''http3: connection closed mid-handshake'')) else h3_handshake turns)"

text \<open>The world of one exchange: how \<open>build_client\<close> and \<open>open_udp\<close> end, the turns of the handshake, the connection afterwards, the
  three flushing turns before the response is read, and the turns of the read loop.\<close>

record h3_world =
  w_client :: "unit result"
  w_udp :: "unit result"
  w_handshake :: "(bool \<times> bool \<times> unit result \<times> bool) list"
  w_conn :: quic_conn
  w_pumps :: "unit result list"
  w_ticks :: "h3_tick list"

fun h3_pump :: "unit result list \<Rightarrow> unit result" where
  "h3_pump [] = Inr ()"
| "h3_pump (p # ps) = bindR p (\<lambda>_. h3_pump ps)"

text \<open>From the open connection on.\<close>

definition h3_exchange :: "decoders \<Rightarrow> h3_world \<Rightarrow> request \<Rightarrow> response result option \<times> quic_conn" where
  "h3_exchange A w req =
     (let q = snd (open_control_stream (w_conn w)); (decoder_stream, q) = open_qpack_streams q
      in case quic_open ''http3: open_bidi failed: {e:?}'' q of
           (Inl e, q) \<Rightarrow> (Some (Inl e), q)
         | (Inr sid, q) \<Rightarrow>
             (case h3_write_request sid req q of
                (Inl e, q) \<Rightarrow> (Some (Inl e), q)
              | (Inr _, q) \<Rightarrow>
                  (case h3_pump (take 3 (w_pumps w)) of
                     Inl e \<Rightarrow> (Some (Inl e), q)
                   | Inr _ \<Rightarrow>
                       let (out, r) = h3_read_response A sid (w_ticks w) (http3_new decoder_stream) q in (out, hr_conn r))))"

definition h3_send :: "decoders \<Rightarrow> h3_world \<Rightarrow> request \<Rightarrow> response result option \<times> quic_conn" where
  "h3_send A w req =
     (if u_scheme (rq_url req) \<noteq> ''https''
      then (Some (Inl (UnsupportedScheme ''http/3 requires https://, not {}://'')), w_conn w)
      else case bindR (w_client w) (\<lambda>_. w_udp w) of
             Inl e \<Rightarrow> (Some (Inl e), w_conn w)
           | Inr _ \<Rightarrow>
               (case h3_handshake (w_handshake w) of
                  None \<Rightarrow> (None, w_conn w)
                | Some (Inl e) \<Rightarrow> (Some (Inl e), w_conn w)
                | Some (Inr _) \<Rightarrow> h3_exchange A w req))"

end
