(* ===== verification/Line_IO.thy ===== *)
theory Line_IO
  imports Net_IO
begin

text \<open>
  What the protocols of lines share: a buffered read up to a line feed, the same as a string, command lines that are refused when
  they hold a line break, and how lines written back to back are read one by one.
\<close>

abbreviation (input) CRLF :: bytes where "CRLF \<equiv> [0x0D, 0x0A]"

subsection \<open>Reading\<close>

text \<open>\<open>BufRead::read_until(b'\n')\<close>: through the first line feed, or what is left at the end of the input.\<close>

definition read_until_lf :: "transport \<Rightarrow> (io_kind + bytes) \<times> transport" where
  "read_until_lf t =
     (case position (\<lambda>b. b = 0x0A) (t_in t) of
        Some i \<Rightarrow> (Inr (take (Suc i) (t_in t)), t\<lparr>t_in := drop (Suc i) (t_in t)\<rparr>)
      | None \<Rightarrow>
          if t_end t = IoUnexpectedEof then (Inr (t_in t), t\<lparr>t_in := []\<rparr>) else (Inl (t_end t), t\<lparr>t_in := []\<rparr>))"

text \<open>\<open>BufRead::read_line\<close>: the same, as UTF-8; empty only at the end of the input.\<close>

definition buf_read_line :: "transport \<Rightarrow> string result \<times> transport" where
  "buf_read_line t =
     (case read_until_lf t of
        (Inl k, t) \<Rightarrow> (Inl (Io k), t)
      | (Inr raw, t) \<Rightarrow> (case from_utf8 raw of None \<Rightarrow> (Inl (Io InvalidData), t) | Some s \<Rightarrow> (Inr s, t)))"

text \<open>\<open>read_line\<close> of several modules: the end of the input is an error.\<close>

definition net_read_line :: "transport \<Rightarrow> string result \<times> transport" where
  "net_read_line t = bindS (buf_read_line t) (\<lambda>s t. if s = [] then (Inl UnexpectedEof, t) else (Inr s, t))"

lemma position_append_first: "\<forall>x\<in>set xs. \<not> P x \<Longrightarrow> P y \<Longrightarrow> position P (xs @ y # ys) = Some (length xs)"
  by (induction xs) simp_all

lemma net_until_line: "0x0A \<notin> set l \<Longrightarrow> read_until_lf (t\<lparr>t_in := l @ 0x0A # rest\<rparr>) = (Inr (l @ [0x0A]), t\<lparr>t_in := rest\<rparr>)"
proof -
  assume "0x0A \<notin> set l"
  then have "position (\<lambda>b. b = 0x0A) (l @ 0x0A # rest) = Some (length l)" by (intro position_append_first) auto
  then show ?thesis by (simp add: read_until_lf_def)
qed

lemma read_until_lf_shrinks: "read_until_lf t = (Inr raw, t') \<Longrightarrow> raw \<noteq> [] \<Longrightarrow> length (t_in t') < length (t_in t)"
  by (auto simp: read_until_lf_def split: option.splits if_splits dest!: position_SomeD)

lemma read_until_lf_out [simp]: "t_out (snd (read_until_lf t)) = t_out t" "t_cap (snd (read_until_lf t)) = t_cap t"
  by (auto simp: read_until_lf_def split: option.split)

lemma buf_read_line_out [simp]: "t_out (snd (buf_read_line t)) = t_out t" "t_cap (snd (buf_read_line t)) = t_cap t"
proof -
  obtain r t' where "read_until_lf t = (r, t')" by fastforce
  with read_until_lf_out [of t] show "t_out (snd (buf_read_line t)) = t_out t" "t_cap (snd (buf_read_line t)) = t_cap t"
    by (simp_all add: buf_read_line_def split: sum.split option.split)
qed

lemma net_read_line_out [simp]: "t_out (snd (net_read_line t)) = t_out t" "t_cap (snd (net_read_line t)) = t_cap t"
proof -
  obtain r t' where "buf_read_line t = (r, t')" by fastforce
  with buf_read_line_out [of t] show "t_out (snd (net_read_line t)) = t_out t" "t_cap (snd (net_read_line t)) = t_cap t"
    by (cases r; simp add: net_read_line_def)+
qed

lemma net_read_line_shrinks:
  assumes "net_read_line t = (Inr s, t')"
  shows "length (t_in t') < length (t_in t)"
proof -
  from assms obtain raw where r: "read_until_lf t = (Inr raw, t')" "from_utf8 raw = Some s" "s \<noteq> []"
    by (auto simp: net_read_line_def buf_read_line_def bindS_eq_Inr split: prod.splits sum.splits option.splits if_splits)
  then have "raw \<noteq> []" by (auto simp: from_utf8_def str_of_def split: if_splits)
  with r(1) show ?thesis by (rule read_until_lf_shrinks)
qed

text \<open>A line of text: no line break in it, and UTF-8.\<close>

definition line_text :: "string \<Rightarrow> bool" where
  "line_text s \<longleftrightarrow> valid_str s \<and> CHR 0x0A \<notin> set s \<and> CHR 0x0D \<notin> set s"

definition line_bytes_of :: "string \<Rightarrow> bytes" where
  "line_bytes_of s = bytes_of s @ CRLF"

lemma of_char_byte_iff: "(of_char c :: byte) = of_char d \<longleftrightarrow> c = d"
proof
  assume "(of_char c :: byte) = of_char d"
  then have "char_of (unat (of_char c :: byte)) = (char_of (unat (of_char d :: byte)) :: char)" by simp
  then show "c = d" by (simp add: unat_of_char)
qed simp

lemma bytes_of_member: "of_char c \<in> set (bytes_of s) \<longleftrightarrow> c \<in> set s"
  by (auto simp: bytes_of_def of_char_byte_iff)

lemma bytes_of_lf: "0x0A \<in> set (bytes_of s) \<longleftrightarrow> CHR 0x0A \<in> set s" "0x0D \<in> set (bytes_of s) \<longleftrightarrow> CHR 0x0D \<in> set s"
  using bytes_of_member [of "CHR 0x0A" s] bytes_of_member [of "CHR 0x0D" s] by simp_all

text \<open>A line written by the other side, read as text.\<close>

lemma from_utf8_line: "line_text s \<Longrightarrow> from_utf8 (line_bytes_of s) = Some (s @ [CHR 0x0D, CHR 0x0A])"
proof -
  assume "line_text s"
  moreover have "valid_str [CHR 0x0D, CHR 0x0A]" by (simp add: valid_str_def bytes_of_def)
  ultimately have "valid_str (s @ [CHR 0x0D, CHR 0x0A])" unfolding line_text_def by (blast intro: valid_str_append)
  moreover have "bytes_of (s @ [CHR 0x0D, CHR 0x0A]) = line_bytes_of s" by (simp add: bytes_of_def line_bytes_of_def)
  ultimately show ?thesis by (metis from_utf8_bytes_of)
qed

lemma read_until_text: "line_text s \<Longrightarrow> read_until_lf (t\<lparr>t_in := line_bytes_of s @ rest\<rparr>) = (Inr (line_bytes_of s), t\<lparr>t_in := rest\<rparr>)"
  using net_until_line [where l = "bytes_of s @ [0x0D]" and rest = rest and t = t] by (simp add: line_text_def line_bytes_of_def bytes_of_lf)

lemma net_read_text: "line_text s \<Longrightarrow> net_read_line (t\<lparr>t_in := line_bytes_of s @ rest\<rparr>) = (Inr (s @ [CHR 0x0D, CHR 0x0A]), t\<lparr>t_in := rest\<rparr>)"
  by (simp add: net_read_line_def buf_read_line_def read_until_text from_utf8_line)

subsection \<open>Command lines\<close>

text \<open>\<open>send\<close> of several modules: the line is refused when it holds CR, LF or NUL.\<close>

definition send_command :: "string \<Rightarrow> string \<Rightarrow> transport \<Rightarrow> unit result \<times> transport" where
  "send_command message cmd t =
     (if list_ex (\<lambda>c. c = CHR 0x0D \<or> c = CHR 0x0A \<or> c = CHR 0x00) cmd then (Inl (BadResponse message), t)
      else let (r, t) = bindS (write_all (bytes_of cmd) t) (\<lambda>_ t. bindS (write_all CRLF t) (\<lambda>_ t. flush t)) in (liftIo r, t))"

text \<open>\<open>reject_ctl\<close> of several modules.\<close>

definition reject_controls :: "string \<Rightarrow> string \<Rightarrow> unit result" where
  "reject_controls message s =
     (if list_ex (\<lambda>c. (of_char c :: nat) < 0x20 \<or> (of_char c :: nat) = 0x7F) s then Inl (BadResponse message) else Inr ())"

definition printable :: "string \<Rightarrow> bool" where
  "printable s \<longleftrightarrow> list_all (\<lambda>c. 0x20 \<le> (of_char c :: nat) \<and> (of_char c :: nat) \<noteq> 0x7F) s"

lemma reject_controls_Inr: "reject_controls message s = Inr u \<longleftrightarrow> printable s"
proof -
  have "list_ex (\<lambda>c. (of_char c :: nat) < 0x20 \<or> (of_char c :: nat) = 0x7F) s \<longleftrightarrow> \<not> printable s"
    unfolding printable_def list_ex_iff list_all_iff by (metis not_less)
  then show ?thesis by (simp add: reject_controls_def)
qed

lemma printable_append [simp]: "printable (s @ s') \<longleftrightarrow> printable s \<and> printable s'"
  by (simp add: printable_def)

lemma printable_command: "printable s \<Longrightarrow> \<not> list_ex (\<lambda>c. c = CHR 0x0D \<or> c = CHR 0x0A \<or> c = CHR 0x00) s"
  by (auto simp: printable_def list_all_iff list_ex_iff)

lemma send_command_in [simp]: "t_in (snd (send_command message cmd t)) = t_in t"
proof -
  have "t_in (snd (bindS (write_all (bytes_of cmd) t) (\<lambda>_ t. bindS (write_all CRLF t) (\<lambda>_ t. flush t)))) = t_in t"
    by (rule bindS_state [where P = "\<lambda>s. t_in s = t_in t"], simp, rule bindS_state [where P = "\<lambda>s. t_in s = t_in t"]) simp_all
  then show ?thesis by (simp add: send_command_def case_prod_unfold Let_def)
qed

lemma send_command_unbounded:
  "t_cap t = None \<Longrightarrow> send_command message cmd t =
     (if list_ex (\<lambda>c. c = CHR 0x0D \<or> c = CHR 0x0A \<or> c = CHR 0x00) cmd then (Inl (BadResponse message), t)
      else (Inr (), t\<lparr>t_out := t_out t @ line_bytes_of cmd\<rparr>))"
  by (simp add: send_command_def line_bytes_of_def)

end
