(* ===== verification/Pop3.thy ===== *)
theory Pop3
  imports Line_IO
begin

text \<open>
  POP3 (\<open>src/src/pop3.rs\<close>, RFC 1939): the URL, the conversation, and dot-stuffing undone.  Connecting, with and without TLS, is a
  parameter that gives the transport.  Proved: a message is returned as it was stored, and nothing but the intended commands is sent.
\<close>

subsection \<open>URLs\<close>

datatype pop3_action = Pop3List | Pop3Retr u32

definition pop3_split_userinfo :: "string \<Rightarrow> string \<times> string" where
  "pop3_split_userinfo s = (case find_char CHR '':'' s of Some i \<Rightarrow> (take i s, drop (i + 1) s) | None \<Rightarrow> (s, []))"

definition pop3_parse_path :: "string \<Rightarrow> pop3_action option" where
  "pop3_parse_path path =
     (let trimmed = (case strip_prefix ''/'' path of Some r \<Rightarrow> r | None \<Rightarrow> path)
      in if trimmed = [] then Some Pop3List
         else if CHR ''/'' \<in> set trimmed \<or> CHR ''?'' \<in> set trimmed \<or> CHR ''#'' \<in> set trimmed then None
         else map_option (\<lambda>n. Pop3Retr (of_nat n)) (parse_unsigned (2 ^ 32 - 1) trimmed))"

subsection \<open>The conversation\<close>

text \<open>The loop of \<open>un_dot_stuff\<close>; the flag is \<open>at_line_start\<close>.\<close>

fun un_dot :: "bool \<Rightarrow> bytes \<Rightarrow> bytes" where
  "un_dot at_line_start [] = []"
| "un_dot at_line_start (b # bs) =
     (if at_line_start \<and> b = 0x2E then un_dot False bs else b # un_dot (b = 0x0A) bs)"

definition un_dot_stuff :: "bytes \<Rightarrow> bytes" where
  "un_dot_stuff body = un_dot True body"

definition pop3_send :: "string \<Rightarrow> transport \<Rightarrow> unit result \<times> transport" where
  "pop3_send = send_command ''pop3: refusing to send command line with embedded CR/LF/NUL''"

definition pop3_read_line :: "transport \<Rightarrow> string result \<times> transport" where
  "pop3_read_line t =
     (case read_until_lf t of
        (Inl k, t) \<Rightarrow> (Inl (Io k), t)
      | (Inr buf, t) \<Rightarrow>
          if buf = [] then (Inl UnexpectedEof, t)
          else (case from_utf8 (rev (dropWhile (\<lambda>b. b = 0x0A \<or> b = 0x0D) (rev buf))) of
                  None \<Rightarrow> (Inl (BadResponse ''pop3: non-UTF8 status line''), t)
                | Some s \<Rightarrow> (Inr s, t)))"

definition pop3_read_status :: "transport \<Rightarrow> string result \<times> transport" where
  "pop3_read_status t =
     bindS (pop3_read_line t) (\<lambda>line t.
       (case strip_prefix ''+OK'' line of
          Some rest \<Rightarrow> Inr (case strip_prefix '' '' rest of Some r \<Rightarrow> r | None \<Rightarrow> rest)
        | None \<Rightarrow>
            (case strip_prefix ''-ERR'' line of
               Some rest \<Rightarrow> Inl (BadResponse ''pop3: {text}'')
             | None \<Rightarrow> Inl (BadResponse ''pop3: unexpected status line: {line}'')), t))"

function read_multiline :: "bytes \<Rightarrow> transport \<Rightarrow> bytes result \<times> transport" where
  "read_multiline out t =
     (case read_until_lf t of
        (Inl k, t) \<Rightarrow> (Inl (Io k), t)
      | (Inr line, t) \<Rightarrow>
          if line = [] then (Inl UnexpectedEof, t)
          else if line = [0x2E, 0x0D, 0x0A] \<or> line = [0x2E, 0x0A] then (Inr out, t)
          else read_multiline (out @ line) t)"
  by pat_completeness auto
termination by (relation "measure (\<lambda>(out, t). length (t_in t))") (auto dest: read_until_lf_shrinks [OF sym])

declare read_multiline.simps [simp del]

definition pop3_payload :: "pop3_action \<Rightarrow> transport \<Rightarrow> bytes result \<times> transport" where
  "pop3_payload action t =
     (case action of
        Pop3List \<Rightarrow>
          bindS (pop3_send ''LIST'' t) (\<lambda>_ t. bindS (pop3_read_status t) (\<lambda>_ t. read_multiline [] t))
      | Pop3Retr n \<Rightarrow>
          bindS (pop3_send (''RETR '' @ show_nat (unat n)) t) (\<lambda>_ t. bindS (pop3_read_status t) (\<lambda>_ t.
            bindS (read_multiline [] t) (\<lambda>raw t. (Inr (un_dot_stuff raw), t)))))"

definition pop3_login :: "string \<Rightarrow> string \<Rightarrow> transport \<Rightarrow> unit result \<times> transport" where
  "pop3_login user pass t =
     bindS (pop3_read_status t) (\<lambda>_ t.
     bindS (reject_controls ''pop3: {what} contains illegal control byte {b:#04x}'' user, t) (\<lambda>_ t.
     bindS (reject_controls ''pop3: {what} contains illegal control byte {b:#04x}'' pass, t) (\<lambda>_ t.
     bindS (pop3_send (''USER '' @ user) t) (\<lambda>_ t.
     bindS (pop3_read_status t) (\<lambda>_ t.
     bindS (pop3_send (''PASS '' @ pass) t) (\<lambda>_ t.
     bindS (pop3_read_status t) (\<lambda>_ t. (Inr (), t))))))))"

definition pop3_run :: "string \<Rightarrow> string \<Rightarrow> pop3_action \<Rightarrow> transport \<Rightarrow> bytes result \<times> transport" where
  "pop3_run user pass action t =
     bindS (pop3_login user pass t) (\<lambda>_ t.
     bindS (pop3_payload action t) (\<lambda>payload t.
       let (_, t) = pop3_send ''QUIT'' t; (_, t) = pop3_read_status t in (Inr payload, t)))"

definition pop3_fetch :: "(url \<Rightarrow> transport result) \<Rightarrow> (url \<Rightarrow> transport result) \<Rightarrow> url \<Rightarrow> bytes result" where
  "pop3_fetch connect connect_tls u =
     (case u_userinfo u of
        None \<Rightarrow> Inl (BadResponse ''pop3: missing userinfo'')
      | Some userinfo \<Rightarrow>
          let (user, pass) = pop3_split_userinfo userinfo
          in (case pop3_parse_path (u_path u) of
                None \<Rightarrow> Inl (InvalidUrl ''pop3 path: {}'')
              | Some action \<Rightarrow>
                  bindR (if is_tls u then connect_tls u else connect u) (\<lambda>t. fst (pop3_run user pass action t))))"

subsection \<open>A message is returned as it was stored\<close>

text \<open>A server's multi-line response by RFC 1939, 3: every line that starts with a dot gets another one.\<close>

definition stuffed :: "bytes \<Rightarrow> bytes" where
  "stuffed l = (if l \<noteq> [] \<and> hd l = 0x2E then 0x2E # l else l)"

definition multiline :: "bytes list \<Rightarrow> bytes" where
  "multiline ls = concat (map (\<lambda>l. stuffed l @ CRLF) ls) @ 0x2E # CRLF"

definition message_bytes :: "bytes list \<Rightarrow> bytes" where
  "message_bytes ls = concat (map (\<lambda>l. l @ CRLF) ls)"

lemma read_multiline_line:
  "0x0A \<notin> set l \<Longrightarrow> l @ [0x0A] \<noteq> [0x2E, 0x0D, 0x0A] \<Longrightarrow> l @ [0x0A] \<noteq> [0x2E, 0x0A] \<Longrightarrow>
     read_multiline out (t\<lparr>t_in := l @ 0x0A # rest\<rparr>) = read_multiline (out @ l @ [0x0A]) (t\<lparr>t_in := rest\<rparr>)"
  by (subst read_multiline.simps) (simp add: net_until_line)

lemma read_multiline_written:
  "\<forall>l\<in>set ls. 0x0A \<notin> set l \<Longrightarrow>
     read_multiline out (t\<lparr>t_in := multiline ls @ rest\<rparr>) = (Inr (out @ concat (map (\<lambda>l. stuffed l @ CRLF) ls)), t\<lparr>t_in := rest\<rparr>)"
proof (induction ls arbitrary: out)
  case Nil
  have "read_until_lf (t\<lparr>t_in := 0x2E # 0x0D # 0x0A # rest\<rparr>) = (Inr [0x2E, 0x0D, 0x0A], t\<lparr>t_in := rest\<rparr>)"
    using net_until_line [where l = "[0x2E, 0x0D]" and rest = rest and t = t] by simp
  then show ?case by (subst read_multiline.simps) (simp add: multiline_def)
next
  case (Cons l ls)
  have m: "multiline (l # ls) @ rest = (stuffed l @ [0x0D]) @ 0x0A # multiline ls @ rest" by (simp add: multiline_def)
  have "0x0A \<notin> set (stuffed l @ [0x0D])" using Cons.prems by (auto simp: stuffed_def)
  moreover have "stuffed l \<noteq> [0x2E]" by (cases l) (auto simp: stuffed_def)
  ultimately have "read_multiline out (t\<lparr>t_in := multiline (l # ls) @ rest\<rparr>) = read_multiline (out @ stuffed l @ CRLF) (t\<lparr>t_in := multiline ls @ rest\<rparr>)"
    unfolding m by (subst read_multiline_line) auto
  with Cons show ?case by simp
qed

lemma un_dot_inside: "0x0A \<notin> set l \<Longrightarrow> un_dot False (l @ 0x0A # rest) = l @ 0x0A # un_dot True rest"
  by (induction l) auto

lemma un_dot_line: "0x0A \<notin> set l \<Longrightarrow> un_dot True (stuffed l @ CRLF @ rest) = l @ CRLF @ un_dot True rest"
proof (cases l)
  case (Cons b bs)
  assume "0x0A \<notin> set l"
  with Cons un_dot_inside [of "bs @ [0x0D]" rest] show ?thesis by (auto simp: stuffed_def)
qed (simp add: stuffed_def)

lemma un_dot_stuffed: "\<forall>l\<in>set ls. 0x0A \<notin> set l \<Longrightarrow> un_dot True (concat (map (\<lambda>l. stuffed l @ CRLF) ls)) = message_bytes ls"
  unfolding message_bytes_def
proof (induction ls)
  case (Cons l ls)
  then show ?case using un_dot_line [of l "concat (map (\<lambda>l. stuffed l @ CRLF) ls)"] by simp
qed simp

definition status_text :: "string \<Rightarrow> string" where
  "status_text s = (case strip_prefix '' '' (drop (length ''+OK'') s) of Some r \<Rightarrow> r | None \<Rightarrow> drop (length ''+OK'') s)"

lemma status_read:
  assumes "line_text s" and "starts_with ''+OK'' s"
  shows "pop3_read_status (t\<lparr>t_in := line_bytes_of s @ rest\<rparr>) = (Inr (status_text s), t\<lparr>t_in := rest\<rparr>)"
proof -
  have ne: "bytes_of s \<noteq> []" using assms(2) by (auto simp: starts_with_def bytes_of_def)
  have "last (bytes_of s) \<in> set (bytes_of s)" using ne by simp
  then have "last (bytes_of s) \<noteq> 0x0A" "last (bytes_of s) \<noteq> 0x0D"
    using assms(1) bytes_of_lf [of s] unfolding line_text_def by metis+
  then have "rev (dropWhile (\<lambda>b. b = 0x0A \<or> b = 0x0D) (rev (line_bytes_of s))) = bytes_of s"
    using ne by (cases "bytes_of s" rule: rev_cases) (simp_all add: line_bytes_of_def)
  moreover have "from_utf8 (bytes_of s) = Some s" using assms(1) by (simp add: line_text_def from_utf8_bytes_of)
  ultimately have "pop3_read_line (t\<lparr>t_in := line_bytes_of s @ rest\<rparr>) = (Inr s, t\<lparr>t_in := rest\<rparr>)"
    using read_until_text [OF assms(1), where t = t and rest = rest] by (simp add: pop3_read_line_def) (simp add: line_bytes_of_def)
  with assms(2) show ?thesis by (simp add: pop3_read_status_def strip_prefix_def status_text_def)
qed

lemma read_line_keeps: "t_out (snd (pop3_read_line t)) = t_out t" "t_cap (snd (pop3_read_line t)) = t_cap t"
proof -
  obtain r t' where "read_until_lf t = (r, t')" by fastforce
  with read_until_lf_out [of t] show "t_out (snd (pop3_read_line t)) = t_out t" "t_cap (snd (pop3_read_line t)) = t_cap t"
    by (simp_all add: pop3_read_line_def split: sum.split option.split)
qed

lemma read_status_keeps: "t_out (snd (pop3_read_status t)) = t_out t"
proof -
  obtain r t' where "pop3_read_line t = (r, t')" by fastforce
  with read_line_keeps(1) [of t] show ?thesis by (cases r) (simp_all add: pop3_read_status_def)
qed

lemma printable_number: "printable (show_nat n)"
proof -
  have "0x20 \<le> (of_char c :: nat) \<and> (of_char c :: nat) \<noteq> 0x7F" if "c \<in> set (show_nat n)" for c
    using show_nat_digits [OF that] by linarith
  then show ?thesis unfolding printable_def list_all_iff by blast
qed

lemma pop3_sends: "t_cap t = None \<Longrightarrow> printable cmd \<Longrightarrow> pop3_send cmd t = (Inr (), t\<lparr>t_out := t_out t @ line_bytes_of cmd\<rparr>)"
  by (simp add: pop3_send_def send_command_unbounded printable_command)

text \<open>C35: for a server that follows RFC 1939, \<open>RETR\<close> returns the lines of the message exactly as they are stored, lines of dots included,
  and the commands sent are \<open>USER\<close>, \<open>PASS\<close>, \<open>RETR\<close> and \<open>QUIT\<close>, each on one line, with the credentials of the caller.\<close>

theorem pop3_message_retrieved:
  assumes "t_cap t = None" and "printable user" and "printable pass"
    and "list_all (\<lambda>s. line_text s \<and> starts_with ''+OK'' s) [greeting, ok1, ok2, ok3]" and "list_all (\<lambda>l. 0x0A \<notin> set l) msg"
    and "t_in t = concat (map line_bytes_of [greeting, ok1, ok2, ok3]) @ multiline msg @ rest"
  shows "\<exists>t'. pop3_run user pass (Pop3Retr n) t = (Inr (message_bytes msg), t') \<and>
    t_out t' = t_out t @ concat (map line_bytes_of [''USER '' @ user, ''PASS '' @ pass, ''RETR '' @ show_nat (unat n), ''QUIT''])"
proof -
  have "printable ''USER ''" "printable ''PASS ''" "printable ''RETR ''" "printable ''QUIT''" by (simp_all add: printable_def)
  then have p: "printable (''USER '' @ user)" "printable (''PASS '' @ pass)" "printable (''RETR '' @ show_nat (unat n))" "printable ''QUIT''"
    using assms(2,3) printable_number [of "unat n"] by (simp_all only: printable_append)
  have c: "reject_controls m user = Inr ()" "reject_controls m pass = Inr ()" for m
    using assms(2,3) reject_controls_Inr [of m user "()"] reject_controls_Inr [of m pass "()"] by simp_all
  let ?t = "\<lambda>i out. t\<lparr>t_in := i, t_out := out\<rparr>"
  have s: "pop3_read_status (?t (line_bytes_of w @ i) out) = (Inr (status_text w), ?t i out)" if "w \<in> {greeting, ok1, ok2, ok3}" for w i out
    using status_read [where s = w and t = "t\<lparr>t_out := out\<rparr>" and rest = i] assms(4) that by (auto simp: io_swap)
  have w: "pop3_send cmd (?t i out) = (Inr (), ?t i (out @ line_bytes_of cmd))" if "printable cmd" for cmd i out
    using that assms(1) by (subst pop3_sends) simp_all
  have m: "read_multiline [] (?t (multiline msg @ rest) out) = (Inr (concat (map (\<lambda>l. stuffed l @ CRLF) msg)), ?t rest out)" for out
    using read_multiline_written [where ls = msg and out = "[]" and t = "t\<lparr>t_out := out\<rparr>" and rest = rest] assms(5) by (auto simp: list_all_iff io_swap)
  have u: "un_dot_stuff (concat (map (\<lambda>l. stuffed l @ CRLF) msg)) = message_bytes msg"
    using un_dot_stuffed [of msg] assms(5) by (simp add: un_dot_stuff_def list_all_iff)
  let ?i1 = "line_bytes_of ok3 @ multiline msg @ rest" and ?o1 = "(t_out t @ line_bytes_of (''USER '' @ user)) @ line_bytes_of (''PASS '' @ pass)"
  have t: "t = ?t (line_bytes_of greeting @ line_bytes_of ok1 @ line_bytes_of ok2 @ ?i1) (t_out t)"
    using assms(6) by simp
  have l: "pop3_login user pass t = (Inr (), ?t ?i1 ?o1)"
    by (subst t) (simp only: pop3_login_def s insertI1 insertI2 bindS.simps c w [OF p(1)] w [OF p(2)])
  let ?o2 = "?o1 @ line_bytes_of (''RETR '' @ show_nat (unat n))"
  have y: "pop3_payload (Pop3Retr n) (?t ?i1 ?o1) = (Inr (message_bytes msg), ?t rest ?o2)"
    by (simp only: pop3_payload_def pop3_action.case s insertI1 insertI2 bindS.simps w [OF p(3)] m u)
  let ?t4 = "?t rest (?o2 @ line_bytes_of ''QUIT'')"
  have "pop3_run user pass (Pop3Retr n) t = (Inr (message_bytes msg), snd (pop3_read_status ?t4))"
    by (simp only: pop3_run_def l y w [OF p(4)] bindS.simps Let_def case_prod_unfold snd_conv)
  moreover have "t_out (snd (pop3_read_status ?t4)) = ?o2 @ line_bytes_of ''QUIT''" by (simp only: read_status_keeps) simp
  ultimately show ?thesis by - (rule exI, rule conjI, assumption, simp)
qed

text \<open>Its hypotheses hold for a message with a line of one dot.\<close>

theorem pop3_message_retrieved_witness:
  "let t = fresh_transport\<lparr>t_in := concat (map line_bytes_of [''+OK hi'', ''+OK'', ''+OK'', ''+OK 3 octets'']) @ multiline [[0x61], [0x2E], []] @ [1]\<rparr> in
   \<exists>t'. pop3_run ''u'' ''p w'' (Pop3Retr 1) t = (Inr [0x61, 0x0D, 0x0A, 0x2E, 0x0D, 0x0A, 0x0D, 0x0A], t') \<and>
     t_out t' = concat (map line_bytes_of [''USER u'', ''PASS p w'', ''RETR '' @ show_nat 1, ''QUIT''])"
proof -
  let ?t = "fresh_transport\<lparr>t_in := concat (map line_bytes_of [''+OK hi'', ''+OK'', ''+OK'', ''+OK 3 octets'']) @ multiline [[0x61], [0x2E], []] @ [1]\<rparr>"
  have "\<exists>t'. pop3_run ''u'' ''p w'' (Pop3Retr 1) ?t = (Inr (message_bytes [[0x61], [0x2E], []]), t') \<and>
     t_out t' = t_out ?t @ concat (map line_bytes_of [''USER '' @ ''u'', ''PASS '' @ ''p w'', ''RETR '' @ show_nat (unat (1 :: u32)), ''QUIT''])"
    by (rule pop3_message_retrieved [where greeting = "''+OK hi''" and ?ok1.0 = "''+OK''" and ?ok2.0 = "''+OK''" and ?ok3.0 = "''+OK 3 octets''" and rest = "[1]"])
      (simp_all add: fresh_transport_def printable_def line_text_def valid_str_def bytes_of_def starts_with_def)
  then show ?thesis by (simp add: message_bytes_def fresh_transport_def)
qed

text \<open>Credentials with a control character are refused before anything is sent.\<close>

lemma pop3_refuses_controls: "\<not> (printable user \<and> printable pass) \<Longrightarrow> t_out (snd (pop3_run user pass action t)) = t_out t"
proof -
  assume n: "\<not> (printable user \<and> printable pass)"
  obtain r t' where r: "pop3_read_status t = (r, t')" by fastforce
  then have k: "t_out t' = t_out t" using read_status_keeps [of t] by simp
  have "\<exists>e. pop3_login user pass t = (Inl e, t')"
  proof (cases r)
    case (Inr x)
    have "reject_controls m user \<noteq> Inr () \<or> reject_controls m pass \<noteq> Inr ()" for m using n by (simp add: reject_controls_Inr)
    then show ?thesis using r Inr
      by (cases "reject_controls ''pop3: {what} contains illegal control byte {b:#04x}'' user";
          cases "reject_controls ''pop3: {what} contains illegal control byte {b:#04x}'' pass") (auto simp: pop3_login_def)
  qed (simp add: pop3_login_def r)
  with k show ?thesis by (auto simp: pop3_run_def)
qed

end
