(* ===== verification/Dict.thy ===== *)
theory Dict
  imports Line_IO Http1_Read
begin

text \<open>
  DICT and gopher (\<open>src/src/dict.rs\<close>, RFC 2229; \<open>src/src/gopher.rs\<close>, RFC 1436): the requests made from URLs and the replies.
  Connecting is a parameter that gives the transport.  \<open>str::split_at\<close> panics inside a character, which is an outcome of its own
  here: \<open>DictPanic\<close>.
\<close>

subsection \<open>DICT requests\<close>

datatype dict_verb = Define | Match | ShowDatabases

record dict_request =
  dq_verb :: dict_verb
  dq_word :: string
  dq_database :: string
  dq_strategy :: string

definition to_command :: "dict_request \<Rightarrow> string" where
  "to_command r =
     (case dq_verb r of
        Define \<Rightarrow> ''DEFINE '' @ dq_database r @ '' '' @ dq_word r
      | Match \<Rightarrow> ''MATCH '' @ dq_database r @ '' '' @ dq_strategy r @ '' '' @ dq_word r
      | ShowDatabases \<Rightarrow> ''SHOW DATABASES'')"

definition reject_control_bytes :: "string \<Rightarrow> string \<Rightarrow> unit result" where
  "reject_control_bytes message s = (if printable s then Inr () else Inl (InvalidUrl message))"

text \<open>A part of the selector, with a default for a missing or empty one.\<close>

definition part_or :: "string \<Rightarrow> string list \<Rightarrow> nat \<Rightarrow> string" where
  "part_or d ps i = (if i < length ps \<and> ps ! i \<noteq> [] then ps ! i else d)"

definition dict_parse_path :: "string \<Rightarrow> dict_request result" where
  "dict_parse_path path =
     (let raw = (case strip_prefix ''/'' path of Some r \<Rightarrow> r | None \<Rightarrow> path)
      in if raw = [] then Inr \<lparr>dq_verb = ShowDatabases, dq_word = [], dq_database = ''*'', dq_strategy = ''.''\<rparr>
         else
           let (verb, rest) =
                 (case strip_prefix ''d:'' raw of
                    Some r \<Rightarrow> (Define, r)
                  | None \<Rightarrow> (case strip_prefix ''m:'' raw of Some r \<Rightarrow> (Match, r) | None \<Rightarrow> (Define, raw)));
               parts = split_char CHR '':'' rest
           in if hd parts = [] then Inl (InvalidUrl ''dict: empty word in path '{path}'')
              else let word = hd parts; database = part_or ''*'' parts 1; strategy = part_or ''.'' parts 2
                in bindR (reject_control_bytes ''dict: control byte in {field} of path '{path}'' word) (\<lambda>_.
                   bindR (reject_control_bytes ''dict: control byte in {field} of path '{path}'' database) (\<lambda>_.
                   bindR (reject_control_bytes ''dict: control byte in {field} of path '{path}'' strategy) (\<lambda>_.
                     Inr \<lparr>dq_verb = verb, dq_word = word, dq_database = database, dq_strategy = strategy\<rparr>))))"

subsection \<open>DICT replies\<close>

datatype dict_stop = DictError error | DictPanic

type_synonym 'a dict_result = "dict_stop + 'a"

fun dict_lift :: "'a result \<Rightarrow> 'a dict_result" where
  "dict_lift (Inl e) = Inl (DictError e)"
| "dict_lift (Inr x) = Inr x"

definition dict_read_line :: "transport \<Rightarrow> string dict_result \<times> transport" where
  "dict_read_line t = (let (r, t) = net_read_line t in (dict_lift r, t))"

definition dict_parse_status :: "string \<Rightarrow> (u16 \<times> string) dict_result" where
  "dict_parse_status line =
     (let trimmed = trim_crlf line
      in if length trimmed < 3 then Inl (DictError (BadResponse ''dict: short status line '{trimmed}''))
         else if 3 < length trimmed \<and> utf8_cont (of_char (trimmed ! 3)) then Inl DictPanic
         else (case parse_u16 (take 3 trimmed) of
                 None \<Rightarrow> Inl (DictError (BadResponse ''dict: non-numeric status '{trimmed}''))
               | Some code \<Rightarrow>
                   Inr (code, case strip_prefix '' '' (drop 3 trimmed) of Some m \<Rightarrow> m | None \<Rightarrow> drop 3 trimmed)))"

definition is_error_code :: "u16 \<Rightarrow> bool" where
  "is_error_code code \<longleftrightarrow> 400 \<le> code \<and> code < 600"

function read_text_block :: "bytes \<Rightarrow> transport \<Rightarrow> bytes dict_result \<times> transport" where
  "read_text_block out t =
     (case net_read_line t of
        (Inl e, t) \<Rightarrow> (Inl (DictError e), t)
      | (Inr line, t) \<Rightarrow>
          let body = trim_crlf line
          in if body = ''.'' then (Inr out, t)
             else read_text_block (out @ bytes_of (case strip_prefix ''.'' body of Some r \<Rightarrow> r | None \<Rightarrow> body) @ [0x0A]) t)"
  by pat_completeness auto
termination by (relation "measure (\<lambda>(out, t). length (t_in t))") (auto dest: net_read_line_shrinks [OF sym])

declare read_text_block.simps [simp del]

lemma read_text_block_shrinks: "read_text_block out t = (Inr x, t') \<Longrightarrow> length (t_in t') \<le> length (t_in t)"
proof (induction out t rule: read_text_block.induct)
  case (1 out t)
  show ?case
  proof (cases "net_read_line t")
    case (Pair r t1)
    then obtain line where line: "net_read_line t = (Inr line, t1)"
      using "1.prems" by (cases r) (auto simp: read_text_block.simps [of out t])
    then have less: "length (t_in t1) < length (t_in t)" by (rule net_read_line_shrinks)
    show ?thesis
    proof (cases "trim_crlf line = ''.''")
      case True
      with "1.prems" line less show ?thesis by (subst (asm) read_text_block.simps) (simp add: Let_def)
    next
      case False
      with "1.prems" line have
        "read_text_block (out @ bytes_of (case strip_prefix ''.'' (trim_crlf line) of Some r \<Rightarrow> r | None \<Rightarrow> trim_crlf line) @ [0x0A]) t1 = (Inr x, t')"
        by (subst (asm) read_text_block.simps) (simp add: Let_def)
      with "1.IH" [OF line [symmetric] refl refl False] less show ?thesis by linarith
    qed
  qed
qed

text \<open>The \<open>match\<close> of \<open>read_response\<close> on one status: the response so far, and whether more status lines follow.\<close>

datatype dict_step = DictDone bytes | DictMore bytes

definition dict_reply :: "dict_verb \<Rightarrow> u16 \<Rightarrow> string \<Rightarrow> bytes \<Rightarrow> transport \<Rightarrow> dict_step dict_result \<times> transport" where
  "dict_reply verb code msg out t =
     (if is_error_code code then (Inl (DictError (BadResponse ''dict: {code} {msg}'')), t)
      else if verb = ShowDatabases \<and> code = 110 then bindS (read_text_block out t) (\<lambda>out t. (Inr (DictMore out), t))
      else if verb = Match \<and> code = 152 then bindS (read_text_block out t) (\<lambda>out t. (Inr (DictMore out), t))
      else if verb = Define \<and> code = 150 then (Inr (DictMore out), t)
      else if verb = Define \<and> code = 151 then
        bindS (read_text_block (out @ bytes_of msg @ [0x0A]) t) (\<lambda>out t. (Inr (DictMore out), t))
      else if code = 250 then (Inr (DictDone out), t)
      else if code = 130 \<or> code = 230 then (Inr (DictMore out), t)
      else if 200 \<le> code \<and> code < 300 then (Inr (DictDone out), t)
      else (Inr (DictDone (out @ bytes_of msg @ [0x0A])), t))"

lemma dict_reply_shrinks: "dict_reply verb code msg out t = (Inr x, t') \<Longrightarrow> length (t_in t') \<le> length (t_in t)"
  by (auto simp: dict_reply_def bindS_eq_Inr split: if_split_asm dest: read_text_block_shrinks)

text \<open>The loop, from a status line on.\<close>

function dict_response_loop :: "dict_verb \<Rightarrow> string \<Rightarrow> bytes \<Rightarrow> transport \<Rightarrow> bytes dict_result \<times> transport" where
  "dict_response_loop verb status out t =
     (case dict_parse_status status of
        Inl e \<Rightarrow> (Inl e, t)
      | Inr (code, msg) \<Rightarrow>
          (case dict_reply verb code msg out t of
             (Inl e, t) \<Rightarrow> (Inl e, t)
           | (Inr (DictDone out), t) \<Rightarrow> (Inr out, t)
           | (Inr (DictMore out), t) \<Rightarrow>
               (case net_read_line t of
                  (Inl e, t) \<Rightarrow> (Inl (DictError e), t)
                | (Inr line, t) \<Rightarrow> dict_response_loop verb line out t)))"
  by pat_completeness auto
termination
proof (relation "measure (\<lambda>(verb, status, out, t). length (t_in t))", simp, goal_cases)
  case 1
  from 1(3) [symmetric] 1(6) [symmetric] 1 show ?case
    using dict_reply_shrinks net_read_line_shrinks by (metis (no_types, lifting) in_measure case_prod_conv order_less_le_trans)
qed

declare dict_response_loop.simps [simp del]

definition dict_read_response :: "dict_verb \<Rightarrow> transport \<Rightarrow> bytes dict_result \<times> transport" where
  "dict_read_response verb t = bindS (dict_read_line t) (\<lambda>status t. dict_response_loop verb status [] t)"

definition dict_write :: "bytes \<Rightarrow> transport \<Rightarrow> unit dict_result \<times> transport" where
  "dict_write bs t = (let (r, t) = write_all bs t in (dict_lift (liftIo r), t))"

text \<open>\<open>fetch\<close> from the open connection on.  A panic unwinds past the farewell.\<close>

definition dict_run :: "dict_request \<Rightarrow> transport \<Rightarrow> bytes dict_result \<times> transport" where
  "dict_run request t =
     bindS (dict_read_line t) (\<lambda>banner t.
     bindS (dict_parse_status banner, t) (\<lambda>(code, msg) t.
       if code \<noteq> 220 then (Inl (DictError (BadResponse ''dict: {code} {msg}'')), t)
       else bindS (dict_write (bytes_of ''CLIENT rsurl/0.0.4'' @ CRLF) t) (\<lambda>_ t.
            bindS (dict_read_line t) (\<lambda>_ t.
            bindS (dict_write (bytes_of (to_command request)) t) (\<lambda>_ t.
            bindS (dict_write CRLF t) (\<lambda>_ t.
              let (result, t) = dict_read_response (dq_verb request) t
              in if result = Inl DictPanic then (result, t)
                 else let (_, t) = dict_write (bytes_of ''QUIT'' @ CRLF) t; (_, t) = dict_read_line t in (result, t)))))))"

definition dict_fetch :: "(url \<Rightarrow> transport result) \<Rightarrow> url \<Rightarrow> bytes dict_result" where
  "dict_fetch connect u =
     bindR (dict_lift (dict_parse_path (u_path u))) (\<lambda>request.
       bindR (dict_lift (connect u)) (\<lambda>t. fst (dict_run request t)))"

subsection \<open>What DICT sends and returns\<close>

text \<open>A command is one line, whatever the URL.\<close>

lemma dict_command_one_line: "dict_parse_path path = Inr r \<Longrightarrow> printable (to_command r)"
proof -
  assume p: "dict_parse_path path = Inr r"
  have lit: "printable ''DEFINE ''" "printable ''MATCH ''" "printable ''SHOW DATABASES''" "printable '' ''" "printable ''*''" "printable ''.''"
    by (simp_all add: printable_def)
  have "printable (dq_database r) \<and> printable (dq_strategy r) \<and> printable (dq_word r)"
    using p lit
    by (auto simp: dict_parse_path_def Let_def case_prod_unfold bindR_eq_Inr reject_control_bytes_def printable_def [of "[]"] split: if_splits)
  with lit show ?thesis by (cases "dq_verb r") (simp_all only: to_command_def dict_verb.case printable_append)
qed

definition dot_line :: "string \<Rightarrow> string" where
  "dot_line l = (if starts_with ''.'' l then CHR ''.'' # l else l)"

definition text_block :: "string list \<Rightarrow> bytes" where
  "text_block ls = concat (map (\<lambda>l. line_bytes_of (dot_line l)) ls) @ line_bytes_of ''.''"

definition block_lines :: "string list \<Rightarrow> bytes" where
  "block_lines ls = concat (map (\<lambda>l. bytes_of l @ [0x0A]) ls)"

lemma trim_crlf_text: "CHR 0x0A \<notin> set s \<Longrightarrow> CHR 0x0D \<notin> set s \<Longrightarrow> trim_crlf (s @ [CHR 0x0D, CHR 0x0A]) = s"
  unfolding trim_crlf_def by (rule trim_end_matches_append) (auto dest: last_in_set)

lemma dot_line_text: "line_text l \<Longrightarrow> line_text (dot_line l)"
proof -
  assume l: "line_text l"
  have "valid_str ''.''" by (simp add: valid_str_def bytes_of_def)
  from valid_str_append [OF this, of l] l show ?thesis by (simp add: line_text_def dot_line_def)
qed

lemma dot_line_read: "(case strip_prefix ''.'' (dot_line l) of Some r \<Rightarrow> r | None \<Rightarrow> dot_line l) = l" "dot_line l \<noteq> ''.''"
  by (cases l; simp add: dot_line_def strip_prefix_def starts_with_def)+

lemma read_block:
  "list_all line_text ls \<Longrightarrow> read_text_block out (t\<lparr>t_in := text_block ls @ rest\<rparr>) = (Inr (out @ block_lines ls), t\<lparr>t_in := rest\<rparr>)"
proof (induction ls arbitrary: out)
  case Nil
  have "line_text ''.''" by (simp add: line_text_def valid_str_def bytes_of_def)
  from net_read_text [OF this, where t = t and rest = rest] trim_crlf_text [of "''.''"] show ?case
    by (subst read_text_block.simps) (simp add: text_block_def block_lines_def)
next
  case (Cons l ls)
  then have l: "line_text (dot_line l)" by (simp add: dot_line_text)
  have "text_block (l # ls) @ rest = line_bytes_of (dot_line l) @ text_block ls @ rest" by (simp add: text_block_def)
  moreover have "trim_crlf (dot_line l @ [CHR 0x0D, CHR 0x0A]) = dot_line l" using l by (simp add: trim_crlf_text line_text_def)
  ultimately show ?case
    using net_read_text [OF l, where t = t and rest = "text_block ls @ rest"] Cons dot_line_read [of l]
    by (subst read_text_block.simps) (simp add: Let_def block_lines_def)
qed

text \<open>Status lines as a server writes them.\<close>

definition dict_status_text :: "string \<Rightarrow> string \<Rightarrow> string" where
  "dict_status_text code msg = code @ '' '' @ msg"

lemma dict_status_parsed:
  assumes "length code = 3" and "parse_u16 code = Some c" and "line_text (dict_status_text code msg)"
  shows "dict_parse_status (dict_status_text code msg @ [CHR 0x0D, CHR 0x0A]) = Inr (c, msg)"
proof -
  have t: "trim_crlf (dict_status_text code msg @ [CHR 0x0D, CHR 0x0A]) = dict_status_text code msg"
    using assms(3) by (simp add: trim_crlf_text line_text_def)
  have "dict_status_text code msg ! 3 = CHR '' ''" "take 3 (dict_status_text code msg) = code" "drop 3 (dict_status_text code msg) = CHR '' '' # msg"
    using assms(1) by (simp_all add: dict_status_text_def nth_append)
  moreover have "\<not> utf8_cont (of_char CHR '' '')" by (simp add: utf8_cont_def)
  moreover have "\<not> length (dict_status_text code msg) < 3" using assms(1) by (simp add: dict_status_text_def)
  ultimately show ?thesis using assms(2) by (simp add: dict_parse_status_def t strip_prefix_def starts_with_def)
qed

text \<open>A definition of the word: the line of its database, and its text.\<close>

definition definition_bytes :: "(string \<times> string list) list \<Rightarrow> bytes" where
  "definition_bytes ds = concat (map (\<lambda>(h, ls). line_bytes_of (dict_status_text ''151'' h) @ text_block ls) ds)"

definition shown :: "(string \<times> string list) list \<Rightarrow> bytes" where
  "shown ds = concat (map (\<lambda>(h, ls). bytes_of h @ [0x0A] @ block_lines ls) ds)"

definition definition_ok :: "string \<times> string list \<Rightarrow> bool" where
  "definition_ok d \<longleftrightarrow> line_text (dict_status_text ''151'' (fst d)) \<and> list_all line_text (snd d)"

lemma code_numbers: "parse_u16 ''150'' = Some 150" "parse_u16 ''151'' = Some 151" "parse_u16 ''250'' = Some 250" "parse_u16 ''220'' = Some 220"
  by (simp_all add: parse_u16_def parse_unsigned_def Let_def)

lemma definitions_read:
  "list_all definition_ok ds \<Longrightarrow> line_text (dict_status_text ''250'' bye) \<Longrightarrow> length code = 3 \<Longrightarrow> line_text (dict_status_text code msg) \<Longrightarrow>
     code = ''150'' \<and> out' = out \<or> code = ''151'' \<and> list_all line_text ls \<and> out' = out @ bytes_of msg @ [0x0A] @ block_lines ls \<Longrightarrow>
     dict_response_loop Define (dict_status_text code msg @ [CHR 0x0D, CHR 0x0A]) out
       (t\<lparr>t_in := (if code = ''151'' then text_block ls else []) @ definition_bytes ds @ line_bytes_of (dict_status_text ''250'' bye) @ rest\<rparr>)
     = (Inr (out' @ shown ds), t\<lparr>t_in := rest\<rparr>)"
proof (induction ds arbitrary: code msg out out' ls)
  case Nil
  have b: "dict_parse_status (dict_status_text ''250'' bye @ [CHR 0x0D, CHR 0x0A]) = Inr (250, bye)"
    by (rule dict_status_parsed) (use Nil code_numbers in simp_all)
  have f: "dict_response_loop Define (dict_status_text ''250'' bye @ [CHR 0x0D, CHR 0x0A]) out' (t\<lparr>t_in := rest\<rparr>) = (Inr out', t\<lparr>t_in := rest\<rparr>)" for out'
    by (subst dict_response_loop.simps) (simp add: b dict_reply_def is_error_code_def)
  note r = net_read_text [OF Nil(2), where t = t and rest = rest]
  from Nil(5) show ?case
  proof (elim disjE)
    assume c: "code = ''150'' \<and> out' = out"
    then have "dict_parse_status (dict_status_text code msg @ [CHR 0x0D, CHR 0x0A]) = Inr (150, msg)"
      using Nil(4) code_numbers by (intro dict_status_parsed) simp_all
    with c r f show ?thesis
      by (subst dict_response_loop.simps) (simp add: dict_reply_def is_error_code_def definition_bytes_def shown_def)
  next
    assume c: "code = ''151'' \<and> list_all line_text ls \<and> out' = out @ bytes_of msg @ [0x0A] @ block_lines ls"
    then have "dict_parse_status (dict_status_text code msg @ [CHR 0x0D, CHR 0x0A]) = Inr (151, msg)"
      using Nil(4) code_numbers by (intro dict_status_parsed) simp_all
    moreover have "read_text_block (out @ bytes_of msg @ [0x0A]) (t\<lparr>t_in := text_block ls @ line_bytes_of (dict_status_text ''250'' bye) @ rest\<rparr>) =
        (Inr out', t\<lparr>t_in := line_bytes_of (dict_status_text ''250'' bye) @ rest\<rparr>)"
      using c by (subst read_block) simp_all
    ultimately show ?thesis using c r f
      by (subst dict_response_loop.simps) (simp add: dict_reply_def is_error_code_def definition_bytes_def shown_def)
  qed
next
  case (Cons d ds)
  obtain h ls' where d: "d = (h, ls')" by (cases d)
  from Cons.prems(1) have h: "line_text (dict_status_text ''151'' h)" "list_all line_text ls'" "list_all definition_ok ds"
    by (simp_all add: d definition_ok_def [of "(h, ls')"])
  let ?tail = "definition_bytes ds @ line_bytes_of (dict_status_text ''250'' bye) @ rest"
  have w: "definition_bytes (d # ds) = line_bytes_of (dict_status_text ''151'' h) @ text_block ls' @ definition_bytes ds"
    by (simp add: definition_bytes_def d)
  note r = net_read_text [OF h(1), where t = t and rest = "text_block ls' @ ?tail"]
  have f: "dict_response_loop Define (dict_status_text ''151'' h @ [CHR 0x0D, CHR 0x0A]) o1 (t\<lparr>t_in := text_block ls' @ ?tail\<rparr>) =
      (Inr ((o1 @ bytes_of h @ [0x0A] @ block_lines ls') @ shown ds), t\<lparr>t_in := rest\<rparr>)" for o1
    using Cons.IH [of "''151''" h "o1 @ bytes_of h @ [0x0A] @ block_lines ls'" o1 ls'] h Cons.prems(2) by simp
  have sh: "shown (d # ds) = bytes_of h @ [0x0A] @ block_lines ls' @ shown ds" by (simp add: shown_def d)
  from Cons.prems(5) show ?case
  proof (elim disjE)
    assume c: "code = ''150'' \<and> out' = out"
    then have "dict_parse_status (dict_status_text code msg @ [CHR 0x0D, CHR 0x0A]) = Inr (150, msg)"
      using Cons.prems(4) code_numbers by (intro dict_status_parsed) simp_all
    with c r f show ?thesis
      by (subst dict_response_loop.simps) (simp add: dict_reply_def is_error_code_def w sh)
  next
    assume c: "code = ''151'' \<and> list_all line_text ls \<and> out' = out @ bytes_of msg @ [0x0A] @ block_lines ls"
    then have "dict_parse_status (dict_status_text code msg @ [CHR 0x0D, CHR 0x0A]) = Inr (151, msg)"
      using Cons.prems(4) code_numbers by (intro dict_status_parsed) simp_all
    moreover have "read_text_block (out @ bytes_of msg @ [0x0A]) (t\<lparr>t_in := text_block ls @ definition_bytes (d # ds) @ line_bytes_of (dict_status_text ''250'' bye) @ rest\<rparr>) =
        (Inr out', t\<lparr>t_in := definition_bytes (d # ds) @ line_bytes_of (dict_status_text ''250'' bye) @ rest\<rparr>)"
      using c by (subst read_block) simp_all
    ultimately show ?thesis using c r f
      by (subst dict_response_loop.simps) (simp add: dict_reply_def is_error_code_def w sh)
  qed
qed

lemma dict_read_text: "line_text s \<Longrightarrow> dict_read_line (t\<lparr>t_in := line_bytes_of s @ rest\<rparr>) = (Inr (s @ [CHR 0x0D, CHR 0x0A]), t\<lparr>t_in := rest\<rparr>)"
  by (simp add: dict_read_line_def net_read_text)

lemma dict_write_unbounded: "t_cap t = None \<Longrightarrow> dict_write bs t = (Inr (), t\<lparr>t_out := t_out t @ bs\<rparr>)"
  by (simp add: dict_write_def)

lemma dict_read_keeps: "t_out (snd (dict_read_line t)) = t_out t"
  using net_read_line_out(1) [of t] by (simp add: dict_read_line_def case_prod_unfold Let_def)

text \<open>C36: the definitions of a server that follows RFC 2229 are returned in order, each under the line of its database and with its text as
  it is, lines of dots included, and the commands sent are the greeting, the one of the URL and \<open>QUIT\<close>.\<close>

theorem dict_definitions_returned:
  assumes "t_cap t = None" and "dq_verb r = Define"
    and "list_all line_text [dict_status_text ''220'' banner, hello, dict_status_text ''150'' n, dict_status_text ''250'' bye]" and "list_all definition_ok ds"
    and "t_in t = concat (map line_bytes_of [dict_status_text ''220'' banner, hello, dict_status_text ''150'' n]) @ definition_bytes ds
      @ line_bytes_of (dict_status_text ''250'' bye) @ rest"
  shows "\<exists>t'. dict_run r t = (Inr (shown ds), t') \<and>
    t_out t' = t_out t @ concat (map line_bytes_of [''CLIENT rsurl/0.0.4'', to_command r, ''QUIT''])"
proof -
  let ?t = "\<lambda>i out. t\<lparr>t_in := i, t_out := out\<rparr>"
  let ?tail = "definition_bytes ds @ line_bytes_of (dict_status_text ''250'' bye) @ rest"
  have x: "dict_read_line (?t (line_bytes_of w @ i) out) = (Inr (w @ [CHR 0x0D, CHR 0x0A]), ?t i out)" if "line_text w" for w i out
    using dict_read_text [OF that, where t = "t\<lparr>t_out := out\<rparr>" and rest = i] by (simp add: io_swap)
  have w: "dict_write bs (?t i out) = (Inr (), ?t i (out @ bs))" for bs i out using assms(1) by (simp add: dict_write_unbounded)
  have b: "dict_parse_status (dict_status_text ''220'' banner @ [CHR 0x0D, CHR 0x0A]) = Inr (220, banner)"
    using assms(3) code_numbers by (intro dict_status_parsed) simp_all
  let ?o = "t_out t @ line_bytes_of ''CLIENT rsurl/0.0.4'' @ line_bytes_of (to_command r)"
  have "dict_response_loop Define (dict_status_text ''150'' n @ [CHR 0x0D, CHR 0x0A]) [] ((t\<lparr>t_out := ?o\<rparr>)\<lparr>t_in :=
      (if ''150'' = ''151'' then text_block [] else []) @ definition_bytes ds @ line_bytes_of (dict_status_text ''250'' bye) @ rest\<rparr>) =
      (Inr ([] @ shown ds), (t\<lparr>t_out := ?o\<rparr>)\<lparr>t_in := rest\<rparr>)"
    by (rule definitions_read [OF assms(4), of bye]) (use assms(3) in simp_all)
  then have l: "dict_response_loop Define (dict_status_text ''150'' n @ [CHR 0x0D, CHR 0x0A]) [] (?t ?tail ?o) = (Inr (shown ds), ?t rest ?o)"
    by (simp add: io_swap)
  have resp: "dict_read_response Define (?t (line_bytes_of (dict_status_text ''150'' n) @ ?tail) ?o) = (Inr (shown ds), ?t rest ?o)"
    using x [where w = "dict_status_text ''150'' n" and i = ?tail and out = ?o] l assms(3) by (simp add: dict_read_response_def)
  have t: "t = ?t (line_bytes_of (dict_status_text ''220'' banner) @ line_bytes_of hello @ line_bytes_of (dict_status_text ''150'' n) @ ?tail) (t_out t)"
    using assms(5) by simp
  have o1: "(t_out t @ bytes_of ''CLIENT rsurl/0.0.4'' @ CRLF) @ bytes_of (to_command r) = t_out t @ line_bytes_of ''CLIENT rsurl/0.0.4'' @ bytes_of (to_command r)"
    and o2: "(t_out t @ line_bytes_of ''CLIENT rsurl/0.0.4'' @ bytes_of (to_command r)) @ CRLF = ?o" by (simp_all add: line_bytes_of_def)
  let ?t4 = "?t rest (?o @ line_bytes_of ''QUIT'')"
  have "dict_run r t = (Inr (shown ds), snd (dict_read_line ?t4))"
  proof -
    have h: "line_text (dict_status_text ''220'' banner)" "line_text hello" using assms(3) by simp_all
    have q: "bytes_of ''QUIT'' @ CRLF = line_bytes_of ''QUIT''" by (simp add: line_bytes_of_def)
    show ?thesis
      by (subst t) (simp only: dict_run_def x [OF h(1)] x [OF h(2)] bindS.simps prod.case b w o1 o2 assms(2) resp q Let_def case_prod_unfold
          fst_conv snd_conv simp_thms if_False sum.distinct)
  qed
  moreover have "t_out (snd (dict_read_line ?t4)) = ?o @ line_bytes_of ''QUIT''" by (simp only: dict_read_keeps) simp
  ultimately show ?thesis by - (rule exI, rule conjI, assumption, simp)
qed

text \<open>A status line whose fourth byte is inside a character stops the client with a panic.\<close>

lemma dict_status_panic: "dict_parse_status (str_of [0x32, 0x32, 0xC3, 0xA9, 0x0D, 0x0A]) = Inl DictPanic"
proof -
  have "from_utf8 [0x32, 0x32, 0xC3, 0xA9, 0x0D, 0x0A] \<noteq> None" by code_simp
  show ?thesis by code_simp
qed

text \<open>The hypotheses hold for a server with one definition, whose text has a line of one dot.\<close>

theorem dict_definitions_returned_witness:
  "let r = \<lparr>dq_verb = Define, dq_word = ''word'', dq_database = ''*'', dq_strategy = ''.''\<rparr>; ds = [(''db'', [''a'', ''.''])];
       t = fresh_transport\<lparr>t_in := concat (map line_bytes_of [dict_status_text ''220'' ''hi'', ''250 ok'', dict_status_text ''150'' ''1'']) @ definition_bytes ds
         @ line_bytes_of (dict_status_text ''250'' ''ok'') @ [7]\<rparr> in
   \<exists>t'. dict_run r t = (Inr (bytes_of ''db'' @ [0x0A] @ bytes_of ''a'' @ [0x0A] @ bytes_of ''.'' @ [0x0A]), t') \<and>
     t_out t' = concat (map line_bytes_of [''CLIENT rsurl/0.0.4'', ''DEFINE * word'', ''QUIT''])"
proof -
  let ?r = "\<lparr>dq_verb = Define, dq_word = ''word'', dq_database = ''*'', dq_strategy = ''.''\<rparr>" and ?ds = "[(''db'', [''a'', ''.''])]"
  let ?t = "fresh_transport\<lparr>t_in := concat (map line_bytes_of [dict_status_text ''220'' ''hi'', ''250 ok'', dict_status_text ''150'' ''1'']) @ definition_bytes ?ds
         @ line_bytes_of (dict_status_text ''250'' ''ok'') @ [7]\<rparr>"
  have "\<exists>t'. dict_run ?r ?t = (Inr (shown ?ds), t') \<and> t_out t' = t_out ?t @ concat (map line_bytes_of [''CLIENT rsurl/0.0.4'', to_command ?r, ''QUIT''])"
    by (rule dict_definitions_returned [where banner = "''hi''" and hello = "''250 ok''" and n = "''1''" and bye = "''ok''" and rest = "[7]"])
      (simp_all add: fresh_transport_def line_text_def valid_str_def bytes_of_def dict_status_text_def definition_ok_def)
  then show ?thesis by (simp add: shown_def block_lines_def fresh_transport_def to_command_def)
qed

subsection \<open>Gopher\<close>

abbreviation (input) GOPHER_MAX :: nat where "GOPHER_MAX \<equiv> 64 * 1024 * 1024"

text \<open>\<open>chars.next()\<close> and what is left: a character is its first byte and the continuation bytes after it.\<close>

definition skip_char :: "string \<Rightarrow> string" where
  "skip_char s = (case s of [] \<Rightarrow> [] | c # cs \<Rightarrow> dropWhile (\<lambda>c. utf8_cont (of_char c)) cs)"

definition selector_from_path :: "string \<Rightarrow> string result" where
  "selector_from_path path =
     (let without_slash = (case strip_prefix ''/'' path of Some r \<Rightarrow> r | None \<Rightarrow> path);
          after_type = skip_char without_slash;
          (selector, query) =
            (case split_once ''?'' after_type of
               Some (sel, q) \<Rightarrow> (sel, Some q)
             | None \<Rightarrow> (case split_once [CHR 0x09] after_type of Some (sel, q) \<Rightarrow> (sel, Some q) | None \<Rightarrow> (after_type, None)))
      in bindR (reject_control_bytes ''gopher: control byte in selector of path '{path}'' selector) (\<lambda>_.
           case query of
             None \<Rightarrow> Inr selector
           | Some q \<Rightarrow>
               bindR (reject_control_bytes ''gopher: control byte in search query of path '{path}'' q) (\<lambda>_.
                 Inr (selector @ [CHR 0x09] @ q))))"

definition gopher_read_capped :: "transport \<Rightarrow> bytes result \<times> transport" where
  "gopher_read_capped t =
     (case read_to_limit (GOPHER_MAX + 1) t of
        (Inl k, t) \<Rightarrow> (Inl (Io k), t)
      | (Inr buf, t) \<Rightarrow>
          if length buf > GOPHER_MAX then (Inl (BadResponse ''gopher: response exceeds {MAX_RESPONSE_BYTES} bytes''), t) else (Inr buf, t))"

definition gopher_run :: "string \<Rightarrow> transport \<Rightarrow> bytes result \<times> transport" where
  "gopher_run selector t = bindS (send_bytes (bytes_of selector @ CRLF) t) (\<lambda>_ t. gopher_read_capped t)"

definition gopher_fetch :: "(url \<Rightarrow> transport result) \<Rightarrow> (url \<Rightarrow> transport result) \<Rightarrow> url \<Rightarrow> bytes result" where
  "gopher_fetch connect connect_tls u =
     bindR (selector_from_path (u_path u)) (\<lambda>selector.
       bindR (if is_tls u then connect_tls u else connect u) (\<lambda>t. fst (gopher_run selector t)))"

text \<open>A request is one line with at most the tab of a search, and the response is all the server sends, if it ends within 64 MiB.\<close>

lemma reject_control_bytes_Inr: "reject_control_bytes m s = Inr u \<longleftrightarrow> printable s"
  by (simp add: reject_control_bytes_def)

lemma gopher_selector_parts:
  assumes "selector_from_path path = Inr sel"
  shows "printable sel \<or> (\<exists>a q. sel = a @ [CHR 0x09] @ q \<and> printable a \<and> printable q)"
proof -
  define s where "s = skip_char (case strip_prefix ''/'' path of Some r \<Rightarrow> r | None \<Rightarrow> path)"
  define sq where "sq = (case split_once ''?'' s of
      Some (sel, q) \<Rightarrow> (sel, Some q)
    | None \<Rightarrow> (case split_once [CHR 0x09] s of Some (sel, q) \<Rightarrow> (sel, Some q) | None \<Rightarrow> (s, None)))"
  obtain a q where sq: "sq = (a, q)" by (cases sq)
  from assms have "bindR (reject_control_bytes ''gopher: control byte in selector of path '{path}'' a) (\<lambda>_.
      case q of None \<Rightarrow> Inr a
      | Some q \<Rightarrow> bindR (reject_control_bytes ''gopher: control byte in search query of path '{path}'' q) (\<lambda>_. Inr (a @ [CHR 0x09] @ q))) = Inr sel"
    unfolding selector_from_path_def Let_def s_def [symmetric] sq_def [symmetric] sq prod.case .
  then show ?thesis by (cases q) (auto simp: bindR_eq_Inr reject_control_bytes_Inr)
qed

lemma gopher_read_keeps: "t_out (snd (gopher_read_capped t)) = t_out t"
proof -
  obtain r t' where r: "read_to_limit (GOPHER_MAX + 1) t = (r, t')" by fastforce
  then have "t_out t' = t_out t" by (auto simp: read_to_limit_def split: if_splits)
  with r show ?thesis by (cases r) (simp_all add: gopher_read_capped_def)
qed

lemma gopher_one_line:
  assumes "selector_from_path path = Inr sel" and "t_cap t = None"
  shows "(printable sel \<or> (\<exists>a q. sel = a @ [CHR 0x09] @ q \<and> printable a \<and> printable q)) \<and>
    t_out (snd (gopher_run sel t)) = t_out t @ line_bytes_of sel"
  using gopher_selector_parts [OF assms(1)] assms(2) gopher_read_keeps by (simp add: gopher_run_def line_bytes_of_def)

lemma gopher_all_returned:
  assumes "t_cap t = None" and "t_end t = IoUnexpectedEof" and "length (t_in t) \<le> GOPHER_MAX"
  shows "fst (gopher_run sel t) = Inr (t_in t)"
  using assms by (simp add: gopher_run_def gopher_read_capped_def read_to_limit_def)

end
