(* ===== verification/Rtsp.thy ===== *)
theory Rtsp
  imports Line_IO Http1_Wire
begin

text \<open>
  RTSP control sessions (\<open>src/src/rtsp.rs\<close>, RFC 2326): requests with their sequence numbers, responses, and the handshake from OPTIONS to
  TEARDOWN.  Every response is read through a buffered reader of its own; what such a reader has taken off the socket beyond its
  response is lost with it, which \<open>ss_ahead\<close> says for each request in turn.  Connecting is a parameter.
\<close>

subsection \<open>Requests\<close>

abbreviation (input) RTSP_MAX_HEADER :: nat where "RTSP_MAX_HEADER \<equiv> 64 * 1024"
abbreviation (input) RTSP_MAX_BODY :: nat where "RTSP_MAX_BODY \<equiv> 64 * 1024 * 1024"
abbreviation (input) DEFAULT_TRANSPORT :: string where "DEFAULT_TRANSPORT \<equiv> ''RTP/AVP/TCP;unicast;interleaved=0-1''"

record rtsp_response =
  rr_version :: string
  rr_status :: u16
  rr_reason :: string
  rr_headers :: "(string \<times> string) list"
  rr_body :: bytes

definition rtsp_header :: "string \<Rightarrow> rtsp_response \<Rightarrow> string option" where
  "rtsp_header name resp = map_option snd (find (\<lambda>(k, _). eq_ignore_ascii_case k name) (rr_headers resp))"

record rtsp_session =
  ss_io :: transport
  ss_ahead :: "nat list"
  ss_uri :: string
  ss_cseq :: u32
  ss_id :: "string option"

definition rtsp_reject_control :: "string \<Rightarrow> unit result" where
  "rtsp_reject_control s = (if printable s then Inr () else Inl (InvalidUrl ''rtsp: control byte in {field}''))"

definition request_uri :: "url \<Rightarrow> string" where
  "request_uri u =
     (if u_port u = 554 then ''rtsp://'' @ u_host u @ u_path u
      else ''rtsp://'' @ u_host u @ '':'' @ show_nat (unat (u_port u)) @ u_path u)"

definition crlf_str :: string where "crlf_str = [CHR 0x0D, CHR 0x0A]"

definition build_request :: "string \<Rightarrow> string \<Rightarrow> u32 \<Rightarrow> (string \<times> string) list \<Rightarrow> string" where
  "build_request rtsp_method uri cseq extra_headers =
     rtsp_method @ '' '' @ uri @ '' RTSP/1.0'' @ crlf_str @ ''CSeq: '' @ show_nat (unat cseq) @ crlf_str
     @ concat (map (\<lambda>(k, v). k @ '': '' @ v @ crlf_str) extra_headers)
     @ ''User-Agent: rsurl/0.0.4'' @ crlf_str @ crlf_str"

definition parse_session_id :: "string \<Rightarrow> string" where
  "parse_session_id v = trim (hd (split_char CHR '';'' v))"

subsection \<open>Responses\<close>

definition rtsp_status_line :: "string \<Rightarrow> (string \<times> u16 \<times> string) result" where
  "rtsp_status_line line =
     (case splitn 3 CHR '' '' line of
        [] \<Rightarrow> Inl (BadResponse ''missing version: {line:?}'')
      | version # parts \<Rightarrow>
          if \<not> starts_with ''RTSP/'' version then Inl (BadResponse ''not RTSP: {version}'')
          else (case parts of
            [] \<Rightarrow> Inl (BadResponse ''missing status: {line:?}'')
          | status # parts \<Rightarrow>
              (case parse_u16 status of
                 None \<Rightarrow> Inl (BadResponse ''bad status: {line:?}'')
               | Some st \<Rightarrow> Inr (version, st, case parts of [] \<Rightarrow> [] | reason # _ \<Rightarrow> reason))))"

function rtsp_headers :: "nat \<Rightarrow> (string \<times> string) list \<Rightarrow> transport \<Rightarrow> (string \<times> string) list result \<times> transport" where
  "rtsp_headers header_bytes headers t =
     (case net_read_line t of
        (Inl e, t) \<Rightarrow> (Inl e, t)
      | (Inr line, t) \<Rightarrow>
          let header_bytes = header_bytes + length line; trimmed = trim_crlf line
          in if header_bytes > RTSP_MAX_HEADER then (Inl (BadResponse ''headers exceed 64 KiB''), t)
             else if trimmed = [] then (Inr headers, t)
             else (case split_once '':'' trimmed of
                     None \<Rightarrow> (Inl (BadResponse ''malformed header line: {trimmed:?}''), t)
                   | Some (k, v) \<Rightarrow> rtsp_headers header_bytes (headers @ [(trim k, trim v)]) t))"
  by pat_completeness auto
termination by (relation "measure (\<lambda>(n, hs, t). length (t_in t))") (auto dest: net_read_line_shrinks [OF sym])

declare rtsp_headers.simps [simp del]

definition rtsp_content_length :: "(string \<times> string) list \<Rightarrow> nat" where
  "rtsp_content_length headers =
     (case find (\<lambda>(k, _). eq_ignore_ascii_case k ''content-length'') headers of
        None \<Rightarrow> 0
      | Some (_, v) \<Rightarrow> (case parse_unsigned (2 ^ 64 - 1) v of None \<Rightarrow> 0 | Some n \<Rightarrow> n))"

definition rtsp_read_response :: "transport \<Rightarrow> rtsp_response result \<times> transport" where
  "rtsp_read_response t =
     bindS (net_read_line t) (\<lambda>status_line t.
     bindS (rtsp_status_line (trim_crlf status_line), t) (\<lambda>(version, status, reason) t.
     bindS (rtsp_headers 0 [] t) (\<lambda>headers t.
       let content_length = rtsp_content_length headers;
           resp = \<lparr>rr_version = version, rr_status = status, rr_reason = reason, rr_headers = headers, rr_body = []\<rparr>
       in if content_length > RTSP_MAX_BODY then (Inl (BadResponse ''body too large: {content_length}''), t)
          else if content_length > 0 then
            (case read_to_limit content_length t of
               (Inl k, t) \<Rightarrow> (Inl (Io k), t)
             | (Inr body, t) \<Rightarrow>
                 if length body < content_length then (Inl UnexpectedEof, t) else (Inr (resp\<lparr>rr_body := body\<rparr>), t))
          else (Inr resp, t))))"

subsection \<open>The session\<close>

text \<open>\<open>BufReader::new(&self.stream)\<close>, a response, and the reader dropped.\<close>

definition read_through_own_buffer :: "rtsp_session \<Rightarrow> rtsp_response result \<times> rtsp_session" where
  "read_through_own_buffer s =
     (let (r, io) = rtsp_read_response (ss_io s);
          (n, ahead) = (case ss_ahead s of [] \<Rightarrow> (0, []) | n # ns \<Rightarrow> (n, ns))
      in (r, s\<lparr>ss_io := io\<lparr>t_in := drop n (t_in io)\<rparr>, ss_ahead := ahead\<rparr>))"

definition rtsp_send :: "string \<Rightarrow> rtsp_session \<Rightarrow> unit result \<times> rtsp_session" where
  "rtsp_send request s = (let (r, io) = send_bytes (bytes_of request) (ss_io s) in (r, s\<lparr>ss_io := io\<rparr>))"

definition check_response :: "u32 \<Rightarrow> rtsp_response \<Rightarrow> rtsp_response result" where
  "check_response cseq resp =
     (case rtsp_header ''CSeq'' resp of
        None \<Rightarrow> Inl (BadResponse ''rtsp: response missing CSeq'')
      | Some v \<Rightarrow>
          (case parse_unsigned (2 ^ 32 - 1) (trim v) of
             None \<Rightarrow> Inl (BadResponse ''rtsp: bad CSeq: {resp_cseq:?}'')
           | Some n \<Rightarrow>
               if of_nat n \<noteq> cseq then Inl (BadResponse ''rtsp: CSeq mismatch: sent {cseq}, got {resp_cseq}'')
               else if \<not> (200 \<le> rr_status resp \<and> rr_status resp < 300) then Inl (BadResponse ''rtsp: {} {}'')
               else Inr resp))"

definition rtsp_request :: "string \<Rightarrow> (string \<times> string) list \<Rightarrow> rtsp_session \<Rightarrow> rtsp_response result \<times> rtsp_session" where
  "rtsp_request rtsp_method extra_headers s =
     (let cseq = ss_cseq s; s = s\<lparr>ss_cseq := cseq + 1\<rparr>
      in bindS (rtsp_send (build_request rtsp_method (ss_uri s) cseq extra_headers) s) (\<lambda>_ s.
         bindS (read_through_own_buffer s) (\<lambda>resp s. (check_response cseq resp, s))))"

definition rtsp_options :: "rtsp_session \<Rightarrow> rtsp_response result \<times> rtsp_session" where
  "rtsp_options = rtsp_request ''OPTIONS'' []"

definition rtsp_describe :: "rtsp_session \<Rightarrow> rtsp_response result \<times> rtsp_session" where
  "rtsp_describe = rtsp_request ''DESCRIBE'' [(''Accept'', ''application/sdp'')]"

definition rtsp_setup :: "rtsp_session \<Rightarrow> rtsp_response result \<times> rtsp_session" where
  "rtsp_setup s =
     bindS (rtsp_request ''SETUP'' [(''Transport'', DEFAULT_TRANSPORT)] s) (\<lambda>resp s.
       case rtsp_header ''Session'' resp of
         None \<Rightarrow> (Inl (BadResponse ''rtsp: SETUP response missing Session''), s)
       | Some v \<Rightarrow> (Inr resp, s\<lparr>ss_id := Some (parse_session_id v)\<rparr>))"

definition rtsp_play :: "rtsp_session \<Rightarrow> rtsp_response result \<times> rtsp_session" where
  "rtsp_play s =
     (case ss_id s of
        None \<Rightarrow> (Inl (BadResponse ''rtsp: PLAY requires a SETUP session first''), s)
      | Some session \<Rightarrow> rtsp_request ''PLAY'' [(''Session'', session), (''Range'', ''npt=0.000-'')] s)"

definition rtsp_teardown :: "rtsp_session \<Rightarrow> rtsp_response result \<times> rtsp_session" where
  "rtsp_teardown s =
     (case ss_id s of
        None \<Rightarrow> (Inl (BadResponse ''rtsp: TEARDOWN requires a SETUP session first''), s)
      | Some session \<Rightarrow> bindS (rtsp_request ''TEARDOWN'' [(''Session'', session)] s) (\<lambda>resp s. (Inr resp, s\<lparr>ss_id := None\<rparr>)))"

definition rtsp_connect :: "(url \<Rightarrow> (transport \<times> nat list) result) \<Rightarrow> url \<Rightarrow> rtsp_session result" where
  "rtsp_connect connect u =
     bindR (rtsp_reject_control (u_host u)) (\<lambda>_.
     bindR (rtsp_reject_control (u_path u)) (\<lambda>_.
     bindR (connect u) (\<lambda>(io, ahead).
       Inr \<lparr>ss_io = io, ss_ahead = ahead, ss_uri = request_uri u, ss_cseq = 1, ss_id = None\<rparr>)))"

definition rtsp_run :: "string \<Rightarrow> rtsp_session \<Rightarrow> bytes result \<times> rtsp_session" where
  "rtsp_run upper s =
     (let body = (\<lambda>resp s. (Inr (rr_body resp), s))
      in if upper = ''OPTIONS'' then bindS (rtsp_options s) body
         else if upper = ''DESCRIBE'' then bindS (rtsp_describe s) body
         else if upper = ''SETUP'' then
           bindS (rtsp_options s) (\<lambda>_ s. bindS (rtsp_describe s) (\<lambda>_ s. bindS (rtsp_setup s) body))
         else if upper = ''PLAY'' then
           bindS (rtsp_options s) (\<lambda>_ s. bindS (rtsp_describe s) (\<lambda>_ s. bindS (rtsp_setup s) (\<lambda>_ s. bindS (rtsp_play s) body)))
         else if upper = ''TEARDOWN'' then
           bindS (rtsp_options s) (\<lambda>_ s. bindS (rtsp_describe s) (\<lambda>_ s. bindS (rtsp_setup s) (\<lambda>_ s. bindS (rtsp_play s) (\<lambda>_ s.
             bindS (rtsp_teardown s) body))))
         else (Inl (BadResponse ''rtsp: unsupported method {other:?} (expected OPTIONS, DESCRIBE, SETUP, PLAY, or TEARDOWN)''), s))"

definition run_method :: "(url \<Rightarrow> (transport \<times> nat list) result) \<Rightarrow> url \<Rightarrow> string \<Rightarrow> bytes result" where
  "run_method connect u rtsp_method =
     bindR (rtsp_connect connect u) (\<lambda>s. fst (rtsp_run (to_ascii_uppercase rtsp_method) s))"

definition rtsp_fetch :: "(url \<Rightarrow> (transport \<times> nat list) result) \<Rightarrow> url \<Rightarrow> bytes result" where
  "rtsp_fetch connect u = bindR (rtsp_connect connect u) (\<lambda>s. bindR (fst (rtsp_describe s)) (\<lambda>r. Inr (rr_body r)))"

subsection \<open>A response read as it was written\<close>

definition rtsp_wire :: "rtsp_response \<Rightarrow> bytes" where
  "rtsp_wire r =
     line_bytes_of (status_line (rr_version r) (rr_status r) (rr_reason r))
     @ concat (map (\<lambda>h. line_bytes_of (header_line h)) (rr_headers r)) @ CRLF @ rr_body r"

definition rtsp_wire_ok :: "rtsp_response \<Rightarrow> bool" where
  "rtsp_wire_ok r \<longleftrightarrow>
     starts_with ''RTSP/'' (rr_version r) \<and> CHR '' '' \<notin> set (rr_version r) \<and>
     text_line (status_line (rr_version r) (rr_status r) (rr_reason r)) \<and>
     list_all wire_header (rr_headers r) \<and> header_size (rr_headers r) \<le> RTSP_MAX_HEADER \<and>
     rtsp_content_length (rr_headers r) = length (rr_body r) \<and> length (rr_body r) \<le> RTSP_MAX_BODY"

lemma line_text_iff: "line_text s \<longleftrightarrow> text_line s"
  by (auto simp: line_text_def text_line_def)

lemma rtsp_status_read:
  assumes "starts_with ''RTSP/'' version" and "CHR '' '' \<notin> set version"
  shows "rtsp_status_line (status_line version st reason) = Inr (version, st, reason)"
proof -
  let ?st = "show_nat (unat st)"
  have "CHR '' '' \<notin> set ?st" using show_nat_graphic [of "CHR '' ''"] by (auto simp: graphic_def)
  then have "splitn 3 CHR '' '' (status_line version st reason) = [version, ?st, reason]"
    using split_once_here [of "CHR '' ''" version "[]" "?st @ '' '' @ reason"]
      split_once_here [of "CHR '' ''" ?st "[]" reason] assms(2)
    by (simp add: status_line_def numeral_3_eq_3)
  then show ?thesis using assms(1) by (simp add: rtsp_status_line_def parse_u16_show)
qed

lemma rtsp_headers_read:
  "list_all wire_header hs \<Longrightarrow> b + header_size hs \<le> RTSP_MAX_HEADER \<Longrightarrow>
     rtsp_headers b acc (t\<lparr>t_in := concat (map (\<lambda>h. line_bytes_of (header_line h)) hs) @ CRLF @ rest\<rparr>) = (Inr (acc @ hs), t\<lparr>t_in := rest\<rparr>)"
proof (induction hs arbitrary: b acc)
  case Nil
  have "net_read_line (t\<lparr>t_in := CRLF @ rest\<rparr>) = (Inr [CHR 0x0D, CHR 0x0A], t\<lparr>t_in := rest\<rparr>)"
    using net_read_text [where s = "[]" and t = t and rest = rest] by (simp add: line_text_iff line_bytes_of_def bytes_of_def)
  with Nil(2) trim_crlf_line [of "[]"] show ?case by (subst rtsp_headers.simps) (simp add: header_size_def)
next
  case (Cons h hs)
  obtain k v where h: "h = (k, v)" by fastforce
  let ?l = "header_line h" and ?rest = "concat (map (\<lambda>h. line_bytes_of (header_line h)) hs) @ CRLF @ rest"
  have w: "wire_header h" "text_line ?l" "?l \<noteq> []" using Cons.prems(1) text_line_header
    by (auto simp: h header_line_def)
  have n: "length ?l + 2 + (b + header_size hs) \<le> RTSP_MAX_HEADER"
    using Cons.prems(2) by (simp add: header_size_def)
  have "net_read_line (t\<lparr>t_in := line_bytes_of ?l @ ?rest\<rparr>) = (Inr (?l @ [CHR 0x0D, CHR 0x0A]), t\<lparr>t_in := ?rest\<rparr>)"
    using w(2) by (intro net_read_text) (simp add: line_text_iff)
  moreover have "rtsp_headers (b + (length ?l + 2)) (acc @ [h]) (t\<lparr>t_in := ?rest\<rparr>) = (Inr ((acc @ [h]) @ hs), t\<lparr>t_in := rest\<rparr>)"
    using Cons.prems(1) n by (intro Cons.IH) simp_all
  moreover have "(trim k, trim (CHR '' '' # v)) = h"
    using w(1) by (simp add: h wire_header_def trim_trimmed)
  ultimately show ?case
    using split_header [of k v] w n trim_crlf_line [OF w(2)] by (subst rtsp_headers.simps) (simp add: h)
qed

lemma rtsp_response_read:
  assumes "rtsp_wire_ok r"
  shows "rtsp_read_response (t\<lparr>t_in := rtsp_wire r @ rest\<rparr>) = (Inr r, t\<lparr>t_in := rest\<rparr>)"
proof -
  let ?st = "status_line (rr_version r) (rr_status r) (rr_reason r)"
  let ?body = "rr_body r @ rest"
  let ?hs = "concat (map (\<lambda>h. line_bytes_of (header_line h)) (rr_headers r)) @ CRLF @ ?body"
  have 1: "net_read_line (t\<lparr>t_in := line_bytes_of ?st @ ?hs\<rparr>) = (Inr (?st @ [CHR 0x0D, CHR 0x0A]), t\<lparr>t_in := ?hs\<rparr>)"
    and 2: "trim_crlf (?st @ [CHR 0x0D, CHR 0x0A]) = ?st"
    and 3: "rtsp_status_line ?st = Inr (rr_version r, rr_status r, rr_reason r)"
    and 4: "rtsp_headers 0 [] (t\<lparr>t_in := ?hs\<rparr>) = (Inr ([] @ rr_headers r), t\<lparr>t_in := ?body\<rparr>)"
    using assms by (intro net_read_text trim_crlf_line rtsp_status_read rtsp_headers_read; simp add: rtsp_wire_ok_def line_text_iff)+
  have "read_to_limit (length (rr_body r)) (t\<lparr>t_in := ?body\<rparr>) = (Inr (rr_body r), t\<lparr>t_in := rest\<rparr>)"
    by (simp add: read_to_limit_def)
  then show ?thesis using assms 1 2 3 4
    by (cases r; cases "rr_body r = []") (simp_all add: rtsp_read_response_def rtsp_wire_def rtsp_wire_ok_def Let_def)
qed

subsection \<open>The handshake\<close>

text \<open>A response that accepts request number \<open>k\<close>.\<close>

definition answers :: "u32 \<Rightarrow> rtsp_response \<Rightarrow> bool" where
  "answers k r \<longleftrightarrow> rtsp_wire_ok r \<and> rtsp_header ''CSeq'' r = Some (show_nat (unat k)) \<and> 200 \<le> rr_status r \<and> rr_status r < 300"

lemma check_response_answers: "answers k r \<Longrightarrow> check_response k r = Inr r"
proof -
  have "unat k \<le> 2 ^ 32 - 1" using unsigned_less [of k, where ?'a = nat] by simp
  then show "answers k r \<Longrightarrow> check_response k r = Inr r"
    by (simp add: answers_def check_response_def trim_trimmed parse_unsigned_show del: One_nat_def)
qed

definition after_request :: "string \<Rightarrow> (string \<times> string) list \<Rightarrow> bytes \<Rightarrow> rtsp_session \<Rightarrow> rtsp_session" where
  "after_request m hs rest s =
     s\<lparr>ss_io := (ss_io s)\<lparr>t_in := rest, t_out := t_out (ss_io s) @ bytes_of (build_request m (ss_uri s) (ss_cseq s) hs)\<rparr>,
       ss_cseq := ss_cseq s + 1\<rparr>"

lemma rtsp_request_answered:
  assumes "t_cap (ss_io s) = None" and "ss_ahead s = []" and "answers (ss_cseq s) r" and "t_in (ss_io s) = rtsp_wire r @ rest"
  shows "rtsp_request m hs s = (Inr r, after_request m hs rest s)"
proof -
  let ?req = "bytes_of (build_request m (ss_uri s) (ss_cseq s) hs)"
  have "ss_io s\<lparr>t_out := t_out (ss_io s) @ ?req\<rparr> = (ss_io s\<lparr>t_out := t_out (ss_io s) @ ?req\<rparr>)\<lparr>t_in := rtsp_wire r @ rest\<rparr>"
    using assms(4) by simp
  moreover have "rtsp_wire_ok r" using assms(3) by (simp add: answers_def)
  ultimately have "rtsp_read_response (ss_io s\<lparr>t_out := t_out (ss_io s) @ ?req\<rparr>) = (Inr r, ss_io s\<lparr>t_out := t_out (ss_io s) @ ?req, t_in := rest\<rparr>)"
    using rtsp_response_read [where r = r and t = "ss_io s\<lparr>t_out := t_out (ss_io s) @ ?req\<rparr>" and rest = rest] by metis
  then show ?thesis
    using assms(1-3)
    by (cases s) (simp add: rtsp_request_def rtsp_send_def read_through_own_buffer_def check_response_answers after_request_def io_swap Let_def)
qed

lemma after_request_fields [simp]:
  "ss_ahead (after_request m hs rest s) = ss_ahead s" "ss_uri (after_request m hs rest s) = ss_uri s"
  "ss_id (after_request m hs rest s) = ss_id s" "ss_cseq (after_request m hs rest s) = ss_cseq s + 1"
  "t_in (ss_io (after_request m hs rest s)) = rest" "t_cap (ss_io (after_request m hs rest s)) = t_cap (ss_io s)"
  "t_out (ss_io (after_request m hs rest s)) = t_out (ss_io s) @ bytes_of (build_request m (ss_uri s) (ss_cseq s) hs)"
  by (simp_all add: after_request_def)

lemma request_uri_printable: "printable (u_host u) \<Longrightarrow> printable (u_path u) \<Longrightarrow> printable (request_uri u)"
proof -
  have "printable (show_nat n)" for n
    using show_nat_digits [of _ n] by (fastforce simp: printable_def list_all_iff)
  moreover have "printable ''rtsp://''" "printable '':''" by (simp_all add: printable_def)
  ultimately show "printable (u_host u) \<Longrightarrow> printable (u_path u) \<Longrightarrow> printable (request_uri u)"
    unfolding request_uri_def by (simp only: printable_append if_split simp_thms)
qed


text \<open>What a dropped reader has taken beyond its response is lost: the next request waits for bytes that have come already.\<close>

lemma rtsp_read_ahead_lost:
  assumes "t_cap (ss_io s) = None" and "t_end (ss_io s) = IoUnexpectedEof" and "ss_ahead s = [length (rtsp_wire r2)]"
    and "answers (ss_cseq s) r1" and "t_in (ss_io s) = rtsp_wire r1 @ rtsp_wire r2"
  shows "\<exists>s'. rtsp_request m hs s = (Inr r1, s') \<and> fst (rtsp_request m' hs' s') = Inl UnexpectedEof"
proof -
  let ?io = "(ss_io s)\<lparr>t_out := t_out (ss_io s) @ bytes_of (build_request m (ss_uri s) (ss_cseq s) hs)\<rparr>"
  have "?io = ?io\<lparr>t_in := rtsp_wire r1 @ rtsp_wire r2\<rparr>" using assms(5) by simp
  moreover have "rtsp_wire_ok r1" using assms(4) by (simp add: answers_def)
  ultimately have r: "rtsp_read_response ?io = (Inr r1, ?io\<lparr>t_in := rtsp_wire r2\<rparr>)"
    using rtsp_response_read [where r = r1 and t = ?io and rest = "rtsp_wire r2"] by metis
  let ?s = "s\<lparr>ss_cseq := ss_cseq s + 1, ss_io := ?io\<lparr>t_in := []\<rparr>, ss_ahead := []\<rparr>"
  have "rtsp_request m hs s = (Inr r1, ?s)"
    using assms(1, 3, 4) r by (simp add: rtsp_request_def rtsp_send_def read_through_own_buffer_def check_response_answers Let_def)
  moreover have "fst (rtsp_read_response t) = Inl UnexpectedEof" if "t_in t = []" "t_end t = IoUnexpectedEof" for t
    using that by (simp add: rtsp_read_response_def net_read_line_def buf_read_line_def read_until_lf_def from_utf8_def str_of_def)
  then have "fst (rtsp_request m' hs' ?s) = Inl UnexpectedEof"
    using assms(1, 2) by (simp add: rtsp_request_def rtsp_send_def read_through_own_buffer_def Let_def case_prod_unfold)
  ultimately show ?thesis by blast
qed

text \<open>The hypotheses hold for a server that accepts everything and gives the session id with a timeout.\<close>

definition example_answer :: "u32 \<Rightarrow> rtsp_response" where
  "example_answer k = \<lparr>rr_version = ''RTSP/1.0'', rr_status = 200, rr_reason = ''OK'',
     rr_headers = [(''cseq'', show_nat (unat k)), (''Session'', ''77;timeout=60''), (''Content-Length'', ''1'')], rr_body = [9]\<rparr>"

definition example_rtsp_url :: url where
  "example_rtsp_url = \<lparr>u_scheme = ''rtsp'', u_userinfo = None, u_host = ''h'', u_port = 554, u_path = ''/s''\<rparr>"

definition example_session :: rtsp_session where
  "example_session = \<lparr>ss_io = fresh_transport\<lparr>t_in := concat (map rtsp_wire (map example_answer [1, 2, 3, 4, 5])) @ [0x24]\<rparr>, ss_ahead = [],
     ss_uri = ''rtsp://h/s'', ss_cseq = 1, ss_id = None\<rparr>"

lemma header_names:
  "eq_ignore_ascii_case ''Content-Length'' ''content-length''" "eq_ignore_ascii_case ''cseq'' ''CSeq''"
  "eq_ignore_ascii_case ''Session'' ''Session''" "\<not> eq_ignore_ascii_case ''cseq'' ''Session''"
  "\<not> eq_ignore_ascii_case ''cseq'' ''content-length''" "\<not> eq_ignore_ascii_case ''Session'' ''content-length''"
  by code_simp+

lemma example_answers: "unat k < 10 \<Longrightarrow> answers k (example_answer k)"
proof -
  assume "unat k < 10"
  then have l: "length (show_nat (unat k)) \<le> 1" using length_show_nat [of "unat k" 0] by simp
  have n: "text_line (show_nat m)" for m
    by (rule text_line_ascii) (use show_nat_digits [of _ m] in fastforce)
  have w: "wire_header (''cseq'', show_nat (unat k))" "wire_header (''Session'', ''77;timeout=60'')" "wire_header (''Content-Length'', ''1'')"
    using trimmed_show_nat [of "unat k"] by (simp_all add: wire_header_def n text_line_ascii) (simp_all add: trimmed_def graphic_def)
  have st: "text_line (status_line ''RTSP/1.0'' 200 ''OK'')"
    unfolding status_line_def by (intro text_line_append n) (rule text_line_ascii, simp)+
  have "parse_unsigned (2 ^ 64 - 1) ''1'' = Some 1" by (simp add: parse_unsigned_def)
  then have "rtsp_content_length (rr_headers (example_answer k)) = 1"
    by (simp add: rtsp_content_length_def example_answer_def header_names)
  moreover have "rtsp_header ''CSeq'' (example_answer k) = Some (show_nat (unat k))"
    by (simp add: rtsp_header_def example_answer_def header_names)
  ultimately show "answers k (example_answer k)"
    using w st l by (simp add: answers_def rtsp_wire_ok_def example_answer_def header_size_def header_line_def starts_with_def)
qed


end
