(* ===== verification/Ftp.thy ===== *)
theory Ftp
  imports Line_IO
begin

text \<open>
  FTP and FTPS (\<open>src/src/ftp.rs\<close>, RFC 959, RFC 2428): replies, the login, the passive data connection, downloads and uploads.  Connecting,
  TLS and the peer address of a socket are parameters.  A control connection carries along, for the proofs, the addresses that data
  connections were dialled to and what was written on them.  Proved: a server's file is returned as it is; whatever the server
  answers, data connections go to the peer of the control connection or to the host of the URL only, and only whole commands without
  control characters are sent; an upload that succeeds has sent the whole body.
\<close>

subsection \<open>Replies\<close>

abbreviation (input) is_digit_char :: "char \<Rightarrow> bool" where
  "is_digit_char c \<equiv> 48 \<le> (of_char c :: nat) \<and> (of_char c :: nat) \<le> 57"

definition split_code :: "string \<Rightarrow> (u16 \<times> char \<times> string) result" where
  "split_code line =
     (if length line < 4 \<or> \<not> list_all is_digit_char (take 3 line) then Inl (BadResponse ''ftp reply: no 3-digit code: {}'')
      else let sep = line ! 3
        in if sep \<noteq> CHR '' '' \<and> sep \<noteq> CHR ''-'' then Inl (BadResponse ''ftp reply: bad separator: {}'')
           else Inr (the (parse_u16 (take 3 line)), sep, trim_end_matches (\<lambda>c. c = CHR 0x0D \<or> c = CHR 0x0A) (drop 4 line)))"

function read_continuation :: "u16 \<Rightarrow> string \<Rightarrow> transport \<Rightarrow> (u16 \<times> string) result \<times> transport" where
  "read_continuation code tx t =
     (case net_read_line t of
        (Inl e, t) \<Rightarrow> (Inl e, t)
      | (Inr line, t) \<Rightarrow>
          (case split_code line of
             Inr (c, s, rest) \<Rightarrow>
               let tx = tx @ [CHR 0x0A] @ rest
               in if c = code \<and> s = CHR '' '' then (Inr (code, tx), t) else read_continuation code tx t
           | Inl _ \<Rightarrow>
               read_continuation code (tx @ [CHR 0x0A] @ trim_end_matches (\<lambda>c. c = CHR 0x0D \<or> c = CHR 0x0A) line) t))"
  by pat_completeness auto
termination by (relation "measure (\<lambda>(c, s, t). length (t_in t))") (auto dest: net_read_line_shrinks [OF sym])

declare read_continuation.simps [simp del]

definition read_reply :: "transport \<Rightarrow> (u16 \<times> string) result \<times> transport" where
  "read_reply t =
     bindS (net_read_line t) (\<lambda>first t.
     bindS (split_code first, t) (\<lambda>(code, sep, rest) t.
       if sep = CHR '' '' then (Inr (code, rest), t) else read_continuation code rest t))"

definition is_positive :: "u16 \<Rightarrow> bool" where
  "is_positive code \<longleftrightarrow> 200 \<le> code \<and> code < 400"

definition ftp_send :: "string \<Rightarrow> transport \<Rightarrow> unit result \<times> transport" where
  "ftp_send = send_command ''ftp: refusing to send command line with embedded CR/LF/NUL''"

definition ftp_reject_ctl :: "string \<Rightarrow> unit result" where
  "ftp_reject_ctl = reject_controls ''ftp: {what} contains illegal control byte {b:#04x}''"

subsection \<open>Passive mode\<close>

definition parse_pasv :: "string \<Rightarrow> (string \<times> u16) option" where
  "parse_pasv tx =
     (case find_char CHR ''('' tx of
        None \<Rightarrow> None
      | Some open_at \<Rightarrow>
          (case find_char CHR '')'' (drop open_at tx) of
             None \<Rightarrow> None
           | Some n \<Rightarrow>
               let parts = map trim (split_char CHR '','' (take (n - 1) (drop (open_at + 1) tx)))
               in if length parts \<noteq> 6 then None
                  else let nums = List.map_filter parse_u16 parts
                    in if length nums \<noteq> 6 \<or> list_ex (\<lambda>n. n > 255) nums then None
                       else Some (show_nat (unat (nums ! 0)) @ ''.'' @ show_nat (unat (nums ! 1)) @ ''.'' @ show_nat (unat (nums ! 2)) @ ''.''
                              @ show_nat (unat (nums ! 3)),
                            push_bit 8 (ucast (ucast (nums ! 4) :: byte)) OR ucast (ucast (nums ! 5) :: byte))))"

text \<open>\<open>str::chars\<close>: each character with its bytes.\<close>

function str_chars :: "string \<Rightarrow> string list" where
  "str_chars [] = []"
| "str_chars (c # cs) =
     (c # takeWhile (\<lambda>c. utf8_cont (of_char c)) cs) # str_chars (dropWhile (\<lambda>c. utf8_cont (of_char c)) cs)"
  by pat_completeness auto
termination by (relation "measure length") (simp_all add: le_imp_less_Suc length_dropWhile_le)

text \<open>The loop of \<open>parse_epsv\<close>: where the third delimiter ends and where the fourth begins.\<close>

fun epsv_scan :: "string \<Rightarrow> nat \<Rightarrow> nat \<Rightarrow> nat option \<Rightarrow> string list \<Rightarrow> nat option \<times> nat option" where
  "epsv_scan delim i count start [] = (start, None)"
| "epsv_scan delim i count start (ch # chs) =
     (if ch = delim then
        if count + 1 = 3 then epsv_scan delim (i + 1) (count + 1) (Some (i + 1)) chs
        else if count + 1 = 4 then (start, Some i)
        else epsv_scan delim (i + 1) (count + 1) start chs
      else epsv_scan delim (i + 1) count start chs)"

definition parse_epsv :: "string \<Rightarrow> u16 option" where
  "parse_epsv tx =
     (case find_char CHR ''('' tx of
        None \<Rightarrow> None
      | Some open_at \<Rightarrow>
          (case rfind_char CHR '')'' (drop open_at tx) of
             None \<Rightarrow> None
           | Some n \<Rightarrow>
               let chs = str_chars (take (n - 1) (drop (open_at + 1) tx))
               in (case chs of
                     [] \<Rightarrow> None
                   | delim # _ \<Rightarrow>
                       (case epsv_scan delim 0 0 None chs of
                          (Some s, Some e) \<Rightarrow> parse_u16 (concat (take (e - s) (drop s chs)))
                        | _ \<Rightarrow> None))))"

definition open_passive :: "string \<Rightarrow> string \<Rightarrow> transport \<Rightarrow> (string \<times> u16) result \<times> transport" where
  "open_passive fallback_host ctrl_peer_ip t =
     bindS (ftp_send ''EPSV'' t) (\<lambda>_ t.
     bindS (read_reply t) (\<lambda>(c, m) t.
       if c = 229 then
         (case parse_epsv m of
            None \<Rightarrow> (Inl (BadResponse ''ftp EPSV: cannot parse reply: {m}''), t)
          | Some port \<Rightarrow> (Inr (fallback_host, port), t))
       else if \<not> (400 \<le> c \<and> c < 600) then (Inl (BadResponse ''ftp EPSV: {c} {m}''), t)
       else
         bindS (ftp_send ''PASV'' t) (\<lambda>_ t.
         bindS (read_reply t) (\<lambda>(c2, m2) t.
           if c2 \<noteq> 227 then (Inl (BadResponse ''ftp PASV: {c2} {m2}''), t)
           else (case parse_pasv m2 of
                   None \<Rightarrow> (Inl (BadResponse ''ftp PASV: cannot parse: {m2}''), t)
                 | Some (_, port) \<Rightarrow> (Inr (ctrl_peer_ip, port), t))))))"

subsection \<open>The connections\<close>

text \<open>What the crate calls: connecting to a host, the address of the other end, and TLS over a connection for a server name.\<close>

record ftp_net =
  fn_connect :: "string \<Rightarrow> u16 \<Rightarrow> transport result"
  fn_peer_ip :: "transport \<Rightarrow> string result"
  fn_tls :: "transport \<Rightarrow> string \<Rightarrow> transport result"

text \<open>\<open>Control\<close>; the last two fields record the data connections dialled and the bytes written on them.\<close>

record ftp_control =
  fc_ctrl :: transport
  fc_peer :: string
  fc_dialled :: "(string \<times> u16) list"
  fc_sent :: bytes

definition on_ctrl :: "(transport \<Rightarrow> 'a result \<times> transport) \<Rightarrow> ftp_control \<Rightarrow> 'a result \<times> ftp_control" where
  "on_ctrl f con = (let (r, t) = f (fc_ctrl con) in (r, con\<lparr>fc_ctrl := t\<rparr>))"

definition ftp_split_userinfo :: "string option \<Rightarrow> string \<times> string" where
  "ftp_split_userinfo ui =
     (case ui of
        None \<Rightarrow> (''anonymous'', ''rsurl@'')
      | Some s \<Rightarrow> (case split_once '':'' s of Some (u, p) \<Rightarrow> (u, p) | None \<Rightarrow> (s, ''rsurl@'')))"

definition ftp_connect :: "ftp_net \<Rightarrow> url \<Rightarrow> ftp_control result" where
  "ftp_connect net u =
     (if u_scheme u \<noteq> ''ftp'' \<and> u_scheme u \<noteq> ''ftps'' then Inl (UnsupportedScheme (u_scheme u))
      else bindR (fn_connect net (u_host u) (u_port u)) (\<lambda>tcp.
           bindR (fn_peer_ip net tcp) (\<lambda>ip.
           bindR (if u_scheme u = ''ftps'' then fn_tls net tcp (u_host u) else Inr tcp) (\<lambda>t.
             Inr \<lparr>fc_ctrl = t, fc_peer = ip, fc_dialled = [], fc_sent = []\<rparr>))))"

definition ftp_user :: "string \<Rightarrow> string \<Rightarrow> transport \<Rightarrow> unit result \<times> transport" where
  "ftp_user user pass t =
     bindS (ftp_send (''USER '' @ user) t) (\<lambda>_ t.
     bindS (read_reply t) (\<lambda>(c, _) t.
       if c = 230 then (Inr (), t)
       else if c = 331 then
         bindS (ftp_send (''PASS '' @ pass) t) (\<lambda>_ t.
         bindS (read_reply t) (\<lambda>(c2, m2) t.
           if c2 \<noteq> 230 \<and> c2 \<noteq> 202 then (Inl (BadResponse ''ftp PASS: {c2} {m2}''), t) else (Inr (), t)))
       else if c = 332 then (Inl (BadResponse ''ftp server requires ACCT, not supported''), t)
       else (Inl (BadResponse ''ftp USER: {c}''), t)))"

definition ftp_login :: "url \<Rightarrow> transport \<Rightarrow> unit result \<times> transport" where
  "ftp_login u t =
     bindS (read_reply t) (\<lambda>(code, _) t.
       if \<not> is_positive code then (Inl (BadResponse ''ftp banner: {code}''), t)
       else let (user, pass) = ftp_split_userinfo (u_userinfo u) in
         bindS (ftp_reject_ctl user, t) (\<lambda>_ t.
         bindS (ftp_reject_ctl pass, t) (\<lambda>_ t.
         bindS (ftp_user user pass t) (\<lambda>_ t.
         bindS (ftp_send ''TYPE I'' t) (\<lambda>_ t.
         bindS (read_reply t) (\<lambda>(c, m) t.
           if c \<noteq> 200 then (Inl (BadResponse ''ftp TYPE I: {c} {m}''), t) else (Inr (), t)))))))"

definition connect_login :: "ftp_net \<Rightarrow> url \<Rightarrow> ftp_control result" where
  "connect_login net u =
     bindR (ftp_connect net u) (\<lambda>con. case on_ctrl (ftp_login u) con of (Inl e, _) \<Rightarrow> Inl e | (Inr _, con) \<Rightarrow> Inr con)"

definition open_data :: "ftp_net \<Rightarrow> url \<Rightarrow> ftp_control \<Rightarrow> transport result \<times> ftp_control" where
  "open_data net u con =
     bindS (on_ctrl (open_passive (u_host u) (fc_peer con)) con) (\<lambda>(data_host, data_port) con.
       let con = con\<lparr>fc_dialled := fc_dialled con @ [(data_host, data_port)]\<rparr>
       in (bindR (fn_connect net data_host data_port) (\<lambda>tcp. if u_scheme u = ''ftps'' then fn_tls net tcp (u_host u) else Inr tcp), con))"

text \<open>\<open>let _ = send(ctrl, "QUIT"); let _ = read_reply(ctrl);\<close>\<close>

definition ftp_quit :: "transport \<Rightarrow> transport" where
  "ftp_quit t = snd (read_reply (snd (ftp_send ''QUIT'' t)))"

subsection \<open>Downloads\<close>

definition ftp_command :: "string \<Rightarrow> string" where
  "ftp_command path =
     (if path = [] \<or> path = ''/'' then ''LIST''
      else if last path = CHR ''/'' then ''LIST '' @ path
      else ''RETR '' @ path)"

definition data_read_to_end :: "transport \<Rightarrow> bytes result" where
  "data_read_to_end t = (if t_end t = IoUnexpectedEof then Inr (t_in t) else Inl (Io (t_end t)))"

definition ftp_retrieve :: "ftp_net \<Rightarrow> url \<Rightarrow> ftp_control \<Rightarrow> bytes result \<times> ftp_control" where
  "ftp_retrieve net u con =
     bindS (open_data net u con) (\<lambda>data con.
     bindS (ftp_reject_ctl (u_path u), con) (\<lambda>_ con.
     bindS (on_ctrl (ftp_send (ftp_command (u_path u))) con) (\<lambda>_ con.
     bindS (on_ctrl read_reply con) (\<lambda>(c, m) con.
       if \<not> (c = 125 \<or> c = 150) \<and> \<not> is_positive c then (Inl (BadResponse ''ftp {cmd}: {c} {m}''), con)
       else
         bindS (data_read_to_end data, con) (\<lambda>bs con.
         bindS (if c = 125 \<or> c = 150 then
                  bindS (on_ctrl read_reply con) (\<lambda>(cf, mf) con.
                    if \<not> is_positive cf then (Inl (BadResponse ''ftp transfer end: {cf} {mf}''), con) else (Inr (), con))
                else (Inr (), con)) (\<lambda>_ con.
           (Inr bs, con\<lparr>fc_ctrl := ftp_quit (fc_ctrl con)\<rparr>)))))))"

definition ftp_fetch :: "ftp_net \<Rightarrow> url \<Rightarrow> bytes result" where
  "ftp_fetch net u = bindR (connect_login net u) (\<lambda>con. fst (ftp_retrieve net u con))"

subsection \<open>Uploads\<close>

datatype upload_mode = Stor | Appe

fun upload_verb :: "upload_mode \<Rightarrow> string" where
  "upload_verb Stor = ''STOR''"
| "upload_verb Appe = ''APPE''"

definition upload_command :: "upload_mode \<Rightarrow> string \<Rightarrow> string option" where
  "upload_command mode path =
     (let name = (case strip_prefix ''/'' path of Some r \<Rightarrow> r | None \<Rightarrow> path)
      in if name = [] \<or> last name = CHR ''/'' then None else Some (upload_verb mode @ '' '' @ name))"

definition rest_command :: "u64 \<Rightarrow> string" where
  "rest_command offset = ''REST '' @ show_nat (unat offset)"

definition ftp_restart :: "upload_mode \<Rightarrow> u64 option \<Rightarrow> transport \<Rightarrow> unit result \<times> transport" where
  "ftp_restart mode resume_at t =
     (case resume_at of
        Some offset \<Rightarrow>
          if mode = Stor then
            bindS (ftp_send (rest_command offset) t) (\<lambda>_ t.
            bindS (read_reply t) (\<lambda>(c, m) t. if c \<noteq> 350 then (Inl (BadResponse ''ftp REST: {c} {m}''), t) else (Inr (), t)))
          else (Inr (), t)
      | None \<Rightarrow> (Inr (), t))"

definition ftp_upload :: "ftp_net \<Rightarrow> url \<Rightarrow> bytes \<Rightarrow> upload_mode \<Rightarrow> u64 option \<Rightarrow> ftp_control \<Rightarrow> unit result \<times> ftp_control" where
  "ftp_upload net u body mode resume_at con =
     bindS (ftp_reject_ctl (u_path u), con) (\<lambda>_ con.
     bindS (case upload_command mode (u_path u) of
              None \<Rightarrow> Inl (BadResponse ''ftp {}: URL path {:?} does not name a file to upload'')
            | Some cmd \<Rightarrow> Inr cmd, con) (\<lambda>cmd con.
     bindS (on_ctrl (ftp_restart mode resume_at) con) (\<lambda>_ con.
     bindS (open_data net u con) (\<lambda>data con.
     bindS (on_ctrl (ftp_send cmd) con) (\<lambda>_ con.
     bindS (on_ctrl read_reply con) (\<lambda>(c, m) con.
       if \<not> (c = 125 \<or> c = 150) then (Inl (BadResponse ''ftp {cmd}: {c} {m}''), con)
       else let (r, data) = send_bytes body data; con = con\<lparr>fc_sent := t_out data\<rparr> in
         bindS (r, con) (\<lambda>_ con.
         bindS (on_ctrl read_reply con) (\<lambda>(cf, mf) con.
           if \<not> is_positive cf then (Inl (BadResponse ''ftp {} end: {cf} {mf}''), con)
           else (Inr (), con\<lparr>fc_ctrl := ftp_quit (fc_ctrl con)\<rparr>)))))))))"

definition upload :: "ftp_net \<Rightarrow> url \<Rightarrow> bytes \<Rightarrow> upload_mode \<Rightarrow> u64 option \<Rightarrow> unit result" where
  "upload net u body mode resume_at =
     bindR (connect_login net u) (\<lambda>con. fst (ftp_upload net u body mode resume_at con))"

definition ftp_store :: "ftp_net \<Rightarrow> url \<Rightarrow> bytes \<Rightarrow> u64 option \<Rightarrow> unit result" where
  "ftp_store net u body resume_at = upload net u body Stor resume_at"

definition ftp_append :: "ftp_net \<Rightarrow> url \<Rightarrow> bytes \<Rightarrow> unit result" where
  "ftp_append net u body = upload net u body Appe None"

subsection \<open>Replies are read as they were written\<close>

record ftp_reply =
  rp_code :: u16
  rp_lines :: "string list"
  rp_final :: string

abbreviation (input) reply_code :: "ftp_reply \<Rightarrow> string" where
  "reply_code r \<equiv> show_nat (unat (rp_code r))"

definition reply_wire :: "ftp_reply \<Rightarrow> bytes" where
  "reply_wire r =
     (case rp_lines r of
        [] \<Rightarrow> []
      | l # ls \<Rightarrow> line_bytes_of (reply_code r @ CHR ''-'' # l) @ concat (map line_bytes_of ls))
     @ line_bytes_of (reply_code r @ CHR '' '' # rp_final r)"

text \<open>A legal reply: three digits, lines of text, and no line inside that looks like the last one.\<close>

definition reply_ok :: "ftp_reply \<Rightarrow> bool" where
  "reply_ok r \<longleftrightarrow> length (reply_code r) = 3 \<and> line_text (rp_final r) \<and> list_all line_text (rp_lines r) \<and>
     list_all (\<lambda>l. take 4 l \<noteq> reply_code r @ '' '') (tl (rp_lines r))"

lemma two_digits:
  fixes i k x z :: nat
  assumes "k \<le> 9" and "z \<le> 9" and "10 * i + k = 10 * x + z"
  shows "i = x \<and> k = z"
proof -
  have "(10 * i + k) div 10 = i" "(10 * x + z) div 10 = x" using assms(1, 2) by simp_all
  then have "i = x" using assms(3) by metis
  with assms(3) show ?thesis by simp
qed

lemma three_digits_small: "i \<le> 9 \<Longrightarrow> j \<le> 9 \<Longrightarrow> k \<le> 9 \<Longrightarrow> 10 * (10 * i + j) + k \<le> 65535" for i j k :: nat
  by simp

lemma three_digits_unique:
  "i \<le> 9 \<Longrightarrow> j \<le> 9 \<Longrightarrow> k \<le> 9 \<Longrightarrow> x \<le> 9 \<Longrightarrow> y \<le> 9 \<Longrightarrow> z \<le> 9 \<Longrightarrow>
     10 * (10 * i + j) + k = 10 * (10 * x + y) + z \<Longrightarrow> i = x \<and> j = y \<and> k = z" for i j k x y z :: nat
  by (metis two_digits)

lemma parse_three:
  assumes "list_all is_digit_char [a, b, c]" and "list_all is_digit_char [x, y, z]"
    and "parse_unsigned 65535 [a, b, c] = parse_unsigned 65535 [x, y, z]"
  shows "[a, b, c] = [x, y, z]"
proof -
  let ?d = "\<lambda>c. (of_char c :: nat) - 48"
  have nine: "is_digit_char i \<Longrightarrow> ?d i \<le> 9" for i by arith
  have p: "parse_unsigned 65535 [i, j, k] = Some (10 * (10 * ?d i + ?d j) + ?d k)" if "list_all is_digit_char [i, j, k]" for i j k
  proof -
    have "i \<noteq> CHR ''+''" using that by auto
    then have "parse_unsigned 65535 [i, j, k] =
        (let n = 10 * (10 * ?d i + ?d j) + ?d k in if n \<le> 65535 then Some n else None)"
      using that by (simp add: parse_unsigned_def)
    moreover have "10 * (10 * ?d i + ?d j) + ?d k \<le> 65535" using that by (intro three_digits_small nine) simp_all
    ultimately show ?thesis by (simp add: Let_def)
  qed
  have e: "10 * (10 * ?d a + ?d b) + ?d c = 10 * (10 * ?d x + ?d y) + ?d z"
    using assms(3) unfolding p [OF assms(1)] p [OF assms(2)] by simp
  have "?d a = ?d x \<and> ?d b = ?d y \<and> ?d c = ?d z"
    by (rule three_digits_unique [OF _ _ _ _ _ _ e]; rule nine) (use assms(1, 2) in simp_all)
  moreover have "of_char i = (of_char j :: nat)" if "?d i = ?d j" "is_digit_char i" "is_digit_char j" for i j
    using that by arith
  ultimately have "(of_char a :: nat) = of_char x \<and> (of_char b :: nat) = of_char y \<and> (of_char c :: nat) = of_char z"
    using assms(1, 2) by simp
  then show ?thesis by simp
qed

lemma parse_u16_three:
  assumes "length ds = 3" and "list_all is_digit_char ds" and "length (show_nat (unat n)) = 3" and "parse_u16 ds = Some n"
  shows "ds = show_nat (unat n)"
proof -
  obtain a b c where d: "ds = [a, b, c]" using assms(1) by (auto simp: numeral_3_eq_3 length_Suc_conv)
  obtain x y z where s: "show_nat (unat n) = [x, y, z]" using assms(3) by (auto simp: numeral_3_eq_3 length_Suc_conv)
  have g: "list_all is_digit_char [x, y, z]" using show_nat_digits [of _ "unat n"] unfolding s by (auto simp: list_all_iff)
  obtain m where m: "parse_unsigned 65535 ds = Some m" "of_nat m = n" using assms(4) by (auto simp: parse_u16_def)
  have "m \<le> 65535" using m(1) by (auto simp: parse_unsigned_def Let_def split: if_splits option.splits)
  then have "unat n = m" using m(2) by (auto simp: unat_of_nat)
  then have "parse_unsigned 65535 [x, y, z] = Some m" using parse_unsigned_show [of m 65535] s \<open>m \<le> 65535\<close> by simp
  then show ?thesis using parse_three [of a b c x y z] assms(2) g m(1) unfolding d s by simp
qed

lemma split_code_line:
  assumes "length (show_nat (unat n)) = 3" and "sep = CHR '' '' \<or> sep = CHR ''-''" and "line_text m"
  shows "split_code ((show_nat (unat n) @ sep # m) @ [CHR 0x0D, CHR 0x0A]) = Inr (n, sep, m)"
proof -
  let ?l = "(show_nat (unat n) @ sep # m) @ [CHR 0x0D, CHR 0x0A]"
  have "list_all is_digit_char (show_nat (unat n))" using show_nat_digits [of _ "unat n"] by (auto simp: list_all_iff)
  moreover have "take 3 ?l = show_nat (unat n)" "?l ! 3 = sep" "drop 4 ?l = m @ [CHR 0x0D, CHR 0x0A]"
    using assms(1) by (simp_all add: nth_append numeral_eq_Suc)
  moreover have "trim_end_matches (\<lambda>c. c = CHR 0x0D \<or> c = CHR 0x0A) (m @ [CHR 0x0D, CHR 0x0A]) = m"
    using assms(3) by (intro trim_end_matches_append) (auto simp: line_text_def dest: last_in_set)
  ultimately show ?thesis using assms by (auto simp: split_code_def parse_u16_show)
qed

lemma split_code_inside:
  assumes "split_code (l @ [CHR 0x0D, CHR 0x0A]) = Inr (n, CHR '' '', m)" and "length (show_nat (unat n)) = 3"
  shows "take 4 l = show_nat (unat n) @ '' ''"
proof -
  let ?l = "l @ [CHR 0x0D, CHR 0x0A]"
  have d: "list_all is_digit_char (take 3 ?l)" "?l ! 3 = CHR '' ''" "4 \<le> length ?l" "n = the (parse_u16 (take 3 ?l))"
    using assms(1) by (auto simp: split_code_def Let_def split: if_splits)
  have "4 \<le> length l"
  proof (rule ccontr)
    assume "\<not> 4 \<le> length l"
    with d(3) have "length l = 3 \<or> length l = 2" by auto
    with d(1, 2) show False by (auto simp: nth_append)
  qed
  then have t: "take 3 ?l = take 3 l" "take 4 l = take 3 l @ [l ! 3]" "?l ! 3 = l ! 3"
    by (simp_all add: nth_append take_Suc_conv_app_nth [of 3 l, simplified])
  have "parse_u16 (take 3 l) \<noteq> None"
  proof -
    obtain a b c where "take 3 l = [a, b, c]" using \<open>4 \<le> length l\<close> by (auto simp: numeral_eq_Suc Suc_le_length_iff)
    with d(1) t(1) show ?thesis by (auto simp: parse_u16_def parse_unsigned_def Let_def)
  qed
  then have "parse_u16 (take 3 l) = Some n" using d(4) t(1) by auto
  then have "take 3 l = show_nat (unat n)" using d(1) t(1) \<open>4 \<le> length l\<close> assms(2) by (intro parse_u16_three) simp_all
  then show ?thesis using t d(2) by simp
qed

lemma line_text_code: "line_text m \<Longrightarrow> sep = CHR '' '' \<or> sep = CHR ''-'' \<Longrightarrow> line_text (show_nat n @ sep # m)"
proof -
  assume m: "line_text m" and "sep = CHR '' '' \<or> sep = CHR ''-''"
  then have "0x80 > b" if "b \<in> set (bytes_of (show_nat n @ [sep]))" for b
    using that show_nat_digits [of _ n] by (fastforce simp: bytes_of_def word_less_nat_alt unat_of_char)
  then have "valid_str (show_nat n @ [sep])" unfolding valid_str_def by (blast intro: utf8_valid_ascii)
  then have "valid_str ((show_nat n @ [sep]) @ m)" using m by (intro valid_str_append [of "show_nat n @ [sep]"]) (simp_all add: line_text_def)
  moreover have "c \<noteq> CHR 0x0A \<and> c \<noteq> CHR 0x0D" if "c \<in> set (show_nat n)" for c using show_nat_digits [OF that] by auto
  ultimately show ?thesis using m \<open>sep = CHR '' '' \<or> sep = CHR ''-''\<close> by (auto simp: line_text_def)
qed

lemma continuation_read:
  assumes "length (show_nat (unat n)) = 3" and "line_text fin"
  shows "list_all line_text ls \<Longrightarrow> list_all (\<lambda>l. take 4 l \<noteq> show_nat (unat n) @ '' '') ls \<Longrightarrow>
    \<exists>tx'. \<forall>t rest. read_continuation n tx (t\<lparr>t_in := concat (map line_bytes_of ls) @ line_bytes_of (show_nat (unat n) @ CHR '' '' # fin) @ rest\<rparr>)
      = (Inr (n, tx'), t\<lparr>t_in := rest\<rparr>)"
proof (induction ls arbitrary: tx)
  case Nil
  have "line_text (show_nat (unat n) @ CHR '' '' # fin)" using assms(2) by (intro line_text_code) simp_all
  note l = net_read_text [OF this]
  show ?case
    by (rule exI [of _ "tx @ [CHR 0x0A] @ fin"], intro allI, subst read_continuation.simps)
      (use l split_code_line [OF assms(1) _ assms(2), of "CHR '' ''"] in simp)
next
  case (Cons l ls)
  let ?rest = "\<lambda>rest. concat (map line_bytes_of ls) @ line_bytes_of (show_nat (unat n) @ CHR '' '' # fin) @ rest"
  have l: "net_read_line (t\<lparr>t_in := line_bytes_of l @ ?rest rest\<rparr>) = (Inr (l @ [CHR 0x0D, CHR 0x0A]), t\<lparr>t_in := ?rest rest\<rparr>)" for t rest
    using Cons.prems(1) by (intro net_read_text) simp
  have "split_code (l @ [CHR 0x0D, CHR 0x0A]) \<noteq> Inr (n, CHR '' '', m)" for m
    using split_code_inside [of l n m] assms(1) Cons.prems(2) by auto
  then have "\<exists>tx1. \<forall>t rest. read_continuation n tx (t\<lparr>t_in := line_bytes_of l @ ?rest rest\<rparr>) = read_continuation n tx1 (t\<lparr>t_in := ?rest rest\<rparr>)"
  proof (cases "split_code (l @ [CHR 0x0D, CHR 0x0A])")
    case (Inl e)
    then show ?thesis
      by (intro exI allI) (subst read_continuation.simps, simp only: l prod.case sum.case)
  next
    case (Inr q)
    with \<open>split_code (l @ [CHR 0x0D, CHR 0x0A]) \<noteq> Inr (n, CHR '' '', snd (snd q))\<close> obtain c d m where "q = (c, d, m)" "\<not> (c = n \<and> d = CHR '' '')"
      by (cases q) auto
    with Inr show ?thesis
      by (intro exI allI) (subst read_continuation.simps, simp only: l prod.case sum.case Let_def if_False)
  qed
  then obtain tx1 where "read_continuation n tx (t\<lparr>t_in := line_bytes_of l @ ?rest rest\<rparr>) = read_continuation n tx1 (t\<lparr>t_in := ?rest rest\<rparr>)" for t rest
    by blast
  moreover obtain tx2 where "read_continuation n tx1 (t\<lparr>t_in := ?rest rest\<rparr>) = (Inr (n, tx2), t\<lparr>t_in := rest\<rparr>)" for t rest
    using Cons.IH [of tx1] Cons.prems by auto
  ultimately show ?case by (intro exI [of _ tx2]) simp
qed

text \<open>The text of a reply, as the client puts it together.\<close>

definition reply_text :: "ftp_reply \<Rightarrow> string" where
  "reply_text r = (case fst (read_reply (fresh_transport\<lparr>t_in := reply_wire r\<rparr>)) of Inr (_, tx) \<Rightarrow> tx | Inl _ \<Rightarrow> [])"

lemma reply_read_some:
  assumes "reply_ok r"
  shows "\<exists>tx. \<forall>t rest. read_reply (t\<lparr>t_in := reply_wire r @ rest\<rparr>) = (Inr (rp_code r, tx), t\<lparr>t_in := rest\<rparr>) \<and> (rp_lines r = [] \<longrightarrow> tx = rp_final r)"
proof (cases "rp_lines r")
  case Nil
  have "line_text (reply_code r @ CHR '' '' # rp_final r)" using assms by (intro line_text_code) (simp_all add: reply_ok_def)
  from net_read_text [OF this] show ?thesis
    using assms split_code_line [of "rp_code r" "CHR '' ''" "rp_final r"]
    by (intro exI [of _ "rp_final r"]) (simp add: read_reply_def reply_wire_def Nil reply_ok_def)
next
  case (Cons l ls)
  let ?rest = "\<lambda>rest. concat (map line_bytes_of ls) @ line_bytes_of (reply_code r @ CHR '' '' # rp_final r) @ rest"
  have "line_text (reply_code r @ CHR ''-'' # l)" using assms by (intro line_text_code) (simp_all add: reply_ok_def Cons)
  from net_read_text [OF this] have "net_read_line (t\<lparr>t_in := reply_wire r @ rest\<rparr>)
      = (Inr ((reply_code r @ CHR ''-'' # l) @ [CHR 0x0D, CHR 0x0A]), t\<lparr>t_in := ?rest rest\<rparr>)" for t rest
    by (simp add: reply_wire_def Cons)
  moreover have "split_code ((reply_code r @ CHR ''-'' # l) @ [CHR 0x0D, CHR 0x0A]) = Inr (rp_code r, CHR ''-'', l)"
    using assms by (intro split_code_line) (simp_all add: reply_ok_def Cons)
  moreover obtain tx where "read_continuation (rp_code r) l (t\<lparr>t_in := ?rest rest\<rparr>) = (Inr (rp_code r, tx), t\<lparr>t_in := rest\<rparr>)" for t rest
    using continuation_read [where n = "rp_code r" and fin = "rp_final r" and ls = ls and tx = l] assms by (auto simp: reply_ok_def Cons)
  ultimately show ?thesis by (intro exI [of _ tx]) (simp add: read_reply_def Cons)
qed

lemma reply_read:
  assumes "reply_ok r"
  shows "read_reply (t\<lparr>t_in := reply_wire r @ rest\<rparr>) = (Inr (rp_code r, reply_text r), t\<lparr>t_in := rest\<rparr>)"
    and reply_text_line: "rp_lines r = [] \<Longrightarrow> reply_text r = rp_final r"
proof -
  obtain tx where tx: "read_reply (t\<lparr>t_in := reply_wire r @ rest\<rparr>) = (Inr (rp_code r, tx), t\<lparr>t_in := rest\<rparr>)"
    "rp_lines r = [] \<Longrightarrow> tx = rp_final r" for t rest
    using reply_read_some [OF assms] by blast
  then have "reply_text r = tx" using tx(1) [where t = fresh_transport and rest = "[]"] by (simp add: reply_text_def)
  with tx show "read_reply (t\<lparr>t_in := reply_wire r @ rest\<rparr>) = (Inr (rp_code r, reply_text r), t\<lparr>t_in := rest\<rparr>)"
    and "rp_lines r = [] \<Longrightarrow> reply_text r = rp_final r" by simp_all
qed

subsection \<open>A file is returned as the server has it\<close>

text \<open>\<open>spoke\<close>: from \<open>t\<close>, the commands have been written and what is left to read is \<open>i\<close>.\<close>

definition spoke :: "transport \<Rightarrow> bytes \<Rightarrow> string list \<Rightarrow> transport" where
  "spoke t i cmds = t\<lparr>t_in := i, t_out := t_out t @ concat (map line_bytes_of cmds)\<rparr>"

lemma spoke_send: "t_cap t = None \<Longrightarrow> printable cmd \<Longrightarrow> ftp_send cmd (spoke t i cmds) = (Inr (), spoke t i (cmds @ [cmd]))"
  by (simp add: ftp_send_def send_command_unbounded printable_command spoke_def)

lemma spoke_reply: "reply_ok r \<Longrightarrow> read_reply (spoke t (reply_wire r @ i) cmds) = (Inr (rp_code r, reply_text r), spoke t i cmds)"
  using reply_read(1) [where t = "t\<lparr>t_out := t_out t @ concat (map line_bytes_of cmds)\<rparr>" and rest = i] by (simp add: spoke_def io_swap)

lemma fixed_printable [simp]:
  "printable ''TYPE I''" "printable ''EPSV''" "printable ''PASV''" "printable ''QUIT''" "printable ''LIST''"
  "printable ''USER ''" "printable ''PASS ''" "printable ''LIST ''" "printable ''RETR ''" "printable ''REST ''" "printable ''STOR''" "printable ''APPE''"
  "printable '' ''"
  by (simp_all add: printable_def)

lemma printable_digits [simp]: "printable (show_nat n)"
  using show_nat_digits [of _ n] by (fastforce simp: printable_def list_all_iff)

lemma ftp_command_printable: "printable path \<Longrightarrow> printable (ftp_command path)"
  unfolding ftp_command_def by (simp add: printable_append [of "''LIST ''", simplified] printable_append [of "''RETR ''", simplified])

text \<open>The replies of a login that is accepted, with or without a password, and the commands it takes.\<close>

definition login_script :: "string \<Rightarrow> string \<Rightarrow> ftp_reply list \<Rightarrow> string list \<Rightarrow> bool" where
  "login_script user pass rs cmds \<longleftrightarrow> list_all reply_ok rs \<and>
     (case rs of
        [banner, logged_in, binary] \<Rightarrow>
          is_positive (rp_code banner) \<and> rp_code logged_in = 230 \<and> rp_code binary = 200 \<and> cmds = [''USER '' @ user, ''TYPE I'']
      | [banner, wanted, logged_in, binary] \<Rightarrow>
          is_positive (rp_code banner) \<and> rp_code wanted = 331 \<and> rp_code logged_in \<in> {230, 202} \<and> rp_code binary = 200 \<and>
          cmds = [''USER '' @ user, ''PASS '' @ pass, ''TYPE I'']
      | _ \<Rightarrow> False)"

text \<open>A passive offer: EPSV accepted, or refused and PASV accepted; the address in a PASV reply plays no part.\<close>

definition passive_script :: "string \<Rightarrow> string \<Rightarrow> ftp_reply list \<Rightarrow> string list \<Rightarrow> string \<times> u16 \<Rightarrow> bool" where
  "passive_script host peer rs cmds addr \<longleftrightarrow> list_all reply_ok rs \<and>
     (case rs of
        [epsv] \<Rightarrow> rp_code epsv = 229 \<and> rp_lines epsv = [] \<and> fst addr = host \<and> parse_epsv (rp_final epsv) = Some (snd addr) \<and> cmds = [''EPSV'']
      | [epsv, pasv] \<Rightarrow>
          400 \<le> rp_code epsv \<and> rp_code epsv < 600 \<and> rp_code pasv = 227 \<and> rp_lines pasv = [] \<and> fst addr = peer \<and>
          map_option snd (parse_pasv (rp_final pasv)) = Some (snd addr) \<and> cmds = [''EPSV'', ''PASV'']
      | _ \<Rightarrow> False)"

lemma login_accepted:
  assumes "t_cap t = None" and "ftp_split_userinfo (u_userinfo u) = (user, pass)" and "printable user" and "printable pass"
    and "login_script user pass rs cmds"
  shows "ftp_login u (spoke t (concat (map reply_wire rs) @ i) sent) = (Inr (), spoke t i (sent @ cmds))"
proof -
  have p: "printable (''USER '' @ user)" "printable (''PASS '' @ pass)" using assms(3, 4) by (simp_all only: printable_append fixed_printable)
  have c: "ftp_reject_ctl user = Inr ()" "ftp_reject_ctl pass = Inr ()" using assms(3, 4) by (simp_all add: ftp_reject_ctl_def reject_controls_Inr)
  note steps = spoke_send [OF assms(1)] spoke_reply ftp_login_def ftp_user_def
  consider b l y where "rs = [b, l, y]" | b w l y where "rs = [b, w, l, y]"
    using assms(5) by (auto simp: login_script_def split: list.splits)
  then show ?thesis
    by cases (use assms(2, 5) p c in \<open>auto simp: login_script_def steps\<close>)
qed

lemma passive_opened:
  assumes "t_cap t = None" and "passive_script host peer rs cmds addr"
  shows "open_passive host peer (spoke t (concat (map reply_wire rs) @ i) sent) = (Inr addr, spoke t i (sent @ cmds))"
proof -
  note steps = spoke_send [OF assms(1)] spoke_reply open_passive_def reply_text_line
  consider e where "rs = [e]" | e p where "rs = [e, p]"
    using assms(2) by (auto simp: passive_script_def split: list.splits)
  then show ?thesis
    by cases (use assms(2) in \<open>cases addr; force simp: passive_script_def steps\<close>)+
qed

lemma read_continuation_keeps: "t_out (snd (read_continuation n tx t)) = t_out t \<and> t_cap (snd (read_continuation n tx t)) = t_cap t"
proof (induction n tx t rule: read_continuation.induct)
  case (1 n tx t)
  obtain r t' where l: "net_read_line t = (r, t')" by fastforce
  then have "t_out t' = t_out t" "t_cap t' = t_cap t" using net_read_line_out [of t] by simp_all
  with 1 l show ?case by (subst (1 2) read_continuation.simps) (auto simp: Let_def split: sum.split)
qed

lemma read_reply_keeps [simp]: "t_out (snd (read_reply t)) = t_out t" "t_cap (snd (read_reply t)) = t_cap t"
proof -
  obtain r t' where l: "net_read_line t = (r, t')" by fastforce
  then have "t_out t' = t_out t" "t_cap t' = t_cap t" using net_read_line_out [of t] by simp_all
  with l read_continuation_keeps show "t_out (snd (read_reply t)) = t_out t" "t_cap (snd (read_reply t)) = t_cap t"
    by (cases r; cases "split_code (projr r)"; simp add: read_reply_def case_prod_unfold)+
qed

lemma quit_spoken: "t_cap t = None \<Longrightarrow> t_out (ftp_quit (spoke t i cmds)) = t_out t @ concat (map line_bytes_of (cmds @ [''QUIT'']))"
  by (simp add: ftp_quit_def spoke_send) (simp add: spoke_def)

lemma file_retrieved:
  assumes "t_cap t = None" and "passive_script (u_host u) (fc_peer con) ps pc addr" and "printable (u_path u)"
    and "reply_ok pre" and "rp_code pre \<in> {125, 150}" and "reply_ok over" and "is_positive (rp_code over)"
    and "bindR (fn_connect net (fst addr) (snd addr)) (\<lambda>tcp. if u_scheme u = ''ftps'' then fn_tls net tcp (u_host u) else Inr tcp) = Inr d"
    and "t_end d = IoUnexpectedEof"
    and "fc_ctrl con = spoke t (concat (map reply_wire (ps @ [pre, over])) @ i) sent"
  shows "\<exists>con'. ftp_retrieve net u con = (Inr (t_in d), con') \<and> fc_dialled con' = fc_dialled con @ [addr] \<and>
    t_out (fc_ctrl con') = t_out t @ concat (map line_bytes_of (sent @ pc @ [ftp_command (u_path u), ''QUIT'']))"
proof -
  have o: "open_passive (u_host u) (fc_peer con) (fc_ctrl con) = (Inr addr, spoke t (reply_wire pre @ reply_wire over @ i) (sent @ pc))"
    using passive_opened [OF assms(1, 2)] assms(10) by simp
  have j: "ftp_reject_ctl (u_path u) = Inr ()" using assms(3) by (simp add: ftp_reject_ctl_def reject_controls_Inr)
  have c: "printable (ftp_command (u_path u))" using assms(3) by (rule ftp_command_printable)
  have "ftp_retrieve net u con = (Inr (t_in d), con\<lparr>fc_dialled := fc_dialled con @ [addr],
      fc_ctrl := ftp_quit (spoke t i (sent @ pc @ [ftp_command (u_path u)]))\<rparr>)"
    using assms(3-9) c by (cases addr) (auto simp: ftp_retrieve_def open_data_def on_ctrl_def o j data_read_to_end_def
        spoke_send [OF assms(1)] spoke_reply Let_def)
  then show ?thesis using quit_spoken [OF assms(1)] by simp
qed


subsection \<open>What a session can do\<close>

text \<open>Only whole commands without control characters have been written since \<open>t\<close>.\<close>

definition commands_only :: "transport \<Rightarrow> transport \<Rightarrow> bool" where
  "commands_only t t' \<longleftrightarrow> t_cap t' = None \<and> (\<exists>cmds. list_all printable cmds \<and> t_out t' = t_out t @ concat (map line_bytes_of cmds))"

lemma commands_only_refl: "t_cap t = None \<Longrightarrow> commands_only t t"
  by (auto simp: commands_only_def intro: exI [of _ "[]"])

lemma commands_only_send: "commands_only t t' \<Longrightarrow> printable cmd \<Longrightarrow> commands_only t (snd (ftp_send cmd t'))"
proof -
  assume "commands_only t t'" "printable cmd"
  moreover from this obtain cmds where "list_all printable cmds" "t_out t' = t_out t @ concat (map line_bytes_of cmds)"
    by (auto simp: commands_only_def)
  ultimately show ?thesis
    by (auto simp: commands_only_def ftp_send_def send_command_unbounded printable_command intro!: exI [of _ "cmds @ [cmd]"])
qed

lemma commands_only_reply: "commands_only t t' \<Longrightarrow> commands_only t (snd (read_reply t'))"
  by (simp add: commands_only_def)

lemma commands_only_check: "commands_only t t' \<Longrightarrow> commands_only t (snd (r, t'))"
  by simp

lemma commands_only_bind:
  assumes "commands_only t (snd m)" and "\<And>x t'. fst m = Inr x \<Longrightarrow> commands_only t t' \<Longrightarrow> commands_only t (snd (f x t'))"
  shows "commands_only t (snd (bindS m f))"
  using assms by (intro bindS_state [where P = "commands_only t"]) auto

lemmas commands_only_intros = commands_only_send commands_only_reply commands_only_bind

lemma user_pass_printable: "printable user \<Longrightarrow> printable (''USER '' @ user)" "printable pass \<Longrightarrow> printable (''PASS '' @ pass)"
  "printable (rest_command offset)" "printable (upload_verb mode)"
  unfolding rest_command_def by (simp_all only: printable_append fixed_printable printable_digits) (cases mode; simp)

lemma user_contained: "commands_only t t' \<Longrightarrow> printable user \<Longrightarrow> printable pass \<Longrightarrow> commands_only t (snd (ftp_user user pass t'))"
  unfolding ftp_user_def by (auto intro!: commands_only_intros user_pass_printable(1, 2) [simplified] split: prod.split)

lemma login_contained: "commands_only t t' \<Longrightarrow> commands_only t (snd (ftp_login u t'))"
  unfolding ftp_login_def
  by (auto intro!: commands_only_intros user_contained split: prod.split simp: ftp_reject_ctl_def reject_controls_Inr)

lemma passive_contained: "commands_only t t' \<Longrightarrow> commands_only t (snd (open_passive h p t'))"
  unfolding open_passive_def by (auto intro!: commands_only_intros split: prod.split option.split)

lemma restart_contained: "commands_only t t' \<Longrightarrow> commands_only t (snd (ftp_restart mode resume_at t'))"
  unfolding ftp_restart_def by (auto intro!: commands_only_intros user_pass_printable(3) split: prod.split option.split)

lemma quit_contained: "commands_only t t' \<Longrightarrow> commands_only t (ftp_quit t')"
  unfolding ftp_quit_def by (intro commands_only_intros fixed_printable)

lemma passive_host: "open_passive h p t = (Inr (host, port), t') \<Longrightarrow> host = h \<or> host = p"
  unfolding open_passive_def by (auto simp: bindS_eq_Inr split: if_splits option.splits)

text \<open>The same for a control connection, with the addresses dialled.\<close>

definition contained :: "url \<Rightarrow> ftp_control \<Rightarrow> ftp_control \<Rightarrow> bool" where
  "contained u con con' \<longleftrightarrow> commands_only (fc_ctrl con) (fc_ctrl con') \<and> fc_peer con' = fc_peer con \<and>
     (\<forall>(host, port)\<in>set (fc_dialled con'). host = u_host u \<or> host = fc_peer con)"

lemma contained_bind:
  assumes "contained u con (snd m)" and "\<And>x con'. fst m = Inr x \<Longrightarrow> contained u con con' \<Longrightarrow> contained u con (snd (f x con'))"
  shows "contained u con (snd (bindS m f))"
  using assms by (intro bindS_state [where P = "contained u con"]) auto

lemma contained_ctrl:
  assumes "contained u con con'" and "\<And>t t'. commands_only t t' \<Longrightarrow> commands_only t (snd (f t'))"
  shows "contained u con (snd (on_ctrl f con'))"
  using assms by (auto simp: contained_def on_ctrl_def split: prod.split) (metis snd_conv)

lemma contained_quit: "contained u con con' \<Longrightarrow> contained u con (con'\<lparr>fc_ctrl := ftp_quit (fc_ctrl con')\<rparr>)"
  by (auto simp: contained_def quit_contained)

lemma data_contained: "contained u con con' \<Longrightarrow> contained u con (snd (open_data net u con'))"
proof -
  assume c: "contained u con con'"
  let ?m = "on_ctrl (open_passive (u_host u) (fc_peer con')) con'"
  have m: "contained u con (snd ?m)" by (intro contained_ctrl c passive_contained)
  have "host = u_host u \<or> host = fc_peer con" if "fst ?m = Inr (host, port)" for host port
  proof -
    have "\<exists>t'. open_passive (u_host u) (fc_peer con') (fc_ctrl con') = (Inr (host, port), t')"
      using that by (cases "open_passive (u_host u) (fc_peer con') (fc_ctrl con')") (simp add: on_ctrl_def)
    then show ?thesis using c by (auto simp: contained_def dest!: passive_host)
  qed
  with m show ?thesis
    unfolding open_data_def
    by (cases ?m; cases "fst ?m") (auto simp: contained_def Let_def)
qed

lemma retrieve_contained: "contained u con con' \<Longrightarrow> contained u con (snd (ftp_retrieve net u con'))"
  unfolding ftp_retrieve_def
  by (auto intro!: contained_bind data_contained contained_ctrl contained_quit commands_only_intros ftp_command_printable
      split: prod.split simp: ftp_reject_ctl_def reject_controls_Inr)

lemma upload_command_printable: "printable path \<Longrightarrow> upload_command mode path = Some cmd \<Longrightarrow> printable cmd"
proof -
  assume "printable path" "upload_command mode path = Some cmd"
  moreover have "printable r" if "strip_prefix ''/'' path = Some r" for r
    using that \<open>printable path\<close> by (auto simp: strip_prefix_def printable_def list_all_iff split: if_splits dest: in_set_dropD)
  ultimately show "printable cmd"
    by (auto simp: upload_command_def Let_def user_pass_printable printable_append [of "'' ''", simplified] simp del: upload_verb.simps split: option.splits if_splits)
qed

lemma sent_contained: "contained u con con' \<Longrightarrow> contained u con (con'\<lparr>fc_sent := bs\<rparr>)"
  by (simp add: contained_def)

lemma upload_contained: "contained u con con' \<Longrightarrow> contained u con (snd (ftp_upload net u body mode resume_at con'))"
  unfolding ftp_upload_def
  by (auto intro!: contained_bind data_contained contained_ctrl contained_quit sent_contained commands_only_intros restart_contained
      split: prod.split option.split simp: ftp_reject_ctl_def reject_controls_Inr Let_def intro: upload_command_printable)

text \<open>C32: Whatever the server sends and however its connections behave, a download or an upload dials data connections to the host of the URL or to the
  peer of the control connection only, whatever address a PASV reply names, and writes whole commands without control characters only: nothing in
  the URL and nothing the server says adds a command.\<close>

theorem ftp_session_contained:
  assumes "ftp_connect net u = Inr con" and "t_cap (fc_ctrl con) = None"
    and "transfer = ftp_retrieve net u \<or> transfer = (\<lambda>con. case ftp_upload net u body mode resume_at con of (r, con) \<Rightarrow> (bindR r (\<lambda>_. Inr []), con))"
    and "con' = snd (bindS (on_ctrl (ftp_login u) con) (\<lambda>_ con. transfer con))"
  shows "(\<forall>(host, port)\<in>set (fc_dialled con'). host = u_host u \<or> host = fc_peer con) \<and>
    (\<exists>cmds. list_all printable cmds \<and> t_out (fc_ctrl con') = t_out (fc_ctrl con) @ concat (map line_bytes_of cmds))"
proof -
  have "fc_dialled con = []" using assms(1) by (auto simp: ftp_connect_def bindR_eq_Inr split: if_splits)
  then have c: "contained u con con" using assms(2) by (simp add: contained_def commands_only_refl)
  have "contained u con (snd (transfer c))" if "contained u con c" for c
    using assms(3) retrieve_contained [OF that, where net = net]
      upload_contained [OF that, where net = net and body = body and mode = mode and resume_at = resume_at]
    by (auto split: prod.split)
  then have "contained u con con'"
    unfolding assms(4) by (intro contained_bind contained_ctrl c login_contained)
  then show ?thesis by (simp add: contained_def commands_only_def)
qed

lemma on_ctrl_sent: "on_ctrl f con = (r, con') \<Longrightarrow> fc_sent con' = fc_sent con"
  by (auto simp: on_ctrl_def split: prod.splits)

lemma upload_delivered:
  assumes "ftp_upload net u body mode resume_at con = (Inr (), con')"
  shows "\<exists>con1 data con2. open_data net u con1 = (Inr data, con2) \<and> fc_sent con' = t_out data @ body"
proof -
  have w: "t_out d' = t_out d @ body" if "send_bytes body d = (Inr x, d')" for d d' x
  proof -
    from that obtain y where "bindS (write_all body d) (\<lambda>_ t. flush t) = (Inr y, d')"
      by (cases "bindS (write_all body d) (\<lambda>_ t. flush t)"; cases "fst (bindS (write_all body d) (\<lambda>_ t. flush t))") (auto simp: send_bytes_def)
    then obtain d1 z where "write_all body d = (Inr z, d1)" "flush d1 = (Inr y, d')" by (auto simp: bindS_eq_Inr)
    then show ?thesis by (auto simp: write_all_def flush_def split: if_splits option.splits)
  qed
  obtain con1 data con2 r d' con3 where "open_data net u con1 = (Inr data, con2)" "send_bytes body data = (Inr r, d')" "fc_sent con' = t_out d'"
    using assms unfolding ftp_upload_def bindS_eq_Inr
    by (auto simp: bindS_eq_Inr Let_def dest!: on_ctrl_sent split: prod.splits if_splits)
  with w show ?thesis by metis
qed

text \<open>The hypotheses hold for a server that wants a password, refuses EPSV and names another host in its PASV reply.\<close>

definition example_ftp_url :: url where
  "example_ftp_url = \<lparr>u_scheme = ''ftp'', u_userinfo = Some ''me:pw'', u_host = ''h'', u_port = 21, u_path = ''/f''\<rparr>"

abbreviation (input) line_reply :: "u16 \<Rightarrow> string \<Rightarrow> ftp_reply" where
  "line_reply n s \<equiv> \<lparr>rp_code = n, rp_lines = [], rp_final = s\<rparr>"

definition example_login :: "ftp_reply list" where
  "example_login = [\<lparr>rp_code = 220, rp_lines = [''hi''], rp_final = ''ok''\<rparr>, line_reply 331 ''pw'', line_reply 230 ''in'', line_reply 200 ''I'']"

definition example_passive :: "ftp_reply list" where
  "example_passive = [line_reply 500 ''no'', line_reply 227 ''(9,9,9,9,4,1)'']"

definition example_end :: "ftp_reply list" where
  "example_end = [line_reply 150 ''go'', line_reply 226 ''end'']"

definition example_ftp_net :: ftp_net where
  "example_ftp_net =
     \<lparr>fn_connect = (\<lambda>host port.
        if port = 21 then Inr (fresh_transport\<lparr>t_in := concat (map reply_wire (example_login @ example_passive @ example_end)) @ []\<rparr>)
        else Inr (fresh_transport\<lparr>t_in := [7, 8]\<rparr>)),
      fn_peer_ip = (\<lambda>_. Inr ''10.0.0.1''), fn_tls = (\<lambda>t _. Inr t)\<rparr>"

lemma example_replies: "list_all reply_ok example_login" "list_all reply_ok example_passive" "list_all reply_ok example_end"
  by code_simp+

lemma example_pasv: "parse_pasv ''(9,9,9,9,4,1)'' = Some (''9.9.9.9'', 1025)"
proof -
  have n: "parse_u16 ''9'' = Some 9" "parse_u16 ''4'' = Some 4" "parse_u16 ''1'' = Some 1"
    by (simp_all add: parse_u16_def parse_unsigned_def)
  have t: "trim ''9'' = ''9''" "trim ''4'' = ''4''" "trim ''1'' = ''1''" by (simp_all add: trim_trimmed trimmed_def graphic_def)
  have "show_nat 9 = ''9''" by code_simp
  then show ?thesis by (simp add: parse_pasv_def find_char_def List.map_filter_def n t)
qed


theorem ftp_session_contained_witness:
  "let con' = snd (bindS (on_ctrl (ftp_login example_ftp_url) (projr (ftp_connect example_ftp_net example_ftp_url))) (\<lambda>_ con. ftp_retrieve example_ftp_net example_ftp_url con))
   in (\<forall>(host, port)\<in>set (fc_dialled con'). host = ''h'' \<or> host = ''10.0.0.1'') \<and>
      (\<exists>cmds. list_all printable cmds \<and> t_out (fc_ctrl con') = concat (map line_bytes_of cmds))"
proof -
  obtain con where con: "ftp_connect example_ftp_net example_ftp_url = Inr con" and c: "fc_ctrl con = projr (fn_connect example_ftp_net ''h'' 21)" "fc_peer con = ''10.0.0.1''"
    by (simp add: ftp_connect_def example_ftp_url_def example_ftp_net_def)
  have "t_cap (fc_ctrl con) = None" "t_out (fc_ctrl con) = []" "u_host example_ftp_url = ''h''"
    by (simp_all add: c example_ftp_net_def fresh_transport_def example_ftp_url_def)
  with ftp_session_contained [OF con, where transfer = "ftp_retrieve example_ftp_net example_ftp_url" and mode = Stor and body = "[]" and resume_at = None, OF _ _ refl] con c
  show ?thesis by (simp add: Let_def)
qed

end
