(* ===== verification/Imap.thy ===== *)
theory Imap
  imports Line_IO Http_Types Cookie
begin

text \<open>
  IMAP (\<open>src/src/imap.rs\<close>, RFC 3501): the buffered reader of lines and literals, tagged responses, capabilities, STARTTLS, the three ways to
  log in, and the commands of a URL.  The socket is a transport with the number of bytes that each read returns at most, so that
  what a read takes along is arbitrary; connecting and the TLS handshake are parameters.  \<open>ic_before_tls\<close> keeps, for the proofs, what
  had been written when the connection was upgraded.  Proved: what the reader returns does not depend on how the bytes arrive, a message
  is returned as the server sends it, and with STARTTLS advertised nothing but CAPABILITY and STARTTLS is written in the clear.
\<close>

subsection \<open>The connection\<close>

record imap_conn =
  ic_io :: transport
  ic_sizes :: "nat list"
  ic_plain :: bool
  ic_buf :: bytes
  ic_tagged :: u32
  ic_before_tls :: "bytes option"

text \<open>\<open>Read::read\<close> into a buffer of \<open>m\<close> bytes.\<close>

definition sock_read :: "nat \<Rightarrow> imap_conn \<Rightarrow> bytes result \<times> imap_conn" where
  "sock_read m c =
     (let io = ic_io c; (n, sizes) = (case ic_sizes c of [] \<Rightarrow> (m, []) | k # ks \<Rightarrow> (min m (Suc k), ks))
      in if t_in io = [] then (if t_end io = IoUnexpectedEof then Inr [] else Inl (Io (t_end io)), c)
         else (Inr (take n (t_in io)), c\<lparr>ic_io := io\<lparr>t_in := drop n (t_in io)\<rparr>, ic_sizes := sizes\<rparr>))"

text \<open>\<open>write_all(..)?; flush()?\<close>.\<close>

definition imap_write :: "string \<Rightarrow> imap_conn \<Rightarrow> unit result \<times> imap_conn" where
  "imap_write s c = (let (r, io) = send_bytes (bytes_of s) (ic_io c) in (r, c\<lparr>ic_io := io\<rparr>))"

definition imap_start_tls :: "(transport \<Rightarrow> string \<Rightarrow> transport result) \<Rightarrow> string \<Rightarrow> imap_conn \<Rightarrow> unit result \<times> imap_conn" where
  "imap_start_tls tls host c =
     (if \<not> ic_plain c then (Inl (BadResponse ''imap: STARTTLS requested on a non-plaintext connection''), c)
      else case tls (ic_io c) host of
        Inl e \<Rightarrow> (Inl e, c)
      | Inr io \<Rightarrow> (Inr (), c\<lparr>ic_io := io, ic_plain := False, ic_before_tls := Some (t_out (ic_io c))\<rparr>))"

text \<open>\<open>Tagger::next\<close>.\<close>

definition imap_tag :: "u32 \<Rightarrow> string" where
  "imap_tag n = (let s = show_nat (unat n) in ''a'' @ replicate (3 - length s) CHR ''0'' @ s)"

definition next_tag :: "imap_conn \<Rightarrow> string \<times> imap_conn" where
  "next_tag c = (let n = ic_tagged c + 1 in (imap_tag n, c\<lparr>ic_tagged := n\<rparr>))"

subsection \<open>Lines, literals and responses\<close>

fun find_crlf :: "bytes \<Rightarrow> nat option" where
  "find_crlf (a # b # bs) = (if a = 0x0D \<and> b = 0x0A then Some 0 else map_option Suc (find_crlf (b # bs)))"
| "find_crlf _ = None"

text \<open>What the connection still has to give: the buffer, then the socket.\<close>

definition unread :: "imap_conn \<Rightarrow> bytes" where
  "unread c = ic_buf c @ t_in (ic_io c)"

lemma sock_read_shrinks: "sock_read m c = (Inr bs, c') \<Longrightarrow> m > 0 \<Longrightarrow> bs \<noteq> [] \<Longrightarrow> length (t_in (ic_io c')) < length (t_in (ic_io c))"
  by (auto simp: sock_read_def Let_def split: if_splits list.splits prod.splits)

function imap_read_line :: "imap_conn \<Rightarrow> string result \<times> imap_conn" where
  "imap_read_line c =
     (case find_crlf (ic_buf c) of
        Some pos \<Rightarrow> (Inr (from_utf8_lossy (take pos (ic_buf c))), c\<lparr>ic_buf := drop (pos + 2) (ic_buf c)\<rparr>)
      | None \<Rightarrow>
          (case sock_read 4096 c of
             (Inl e, c) \<Rightarrow> (Inl e, c)
           | (Inr bs, c) \<Rightarrow>
               if bs = [] then
                 if ic_buf c = [] then (Inl UnexpectedEof, c)
                 else (Inr (from_utf8_lossy (ic_buf c)), c\<lparr>ic_buf := []\<rparr>)
               else imap_read_line (c\<lparr>ic_buf := ic_buf c @ bs\<rparr>)))"
  by pat_completeness auto
termination by (relation "measure (\<lambda>c. length (t_in (ic_io c)))") (auto dest: sock_read_shrinks [OF sym])

declare imap_read_line.simps [simp del]

text \<open>The loop of \<open>read_exact\<close>: \<open>n\<close> more bytes.\<close>

function imap_fill :: "nat \<Rightarrow> bytes \<Rightarrow> imap_conn \<Rightarrow> bytes result \<times> imap_conn" where
  "imap_fill n out c =
     (if n = 0 then (Inr out, c)
      else case sock_read (min n 4096) c of
        (Inl e, c) \<Rightarrow> (Inl e, c)
      | (Inr bs, c) \<Rightarrow> if bs = [] then (Inl UnexpectedEof, c) else imap_fill (n - length bs) (out @ bs) c)"
  by pat_completeness auto
termination by (relation "measure (\<lambda>(n, out, c). length (t_in (ic_io c)))") (auto dest: sock_read_shrinks [OF sym])

declare imap_fill.simps [simp del]

definition imap_read_exact :: "nat \<Rightarrow> imap_conn \<Rightarrow> bytes result \<times> imap_conn" where
  "imap_read_exact n c =
     (let k = min (length (ic_buf c)) n
      in imap_fill (n - k) (take k (ic_buf c)) (c\<lparr>ic_buf := drop k (ic_buf c)\<rparr>))"

definition extract_literal_size :: "string \<Rightarrow> nat option" where
  "extract_literal_size line =
     (let trimmed = trim_end (trim_end_matches (\<lambda>c. c = CHR 0x0D \<or> c = CHR 0x0A) line)
      in if trimmed = [] \<or> last trimmed \<noteq> CHR ''}'' then None
         else let rest = butlast trimmed
           in (case rfind_char CHR ''{'' rest of
                 None \<Rightarrow> None
               | Some open_at \<Rightarrow>
                   let inside = drop (open_at + 1) rest;
                       inside = (if inside \<noteq> [] \<and> last inside = CHR ''+'' then butlast inside else inside)
                   in if inside = [] \<or> \<not> list_all (\<lambda>c. 48 \<le> (of_char c :: nat) \<and> (of_char c :: nat) \<le> 57) inside then None
                      else parse_unsigned (2 ^ 64 - 1) inside))"

abbreviation (input) MAX_LITERAL :: nat where "MAX_LITERAL \<equiv> 64 * 1024 * 1024"
abbreviation (input) crlf_text :: string where "crlf_text \<equiv> [CHR 0x0D, CHR 0x0A]"

text \<open>The two ways a line ends a response: a request for more, or the tag.\<close>

definition ends_response :: "string \<Rightarrow> string \<Rightarrow> bool" where
  "ends_response tag line =
     (let trimmed = trim_end line
      in trimmed = ''+'' \<or> starts_with ''+ '' trimmed \<or> starts_with (tag @ '' '') trimmed \<or> trimmed = tag)"

lemma find_crlf_bound: "find_crlf bs = Some i \<Longrightarrow> i + 2 \<le> length bs"
  by (induction bs arbitrary: i rule: find_crlf.induct) (auto split: if_splits)

lemma sock_read_unread:
  "sock_read m c = (Inr bs, c') \<Longrightarrow> ic_buf c' = ic_buf c \<and> bs @ t_in (ic_io c') = t_in (ic_io c) \<and> length bs \<le> m"
  by (auto simp: sock_read_def Let_def split: if_splits list.splits prod.splits)

lemma read_line_unread: "imap_read_line c = (Inr l, c') \<Longrightarrow> length (unread c') < length (unread c)"
proof (induction c rule: imap_read_line.induct)
  case (1 c)
  show ?case
  proof (cases "find_crlf (ic_buf c)")
    case (Some pos)
    with 1(2) find_crlf_bound [OF Some] show ?thesis by (subst (asm) imap_read_line.simps) (auto simp: unread_def)
  next
    case None
    then obtain bs c1 where r: "sock_read 4096 c = (Inr bs, c1)"
      using 1(2) by (subst (asm) imap_read_line.simps) (auto split: prod.splits sum.splits)
    from sock_read_unread [OF r] have u: "ic_buf c1 = ic_buf c" "length bs + length (t_in (ic_io c1)) = length (t_in (ic_io c))"
      by (auto simp flip: length_append)
    show ?thesis
    proof (cases "bs = []")
      case True
      with 1(2) None r u show ?thesis by (subst (asm) imap_read_line.simps) (auto simp: unread_def split: if_splits)
    next
      case False
      then have "imap_read_line (c1\<lparr>ic_buf := ic_buf c1 @ bs\<rparr>) = (Inr l, c')" using 1(2) None r
        by (subst (asm) imap_read_line.simps) simp
      from 1(1) [OF None r [symmetric] refl False this] u show ?thesis by (simp add: unread_def)
    qed
  qed
qed

lemma fill_unread: "imap_fill n out c = (Inr bs, c') \<Longrightarrow> ic_buf c' = ic_buf c \<and> length (t_in (ic_io c')) \<le> length (t_in (ic_io c))"
proof (induction n out c rule: imap_fill.induct)
  case (1 n out c)
  show ?case
  proof (cases "n = 0")
    case True
    with 1(2) show ?thesis by (subst (asm) imap_fill.simps) simp
  next
    case False
    then obtain xs c1 where r: "sock_read (min n 4096) c = (Inr xs, c1)" "xs \<noteq> []"
      using 1(2) by (subst (asm) imap_fill.simps) (auto split: prod.splits sum.splits if_splits)
    moreover have "imap_fill (n - length xs) (out @ xs) c1 = (Inr bs, c')" using 1(2) False r by (subst (asm) imap_fill.simps) simp
    ultimately have "ic_buf c' = ic_buf c1 \<and> length (t_in (ic_io c')) \<le> length (t_in (ic_io c1))" using 1(1) [OF False r(1) [symmetric] refl r(2)] by simp
    moreover have "length (t_in (ic_io c1)) \<le> length (t_in (ic_io c))" using sock_read_unread [OF r(1)] by (metis length_append le_add2)
    ultimately show ?thesis using sock_read_unread [OF r(1)] by simp
  qed
qed

lemma read_exact_unread: "imap_read_exact n c = (Inr bs, c') \<Longrightarrow> length (unread c') \<le> length (unread c)"
  unfolding imap_read_exact_def Let_def by (drule fill_unread) (auto simp: unread_def)

function read_with_literals :: "string \<Rightarrow> string \<Rightarrow> bytes list \<Rightarrow> imap_conn \<Rightarrow> (string \<times> bytes list) result \<times> imap_conn" where
  "read_with_literals tag so_far literals c =
     (case imap_read_line c of
        (Inl e, c) \<Rightarrow> (Inl e, c)
      | (Inr line, c) \<Rightarrow>
          let so_far = so_far @ line @ crlf_text
          in (case extract_literal_size line of
                Some n \<Rightarrow>
                  if n > MAX_LITERAL then (Inl (BadResponse ''imap: literal size {n} exceeds maximum {MAX_LITERAL_BYTES}''), c)
                  else (case imap_read_exact n c of
                          (Inl e, c) \<Rightarrow> (Inl e, c)
                        | (Inr bs, c) \<Rightarrow> read_with_literals tag (so_far @ from_utf8_lossy bs) (literals @ [bs]) c)
              | None \<Rightarrow>
                  if ends_response tag line then (Inr (so_far, literals), c) else read_with_literals tag so_far literals c))"
  by pat_completeness auto
termination
  by (relation "measure (\<lambda>(tag, so_far, literals, c). length (unread c))")
    (auto dest!: read_line_unread [OF sym] read_exact_unread [OF sym])

declare read_with_literals.simps [simp del]

definition read_response_with_literals :: "string \<Rightarrow> imap_conn \<Rightarrow> (string \<times> bytes list) result \<times> imap_conn" where
  "read_response_with_literals tag c = read_with_literals tag [] [] c"

definition imap_read_response :: "string \<Rightarrow> imap_conn \<Rightarrow> string result \<times> imap_conn" where
  "imap_read_response tag c = bindS (read_response_with_literals tag c) (\<lambda>(so_far, _) c. (Inr so_far, c))"

definition last_line :: "string \<Rightarrow> string" where
  "last_line resp = (case find (\<lambda>l. l \<noteq> []) (rev (lines_of resp)) of None \<Rightarrow> [] | Some l \<Rightarrow> l)"

definition is_tagged_done :: "string \<Rightarrow> string \<Rightarrow> bool" where
  "is_tagged_done resp tag = (starts_with (tag @ '' '') (last_line resp) \<or> last_line resp = tag)"

definition require_ok :: "string \<Rightarrow> string \<Rightarrow> unit result" where
  "require_ok resp tag =
     (let rest = trim_start (case strip_prefix tag (last_line resp) of Some r \<Rightarrow> r | None \<Rightarrow> []);
          status = (case split_whitespace rest of [] \<Rightarrow> [] | w # _ \<Rightarrow> w)
      in if eq_ignore_ascii_case status ''OK'' then Inr () else Inl (BadResponse ''imap {what} failed: {last}''))"

subsection \<open>Capabilities\<close>

definition caps_from_tokens :: "string list \<Rightarrow> string list" where
  "caps_from_tokens toks = filter (\<lambda>t. t \<noteq> []) (map to_ascii_uppercase toks)"

definition caps_has :: "string list \<Rightarrow> string \<Rightarrow> bool" where
  "caps_has caps cap \<longleftrightarrow> to_ascii_uppercase cap \<in> set caps"

definition capability_tokens :: "string list \<Rightarrow> string list option" where
  "capability_tokens toks =
     (case toks of
        [] \<Rightarrow> None
      | w # caps \<Rightarrow> if \<not> eq_ignore_ascii_case w ''CAPABILITY'' \<or> caps = [] then None else Some caps)"

definition parse_capability_code :: "string \<Rightarrow> string list option" where
  "parse_capability_code line =
     (case find_char CHR ''['' line of
        None \<Rightarrow> None
      | Some start \<Rightarrow>
          (case find_char CHR '']'' (drop start line) of
             None \<Rightarrow> None
           | Some n \<Rightarrow> capability_tokens (split_whitespace (take (n - 1) (drop (start + 1) line)))))"

fun capability_in_lines :: "string list \<Rightarrow> string list option" where
  "capability_in_lines [] = None"
| "capability_in_lines (line # lines) =
     (case strip_prefix ''* '' line of
        None \<Rightarrow> capability_in_lines lines
      | Some rest \<Rightarrow>
          (case capability_tokens (split_whitespace rest) of
             None \<Rightarrow> capability_in_lines lines
           | Some caps \<Rightarrow> Some caps))"

definition parse_capability_line :: "string \<Rightarrow> string list option" where
  "parse_capability_line resp = capability_in_lines (lines_of resp)"

text \<open>A command with its tag, and the response to it.\<close>

definition imap_command :: "string \<Rightarrow> imap_conn \<Rightarrow> string result \<times> imap_conn" where
  "imap_command cmd c =
     (let (tag, c) = next_tag c
      in bindS (imap_write (tag @ '' '' @ cmd @ crlf_text) c) (\<lambda>_ c.
         bindS (imap_read_response tag c) (\<lambda>resp c.
         bindS (require_ok resp tag, c) (\<lambda>_ c. (Inr resp, c)))))"

definition request_capability :: "imap_conn \<Rightarrow> string list result \<times> imap_conn" where
  "request_capability c =
     bindS (imap_command ''CAPABILITY'' c) (\<lambda>resp c.
       (Inr (case parse_capability_line resp of None \<Rightarrow> [] | Some toks \<Rightarrow> caps_from_tokens toks), c))"

subsection \<open>Authentication\<close>

datatype auth_method = SaslPlain | SaslLogin | LoginCommand

definition choose_auth :: "string list \<Rightarrow> auth_method option" where
  "choose_auth caps =
     (if caps_has caps ''AUTH=PLAIN'' then Some SaslPlain
      else if caps_has caps ''AUTH=LOGIN'' then Some SaslLogin
      else if caps_has caps ''LOGINDISABLED'' then None
      else Some LoginCommand)"

definition sasl_plain_initial :: "string \<Rightarrow> string \<Rightarrow> string" where
  "sasl_plain_initial user pass = base64_encode (0 # bytes_of user @ 0 # bytes_of pass)"

text \<open>The loop is over characters; the two it escapes are single bytes.\<close>

definition quote_imap_string :: "string \<Rightarrow> string" where
  "quote_imap_string s =
     CHR 0x22 # concat (map (\<lambda>c. if c = CHR 0x5C \<or> c = CHR 0x22 then [CHR 0x5C, c] else [c]) s) @ [CHR 0x22]"

definition auth_plain :: "string \<Rightarrow> string \<Rightarrow> imap_conn \<Rightarrow> unit result \<times> imap_conn" where
  "auth_plain user pass c =
     bindS (imap_command (''AUTHENTICATE PLAIN '' @ sasl_plain_initial user pass) c) (\<lambda>_ c. (Inr (), c))"

definition auth_login_sasl :: "string \<Rightarrow> string \<Rightarrow> imap_conn \<Rightarrow> unit result \<times> imap_conn" where
  "auth_login_sasl user pass c =
     (let (tag, c) = next_tag c
      in bindS (imap_write (tag @ '' AUTHENTICATE LOGIN'' @ crlf_text) c) (\<lambda>_ c.
         bindS (imap_read_response tag c) (\<lambda>cont c.
           if is_tagged_done cont tag then (require_ok cont tag, c)
           else
             bindS (imap_write (base64_encode (bytes_of user) @ crlf_text) c) (\<lambda>_ c.
             bindS (imap_read_response tag c) (\<lambda>cont c.
               if is_tagged_done cont tag then (require_ok cont tag, c)
               else
                 bindS (imap_write (base64_encode (bytes_of pass) @ crlf_text) c) (\<lambda>_ c.
                 bindS (imap_read_response tag c) (\<lambda>resp c. (require_ok resp tag, c))))))))"

definition login_command :: "string \<Rightarrow> string \<Rightarrow> imap_conn \<Rightarrow> unit result \<times> imap_conn" where
  "login_command user pass c =
     bindS (imap_command (''LOGIN '' @ quote_imap_string user @ '' '' @ quote_imap_string pass) c) (\<lambda>_ c. (Inr (), c))"

definition authenticate :: "string list \<Rightarrow> string \<Rightarrow> string \<Rightarrow> imap_conn \<Rightarrow> unit result \<times> imap_conn" where
  "authenticate caps user pass c =
     (case choose_auth caps of
        Some SaslPlain \<Rightarrow> auth_plain user pass c
      | Some SaslLogin \<Rightarrow> auth_login_sasl user pass c
      | Some LoginCommand \<Rightarrow> login_command user pass c
      | None \<Rightarrow> (Inl (BadResponse ''imap: server offers no usable authentication mechanism''), c))"

subsection \<open>URLs\<close>

definition imap_split_userinfo :: "string \<Rightarrow> string \<times> string" where
  "imap_split_userinfo s = (case find_char CHR '':'' s of Some i \<Rightarrow> (take i s, drop (i + 1) s) | None \<Rightarrow> (s, []))"

fun percent_bytes :: "bytes \<Rightarrow> bytes" where
  "percent_bytes (a # b # c # bs) =
     (if a = 0x25 then
        case (hex_digit (char_of (unat b)), hex_digit (char_of (unat c))) of
          (Some h, Some l) \<Rightarrow> of_nat (16 * h + l) # percent_bytes bs
        | _ \<Rightarrow> a # percent_bytes (b # c # bs)
      else a # percent_bytes (b # c # bs))"
| "percent_bytes bs = bs"

definition percent_decode :: "string \<Rightarrow> string" where
  "percent_decode s = (let out = percent_bytes (bytes_of s) in case from_utf8 out of Some t \<Rightarrow> t | None \<Rightarrow> from_utf8_lossy out)"

fun imap_uid :: "u32 option \<Rightarrow> string list \<Rightarrow> u32 option" where
  "imap_uid uid [] = uid"
| "imap_uid uid (param # params) =
     (case (case strip_prefix ''UID='' param of Some v \<Rightarrow> Some v | None \<Rightarrow> strip_prefix ''uid='' param) of
        None \<Rightarrow> imap_uid uid params
      | Some v \<Rightarrow>
          (case parse_unsigned (2 ^ 32 - 1) v of
             None \<Rightarrow> imap_uid uid params
           | Some n \<Rightarrow> imap_uid (Some (of_nat n)) params))"

definition imap_parse_path :: "string \<Rightarrow> string option \<times> u32 option" where
  "imap_parse_path path =
     (let trimmed = (case strip_prefix ''/'' path of Some r \<Rightarrow> r | None \<Rightarrow> path)
      in if trimmed = [] then (None, None)
         else
           let (mbox_part, params) = (case find_char CHR '';'' trimmed of Some i \<Rightarrow> (take i trimmed, drop (i + 1) trimmed) | None \<Rightarrow> (trimmed, []))
           in (if mbox_part = [] then None else Some (percent_decode mbox_part), imap_uid None (split_char CHR '';'' params)))"

subsection \<open>A transfer\<close>

definition imap_reject_ctl :: "string \<Rightarrow> unit result" where
  "imap_reject_ctl = reject_controls ''imap: {what} contains illegal control byte {b:#04x}''"

definition collect_untagged :: "string \<Rightarrow> string \<Rightarrow> string" where
  "collect_untagged resp kind =
     concat (map (\<lambda>line.
       case strip_prefix ''* '' line of
         None \<Rightarrow> []
       | Some rest \<Rightarrow>
           if list_ex (\<lambda>w. eq_ignore_ascii_case w kind) (take 2 (split_whitespace rest @ [[], []])) then line @ crlf_text else []) (lines_of resp))"

text \<open>The greeting, whether it already authenticates, and the capabilities.\<close>

definition imap_discover :: "imap_conn \<Rightarrow> (bool \<times> string list) result \<times> imap_conn" where
  "imap_discover c =
     bindS (imap_read_response ''*'' c) (\<lambda>greeting c.
       let first_line = (case lines_of greeting of [] \<Rightarrow> [] | l # _ \<Rightarrow> l)
       in if \<not> starts_with ''* OK'' first_line \<and> \<not> starts_with ''* PREAUTH'' first_line then (Inl (BadResponse ''imap greeting was not OK: {first}''), c)
          else
            let preauth = starts_with ''* PREAUTH'' first_line;
                toks = (case parse_capability_code first_line of Some ts \<Rightarrow> Some ts | None \<Rightarrow> parse_capability_line greeting);
                caps = (case toks of None \<Rightarrow> [] | Some ts \<Rightarrow> caps_from_tokens ts)
            in if caps = [] then bindS (request_capability c) (\<lambda>caps c. (Inr (preauth, caps), c))
               else (Inr (preauth, caps), c))"

definition imap_secure :: "(transport \<Rightarrow> string \<Rightarrow> transport result) \<Rightarrow> string \<Rightarrow> string list \<Rightarrow> imap_conn \<Rightarrow> string list result \<times> imap_conn" where
  "imap_secure tls host caps c =
     (if ic_plain c \<and> caps_has caps ''STARTTLS'' then
        bindS (imap_command ''STARTTLS'' c) (\<lambda>_ c.
          if ic_buf c \<noteq> [] then (Inl (BadResponse ''STARTTLS: server pipelined data before TLS handshake''), c)
          else bindS (imap_start_tls tls host c) (\<lambda>_ c. request_capability c))
      else (Inr caps, c))"

definition imap_log_in :: "url \<Rightarrow> bool \<Rightarrow> string list \<Rightarrow> imap_conn \<Rightarrow> unit result \<times> imap_conn" where
  "imap_log_in u preauth caps c =
     (case u_userinfo u of
        Some userinfo \<Rightarrow>
          if preauth then (Inr (), c)
          else let (user, pass) = imap_split_userinfo userinfo in
            bindS (imap_reject_ctl user, c) (\<lambda>_ c. bindS (imap_reject_ctl pass, c) (\<lambda>_ c. authenticate caps user pass c))
      | None \<Rightarrow> (Inr (), c))"

definition select_mailbox :: "string \<Rightarrow> imap_conn \<Rightarrow> unit result \<times> imap_conn" where
  "select_mailbox mbox c = bindS (imap_command (''SELECT '' @ quote_imap_string mbox) c) (\<lambda>_ c. (Inr (), c))"

definition imap_list :: "imap_conn \<Rightarrow> bytes result \<times> imap_conn" where
  "imap_list c =
     bindS (imap_command (''LIST '' @ [CHR 0x22, CHR 0x22, CHR '' '', CHR 0x22, CHR ''*'', CHR 0x22]) c) (\<lambda>resp c.
       (Inr (bytes_of (collect_untagged resp ''LIST'')), c))"

definition imap_uids :: "string \<Rightarrow> imap_conn \<Rightarrow> bytes result \<times> imap_conn" where
  "imap_uids mbox c =
     bindS (select_mailbox mbox c) (\<lambda>_ c.
     bindS (imap_command ''FETCH 1:* (UID)'' c) (\<lambda>resp c. (Inr (bytes_of (collect_untagged resp ''FETCH'')), c)))"

definition imap_message :: "string \<Rightarrow> u32 \<Rightarrow> imap_conn \<Rightarrow> bytes result \<times> imap_conn" where
  "imap_message mbox n c =
     bindS (select_mailbox mbox c) (\<lambda>_ c.
       let (tag, c) = next_tag c
       in bindS (imap_write (tag @ '' UID FETCH '' @ show_nat (unat n) @ '' BODY[]'' @ crlf_text) c) (\<lambda>_ c.
          bindS (read_response_with_literals tag c) (\<lambda>(resp, literals) c.
          bindS (require_ok resp tag, c) (\<lambda>_ c. (Inr (case literals of [] \<Rightarrow> [] | l # _ \<Rightarrow> l), c)))))"

definition imap_body :: "string option \<Rightarrow> u32 option \<Rightarrow> imap_conn \<Rightarrow> bytes result \<times> imap_conn" where
  "imap_body mailbox uid c =
     (case (mailbox, uid) of
        (None, None) \<Rightarrow> imap_list c
      | (Some mbox, None) \<Rightarrow> imap_uids mbox c
      | (Some mbox, Some n) \<Rightarrow> imap_message mbox n c
      | (None, Some _) \<Rightarrow> imap_list c)"

definition imap_logout :: "imap_conn \<Rightarrow> imap_conn" where
  "imap_logout c = (let (tag, c) = next_tag c; (_, c) = imap_write (tag @ '' LOGOUT'' @ crlf_text) c in snd (imap_read_response tag c))"

definition imap_run :: "(transport \<Rightarrow> string \<Rightarrow> transport result) \<Rightarrow> url \<Rightarrow> imap_conn \<Rightarrow> bytes result \<times> imap_conn" where
  "imap_run tls u c =
     bindS (imap_discover c) (\<lambda>(preauth, caps) c.
     bindS (imap_secure tls (u_host u) caps c) (\<lambda>caps c.
     bindS (imap_log_in u preauth caps c) (\<lambda>_ c.
       let (mailbox, uid) = imap_parse_path (u_path u)
       in bindS (case mailbox of None \<Rightarrow> Inr () | Some mbox \<Rightarrow> imap_reject_ctl mbox, c) (\<lambda>_ c.
          bindS (imap_body mailbox uid c) (\<lambda>body c. (Inr body, imap_logout c))))))"

definition imap_fetch :: "(url \<Rightarrow> (transport \<times> nat list) result) \<Rightarrow> (transport \<Rightarrow> string \<Rightarrow> transport result) \<Rightarrow> url \<Rightarrow> bytes result" where
  "imap_fetch connect tls u =
     (let start = (\<lambda>io sizes plain. fst (imap_run tls u \<lparr>ic_io = io, ic_sizes = sizes, ic_plain = plain, ic_buf = [], ic_tagged = 0, ic_before_tls = None\<rparr>))
      in if u_scheme u = ''imap'' then bindR (connect u) (\<lambda>(io, sizes). start io sizes True)
         else if u_scheme u = ''imaps'' then bindR (connect u) (\<lambda>(io, sizes). bindR (tls io (u_host u)) (\<lambda>io. start io sizes False))
         else Inl (UnsupportedScheme (u_scheme u)))"

subsection \<open>Reading does not depend on how the bytes arrive\<close>

text \<open>\<open>only_read c c'\<close>: nothing but the input changed.\<close>

definition only_read :: "imap_conn \<Rightarrow> imap_conn \<Rightarrow> bool" where
  "only_read c c' \<longleftrightarrow> (\<exists>b i z. c' = c\<lparr>ic_buf := b, ic_io := (ic_io c)\<lparr>t_in := i\<rparr>, ic_sizes := z\<rparr>)"

lemma only_readI: "c' = c\<lparr>ic_buf := b, ic_io := (ic_io c)\<lparr>t_in := i\<rparr>, ic_sizes := z\<rparr> \<Longrightarrow> only_read c c'"
  unfolding only_read_def by blast

lemma only_read_refl: "only_read c c"
  by (rule only_readI [where b = "ic_buf c" and i = "t_in (ic_io c)" and z = "ic_sizes c"]) simp

lemma only_read_trans: "only_read c c' \<Longrightarrow> only_read c' c'' \<Longrightarrow> only_read c c''"
  unfolding only_read_def by force

lemma only_read_fields:
  "only_read c c' \<Longrightarrow> t_out (ic_io c') = t_out (ic_io c) \<and> t_cap (ic_io c') = t_cap (ic_io c) \<and> t_end (ic_io c') = t_end (ic_io c) \<and>
     ic_plain c' = ic_plain c \<and> ic_tagged c' = ic_tagged c \<and> ic_before_tls c' = ic_before_tls c"
  unfolding only_read_def by auto

lemma sock_read_only: "only_read c (snd (sock_read m c))"
  by (cases "ic_sizes c") (auto simp: sock_read_def Let_def only_read_refl
      intro!: only_readI [where b = "ic_buf c" and i = "drop n (t_in (ic_io c))" and z = "z" for n z])

lemma sock_read_some:
  assumes "t_in (ic_io c) \<noteq> []" and "m > 0"
  shows "\<exists>bs c'. sock_read m c = (Inr bs, c') \<and> bs \<noteq> [] \<and> bs @ t_in (ic_io c') = t_in (ic_io c) \<and> ic_buf c' = ic_buf c \<and>
    length bs \<le> m \<and> only_read c c'"
proof -
  have "\<exists>bs c'. sock_read m c = (Inr bs, c') \<and> bs \<noteq> []"
    using assms by (cases "ic_sizes c") (auto simp: sock_read_def Let_def)
  then obtain bs c' where r: "sock_read m c = (Inr bs, c')" "bs \<noteq> []" by blast
  then show ?thesis using sock_read_unread [OF r(1)] sock_read_only [of c m] by auto
qed

lemma find_crlf_append: "find_crlf xs = Some p \<Longrightarrow> find_crlf (xs @ ys) = Some p"
  by (induction xs arbitrary: p rule: find_crlf.induct) (auto split: if_splits)

lemma find_crlf_line: "0x0A \<notin> set l \<Longrightarrow> find_crlf (l @ 0x0D # 0x0A # rest) = Some (length l)"
proof (induction l)
  case (Cons b l)
  then show ?case by (cases l) auto
qed simp

lemma imap_line_read:
  "find_crlf (unread c) = Some p \<Longrightarrow>
     \<exists>c'. imap_read_line c = (Inr (from_utf8_lossy (take p (unread c))), c') \<and> unread c' = drop (p + 2) (unread c) \<and> only_read c c'"
proof (induction c rule: imap_read_line.induct)
  case (1 c)
  show ?case
  proof (cases "find_crlf (ic_buf c)")
    case (Some q)
    then have "q = p" using 1(2) find_crlf_append [OF Some] by (simp add: unread_def)
    moreover have "only_read c (c\<lparr>ic_buf := drop (q + 2) (ic_buf c)\<rparr>)"
      by (rule only_readI [where b = "drop (q + 2) (ic_buf c)" and i = "t_in (ic_io c)" and z = "ic_sizes c"]) simp
    ultimately show ?thesis using Some find_crlf_bound [OF Some]
      by (subst imap_read_line.simps) (simp add: unread_def)
  next
    case None
    then have "t_in (ic_io c) \<noteq> []" using 1(2) by (auto simp: unread_def)
    then obtain bs c1 where r: "sock_read 4096 c = (Inr bs, c1)" "bs \<noteq> []" "bs @ t_in (ic_io c1) = t_in (ic_io c)" "ic_buf c1 = ic_buf c" "only_read c c1"
      using sock_read_some [of c 4096] by (metis zero_less_numeral)
    let ?c2 = "c1\<lparr>ic_buf := ic_buf c1 @ bs\<rparr>"
    have u: "unread ?c2 = unread c" using r by (simp add: unread_def)
    have "only_read c1 ?c2" by (rule only_readI [where b = "ic_buf c1 @ bs" and i = "t_in (ic_io c1)" and z = "ic_sizes c1"]) simp
    with r(5) have "only_read c ?c2" by (rule only_read_trans)
    moreover obtain c' where "imap_read_line ?c2 = (Inr (from_utf8_lossy (take p (unread c))), c')" "unread c' = drop (p + 2) (unread c)" "only_read ?c2 c'"
      using 1(1) [OF None r(1) [symmetric] refl r(2)] 1(2) u by auto
    ultimately show ?thesis using None r by (subst imap_read_line.simps) (auto intro: only_read_trans)
  qed
qed

lemma imap_fill_read:
  "n \<le> length (t_in (ic_io c)) \<Longrightarrow>
     \<exists>c'. imap_fill n out c = (Inr (out @ take n (t_in (ic_io c))), c') \<and> ic_buf c' = ic_buf c \<and> t_in (ic_io c') = drop n (t_in (ic_io c)) \<and> only_read c c'"
proof (induction n out c rule: imap_fill.induct)
  case (1 n out c)
  show ?case
  proof (cases "n = 0")
    case True
    then show ?thesis by (subst imap_fill.simps) (simp add: only_read_refl)
  next
    case False
    with 1(2) have "t_in (ic_io c) \<noteq> []" "min n 4096 > 0" by auto
    then obtain bs c1 where r: "sock_read (min n 4096) c = (Inr bs, c1)" "bs \<noteq> []" "bs @ t_in (ic_io c1) = t_in (ic_io c)" "ic_buf c1 = ic_buf c"
      "length bs \<le> min n 4096" "only_read c c1"
      using sock_read_some [of c "min n 4096"] by metis
    from r(3) [symmetric] r(5) have i: "take n (t_in (ic_io c)) = bs @ take (n - length bs) (t_in (ic_io c1))"
      "drop n (t_in (ic_io c)) = drop (n - length bs) (t_in (ic_io c1))" by simp_all
    have "n - length bs \<le> length (t_in (ic_io c1))" using 1(2) r(3) [symmetric] by simp
    with 1(1) [OF False r(1) [symmetric] refl r(2)] obtain c' where "imap_fill (n - length bs) (out @ bs) c1
        = (Inr ((out @ bs) @ take (n - length bs) (t_in (ic_io c1))), c')" "ic_buf c' = ic_buf c1" "t_in (ic_io c') = drop (n - length bs) (t_in (ic_io c1))"
        "only_read c1 c'" by blast
    with False r i show ?thesis by (subst imap_fill.simps) (auto intro: only_read_trans)
  qed
qed

lemma imap_exact_read:
  assumes "n \<le> length (unread c)"
  shows "\<exists>c'. imap_read_exact n c = (Inr (take n (unread c)), c') \<and> unread c' = drop n (unread c) \<and> only_read c c'"
proof -
  let ?k = "min (length (ic_buf c)) n"
  let ?c = "c\<lparr>ic_buf := drop ?k (ic_buf c)\<rparr>"
  have "n - ?k \<le> length (t_in (ic_io ?c))" using assms by (simp add: unread_def)
  from imap_fill_read [OF this, of "take ?k (ic_buf c)"] obtain c' where
    f: "imap_fill (n - ?k) (take ?k (ic_buf c)) ?c = (Inr (take ?k (ic_buf c) @ take (n - ?k) (t_in (ic_io ?c))), c')"
    "ic_buf c' = ic_buf ?c" "t_in (ic_io c') = drop (n - ?k) (t_in (ic_io ?c))" "only_read ?c c'" by blast
  have "only_read c ?c" by (rule only_readI [where b = "drop ?k (ic_buf c)" and i = "t_in (ic_io c)" and z = "ic_sizes c"]) simp
  with f(4) have "only_read c c'" by (blast intro: only_read_trans)
  moreover have "take ?k (ic_buf c) @ take (n - ?k) (t_in (ic_io c)) = take n (unread c)" "unread c' = drop n (unread c)"
    using f(2, 3) by (auto simp: unread_def min_def)
  ultimately show ?thesis using f(1) by (simp add: imap_read_exact_def Let_def)
qed

subsection \<open>Responses are read as they were written\<close>

text \<open>What precedes the tagged line: lines, and lines that announce a literal, with the literal.\<close>

datatype imap_item = Line string | Literal string bytes

fun item_wire :: "imap_item \<Rightarrow> bytes" where
  "item_wire (Line l) = line_bytes_of l"
| "item_wire (Literal l bs) = line_bytes_of l @ bs"

fun item_ok :: "string \<Rightarrow> imap_item \<Rightarrow> bool" where
  "item_ok tag (Line l) \<longleftrightarrow> line_text l \<and> extract_literal_size l = None \<and> \<not> ends_response tag l"
| "item_ok tag (Literal l bs) \<longleftrightarrow> line_text l \<and> extract_literal_size l = Some (length bs) \<and> length bs \<le> MAX_LITERAL"

fun item_text :: "imap_item \<Rightarrow> string" where
  "item_text (Line l) = l @ crlf_text"
| "item_text (Literal l bs) = (l @ crlf_text) @ from_utf8_lossy bs"

definition item_literals :: "imap_item list \<Rightarrow> bytes list" where
  "item_literals items = concat (map (\<lambda>i. case i of Line _ \<Rightarrow> [] | Literal _ bs \<Rightarrow> [bs]) items)"

lemma text_line_read:
  assumes "line_text l" and "unread c = line_bytes_of l @ rest"
  shows "\<exists>c'. imap_read_line c = (Inr l, c') \<and> unread c' = rest \<and> only_read c c'"
proof -
  have "0x0A \<notin> set (bytes_of l)" "valid_str l" using assms(1) by (simp_all add: line_text_def bytes_of_lf)
  with find_crlf_line [of "bytes_of l" rest] imap_line_read [of c "length (bytes_of l)"] assms(2) show ?thesis
    by (simp add: line_bytes_of_def from_utf8_lossy_valid)
qed

lemma items_read:
  assumes "line_text e" and "extract_literal_size e = None" and "ends_response tag e"
  shows "list_all (item_ok tag) items \<Longrightarrow> unread c = concat (map item_wire items) @ line_bytes_of e @ rest \<Longrightarrow>
    \<exists>c'. read_with_literals tag so_far lits c = (Inr (so_far @ concat (map item_text items) @ e @ crlf_text, lits @ item_literals items), c') \<and>
      unread c' = rest \<and> only_read c c'"
proof (induction items arbitrary: c so_far lits)
  case Nil
  then obtain c' where "imap_read_line c = (Inr e, c')" "unread c' = rest" "only_read c c'"
    using text_line_read [OF assms(1)] by fastforce
  with assms show ?case by (subst read_with_literals.simps) (simp add: item_literals_def)
next
  case (Cons i items)
  let ?rest = "concat (map item_wire items) @ line_bytes_of e @ rest"
  show ?case
  proof (cases i)
    case (Line l)
    with Cons.prems obtain c1 where 1: "imap_read_line c = (Inr l, c1)" "unread c1 = ?rest" "only_read c c1"
      using text_line_read [of l c ?rest] by auto
    from Cons.IH [OF _ 1(2), of "so_far @ l @ crlf_text" lits] Cons.prems(1) obtain c' where
      "read_with_literals tag (so_far @ l @ crlf_text) lits c1
        = (Inr ((so_far @ l @ crlf_text) @ concat (map item_text items) @ e @ crlf_text, lits @ item_literals items), c')"
      "unread c' = rest" "only_read c1 c'" by auto
    with 1 Cons.prems(1) Line show ?thesis
      by (subst read_with_literals.simps) (auto simp: item_literals_def intro: only_read_trans)
  next
    case (Literal l bs)
    with Cons.prems obtain c1 where 1: "imap_read_line c = (Inr l, c1)" "unread c1 = bs @ ?rest" "only_read c c1"
      using text_line_read [of l c "bs @ ?rest"] by auto
    obtain c2 where 2: "imap_read_exact (length bs) c1 = (Inr bs, c2)" "unread c2 = ?rest" "only_read c1 c2"
      using imap_exact_read [of "length bs" c1] 1(2) by auto
    from Cons.IH [OF _ 2(2), of "(so_far @ l @ crlf_text) @ from_utf8_lossy bs" "lits @ [bs]"] Cons.prems(1) obtain c' where
      "read_with_literals tag ((so_far @ l @ crlf_text) @ from_utf8_lossy bs) (lits @ [bs]) c2
        = (Inr (((so_far @ l @ crlf_text) @ from_utf8_lossy bs) @ concat (map item_text items) @ e @ crlf_text, (lits @ [bs]) @ item_literals items), c')"
      "unread c' = rest" "only_read c2 c'" by auto
    with 1 2 Cons.prems(1) Literal show ?thesis
      by (subst read_with_literals.simps) (auto simp: item_literals_def intro: only_read_trans)
  qed
qed

text \<open>A response that accepts a command: its items, the last of which is a line, and the tagged line.\<close>

record imap_reply =
  im_items :: "imap_item list"
  im_text :: string

definition accepted_line :: "string \<Rightarrow> imap_reply \<Rightarrow> string" where
  "accepted_line tag r = tag @ '' OK '' @ im_text r"

definition imap_reply_wire :: "string \<Rightarrow> imap_reply \<Rightarrow> bytes" where
  "imap_reply_wire tag r = concat (map item_wire (im_items r)) @ line_bytes_of (accepted_line tag r)"

definition imap_reply_ok :: "string \<Rightarrow> imap_reply \<Rightarrow> bool" where
  "imap_reply_ok tag r \<longleftrightarrow> list_all (item_ok tag) (im_items r) \<and>
     (im_items r = [] \<or> (case last (im_items r) of Line _ \<Rightarrow> True | Literal _ _ \<Rightarrow> False)) \<and>
     line_text (accepted_line tag r) \<and> trimmed (accepted_line tag r) \<and> extract_literal_size (accepted_line tag r) = None"

lemma split_char_append: "split_char c (y @ c # z) = split_char c y @ split_char c z"
  by (induction y) (auto split: list.splits simp: neq_Nil_conv)

lemma last_line_end:
  assumes "x = [] \<or> last x = CHR 0x0A" and "line_text e" and "e \<noteq> []"
  shows "last_line (x @ e @ crlf_text) = e"
proof -
  have e: "CHR 0x0A \<notin> set (e @ [CHR 0x0D])" using assms(2) by (simp add: line_text_def)
  have s: "split_char CHR 0x0A ((e @ [CHR 0x0D]) @ CHR 0x0A # []) = [e @ [CHR 0x0D], []]"
    using split_char_field [OF e, of "[]"] by simp
  have "\<exists>ps. split_char CHR 0x0A (x @ e @ crlf_text) = ps @ [e @ [CHR 0x0D], []]"
  proof (cases "x = []")
    case True
    with s show ?thesis by (intro exI [of _ "[]"]) simp
  next
    case False
    with assms(1) obtain y where "x = y @ [CHR 0x0A]" by (metis append_butlast_last_id)
    with s split_char_append [of "CHR 0x0A" y "e @ crlf_text"] show ?thesis by auto
  qed
  then obtain ps where "split_char CHR 0x0A (x @ e @ crlf_text) = ps @ [e @ [CHR 0x0D], []]" by blast
  then have "lines_of (x @ e @ crlf_text) = map strip_cr ps @ [e]"
    by (simp add: lines_of_def Let_def butlast_append strip_cr_def)
  with assms(3) show ?thesis by (simp add: last_line_def)
qed

lemma accepted_require:
  assumes "x = [] \<or> last x = CHR 0x0A" and "line_text (accepted_line tag r)"
  shows "require_ok (x @ accepted_line tag r @ crlf_text) tag = Inr ()"
proof -
  have "last_line (x @ accepted_line tag r @ crlf_text) = accepted_line tag r"
    using assms by (intro last_line_end) (simp_all add: accepted_line_def)
  moreover have "strip_prefix tag (accepted_line tag r) = Some ('' OK '' @ im_text r)"
    by (simp add: strip_prefix_def accepted_line_def starts_with_def)
  moreover have "trim_start ('' OK '' @ im_text r) = ''OK '' @ im_text r"
    by (simp add: trim_start_space) (simp add: trim_start.simps [of "CHR ''O'' # _"] ws_front_graphic graphic_def)
  moreover have "split_whitespace (''OK'' @ CHR '' '' # im_text r) = ''OK'' # split_whitespace (im_text r)"
    by (rule split_whitespace_word) (auto simp: graphic_def)
  ultimately show ?thesis by (simp add: require_ok_def eq_ignore_ascii_case_def)
qed

lemma items_text_end:
  assumes "items = [] \<or> (case last items of Line _ \<Rightarrow> True | Literal _ _ \<Rightarrow> False)"
  shows "concat (map item_text items) = [] \<or> last (concat (map item_text items)) = CHR 0x0A"
proof (cases items rule: rev_cases)
  case (snoc js i)
  with assms obtain l where "i = Line l" by (cases i) auto
  with snoc show ?thesis by simp
qed simp

lemma accepted_read:
  assumes "imap_reply_ok tag r" and "unread c = imap_reply_wire tag r @ rest"
  shows "\<exists>c' resp. read_response_with_literals tag c = (Inr (resp, item_literals (im_items r)), c') \<and> require_ok resp tag = Inr () \<and>
    unread c' = rest \<and> only_read c c'"
proof -
  let ?e = "accepted_line tag r" and ?x = "concat (map item_text (im_items r))"
  have e: "line_text ?e" "extract_literal_size ?e = None" using assms(1) by (simp_all add: imap_reply_ok_def)
  have "trim_end ?e = ?e" using assms(1) by (simp add: imap_reply_ok_def trim_end_trimmed)
  then have "ends_response tag ?e" by (simp add: ends_response_def accepted_line_def starts_with_def)
  from items_read [OF e this, of "im_items r" c rest "[]" "[]"] assms obtain c' where
    "read_with_literals tag [] [] c = (Inr (?x @ ?e @ crlf_text, item_literals (im_items r)), c')" "unread c' = rest" "only_read c c'"
    by (auto simp: imap_reply_ok_def imap_reply_wire_def)
  moreover have "require_ok (?x @ ?e @ crlf_text) tag = Inr ()"
    using assms(1) by (intro accepted_require items_text_end) (simp_all add: imap_reply_ok_def)
  ultimately show ?thesis by (auto simp: read_response_with_literals_def)
qed

subsection \<open>A message is returned as the server sends it\<close>

text \<open>Whatever comes, reading changes nothing but the input.\<close>

lemma buf_only_read: "only_read c (c\<lparr>ic_buf := b\<rparr>)"
  by (rule only_readI [where b = b and i = "t_in (ic_io c)" and z = "ic_sizes c"]) simp

lemma line_only_read: "only_read c (snd (imap_read_line c))"
proof (induction c rule: imap_read_line.induct)
  case (1 c)
  obtain r c1 where r: "sock_read 4096 c = (r, c1)" by fastforce
  have o: "only_read c c1" using sock_read_only [of c 4096] r by simp
  have "only_read c (snd (imap_read_line (c1\<lparr>ic_buf := ic_buf c1 @ bs\<rparr>)))" if "find_crlf (ic_buf c) = None" "r = Inr bs" "bs \<noteq> []" for bs
    using 1 [OF that(1) r [symmetric] that(2, 3)] o buf_only_read by (blast intro: only_read_trans)
  with o show ?case
    by (subst imap_read_line.simps) (auto simp: r intro: only_read_trans [OF _ buf_only_read] buf_only_read split: option.split sum.split)
qed

lemma fill_only_read: "only_read c (snd (imap_fill n out c))"
proof (induction n out c rule: imap_fill.induct)
  case (1 n out c)
  obtain r c1 where r: "sock_read (min n 4096) c = (r, c1)" by fastforce
  have o: "only_read c c1" using sock_read_only [of c "min n 4096"] r by simp
  have "only_read c (snd (imap_fill (n - length bs) (out @ bs) c1))" if "n \<noteq> 0" "r = Inr bs" "bs \<noteq> []" for bs
    using 1 [OF that(1) r [symmetric] that(2, 3)] o by (blast intro: only_read_trans)
  with o show ?case by (subst imap_fill.simps) (auto simp: r only_read_refl split: sum.split)
qed

lemma exact_only_read: "only_read c (snd (imap_read_exact n c))"
  unfolding imap_read_exact_def Let_def by (rule only_read_trans [OF buf_only_read fill_only_read])

lemma literals_only_read: "only_read c (snd (read_with_literals tag so_far lits c))"
proof (induction tag so_far lits c rule: read_with_literals.induct)
  case (1 tag so_far lits c)
  obtain r c1 where r: "imap_read_line c = (r, c1)" by fastforce
  have o: "only_read c c1" using line_only_read [of c] r by simp
  show ?case
  proof (cases r)
    case (Inl e)
    with r o show ?thesis by (subst read_with_literals.simps) simp
  next
    case (Inr line)
    show ?thesis
    proof (cases "extract_literal_size line")
      case None
      with 1(1) [OF r [symmetric] Inr refl None] r o Inr None show ?thesis
        by (subst read_with_literals.simps) (auto simp: Let_def intro: only_read_trans)
    next
      case (Some n)
      obtain q c2 where q: "imap_read_exact n c1 = (q, c2)" by fastforce
      have o2: "only_read c c2" using exact_only_read [of c1 n] q o by (auto intro: only_read_trans)
      show ?thesis
      proof (cases q)
        case (Inl e)
        with r o o2 q Some \<open>r = Inr line\<close> show ?thesis by (subst read_with_literals.simps) (simp add: Let_def)
      next
        case (Inr bs)
        show ?thesis
        proof (cases "n > MAX_LITERAL")
          case True
          with r o Some \<open>r = Inr line\<close> show ?thesis by (subst read_with_literals.simps) (simp add: Let_def)
        next
          case False
          from 1(2) [OF r [symmetric] \<open>r = Inr line\<close> refl Some False q [symmetric] Inr] o2 r Some q Inr False \<open>r = Inr line\<close> show ?thesis
            by (subst read_with_literals.simps) (auto simp: Let_def intro: only_read_trans)
        qed
      qed
    qed
  qed
qed

lemma response_only_read: "only_read c (snd (imap_read_response tag c))"
  using literals_only_read [of c tag "[]" "[]"]
  by (cases "read_with_literals tag [] [] c"; cases "fst (read_with_literals tag [] [] c)")
    (auto simp: imap_read_response_def read_response_with_literals_def)

text \<open>\<open>spoken\<close>: these lines were written, this much is left to read, and so many tags were used.\<close>

definition spoken :: "imap_conn \<Rightarrow> string list \<Rightarrow> u32 \<Rightarrow> bytes \<Rightarrow> imap_conn \<Rightarrow> bool" where
  "spoken c cmds n rest c' \<longleftrightarrow> unread c' = rest \<and> t_out (ic_io c') = t_out (ic_io c) @ concat (map line_bytes_of cmds) \<and>
     t_cap (ic_io c') = t_cap (ic_io c) \<and> ic_plain c' = ic_plain c \<and> ic_tagged c' = ic_tagged c + n"

lemma spoken_read: "only_read c c' \<Longrightarrow> unread c' = rest \<Longrightarrow> spoken c [] 0 rest c'"
  by (auto simp: spoken_def dest: only_read_fields)

lemma spoken_trans: "spoken c xs n i c' \<Longrightarrow> spoken c' ys m j c'' \<Longrightarrow> spoken c (xs @ ys) (n + m) j c''"
  by (simp add: spoken_def)

lemma spoken_write:
  assumes "t_cap (ic_io c) = None" and "next_tag c = (tag, c1)"
  shows "\<exists>c2. imap_write (tag @ '' '' @ cmd @ crlf_text) c1 = (Inr (), c2) \<and> spoken c [tag @ '' '' @ cmd] 1 (unread c) c2"
  using assms by (auto simp: next_tag_def Let_def imap_write_def spoken_def unread_def line_bytes_of_def bytes_of_def)

lemma command_accepted:
  assumes "t_cap (ic_io c) = None" and "tag = imap_tag (ic_tagged c + 1)" and "imap_reply_ok tag r" and "unread c = imap_reply_wire tag r @ rest"
  shows "\<exists>c' resp. imap_command cmd c = (Inr resp, c') \<and> spoken c [tag @ '' '' @ cmd] 1 rest c'"
proof -
  let ?c1 = "c\<lparr>ic_tagged := ic_tagged c + 1\<rparr>"
  have t: "next_tag c = (tag, ?c1)" by (simp add: next_tag_def Let_def assms(2))
  obtain c2 where w: "imap_write (tag @ '' '' @ cmd @ crlf_text) ?c1 = (Inr (), c2)" "spoken c [tag @ '' '' @ cmd] 1 (unread c) c2"
    using spoken_write [OF assms(1) t] by blast
  then have "unread c2 = imap_reply_wire tag r @ rest" using assms(4) by (simp add: spoken_def)
  from accepted_read [OF assms(3) this] obtain c' resp where
    r: "read_response_with_literals tag c2 = (Inr (resp, item_literals (im_items r)), c')" "require_ok resp tag = Inr ()" "unread c' = rest" "only_read c2 c'"
    by blast
  have "spoken c ([tag @ '' '' @ cmd] @ []) (1 + 0) rest c'" using w(2) spoken_read [OF r(4, 3)] by (rule spoken_trans)
  then show ?thesis using w r by (simp add: imap_command_def t imap_read_response_def)
qed

lemma logout_spoken:
  assumes "t_cap (ic_io c) = None"
  shows "t_out (ic_io (imap_logout c)) = t_out (ic_io c) @ line_bytes_of (imap_tag (ic_tagged c + 1) @ '' LOGOUT'')"
proof -
  obtain tag c1 where t: "next_tag c = (tag, c1)" "tag = imap_tag (ic_tagged c + 1)" by (simp add: next_tag_def Let_def)
  obtain c2 where w: "imap_write (tag @ '' '' @ ''LOGOUT'' @ crlf_text) c1 = (Inr (), c2)" "spoken c [tag @ '' '' @ ''LOGOUT''] 1 (unread c) c2"
    using spoken_write [OF assms t(1)] by blast
  have "t_out (ic_io (snd (imap_read_response tag c2))) = t_out (ic_io c2)" using only_read_fields [OF response_only_read] by blast
  with w t show ?thesis by (simp add: imap_logout_def spoken_def)
qed

text \<open>The line that logs in by PLAIN or by LOGIN.\<close>

definition auth_line :: "string list \<Rightarrow> string \<Rightarrow> string \<Rightarrow> string option" where
  "auth_line caps user pass =
     (case choose_auth caps of
        Some SaslPlain \<Rightarrow> Some (''AUTHENTICATE PLAIN '' @ sasl_plain_initial user pass)
      | Some LoginCommand \<Rightarrow> Some (''LOGIN '' @ quote_imap_string user @ '' '' @ quote_imap_string pass)
      | _ \<Rightarrow> None)"

lemma authenticate_line:
  assumes "auth_line caps user pass = Some cmd" and "imap_command cmd c = (Inr resp, c')"
  shows "authenticate caps user pass c = (Inr (), c')"
  using assms by (auto simp: auth_line_def authenticate_def auth_plain_def login_command_def split: option.splits auth_method.splits)

lemma message_accepted:
  assumes "t_cap (ic_io c) = None" and "tag1 = imap_tag (ic_tagged c + 1)" and "tag2 = imap_tag (ic_tagged c + 2)"
    and "imap_reply_ok tag1 r1" and "imap_reply_ok tag2 r2" and "item_literals (im_items r2) = msg # others"
    and "unread c = imap_reply_wire tag1 r1 @ imap_reply_wire tag2 r2 @ rest"
  shows "\<exists>c'. imap_message mbox n c = (Inr msg, c') \<and>
    spoken c [tag1 @ '' SELECT '' @ quote_imap_string mbox, tag2 @ '' UID FETCH '' @ show_nat (unat n) @ '' BODY[]''] 2 rest c'"
proof -
  obtain c1 resp1 where 1: "imap_command (''SELECT '' @ quote_imap_string mbox) c = (Inr resp1, c1)"
    "spoken c [tag1 @ '' '' @ ''SELECT '' @ quote_imap_string mbox] 1 (imap_reply_wire tag2 r2 @ rest) c1"
    using command_accepted [OF assms(1, 2, 4, 7)] by blast
  then have c1: "t_cap (ic_io c1) = None" "ic_tagged c1 + 1 = ic_tagged c + 2" "unread c1 = imap_reply_wire tag2 r2 @ rest"
    using assms(1) by (simp_all add: spoken_def)
  let ?cmd = "''UID FETCH '' @ show_nat (unat n) @ '' BODY[]''"
  let ?c2 = "c1\<lparr>ic_tagged := ic_tagged c1 + 1\<rparr>"
  have t: "next_tag c1 = (tag2, ?c2)" using c1(2) by (simp add: next_tag_def Let_def assms(3) add.commute)
  obtain c3 where w: "imap_write (tag2 @ '' '' @ ?cmd @ crlf_text) ?c2 = (Inr (), c3)" "spoken c1 [tag2 @ '' '' @ ?cmd] 1 (unread c1) c3"
    using spoken_write [OF c1(1) t] by blast
  then have "unread c3 = imap_reply_wire tag2 r2 @ rest" using c1(3) by (simp add: spoken_def)
  from accepted_read [OF assms(5) this] obtain c' resp where
    r: "read_response_with_literals tag2 c3 = (Inr (resp, item_literals (im_items r2)), c')" "require_ok resp tag2 = Inr ()" "unread c' = rest" "only_read c3 c'"
    by blast
  have "spoken c1 ([tag2 @ '' '' @ ?cmd] @ []) (1 + 0) rest c'" using w(2) spoken_read [OF r(4, 3)] by (rule spoken_trans)
  with 1(2) have "spoken c ([tag1 @ '' '' @ ''SELECT '' @ quote_imap_string mbox] @ [tag2 @ '' '' @ ?cmd] @ []) (1 + (1 + 0)) rest c'"
    by (rule spoken_trans)
  then show ?thesis using 1(1) w r assms(6) t by (simp add: imap_message_def select_mailbox_def)
qed

text \<open>A greeting with its capabilities.\<close>

definition greeting_ok :: "string \<Rightarrow> string list \<Rightarrow> bool" where
  "greeting_ok g caps \<longleftrightarrow> line_text g \<and> trimmed g \<and> starts_with ''* OK'' g \<and> extract_literal_size g = None \<and>
     map_option caps_from_tokens (parse_capability_code g) = Some caps \<and> caps \<noteq> []"

lemma greeting_read:
  assumes "greeting_ok g caps" and "unread c = line_bytes_of g @ rest"
  shows "\<exists>c'. imap_discover c = (Inr (False, caps), c') \<and> spoken c [] 0 rest c'"
proof -
  have p: "line_text g" "extract_literal_size g = None" "trim_end g = g" "starts_with ''* OK'' g"
    using assms(1) by (simp_all add: greeting_ok_def trim_end_trimmed)
  have "take 4 g = ''* OK''" using p(4) by (simp add: starts_with_def numeral_eq_Suc)
  then have g: "g = ''* OK'' @ drop 4 g" using append_take_drop_id [of 4 g] by simp
  have s: "starts_with ''* '' g" "\<not> starts_with ''* PREAUTH'' g" by (subst g, simp add: starts_with_def)+
  have e: "ends_response ''*'' g" unfolding ends_response_def p(3) Let_def using s(1) by simp
  obtain c' where r: "read_with_literals ''*'' [] [] c = (Inr (g @ crlf_text, []), c')" "unread c' = rest" "only_read c c'"
    using items_read [OF p(1, 2) e, where items = "[]" and c = c and rest = rest and so_far = "[]" and lits = "[]"] assms(2)
    by (auto simp: item_literals_def)
  have "lines_of (g @ crlf_text) = [g]"
    using lines_of_cons [of "g @ [CHR 0x0D]" "[]"] p(1) by (simp add: line_text_def strip_cr_def) (simp add: lines_of_def)
  moreover obtain toks where "parse_capability_code g = Some toks" "caps_from_tokens toks = caps" "caps \<noteq> []"
    using assms(1) unfolding greeting_ok_def by blast
  ultimately have "imap_discover c = (Inr (False, caps), c')"
    using r(1) s(2) p(4) by (simp add: imap_discover_def imap_read_response_def read_response_with_literals_def Let_def)
  with spoken_read [OF r(3, 2)] show ?thesis by blast
qed


subsection \<open>STARTTLS\<close>

text \<open>What has been written in the clear on a connection that started in the clear.\<close>

definition in_clear :: "imap_conn \<Rightarrow> bytes" where
  "in_clear c = (case ic_before_tls c of Some out \<Rightarrow> out | None \<Rightarrow> t_out (ic_io c))"

lemma bindS_ret: "snd (bindS m (\<lambda>x c. (f x, c))) = snd m"
  by (cases m; cases "fst m") auto

lemma command_written:
  assumes "t_cap (ic_io c) = None"
  shows "t_out (ic_io (snd (imap_command cmd c))) = t_out (ic_io c) @ line_bytes_of (imap_tag (ic_tagged c + 1) @ '' '' @ cmd) \<and>
    t_cap (ic_io (snd (imap_command cmd c))) = None \<and> ic_before_tls (snd (imap_command cmd c)) = ic_before_tls c \<and>
    ic_plain (snd (imap_command cmd c)) = ic_plain c"
proof -
  obtain tag c1 where t: "next_tag c = (tag, c1)" "tag = imap_tag (ic_tagged c + 1)" "ic_before_tls c1 = ic_before_tls c"
    by (simp add: next_tag_def Let_def)
  obtain c2 where w: "imap_write (tag @ '' '' @ cmd @ crlf_text) c1 = (Inr (), c2)" "spoken c [tag @ '' '' @ cmd] 1 (unread c) c2"
    using spoken_write [OF assms t(1)] by blast
  have b: "ic_before_tls c2 = ic_before_tls c" using w(1) t(3) by (auto simp: imap_write_def Let_def split: prod.splits)
  have "snd (imap_command cmd c) = snd (imap_read_response tag c2)"
    by (simp only: imap_command_def t(1) Let_def prod.case w(1) bindS.simps bindS_ret snd_conv)
      (cases "imap_read_response tag c2"; cases "fst (imap_read_response tag c2)"; simp add: bindS_ret)
  moreover note only_read_fields [OF response_only_read [of c2 tag]]
  ultimately show ?thesis using w(2) b t(2) assms by (simp add: spoken_def)
qed

lemma keeps_tls [simp]:
  "ic_before_tls (snd (imap_write s c)) = ic_before_tls c" "ic_before_tls (snd (imap_read_response tag c)) = ic_before_tls c"
  "ic_before_tls (snd (read_response_with_literals tag c)) = ic_before_tls c" "ic_before_tls (snd (next_tag c)) = ic_before_tls c"
  using only_read_fields [OF response_only_read [of c tag]] only_read_fields [OF literals_only_read [of c tag "[]" "[]"]]
  by (simp_all add: imap_write_def read_response_with_literals_def next_tag_def Let_def case_prod_unfold)

lemma bind_keeps:
  assumes "ic_before_tls (snd m) = x" and "\<And>y c. ic_before_tls c = x \<Longrightarrow> ic_before_tls (snd (f y c)) = x"
  shows "ic_before_tls (snd (bindS m f)) = x"
  using assms by (intro bindS_state [where P = "\<lambda>c. ic_before_tls c = x"]) auto

lemma command_keeps [simp]: "ic_before_tls (snd (imap_command cmd c)) = ic_before_tls c"
  unfolding imap_command_def by (auto simp: Let_def case_prod_unfold intro!: bind_keeps)

lemma steps_keep [simp]:
  "ic_before_tls (snd (request_capability c)) = ic_before_tls c" "ic_before_tls (snd (auth_plain user pass c)) = ic_before_tls c"
  "ic_before_tls (snd (login_command user pass c)) = ic_before_tls c" "ic_before_tls (snd (select_mailbox mbox c)) = ic_before_tls c"
  "ic_before_tls (snd (imap_list c)) = ic_before_tls c"
  unfolding request_capability_def auth_plain_def login_command_def select_mailbox_def imap_list_def by (auto intro!: bind_keeps)

lemma transfer_keeps [simp]:
  "ic_before_tls (snd (auth_login_sasl user pass c)) = ic_before_tls c"
  "ic_before_tls (snd (imap_uids mbox c)) = ic_before_tls c" "ic_before_tls (snd (imap_message mbox n c)) = ic_before_tls c"
  unfolding auth_login_sasl_def imap_uids_def imap_message_def by (auto simp: Let_def case_prod_unfold intro!: bind_keeps)

lemma session_keeps [simp]:
  "ic_before_tls (snd (authenticate caps user pass c)) = ic_before_tls c" "ic_before_tls (snd (imap_log_in u preauth caps c)) = ic_before_tls c"
  "ic_before_tls (snd (imap_body mailbox uid c)) = ic_before_tls c" "ic_before_tls (imap_logout c) = ic_before_tls c"
  by (auto simp: authenticate_def imap_log_in_def imap_body_def imap_logout_def Let_def case_prod_unfold
      intro!: bind_keeps split: option.split auth_method.split)

lemma capability_state: "snd (request_capability c) = snd (imap_command ''CAPABILITY'' c)"
  by (simp add: request_capability_def bindS_ret)

lemma discover_written:
  assumes "t_cap (ic_io c) = None" and "imap_discover c = (Inr (preauth, caps), c1)"
  shows "\<exists>cmds. t_out (ic_io c1) = t_out (ic_io c) @ concat (map line_bytes_of cmds) \<and> (\<forall>cmd\<in>set cmds. \<exists>k. cmd = imap_tag k @ '' CAPABILITY'') \<and>
    t_cap (ic_io c1) = None \<and> ic_before_tls c1 = ic_before_tls c \<and> ic_plain c1 = ic_plain c"
proof -
  obtain greeting c0 where r: "imap_read_response ''*'' c = (Inr greeting, c0)"
    using assms(2) by (auto simp: imap_discover_def bindS_eq_Inr)
  from only_read_fields [OF response_only_read [of c "''*''"]] r assms(1)
  have c0: "t_out (ic_io c0) = t_out (ic_io c)" "t_cap (ic_io c0) = None" "ic_before_tls c0 = ic_before_tls c" "ic_plain c0 = ic_plain c" by simp_all
  consider "c1 = c0" | caps' where "request_capability c0 = (Inr caps', c1)"
    using assms(2) by (auto simp: imap_discover_def r Let_def bindS_eq_Inr split: if_splits)
  then show ?thesis
  proof cases
    case 1
    with c0 show ?thesis by (intro exI [of _ "[]"]) simp
  next
    case 2
    then have "c1 = snd (imap_command ''CAPABILITY'' c0)" using capability_state [of c0] by simp
    with command_written [OF c0(2), of "''CAPABILITY''"] c0 show ?thesis
      by (intro exI [of _ "[imap_tag (ic_tagged c0 + 1) @ '' '' @ ''CAPABILITY'']"]) auto
  qed
qed

lemma secure_upgrade:
  assumes "t_cap (ic_io c) = None" and "ic_plain c" and "caps_has caps ''STARTTLS''" and "ic_before_tls c = None"
    and "imap_secure tls host caps c = (r, c')"
  shows "in_clear c' = t_out (ic_io c) @ line_bytes_of (imap_tag (ic_tagged c + 1) @ '' STARTTLS'')"
    and "r = Inr caps' \<Longrightarrow> \<exists>resp c2 io. imap_command ''STARTTLS'' c = (Inr resp, c2) \<and> ic_buf c2 = [] \<and> tls (ic_io c2) host = Inr io \<and>
      ic_before_tls c' = Some (in_clear c') \<and> (r, c') = request_capability (c2\<lparr>ic_io := io, ic_plain := False, ic_before_tls := Some (in_clear c')\<rparr>)"
proof -
  let ?out = "t_out (ic_io c) @ line_bytes_of (imap_tag (ic_tagged c + 1) @ '' STARTTLS'')"
  obtain q c2 where q: "imap_command ''STARTTLS'' c = (q, c2)" by fastforce
  from command_written [OF assms(1), of "''STARTTLS''"] have c2: "t_out (ic_io c2) = ?out" "ic_before_tls c2 = None" "ic_plain c2"
    by (simp_all add: q assms(2, 4))
  have run: "(r, c') = bindS (q, c2) (\<lambda>_ c.
      if ic_buf c \<noteq> [] then (Inl (BadResponse ''STARTTLS: server pipelined data before TLS handshake''), c)
      else bindS (imap_start_tls tls host c) (\<lambda>_ c. request_capability c))"
    using assms(2, 3, 5) q by (simp add: imap_secure_def)
  have d: "c' = c2 \<and> (\<forall>x. r \<noteq> Inr x) \<or>
      (\<exists>resp io. q = Inr resp \<and> ic_buf c2 = [] \<and> tls (ic_io c2) host = Inr io \<and>
         (r, c') = request_capability (c2\<lparr>ic_io := io, ic_plain := False, ic_before_tls := Some ?out\<rparr>))"
  proof (cases q)
    case (Inl e)
    with run show ?thesis by simp
  next
    case (Inr resp)
    with run c2 show ?thesis by (cases "tls (ic_io c2) host") (auto simp: imap_start_tls_def split: if_splits)
  qed
  have *: "c' = c2 \<and> (\<forall>x. r \<noteq> Inr x) \<or>
      (\<exists>resp io. q = Inr resp \<and> ic_buf c2 = [] \<and> tls (ic_io c2) host = Inr io \<and> ic_before_tls c' = Some ?out \<and>
         (r, c') = request_capability (c2\<lparr>ic_io := io, ic_plain := False, ic_before_tls := Some ?out\<rparr>))"
  proof -
    have "ic_before_tls c' = Some ?out" if "(r, c') = request_capability (c2\<lparr>ic_io := io, ic_plain := False, ic_before_tls := Some ?out\<rparr>)" for io
      using steps_keep(1) [of "c2\<lparr>ic_io := io, ic_plain := False, ic_before_tls := Some ?out\<rparr>"] unfolding that [symmetric] by simp
    with d show ?thesis by blast
  qed
  then show o: "in_clear c' = ?out" using c2 by (auto simp: in_clear_def)
  show "r = Inr caps' \<Longrightarrow> \<exists>resp c2 io. imap_command ''STARTTLS'' c = (Inr resp, c2) \<and> ic_buf c2 = [] \<and> tls (ic_io c2) host = Inr io \<and>
      ic_before_tls c' = Some (in_clear c') \<and> (r, c') = request_capability (c2\<lparr>ic_io := io, ic_plain := False, ic_before_tls := Some (in_clear c')\<rparr>)"
    unfolding o using * q by auto
qed

text \<open>C34: On a connection that starts in the clear, when the server advertises STARTTLS, everything written in the clear is CAPABILITY and STARTTLS
  commands, whatever the server or somebody in between sends: never credentials, a mailbox or a message number.  When the transfer
  returns anything, the connection was upgraded, and at that moment no byte received in the clear was left to be taken for the server's.\<close>

theorem imap_starttls_protects:
  assumes "t_cap (ic_io c) = None" and "ic_plain c" and "ic_before_tls c = None" and "t_out (ic_io c) = []"
    and "imap_discover c = (Inr (preauth, caps), c1)" and "caps_has caps ''STARTTLS''"
    and "imap_run tls u c = (r, c')"
  shows "(\<exists>cmds. in_clear c' = concat (map line_bytes_of cmds) \<and>
      (\<forall>cmd\<in>set cmds. \<exists>k. cmd = imap_tag k @ '' CAPABILITY'' \<or> cmd = imap_tag k @ '' STARTTLS'')) \<and>
    (\<forall>body. r = Inr body \<longrightarrow> (\<exists>resp c2 io. imap_command ''STARTTLS'' c1 = (Inr resp, c2) \<and> ic_buf c2 = [] \<and>
      tls (ic_io c2) (u_host u) = Inr io \<and> ic_before_tls c' = Some (in_clear c')))"
proof -
  obtain cmds where d: "t_out (ic_io c1) = concat (map line_bytes_of cmds)" "\<forall>cmd\<in>set cmds. \<exists>k. cmd = imap_tag k @ '' CAPABILITY''"
    "t_cap (ic_io c1) = None" "ic_before_tls c1 = None" "ic_plain c1"
    using discover_written [OF assms(1, 5)] assms(2-4) by auto
  obtain q c2 where q: "imap_secure tls (u_host u) caps c1 = (q, c2)" by fastforce
  note up = secure_upgrade [OF d(3, 5) assms(6) d(4) q]
  let ?cmds = "cmds @ [imap_tag (ic_tagged c1 + 1) @ '' STARTTLS'']"
  have "in_clear c2 = concat (map line_bytes_of ?cmds)" using up(1) d(1) by simp
  moreover have "\<forall>cmd\<in>set ?cmds. \<exists>k. cmd = imap_tag k @ '' CAPABILITY'' \<or> cmd = imap_tag k @ '' STARTTLS''" using d(2) by auto
  moreover have "in_clear c' = in_clear c2 \<and> (\<forall>body. r = Inr body \<longrightarrow> (\<exists>caps'. q = Inr caps') \<and> ic_before_tls c' = ic_before_tls c2)"
  proof (cases q)
    case (Inl e)
    then show ?thesis using assms(7) by (auto simp: imap_run_def assms(5) q)
  next
    case (Inr caps')
    have "ic_before_tls (snd (imap_run tls u c)) = ic_before_tls c2"
      by (auto simp: imap_run_def assms(5) q Inr Let_def case_prod_unfold intro!: bind_keeps)
    moreover have "ic_before_tls c2 \<noteq> None" using up(2) [OF Inr] by auto
    ultimately show ?thesis using assms(7) Inr by (auto simp: in_clear_def)
  qed
  ultimately show ?thesis using up(2) by (smt (verit, best))
qed

text \<open>The hypotheses hold for a server that sends a message of three bytes, one byte at a time, and for one that offers STARTTLS.\<close>

definition example_imap_url :: url where
  "example_imap_url = \<lparr>u_scheme = ''imap'', u_userinfo = Some ''me:pw'', u_host = ''h'', u_port = 143, u_path = ''/IN;UID=7''\<rparr>"

abbreviation (input) plain_greeting :: string where "plain_greeting \<equiv> ''* OK [CAPABILITY IMAP4rev1] hi''"
abbreviation (input) tls_greeting :: string where "tls_greeting \<equiv> ''* OK [CAPABILITY STARTTLS] hi''"

definition fetch_items :: "imap_item list" where
  "fetch_items = [Literal ''* 1 FETCH (BODY[] {3}'' [0x61, 0x0D, 0x0A], Line '')'']"

definition example_imap :: "string \<Rightarrow> bytes \<Rightarrow> imap_conn" where
  "example_imap g i = \<lparr>ic_io = fresh_transport\<lparr>t_in := line_bytes_of g @ i\<rparr>, ic_sizes = replicate 20 0, ic_plain = True, ic_buf = [], ic_tagged = 0,
     ic_before_tls = None\<rparr>"

lemma greetings_ok: "greeting_ok plain_greeting [''IMAP4REV1'']" "greeting_ok tls_greeting [''STARTTLS'']"
  by code_simp+

lemma example_replies_ok:
  "imap_reply_ok (imap_tag 1) \<lparr>im_items = [], im_text = ''in''\<rparr>" "imap_reply_ok (imap_tag 2) \<lparr>im_items = [Line ''* 1 EXISTS''], im_text = ''in''\<rparr>"
  by code_simp+

lemma example_path: "imap_parse_path ''/IN;UID=7'' = (Some ''IN'', Some 7)"
proof -
  have "percent_decode ''IN'' = ''IN''" by code_simp
  moreover have "parse_unsigned (2 ^ 32 - 1) ''7'' = Some 7" by (simp add: parse_unsigned_def)
  ultimately show ?thesis by (simp add: imap_parse_path_def strip_prefix_def starts_with_def find_char_def)
qed

lemma example_literal: "extract_literal_size ''* 1 FETCH (BODY[] {3}'' = Some 3"
proof -
  have "trim_end ''* 1 FETCH (BODY[] {3}'' = ''* 1 FETCH (BODY[] {3}''" by (rule trim_end_trimmed) (simp add: trimmed_def graphic_def)
  moreover have "trim_end_matches (\<lambda>c. c = CHR 0x0D \<or> c = CHR 0x0A) ''* 1 FETCH (BODY[] {3}'' = ''* 1 FETCH (BODY[] {3}''"
    by (simp add: trim_end_matches_def)
  moreover have "parse_unsigned (2 ^ 64 - 1) ''3'' = Some 3" by (simp add: parse_unsigned_def)
  ultimately show ?thesis by (simp add: extract_literal_size_def rfind_char_def)
qed

lemma example_message_ok: "imap_reply_ok (imap_tag 3) \<lparr>im_items = fetch_items, im_text = ''in''\<rparr>"
proof -
  have "line_text ''* 1 FETCH (BODY[] {3}''" "item_ok (imap_tag 3) (Line '')'')" by code_simp+
  then have "list_all (item_ok (imap_tag 3)) fetch_items" by (simp add: fetch_items_def example_literal)
  moreover have "line_text (accepted_line (imap_tag 3) \<lparr>im_items = [], im_text = ''in''\<rparr>)"
    "trimmed (accepted_line (imap_tag 3) \<lparr>im_items = [], im_text = ''in''\<rparr>)"
    "extract_literal_size (accepted_line (imap_tag 3) \<lparr>im_items = [], im_text = ''in''\<rparr>) = None" by code_simp+
  ultimately show ?thesis by (simp add: imap_reply_ok_def fetch_items_def accepted_line_def)
qed


theorem imap_starttls_protects_witness:
  "let c = example_imap tls_greeting []; c' = snd (imap_run (\<lambda>t _. Inr t) example_imap_url c)
   in \<exists>cmds. in_clear c' = concat (map line_bytes_of cmds) \<and> (\<forall>cmd\<in>set cmds. \<exists>k. cmd = imap_tag k @ '' CAPABILITY'' \<or> cmd = imap_tag k @ '' STARTTLS'')"
proof -
  let ?c = "example_imap tls_greeting []"
  have c: "t_cap (ic_io ?c) = None" "ic_plain ?c" "ic_before_tls ?c = None" "t_out (ic_io ?c) = []" "unread ?c = line_bytes_of tls_greeting @ []"
    by (simp_all add: example_imap_def fresh_transport_def unread_def)
  obtain c1 where d: "imap_discover ?c = (Inr (False, [''STARTTLS'']), c1)" using greeting_read [OF greetings_ok(2) c(5)] by blast
  have caps: "caps_has [''STARTTLS''] ''STARTTLS''" by code_simp
  obtain r c' where r: "imap_run (\<lambda>t _. Inr t) example_imap_url ?c = (r, c')" by fastforce
  from imap_starttls_protects [OF c(1-4) d caps r] show ?thesis by (simp add: Let_def r)
qed

end
