(* ===== verification/Spec2Isabelle.thy ===== *)
theory Spec2Isabelle
  imports Hpack_Int Huffman_Codec H2_Wire Http1_Wire Client Websocket Mqtt Tftp Ldap Ldap_Typed H3_Wire Pop3 Dict Rtsp Ftp Imap
begin

text \<open>
  This library models rsurl, a curl-like transfer library in Rust (\<open>src/src\<close>), and proves what makes its
  components correct.

  Parts.  A transfer starts from a URL (\<open>url.rs\<close>, theory \<open>Url\<close>).  For HTTP the client (\<open>http.rs\<close>) builds a request
  (\<open>Http_Types\<close>), writes it in HTTP/1.1 (\<open>Http1_Write\<close>) or sends it on an HTTP/2 connection (\<open>http2.rs\<close>), reads the
  response (\<open>Http1_Read\<close>), undoes content codings (\<open>compress.rs\<close>, \<open>Compress\<close>), keeps cookies (\<open>cookie.rs\<close>,
  \<open>Cookie_Date\<close>, \<open>Cookie\<close>) and parks the connection in a pool (\<open>pool.rs\<close>, \<open>Pool\<close>).  \<open>Client_Conn\<close> is one transfer:
  dialling, version choice, pooled and fresh attempts and multiplexed batches; \<open>Client\<close> is the redirect loop around it,
  with the jar.  The other protocols the URL schemes name share the URL, the transport and the errors: \<open>Websocket\<close>
  (\<open>websocket.rs\<close>).  HTTP/2 is layered the way the
  source is: frames (\<open>H2_Frame\<close>), settings (\<open>H2_Settings\<close>), flow-control windows (\<open>H2_Flow\<close>), HPACK integers
  (\<open>Hpack_Int\<close>), Huffman strings (\<open>Hpack_Huffman\<close>, \<open>Huffman_Codec\<close>), tables (\<open>Hpack_Table\<close>) and blocks (\<open>Hpack\<close>),
  the stream state machine (\<open>H2_Stream\<close>), messages (\<open>H2_Request\<close>), the connection with its frame handlers (\<open>H2_Conn\<close>),
  the request drivers (\<open>H2_Drive\<close>, \<open>H2_Mux\<close>) and the wire image of a request (\<open>H2_Wire\<close>).

  Conventions.  \<open>Prelude\<close> holds the error type of \<open>error.rs\<close>, the result monad on a sum type (\<open>Inl\<close> is the error),
  a state-and-result monad \<open>bindS\<close>, and the transport: the bytes still to be read, the bytes written, and the error (if
  any) that ends the input; \<open>t_cap\<close> bounds what can be written before a write fails.  What the peer sends is arbitrary.  \<open>Codec\<close> is the
  locale of encoders and decoders whose laws the integer, frame and header codecs interpret.  Strings are lists of UTF-8
  bytes (\<open>Rust_Str\<close>, with the \<open>str\<close> operations the source calls); an error message is its format string.  Machine
  integers are words, or numbers with the bounds written out where the code checks them.

  Bounds and fuel.  Most loops terminate by a measure (bytes left, frames left, requests left) and are total functions.
  The sending loop of \<open>H2_Drive\<close> and the multiplexing loop of \<open>H2_Mux\<close> are partial functions into \<open>option\<close>, where
  \<open>None\<close> is a loop that does not return; that they return whatever the peer does is a theorem, and \<open>Client\<close> carries it up
  to whole transfers.  No definition needs fuel.

  Parameters.  The decompressors of the compcol crate, TLS, DNS, sockets and the clock are not in the repository's code:
  they are arguments of the definitions that use them.

  What the lemmas show.  HPACK: both tables stay in step, so that requests arrive as meant; the decoder's memory is
  bounded; integers and Huffman strings are exactly inverted.  Frames, settings, windows and streams: round trips, the
  exact set of accepted payloads, windows never overdrawn, no DATA after END_STREAM.  Connection: an invariant that every
  inbound frame preserves, termination of the drivers, one result for each multiplexed request.  HTTP/1.1: no
  caller-supplied text forges a line; framed responses on one connection are read back in order; ambiguous lengths are
  refused.  URLs: accepted URLs hold nothing injectable and print back.  Pools: no connection is handed out twice, caps
  hold.  Transfers: credentials and cookies stay on their origin across redirects, unverified TLS never meets the pools,
  every transfer returns.  WebSocket: fragmented messages with interleaved control frames are read whole, what is sent is
  one masked frame that a server reads back, messages are bounded.  Cookies: a cookie goes back only to hosts in its scope; the jar survives its file.

  Not modelled: see the components of the manifest for the other protocols, TLS backends, the command line and the C
  bindings.  Verbose trace output is left out everywhere: it is diagnostic text on a separate writer.
\<close>

end
